(* ===== verification/Prelude.thy ===== *)
theory Prelude
  imports Complex_Main "HOL-Library.Word"
begin

text \<open>
  Shared vocabulary of the development: C integers as words, little-endian byte
  images of integers (the targets are LP64 little-endian machines), and a byte
  addressed memory with block reads and writes.  The collections \<open>mem_simps\<close>
  (reads over writes) and \<open>le_simps\<close> (byte images) are filled here and used by
  every component.
\<close>

unbundle bit_operations_syntax

named_theorems mem_simps
named_theorems le_simps

section \<open>C integer types\<close>

type_synonym byte = "8 word"
type_synonym i32 = "32 word"
type_synonym u32 = "32 word"
type_synonym u64 = "64 word"

lemma unat_byte_lt: "unat (b :: byte) < 256"
  using unsigned_less [of b, where ?'a = nat] by simp

lemma unat_u32_lt: "unat (w :: u32) < 4294967296"
  using unsigned_less [of w, where ?'a = nat] by simp

lemma unat_u64_lt: "unat (w :: u64) < 18446744073709551616"
  using unsigned_less [of w, where ?'a = nat] by simp

lemma unat_of_nat_u32: "n < 4294967296 \<Longrightarrow> unat (of_nat n :: u32) = n"
  by (simp add: unat_of_nat)

lemma unat_of_nat_u64: "n < 18446744073709551616 \<Longrightarrow> unat (of_nat n :: u64) = n"
  by (simp add: unat_of_nat)

lemma uint_of_int_u32: "0 \<le> i \<Longrightarrow> i < 4294967296 \<Longrightarrow> uint (of_int i :: u32) = i"
  by (simp add: unsigned_of_int take_bit_int_eq_self)

lemma unat_ucast_u64 [simp]: "unat (ucast (w :: u32) :: u64) = unat w"
  using unat_u32_lt [of w] by (simp add: unsigned_ucast_eq take_bit_nat_eq_self)

lemma div_less_bound: "0 < b \<Longrightarrow> a < m * b \<Longrightarrow> a div b < (m :: int)"
proof (rule ccontr)
  assume b: "0 < b" and a: "a < m * b" and "\<not> a div b < m"
  then have "m * b \<le> a div b * b" by (intro mult_right_mono) simp_all
  also have "\<dots> \<le> a" using div_mult_mod_eq [of a b] pos_mod_sign [OF b, of a] by linarith
  finally show False using a by simp
qed

lemma uint_byte: "uint (b :: byte) < 256"
  using unsigned_less [of b, where ?'a = int] by simp

lemma sint_byte: "sint (b :: byte) = (if uint b < 128 then uint b else uint b - 256)"
proof -
  have "(uint b + 128) mod 256 = (if uint b < 128 then uint b + 128 else uint b - 128)"
  proof (cases "uint b < 128")
    case True
    then show ?thesis by (simp add: mod_pos_pos_trivial)
  next
    case False
    have "(uint b + 128) mod 256 = ((uint b - 128) + 256) mod 256" by (simp add: add.commute)
    also have "\<dots> = (uint b - 128) mod 256" by (rule mod_add_self2)
    also have "\<dots> = uint b - 128" using False uint_byte [of b] by (intro mod_pos_pos_trivial) simp_all
    finally show ?thesis using False by simp
  qed
  then show ?thesis
    by (simp add: sint_uint signed_take_bit_eq_take_bit_shift take_bit_eq_mod)
qed

text \<open>The conversion of an \<^verbatim>\<open>int\<close> (or \<^verbatim>\<open>long\<close>) argument to \<^verbatim>\<open>size_t\<close>.\<close>

definition csize :: "i32 \<Rightarrow> nat" where
  "csize w = nat (sint w mod 2 ^ 64)"

text \<open>\<^verbatim>\<open>&((T*)base)[i]\<close> for an \<^verbatim>\<open>int\<close> index \<open>i\<close> and \<open>sz = sizeof(T)\<close>.\<close>

definition index_addr :: "nat \<Rightarrow> i32 \<Rightarrow> nat \<Rightarrow> nat" where
  "index_addr base i sz = nat (int base + sint i * int sz)"

lemma sint_of_nat_small [simp]: "n < 2147483648 \<Longrightarrow> sint (of_nat n :: i32) = int n"
  by (simp add: signed_of_nat signed_take_bit_int_eq_self)

lemma csize_of_nat [simp]: "n < 2147483648 \<Longrightarrow> csize (of_nat n) = n"
  by (simp add: csize_def)

lemma index_addr_of_nat [simp]:
  "n < 2147483648 \<Longrightarrow> index_addr base (of_nat n) sz = base + n * sz"
  by (simp add: index_addr_def nat_add_distrib nat_mult_distrib flip: of_nat_add of_nat_mult)

section \<open>Little-endian byte images\<close>

fun le_bytes :: "nat \<Rightarrow> nat \<Rightarrow> byte list" where
  "le_bytes 0 v = []"
| "le_bytes (Suc n) v = of_nat (v mod 256) # le_bytes n (v div 256)"

fun le_val :: "byte list \<Rightarrow> nat" where
  "le_val [] = 0"
| "le_val (b # bs) = unat b + 256 * le_val bs"

lemma length_le_bytes [simp, le_simps]: "length (le_bytes n v) = n"
  by (induction n arbitrary: v) auto

lemma unat_byte_of_nat_mod [simp]: "unat (of_nat (v mod 256) :: byte) = v mod 256"
  by (simp add: unat_of_nat)

lemma le_val_le_bytes_mod: "le_val (le_bytes n v) = v mod 256 ^ n"
proof (induction n arbitrary: v)
  case 0
  then show ?case by simp
next
  case (Suc n)
  have "le_val (le_bytes (Suc n) v) = v mod 256 + 256 * ((v div 256) mod 256 ^ n)"
    by (simp add: Suc.IH)
  also have "\<dots> = v mod (256 * 256 ^ n)"
    by (simp add: mod_mult2_eq)
  finally show ?case by simp
qed

lemma le_val_le_bytes [simp, le_simps]: "v < 256 ^ n \<Longrightarrow> le_val (le_bytes n v) = v"
  by (simp add: le_val_le_bytes_mod)

lemma le_val_bound: "le_val bs < 256 ^ length bs"
proof (induction bs)
  case Nil
  then show ?case by simp
next
  case (Cons b bs)
  have "unat b < 256"
    by (rule unat_byte_lt)
  with Cons.IH show ?case by simp
qed

text \<open>A 32-bit and a 64-bit field of a C struct.\<close>

definition enc32 :: "u32 \<Rightarrow> byte list" where "enc32 w = le_bytes 4 (unat w)"
definition dec32 :: "byte list \<Rightarrow> u32" where "dec32 bs = of_nat (le_val bs)"
definition enc64 :: "u64 \<Rightarrow> byte list" where "enc64 w = le_bytes 8 (unat w)"
definition dec64 :: "byte list \<Rightarrow> u64" where "dec64 bs = of_nat (le_val bs)"

lemma length_enc32 [simp, le_simps]: "length (enc32 w) = 4"
  by (simp add: enc32_def)

lemma length_enc64 [simp, le_simps]: "length (enc64 w) = 8"
  by (simp add: enc64_def)

lemma dec32_enc32 [simp, le_simps]: "dec32 (enc32 w) = w"
proof -
  have "unat w < 256 ^ 4"
    using unat_u32_lt [of w] by simp
  then show ?thesis
    by (simp add: enc32_def dec32_def)
qed

lemma dec64_enc64 [simp, le_simps]: "dec64 (enc64 w) = w"
proof -
  have "unat w < 256 ^ 8"
    using unat_u64_lt [of w] by simp
  then show ?thesis
    by (simp add: enc64_def dec64_def)
qed

section \<open>Byte memory\<close>

type_synonym mem = "nat \<Rightarrow> byte"

definition rd :: "mem \<Rightarrow> nat \<Rightarrow> nat \<Rightarrow> byte list" where
  "rd m a n = map m [a..<a + n]"

definition wr :: "mem \<Rightarrow> nat \<Rightarrow> byte list \<Rightarrow> mem" where
  "wr m a bs = (\<lambda>x. if a \<le> x \<and> x < a + length bs then bs ! (x - a) else m x)"

lemma length_rd [simp, mem_simps]: "length (rd m a n) = n"
  by (simp add: rd_def)

lemma rd_0 [simp, mem_simps]: "rd m a 0 = []"
  by (simp add: rd_def)

lemma wr_Nil [simp, mem_simps]: "wr m a [] = m"
  by (auto simp: wr_def fun_eq_iff)

lemma nth_rd [simp]: "i < n \<Longrightarrow> rd m a n ! i = m (a + i)"
  by (simp add: rd_def)

lemma rd_add: "rd m a (n + k) = rd m a n @ rd m (a + n) k"
  by (rule nth_equalityI) (auto simp: nth_append)

lemma rd_cong: "(\<And>x. a \<le> x \<Longrightarrow> x < a + n \<Longrightarrow> m x = m' x) \<Longrightarrow> rd m a n = rd m' a n"
  by (rule nth_equalityI) auto

lemma wr_inside [simp]: "a \<le> x \<Longrightarrow> x < a + length bs \<Longrightarrow> wr m a bs x = bs ! (x - a)"
  by (simp add: wr_def)

lemma wr_outside [simp]: "x < a \<or> a + length bs \<le> x \<Longrightarrow> wr m a bs x = m x"
  by (auto simp: wr_def)

lemma rd_wr_same [simp, mem_simps]: "n = length bs \<Longrightarrow> rd (wr m a bs) a n = bs"
  by (rule nth_equalityI) auto

lemma rd_wr_within:
  assumes "a \<le> b" and "b + n \<le> a + length bs"
  shows "rd (wr m a bs) b n = take n (drop (b - a) bs)"
  using assms by (intro nth_equalityI) auto

lemma rd_wr_disjoint [mem_simps]:
  "b + n \<le> a \<or> a + length bs \<le> b \<Longrightarrow> rd (wr m a bs) b n = rd m b n"
  by (rule rd_cong) (auto simp: wr_def)

lemma take_rd [simp]: "k \<le> n \<Longrightarrow> take k (rd m a n) = rd m a k"
  by (rule nth_equalityI) auto

lemma drop_rd [simp]: "k \<le> n \<Longrightarrow> drop k (rd m a n) = rd m (a + k) (n - k)"
  by (rule nth_equalityI) (auto simp: add.assoc)

lemma wr_commute:
  assumes "a + length bs \<le> b \<or> b + length cs \<le> a"
  shows "wr (wr m a bs) b cs = wr (wr m b cs) a bs"
  using assms by (auto simp: wr_def fun_eq_iff)

lemma wr_append: "wr (wr m a xs) (a + length xs) ys = wr m a (xs @ ys)"
  by (auto simp: wr_def fun_eq_iff nth_append)

section \<open>Writing a block of a buffer held as a list\<close>

definition splice :: "'a list \<Rightarrow> nat \<Rightarrow> 'a list \<Rightarrow> 'a list" where
  "splice buf pos xs = take pos buf @ xs @ drop (pos + length xs) buf"

lemma length_splice [simp]: "pos + length xs \<le> length buf \<Longrightarrow> length (splice buf pos xs) = length buf"
  by (simp add: splice_def)

lemma splice_get [simp]:
  "pos + length xs \<le> length buf \<Longrightarrow> take (length xs) (drop pos (splice buf pos xs)) = xs"
  by (simp add: splice_def)

lemma take_splice [simp]:
  "pos + length xs \<le> length buf \<Longrightarrow>
   take (pos + length xs) (splice buf pos xs) = take pos buf @ xs"
  by (simp add: splice_def)

section \<open>Lists\<close>

lemma fold_invariant_on:
  assumes "P s" and "\<And>x s. x \<in> set xs \<Longrightarrow> P s \<Longrightarrow> P (f x s)"
  shows "P (fold f xs s)"
  using assms by (induction xs arbitrary: s) auto

lemma map_of_filter_neq:
  "map_of (filter (\<lambda>p. fst p \<noteq> k) xs) = (map_of xs)(k := None)"
  by (induction xs) (auto simp: fun_eq_iff)

lemma length_takeWhile_eq:
  assumes "n \<le> length xs" and "\<And>i. i < n \<Longrightarrow> P (xs ! i)" and "n < length xs \<Longrightarrow> \<not> P (xs ! n)"
  shows "length (takeWhile P xs) = n"
  using takeWhile_eq_take_P_nth [of n xs P] assms by simp

end
