(* ===== verification/Mdhim_Base.thy ===== *)
theory Mdhim_Base
  imports Prelude
begin

text \<open>
  The constants that the parts of MDHIM share: return codes (\<^verbatim>\<open>mdhim.h\<close>), message types and
  cursor operations (\<^verbatim>\<open>messages.h\<close>), key types (\<^verbatim>\<open>partitioner.h\<close>).  Values of C type \<^verbatim>\<open>int\<close> that are only compared are
  integers here.
\<close>

definition MDHIM_SUCCESS :: int where "MDHIM_SUCCESS = 0"
definition MDHIM_ERROR :: int where "MDHIM_ERROR = -1"
definition MDHIM_DB_ERROR :: int where "MDHIM_DB_ERROR = -2"

definition MDHIM_PUT :: i32 where "MDHIM_PUT = 1"
definition MDHIM_BULK_PUT :: i32 where "MDHIM_BULK_PUT = 2"
definition MDHIM_GET :: i32 where "MDHIM_GET = 3"
definition MDHIM_BULK_GET :: i32 where "MDHIM_BULK_GET = 4"
definition MDHIM_DEL :: i32 where "MDHIM_DEL = 5"
definition MDHIM_BULK_DEL :: i32 where "MDHIM_BULK_DEL = 6"
definition MDHIM_CLOSE :: i32 where "MDHIM_CLOSE = 7"
definition MDHIM_RECV :: i32 where "MDHIM_RECV = 8"
definition MDHIM_RECV_GET :: i32 where "MDHIM_RECV_GET = 9"
definition MDHIM_RECV_BULK_GET :: i32 where "MDHIM_RECV_BULK_GET = 10"
definition MDHIM_COMMIT :: i32 where "MDHIM_COMMIT = 11"

definition MDHIM_GET_EQ :: int where "MDHIM_GET_EQ = 0"
definition MDHIM_GET_NEXT :: int where "MDHIM_GET_NEXT = 1"
definition MDHIM_GET_PREV :: int where "MDHIM_GET_PREV = 2"
definition MDHIM_GET_FIRST :: int where "MDHIM_GET_FIRST = 3"
definition MDHIM_GET_LAST :: int where "MDHIM_GET_LAST = 4"

definition MDHIM_INT_KEY :: int where "MDHIM_INT_KEY = 1"
definition MDHIM_LONG_INT_KEY :: int where "MDHIM_LONG_INT_KEY = 2"
definition MDHIM_FLOAT_KEY :: int where "MDHIM_FLOAT_KEY = 3"
definition MDHIM_DOUBLE_KEY :: int where "MDHIM_DOUBLE_KEY = 4"
definition MDHIM_STRING_KEY :: int where "MDHIM_STRING_KEY = 5"
definition MDHIM_BYTE_KEY :: int where "MDHIM_BYTE_KEY = 6"

definition MAX_BULK_OPS :: int where "MAX_BULK_OPS = 1000000"

lemmas message_types = MDHIM_PUT_def MDHIM_BULK_PUT_def MDHIM_GET_def MDHIM_BULK_GET_def
  MDHIM_DEL_def MDHIM_BULK_DEL_def MDHIM_CLOSE_def MDHIM_RECV_def MDHIM_RECV_GET_def
  MDHIM_RECV_BULK_GET_def MDHIM_COMMIT_def

lemmas key_types = MDHIM_INT_KEY_def MDHIM_LONG_INT_KEY_def MDHIM_FLOAT_KEY_def
  MDHIM_DOUBLE_KEY_def MDHIM_STRING_KEY_def MDHIM_BYTE_KEY_def

lemmas return_codes = MDHIM_SUCCESS_def MDHIM_ERROR_def MDHIM_DB_ERROR_def

end
