(* ===== verification/Mpi_Comm.thy ===== *)
theory Mpi_Comm
  imports Prelude
begin

text \<open>
  \<^verbatim>\<open>src/mpi_to_openshmem.h\<close> and the communicator half of \<^verbatim>\<open>src/mpi_to_openshmem.c\<close>:
  error codes, datatypes and their sizes, groups, communicators, MPI_Init and
  MPI_Init_thread, and the operations that create or read groups and communicators.
  A communicator handle is \<open>None\<close> for NULL.  \<^verbatim>\<open>shmalloc\<close> is a parameter \<open>al k n\<close>: the
  address the \<open>k\<close>-th allocation of the call returns for \<open>n\<close> bytes, or \<open>None\<close>.  The
  contents of memory the code does not initialise is a parameter as well.  Output
  parameters are passed in with their old value and returned.
\<close>

section \<open>Constants\<close>

definition MPI_SUCCESS :: i32 where "MPI_SUCCESS = 0"
definition MPI_ERR_NO_MEM :: i32 where "MPI_ERR_NO_MEM = 1"
definition MPI_ERR_BUFFER :: i32 where "MPI_ERR_BUFFER = 2"
definition MPI_ERR_TYPE :: i32 where "MPI_ERR_TYPE = 4"
definition MPI_ERR_SIZE :: i32 where "MPI_ERR_SIZE = 5"
definition MPI_ERR_NO_SPACE :: i32 where "MPI_ERR_NO_SPACE = 6"
definition MPI_ERR_COMM :: i32 where "MPI_ERR_COMM = 7"

lemmas mpi_codes = MPI_SUCCESS_def MPI_ERR_NO_MEM_def MPI_ERR_BUFFER_def MPI_ERR_TYPE_def
  MPI_ERR_SIZE_def MPI_ERR_NO_SPACE_def MPI_ERR_COMM_def

type_synonym MPI_Datatype = i32

definition MPI_CHAR :: MPI_Datatype where "MPI_CHAR = 1"
definition MPI_UNSIGNED_CHAR :: MPI_Datatype where "MPI_UNSIGNED_CHAR = 2"
definition MPI_BYTE :: MPI_Datatype where "MPI_BYTE = 3"
definition MPI_SHORT :: MPI_Datatype where "MPI_SHORT = 4"
definition MPI_UNSIGNED_SHORT :: MPI_Datatype where "MPI_UNSIGNED_SHORT = 5"
definition MPI_INT :: MPI_Datatype where "MPI_INT = 6"
definition MPI_UNSIGNED :: MPI_Datatype where "MPI_UNSIGNED = 7"
definition MPI_LONG :: MPI_Datatype where "MPI_LONG = 8"
definition MPI_UNSIGNED_LONG :: MPI_Datatype where "MPI_UNSIGNED_LONG = 9"
definition MPI_FLOAT :: MPI_Datatype where "MPI_FLOAT = 10"
definition MPI_DOUBLE :: MPI_Datatype where "MPI_DOUBLE = 11"
definition MPI_LONG_DOUBLE :: MPI_Datatype where "MPI_LONG_DOUBLE = 12"
definition MPI_LONG_LONG :: MPI_Datatype where "MPI_LONG_LONG = 13"
definition MPI_PACKED :: MPI_Datatype where "MPI_PACKED = 14"

lemmas mpi_types = MPI_CHAR_def MPI_UNSIGNED_CHAR_def MPI_BYTE_def MPI_SHORT_def
  MPI_UNSIGNED_SHORT_def MPI_INT_def MPI_UNSIGNED_def MPI_LONG_def MPI_UNSIGNED_LONG_def
  MPI_FLOAT_def MPI_DOUBLE_def MPI_LONG_DOUBLE_def MPI_LONG_LONG_def MPI_PACKED_def

definition MAX_NUM_TRACKED :: int where "MAX_NUM_TRACKED = 6"
definition MAX_BUFFER_SIZE :: int where "MAX_BUFFER_SIZE = 200000"
definition MPI_THREAD_MULTIPLE :: i32 where "MPI_THREAD_MULTIPLE = 3"

section \<open>Sizes\<close>

text \<open>GetNumBytes: the product is computed in \<^verbatim>\<open>size_t\<close>, stored in a \<^verbatim>\<open>long\<close> and returned
  as an \<^verbatim>\<open>int\<close>, that is, modulo \<open>2 ^ 32\<close>.  An unknown type counts as \<^verbatim>\<open>char\<close>; the error code the
  code prepares for it is not returned.\<close>

definition GetNumBytes :: "i32 \<Rightarrow> MPI_Datatype \<Rightarrow> i32" where
  "GetNumBytes count dataType =
     (if dataType = MPI_CHAR \<or> dataType = MPI_UNSIGNED_CHAR \<or> dataType = MPI_BYTE then count * 1
      else if dataType = MPI_SHORT \<or> dataType = MPI_UNSIGNED_SHORT then count * 2
      else if dataType = MPI_INT \<or> dataType = MPI_UNSIGNED then count * 4
      else if dataType = MPI_LONG \<or> dataType = MPI_UNSIGNED_LONG then count * 8
      else if dataType = MPI_FLOAT then count * 4
      else if dataType = MPI_DOUBLE then count * 8
      else if dataType = MPI_LONG_DOUBLE then count * 16
      else if dataType = MPI_LONG_LONG then count * 8
      else count * 1)"

text \<open>The element size of a datatype, as a specification of the switch above.\<close>

definition elem_size :: "MPI_Datatype \<Rightarrow> nat" where
  "elem_size dt = unat (GetNumBytes 1 dt)"

lemma GetNumBytes_elem_size: "GetNumBytes c dt = c * of_nat (elem_size dt)"
  by (simp add: GetNumBytes_def elem_size_def)

lemma elem_size_pos [simp]: "0 < elem_size dt" and elem_size_le [simp]: "elem_size dt \<le> 16"
  by (simp_all add: elem_size_def GetNumBytes_def)

lemma es_bound: "n * elem_size dt < 2147483648 \<Longrightarrow> n < 2147483648"
proof -
  have "1 \<le> elem_size dt" using elem_size_pos [of dt] by linarith
  then have "n * 1 \<le> n * elem_size dt" by (rule mult_le_mono2)
  then have "n \<le> n * elem_size dt" by (simp only: mult_1_right)
  then show "n * elem_size dt < 2147483648 \<Longrightarrow> n < 2147483648" by (rule le_less_trans)
qed

lemma GetNumBytes_of_nat: "GetNumBytes (of_nat n) dt = of_nat (n * elem_size dt)"
  by (simp add: GetNumBytes_elem_size)

lemma csize_GetNumBytes:
  "n * elem_size dt < 2147483648 \<Longrightarrow> csize (GetNumBytes (of_nat n) dt) = n * elem_size dt"
  by (simp add: GetNumBytes_of_nat del: of_nat_mult)

section \<open>Groups, communicators, requests\<close>

record MPID_SendRecv =
  sr_tag :: i32
  sr_datatype :: i32
  sr_count :: i32
  sr_bufPtr :: nat
  sr_afterBufAreaPtr :: nat

record MPID_Group =
  g_size :: i32
  g_rank :: i32
  g_pe_rank :: i32
  g_pesInGroup :: "i32 list"

record MPID_Comm =
  c_rank :: i32
  c_size :: i32
  c_groupPtr :: "MPID_Group option"
  c_bufferPtr :: nat
  c_offset :: i32
  c_packPtr :: nat
  c_scratchPtr :: nat
  c_sendInfo :: "MPID_SendRecv list"

type_synonym MPI_Comm = "MPID_Comm option"

type_synonym alloc = "nat \<Rightarrow> nat \<Rightarrow> nat option"

section \<open>Start-up\<close>

text \<open>C's \<^verbatim>\<open>atol\<close>: white space, an optional sign, decimal digits.\<close>

definition is_space :: "char \<Rightarrow> bool" where
  "is_space c \<longleftrightarrow> c = CHR '' '' \<or> (9 \<le> (of_char c :: nat) \<and> (of_char c :: nat) \<le> 13)"

definition is_digit :: "char \<Rightarrow> bool" where
  "is_digit c \<longleftrightarrow> 48 \<le> (of_char c :: nat) \<and> (of_char c :: nat) \<le> 57"

definition digits_val :: "string \<Rightarrow> int" where
  "digits_val s = foldl (\<lambda>v c. 10 * v + (of_char c - 48)) 0 (takeWhile is_digit s)"

definition atol :: "string \<Rightarrow> int" where
  "atol s = (case dropWhile is_space s of
       [] \<Rightarrow> 0
     | c # cs \<Rightarrow> if c = CHR ''-'' then - digits_val cs
                 else if c = CHR ''+'' then digits_val cs else digits_val (c # cs))"

definition GetLongEnvVariable :: "(string \<rightharpoonup> string) \<Rightarrow> string \<Rightarrow> int \<Rightarrow> int" where
  "GetLongEnvVariable getenv envName defaultValue =
     (case getenv envName of None \<Rightarrow> defaultValue | Some v \<Rightarrow> atol v)"

text \<open>The tracked send/receive slots all start at the shared buffer.\<close>

definition init_sendrecv :: "nat \<Rightarrow> MPID_SendRecv" where
  "init_sendrecv sharedBuffer =
     \<lparr>sr_tag = 0, sr_datatype = -1, sr_count = 0, sr_bufPtr = sharedBuffer,
      sr_afterBufAreaPtr = sharedBuffer\<rparr>"

record mpi_globals =
  isMultiThreads :: bool
  MPI_COMM_WORLD :: MPI_Comm

text \<open>The world communicator as both start-up functions fill it in.\<close>

definition world_comm :: "nat \<Rightarrow> nat \<Rightarrow> i32 \<Rightarrow> nat \<Rightarrow> nat \<Rightarrow> nat \<Rightarrow> int \<Rightarrow> MPID_Comm" where
  "world_comm npes my_pe pe_rank sharedBuffer packedBuffer scratchBuffer maxNumTracked =
     \<lparr>c_rank = of_nat my_pe, c_size = of_nat npes,
      c_groupPtr = Some \<lparr>g_size = of_nat npes, g_rank = of_nat my_pe, g_pe_rank = pe_rank,
                         g_pesInGroup = map of_nat [0..<npes]\<rparr>,
      c_bufferPtr = sharedBuffer, c_offset = 0, c_packPtr = packedBuffer,
      c_scratchPtr = scratchBuffer,
      c_sendInfo = replicate (nat maxNumTracked) (init_sendrecv sharedBuffer)\<rparr>"

text \<open>The result is the return code (that of \<^verbatim>\<open>mlog_open\<close> when nothing fails) and the globals
  afterwards.  \<open>junkc\<close> is the uninitialised communicator that stays in MPI_COMM_WORLD when
  a later allocation fails.\<close>

definition MPI_Init ::
  "(string \<rightharpoonup> string) \<Rightarrow> alloc \<Rightarrow> MPID_Comm \<Rightarrow> i32 \<Rightarrow> nat \<Rightarrow> nat \<Rightarrow> mpi_globals \<Rightarrow> i32 \<times> mpi_globals"
  where
  "MPI_Init getenv al junkc mlog_ret npes my_pe gl =
     (let gl = gl\<lparr>isMultiThreads := False\<rparr>;
          maxNumTracked = GetLongEnvVariable getenv ''MAX_NUM_TRACKED'' MAX_NUM_TRACKED;
          maxSizeSend = GetLongEnvVariable getenv ''MAX_SIZE_SEND'' MAX_BUFFER_SIZE;
          maxSizePack = GetLongEnvVariable getenv ''MAX_SIZE_PACK'' MAX_BUFFER_SIZE;
          maxSizeScratch = GetLongEnvVariable getenv ''MAX_SIZE_SCRATCH'' MAX_BUFFER_SIZE
      in case al 0 (nat (maxSizeSend * maxNumTracked mod 2 ^ 64)) of
           None \<Rightarrow> (MPI_ERR_NO_MEM, gl)
         | Some sharedBuffer \<Rightarrow>
         (case al 1 (nat (maxSizePack mod 2 ^ 64)) of
           None \<Rightarrow> (MPI_ERR_NO_MEM, gl)
         | Some packedBuffer \<Rightarrow>
         (case al 2 (nat (maxSizeScratch mod 2 ^ 64)) of
           None \<Rightarrow> (MPI_ERR_NO_MEM, gl)
         | Some scratchBuffer \<Rightarrow>
         (let world = map_option (\<lambda>_. junkc) (al 3 48); gl = gl\<lparr>MPI_COMM_WORLD := world\<rparr>
          in if world = None then (MPI_ERR_NO_MEM, gl)
             else if al 4 24 = None then (MPI_ERR_NO_MEM, gl)
             else if al 5 (4 * npes) = None then (MPI_ERR_NO_MEM, gl)
             else if al 6 (nat (32 * maxNumTracked mod 2 ^ 64)) = None then (MPI_ERR_NO_MEM, gl)
             else (mlog_ret,
                   gl\<lparr>MPI_COMM_WORLD := Some (world_comm npes my_pe (of_nat my_pe)
                       sharedBuffer packedBuffer scratchBuffer maxNumTracked)\<rparr>)))))"

text \<open>MPI_Init_thread also returns \<open>*provided\<close>.  \<open>junk\<close> is the \<^verbatim>\<open>pe_rank\<close> field as
  allocated: MPI_Init sets it and MPI_Init_thread does not.\<close>

definition MPI_Init_thread ::
  "(string \<rightharpoonup> string) \<Rightarrow> alloc \<Rightarrow> MPID_Comm \<Rightarrow> i32 \<Rightarrow> i32 \<Rightarrow> nat \<Rightarrow> nat \<Rightarrow> mpi_globals \<Rightarrow> i32
     \<Rightarrow> i32 \<times> mpi_globals \<times> i32"
  where
  "MPI_Init_thread getenv al junkc junk mlog_ret npes my_pe gl provided =
     (let gl = gl\<lparr>isMultiThreads := True\<rparr>;
          maxNumTracked = GetLongEnvVariable getenv ''MAX_NUM_TRACKED'' MAX_NUM_TRACKED;
          maxSizeSend = GetLongEnvVariable getenv ''MAX_SIZE_SEND'' MAX_BUFFER_SIZE;
          maxSizePack = GetLongEnvVariable getenv ''MAX_SIZE_PACK'' MAX_BUFFER_SIZE;
          maxSizeScratch = GetLongEnvVariable getenv ''MAX_SIZE_SCRATCH'' MAX_BUFFER_SIZE
      in case al 0 (nat (maxSizeSend * maxNumTracked mod 2 ^ 64)) of
           None \<Rightarrow> (MPI_ERR_NO_MEM, gl, provided)
         | Some sharedBuffer \<Rightarrow>
         (case al 1 (nat (maxSizePack mod 2 ^ 64)) of
           None \<Rightarrow> (MPI_ERR_NO_MEM, gl, provided)
         | Some packedBuffer \<Rightarrow>
         (case al 2 (nat (maxSizeScratch mod 2 ^ 64)) of
           None \<Rightarrow> (MPI_ERR_NO_MEM, gl, provided)
         | Some scratchBuffer \<Rightarrow>
         (let world = map_option (\<lambda>_. junkc) (al 3 48); gl = gl\<lparr>MPI_COMM_WORLD := world\<rparr>
          in if world = None then (MPI_ERR_NO_MEM, gl, provided)
             else if al 4 24 = None then (MPI_ERR_NO_MEM, gl, provided)
             else if al 5 (4 * npes) = None then (MPI_ERR_NO_MEM, gl, provided)
             else if al 6 (nat (32 * maxNumTracked mod 2 ^ 64)) = None
               then (MPI_ERR_NO_MEM, gl, provided)
             else (mlog_ret,
                   gl\<lparr>MPI_COMM_WORLD := Some (world_comm npes my_pe junk
                       sharedBuffer packedBuffer scratchBuffer maxNumTracked)\<rparr>,
                   MPI_THREAD_MULTIPLE)))))"

section \<open>Reading a communicator\<close>

definition MPI_Comm_rank :: "MPI_Comm \<Rightarrow> i32 \<Rightarrow> i32 \<times> i32" where
  "MPI_Comm_rank comm rank =
     (case comm of None \<Rightarrow> (MPI_ERR_COMM, rank)
      | Some c \<Rightarrow> (case c_groupPtr c of None \<Rightarrow> (MPI_ERR_COMM, rank)
                  | Some g \<Rightarrow> (MPI_SUCCESS, g_rank g)))"

definition MPI_Comm_size :: "MPI_Comm \<Rightarrow> i32 \<Rightarrow> i32 \<times> i32" where
  "MPI_Comm_size comm sz =
     (case comm of None \<Rightarrow> (MPI_ERR_COMM, sz)
      | Some c \<Rightarrow> (case c_groupPtr c of None \<Rightarrow> (MPI_ERR_COMM, sz)
                  | Some g \<Rightarrow> (MPI_SUCCESS, g_size g)))"

text \<open>MPI_Comm_group overwrites its own parameter, never \<open>*grp\<close>.\<close>

definition MPI_Comm_group :: "MPI_Comm \<Rightarrow> MPID_Group \<Rightarrow> i32 \<times> MPID_Group" where
  "MPI_Comm_group comm grp =
     (case comm of None \<Rightarrow> (MPI_ERR_COMM, grp)
      | Some c \<Rightarrow> (if c_groupPtr c = None then (MPI_ERR_COMM, grp) else (MPI_SUCCESS, grp)))"

section \<open>Creating groups and communicators\<close>

text \<open>The loop of MPI_Group_incl from index \<open>i\<close>: the copied ranks and \<open>new_rank\<close>.\<close>

fun group_incl_loop :: "i32 \<Rightarrow> nat \<Rightarrow> i32 list \<Rightarrow> i32 \<Rightarrow> i32 list \<times> i32" where
  "group_incl_loop my_pe i [] new_rank = ([], new_rank)"
| "group_incl_loop my_pe i (r # rs) new_rank =
     (let (ps, nr) = group_incl_loop my_pe (Suc i) rs (if r = my_pe then of_nat i else new_rank)
      in (r # ps, nr))"

text \<open>\<open>junk\<close> is the uninitialised local \<^verbatim>\<open>new_rank\<close>; the given group is not read.\<close>

definition MPI_Group_incl ::
  "alloc \<Rightarrow> i32 \<Rightarrow> i32 \<Rightarrow> MPID_Group \<Rightarrow> i32 \<Rightarrow> i32 list \<Rightarrow> MPID_Group \<Rightarrow> i32 \<times> MPID_Group" where
  "MPI_Group_incl al junk my_pe grp n ranks newgroup =
     (case al 0 (nat (4 * sint n mod 2 ^ 64)) of
        None \<Rightarrow> (MPI_ERR_NO_MEM, newgroup)
      | Some _ \<Rightarrow>
          (let (pes, new_rank) = group_incl_loop my_pe 0 (take (nat (sint n)) ranks) junk
           in (MPI_SUCCESS,
               \<lparr>g_size = n, g_rank = new_rank, g_pe_rank = my_pe, g_pesInGroup = pes\<rparr>)))"

text \<open>MPI_Comm_create and MPI_Comm_dup read the group of \<open>comm\<close> without a NULL check, so they
  are meant for communicators that have one (\<open>comm_ok\<close> below).
  \<open>junkc\<close>: a communicator as \<^verbatim>\<open>shmalloc\<close> returns it (offset, pack and scratch pointers and
  the tracked slots keep its values); \<open>junkg\<close>: a group likewise.  \<open>acc\<close> is
  \<^verbatim>\<open>shmem_addr_accessible\<close>.\<close>

definition new_comm ::
  "MPID_Comm \<Rightarrow> MPID_Group \<Rightarrow> nat \<Rightarrow> i32 \<Rightarrow> i32 \<Rightarrow> i32 \<Rightarrow> i32 list \<Rightarrow> MPID_Comm" where
  "new_comm junkc junkg sharedBuffer my_pe rank sz pes =
     junkc\<lparr>c_rank := my_pe, c_size := sz, c_bufferPtr := sharedBuffer,
           c_groupPtr := Some (junkg\<lparr>g_rank := rank, g_size := sz, g_pesInGroup := pes\<rparr>)\<rparr>"

definition MPI_Comm_create ::
  "alloc \<Rightarrow> (nat \<Rightarrow> bool) \<Rightarrow> MPID_Comm \<Rightarrow> MPID_Group \<Rightarrow> nat \<Rightarrow> i32 \<Rightarrow> MPI_Comm \<Rightarrow> MPID_Group \<Rightarrow> MPI_Comm
     \<Rightarrow> i32 \<times> MPI_Comm" where
  "MPI_Comm_create al acc junkc junkg npes my_pe comm grp newcomm =
     (case comm of None \<Rightarrow> (MPI_ERR_COMM, newcomm)
      | Some c \<Rightarrow>
        (let g = the (c_groupPtr c);
             bIsPeInGroup = my_pe \<in> set (take (nat (sint (g_size g))) (g_pesInGroup g))
         in if \<not> bIsPeInGroup then (MPI_SUCCESS, newcomm)
            else case al 0 (nat MAX_BUFFER_SIZE) of None \<Rightarrow> (MPI_ERR_NO_MEM, newcomm)
              | Some sharedBuffer \<Rightarrow>
                if \<not> acc sharedBuffer then (MPI_ERR_BUFFER, newcomm)
                else if al 1 48 = None then (MPI_ERR_NO_MEM, None)
                else if al 2 24 = None then (MPI_ERR_NO_MEM, Some junkc)
                else if al 3 (4 * npes) = None then (MPI_ERR_NO_MEM, Some junkc)
                else (MPI_SUCCESS,
                      Some (new_comm junkc junkg sharedBuffer my_pe (g_rank grp) (g_size grp)
                             (take (nat (sint (g_size grp))) (g_pesInGroup grp))))))"

definition MPI_Comm_dup ::
  "alloc \<Rightarrow> (nat \<Rightarrow> bool) \<Rightarrow> MPID_Comm \<Rightarrow> MPID_Group \<Rightarrow> i32 \<Rightarrow> MPI_Comm \<Rightarrow> MPI_Comm \<Rightarrow> i32 \<times> MPI_Comm"
  where
  "MPI_Comm_dup al acc junkc junkg my_pe comm newcomm =
     (case comm of None \<Rightarrow> (MPI_ERR_COMM, newcomm)
      | Some c \<Rightarrow>
        (case al 0 (nat MAX_BUFFER_SIZE) of None \<Rightarrow> (MPI_ERR_NO_MEM, newcomm)
         | Some sharedBuffer \<Rightarrow>
           if \<not> acc sharedBuffer then (MPI_ERR_BUFFER, newcomm)
           else if al 1 48 = None then (MPI_ERR_NO_MEM, None)
           else if al 2 24 = None then (MPI_ERR_NO_MEM, Some junkc)
           else let orig = the (c_groupPtr c); numRanks = g_size orig
             in if al 3 (nat (4 * sint numRanks mod 2 ^ 64)) = None then (MPI_ERR_NO_MEM, Some junkc)
                else (MPI_SUCCESS,
                      Some (new_comm junkc junkg sharedBuffer my_pe (g_rank orig) numRanks
                             (take (nat (sint numRanks)) (g_pesInGroup orig))))))"

section \<open>Lemmas\<close>

lemma group_incl_loop_fst [simp]: "fst (group_incl_loop me i rs nr) = rs"
  by (induction me i rs nr rule: group_incl_loop.induct) (auto simp: split_beta Let_def)

lemma group_incl_loop_absent: "me \<notin> set rs \<Longrightarrow> snd (group_incl_loop me i rs nr) = nr"
  by (induction me i rs nr rule: group_incl_loop.induct) (auto simp: split_beta Let_def)

lemma group_incl_loop_present:
  assumes "j < length rs" and "rs ! j = me" and "distinct rs"
  shows "snd (group_incl_loop me i rs nr) = of_nat (i + j)"
  using assms
proof (induction me i rs nr arbitrary: j rule: group_incl_loop.induct)
  case (1 my_pe i new_rank)
  then show ?case by simp
next
  case (2 my_pe i r rs new_rank)
  show ?case
  proof (cases j)
    case 0
    with "2.prems" show ?thesis
      by (simp add: Let_def split_beta group_incl_loop_absent)
  next
    case (Suc k)
    with "2.prems" "2.IH" [of k] show ?thesis
      by (simp add: Let_def split_beta)
  qed
qed

text \<open>A well-formed communicator: it has a group whose member array has the stated size.\<close>

definition comm_ok :: "MPID_Comm \<Rightarrow> bool" where
  "comm_ok c \<longleftrightarrow> (\<exists>g. c_groupPtr c = Some g \<and> 0 \<le> sint (g_size g) \<and>
     length (g_pesInGroup g) = nat (sint (g_size g)))"

lemma world_comm_ok:
  "npes < 2147483648 \<Longrightarrow> comm_ok (world_comm npes me r sb pb scr n)"
  by (simp add: comm_ok_def world_comm_def)

text \<open>Both calls in a row: the new rank is what the loop of MPI_Group_incl leaves in \<^verbatim>\<open>new_rank\<close>.\<close>

lemma incl_create:
  assumes al: "\<And>k n. al k n \<noteq> None" "\<And>k n. al' k n \<noteq> None" and acc: "\<And>a. acc a" and len: "length ranks < 2147483648"
    and c: "c_groupPtr c = Some cg" "me \<in> set (take (nat (sint (g_size cg))) (g_pesInGroup cg))"
  obtains g n where "MPI_Group_incl al junk me grpi (of_nat (length ranks)) ranks ng = (MPI_SUCCESS, g)"
    "MPI_Comm_create al' acc junkc junkg npes me (Some c) g nc = (MPI_SUCCESS, Some n)"
    "c_groupPtr n = Some (junkg\<lparr>g_rank := snd (group_incl_loop me 0 ranks junk), g_size := of_nat (length ranks),
       g_pesInGroup := ranks\<rparr>)"
proof -
  obtain a where a: "al 0 (nat (4 * sint (of_nat (length ranks) :: i32) mod 2 ^ 64)) = Some a" using al(1) by blast
  obtain b where b: "al' 0 (nat MAX_BUFFER_SIZE) = Some b" using al(2) by blast
  obtain nr where loop: "group_incl_loop me 0 ranks junk = (ranks, nr)"
    using group_incl_loop_fst [of me 0 ranks junk] by (metis prod.collapse)
  show thesis
    using that a b loop len acc c al(2) by (simp add: MPI_Group_incl_def MPI_Comm_create_def new_comm_def Let_def)
qed

section \<open>Properties\<close>

text \<open>The integer GetNumBytes returns is the number of elements times the element size
  modulo \<open>2 ^ 32\<close>: converted to \<^verbatim>\<open>size_t\<close> it is the exact size of the data if that is below
  \<open>2 ^ 31\<close>, and is never the exact size otherwise.\<close>

theorem GetNumBytes_exact_iff:
  assumes "n < 2147483648"
  shows "csize (GetNumBytes (of_nat n) dt) = n * elem_size dt \<longleftrightarrow> n * elem_size dt < 2147483648"
proof
  assume eq: "csize (GetNumBytes (of_nat n) dt) = n * elem_size dt"
  show "n * elem_size dt < 2147483648"
  proof (rule ccontr)
    assume big: "\<not> n * elem_size dt < 2147483648"
    define v where "v = sint (GetNumBytes (of_nat n) dt)"
    have v: "- 2147483648 \<le> v" "v < 2147483648"
      using sint_range_size [of "GetNumBytes (of_nat n) dt"] by (simp_all add: v_def word_size)
    have "n * elem_size dt \<le> n * 16" by (rule mult_le_mono2 [OF elem_size_le])
    then have small: "n * elem_size dt < 34359738368" using assms by linarith
    define N where "N = n * elem_size dt"
    have "nat (v mod 2 ^ 64) = N" using eq by (simp add: csize_def v_def N_def)
    moreover have "(v + 2 ^ 64) mod 2 ^ 64 = v + 2 ^ 64" if "v < 0"
      by (rule mod_pos_pos_trivial) (use v that in simp_all)
    then have "v mod 2 ^ 64 = (if 0 \<le> v then v else v + 2 ^ 64)"
      using v by (simp add: mod_pos_pos_trivial)
    ultimately show False
      using v big small unfolding N_def [symmetric] by (simp split: if_splits)
  qed
qed (rule csize_GetNumBytes)

theorem GetNumBytes_exact_iff_witness:
  "csize (GetNumBytes (of_nat 3) MPI_LONG) = 24 \<and>
   csize (GetNumBytes (of_nat 268435456) MPI_LONG) \<noteq> 268435456 * 8"
  using GetNumBytes_exact_iff [of 3 MPI_LONG] GetNumBytes_exact_iff [of 268435456 MPI_LONG]
  by (simp add: elem_size_def GetNumBytes_def mpi_types)

text \<open>When every allocation succeeds, MPI_Init leaves an MPI_COMM_WORLD in which the
  caller's rank is its processing-element number, the size is the number of processing elements
  and the group lists all of them in order; it returns what the log library returned.\<close>

theorem MPI_Init_world:
  assumes "\<And>k n. al k n = Some (addr k n)"
  shows "\<exists>c g. MPI_Init getenv al junkc mlog_ret npes me gl =
      (mlog_ret, gl\<lparr>isMultiThreads := False, MPI_COMM_WORLD := Some c\<rparr>) \<and>
    MPI_Comm_rank (Some c) rr = (MPI_SUCCESS, of_nat me) \<and>
    MPI_Comm_size (Some c) ss = (MPI_SUCCESS, of_nat npes) \<and>
    c_groupPtr c = Some g \<and> g_pesInGroup g = map of_nat [0..<npes]"
proof -
  have "\<exists>a b d n. MPI_Init getenv al junkc mlog_ret npes me gl =
      (mlog_ret, gl\<lparr>isMultiThreads := False,
        MPI_COMM_WORLD := Some (world_comm npes me (of_nat me) a b d n)\<rparr>)"
    using assms by (simp add: MPI_Init_def Let_def) blast
  then show ?thesis
    by (fastforce simp: MPI_Comm_rank_def MPI_Comm_size_def world_comm_def)
qed

theorem MPI_Init_world_witness:
  "\<exists>gl. MPI_Init Map.empty (\<lambda>k n. Some (1000 * k)) (world_comm 0 0 0 0 0 0 0) 1 4 2
      \<lparr>isMultiThreads = True, MPI_COMM_WORLD = None\<rparr> = (1, gl) \<and> \<not> isMultiThreads gl"
  using MPI_Init_world [of "\<lambda>k n. Some (1000 * k)" "\<lambda>k n. 1000 * k" Map.empty
      "world_comm 0 0 0 0 0 0 0" 1 4 2 "\<lparr>isMultiThreads = True, MPI_COMM_WORLD = None\<rparr>" 0 0]
  by fastforce

text \<open>If the shared, pack or scratch buffer, the communicator, its group, the member
  array or the tracking slots cannot be allocated, both start-up functions return
  MPI_ERR_NO_MEM.\<close>

theorem MPI_Init_out_of_memory:
  assumes "k \<le> 6" and "\<And>n. al k n = None"
  shows "fst (MPI_Init getenv al junkc mlog_ret npes me gl) = MPI_ERR_NO_MEM \<and>
    fst (MPI_Init_thread getenv al junkc junk mlog_ret npes me gl provided) = MPI_ERR_NO_MEM"
proof -
  have "k = 0 \<or> k = 1 \<or> k = 2 \<or> k = 3 \<or> k = 4 \<or> k = 5 \<or> k = 6" using assms(1) by arith
  then show ?thesis
    using assms(2) by (auto simp: MPI_Init_def MPI_Init_thread_def Let_def split: option.split)
qed

theorem MPI_Init_out_of_memory_witness:
  "fst (MPI_Init Map.empty (\<lambda>k n. if k = 3 then None else Some 8) (world_comm 0 0 0 0 0 0 0) 9 4 2
     \<lparr>isMultiThreads = True, MPI_COMM_WORLD = None\<rparr>) = MPI_ERR_NO_MEM"
  using MPI_Init_out_of_memory [of 3 "\<lambda>k n. if k = 3 then None else Some 8"] by simp

text \<open>An empty group, for the examples.\<close>

abbreviation null_group :: MPID_Group where
  "null_group \<equiv> \<lparr>g_size = 0, g_rank = 0, g_pe_rank = 0, g_pesInGroup = []\<rparr>"

text \<open>C27.  Building a communicator from a list of distinct ranks, with MPI_Group_incl and then
  MPI_Comm_create on a communicator that contains the caller: the caller's rank in the result
  is its position in the list, the size is the length of the list and the members are the
  list; duplicating the result with MPI_Comm_dup gives the same rank, size and members.\<close>

theorem sub_communicator:
  assumes al: "\<And>k n. al k n = Some (addr k)" and acc: "\<And>a. acc a"
    and len: "length ranks < 2147483648" and dist: "distinct ranks"
    and j: "j < length ranks" "ranks ! j = me"
    and c: "c_groupPtr c = Some cg" "me \<in> set (take (nat (sint (g_size cg))) (g_pesInGroup cg))"
  shows "\<exists>g n d dg. MPI_Group_incl al junk me grpi (of_nat (length ranks)) ranks ng = (MPI_SUCCESS, g) \<and>
    MPI_Comm_create al acc junkc junkg npes me (Some c) g nc = (MPI_SUCCESS, Some n) \<and>
    MPI_Comm_rank (Some n) rr = (MPI_SUCCESS, of_nat j) \<and>
    MPI_Comm_size (Some n) ss = (MPI_SUCCESS, of_nat (length ranks)) \<and>
    MPI_Comm_dup al acc junkc junkg me (Some n) nc = (MPI_SUCCESS, Some d) \<and>
    MPI_Comm_rank (Some d) rr = (MPI_SUCCESS, of_nat j) \<and>
    MPI_Comm_size (Some d) ss = (MPI_SUCCESS, of_nat (length ranks)) \<and>
    c_groupPtr d = Some dg \<and> g_pesInGroup dg = ranks"
proof -
  have ne: "al k n \<noteq> None" for k n by (simp add: al)
  obtain g n where "MPI_Group_incl al junk me grpi (of_nat (length ranks)) ranks ng = (MPI_SUCCESS, g)"
    "MPI_Comm_create al acc junkc junkg npes me (Some c) g nc = (MPI_SUCCESS, Some n)"
    "c_groupPtr n = Some (junkg\<lparr>g_rank := snd (group_incl_loop me 0 ranks junk), g_size := of_nat (length ranks),
       g_pesInGroup := ranks\<rparr>)"
    by (rule incl_create [OF ne ne acc len c])
  then show ?thesis
    using group_incl_loop_present [OF j dist, of 0 junk] al acc len
    by (simp add: MPI_Comm_dup_def new_comm_def MPI_Comm_rank_def MPI_Comm_size_def Let_def)
qed

theorem sub_communicator_witness:
  "\<exists>g n. MPI_Group_incl (\<lambda>k n. Some k) 77 3 null_group
      2 [1, 3] null_group = (MPI_SUCCESS, g) \<and>
    MPI_Comm_create (\<lambda>k n. Some k) (\<lambda>_. True) (world_comm 0 0 0 0 0 0 0) null_group 4 3
      (Some (world_comm 4 3 3 0 0 0 0)) g None = (MPI_SUCCESS, Some n) \<and>
    MPI_Comm_rank (Some n) 0 = (MPI_SUCCESS, 1)"
proof -
  have upt4: "[0..<4] = [0, 1, 2, 3::nat]" by (simp add: upt_rec)
  have "\<exists>cg. c_groupPtr (world_comm 4 3 3 0 0 0 0) = Some cg \<and>
      3 \<in> set (take (nat (sint (g_size cg))) (g_pesInGroup cg))"
    by (simp add: world_comm_def upt4)
  then obtain cg where "c_groupPtr (world_comm 4 3 3 0 0 0 0) = Some cg"
      "3 \<in> set (take (nat (sint (g_size cg))) (g_pesInGroup cg))" by blast
  from sub_communicator [where al = "\<lambda>k n. Some k" and addr = "\<lambda>k. k" and acc = "\<lambda>_. True"
      and ranks = "[1, 3]" and j = 1 and me = 3 and junk = 77 and ng = null_group and grpi = null_group
      and junkc = "world_comm 0 0 0 0 0 0 0" and junkg = null_group and npes = 4 and nc = None
      and rr = 0 and ss = 0, OF _ _ _ _ _ _ this]
  show ?thesis by simp blast
qed

text \<open>A member of the parent communicator that is not in the list of ranks still gets a
  communicator, and its rank in it is the value the uninitialised local \<^verbatim>\<open>new_rank\<close> had (the
  code tests membership in the parent's group instead of the new one).\<close>

theorem non_member_gets_communicator:
  assumes al: "\<And>k n. al k n = Some (addr k)" and acc: "\<And>a. acc a"
    and len: "length ranks < 2147483648" and out: "me \<notin> set ranks"
    and c: "c_groupPtr c = Some cg" "me \<in> set (take (nat (sint (g_size cg))) (g_pesInGroup cg))"
  shows "\<exists>g n. MPI_Group_incl al junk me grpi (of_nat (length ranks)) ranks ng = (MPI_SUCCESS, g) \<and>
    MPI_Comm_create al acc junkc junkg npes me (Some c) g nc = (MPI_SUCCESS, Some n) \<and>
    MPI_Comm_rank (Some n) rr = (MPI_SUCCESS, junk)"
proof -
  have ne: "al k n \<noteq> None" for k n by (simp add: al)
  obtain g n where "MPI_Group_incl al junk me grpi (of_nat (length ranks)) ranks ng = (MPI_SUCCESS, g)"
    "MPI_Comm_create al acc junkc junkg npes me (Some c) g nc = (MPI_SUCCESS, Some n)"
    "c_groupPtr n = Some (junkg\<lparr>g_rank := snd (group_incl_loop me 0 ranks junk), g_size := of_nat (length ranks),
       g_pesInGroup := ranks\<rparr>)"
    by (rule incl_create [OF ne ne acc len c])
  then show ?thesis
    using group_incl_loop_absent [OF out, of 0 junk] by (simp add: MPI_Comm_rank_def)
qed

theorem non_member_gets_communicator_witness:
  "\<exists>g n. MPI_Group_incl (\<lambda>k n. Some k) 77 0 null_group
      2 [1, 3] null_group = (MPI_SUCCESS, g) \<and>
    MPI_Comm_create (\<lambda>k n. Some k) (\<lambda>_. True) (world_comm 0 0 0 0 0 0 0) null_group 4 0
      (Some (world_comm 4 0 0 0 0 0 0)) g None = (MPI_SUCCESS, Some n) \<and>
    MPI_Comm_rank (Some n) 0 = (MPI_SUCCESS, 77)"
proof -
  have upt4: "[0..<4] = [0, 1, 2, 3::nat]" by (simp add: upt_rec)
  have "\<exists>cg. c_groupPtr (world_comm 4 0 0 0 0 0 0) = Some cg \<and>
      0 \<in> set (take (nat (sint (g_size cg))) (g_pesInGroup cg))"
    by (simp add: world_comm_def upt4)
  then obtain cg where "c_groupPtr (world_comm 4 0 0 0 0 0 0) = Some cg"
      "0 \<in> set (take (nat (sint (g_size cg))) (g_pesInGroup cg))" by blast
  from non_member_gets_communicator [where al = "\<lambda>k n. Some k" and addr = "\<lambda>k. k"
      and acc = "\<lambda>_. True" and ranks = "[1, 3]" and me = 0 and junk = 77 and ng = null_group
      and grpi = null_group and junkc = "world_comm 0 0 0 0 0 0 0" and junkg = null_group
      and npes = 4 and nc = None and rr = 0, OF _ _ _ _ this]
  show ?thesis by simp
qed

end
