(* ===== verification/Openshmem.thy ===== *)
theory Openshmem
  imports Mpi_Comm
begin

text \<open>
  The OpenSHMEM library that \<^verbatim>\<open>src/mpi_to_openshmem.c\<close> calls is not part of the
  repository: it is a parameter, a record \<open>shmem_lib\<close> of the operations the code uses,
  acting on the memories of all processing elements (\<open>gmem\<close>).  What the OpenSHMEM 1.0
  specification documents of them is the predicate \<open>shmem_documented\<close>; the locale \<open>shmem\<close>
  collects the consequences for the code's own helpers.  \<open>ref_shmem\<close> is a library that
  behaves as documented.  A put is given its effect at the point where the code can rely
  on it, the next barrier or fence; theorems about phases between two barriers quantify
  over the order in which the processing elements run.
\<close>

type_synonym gmem = "nat \<Rightarrow> mem"

text \<open>The families of put and get calls: \<^verbatim>\<open>shmem_putmem\<close>/\<^verbatim>\<open>shmem_getmem\<close>, \<^verbatim>\<open>shmem_short_put\<close>
  and so on.\<close>

datatype rma_fn = RMem | RShort | RInt | RLong | RFloat | RDouble | RLongdouble | RLonglong

fun rma_size :: "rma_fn \<Rightarrow> nat" where
  "rma_size RMem = 1"
| "rma_size RShort = 2"
| "rma_size RInt = 4"
| "rma_size RLong = 8"
| "rma_size RFloat = 4"
| "rma_size RDouble = 8"
| "rma_size RLongdouble = 16"
| "rma_size RLonglong = 8"

text \<open>
  \<^item> \<open>sh_put fn me target source nelems pe\<close> and \<open>sh_get fn me target source nelems pe\<close>, called by \<open>me\<close>;
  \<^item> \<open>sh_accessible addr pe\<close>;
  \<^item> \<open>sh_broadcast64 npes rt dest source nlong\<close> and \<open>sh_fcollect64 npes dest source nlong\<close>:
    one call made by all \<open>npes\<close> processing elements, with the addresses each one passes;
  \<^item> \<open>sh_cswap sz target cond value pe\<close>: atomic compare-and-swap on \<open>sz\<close> bytes, returning
    the old contents.
\<close>

record shmem_lib =
  sh_put :: "rma_fn \<Rightarrow> nat \<Rightarrow> nat \<Rightarrow> nat \<Rightarrow> nat \<Rightarrow> nat \<Rightarrow> gmem \<Rightarrow> gmem"
  sh_get :: "rma_fn \<Rightarrow> nat \<Rightarrow> nat \<Rightarrow> nat \<Rightarrow> nat \<Rightarrow> nat \<Rightarrow> gmem \<Rightarrow> gmem"
  sh_accessible :: "nat \<Rightarrow> nat \<Rightarrow> bool"
  sh_broadcast64 :: "nat \<Rightarrow> nat \<Rightarrow> (nat \<Rightarrow> nat) \<Rightarrow> (nat \<Rightarrow> nat) \<Rightarrow> nat \<Rightarrow> gmem \<Rightarrow> gmem"
  sh_fcollect64 :: "nat \<Rightarrow> (nat \<Rightarrow> nat) \<Rightarrow> (nat \<Rightarrow> nat) \<Rightarrow> nat \<Rightarrow> gmem \<Rightarrow> gmem"
  sh_cswap :: "nat \<Rightarrow> nat \<Rightarrow> byte list \<Rightarrow> byte list \<Rightarrow> nat \<Rightarrow> gmem \<Rightarrow> byte list \<times> gmem"

text \<open>The documented behaviour.\<close>

definition doc_put :: "rma_fn \<Rightarrow> nat \<Rightarrow> nat \<Rightarrow> nat \<Rightarrow> nat \<Rightarrow> nat \<Rightarrow> gmem \<Rightarrow> gmem" where
  "doc_put fn me t s n pe m = m(pe := wr (m pe) t (rd (m me) s (n * rma_size fn)))"

definition doc_get :: "rma_fn \<Rightarrow> nat \<Rightarrow> nat \<Rightarrow> nat \<Rightarrow> nat \<Rightarrow> nat \<Rightarrow> gmem \<Rightarrow> gmem" where
  "doc_get fn me t s n pe m = m(me := wr (m me) t (rd (m pe) s (n * rma_size fn)))"

definition doc_broadcast64 :: "nat \<Rightarrow> nat \<Rightarrow> (nat \<Rightarrow> nat) \<Rightarrow> (nat \<Rightarrow> nat) \<Rightarrow> nat \<Rightarrow> gmem \<Rightarrow> gmem" where
  "doc_broadcast64 npes rt dest source nlong m =
     (\<lambda>p. if p < npes \<and> p \<noteq> rt then wr (m p) (dest p) (rd (m rt) (source rt) (8 * nlong))
          else m p)"

definition doc_fcollect64 :: "nat \<Rightarrow> (nat \<Rightarrow> nat) \<Rightarrow> (nat \<Rightarrow> nat) \<Rightarrow> nat \<Rightarrow> gmem \<Rightarrow> gmem" where
  "doc_fcollect64 npes dest source nlong m =
     (\<lambda>p. if p < npes then wr (m p) (dest p) (concat (map (\<lambda>j. rd (m j) (source j) (8 * nlong)) [0..<npes]))
          else m p)"

definition doc_cswap :: "nat \<Rightarrow> nat \<Rightarrow> byte list \<Rightarrow> byte list \<Rightarrow> nat \<Rightarrow> gmem \<Rightarrow> byte list \<times> gmem" where
  "doc_cswap sz t c v pe m =
     (let old = rd (m pe) t sz in (old, if old = c then m(pe := wr (m pe) t v) else m))"

text \<open>The collective calls are documented for symmetric objects only: every processing element passes the same
  addresses, both in symmetric memory; the areas of \<^verbatim>\<open>shmem_fcollect64\<close> do not overlap.  The work array \<^verbatim>\<open>pSync\<close>, which only
  serves to synchronise, is left out.\<close>

definition symmetric_args :: "shmem_lib \<Rightarrow> nat \<Rightarrow> (nat \<Rightarrow> nat) \<Rightarrow> (nat \<Rightarrow> nat) \<Rightarrow> nat \<Rightarrow> nat \<Rightarrow> bool" where
  "symmetric_args L npes dest source d s \<longleftrightarrow>
     (\<forall>p < npes. dest p = d \<and> source p = s \<and> sh_accessible L d p \<and> sh_accessible L s p)"

definition fcollect_args :: "shmem_lib \<Rightarrow> nat \<Rightarrow> (nat \<Rightarrow> nat) \<Rightarrow> (nat \<Rightarrow> nat) \<Rightarrow> nat \<Rightarrow> bool" where
  "fcollect_args L npes dest source nlong \<longleftrightarrow>
     (\<exists>d s. symmetric_args L npes dest source d s \<and> (d + 8 * nlong * npes \<le> s \<or> s + 8 * nlong \<le> d))"

definition shmem_documented :: "shmem_lib \<Rightarrow> bool" where
  "shmem_documented L \<longleftrightarrow>
     sh_put L = doc_put \<and> sh_get L = doc_get \<and> sh_cswap L = doc_cswap \<and>
     (\<forall>npes rt dest source d s k m. symmetric_args L npes dest source d s \<longrightarrow>
        sh_broadcast64 L npes rt dest source k m = doc_broadcast64 npes rt dest source k m) \<and>
     (\<forall>npes dest source k m. fcollect_args L npes dest source k \<longrightarrow>
        sh_fcollect64 L npes dest source k m = doc_fcollect64 npes dest source k m)"

text \<open>A library that behaves as documented, with the symmetric heap between \<open>lo\<close> and \<open>hi\<close>.\<close>

definition ref_shmem :: "nat \<Rightarrow> nat \<Rightarrow> shmem_lib" where
  "ref_shmem lo hi =
     \<lparr>sh_put = doc_put, sh_get = doc_get, sh_accessible = (\<lambda>a _. lo \<le> a \<and> a < hi),
      sh_broadcast64 = doc_broadcast64, sh_fcollect64 = doc_fcollect64, sh_cswap = doc_cswap\<rparr>"

section \<open>Helpers of the code that move bytes\<close>

text \<open>CopyMyData: a \<^verbatim>\<open>memcpy\<close> on the calling processing element.\<close>

definition CopyMyData :: "nat \<Rightarrow> nat \<Rightarrow> nat \<Rightarrow> i32 \<Rightarrow> MPI_Datatype \<Rightarrow> gmem \<Rightarrow> gmem" where
  "CopyMyData me toBuf fromBuf count dataType m =
     m(me := wr (m me) toBuf (rd (m me) fromBuf (csize (GetNumBytes count dataType))))"

text \<open>GetBufferOffset: the address and \<open>*numBytes\<close>; the communicator is only read.\<close>

definition GetBufferOffset :: "i32 \<Rightarrow> MPI_Datatype \<Rightarrow> MPID_Comm \<Rightarrow> nat \<times> i32" where
  "GetBufferOffset count dataType comm =
     (let numBytes = GetNumBytes count dataType;
          currentOffset = c_offset comm;
          newOffset = currentOffset + numBytes
      in (index_addr (c_bufferPtr comm) newOffset 1, numBytes))"

text \<open>The function a datatype selects in the switches of MPI_Gather, MPI_Gatherv, MPI_Isend
  and MPI_Irecv.\<close>

definition rma_of_type :: "MPI_Datatype \<Rightarrow> rma_fn" where
  "rma_of_type dt =
     (if dt = MPI_CHAR \<or> dt = MPI_UNSIGNED_CHAR \<or> dt = MPI_BYTE then RMem
      else if dt = MPI_SHORT \<or> dt = MPI_UNSIGNED_SHORT then RShort
      else if dt = MPI_INT \<or> dt = MPI_UNSIGNED then RInt
      else if dt = MPI_LONG \<or> dt = MPI_UNSIGNED_LONG then RLong
      else if dt = MPI_FLOAT then RFloat
      else if dt = MPI_DOUBLE then RDouble
      else if dt = MPI_LONG_DOUBLE then RLongdouble
      else if dt = MPI_LONG_LONG then RLonglong
      else RMem)"

lemma rma_size_of_type [simp]: "rma_size (rma_of_type dt) = elem_size dt"
  by (simp add: rma_of_type_def elem_size_def GetNumBytes_def mpi_types)

lemma CopyMyData_of_nat:
  assumes "n * elem_size dt < 2147483648"
  shows "CopyMyData me t s (of_nat n) dt m = m(me := wr (m me) t (rd (m me) s (n * elem_size dt)))"
  using assms by (simp add: CopyMyData_def csize_GetNumBytes)

lemma GetBufferOffset_of_nat:
  assumes "n * elem_size dt < 2147483648" and "c_offset comm = 0"
  shows "GetBufferOffset (of_nat n) dt comm = (c_bufferPtr comm + n * elem_size dt, of_nat (n * elem_size dt))"
  using assms by (simp add: GetBufferOffset_def Let_def GetNumBytes_of_nat del: of_nat_mult)

section \<open>The library as an interface\<close>

locale shmem =
  fixes L :: shmem_lib
  assumes documented: "shmem_documented L"
begin

lemma put: "sh_put L fn me t s n pe m = m(pe := wr (m pe) t (rd (m me) s (n * rma_size fn)))"
  using documented by (simp add: shmem_documented_def doc_put_def)

lemma get: "sh_get L fn me t s n pe m = m(me := wr (m me) t (rd (m pe) s (n * rma_size fn)))"
  using documented by (simp add: shmem_documented_def doc_get_def)

lemma broadcast: "symmetric_args L npes dest source d s \<Longrightarrow>
    sh_broadcast64 L npes rt dest source k m = doc_broadcast64 npes rt dest source k m"
  using documented unfolding shmem_documented_def by blast

lemma fcollect: "fcollect_args L npes dest source k \<Longrightarrow> sh_fcollect64 L npes dest source k m = doc_fcollect64 npes dest source k m"
  using documented unfolding shmem_documented_def by blast

lemma cswap_same: "sh_cswap L sz t c c pe m = (rd (m pe) t sz, m)" if "length c = sz"
proof -
  have "wr mm t (rd mm t sz) = mm" for mm :: mem
    by (auto simp: wr_def fun_eq_iff)
  with documented show ?thesis
    by (auto simp: shmem_documented_def doc_cswap_def Let_def)
qed

text \<open>A put of \<open>n\<close> elements of a datatype, in bytes.\<close>

lemma put_typed:
  "sh_put L (rma_of_type dt) me t s n pe m = m(pe := wr (m pe) t (rd (m me) s (n * elem_size dt)))"
  by (simp add: put)

lemma get_typed:
  "sh_get L (rma_of_type dt) me t s n pe m = m(me := wr (m me) t (rd (m pe) s (n * elem_size dt)))"
  by (simp add: get)

end

lemma ref_shmem_documented [simp]: "shmem_documented (ref_shmem lo hi)"
  by (simp add: shmem_documented_def ref_shmem_def)

lemma ref_shmem_accessible [simp]: "sh_accessible (ref_shmem lo hi) a pe \<longleftrightarrow> lo \<le> a \<and> a < hi"
  by (simp add: ref_shmem_def)

interpretation refsh: shmem "ref_shmem lo hi"
  by unfold_locales simp

end
