(* ===== verification/Mpi_Pack.thy ===== *)
theory Mpi_Pack
  imports Openshmem
begin

text \<open>
  MPI_Pack and MPI_Unpack of \<^verbatim>\<open>src/mpi_to_openshmem.c\<close>, on the memories of all processing
  elements, the interface \<open>packer\<close> that message code relies on, and its interpretation on
  the two functions for buffers in symmetric memory.  For buffers that are not symmetric, which go
  through the staging area of the communicator, there are \<open>private_pack\<close> and \<open>private_unpack\<close> with
  the exact result, and theorems on what gets lost.
\<close>

section \<open>The functions\<close>

text \<open>The switch both functions contain.\<close>

definition pack_numBytes :: "i32 \<Rightarrow> MPI_Datatype \<Rightarrow> i32" where
  "pack_numBytes incount datatype =
     (if datatype = MPI_CHAR \<or> datatype = MPI_UNSIGNED_CHAR \<or> datatype = MPI_BYTE then incount * 1
      else if datatype = MPI_SHORT \<or> datatype = MPI_UNSIGNED_SHORT then incount * 2
      else if datatype = MPI_INT \<or> datatype = MPI_UNSIGNED then incount * 4
      else if datatype = MPI_LONG \<or> datatype = MPI_UNSIGNED_LONG then incount * 8
      else if datatype = MPI_FLOAT then incount * 4
      else if datatype = MPI_DOUBLE then incount * 8
      else if datatype = MPI_LONG_DOUBLE then incount * 16
      else if datatype = MPI_LONG_LONG then incount * 8
      else incount * 1)"

text \<open>\<open>junk\<close> is the uninitialised local \<^verbatim>\<open>rank\<close>, which stays when MPI_Comm_rank fails.  The
  result is the return code, \<open>*position\<close> and the memories.\<close>

definition MPI_Pack ::
  "shmem_lib \<Rightarrow> i32 \<Rightarrow> nat \<Rightarrow> nat \<Rightarrow> i32 \<Rightarrow> MPI_Datatype \<Rightarrow> nat \<Rightarrow> i32 \<Rightarrow> i32 \<Rightarrow> MPI_Comm \<Rightarrow> gmem
     \<Rightarrow> i32 \<times> i32 \<times> gmem" where
  "MPI_Pack L junk me inbuf incount datatype outbuf outsize position comm m =
     (case comm of None \<Rightarrow> (MPI_ERR_COMM, position, m)
      | Some c \<Rightarrow>
        (let rank = snd (MPI_Comm_rank comm junk);
             numBytes = pack_numBytes incount datatype;
             totalNumBytes = numBytes + position
         in if outsize <s totalNumBytes then (MPI_ERR_NO_SPACE, position, m)
            else let createSymOutbuf = \<not> sh_accessible L outbuf me;
                     dst = (if createSymOutbuf then c_bufferPtr c else outbuf);
                     m1 = sh_put L RMem me (index_addr dst position 1) inbuf (csize numBytes)
                            (nat (sint rank)) m;
                     m2 = (if createSymOutbuf then CopyMyData me outbuf dst numBytes MPI_CHAR m1 else m1)
                 in (MPI_SUCCESS, position + numBytes, m2)))"

definition MPI_Unpack ::
  "shmem_lib \<Rightarrow> i32 \<Rightarrow> nat \<Rightarrow> nat \<Rightarrow> i32 \<Rightarrow> i32 \<Rightarrow> nat \<Rightarrow> i32 \<Rightarrow> MPI_Datatype \<Rightarrow> MPI_Comm \<Rightarrow> gmem
     \<Rightarrow> i32 \<times> i32 \<times> gmem" where
  "MPI_Unpack L junk me inbuf insize position outbuf outcount datatype comm m =
     (case comm of None \<Rightarrow> (MPI_ERR_COMM, position, m)
      | Some c \<Rightarrow>
        (let rank = snd (MPI_Comm_rank comm junk);
             createSymInbuf = \<not> sh_accessible L inbuf me;
             src = (if createSymInbuf then c_bufferPtr c else inbuf);
             m1 = (if createSymInbuf then CopyMyData me src inbuf outcount datatype m else m);
             numBytes = pack_numBytes outcount datatype;
             totalNumBytes = numBytes + position
         in if insize <s totalNumBytes then (MPI_ERR_NO_SPACE, position, m1)
            else (MPI_SUCCESS, position + numBytes,
                  sh_get L RMem me outbuf (index_addr src position 1) (csize numBytes)
                    (nat (sint rank)) m1)))"

lemma pack_numBytes_GetNumBytes: "pack_numBytes = GetNumBytes"
  by (simp add: fun_eq_iff pack_numBytes_def GetNumBytes_def)

lemma sless_of_nat [simp]:
  "a < 2147483648 \<Longrightarrow> b < 2147483648 \<Longrightarrow> ((of_nat a :: i32) <s of_nat b) \<longleftrightarrow> a < b"
  by (simp add: word_sless_alt)

lemma sless_add_of_nat [simp]:
  "a < 2147483648 \<Longrightarrow> b + c < 2147483648 \<Longrightarrow> ((of_nat a :: i32) <s of_nat b + of_nat c) \<longleftrightarrow> a < b + c"
  using sless_of_nat [of a "b + c"] by (simp del: sless_of_nat)

text \<open>The communicator's group gives the caller the rank \<open>r\<close>.\<close>

definition has_rank :: "MPI_Comm \<Rightarrow> nat \<Rightarrow> bool" where
  "has_rank comm r \<longleftrightarrow> r < 2147483648 \<and>
     (\<exists>c g. comm = Some c \<and> c_groupPtr c = Some g \<and> g_rank g = of_nat r)"

lemma has_rank_Comm_rank: "has_rank comm r \<Longrightarrow> MPI_Comm_rank comm junk = (MPI_SUCCESS, of_nat r)"
  by (auto simp: has_rank_def MPI_Comm_rank_def)

lemma has_rank_not_null: "has_rank comm r \<Longrightarrow> \<exists>c. comm = Some c"
  by (auto simp: has_rank_def)

context shmem
begin

text \<open>Packing into symmetric memory writes the block at the position on the processing
  element whose number is the caller's rank.\<close>

lemma MPI_Pack_symmetric:
  assumes "has_rank comm r" and "sh_accessible L outbuf me"
    and "n * elem_size dt + p \<le> osz" and "osz < 2147483648"
  shows "MPI_Pack L junk me inbuf (of_nat n) dt outbuf (of_nat osz) (of_nat p) comm m =
    (MPI_SUCCESS, of_nat (p + n * elem_size dt),
     m(r := wr (m r) (outbuf + p) (rd (m me) inbuf (n * elem_size dt))))"
proof -
  obtain c where c: "comm = Some c" using assms(1) has_rank_not_null by blast
  have "r < 2147483648" using assms(1) by (simp add: has_rank_def)
  moreover have "n * elem_size dt < 2147483648" "p < 2147483648" using assms(3,4) by simp_all
  ultimately show ?thesis
    using assms c has_rank_Comm_rank [OF assms(1), of junk]
    by (simp add: MPI_Pack_def Let_def pack_numBytes_GetNumBytes GetNumBytes_of_nat put add.commute
        not_less del: of_nat_mult)
qed

lemma MPI_Pack_full:
  assumes "comm \<noteq> None" and "osz < n * elem_size dt + p" and "n * elem_size dt + p < 2147483648"
  shows "MPI_Pack L junk me inbuf (of_nat n) dt outbuf (of_nat osz) (of_nat p) comm m =
    (MPI_ERR_NO_SPACE, of_nat p, m)"
  using assms
  by (auto simp: MPI_Pack_def Let_def pack_numBytes_GetNumBytes GetNumBytes_of_nat simp del: of_nat_mult)

lemma MPI_Unpack_symmetric:
  assumes "has_rank comm r" and "sh_accessible L inbuf me"
    and "n * elem_size dt + p \<le> isz" and "isz < 2147483648"
  shows "MPI_Unpack L junk me inbuf (of_nat isz) (of_nat p) outbuf (of_nat n) dt comm m =
    (MPI_SUCCESS, of_nat (p + n * elem_size dt),
     m(me := wr (m me) outbuf (rd (m r) (inbuf + p) (n * elem_size dt))))"
proof -
  obtain c where c: "comm = Some c" using assms(1) has_rank_not_null by blast
  have "r < 2147483648" using assms(1) by (simp add: has_rank_def)
  moreover have "n * elem_size dt < 2147483648" "p < 2147483648" using assms(3,4) by simp_all
  ultimately show ?thesis
    using assms c has_rank_Comm_rank [OF assms(1), of junk]
    by (simp add: MPI_Unpack_def Let_def pack_numBytes_GetNumBytes GetNumBytes_of_nat get add.commute
        not_less del: of_nat_mult)
qed

lemma MPI_Unpack_short:
  assumes "comm \<noteq> None" and "sh_accessible L inbuf me"
    and "isz < n * elem_size dt + p" and "n * elem_size dt + p < 2147483648"
  shows "MPI_Unpack L junk me inbuf (of_nat isz) (of_nat p) outbuf (of_nat n) dt comm m =
    (MPI_ERR_NO_SPACE, of_nat p, m)"
  using assms
  by (auto simp: MPI_Unpack_def Let_def pack_numBytes_GetNumBytes GetNumBytes_of_nat simp del: of_nat_mult)

text \<open>Packing into private memory: the block goes to the communicator's symmetric buffer at
  the position, and the first bytes of that buffer are copied to the start of the output.\<close>

lemma MPI_Pack_private:
  assumes "has_rank comm r" and "\<not> sh_accessible L outbuf me" and "comm = Some c"
    and "n * elem_size dt + p \<le> osz" and "osz < 2147483648"
  shows "MPI_Pack L junk me inbuf (of_nat n) dt outbuf (of_nat osz) (of_nat p) comm m =
    (let m1 = m(r := wr (m r) (c_bufferPtr c + p) (rd (m me) inbuf (n * elem_size dt)))
     in (MPI_SUCCESS, of_nat (p + n * elem_size dt),
         m1(me := wr (m1 me) outbuf (rd (m1 me) (c_bufferPtr c) (n * elem_size dt)))))"
proof -
  have "r < 2147483648" using assms(1) by (simp add: has_rank_def)
  moreover have "n * elem_size dt < 2147483648" "p < 2147483648" using assms(4,5) by simp_all
  moreover have "CopyMyData me outbuf b (of_nat (n * elem_size dt)) MPI_CHAR x =
      x(me := wr (x me) outbuf (rd (x me) b (n * elem_size dt)))" for b x
    using calculation CopyMyData_of_nat [of "n * elem_size dt" MPI_CHAR]
    by (simp add: elem_size_def [of MPI_CHAR] GetNumBytes_def del: of_nat_mult)
  ultimately show ?thesis
    using assms has_rank_Comm_rank [OF assms(1), of junk]
    by (simp add: MPI_Pack_def Let_def pack_numBytes_GetNumBytes GetNumBytes_of_nat put add.commute
        not_less del: of_nat_mult)
qed

text \<open>Unpacking from private memory: the first bytes of the input are copied to the start of the
  communicator's symmetric buffer, and the block is read from that buffer at the position.\<close>

lemma MPI_Unpack_private:
  assumes "has_rank comm me" and "\<not> sh_accessible L inbuf me" and "comm = Some c"
    and "n * elem_size dt + p \<le> isz" and "isz < 2147483648"
  shows "MPI_Unpack L junk me inbuf (of_nat isz) (of_nat p) outbuf (of_nat n) dt comm m =
    (let m1 = wr (m me) (c_bufferPtr c) (rd (m me) inbuf (n * elem_size dt))
     in (MPI_SUCCESS, of_nat (p + n * elem_size dt),
         m(me := wr m1 outbuf (rd m1 (c_bufferPtr c + p) (n * elem_size dt)))))"
proof -
  have "me < 2147483648" using assms(1) by (simp add: has_rank_def)
  moreover have "n * elem_size dt < 2147483648" "p < 2147483648" using assms(4,5) by simp_all
  ultimately show ?thesis
    using assms has_rank_Comm_rank [OF assms(1), of junk] CopyMyData_of_nat [of n dt]
    by (simp add: MPI_Unpack_def Let_def pack_numBytes_GetNumBytes GetNumBytes_of_nat get add.commute
        not_less del: of_nat_mult)
qed

end

section \<open>The interface of packing code\<close>

text \<open>\<open>pk count dt data buf pos\<close> packs \<open>count\<close> items into the output buffer \<open>buf\<close>;
  \<open>up msg size pos count dt old\<close> unpacks into a destination that holds \<open>old\<close>.\<close>

locale packer =
  fixes pk :: "i32 \<Rightarrow> MPI_Datatype \<Rightarrow> byte list \<Rightarrow> byte list \<Rightarrow> i32 \<Rightarrow> i32 \<times> byte list \<times> i32"
    and up :: "byte list \<Rightarrow> i32 \<Rightarrow> i32 \<Rightarrow> i32 \<Rightarrow> MPI_Datatype \<Rightarrow> byte list \<Rightarrow> i32 \<times> byte list \<times> i32"
  assumes pk_fits: "length data = n * elem_size dt \<Longrightarrow> p + length data \<le> length buf \<Longrightarrow>
      length buf < 2147483648 \<Longrightarrow>
      pk (of_nat n) dt data buf (of_nat p) = (MPI_SUCCESS, splice buf p data, of_nat (p + length data))"
    and pk_full: "length data = n * elem_size dt \<Longrightarrow> length buf < p + length data \<Longrightarrow>
      p + length data < 2147483648 \<Longrightarrow>
      pk (of_nat n) dt data buf (of_nat p) = (MPI_ERR_NO_SPACE, buf, of_nat p)"
    and up_fits: "length old = n * elem_size dt \<Longrightarrow> p + n * elem_size dt \<le> sz \<Longrightarrow> sz \<le> length msg \<Longrightarrow>
      length msg < 2147483648 \<Longrightarrow>
      up msg (of_nat sz) (of_nat p) (of_nat n) dt old =
        (MPI_SUCCESS, take (n * elem_size dt) (drop p msg), of_nat (p + n * elem_size dt))"
    and up_short: "length old = n * elem_size dt \<Longrightarrow> sz < p + n * elem_size dt \<Longrightarrow>
      p + n * elem_size dt < 2147483648 \<Longrightarrow> sz \<le> length msg \<Longrightarrow>
      up msg (of_nat sz) (of_nat p) (of_nat n) dt old = (MPI_ERR_NO_SPACE, old, of_nat p)"

text \<open>MPI_Pack on a buffer at the address \<open>base\<close> of symmetric memory, with the data right
  after it, and MPI_Unpack likewise.\<close>

definition sym_pack ::
  "shmem_lib \<Rightarrow> nat \<Rightarrow> nat \<Rightarrow> MPI_Comm \<Rightarrow> i32 \<Rightarrow> MPI_Datatype \<Rightarrow> byte list \<Rightarrow> byte list \<Rightarrow> i32
     \<Rightarrow> i32 \<times> byte list \<times> i32" where
  "sym_pack L me base comm count dt data buf pos =
     (let src = base + length buf;
          m = (\<lambda>_. wr (wr (\<lambda>_. 0) base buf) src data);
          (rc, pos', m') = MPI_Pack L 0 me src count dt base (of_nat (length buf)) pos comm m
      in (rc, rd (m' me) base (length buf), pos'))"

definition sym_unpack ::
  "shmem_lib \<Rightarrow> nat \<Rightarrow> nat \<Rightarrow> MPI_Comm \<Rightarrow> byte list \<Rightarrow> i32 \<Rightarrow> i32 \<Rightarrow> i32 \<Rightarrow> MPI_Datatype \<Rightarrow> byte list
     \<Rightarrow> i32 \<times> byte list \<times> i32" where
  "sym_unpack L me base comm msg sz pos count dt old =
     (let dst = base + length msg;
          m = (\<lambda>_. wr (wr (\<lambda>_. 0) base msg) dst old);
          (rc, pos', m') = MPI_Unpack L 0 me base sz pos dst count dt comm m
      in (rc, rd (m' me) dst (length old), pos'))"

locale sym_buffers = shmem +
  fixes me base :: nat and comm :: MPI_Comm
  assumes rank: "has_rank comm me" and accessible: "sh_accessible L base me"

lemma rd_wr_splice:
  "p + length xs \<le> length buf \<Longrightarrow> rd m a (length buf) = buf \<Longrightarrow>
   rd (wr m (a + p) xs) a (length buf) = splice buf p xs"
proof (rule nth_equalityI)
  assume len: "p + length xs \<le> length buf" and buf: "rd m a (length buf) = buf"
  then show "length (rd (wr m (a + p) xs) a (length buf)) = length (splice buf p xs)" by simp
  fix i assume "i < length (rd (wr m (a + p) xs) a (length buf))"
  then have i: "i < length buf" by simp
  then have "buf ! i = m (a + i)" using buf nth_rd by metis
  with i len show "rd (wr m (a + p) xs) a (length buf) ! i = splice buf p xs ! i"
    by (auto simp: wr_def splice_def nth_append)
qed

sublocale sym_buffers \<subseteq> packer "sym_pack L me base comm" "sym_unpack L me base comm"
proof unfold_locales
  fix data buf :: "byte list" and n dt p
  note len [simp] = mem_simps
  {
    assume d: "length data = n * elem_size dt" and fit: "p + length data \<le> length buf"
      and b: "length buf < 2147483648"
    have "n * elem_size dt + p \<le> length buf" using d fit by simp
    from MPI_Pack_symmetric [OF rank accessible this b]
    show "sym_pack L me base comm (of_nat n) dt data buf (of_nat p) =
      (MPI_SUCCESS, splice buf p data, of_nat (p + length data))"
      using d fit by (simp add: sym_pack_def Let_def rd_wr_splice del: of_nat_add)
  }
  {
    assume d: "length data = n * elem_size dt" and full: "length buf < p + length data"
      and b: "p + length data < 2147483648"
    have "comm \<noteq> None" using rank by (auto simp: has_rank_def)
    moreover have "length buf < n * elem_size dt + p" "n * elem_size dt + p < 2147483648"
      using d full b by simp_all
    ultimately show "sym_pack L me base comm (of_nat n) dt data buf (of_nat p) =
      (MPI_ERR_NO_SPACE, buf, of_nat p)"
      using MPI_Pack_full by (simp add: sym_pack_def Let_def)
  }
next
  fix old msg :: "byte list" and n dt p sz
  note len [simp] = mem_simps
  {
    assume o: "length old = n * elem_size dt" and fit: "p + n * elem_size dt \<le> sz"
      and sz: "sz \<le> length msg" and b: "length msg < 2147483648"
    have "n * elem_size dt + p \<le> sz" "sz < 2147483648" using fit sz b by simp_all
    from MPI_Unpack_symmetric [OF rank accessible this]
    show "sym_unpack L me base comm msg (of_nat sz) (of_nat p) (of_nat n) dt old =
      (MPI_SUCCESS, take (n * elem_size dt) (drop p msg), of_nat (p + n * elem_size dt))"
      using o fit sz by (simp add: sym_unpack_def Let_def rd_wr_within del: of_nat_add of_nat_mult)
  }
  {
    assume o: "length old = n * elem_size dt" and short: "sz < p + n * elem_size dt"
      and b: "p + n * elem_size dt < 2147483648"
    have "comm \<noteq> None" using rank by (auto simp: has_rank_def)
    moreover have "sz < n * elem_size dt + p" "n * elem_size dt + p < 2147483648"
      using short b by simp_all
    ultimately show "sym_unpack L me base comm msg (of_nat sz) (of_nat p) (of_nat n) dt old =
      (MPI_ERR_NO_SPACE, old, of_nat p)"
      using MPI_Unpack_short [OF _ accessible] o by (simp add: sym_unpack_def Let_def)
  }
qed

text \<open>One processing element, its world communicator, and a documented library.\<close>

definition one_comm :: MPI_Comm where
  "one_comm = Some (world_comm 1 0 0 1000 2000 3000 6)"

lemma one_comm_rank [simp]: "has_rank one_comm 0"
  by (simp add: has_rank_def one_comm_def world_comm_def)

interpretation ref_pk: sym_buffers "ref_shmem 0 4000" 0 0 one_comm
  by unfold_locales simp_all

section \<open>Packing several blocks\<close>

text \<open>How the message code uses the two functions: one call per block, the position passed
  on, the return codes added up.  A block is an address, a number of items and their type.\<close>

type_synonym block = "nat \<times> nat \<times> MPI_Datatype"

definition block_size :: "block \<Rightarrow> nat" where
  "block_size = (\<lambda>(a, n, dt). n * elem_size dt)"

definition block_data :: "mem \<Rightarrow> block \<Rightarrow> byte list" where
  "block_data m b = rd m (fst b) (block_size b)"

definition blocks_size :: "block list \<Rightarrow> nat" where
  "blocks_size bs = sum_list (map block_size bs)"

fun pack_all ::
  "shmem_lib \<Rightarrow> nat \<Rightarrow> nat \<Rightarrow> nat \<Rightarrow> MPI_Comm \<Rightarrow> block list \<Rightarrow> i32 \<times> i32 \<times> gmem \<Rightarrow> i32 \<times> i32 \<times> gmem" where
  "pack_all L me outbuf osz comm [] st = st"
| "pack_all L me outbuf osz comm ((a, n, dt) # bs) (rc, pos, m) =
     (let (r, pos', m') = MPI_Pack L 0 me a (of_nat n) dt outbuf (of_nat osz) pos comm m
      in pack_all L me outbuf osz comm bs (rc + r, pos', m'))"

fun unpack_all ::
  "shmem_lib \<Rightarrow> nat \<Rightarrow> nat \<Rightarrow> nat \<Rightarrow> MPI_Comm \<Rightarrow> block list \<Rightarrow> i32 \<times> i32 \<times> gmem \<Rightarrow> i32 \<times> i32 \<times> gmem" where
  "unpack_all L me inbuf isz comm [] st = st"
| "unpack_all L me inbuf isz comm ((a, n, dt) # bs) (rc, pos, m) =
     (let (r, pos', m') = MPI_Unpack L 0 me inbuf (of_nat isz) pos a (of_nat n) dt comm m
      in unpack_all L me inbuf isz comm bs (rc + r, pos', m'))"

text \<open>Two address ranges do not overlap.\<close>

definition apart :: "nat \<Rightarrow> nat \<Rightarrow> nat \<Rightarrow> nat \<Rightarrow> bool" where
  "apart a n b k \<longleftrightarrow> a + n \<le> b \<or> b + k \<le> a"

definition block_apart :: "nat \<Rightarrow> nat \<Rightarrow> block \<Rightarrow> bool" where
  "block_apart a n b \<longleftrightarrow> apart a n (fst b) (block_size b)"

lemma blocks_size_simps [simp]:
  "blocks_size [] = 0" "blocks_size (b # bs) = block_size b + blocks_size bs"
  by (simp_all add: blocks_size_def)

lemma length_block_data [simp]: "length (block_data m b) = block_size b"
  by (simp add: block_data_def)

lemma block_data_wr:
  "block_apart a n b \<Longrightarrow> a \<le> a' \<Longrightarrow> a' + length xs \<le> a + n \<Longrightarrow>
   block_data (wr m a' xs) b = block_data m b"
  unfolding block_data_def block_apart_def apart_def by (intro rd_wr_disjoint) auto

context shmem
begin

lemma pack_all_run:
  assumes "has_rank comm me" and "sh_accessible L outbuf me" and "osz < 2147483648"
    and "p + blocks_size bs \<le> osz" and "\<forall>b \<in> set bs. block_apart outbuf osz b"
  shows "pack_all L me outbuf osz comm bs (rc, of_nat p, m) =
    (rc, of_nat (p + blocks_size bs),
     m(me := wr (m me) (outbuf + p) (concat (map (block_data (m me)) bs))))"
  using assms
proof (induction bs arbitrary: p m)
  case Nil
  then show ?case by simp
next
  case (Cons b bs)
  obtain a n dt where b: "b = (a, n, dt)" by (cases b)
  let ?d = "block_data (m me) b"
  let ?m = "m(me := wr (m me) (outbuf + p) ?d)"
  have d: "?d = rd (m me) a (n * elem_size dt)" "block_size b = n * elem_size dt"
    by (simp_all add: b block_data_def block_size_def)
  have fit: "p + block_size b + blocks_size bs \<le> osz" using Cons.prems(4) by simp
  have step: "MPI_Pack L 0 me a (of_nat n) dt outbuf (of_nat osz) (of_nat p) comm m =
      (MPI_SUCCESS, of_nat (p + block_size b), ?m)"
    using MPI_Pack_symmetric [OF Cons.prems(1,2) _ Cons.prems(3), of n dt p 0 a m] fit by (simp add: d)
  have keep: "map (block_data (?m me)) bs = map (block_data (m me)) bs"
    using Cons.prems(5) fit by (auto intro!: block_data_wr)
  have "pack_all L me outbuf osz comm (b # bs) (rc, of_nat p, m) =
      pack_all L me outbuf osz comm bs (rc, of_nat (p + block_size b), ?m)"
    using step by (simp add: b Let_def MPI_SUCCESS_def)
  also have "\<dots> = (rc, of_nat (p + block_size b + blocks_size bs),
      ?m(me := wr (?m me) (outbuf + (p + block_size b)) (concat (map (block_data (?m me)) bs))))"
    using Cons.prems(5) by (intro Cons.IH [OF Cons.prems(1-3) fit]) simp
  also have "\<dots> = (rc, of_nat (p + blocks_size (b # bs)),
      m(me := wr (m me) (outbuf + p) (concat (map (block_data (m me)) (b # bs)))))"
    using wr_append [of "m me" "outbuf + p" ?d] keep by (simp add: add.assoc cong: map_cong)
  finally show ?case .
qed

lemma unpack_all_run:
  assumes "has_rank comm me" and "sh_accessible L inbuf me" and "isz < 2147483648"
    and "p + blocks_size bs \<le> isz" and "\<forall>b \<in> set bs. block_apart inbuf isz b"
    and "sorted_wrt (\<lambda>b. block_apart (fst b) (block_size b)) bs"
  shows "\<exists>m'. unpack_all L me inbuf isz comm bs (rc, of_nat p, m) =
      (rc, of_nat (p + blocks_size bs), m') \<and>
    concat (map (block_data (m' me)) bs) = rd (m me) (inbuf + p) (blocks_size bs) \<and>
    (\<forall>a n. (\<forall>b \<in> set bs. block_apart a n b) \<longrightarrow> rd (m' me) a n = rd (m me) a n)"
  using assms
proof (induction bs arbitrary: p m)
  case Nil
  then show ?case by simp
next
  case (Cons b bs)
  obtain a n dt where b: "b = (a, n, dt)" by (cases b)
  let ?x = "rd (m me) (inbuf + p) (block_size b)"
  let ?m = "m(me := wr (m me) a ?x)"
  have d: "block_size b = n * elem_size dt" by (simp add: b block_size_def)
  have fit: "p + block_size b + blocks_size bs \<le> isz" using Cons.prems(4) by simp
  have step: "MPI_Unpack L 0 me inbuf (of_nat isz) (of_nat p) a (of_nat n) dt comm m =
      (MPI_SUCCESS, of_nat (p + block_size b), ?m)"
    using MPI_Unpack_symmetric [OF Cons.prems(1,2) _ Cons.prems(3), of n dt p 0 a m] fit by (simp add: d)
  have tl: "\<forall>b \<in> set bs. block_apart inbuf isz b"
      "sorted_wrt (\<lambda>b. block_apart (fst b) (block_size b)) bs"
    using Cons.prems(5,6) by simp_all
  from Cons.IH [OF Cons.prems(1-3) fit tl, of ?m] obtain m' where
    run: "unpack_all L me inbuf isz comm bs (rc, of_nat (p + block_size b), ?m) =
      (rc, of_nat (p + block_size b + blocks_size bs), m')" and
    rest: "concat (map (block_data (m' me)) bs) =
      rd (?m me) (inbuf + (p + block_size b)) (blocks_size bs)" and
    keep: "\<forall>a n. (\<forall>b \<in> set bs. block_apart a n b) \<longrightarrow> rd (m' me) a n = rd (?m me) a n"
    by blast
  have inbuf: "rd (?m me) (inbuf + (p + block_size b)) (blocks_size bs) =
      rd (m me) (inbuf + (p + block_size b)) (blocks_size bs)"
    using Cons.prems(5) fit
    by (auto simp: b block_apart_def apart_def d intro!: rd_wr_disjoint)
  have first: "block_data (m' me) b = ?x"
    using keep Cons.prems(6) by (simp add: block_data_def b d)
  have others: "rd (m' me) a' k = rd (m me) a' k" if "\<forall>c \<in> set (b # bs). block_apart a' k c" for a' k
    using keep that by (auto simp: b block_apart_def apart_def d intro!: rd_wr_disjoint)
  have "unpack_all L me inbuf isz comm (b # bs) (rc, of_nat p, m) =
      (rc, of_nat (p + blocks_size (b # bs)), m')"
    using step run by (simp add: b Let_def MPI_SUCCESS_def add.assoc)
  moreover have "concat (map (block_data (m' me)) (b # bs)) =
      rd (m me) (inbuf + p) (blocks_size (b # bs))"
    using rest inbuf first by (simp add: rd_add add.assoc)
  ultimately show ?case using others by blast
qed

end

section \<open>Private buffers\<close>

text \<open>MPI_Pack into a buffer that is not symmetric (one from malloc) at the address \<open>base\<close>: the
  block goes through the communicator's staging area \<open>bufferPtr\<close>, so both are the state.  The
  data lie behind the two.\<close>

definition private_pack ::
  "shmem_lib \<Rightarrow> nat \<Rightarrow> nat \<Rightarrow> MPID_Comm \<Rightarrow> i32 \<Rightarrow> MPI_Datatype \<Rightarrow> byte list \<Rightarrow> byte list \<times> byte list \<Rightarrow> i32
     \<Rightarrow> i32 \<times> (byte list \<times> byte list) \<times> i32" where
  "private_pack L me base c count dt data = (\<lambda>(out, stg) pos.
     let src = base + length out + c_bufferPtr c + length stg;
         m = (\<lambda>_. wr (wr (wr (\<lambda>_. 0) base out) (c_bufferPtr c) stg) src data);
         (rc, pos', m') = MPI_Pack L 0 me src count dt base (of_nat (length out)) pos (Some c) m
     in (rc, (rd (m' me) base (length out), rd (m' me) (c_bufferPtr c) (length stg)), pos'))"

text \<open>MPI_Unpack from a private buffer with the staging area holding \<open>stg\<close>; the destination
  lies behind the two.\<close>

definition private_unpack ::
  "shmem_lib \<Rightarrow> nat \<Rightarrow> nat \<Rightarrow> MPID_Comm \<Rightarrow> byte list \<Rightarrow> byte list \<Rightarrow> i32 \<Rightarrow> i32 \<Rightarrow> i32 \<Rightarrow> MPI_Datatype
     \<Rightarrow> byte list \<Rightarrow> i32 \<times> byte list \<times> i32" where
  "private_unpack L me base c stg msg sz pos count dt old =
     (let dst = base + length msg + c_bufferPtr c + length stg;
          m = (\<lambda>_. wr (wr (wr (\<lambda>_. 0) base msg) (c_bufferPtr c) stg) dst old);
          (rc, pos', m') = MPI_Unpack L 0 me base sz pos dst count dt (Some c) m
      in (rc, rd (m' me) dst (length old), pos'))"

text \<open>A private buffer of \<open>n\<close> bytes beside a staging area of \<open>k\<close> bytes.\<close>

definition private_buffer :: "shmem_lib \<Rightarrow> nat \<Rightarrow> nat \<Rightarrow> MPID_Comm \<Rightarrow> nat \<Rightarrow> nat \<Rightarrow> bool" where
  "private_buffer L me base c n k \<longleftrightarrow> shmem_documented L \<and> has_rank (Some c) me \<and>
     \<not> sh_accessible L base me \<and> apart base n (c_bufferPtr c) k \<and> n \<le> k \<and> n < 2147483648"

lemma splice_0: "splice buf 0 xs = xs @ drop (length xs) buf"
  by (simp add: splice_def)

lemma private_pack_fits:
  assumes priv: "private_buffer L me base c (length out) (length stg)"
    and d: "length data = n * elem_size dt" and fit: "p + length data \<le> length out"
  shows "private_pack L me base c (of_nat n) dt data (out, stg) (of_nat p) =
    (MPI_SUCCESS, (take (length data) (splice stg p data) @ drop (length data) out, splice stg p data),
     of_nat (p + length data))"
proof -
  let ?b = "c_bufferPtr c" and ?k = "length data"
  let ?src = "base + length out + ?b + length stg"
  let ?m = "wr (wr (wr (\<lambda>_. 0) base out) ?b stg) ?src data"
  let ?m1 = "wr ?m (?b + p) data"
  have lib: "shmem L" and rank: "has_rank (Some c) me" and acc: "\<not> sh_accessible L base me"
    and ap: "base + length out \<le> ?b \<or> ?b + length stg \<le> base" and le: "length out \<le> length stg"
    and b: "length out < 2147483648"
    using priv by (auto simp: private_buffer_def apart_def intro: shmem.intro)
  have fit': "n * elem_size dt + p \<le> length out" using d fit by simp
  have stg: "rd ?m1 ?b (length stg) = splice stg p data"
    using fit le by (intro rd_wr_splice) (simp_all add: rd_wr_disjoint)
  have out: "rd ?m1 base (length out) = out"
    using ap fit le by (auto simp: rd_wr_disjoint)
  have first: "rd ?m1 ?b ?k = take ?k (splice stg p data)"
    using stg fit le by (simp flip: stg)
  have m2: "rd (wr ?m1 base (rd ?m1 ?b ?k)) base (length out) = take ?k (splice stg p data) @ drop ?k out"
    using rd_wr_splice [of 0 "rd ?m1 ?b ?k" out ?m1 base] fit out first le by (simp add: splice_0)
  have stg2: "rd (wr ?m1 base (rd ?m1 ?b ?k)) ?b (length stg) = splice stg p data"
    using ap fit le by (subst rd_wr_disjoint) (auto simp: stg)
  show ?thesis
    using shmem.MPI_Pack_private [OF lib rank acc refl fit' b, of 0 ?src "\<lambda>_. ?m"] m2 stg2 d
    by (simp add: private_pack_def Let_def del: of_nat_add of_nat_mult)
qed

lemma private_unpack_fits:
  assumes priv: "private_buffer L me base c (length msg) (length stg)"
    and d: "length old = n * elem_size dt" and fit: "p + length old \<le> length msg"
  shows "private_unpack L me base c stg msg (of_nat (length msg)) (of_nat p) (of_nat n) dt old =
    (MPI_SUCCESS, take (length old) (drop p (take (length old) msg @ drop (length old) stg)),
     of_nat (p + length old))"
proof -
  let ?b = "c_bufferPtr c" and ?k = "length old"
  let ?dst = "base + length msg + ?b + length stg"
  let ?m = "wr (wr (wr (\<lambda>_. 0) base msg) ?b stg) ?dst old"
  let ?m1 = "wr ?m ?b (take ?k msg)"
  have lib: "shmem L" and rank: "has_rank (Some c) me" and acc: "\<not> sh_accessible L base me"
    and ap: "base + length msg \<le> ?b \<or> ?b + length stg \<le> base" and le: "length msg \<le> length stg"
    and b: "length msg < 2147483648"
    using priv by (auto simp: private_buffer_def apart_def intro: shmem.intro)
  have fit': "n * elem_size dt + p \<le> length msg" using d fit by simp
  have msg: "rd ?m base (length msg) = msg"
    using ap le by (auto simp: rd_wr_disjoint)
  then have first: "rd ?m base ?k = take ?k msg"
    using fit by (metis add_leE take_rd)
  have "rd ?m1 ?b (length stg) = splice stg 0 (take ?k msg)"
    using rd_wr_splice [of 0 "take ?k msg" stg ?m ?b] fit le by (simp add: rd_wr_disjoint)
  then have stg: "rd ?m1 ?b (length stg) = take ?k msg @ drop ?k stg"
    using fit by (simp add: splice_0)
  have "rd ?m1 (?b + p) ?k = take ?k (drop p (rd ?m1 ?b (length stg)))"
    using fit le by (simp add: drop_rd)
  then have data: "rd ?m1 (?b + p) ?k = take ?k (drop p (take ?k msg @ drop ?k stg))"
    by (simp add: stg)
  have "private_unpack L me base c stg msg (of_nat (length msg)) (of_nat p) (of_nat n) dt old =
      (MPI_SUCCESS, rd ?m1 (?b + p) ?k, of_nat (p + ?k))"
    using shmem.MPI_Unpack_private [OF lib rank acc refl fit' b, of 0 ?dst "\<lambda>_. ?m"] first d
    by (simp add: private_unpack_def Let_def del: of_nat_add of_nat_mult)
  then show ?thesis unfolding data .
qed

section \<open>Properties\<close>

text \<open>C7.  Packing any list of blocks into a symmetric buffer that is large enough and
  unpacking it into other places, on a communicator in which the caller's rank is its
  processing-element number, succeeds and delivers every block unchanged, for any library that
  behaves as OpenSHMEM documents.\<close>

theorem pack_unpack_round_trip:
  assumes lib: "shmem_documented L" and rank: "has_rank comm me"
    and acc: "sh_accessible L buf me" and size: "blocks_size srcs \<le> sz" "sz < 2147483648"
    and srcs: "\<forall>b \<in> set srcs. block_apart buf sz b"
    and dsts: "\<forall>b \<in> set dsts. block_apart buf sz b"
      "sorted_wrt (\<lambda>b. block_apart (fst b) (block_size b)) dsts"
    and same: "map snd dsts = map snd srcs"
  shows "\<exists>pos m1 m2. pack_all L me buf sz comm srcs (MPI_SUCCESS, 0, m) = (MPI_SUCCESS, pos, m1) \<and>
    unpack_all L me buf sz comm dsts (MPI_SUCCESS, 0, m1) = (MPI_SUCCESS, pos, m2) \<and>
    map (block_data (m2 me)) dsts = map (block_data (m me)) srcs"
proof -
  have S: "shmem L" by (rule shmem.intro [OF lib])
  have sizes: "map block_size dsts = map block_size srcs"
  proof (rule nth_equalityI)
    show "length (map block_size dsts) = length (map block_size srcs)"
      using map_eq_imp_length_eq [OF same] by simp
    fix i assume "i < length (map block_size dsts)"
    then have "snd (dsts ! i) = snd (srcs ! i)" "i < length srcs" "i < length dsts"
      using same map_eq_imp_length_eq [OF same] by (simp_all, metis nth_map)
    then show "map block_size dsts ! i = map block_size srcs ! i"
      by (simp add: block_size_def split_beta)
  qed
  then have total: "blocks_size dsts = blocks_size srcs" by (simp add: blocks_size_def)
  let ?d = "concat (map (block_data (m me)) srcs)"
  let ?m1 = "m(me := wr (m me) buf ?d)"
  have len: "length ?d = blocks_size srcs"
    by (simp add: length_concat blocks_size_def comp_def)
  have pack: "pack_all L me buf sz comm srcs (MPI_SUCCESS, 0, m) =
      (MPI_SUCCESS, of_nat (blocks_size srcs), ?m1)"
    using shmem.pack_all_run [OF S rank acc size(2), of 0 srcs MPI_SUCCESS m] size srcs by simp
  obtain m2 where unpack: "unpack_all L me buf sz comm dsts (MPI_SUCCESS, 0, ?m1) =
      (MPI_SUCCESS, of_nat (blocks_size srcs), m2)"
    and data: "concat (map (block_data (m2 me)) dsts) = rd (?m1 me) buf (blocks_size srcs)"
    using shmem.unpack_all_run [OF S rank acc size(2) _ dsts, of 0 MPI_SUCCESS ?m1] size(1)
    unfolding total by auto
  have "concat (map (block_data (m2 me)) dsts) = ?d" using data len by simp
  then have "map (block_data (m2 me)) dsts = map (block_data (m me)) srcs"
  proof (rule concat_injective)
    show len': "length (map (block_data (m2 me)) dsts) = length (map (block_data (m me)) srcs)"
      using map_eq_imp_length_eq [OF same] by simp
    show "\<forall>(x, y) \<in> set (zip (map (block_data (m2 me)) dsts) (map (block_data (m me)) srcs)).
        length x = length y"
      using sizes len' by (auto simp: in_set_zip) (metis nth_map)
  qed
  with pack unpack show ?thesis by blast
qed

theorem pack_unpack_round_trip_witness:
  "\<exists>pos m1 m2. pack_all (ref_shmem 0 4000) 0 100 64 one_comm
      [(300, 3, MPI_INT), (400, 5, MPI_CHAR)] (MPI_SUCCESS, 0, \<lambda>_ a. of_nat a) = (MPI_SUCCESS, pos, m1) \<and>
    unpack_all (ref_shmem 0 4000) 0 100 64 one_comm
      [(500, 3, MPI_INT), (600, 5, MPI_CHAR)] (MPI_SUCCESS, 0, m1) = (MPI_SUCCESS, pos, m2) \<and>
    rd (m2 0) 600 5 = rd (of_nat :: mem) 400 5"
proof -
  have sz: "elem_size MPI_INT = 4" "elem_size MPI_CHAR = 1"
    by (simp_all add: elem_size_def GetNumBytes_def mpi_types)
  let ?s = "[(300, 3, MPI_INT), (400, 5, MPI_CHAR)]"
  let ?d = "[(500, 3, MPI_INT), (600, 5, MPI_CHAR)]"
  have "\<exists>pos m1 m2. pack_all (ref_shmem 0 4000) 0 100 64 one_comm ?s (MPI_SUCCESS, 0, \<lambda>_ a. of_nat a) =
      (MPI_SUCCESS, pos, m1) \<and>
    unpack_all (ref_shmem 0 4000) 0 100 64 one_comm ?d (MPI_SUCCESS, 0, m1) = (MPI_SUCCESS, pos, m2) \<and>
    map (block_data (m2 0)) ?d = map (block_data (of_nat :: mem)) ?s"
    by (rule pack_unpack_round_trip)
      (simp_all add: sz block_apart_def apart_def block_size_def)
  then show ?thesis by (simp add: block_data_def block_size_def sz) blast
qed

text \<open>MPI_Pack with too little room left in the output buffer returns
  MPI_ERR_NO_SPACE and changes neither the position nor any memory; MPI_Unpack from a
  symmetric buffer that ends too early does the same.\<close>

theorem pack_no_space:
  assumes "comm \<noteq> None" and "sz < n * elem_size dt + p" and "n * elem_size dt + p < 2147483648"
  shows "MPI_Pack L junk me a (of_nat n) dt buf (of_nat sz) (of_nat p) comm m =
      (MPI_ERR_NO_SPACE, of_nat p, m) \<and>
    (shmem_documented L \<and> sh_accessible L buf me \<longrightarrow>
      MPI_Unpack L junk me buf (of_nat sz) (of_nat p) a (of_nat n) dt comm m =
      (MPI_ERR_NO_SPACE, of_nat p, m))"
proof -
  have "MPI_Pack L junk me a (of_nat n) dt buf (of_nat sz) (of_nat p) comm m =
      (MPI_ERR_NO_SPACE, of_nat p, m)"
    using assms
    by (auto simp: MPI_Pack_def Let_def pack_numBytes_GetNumBytes GetNumBytes_of_nat simp del: of_nat_mult)
  then show ?thesis using shmem.MPI_Unpack_short [OF shmem.intro] assms by blast
qed

theorem pack_no_space_witness:
  "MPI_Pack (ref_shmem 0 4000) 0 0 300 3 MPI_INT 100 8 0 one_comm (\<lambda>_ _. 0) =
    (MPI_ERR_NO_SPACE, 0, \<lambda>_ _. 0)"
  using pack_no_space [of one_comm 8 3 MPI_INT 0]
  by (simp add: one_comm_def elem_size_def GetNumBytes_def mpi_types)

text \<open>MPI_Pack into a private (not symmetric) output buffer reports success, but when
  the block is packed behind at least as many bytes as it has itself, the place it belongs to
  keeps its old contents: the code copies the start of its staging buffer to the start of the
  output instead.\<close>

theorem pack_private_loses_block:
  assumes "shmem_documented L" and "has_rank (Some c) me" and "\<not> sh_accessible L buf me"
    and fit: "n * elem_size dt + p \<le> sz" "sz < 2147483648" and pos: "n * elem_size dt \<le> p"
    and apart: "apart (c_bufferPtr c) sz buf sz"
  shows "\<exists>m'. MPI_Pack L junk me a (of_nat n) dt buf (of_nat sz) (of_nat p) (Some c) m =
      (MPI_SUCCESS, of_nat (p + n * elem_size dt), m') \<and>
    rd (m' me) (buf + p) (n * elem_size dt) = rd (m me) (buf + p) (n * elem_size dt)"
proof -
  let ?k = "n * elem_size dt" and ?b = "c_bufferPtr c"
  let ?m1 = "m(me := wr (m me) (?b + p) (rd (m me) a ?k))"
  have "MPI_Pack L junk me a (of_nat n) dt buf (of_nat sz) (of_nat p) (Some c) m =
      (MPI_SUCCESS, of_nat (p + ?k), ?m1(me := wr (?m1 me) buf (rd (?m1 me) ?b ?k)))"
    using shmem.MPI_Pack_private [OF shmem.intro, OF assms(1-3) refl fit] by (simp add: Let_def)
  moreover have "rd (wr (?m1 me) buf (rd (?m1 me) ?b ?k)) (buf + p) ?k = rd (?m1 me) (buf + p) ?k"
    using pos by (intro rd_wr_disjoint) simp
  moreover have "rd (?m1 me) (buf + p) ?k = rd (m me) (buf + p) ?k"
    using apart fit by (auto simp: apart_def intro!: rd_wr_disjoint)
  ultimately show ?thesis by auto
qed

theorem pack_private_loses_block_witness:
  "\<exists>m'. MPI_Pack (ref_shmem 0 4000) 0 0 300 1 MPI_INT 9000 64 16 one_comm (\<lambda>_ a. of_nat a) =
      (MPI_SUCCESS, 20, m') \<and> rd (m' 0) 9016 4 = rd (of_nat :: mem) 9016 4"
proof -
  have sz: "elem_size MPI_INT = 4" by (simp add: elem_size_def GetNumBytes_def mpi_types)
  have "c_bufferPtr (world_comm 1 0 0 1000 2000 3000 6) = 1000" by (simp add: world_comm_def)
  then show ?thesis
    using pack_private_loses_block [of "ref_shmem 0 4000" "world_comm 1 0 0 1000 2000 3000 6" 0 9000
        1 MPI_INT 16 64 0 300 "\<lambda>_ a. of_nat a"] one_comm_rank
    by (simp add: sz apart_def one_comm_def)
qed

text \<open>MPI_Unpack from a private (not symmetric) input buffer copies only the first bytes of the
  input, as many as the block has, to its staging area and reads the block from that area at the
  position: a block behind at least as many bytes as it has itself is whatever the staging area
  held before, whatever the input is, and the call reports success.\<close>

theorem unpack_private_reads_staging:
  assumes "shmem_documented L" and "has_rank (Some c) me" and "\<not> sh_accessible L buf me"
    and fit: "n * elem_size dt + p \<le> sz" "sz < 2147483648" and pos: "n * elem_size dt \<le> p"
  shows "\<exists>m'. MPI_Unpack L junk me buf (of_nat sz) (of_nat p) a (of_nat n) dt (Some c) m =
      (MPI_SUCCESS, of_nat (p + n * elem_size dt), m') \<and>
    rd (m' me) a (n * elem_size dt) = rd (m me) (c_bufferPtr c + p) (n * elem_size dt)"
proof -
  let ?k = "n * elem_size dt" and ?b = "c_bufferPtr c"
  have "rd (wr (m me) ?b (rd (m me) buf ?k)) (?b + p) ?k = rd (m me) (?b + p) ?k"
    using pos by (intro rd_wr_disjoint) simp
  then show ?thesis
    using shmem.MPI_Unpack_private [OF shmem.intro, OF assms(1-3) refl fit, of junk a m]
    by (simp add: Let_def)
qed

theorem unpack_private_reads_staging_witness:
  "\<exists>m'. MPI_Unpack (ref_shmem 0 4000) 0 0 9000 64 16 300 1 MPI_INT one_comm (\<lambda>_ a. of_nat a) =
      (MPI_SUCCESS, 20, m') \<and> rd (m' 0) 300 4 = rd (of_nat :: mem) 1016 4"
proof -
  have sz: "elem_size MPI_INT = 4" by (simp add: elem_size_def GetNumBytes_def mpi_types)
  have "c_bufferPtr (world_comm 1 0 0 1000 2000 3000 6) = 1000" by (simp add: world_comm_def)
  then show ?thesis
    using unpack_private_reads_staging [of "ref_shmem 0 4000" "world_comm 1 0 0 1000 2000 3000 6" 0 9000
        1 MPI_INT 16 64 0 300 "\<lambda>_ a. of_nat a"] one_comm_rank
    by (simp add: sz one_comm_def)
qed

text \<open>C40.  On a communicator in which the caller's rank \<open>r\<close> is not its processing-element
  number, MPI_Pack writes into the memory of processing element \<open>r\<close>: the caller's own buffer
  does not change at all, although the call reports success.\<close>

theorem pack_sub_communicator_wrong_pe:
  assumes "shmem_documented L" and "has_rank comm r" and "r \<noteq> me" and "sh_accessible L buf me"
    and "n * elem_size dt + p \<le> sz" and "sz < 2147483648"
  shows "\<exists>m'. MPI_Pack L junk me a (of_nat n) dt buf (of_nat sz) (of_nat p) comm m =
      (MPI_SUCCESS, of_nat (p + n * elem_size dt), m') \<and> m' me = m me \<and>
    rd (m' r) (buf + p) (n * elem_size dt) = rd (m me) a (n * elem_size dt)"
  using shmem.MPI_Pack_symmetric [OF shmem.intro, OF assms(1,2,4-6), of junk a m] assms(3) by simp

theorem pack_sub_communicator_wrong_pe_witness:
  "\<exists>m'. MPI_Pack (ref_shmem 0 4000) 0 3 300 1 MPI_INT 100 64 16 one_comm (\<lambda>_ a. of_nat a) =
      (MPI_SUCCESS, 20, m') \<and> m' 3 = (of_nat :: mem)"
proof -
  have sz: "elem_size MPI_INT = 4" by (simp add: elem_size_def GetNumBytes_def mpi_types)
  show ?thesis
    using pack_sub_communicator_wrong_pe [of "ref_shmem 0 4000" one_comm 0 3 100 1 MPI_INT 16 64 0 300
        "\<lambda>_ a. of_nat a"]
    by (auto simp: sz)
qed

end
