(* ===== verification/Messages.thy ===== *)
theory Messages
  imports Mdhim_Base Mpi_Pack "HOL-Library.Monad_Syntax"
begin

text \<open>
  The wire format of \<^verbatim>\<open>src/mdhimMods/src/messages.c\<close>: the packing and unpacking functions of
  every request and reply, written against the operations \<open>pk\<close> (MPI_Pack) and \<open>up\<close>
  (MPI_Unpack), with their size checks and, over any pair of the interface \<open>packer\<close>, their
  round trips.

  The code sends the in-memory image of the structure (an LP64 layout: padding and the
  sender's pointers included) followed by what the pointers lead to.  A pointer is modelled
  with the object it leads to (\<open>blob\<close>); a structure that arrived has the sender's addresses
  and no objects behind them until the receiver allocates some.  \<open>mal k n\<close> is the result of
  the \<open>k\<close>-th call of malloc in a function, for \<open>n\<close> bytes: NULL (None) or a new object with
  unspecified contents.  The packing functions are generic in the state \<open>'s\<close> that MPI_Pack works
  on: the contents of the send buffer, as far as MPI's documentation goes, or the send buffer and
  the staging area of the communicator, which the repository's own MPI_Pack uses.
\<close>

section \<open>Constants and structures\<close>

definition MDHIM_MAX_MSG_SIZE :: "64 word" where "MDHIM_MAX_MSG_SIZE = 2147483647"

type_synonym blob = "u64 \<times> byte list"
type_synonym 's pack_op = "i32 \<Rightarrow> MPI_Datatype \<Rightarrow> byte list \<Rightarrow> 's \<Rightarrow> i32 \<Rightarrow> i32 \<times> 's \<times> i32"
type_synonym unpack_op =
  "byte list \<Rightarrow> i32 \<Rightarrow> i32 \<Rightarrow> i32 \<Rightarrow> MPI_Datatype \<Rightarrow> byte list \<Rightarrow> i32 \<times> byte list \<times> i32"
type_synonym 's alloc_op = "nat \<Rightarrow> nat \<Rightarrow> (u64 \<times> 's) option"
type_synonym malloc_op = "byte list alloc_op"

record mdhim_basem_t =
  bs_mtype :: i32
  bs_server_rank :: i32
  bs_size :: i32

record mdhim_putm_t =
  pm_mtype :: i32
  pm_server_rank :: i32
  pm_size :: i32
  pm_pad0 :: u32
  pm_key :: blob
  pm_key_len :: i32
  pm_pad1 :: u32
  pm_value :: blob
  pm_value_len :: i32
  pm_pad2 :: u32

record mdhim_bputm_t =
  bp_mtype :: i32
  bp_server_rank :: i32
  bp_size :: i32
  bp_pad0 :: u32
  bp_keys :: "u64 \<times> blob list"
  bp_key_lens :: "u64 \<times> i32 list"
  bp_values :: "u64 \<times> blob list"
  bp_value_lens :: "u64 \<times> i32 list"
  bp_num_records :: i32
  bp_pad1 :: u32

record mdhim_getm_t =
  gm_mtype :: i32
  gm_server_rank :: i32
  gm_size :: i32
  gm_op :: i32
  gm_key :: blob
  gm_key_len :: i32
  gm_num_records :: i32

record mdhim_bgetm_t =
  bg_mtype :: i32
  bg_server_rank :: i32
  bg_size :: i32
  bg_op :: i32
  bg_keys :: "u64 \<times> blob list"
  bg_key_lens :: "u64 \<times> i32 list"
  bg_num_records :: i32
  bg_pad :: u32

record mdhim_delm_t =
  dm_mtype :: i32
  dm_server_rank :: i32
  dm_size :: i32
  dm_pad0 :: u32
  dm_key :: blob
  dm_key_len :: i32
  dm_pad1 :: u32

record mdhim_bdelm_t =
  bd_mtype :: i32
  bd_server_rank :: i32
  bd_size :: i32
  bd_pad0 :: u32
  bd_keys :: "u64 \<times> blob list"
  bd_key_lens :: "u64 \<times> i32 list"
  bd_num_records :: i32
  bd_pad1 :: u32

record mdhim_rm_t =
  rm_mtype :: i32
  rm_server_rank :: i32
  rm_size :: i32
  rm_error :: i32

record mdhim_getrm_t =
  gr_mtype :: i32
  gr_server_rank :: i32
  gr_size :: i32
  gr_error :: i32
  gr_key :: blob
  gr_key_len :: i32
  gr_pad0 :: u32
  gr_value :: blob
  gr_value_len :: i32
  gr_pad1 :: u32

record mdhim_bgetrm_t =
  br_mtype :: i32
  br_server_rank :: i32
  br_size :: i32
  br_error :: i32
  br_keys :: "u64 \<times> blob list"
  br_key_lens :: "u64 \<times> i32 list"
  br_values :: "u64 \<times> blob list"
  br_value_lens :: "u64 \<times> i32 list"
  br_num_records :: i32
  br_pad :: u32
  br_next :: u64

section \<open>Images of the structures\<close>

definition w32 :: "byte list \<Rightarrow> nat \<Rightarrow> u32" where "w32 bs a = dec32 (take 4 (drop a bs))"
definition w64 :: "byte list \<Rightarrow> nat \<Rightarrow> u64" where "w64 bs a = dec64 (take 8 (drop a bs))"

definition basem_image :: "mdhim_basem_t \<Rightarrow> byte list" where
  "basem_image m = enc32 (bs_mtype m) @ enc32 (bs_server_rank m) @ enc32 (bs_size m)"

definition putm_image :: "mdhim_putm_t \<Rightarrow> byte list" where
  "putm_image m = enc32 (pm_mtype m) @ enc32 (pm_server_rank m) @ enc32 (pm_size m) @
     enc32 (pm_pad0 m) @ enc64 (fst (pm_key m)) @ enc32 (pm_key_len m) @ enc32 (pm_pad1 m) @
     enc64 (fst (pm_value m)) @ enc32 (pm_value_len m) @ enc32 (pm_pad2 m)"

definition putm_of :: "byte list \<Rightarrow> mdhim_putm_t" where
  "putm_of b = \<lparr>pm_mtype = w32 b 0, pm_server_rank = w32 b 4, pm_size = w32 b 8, pm_pad0 = w32 b 12,
     pm_key = (w64 b 16, []), pm_key_len = w32 b 24, pm_pad1 = w32 b 28,
     pm_value = (w64 b 32, []), pm_value_len = w32 b 40, pm_pad2 = w32 b 44\<rparr>"

definition bputm_image :: "mdhim_bputm_t \<Rightarrow> byte list" where
  "bputm_image m = enc32 (bp_mtype m) @ enc32 (bp_server_rank m) @ enc32 (bp_size m) @
     enc32 (bp_pad0 m) @ enc64 (fst (bp_keys m)) @ enc64 (fst (bp_key_lens m)) @
     enc64 (fst (bp_values m)) @ enc64 (fst (bp_value_lens m)) @ enc32 (bp_num_records m) @
     enc32 (bp_pad1 m)"

definition bputm_of :: "byte list \<Rightarrow> mdhim_bputm_t" where
  "bputm_of b = \<lparr>bp_mtype = w32 b 0, bp_server_rank = w32 b 4, bp_size = w32 b 8, bp_pad0 = w32 b 12,
     bp_keys = (w64 b 16, []), bp_key_lens = (w64 b 24, []), bp_values = (w64 b 32, []),
     bp_value_lens = (w64 b 40, []), bp_num_records = w32 b 48, bp_pad1 = w32 b 52\<rparr>"

definition getm_image :: "mdhim_getm_t \<Rightarrow> byte list" where
  "getm_image m = enc32 (gm_mtype m) @ enc32 (gm_server_rank m) @ enc32 (gm_size m) @
     enc32 (gm_op m) @ enc64 (fst (gm_key m)) @ enc32 (gm_key_len m) @ enc32 (gm_num_records m)"

definition getm_of :: "byte list \<Rightarrow> mdhim_getm_t" where
  "getm_of b = \<lparr>gm_mtype = w32 b 0, gm_server_rank = w32 b 4, gm_size = w32 b 8, gm_op = w32 b 12,
     gm_key = (w64 b 16, []), gm_key_len = w32 b 24, gm_num_records = w32 b 28\<rparr>"

definition bgetm_image :: "mdhim_bgetm_t \<Rightarrow> byte list" where
  "bgetm_image m = enc32 (bg_mtype m) @ enc32 (bg_server_rank m) @ enc32 (bg_size m) @
     enc32 (bg_op m) @ enc64 (fst (bg_keys m)) @ enc64 (fst (bg_key_lens m)) @
     enc32 (bg_num_records m) @ enc32 (bg_pad m)"

definition bgetm_of :: "byte list \<Rightarrow> mdhim_bgetm_t" where
  "bgetm_of b = \<lparr>bg_mtype = w32 b 0, bg_server_rank = w32 b 4, bg_size = w32 b 8, bg_op = w32 b 12,
     bg_keys = (w64 b 16, []), bg_key_lens = (w64 b 24, []), bg_num_records = w32 b 32,
     bg_pad = w32 b 36\<rparr>"

definition delm_image :: "mdhim_delm_t \<Rightarrow> byte list" where
  "delm_image m = enc32 (dm_mtype m) @ enc32 (dm_server_rank m) @ enc32 (dm_size m) @
     enc32 (dm_pad0 m) @ enc64 (fst (dm_key m)) @ enc32 (dm_key_len m) @ enc32 (dm_pad1 m)"

definition delm_of :: "byte list \<Rightarrow> mdhim_delm_t" where
  "delm_of b = \<lparr>dm_mtype = w32 b 0, dm_server_rank = w32 b 4, dm_size = w32 b 8, dm_pad0 = w32 b 12,
     dm_key = (w64 b 16, []), dm_key_len = w32 b 24, dm_pad1 = w32 b 28\<rparr>"

definition bdelm_image :: "mdhim_bdelm_t \<Rightarrow> byte list" where
  "bdelm_image m = enc32 (bd_mtype m) @ enc32 (bd_server_rank m) @ enc32 (bd_size m) @
     enc32 (bd_pad0 m) @ enc64 (fst (bd_keys m)) @ enc64 (fst (bd_key_lens m)) @
     enc32 (bd_num_records m) @ enc32 (bd_pad1 m)"

definition bdelm_of :: "byte list \<Rightarrow> mdhim_bdelm_t" where
  "bdelm_of b = \<lparr>bd_mtype = w32 b 0, bd_server_rank = w32 b 4, bd_size = w32 b 8, bd_pad0 = w32 b 12,
     bd_keys = (w64 b 16, []), bd_key_lens = (w64 b 24, []), bd_num_records = w32 b 32,
     bd_pad1 = w32 b 36\<rparr>"

definition rm_image :: "mdhim_rm_t \<Rightarrow> byte list" where
  "rm_image m = enc32 (rm_mtype m) @ enc32 (rm_server_rank m) @ enc32 (rm_size m) @ enc32 (rm_error m)"

definition rm_of :: "byte list \<Rightarrow> mdhim_rm_t" where
  "rm_of b = \<lparr>rm_mtype = w32 b 0, rm_server_rank = w32 b 4, rm_size = w32 b 8, rm_error = w32 b 12\<rparr>"

definition getrm_image :: "mdhim_getrm_t \<Rightarrow> byte list" where
  "getrm_image m = enc32 (gr_mtype m) @ enc32 (gr_server_rank m) @ enc32 (gr_size m) @
     enc32 (gr_error m) @ enc64 (fst (gr_key m)) @ enc32 (gr_key_len m) @ enc32 (gr_pad0 m) @
     enc64 (fst (gr_value m)) @ enc32 (gr_value_len m) @ enc32 (gr_pad1 m)"

definition getrm_of :: "byte list \<Rightarrow> mdhim_getrm_t" where
  "getrm_of b = \<lparr>gr_mtype = w32 b 0, gr_server_rank = w32 b 4, gr_size = w32 b 8, gr_error = w32 b 12,
     gr_key = (w64 b 16, []), gr_key_len = w32 b 24, gr_pad0 = w32 b 28,
     gr_value = (w64 b 32, []), gr_value_len = w32 b 40, gr_pad1 = w32 b 44\<rparr>"

definition bgetrm_image :: "mdhim_bgetrm_t \<Rightarrow> byte list" where
  "bgetrm_image m = enc32 (br_mtype m) @ enc32 (br_server_rank m) @ enc32 (br_size m) @
     enc32 (br_error m) @ enc64 (fst (br_keys m)) @ enc64 (fst (br_key_lens m)) @
     enc64 (fst (br_values m)) @ enc64 (fst (br_value_lens m)) @ enc32 (br_num_records m) @
     enc32 (br_pad m) @ enc64 (br_next m)"

definition bgetrm_of :: "byte list \<Rightarrow> mdhim_bgetrm_t" where
  "bgetrm_of b = \<lparr>br_mtype = w32 b 0, br_server_rank = w32 b 4, br_size = w32 b 8, br_error = w32 b 12,
     br_keys = (w64 b 16, []), br_key_lens = (w64 b 24, []), br_values = (w64 b 32, []),
     br_value_lens = (w64 b 40, []), br_num_records = w32 b 48, br_pad = w32 b 52,
     br_next = w64 b 56\<rparr>"

section \<open>Packing\<close>

text \<open>One call of MPI_Pack, its return code added to the sum so far.\<close>

type_synonym item = "i32 \<times> MPI_Datatype \<times> byte list"

definition pack_item :: "'s pack_op \<Rightarrow> item \<Rightarrow> i32 \<times> 's \<times> i32 \<Rightarrow> i32 \<times> 's \<times> i32" where
  "pack_item pk = (\<lambda>(count, dt, data) (rc, buf, pos).
     let (r, buf', pos') = pk count dt data buf pos in (rc + r, buf', pos'))"

text \<open>The bytes MPI_Pack reads through a pointer for \<open>len\<close> items of type MPI_CHAR.\<close>

definition bytes_at :: "blob \<Rightarrow> i32 \<Rightarrow> byte list" where
  "bytes_at b len = take (nat (sint len)) (snd b)"

abbreviation char_item :: "i32 \<Rightarrow> blob \<Rightarrow> item" where
  "char_item len b \<equiv> (len, MPI_CHAR, bytes_at b len)"

abbreviation int_item :: "i32 \<Rightarrow> item" where
  "int_item w \<equiv> (1, MPI_INT, enc32 w)"

text \<open>The part all packing functions share: allocate the buffer, pack the items, look at the
  sum of the return codes.  The result is the return code and \<open>*sendbuf\<close>.\<close>

definition pack_out :: "'s pack_op \<Rightarrow> 's alloc_op \<Rightarrow> i32 \<Rightarrow> item list \<Rightarrow> int \<times> 's option" where
  "pack_out pk mal mesg_size items =
     (case mal 0 (csize mesg_size) of None \<Rightarrow> (MDHIM_ERROR, None)
      | Some (_, outbuf) \<Rightarrow>
        (let (return_code, sendbuf, _) = fold (pack_item pk) items (MPI_SUCCESS, outbuf, 0)
         in (if return_code \<noteq> MPI_SUCCESS then MDHIM_ERROR else MDHIM_SUCCESS, Some sendbuf)))"

text \<open>\<open>(code, *sendbuf, *sendsize, message)\<close>; \<open>ss\<close> is \<open>*sendsize\<close> before the call.\<close>

type_synonym ('s, 'm) packed = "int \<times> 's option \<times> i32 \<times> 'm"

definition pack_put_message ::
  "'s pack_op \<Rightarrow> 's alloc_op \<Rightarrow> mdhim_putm_t \<Rightarrow> i32 \<Rightarrow> ('s, mdhim_putm_t) packed" where
  "pack_put_message pk mal pm ss =
     (let m_size = 48 + scast (pm_key_len pm + pm_value_len pm) :: 64 word
      in if MDHIM_MAX_MSG_SIZE <s m_size then (MDHIM_ERROR, None, ss, pm)
         else let mesg_size = ucast m_size;
                  pm' = pm\<lparr>pm_size := mesg_size\<rparr>;
                  (code, sendbuf) = pack_out pk mal mesg_size
                    [(48, MPI_CHAR, putm_image pm'), char_item (pm_key_len pm') (pm_key pm'),
                     char_item (pm_value_len pm') (pm_value pm')]
              in (code, sendbuf, mesg_size, pm'))"

definition pack_bput_message ::
  "'s pack_op \<Rightarrow> 's alloc_op \<Rightarrow> mdhim_bputm_t \<Rightarrow> i32 \<Rightarrow> ('s, mdhim_bputm_t) packed" where
  "pack_bput_message pk mal bpm ss =
     (let is = [0..<nat (sint (bp_num_records bpm))];
          kl = snd (bp_key_lens bpm); vl = snd (bp_value_lens bpm);
          m_size0 = 56 + scast (2 * bp_num_records bpm) * 4 :: 64 word;
          m_size = fold (\<lambda>i s. s + scast (kl ! i + vl ! i)) is m_size0
      in if MDHIM_MAX_MSG_SIZE <s m_size then (MDHIM_ERROR, None, ss, bpm)
         else let mesg_size = ucast m_size;
                  bpm' = bpm\<lparr>bp_size := mesg_size\<rparr>;
                  (code, sendbuf) = pack_out pk mal mesg_size
                    ((56, MPI_CHAR, bputm_image bpm') #
                     concat (map (\<lambda>i. [int_item (kl ! i), char_item (kl ! i) (snd (bp_keys bpm) ! i),
                       int_item (vl ! i), char_item (vl ! i) (snd (bp_values bpm) ! i)]) is))
              in (code, sendbuf, mesg_size, bpm'))"

definition pack_get_message ::
  "'s pack_op \<Rightarrow> 's alloc_op \<Rightarrow> mdhim_getm_t \<Rightarrow> i32 \<Rightarrow> ('s, mdhim_getm_t) packed" where
  "pack_get_message pk mal gm ss =
     (let m_size = 32 + scast (gm_key_len gm) :: 64 word
      in if MDHIM_MAX_MSG_SIZE <s m_size then (MDHIM_ERROR, None, ss, gm)
         else let mesg_size = ucast m_size;
                  gm' = gm\<lparr>gm_size := mesg_size\<rparr>;
                  (code, sendbuf) = pack_out pk mal mesg_size
                    [(32, MPI_CHAR, getm_image gm'), char_item (gm_key_len gm') (gm_key gm')]
              in (code, sendbuf, mesg_size, gm'))"

definition pack_bget_message ::
  "'s pack_op \<Rightarrow> 's alloc_op \<Rightarrow> mdhim_bgetm_t \<Rightarrow> i32 \<Rightarrow> ('s, mdhim_bgetm_t) packed" where
  "pack_bget_message pk mal bgm ss =
     (let is = [0..<nat (sint (bg_num_records bgm))]; kl = snd (bg_key_lens bgm);
          m_size0 = 40 + scast (bg_num_records bgm) * 4 * 2 :: 64 word;
          m_size = fold (\<lambda>i s. s + scast (kl ! i)) is m_size0
      in if MDHIM_MAX_MSG_SIZE <s m_size then (MDHIM_ERROR, None, ss, bgm)
         else let mesg_size = ucast m_size;
                  bgm' = bgm\<lparr>bg_size := mesg_size\<rparr>;
                  (code, sendbuf) = pack_out pk mal mesg_size
                    ((40, MPI_CHAR, bgetm_image bgm') #
                     concat (map (\<lambda>i. [int_item (kl ! i), char_item (kl ! i) (snd (bg_keys bgm) ! i)]) is))
              in (code, sendbuf, mesg_size, bgm'))"

definition pack_getrm_message ::
  "'s pack_op \<Rightarrow> 's alloc_op \<Rightarrow> mdhim_getrm_t \<Rightarrow> i32 \<Rightarrow> ('s, mdhim_getrm_t) packed" where
  "pack_getrm_message pk mal grm ss =
     (let m_size = 48 + scast (gr_key_len grm + gr_value_len grm) :: 64 word
      in if MDHIM_MAX_MSG_SIZE <s m_size then (MDHIM_ERROR, None, ss, grm)
         else let mesg_size = ucast m_size;
                  grm' = grm\<lparr>gr_size := mesg_size\<rparr>;
                  (code, sendbuf) = pack_out pk mal mesg_size
                    ([(48, MPI_CHAR, getrm_image grm')] @
                     (if gr_key_len grm' \<noteq> 0 then [char_item (gr_key_len grm') (gr_key grm')] else []) @
                     (if gr_value_len grm' \<noteq> 0 then [char_item (gr_value_len grm') (gr_value grm')] else []))
              in (code, sendbuf, mesg_size, grm'))"

definition pack_bgetrm_message ::
  "'s pack_op \<Rightarrow> 's alloc_op \<Rightarrow> mdhim_bgetrm_t \<Rightarrow> i32 \<Rightarrow> ('s, mdhim_bgetrm_t) packed" where
  "pack_bgetrm_message pk mal bgrm ss =
     (let is = [0..<nat (sint (br_num_records bgrm))];
          kl = snd (br_key_lens bgrm); vl = snd (br_value_lens bgrm);
          m_size0 = 64 + scast (2 * br_num_records bgrm) * 4 :: 64 word;
          m_size = fold (\<lambda>i s. s + scast (kl ! i + vl ! i)) is m_size0
      in if MDHIM_MAX_MSG_SIZE <s m_size then (MDHIM_ERROR, None, ss, bgrm)
         else let mesg_size = ucast m_size;
                  bgrm' = bgrm\<lparr>br_size := mesg_size\<rparr>;
                  (code, sendbuf) = pack_out pk mal mesg_size
                    ((64, MPI_CHAR, bgetrm_image bgrm') #
                     concat (map (\<lambda>i. [int_item (kl ! i)] @
                       (if 0 <s kl ! i then [char_item (kl ! i) (snd (br_keys bgrm) ! i)] else []) @
                       [int_item (vl ! i)] @
                       (if 0 <s vl ! i then [char_item (vl ! i) (snd (br_values bgrm) ! i)] else [])) is))
              in (code, sendbuf, mesg_size, bgrm'))"

definition pack_base_message ::
  "'s pack_op \<Rightarrow> 's alloc_op \<Rightarrow> mdhim_basem_t \<Rightarrow> i32 \<Rightarrow> ('s, mdhim_basem_t) packed" where
  "pack_base_message pk mal cm ss =
     (let mesg_size = 12; cm' = cm\<lparr>bs_size := mesg_size\<rparr>;
          (code, sendbuf) = pack_out pk mal mesg_size [(12, MPI_CHAR, basem_image cm')]
      in (code, sendbuf, mesg_size, cm'))"

definition pack_del_message ::
  "'s pack_op \<Rightarrow> 's alloc_op \<Rightarrow> mdhim_delm_t \<Rightarrow> i32 \<Rightarrow> ('s, mdhim_delm_t) packed" where
  "pack_del_message pk mal dm ss =
     (let m_size = 32 + scast (dm_key_len dm) :: 64 word
      in if MDHIM_MAX_MSG_SIZE <s m_size then (MDHIM_ERROR, None, ss, dm)
         else let mesg_size = ucast m_size;
                  dm' = dm\<lparr>dm_size := mesg_size\<rparr>;
                  (code, sendbuf) = pack_out pk mal mesg_size
                    [(32, MPI_CHAR, delm_image dm'), char_item (dm_key_len dm') (dm_key dm')]
              in (code, sendbuf, mesg_size, dm'))"

definition pack_bdel_message ::
  "'s pack_op \<Rightarrow> 's alloc_op \<Rightarrow> mdhim_bdelm_t \<Rightarrow> i32 \<Rightarrow> ('s, mdhim_bdelm_t) packed" where
  "pack_bdel_message pk mal bdm ss =
     (let is = [0..<nat (sint (bd_num_records bdm))]; kl = snd (bd_key_lens bdm);
          m_size0 = 40 + scast (bd_num_records bdm) * 4 :: 64 word;
          m_size = fold (\<lambda>i s. s + scast (kl ! i)) is m_size0
      in if MDHIM_MAX_MSG_SIZE <s m_size then (MDHIM_ERROR, None, ss, bdm)
         else let mesg_size = ucast m_size;
                  bdm' = bdm\<lparr>bd_size := mesg_size\<rparr>;
                  (code, sendbuf) = pack_out pk mal mesg_size
                    ((40, MPI_CHAR, bdelm_image bdm') #
                     concat (map (\<lambda>i. [int_item (kl ! i), char_item (kl ! i) (snd (bd_keys bdm) ! i)]) is))
              in (code, sendbuf, mesg_size, bdm'))"

definition pack_return_message ::
  "'s pack_op \<Rightarrow> 's alloc_op \<Rightarrow> mdhim_rm_t \<Rightarrow> i32 \<Rightarrow> ('s, mdhim_rm_t) packed" where
  "pack_return_message pk mal rm ss =
     (let mesg_size = 16; rm' = rm\<lparr>rm_size := mesg_size\<rparr>;
          (code, sendbuf) = pack_out pk mal mesg_size [(16, MPI_CHAR, rm_image rm')]
      in (code, sendbuf, mesg_size, rm'))"

section \<open>Unpacking\<close>

text \<open>The state is the sum of the return codes and the position.  None stands for the return
  of MDHIM_ERROR, \<open>Some m\<close> for MDHIM_SUCCESS with the unpacked message.\<close>

type_synonym up_state = "i32 \<times> i32"

definition up_int :: "unpack_op \<Rightarrow> byte list \<Rightarrow> i32 \<Rightarrow> byte list \<Rightarrow> up_state \<Rightarrow> i32 \<times> up_state" where
  "up_int up message mesg_size old = (\<lambda>(rc, pos).
     let (r, bs, pos') = up message mesg_size pos 1 MPI_INT old in (dec32 bs, rc + r, pos'))"

text \<open>Allocate \<open>len\<close> bytes and unpack that many characters into them.\<close>

definition up_alloc ::
  "unpack_op \<Rightarrow> malloc_op \<Rightarrow> nat \<Rightarrow> byte list \<Rightarrow> i32 \<Rightarrow> i32 \<Rightarrow> up_state \<Rightarrow> (blob \<times> up_state) option" where
  "up_alloc up mal k message mesg_size len = (\<lambda>(rc, pos).
     case mal k (csize len) of None \<Rightarrow> None
     | Some (a, old) \<Rightarrow> (let (r, bs, pos') = up message mesg_size pos len MPI_CHAR old
                        in Some ((a, bs), rc + r, pos')))"

text \<open>The replies leave the pointer NULL when the length is zero.\<close>

definition up_alloc_nz ::
  "unpack_op \<Rightarrow> malloc_op \<Rightarrow> nat \<Rightarrow> byte list \<Rightarrow> i32 \<Rightarrow> i32 \<Rightarrow> up_state \<Rightarrow> (blob \<times> up_state) option" where
  "up_alloc_nz up mal k message mesg_size len st =
     (if len = 0 then Some ((0, []), st) else up_alloc up mal k message mesg_size len st)"

text \<open>Allocate a structure of \<open>n\<close> bytes and unpack its image.\<close>

definition up_struct :: "unpack_op \<Rightarrow> malloc_op \<Rightarrow> byte list \<Rightarrow> i32 \<Rightarrow> nat \<Rightarrow> (byte list \<times> up_state) option" where
  "up_struct up mal message mesg_size n =
     (case mal 0 n of None \<Rightarrow> None
      | Some (_, old) \<Rightarrow> (let (r, img, pos) = up message mesg_size 0 (of_nat n) MPI_CHAR old
                         in Some (img, r, pos)))"

text \<open>Run the loop body for every index.\<close>

fun up_loop :: "(nat \<Rightarrow> up_state \<Rightarrow> ('a \<times> up_state) option) \<Rightarrow> nat list \<Rightarrow> up_state \<Rightarrow> ('a list \<times> up_state) option" where
  "up_loop body [] st = Some ([], st)"
| "up_loop body (i # is) st =
     do { (x, st1) \<leftarrow> body i st; (xs, st2) \<leftarrow> up_loop body is st1; Some (x # xs, st2) }"

definition up_done :: "up_state \<Rightarrow> 'm \<Rightarrow> 'm option" where
  "up_done st m = (if fst st \<noteq> MPI_SUCCESS then None else Some m)"

text \<open>\<^verbatim>\<open>num_records * sizeof(T)\<close>.\<close>

definition array_size :: "i32 \<Rightarrow> nat \<Rightarrow> nat" where
  "array_size num k = nat (sint num * int k mod 2 ^ 64)"

definition unpack_put_message :: "unpack_op \<Rightarrow> malloc_op \<Rightarrow> byte list \<Rightarrow> i32 \<Rightarrow> mdhim_putm_t option" where
  "unpack_put_message up mal message mesg_size = do {
     (img, st0) \<leftarrow> up_struct up mal message mesg_size 48;
     let pm = putm_of img;
     (key, st1) \<leftarrow> up_alloc up mal 1 message mesg_size (pm_key_len pm) st0;
     (val, st2) \<leftarrow> up_alloc up mal 2 message mesg_size (pm_value_len pm) st1;
     up_done st2 (pm\<lparr>pm_key := key, pm_value := val\<rparr>) }"

definition bput_body ::
  "unpack_op \<Rightarrow> malloc_op \<Rightarrow> byte list \<Rightarrow> i32 \<Rightarrow> byte list \<Rightarrow> byte list \<Rightarrow> nat \<Rightarrow> up_state
     \<Rightarrow> ((i32 \<times> blob \<times> i32 \<times> blob) \<times> up_state) option" where
  "bput_body up mal message mesg_size kls vls i st =
     (let (klen, st1) = up_int up message mesg_size (take 4 (drop (4 * i) kls)) st in do {
      (key, st2) \<leftarrow> up_alloc up mal (5 + 2 * i) message mesg_size klen st1;
      let (vlen, st3) = up_int up message mesg_size (take 4 (drop (4 * i) vls)) st2;
      (val, st4) \<leftarrow> up_alloc up mal (6 + 2 * i) message mesg_size vlen st3;
      Some ((klen, key, vlen, val), st4) })"

definition unpack_bput_message :: "unpack_op \<Rightarrow> malloc_op \<Rightarrow> byte list \<Rightarrow> i32 \<Rightarrow> mdhim_bputm_t option" where
  "unpack_bput_message up mal message mesg_size = do {
     (img, st0) \<leftarrow> up_struct up mal message mesg_size 56;
     let bpm = bputm_of img;
     let num_records = bp_num_records bpm;
     (keys, _) \<leftarrow> mal 1 (array_size num_records 8);
     (values, _) \<leftarrow> mal 2 (array_size num_records 8);
     (key_lens, kls) \<leftarrow> mal 3 (array_size num_records 4);
     (value_lens, vls) \<leftarrow> mal 4 (array_size num_records 4);
     (rs, st1) \<leftarrow> up_loop (bput_body up mal message mesg_size kls vls) [0..<nat (sint num_records)] st0;
     up_done st1 (bpm\<lparr>bp_keys := (keys, map (\<lambda>(kl, k, vl, v). k) rs),
       bp_key_lens := (key_lens, map (\<lambda>(kl, k, vl, v). kl) rs),
       bp_values := (values, map (\<lambda>(kl, k, vl, v). v) rs),
       bp_value_lens := (value_lens, map (\<lambda>(kl, k, vl, v). vl) rs)\<rparr>) }"

definition unpack_get_message :: "unpack_op \<Rightarrow> malloc_op \<Rightarrow> byte list \<Rightarrow> i32 \<Rightarrow> mdhim_getm_t option" where
  "unpack_get_message up mal message mesg_size = do {
     (img, st0) \<leftarrow> up_struct up mal message mesg_size 32;
     let gm = getm_of img;
     (key, st1) \<leftarrow> up_alloc up mal 1 message mesg_size (gm_key_len gm) st0;
     up_done st1 (gm\<lparr>gm_key := key\<rparr>) }"

text \<open>The loop body of the two messages that hold keys only; \<open>kls\<close> is the array of lengths
  before the loop.\<close>

definition keys_body ::
  "unpack_op \<Rightarrow> malloc_op \<Rightarrow> byte list \<Rightarrow> i32 \<Rightarrow> byte list \<Rightarrow> nat \<Rightarrow> up_state \<Rightarrow> ((i32 \<times> blob) \<times> up_state) option" where
  "keys_body up mal message mesg_size kls i st =
     (let (klen, st1) = up_int up message mesg_size (take 4 (drop (4 * i) kls)) st in do {
      (key, st2) \<leftarrow> up_alloc up mal (3 + i) message mesg_size klen st1;
      Some ((klen, key), st2) })"

definition unpack_bget_message :: "unpack_op \<Rightarrow> malloc_op \<Rightarrow> byte list \<Rightarrow> i32 \<Rightarrow> mdhim_bgetm_t option" where
  "unpack_bget_message up mal message mesg_size = do {
     (img, st0) \<leftarrow> up_struct up mal message mesg_size 40;
     let bgm = bgetm_of img;
     let num_records = bg_num_records bgm;
     (keys, _) \<leftarrow> mal 1 (array_size num_records 8);
     (key_lens, _) \<leftarrow> mal 2 (array_size num_records 4);
     let kls = replicate (array_size num_records 4) 0;
     (rs, st1) \<leftarrow> up_loop (keys_body up mal message mesg_size kls) [0..<nat (sint num_records)] st0;
     up_done st1 (bgm\<lparr>bg_keys := (keys, map snd rs), bg_key_lens := (key_lens, map fst rs)\<rparr>) }"

definition unpack_getrm_message :: "unpack_op \<Rightarrow> malloc_op \<Rightarrow> byte list \<Rightarrow> i32 \<Rightarrow> mdhim_getrm_t option" where
  "unpack_getrm_message up mal message mesg_size = do {
     (img, st0) \<leftarrow> up_struct up mal message mesg_size 48;
     let grm = getrm_of img;
     (key, st1) \<leftarrow> up_alloc_nz up mal 1 message mesg_size (gr_key_len grm) st0;
     (val, st2) \<leftarrow> up_alloc_nz up mal 2 message mesg_size (gr_value_len grm) st1;
     up_done st2 (grm\<lparr>gr_key := key, gr_value := val\<rparr>) }"

definition bgetrm_body ::
  "unpack_op \<Rightarrow> malloc_op \<Rightarrow> byte list \<Rightarrow> i32 \<Rightarrow> byte list \<Rightarrow> byte list \<Rightarrow> nat \<Rightarrow> up_state
     \<Rightarrow> ((i32 \<times> blob \<times> i32 \<times> blob) \<times> up_state) option" where
  "bgetrm_body up mal message mesg_size kls vls i st =
     (let (klen, st1) = up_int up message mesg_size (take 4 (drop (4 * i) kls)) st in do {
      (key, st2) \<leftarrow> up_alloc_nz up mal (5 + 2 * i) message mesg_size klen st1;
      let (vlen, st3) = up_int up message mesg_size (take 4 (drop (4 * i) vls)) st2;
      (val, st4) \<leftarrow> up_alloc_nz up mal (6 + 2 * i) message mesg_size vlen st3;
      Some ((klen, key, vlen, val), st4) })"

definition unpack_bgetrm_message :: "unpack_op \<Rightarrow> malloc_op \<Rightarrow> byte list \<Rightarrow> i32 \<Rightarrow> mdhim_bgetrm_t option" where
  "unpack_bgetrm_message up mal message mesg_size = do {
     (img, st0) \<leftarrow> up_struct up mal message mesg_size 64;
     let bgrm = bgetrm_of img;
     let num_records = br_num_records bgrm;
     (keys, _) \<leftarrow> mal 1 (array_size num_records 8);
     (key_lens, kls) \<leftarrow> mal 2 (array_size num_records 4);
     (values, _) \<leftarrow> mal 3 (array_size num_records 8);
     (value_lens, vls) \<leftarrow> mal 4 (array_size num_records 4);
     (rs, st1) \<leftarrow> up_loop (bgetrm_body up mal message mesg_size kls vls) [0..<nat (sint num_records)] st0;
     up_done st1 (bgrm\<lparr>br_keys := (keys, map (\<lambda>(kl, k, vl, v). k) rs),
       br_key_lens := (key_lens, map (\<lambda>(kl, k, vl, v). kl) rs),
       br_values := (values, map (\<lambda>(kl, k, vl, v). v) rs),
       br_value_lens := (value_lens, map (\<lambda>(kl, k, vl, v). vl) rs)\<rparr>) }"

definition unpack_del_message :: "unpack_op \<Rightarrow> malloc_op \<Rightarrow> byte list \<Rightarrow> i32 \<Rightarrow> mdhim_delm_t option" where
  "unpack_del_message up mal message mesg_size = do {
     (img, st0) \<leftarrow> up_struct up mal message mesg_size 32;
     let dm = delm_of img;
     (key, st1) \<leftarrow> up_alloc up mal 1 message mesg_size (dm_key_len dm) st0;
     up_done st1 (dm\<lparr>dm_key := key\<rparr>) }"

definition unpack_bdel_message :: "unpack_op \<Rightarrow> malloc_op \<Rightarrow> byte list \<Rightarrow> i32 \<Rightarrow> mdhim_bdelm_t option" where
  "unpack_bdel_message up mal message mesg_size = do {
     (img, st0) \<leftarrow> up_struct up mal message mesg_size 40;
     let bdm = bdelm_of img;
     let num_records = bd_num_records bdm;
     (keys, _) \<leftarrow> mal 1 (array_size num_records 8);
     (key_lens, kls) \<leftarrow> mal 2 (array_size num_records 4);
     (rs, st1) \<leftarrow> up_loop (keys_body up mal message mesg_size kls) [0..<nat (sint num_records)] st0;
     up_done st1 (bdm\<lparr>bd_keys := (keys, map snd rs), bd_key_lens := (key_lens, map fst rs)\<rparr>) }"

definition unpack_return_message :: "unpack_op \<Rightarrow> malloc_op \<Rightarrow> byte list \<Rightarrow> mdhim_rm_t option" where
  "unpack_return_message up mal message = do {
     (img, st0) \<leftarrow> up_struct up mal message 16 16;
     up_done st0 (rm_of img) }"

section \<open>Well-formed messages\<close>

text \<open>The length field of an object is the length of the object.\<close>

definition blob_ok :: "blob \<Rightarrow> i32 \<Rightarrow> bool" where
  "blob_ok b len \<longleftrightarrow> length (snd b) < 2147483648 \<and> len = of_nat (length (snd b))"

definition blobs_ok :: "blob list \<Rightarrow> i32 list \<Rightarrow> i32 \<Rightarrow> bool" where
  "blobs_ok bs lens num \<longleftrightarrow> list_all2 blob_ok bs lens \<and> length bs < 2147483648 \<and> num = of_nat (length bs)"

definition blobs_size :: "blob list \<Rightarrow> nat" where
  "blobs_size bs = sum_list (map (length \<circ> snd) bs)"

text \<open>malloc has memory for every request below 4 GiB, also for one of zero bytes.\<close>

definition malloc_ok :: "malloc_op \<Rightarrow> bool" where
  "malloc_ok mal \<longleftrightarrow> (\<forall>k n. n < 4294967296 \<longrightarrow> (\<exists>a bs. mal k n = Some (a, bs) \<and> length bs = n))"

definition addr :: "malloc_op \<Rightarrow> nat \<Rightarrow> nat \<Rightarrow> u64" where
  "addr mal k n = fst (the (mal k n))"

lemma malloc_okE:
  assumes "malloc_ok mal" and "n < 4294967296"
  obtains bs where "mal k n = Some (addr mal k n, bs)" and "length bs = n"
proof -
  from assms obtain a bs where "mal k n = Some (a, bs)" "length bs = n"
    unfolding malloc_ok_def by blast
  then show ?thesis using that by (simp add: addr_def)
qed

lemma blob_ok_bytes [simp]: "blob_ok b len \<Longrightarrow> bytes_at b len = snd b"
  by (simp add: blob_ok_def bytes_at_def)

lemma blobs_okD:
  "blobs_ok bs lens num \<Longrightarrow> num = of_nat (length bs)"
  "blobs_ok bs lens num \<Longrightarrow> length lens = length bs"
  "blobs_ok bs lens num \<Longrightarrow> length bs < 2147483648"
  "blobs_ok bs lens num \<Longrightarrow> i < length bs \<Longrightarrow> blob_ok (bs ! i) (lens ! i)"
  by (auto simp: blobs_ok_def list_all2_lengthD list_all2_nthD)

lemma blobs_ok_nat: "blobs_ok bs lens num \<Longrightarrow> nat (sint num) = length bs"
  by (simp add: blobs_ok_def)

lemma blobs_size_nth: "blobs_size bs = sum_list (map (\<lambda>i. length (snd (bs ! i))) [0..<length bs])"
proof -
  have "map (\<lambda>i. length (snd (bs ! i))) [0..<length bs] = map (length \<circ> snd) bs"
    by (rule nth_equalityI) simp_all
  then show ?thesis by (simp add: blobs_size_def)
qed

lemma elem_sizes [simp]: "elem_size MPI_CHAR = 1" "elem_size MPI_INT = 4"
  by (simp_all add: elem_size_def GetNumBytes_def mpi_types)

section \<open>Structure images\<close>

named_theorems image_simps

lemma field_0 [image_simps]:
  "w32 (enc32 x @ r) 0 = x" "w64 (enc64 y @ r) 0 = y" "w32 (enc32 x) 0 = x" "w64 (enc64 y) 0 = y"
  by (simp_all add: w32_def w64_def)

lemma field_skip32 [image_simps]:
  "4 \<le> a \<Longrightarrow> w32 (enc32 x @ r) a = w32 r (a - 4)"
  "4 \<le> a \<Longrightarrow> w64 (enc32 x @ r) a = w64 r (a - 4)"
  by (simp_all add: w32_def w64_def)

lemma field_skip64 [image_simps]:
  "8 \<le> a \<Longrightarrow> w32 (enc64 x @ r) a = w32 r (a - 8)"
  "8 \<le> a \<Longrightarrow> w64 (enc64 x @ r) a = w64 r (a - 8)"
  by (simp_all add: w32_def w64_def)

lemma length_images [simp]:
  "length (basem_image b) = 12" "length (putm_image p) = 48" "length (bputm_image bp) = 56"
  "length (getm_image g) = 32" "length (bgetm_image bg) = 40" "length (delm_image d) = 32"
  "length (bdelm_image bd) = 40" "length (rm_image r) = 16" "length (getrm_image gr) = 48"
  "length (bgetrm_image br) = 64"
  by (simp_all add: basem_image_def putm_image_def bputm_image_def getm_image_def bgetm_image_def
      delm_image_def bdelm_image_def rm_image_def getrm_image_def bgetrm_image_def)

lemma putm_of_image [simp]:
  "putm_of (putm_image m) = m\<lparr>pm_key := (fst (pm_key m), []), pm_value := (fst (pm_value m), [])\<rparr>"
  by (simp add: putm_of_def putm_image_def image_simps)

lemma bputm_of_image [simp]:
  "bputm_of (bputm_image m) = m\<lparr>bp_keys := (fst (bp_keys m), []), bp_key_lens := (fst (bp_key_lens m), []),
     bp_values := (fst (bp_values m), []), bp_value_lens := (fst (bp_value_lens m), [])\<rparr>"
  by (simp add: bputm_of_def bputm_image_def image_simps)

lemma getm_of_image [simp]: "getm_of (getm_image m) = m\<lparr>gm_key := (fst (gm_key m), [])\<rparr>"
  by (simp add: getm_of_def getm_image_def image_simps)

lemma bgetm_of_image [simp]:
  "bgetm_of (bgetm_image m) = m\<lparr>bg_keys := (fst (bg_keys m), []), bg_key_lens := (fst (bg_key_lens m), [])\<rparr>"
  by (simp add: bgetm_of_def bgetm_image_def image_simps)

lemma delm_of_image [simp]: "delm_of (delm_image m) = m\<lparr>dm_key := (fst (dm_key m), [])\<rparr>"
  by (simp add: delm_of_def delm_image_def image_simps)

lemma bdelm_of_image [simp]:
  "bdelm_of (bdelm_image m) = m\<lparr>bd_keys := (fst (bd_keys m), []), bd_key_lens := (fst (bd_key_lens m), [])\<rparr>"
  by (simp add: bdelm_of_def bdelm_image_def image_simps)

lemma rm_of_image [simp]: "rm_of (rm_image m) = m"
  by (simp add: rm_of_def rm_image_def image_simps)

lemma getrm_of_image [simp]:
  "getrm_of (getrm_image m) = m\<lparr>gr_key := (fst (gr_key m), []), gr_value := (fst (gr_value m), [])\<rparr>"
  by (simp add: getrm_of_def getrm_image_def image_simps)

lemma bgetrm_of_image [simp]:
  "bgetrm_of (bgetrm_image m) = m\<lparr>br_keys := (fst (br_keys m), []), br_key_lens := (fst (br_key_lens m), []),
     br_values := (fst (br_values m), []), br_value_lens := (fst (br_value_lens m), [])\<rparr>"
  by (simp add: bgetrm_of_def bgetrm_image_def image_simps)

section \<open>Sizes\<close>

lemma scast_of_nat [simp]: "n < 2147483648 \<Longrightarrow> (scast (of_nat n :: i32) :: 64 word) = of_nat n"
proof -
  assume "n < 2147483648"
  have "(scast (of_nat n :: i32) :: 64 word) = word_of_int (sint (of_nat n :: i32))"
    by (rule scast_eq)
  with \<open>n < 2147483648\<close> show ?thesis by simp
qed

lemma scast_add_of_nat [simp]:
  "m + n < 2147483648 \<Longrightarrow> (scast (of_nat m + of_nat n :: i32) :: 64 word) = of_nat (m + n)"
  using scast_of_nat [of "m + n"] by (simp del: scast_of_nat)

lemma ucast_of_nat_64 [simp]: "(ucast (of_nat n :: 64 word) :: i32) = of_nat n"
proof -
  have "take_bit 32 (take_bit 64 n) = take_bit 32 n" by simp
  then show ?thesis
    by (simp add: unsigned_of_nat word_of_nat_eq_iff)
qed

lemma too_large_of_nat [simp]:
  "n < 9223372036854775808 \<Longrightarrow> MDHIM_MAX_MSG_SIZE <s of_nat n \<longleftrightarrow> 2147483647 < n"
  by (simp add: MDHIM_MAX_MSG_SIZE_def word_sless_alt signed_of_nat signed_take_bit_int_eq_self)

text \<open>The loops that add up the lengths.\<close>

lemma fold_sizes:
  assumes "\<And>i. i \<in> set is \<Longrightarrow> f i = of_nat (g i)"
  shows "fold (\<lambda>i s. s + f i) is (of_nat c :: 64 word) = of_nat (c + sum_list (map g is))"
  using assms by (induction "is" arbitrary: c) (simp_all flip: of_nat_add add: add.assoc)

section \<open>Runs of the two operations\<close>

definition item_ok :: "item \<Rightarrow> bool" where
  "item_ok = (\<lambda>(c, dt, d). length d < 2147483648 \<and> (\<exists>n. c = of_nat n \<and> length d = n * elem_size dt))"

abbreviation item_data :: "item \<Rightarrow> byte list" where
  "item_data it \<equiv> snd (snd it)"

lemma item_ok_int [simp]: "item_ok (int_item w)"
  by (simp add: item_ok_def exI [of _ "1 :: nat"])

lemma item_ok_char [simp]: "blob_ok b len \<Longrightarrow> item_ok (len, MPI_CHAR, snd b)"
  unfolding item_ok_def by (auto simp: blob_ok_def)

lemma item_ok_image [simp]:
  "length img = numeral w \<Longrightarrow> numeral w < (2147483648 :: nat) \<Longrightarrow> item_ok (numeral w, MPI_CHAR, img)"
  unfolding item_ok_def by (auto intro!: exI [of _ "numeral w :: nat"])

lemma splice_splice:
  "p + length xs + length ys \<le> length buf \<Longrightarrow>
   splice (splice buf p xs) (p + length xs) ys = splice buf p (xs @ ys)"
  by (simp add: splice_def ac_simps)

lemma splice_all: "length xs = length buf \<Longrightarrow> splice buf 0 xs = xs"
  by (simp add: splice_def)

context packer
begin

lemma pack_items_run:
  assumes "\<forall>it \<in> set items. item_ok it"
    and "p + length (concat (map item_data items)) \<le> length buf" and "length buf < 2147483648"
  shows "fold (pack_item pk) items (rc, buf, of_nat p) =
    (rc, splice buf p (concat (map item_data items)),
     of_nat (p + length (concat (map item_data items))))"
  using assms
proof (induction items arbitrary: p buf)
  case Nil
  then show ?case by (simp add: splice_def)
next
  case (Cons it items)
  obtain c dt d where it: "it = (c, dt, d)" by (cases it)
  let ?r = "concat (map item_data items)"
  obtain n where n: "c = of_nat n" "length d = n * elem_size dt"
    using Cons.prems(1) by (auto simp: it item_ok_def)
  have fit: "p + length d + length ?r \<le> length buf" using Cons.prems(2) by (simp add: it)
  have "pk c dt d buf (of_nat p) = (MPI_SUCCESS, splice buf p d, of_nat (p + length d))"
    unfolding n(1) using fit Cons.prems(3) by (intro pk_fits n(2)) simp_all
  then have "fold (pack_item pk) (it # items) (rc, buf, of_nat p) =
      fold (pack_item pk) items (rc, splice buf p d, of_nat (p + length d))"
    by (simp add: it pack_item_def MPI_SUCCESS_def)
  also have "\<dots> = (rc, splice (splice buf p d) (p + length d) ?r, of_nat (p + length d + length ?r))"
    using Cons.prems(1,3) fit by (intro Cons.IH) simp_all
  also have "\<dots> = (rc, splice buf p (concat (map item_data (it # items))),
      of_nat (p + length (concat (map item_data (it # items)))))"
    using fit by (simp add: it splice_splice add.assoc)
  finally show ?case .
qed

lemma pack_out_run:
  assumes "malloc_ok mal" and "\<forall>it \<in> set items. item_ok it"
    and "length (concat (map item_data items)) = sz" and "sz < 2147483648"
  shows "pack_out pk mal (of_nat sz) items = (MDHIM_SUCCESS, Some (concat (map item_data items)))"
proof -
  obtain buf where buf: "mal 0 sz = Some (addr mal 0 sz, buf)" "length buf = sz"
    using malloc_okE [OF assms(1), of sz 0] assms(4) by auto
  have "fold (pack_item pk) items (MPI_SUCCESS, buf, of_nat 0) =
      (MPI_SUCCESS, splice buf 0 (concat (map item_data items)), of_nat (0 + sz))"
    unfolding assms(3) [symmetric] using assms buf by (intro pack_items_run) simp_all
  moreover have "splice buf 0 (concat (map item_data items)) = concat (map item_data items)"
    using assms(3) buf(2) by (intro splice_all) simp
  ultimately show ?thesis using buf assms(4) by (simp add: pack_out_def)
qed

lemma up_struct_run:
  assumes "malloc_ok mal" and "n = length img" and "length (img @ rest) < 2147483648"
  shows "up_struct up mal (img @ rest) (of_nat (length (img @ rest))) n =
    Some (img, MPI_SUCCESS, of_nat (length img))"
proof -
  obtain old where old: "mal 0 n = Some (addr mal 0 n, old)" "length old = n"
    using malloc_okE [OF assms(1), of n 0] assms(2,3) by auto
  have "up (img @ rest) (of_nat (length (img @ rest))) (of_nat 0) (of_nat n) MPI_CHAR old =
      (MPI_SUCCESS, take (n * elem_size MPI_CHAR) (drop 0 (img @ rest)), of_nat (0 + n * elem_size MPI_CHAR))"
    using assms old by (intro up_fits) simp_all
  then show ?thesis using old assms(2) by (simp add: up_struct_def)
qed

lemma up_alloc_run:
  assumes "malloc_ok mal" and "length (pre @ d @ rest) < 2147483648" and "k = length d"
  shows "up_alloc up mal j (pre @ d @ rest) (of_nat (length (pre @ d @ rest))) (of_nat k)
      (rc, of_nat (length pre)) = Some ((addr mal j k, d), rc, of_nat (length (pre @ d)))"
proof -
  obtain old where old: "mal j k = Some (addr mal j k, old)" "length old = k"
    using malloc_okE [OF assms(1), of k j] assms(2,3) by auto
  have "up (pre @ d @ rest) (of_nat (length (pre @ d @ rest))) (of_nat (length pre)) (of_nat k) MPI_CHAR old =
      (MPI_SUCCESS, take (k * elem_size MPI_CHAR) (drop (length pre) (pre @ d @ rest)),
       of_nat (length pre + k * elem_size MPI_CHAR))"
    using assms(2,3) old by (intro up_fits) simp_all
  then show ?thesis using old assms(2,3) by (simp add: up_alloc_def MPI_SUCCESS_def)
qed

lemma up_alloc_nz_run:
  assumes "malloc_ok mal" and "length (pre @ d @ rest) < 2147483648" and "k = length d"
  shows "up_alloc_nz up mal j (pre @ d @ rest) (of_nat (length (pre @ d @ rest))) (of_nat k)
      (rc, of_nat (length pre)) =
    Some ((if d = [] then 0 else addr mal j k, d), rc, of_nat (length (pre @ d)))"
proof (cases "d = []")
  case True
  then show ?thesis using assms(3) by (simp add: up_alloc_nz_def)
next
  case False
  then have "(of_nat k :: i32) \<noteq> 0"
    using assms(2,3) by (simp add: word_of_nat_eq_0_iff nat_dvd_not_less)
  with False up_alloc_run [OF assms] show ?thesis by (simp add: up_alloc_nz_def)
qed

lemma up_int_run:
  assumes "length (pre @ enc32 w @ rest) < 2147483648" and "length old = 4"
  shows "up_int up (pre @ enc32 w @ rest) (of_nat (length (pre @ enc32 w @ rest))) old
      (rc, of_nat (length pre)) = (w, rc, of_nat (length (pre @ enc32 w)))"
proof -
  have "up (pre @ enc32 w @ rest) (of_nat (length (pre @ enc32 w @ rest))) (of_nat (length pre))
        (of_nat 1) MPI_INT old =
      (MPI_SUCCESS, take (1 * elem_size MPI_INT) (drop (length pre) (pre @ enc32 w @ rest)),
       of_nat (length pre + 1 * elem_size MPI_INT))"
    using assms by (intro up_fits) simp_all
  then show ?thesis by (simp add: up_int_def MPI_SUCCESS_def)
qed

end

text \<open>A loop whose body reads the bytes \<open>f i\<close> and yields \<open>g i\<close>.\<close>

lemma up_loop_run:
  assumes "\<And>i pre post. i \<in> set is \<Longrightarrow> msg = pre @ f i @ post \<Longrightarrow>
      body i (rc, of_nat (length pre)) = Some (g i, rc, of_nat (length (pre @ f i)))"
    and "msg = pre @ concat (map f is) @ post"
  shows "up_loop body is (rc, of_nat (length pre)) =
    Some (map g is, rc, of_nat (length (pre @ concat (map f is))))"
  using assms
proof (induction "is" arbitrary: pre)
  case Nil
  then show ?case by simp
next
  case (Cons i "is")
  have "body i (rc, of_nat (length pre)) = Some (g i, rc, of_nat (length (pre @ f i)))"
    using Cons.prems(2) by (intro Cons.prems(1) [of i pre "concat (map f is) @ post"]) simp_all
  moreover have "up_loop body is (rc, of_nat (length (pre @ f i))) =
      Some (map g is, rc, of_nat (length ((pre @ f i) @ concat (map f is))))"
  proof (rule Cons.IH)
    show "body j (rc, of_nat (length pre)) = Some (g j, rc, of_nat (length (pre @ f j)))"
      if "j \<in> set is" "msg = pre @ f j @ post" for j pre post
      using that by (intro Cons.prems(1)) simp_all
    show "msg = (pre @ f i) @ concat (map f is) @ post" using Cons.prems(2) by simp
  qed
  ultimately show ?case by simp
qed

lemma up_done_success [simp]: "up_done (MPI_SUCCESS, pos) m = Some m"
  by (simp add: up_done_def)

lemma concat_items: "concat (map item_data (concat (map f is))) =
    concat (map (\<lambda>i. concat (map item_data (f i))) is)"
  by (induction "is") simp_all

text \<open>The bytes of one record, and of the records of a bulk message.\<close>

definition pair_bytes :: "blob list \<Rightarrow> i32 list \<Rightarrow> blob list \<Rightarrow> i32 list \<Rightarrow> nat \<Rightarrow> byte list" where
  "pair_bytes ks kl vs vl i = enc32 (kl ! i) @ snd (ks ! i) @ enc32 (vl ! i) @ snd (vs ! i)"

definition key_bytes :: "blob list \<Rightarrow> i32 list \<Rightarrow> nat \<Rightarrow> byte list" where
  "key_bytes ks kl i = enc32 (kl ! i) @ snd (ks ! i)"

definition pairs_bytes :: "blob list \<Rightarrow> i32 list \<Rightarrow> blob list \<Rightarrow> i32 list \<Rightarrow> byte list" where
  "pairs_bytes ks kl vs vl = concat (map (pair_bytes ks kl vs vl) [0..<length ks])"

definition keys_bytes :: "blob list \<Rightarrow> i32 list \<Rightarrow> byte list" where
  "keys_bytes ks kl = concat (map (key_bytes ks kl) [0..<length ks])"

lemma length_pairs_bytes:
  assumes "length vs = length ks"
  shows "length (pairs_bytes ks kl vs vl) = 8 * length ks + blobs_size ks + blobs_size vs"
proof -
  have "sum_list (map (\<lambda>i. length (pair_bytes ks kl vs vl i)) is) =
      8 * length is + sum_list (map (\<lambda>i. length (snd (ks ! i))) is) +
      sum_list (map (\<lambda>i. length (snd (vs ! i))) is)" for "is"
    by (induction "is") (simp_all add: pair_bytes_def)
  then show ?thesis
    using assms by (simp add: pairs_bytes_def length_concat comp_def blobs_size_nth)
qed

lemma length_keys_bytes: "length (keys_bytes ks kl) = 4 * length ks + blobs_size ks"
proof -
  have "sum_list (map (\<lambda>i. length (key_bytes ks kl i)) is) =
      4 * length is + sum_list (map (\<lambda>i. length (snd (ks ! i))) is)" for "is"
    by (induction "is") (simp_all add: key_bytes_def)
  then show ?thesis by (simp add: keys_bytes_def length_concat comp_def blobs_size_nth)
qed

lemma blob_le_blobs_size: "i < length bs \<Longrightarrow> length (snd (bs ! i)) \<le> blobs_size bs"
  by (auto simp: blobs_size_def intro: member_le_sum_list)

text \<open>The sizes the bulk messages compute.\<close>

lemma pairs_m_size:
  assumes "blobs_ok ks kl n" and "blobs_ok vs vl n" and "blobs_size ks + blobs_size vs < 2147483648"
    and "length ks < 1073741824"
  shows "fold (\<lambda>i s. s + scast (kl ! i + vl ! i)) [0..<length ks] (of_nat c + scast (2 * n) * 4 :: 64 word) =
    of_nat (c + 8 * length ks + blobs_size ks + blobs_size vs)"
proof -
  have len: "length vs = length ks"
    using blobs_ok_nat [OF assms(1)] blobs_ok_nat [OF assms(2)] by simp
  have two: "2 * n = of_nat (2 * length ks)" using blobs_okD(1) [OF assms(1)] by simp
  have start: "of_nat c + scast (2 * n) * 4 = (of_nat (c + 8 * length ks) :: 64 word)"
    unfolding two using assms(4) by (subst scast_of_nat) simp_all
  have "fold (\<lambda>i s. s + scast (kl ! i + vl ! i)) [0..<length ks] (of_nat (c + 8 * length ks) :: 64 word) =
      of_nat (c + 8 * length ks + sum_list (map (\<lambda>i. length (snd (ks ! i)) + length (snd (vs ! i))) [0..<length ks]))"
  proof (rule fold_sizes)
    fix i assume "i \<in> set [0..<length ks]"
    then have i: "i < length ks" by simp
    have "kl ! i = of_nat (length (snd (ks ! i)))" "vl ! i = of_nat (length (snd (vs ! i)))"
      using blobs_okD(4) [OF assms(1)] blobs_okD(4) [OF assms(2)] i len by (simp_all add: blob_ok_def)
    then show "(scast (kl ! i + vl ! i) :: 64 word) = of_nat (length (snd (ks ! i)) + length (snd (vs ! i)))"
    proof -
      have "length (snd (ks ! i)) + length (snd (vs ! i)) < 2147483648"
        using blob_le_blobs_size [of i ks] blob_le_blobs_size [of i vs] assms(3) i len by linarith
      with \<open>kl ! i = _\<close> \<open>vl ! i = _\<close> show ?thesis by (simp only: scast_add_of_nat)
    qed
  qed
  then show ?thesis
    unfolding start by (simp add: blobs_size_nth len sum_list_addf add.assoc)
qed

lemma keys_m_size:
  assumes "blobs_ok ks kl n"
  shows "fold (\<lambda>i s. s + scast (kl ! i)) [0..<length ks] (of_nat c :: 64 word) = of_nat (c + blobs_size ks)"
proof -
  have "fold (\<lambda>i s. s + scast (kl ! i)) [0..<length ks] (of_nat c :: 64 word) =
      of_nat (c + sum_list (map (\<lambda>i. length (snd (ks ! i))) [0..<length ks]))"
    using blobs_okD(4) [OF assms] by (intro fold_sizes) (simp add: blob_ok_def)
  then show ?thesis by (simp add: blobs_size_nth)
qed

lemma array_size_of_nat: "n < 2147483648 \<Longrightarrow> k \<le> 8 \<Longrightarrow> array_size (of_nat n) k = n * k"
proof -
  assume "n < 2147483648" and "k \<le> 8"
  then have "n * k \<le> 2147483648 * 8" by (intro mult_le_mono) simp_all
  then have "int n * int k mod 2 ^ 64 = int (n * k)" by (simp flip: of_nat_mult)
  with \<open>n < 2147483648\<close> show ?thesis
    by (simp add: array_size_def nat_mult_distrib)
qed

section \<open>Round trips\<close>

text \<open>The sizes of the messages, and the well-formed ones that are not too large.\<close>

definition putm_ok :: "mdhim_putm_t \<Rightarrow> nat \<Rightarrow> bool" where
  "putm_ok m sz \<longleftrightarrow> blob_ok (pm_key m) (pm_key_len m) \<and> blob_ok (pm_value m) (pm_value_len m) \<and>
     sz = 48 + length (snd (pm_key m)) + length (snd (pm_value m)) \<and> sz \<le> 2147483647"

definition getm_ok :: "mdhim_getm_t \<Rightarrow> nat \<Rightarrow> bool" where
  "getm_ok m sz \<longleftrightarrow> blob_ok (gm_key m) (gm_key_len m) \<and>
     sz = 32 + length (snd (gm_key m)) \<and> sz \<le> 2147483647"

definition delm_ok :: "mdhim_delm_t \<Rightarrow> nat \<Rightarrow> bool" where
  "delm_ok m sz \<longleftrightarrow> blob_ok (dm_key m) (dm_key_len m) \<and>
     sz = 32 + length (snd (dm_key m)) \<and> sz \<le> 2147483647"

definition getrm_ok :: "mdhim_getrm_t \<Rightarrow> nat \<Rightarrow> bool" where
  "getrm_ok m sz \<longleftrightarrow> blob_ok (gr_key m) (gr_key_len m) \<and> blob_ok (gr_value m) (gr_value_len m) \<and>
     sz = 48 + length (snd (gr_key m)) + length (snd (gr_value m)) \<and> sz \<le> 2147483647"

definition bputm_ok :: "mdhim_bputm_t \<Rightarrow> nat \<Rightarrow> bool" where
  "bputm_ok m sz \<longleftrightarrow>
     blobs_ok (snd (bp_keys m)) (snd (bp_key_lens m)) (bp_num_records m) \<and>
     blobs_ok (snd (bp_values m)) (snd (bp_value_lens m)) (bp_num_records m) \<and>
     sz = 56 + 8 * length (snd (bp_keys m)) + blobs_size (snd (bp_keys m)) + blobs_size (snd (bp_values m)) \<and>
     sz \<le> 2147483647"

definition bgetrm_ok :: "mdhim_bgetrm_t \<Rightarrow> nat \<Rightarrow> bool" where
  "bgetrm_ok m sz \<longleftrightarrow>
     blobs_ok (snd (br_keys m)) (snd (br_key_lens m)) (br_num_records m) \<and>
     blobs_ok (snd (br_values m)) (snd (br_value_lens m)) (br_num_records m) \<and>
     sz = 64 + 8 * length (snd (br_keys m)) + blobs_size (snd (br_keys m)) + blobs_size (snd (br_values m)) \<and>
     sz \<le> 2147483647"

text \<open>The size the code computes for a bulk get has room for two lengths per record; one is sent.\<close>

definition bgetm_ok :: "mdhim_bgetm_t \<Rightarrow> nat \<Rightarrow> bool" where
  "bgetm_ok m sz \<longleftrightarrow> blobs_ok (snd (bg_keys m)) (snd (bg_key_lens m)) (bg_num_records m) \<and>
     sz = 40 + 8 * length (snd (bg_keys m)) + blobs_size (snd (bg_keys m)) \<and> sz \<le> 2147483647"

definition bdelm_ok :: "mdhim_bdelm_t \<Rightarrow> nat \<Rightarrow> bool" where
  "bdelm_ok m sz \<longleftrightarrow> blobs_ok (snd (bd_keys m)) (snd (bd_key_lens m)) (bd_num_records m) \<and>
     sz = 40 + 4 * length (snd (bd_keys m)) + blobs_size (snd (bd_keys m)) \<and> sz \<le> 2147483647"

text \<open>The size computations of the two put messages.\<close>

lemma putm_m_size:
  assumes "putm_ok pm sz"
  shows "48 + scast (pm_key_len pm + pm_value_len pm) = (of_nat sz :: 64 word)"
proof -
  let ?k = "length (snd (pm_key pm))" and ?v = "length (snd (pm_value pm))"
  have lens: "pm_key_len pm = of_nat ?k" "pm_value_len pm = of_nat ?v" and sz: "sz = 48 + (?k + ?v)" "sz < 2147483648"
    using assms by (simp_all add: putm_ok_def blob_ok_def)
  show ?thesis unfolding lens using sz by (subst scast_add_of_nat) simp_all
qed

lemma bputm_m_size:
  assumes "bputm_ok bp sz"
  shows "fold (\<lambda>i s. s + scast (snd (bp_key_lens bp) ! i + snd (bp_value_lens bp) ! i)) [0..<length (snd (bp_keys bp))]
      (56 + scast (2 * bp_num_records bp) * 4 :: 64 word) = of_nat sz"
  using pairs_m_size [of "snd (bp_keys bp)" "snd (bp_key_lens bp)" "bp_num_records bp" "snd (bp_values bp)"
      "snd (bp_value_lens bp)" 56] assms
  by (simp add: bputm_ok_def)

context packer
begin

lemma put_packs:
  assumes "putm_ok pm sz" and "malloc_ok mal"
  shows "pack_put_message pk mal pm ss =
    (MDHIM_SUCCESS, Some (putm_image (pm\<lparr>pm_size := of_nat sz\<rparr>) @ snd (pm_key pm) @ snd (pm_value pm)),
     of_nat sz, pm\<lparr>pm_size := of_nat sz\<rparr>)"
proof -
  let ?pm = "pm\<lparr>pm_size := of_nat sz\<rparr>" and ?k = "length (snd (pm_key pm))" and ?v = "length (snd (pm_value pm))"
  have ok: "blob_ok (pm_key pm) (pm_key_len pm)" "blob_ok (pm_value pm) (pm_value_len pm)"
    and sz: "sz = 48 + (?k + ?v)" "sz < 2147483648"
    using assms(1) by (simp_all add: putm_ok_def)
  note m = putm_m_size [OF assms(1)]
  have "pack_out pk mal (of_nat sz) [(48, MPI_CHAR, putm_image ?pm), char_item (pm_key_len pm) (pm_key pm),
      char_item (pm_value_len pm) (pm_value pm)] =
      (MDHIM_SUCCESS, Some (putm_image ?pm @ snd (pm_key pm) @ snd (pm_value pm)))"
    using sz ok by (subst pack_out_run [OF assms(2)]) simp_all
  with m sz(2) show ?thesis by (simp add: pack_put_message_def Let_def)
qed

lemma put_unpacks:
  assumes "putm_ok pm sz" and "malloc_ok mal"
  shows "unpack_put_message up mal (putm_image pm @ snd (pm_key pm) @ snd (pm_value pm)) (of_nat sz) =
    Some (pm\<lparr>pm_key := (addr mal 1 (length (snd (pm_key pm))), snd (pm_key pm)),
             pm_value := (addr mal 2 (length (snd (pm_value pm))), snd (pm_value pm))\<rparr>)"
proof -
  let ?i = "putm_image pm" and ?k = "snd (pm_key pm)" and ?v = "snd (pm_value pm)"
  have lens: "pm_key_len pm = of_nat (length ?k)" "pm_value_len pm = of_nat (length ?v)"
    and sz: "sz = length (?i @ ?k @ ?v)" "sz < 2147483648"
    using assms(1) by (simp_all add: putm_ok_def blob_ok_def)
  note len = sz(2) [unfolded sz(1)]
  show ?thesis
    unfolding sz(1) unpack_put_message_def lens
    using up_struct_run [OF assms(2) refl len]
      up_alloc_run [OF assms(2) len refl, of 1 MPI_SUCCESS]
      up_alloc_run [OF assms(2), of "?i @ ?k" ?v "[]" _ 2 MPI_SUCCESS, unfolded append_assoc append_Nil2] len
    by (simp add: lens)
qed

lemma get_packs:
  assumes "getm_ok gm sz" and "malloc_ok mal"
  shows "pack_get_message pk mal gm ss =
    (MDHIM_SUCCESS, Some (getm_image (gm\<lparr>gm_size := of_nat sz\<rparr>) @ snd (gm_key gm)),
     of_nat sz, gm\<lparr>gm_size := of_nat sz\<rparr>)"
proof -
  let ?gm = "gm\<lparr>gm_size := of_nat sz\<rparr>" and ?k = "length (snd (gm_key gm))"
  have ok: "blob_ok (gm_key gm) (gm_key_len gm)" and sz: "sz = 32 + ?k" "sz < 2147483648"
    and len: "gm_key_len gm = of_nat ?k"
    using assms(1) by (simp_all add: getm_ok_def blob_ok_def)
  have m: "32 + scast (gm_key_len gm) = (of_nat sz :: 64 word)"
    unfolding len using sz by simp
  have "pack_out pk mal (of_nat sz) [(32, MPI_CHAR, getm_image ?gm), char_item (gm_key_len gm) (gm_key gm)] =
      (MDHIM_SUCCESS, Some (getm_image ?gm @ snd (gm_key gm)))"
    using sz ok by (subst pack_out_run [OF assms(2)]) simp_all
  with m sz(2) show ?thesis by (simp add: pack_get_message_def Let_def)
qed

lemma get_unpacks:
  assumes "getm_ok gm sz" and "malloc_ok mal"
  shows "unpack_get_message up mal (getm_image gm @ snd (gm_key gm)) (of_nat sz) =
    Some (gm\<lparr>gm_key := (addr mal 1 (length (snd (gm_key gm))), snd (gm_key gm))\<rparr>)"
proof -
  let ?i = "getm_image gm" and ?k = "snd (gm_key gm)"
  have lens: "gm_key_len gm = of_nat (length ?k)"
    and sz: "sz = length (?i @ ?k)" "sz < 2147483648"
    using assms(1) by (simp_all add: getm_ok_def blob_ok_def)
  note len = sz(2) [unfolded sz(1)]
  show ?thesis
    unfolding sz(1) unpack_get_message_def lens
    using up_struct_run [OF assms(2) refl len]
      up_alloc_run [OF assms(2), of ?i ?k "[]" _ 1 MPI_SUCCESS, unfolded append_Nil2] len
    by (simp add: lens)
qed

lemma del_packs:
  assumes "delm_ok dm sz" and "malloc_ok mal"
  shows "pack_del_message pk mal dm ss =
    (MDHIM_SUCCESS, Some (delm_image (dm\<lparr>dm_size := of_nat sz\<rparr>) @ snd (dm_key dm)),
     of_nat sz, dm\<lparr>dm_size := of_nat sz\<rparr>)"
proof -
  let ?dm = "dm\<lparr>dm_size := of_nat sz\<rparr>" and ?k = "length (snd (dm_key dm))"
  have ok: "blob_ok (dm_key dm) (dm_key_len dm)" and sz: "sz = 32 + ?k" "sz < 2147483648"
    and len: "dm_key_len dm = of_nat ?k"
    using assms(1) by (simp_all add: delm_ok_def blob_ok_def)
  have m: "32 + scast (dm_key_len dm) = (of_nat sz :: 64 word)"
    unfolding len using sz by simp
  have "pack_out pk mal (of_nat sz) [(32, MPI_CHAR, delm_image ?dm), char_item (dm_key_len dm) (dm_key dm)] =
      (MDHIM_SUCCESS, Some (delm_image ?dm @ snd (dm_key dm)))"
    using sz ok by (subst pack_out_run [OF assms(2)]) simp_all
  with m sz(2) show ?thesis by (simp add: pack_del_message_def Let_def)
qed

lemma del_unpacks:
  assumes "delm_ok dm sz" and "malloc_ok mal"
  shows "unpack_del_message up mal (delm_image dm @ snd (dm_key dm)) (of_nat sz) =
    Some (dm\<lparr>dm_key := (addr mal 1 (length (snd (dm_key dm))), snd (dm_key dm))\<rparr>)"
proof -
  let ?i = "delm_image dm" and ?k = "snd (dm_key dm)"
  have lens: "dm_key_len dm = of_nat (length ?k)"
    and sz: "sz = length (?i @ ?k)" "sz < 2147483648"
    using assms(1) by (simp_all add: delm_ok_def blob_ok_def)
  note len = sz(2) [unfolded sz(1)]
  show ?thesis
    unfolding sz(1) unpack_del_message_def lens
    using up_struct_run [OF assms(2) refl len]
      up_alloc_run [OF assms(2), of ?i ?k "[]" _ 1 MPI_SUCCESS, unfolded append_Nil2] len
    by (simp add: lens)
qed

lemma return_packs:
  assumes "malloc_ok mal"
  shows "pack_return_message pk mal rm ss =
    (MDHIM_SUCCESS, Some (rm_image (rm\<lparr>rm_size := 16\<rparr>)), 16, rm\<lparr>rm_size := 16\<rparr>)"
  using pack_out_run [OF assms, of "[(16, MPI_CHAR, rm_image (rm\<lparr>rm_size := 16\<rparr>))]" 16]
  by (simp add: pack_return_message_def Let_def)

lemma return_unpacks:
  assumes "malloc_ok mal"
  shows "unpack_return_message up mal (rm_image rm) = Some rm"
  using up_struct_run [OF assms, of 16 "rm_image rm" "[]"] by (simp add: unpack_return_message_def)

lemma base_packs:
  assumes "malloc_ok mal"
  shows "pack_base_message pk mal cm ss =
    (MDHIM_SUCCESS, Some (basem_image (cm\<lparr>bs_size := 12\<rparr>)), 12, cm\<lparr>bs_size := 12\<rparr>)"
  using pack_out_run [OF assms, of "[(12, MPI_CHAR, basem_image (cm\<lparr>bs_size := 12\<rparr>))]" 12]
  by (simp add: pack_base_message_def Let_def)

lemma getrm_packs:
  assumes "getrm_ok gr sz" and "malloc_ok mal"
  shows "pack_getrm_message pk mal gr ss =
    (MDHIM_SUCCESS, Some (getrm_image (gr\<lparr>gr_size := of_nat sz\<rparr>) @ snd (gr_key gr) @ snd (gr_value gr)),
     of_nat sz, gr\<lparr>gr_size := of_nat sz\<rparr>)"
proof -
  let ?gr = "gr\<lparr>gr_size := of_nat sz\<rparr>" and ?k = "length (snd (gr_key gr))" and ?v = "length (snd (gr_value gr))"
  have ok: "blob_ok (gr_key gr) (gr_key_len gr)" "blob_ok (gr_value gr) (gr_value_len gr)"
    and sz: "sz = 48 + (?k + ?v)" "sz < 2147483648"
    using assms(1) by (simp_all add: getrm_ok_def)
  have lens: "gr_key_len gr = of_nat ?k" "gr_value_len gr = of_nat ?v"
    using ok by (simp_all add: blob_ok_def)
  have m: "48 + scast (gr_key_len gr + gr_value_len gr) = (of_nat sz :: 64 word)"
    unfolding lens using sz by (subst scast_add_of_nat) simp_all
  have skip: "snd b = []" if "blob_ok b 0" for b
    using that by (auto simp: blob_ok_def word_of_nat_eq_0_iff dest: nat_dvd_not_less [rotated])
  have "pack_out pk mal (of_nat sz) ([(48, MPI_CHAR, getrm_image ?gr)] @
      (if gr_key_len gr \<noteq> 0 then [char_item (gr_key_len gr) (gr_key gr)] else []) @
      (if gr_value_len gr \<noteq> 0 then [char_item (gr_value_len gr) (gr_value gr)] else [])) =
      (MDHIM_SUCCESS, Some (getrm_image ?gr @ snd (gr_key gr) @ snd (gr_value gr)))"
    using sz ok skip [of "gr_key gr"] skip [of "gr_value gr"]
    by (subst pack_out_run [OF assms(2)]) auto
  with m sz(2) show ?thesis by (simp add: pack_getrm_message_def Let_def split del: if_split cong del: if_weak_cong)
qed

lemma getrm_unpacks:
  assumes "getrm_ok gr sz" and "malloc_ok mal"
  shows "unpack_getrm_message up mal (getrm_image gr @ snd (gr_key gr) @ snd (gr_value gr)) (of_nat sz) =
    Some (gr\<lparr>gr_key := (if snd (gr_key gr) = [] then 0 else addr mal 1 (length (snd (gr_key gr))), snd (gr_key gr)),
             gr_value := (if snd (gr_value gr) = [] then 0 else addr mal 2 (length (snd (gr_value gr))),
               snd (gr_value gr))\<rparr>)"
proof -
  let ?i = "getrm_image gr" and ?k = "snd (gr_key gr)" and ?v = "snd (gr_value gr)"
  have lens: "gr_key_len gr = of_nat (length ?k)" "gr_value_len gr = of_nat (length ?v)"
    and sz: "sz = length (?i @ ?k @ ?v)" "sz < 2147483648"
    using assms(1) by (simp_all add: getrm_ok_def blob_ok_def)
  note len = sz(2) [unfolded sz(1)]
  show ?thesis
    unfolding sz(1) unpack_getrm_message_def lens
    using up_struct_run [OF assms(2) refl len]
      up_alloc_nz_run [OF assms(2) len refl, of 1 MPI_SUCCESS]
      up_alloc_nz_run [OF assms(2), of "?i @ ?k" ?v "[]" _ 2 MPI_SUCCESS, unfolded append_assoc append_Nil2] len
    by (simp add: lens)
qed

end

text \<open>What the loops of the bulk messages pack.\<close>

lemma pair_items:
  assumes "blobs_ok ks kl n" and "blobs_ok vs vl n"
  defines "g \<equiv> \<lambda>i. [int_item (kl ! i), char_item (kl ! i) (ks ! i), int_item (vl ! i), char_item (vl ! i) (vs ! i)]"
  shows "\<forall>it \<in> set (concat (map g [0..<length ks])). item_ok it"
    and "concat (map item_data (concat (map g [0..<length ks]))) = pairs_bytes ks kl vs vl"
proof -
  have len: "length vs = length ks"
    using blobs_ok_nat [OF assms(1)] blobs_ok_nat [OF assms(2)] by simp
  have ok: "blob_ok (ks ! i) (kl ! i)" "blob_ok (vs ! i) (vl ! i)" if "i < length ks" for i
    using that blobs_okD(4) [OF assms(1)] blobs_okD(4) [OF assms(2)] len by simp_all
  show "\<forall>it \<in> set (concat (map g [0..<length ks])). item_ok it"
    using ok by (auto simp: g_def)
  show "concat (map item_data (concat (map g [0..<length ks]))) = pairs_bytes ks kl vs vl"
    using ok by (auto simp: concat_items pairs_bytes_def pair_bytes_def g_def intro!: arg_cong [of _ _ concat])
qed

lemma reply_items:
  assumes "blobs_ok ks kl n" and "blobs_ok vs vl n"
  defines "g \<equiv> \<lambda>i. [int_item (kl ! i)] @ (if 0 <s kl ! i then [char_item (kl ! i) (ks ! i)] else []) @
      [int_item (vl ! i)] @ (if 0 <s vl ! i then [char_item (vl ! i) (vs ! i)] else [])"
  shows "\<forall>it \<in> set (concat (map g [0..<length ks])). item_ok it"
    and "concat (map item_data (concat (map g [0..<length ks]))) = pairs_bytes ks kl vs vl"
proof -
  have len: "length vs = length ks"
    using blobs_ok_nat [OF assms(1)] blobs_ok_nat [OF assms(2)] by simp
  have ok: "blob_ok (ks ! i) (kl ! i)" "blob_ok (vs ! i) (vl ! i)" if "i < length ks" for i
    using that blobs_okD(4) [OF assms(1)] blobs_okD(4) [OF assms(2)] len by simp_all
  have nil: "snd b = []" if "blob_ok b l" "\<not> 0 <s l" for b l
    using that sless_of_nat [of 0 "length (snd b)"] by (simp add: blob_ok_def)
  have nil: "\<not> 0 <s kl ! i \<Longrightarrow> snd (ks ! i) = []" "\<not> 0 <s vl ! i \<Longrightarrow> snd (vs ! i) = []"
    if "i < length ks" for i
    using nil ok [OF that] by blast+
  show "\<forall>it \<in> set (concat (map g [0..<length ks])). item_ok it"
    using ok by (auto simp: g_def split: if_splits)
  show "concat (map item_data (concat (map g [0..<length ks]))) = pairs_bytes ks kl vs vl"
    using ok nil
    by (auto simp: concat_items pairs_bytes_def pair_bytes_def g_def intro!: arg_cong [of _ _ concat])
qed

lemma key_items:
  assumes "blobs_ok ks kl n"
  defines "g \<equiv> \<lambda>i. [int_item (kl ! i), char_item (kl ! i) (ks ! i)]"
  shows "\<forall>it \<in> set (concat (map g [0..<length ks])). item_ok it"
    and "concat (map item_data (concat (map g [0..<length ks]))) = keys_bytes ks kl"
proof -
  have ok: "blob_ok (ks ! i) (kl ! i)" if "i < length ks" for i
    using that blobs_okD(4) [OF assms(1)] by simp
  show "\<forall>it \<in> set (concat (map g [0..<length ks])). item_ok it"
    using ok by (auto simp: g_def)
  show "concat (map item_data (concat (map g [0..<length ks]))) = keys_bytes ks kl"
    using ok by (auto simp: concat_items keys_bytes_def key_bytes_def g_def intro!: arg_cong [of _ _ concat])
qed

text \<open>What the receiver holds: the objects at the addresses of its own allocations.\<close>

definition received :: "malloc_op \<Rightarrow> (nat \<Rightarrow> nat) \<Rightarrow> blob list \<Rightarrow> blob list" where
  "received mal j bs = map (\<lambda>i. (addr mal (j i) (length (snd (bs ! i))), snd (bs ! i))) [0..<length bs]"

text \<open>In the bulk replies the empty ones are NULL.\<close>

definition received_nz :: "malloc_op \<Rightarrow> (nat \<Rightarrow> nat) \<Rightarrow> blob list \<Rightarrow> blob list" where
  "received_nz mal j bs =
     map (\<lambda>i. (if snd (bs ! i) = [] then 0 else addr mal (j i) (length (snd (bs ! i))), snd (bs ! i)))
       [0..<length bs]"

lemma received_contents [simp]:
  "map snd (received mal j bs) = map snd bs" "map snd (received_nz mal j bs) = map snd bs"
  by (auto simp: received_def received_nz_def intro: nth_equalityI)

context packer
begin

lemma pack_out_bulk:
  assumes "malloc_ok mal" and "item_ok (c, MPI_CHAR, img)" and "\<forall>it \<in> set its. item_ok it"
    and "concat (map item_data its) = bs" and "sz = length img + length bs" and "sz < 2147483648"
  shows "pack_out pk mal (of_nat sz) ((c, MPI_CHAR, img) # its) = (MDHIM_SUCCESS, Some (img @ bs))"
  using pack_out_run [of mal "(c, MPI_CHAR, img) # its" sz] assms by simp

lemma bput_packs:
  assumes "bputm_ok bp sz" and "malloc_ok mal"
  shows "pack_bput_message pk mal bp ss =
    (MDHIM_SUCCESS, Some (bputm_image (bp\<lparr>bp_size := of_nat sz\<rparr>) @
       pairs_bytes (snd (bp_keys bp)) (snd (bp_key_lens bp)) (snd (bp_values bp)) (snd (bp_value_lens bp))),
     of_nat sz, bp\<lparr>bp_size := of_nat sz\<rparr>)"
proof -
  let ?bp = "bp\<lparr>bp_size := of_nat sz\<rparr>"
  let ?ks = "snd (bp_keys bp)" and ?kl = "snd (bp_key_lens bp)"
  let ?vs = "snd (bp_values bp)" and ?vl = "snd (bp_value_lens bp)"
  have ok: "blobs_ok ?ks ?kl (bp_num_records bp)" "blobs_ok ?vs ?vl (bp_num_records bp)"
    and sz: "sz = 56 + 8 * length ?ks + blobs_size ?ks + blobs_size ?vs" "sz < 2147483648"
    using assms(1) by (simp_all add: bputm_ok_def)
  have len: "length ?vs = length ?ks" using blobs_ok_nat [OF ok(1)] blobs_ok_nat [OF ok(2)] by simp
  note is_eq = blobs_ok_nat [OF ok(1)]
  note m = bputm_m_size [OF assms(1)]
  note run = pack_out_bulk [OF assms(2), of 56 "bputm_image ?bp", OF _ pair_items [OF ok], of sz]
  show ?thesis
    unfolding pack_bput_message_def is_eq
    using m run sz length_pairs_bytes [OF len, of ?kl ?vl] by (simp add: Let_def del: of_nat_add)
qed

lemma bgetrm_packs:
  assumes "bgetrm_ok br sz" and "malloc_ok mal"
  shows "pack_bgetrm_message pk mal br ss =
    (MDHIM_SUCCESS, Some (bgetrm_image (br\<lparr>br_size := of_nat sz\<rparr>) @
       pairs_bytes (snd (br_keys br)) (snd (br_key_lens br)) (snd (br_values br)) (snd (br_value_lens br))),
     of_nat sz, br\<lparr>br_size := of_nat sz\<rparr>)"
proof -
  let ?br = "br\<lparr>br_size := of_nat sz\<rparr>"
  let ?ks = "snd (br_keys br)" and ?kl = "snd (br_key_lens br)"
  let ?vs = "snd (br_values br)" and ?vl = "snd (br_value_lens br)"
  have ok: "blobs_ok ?ks ?kl (br_num_records br)" "blobs_ok ?vs ?vl (br_num_records br)"
    and sz: "sz = 64 + 8 * length ?ks + blobs_size ?ks + blobs_size ?vs" "sz < 2147483648"
    using assms(1) by (simp_all add: bgetrm_ok_def)
  have len: "length ?vs = length ?ks" using blobs_ok_nat [OF ok(1)] blobs_ok_nat [OF ok(2)] by simp
  note is_eq = blobs_ok_nat [OF ok(1)]
  have m: "fold (\<lambda>i s. s + scast (?kl ! i + ?vl ! i)) [0..<length ?ks]
      (64 + scast (2 * br_num_records br) * 4 :: 64 word) = of_nat sz"
    using pairs_m_size [OF ok, of 64] sz by simp
  note run = pack_out_bulk [OF assms(2), of 64 "bgetrm_image ?br", OF _ reply_items [OF ok], of sz]
  show ?thesis
    unfolding pack_bgetrm_message_def is_eq
    using m run sz length_pairs_bytes [OF len, of ?kl ?vl] by (simp add: Let_def del: of_nat_add)
qed

lemma bget_packs:
  assumes "bgetm_ok bg sz" and "malloc_ok mal"
  shows "\<exists>spare. length spare = 4 * length (snd (bg_keys bg)) \<and>
    pack_bget_message pk mal bg ss =
    (MDHIM_SUCCESS, Some (bgetm_image (bg\<lparr>bg_size := of_nat sz\<rparr>) @
       keys_bytes (snd (bg_keys bg)) (snd (bg_key_lens bg)) @ spare),
     of_nat sz, bg\<lparr>bg_size := of_nat sz\<rparr>)"
proof -
  let ?bg = "bg\<lparr>bg_size := of_nat sz\<rparr>"
  let ?ks = "snd (bg_keys bg)" and ?kl = "snd (bg_key_lens bg)"
  let ?its = "(40, MPI_CHAR, bgetm_image ?bg) #
    concat (map (\<lambda>i. [int_item (?kl ! i), char_item (?kl ! i) (?ks ! i)]) [0..<length ?ks])"
  let ?d = "bgetm_image ?bg @ keys_bytes ?ks ?kl"
  have ok: "blobs_ok ?ks ?kl (bg_num_records bg)"
    and sz: "sz = 40 + 8 * length ?ks + blobs_size ?ks" "sz < 2147483648"
    using assms(1) by (simp_all add: bgetm_ok_def)
  note is_eq = blobs_ok_nat [OF ok]
  have n: "bg_num_records bg = of_nat (length ?ks)" "length ?ks < 2147483648"
    using blobs_okD(1,3) [OF ok] by simp_all
  have m: "fold (\<lambda>i s. s + scast (?kl ! i)) [0..<length ?ks]
      (40 + scast (bg_num_records bg) * 4 * 2 :: 64 word) = of_nat sz"
    using keys_m_size [OF ok, of "40 + length ?ks * 4 * 2"] n sz by (simp add: ac_simps)
  obtain buf where buf: "mal 0 sz = Some (addr mal 0 sz, buf)" "length buf = sz"
    using malloc_okE [OF assms(2), of sz 0] sz(2) by auto
  have len: "length ?d = 40 + 4 * length ?ks + blobs_size ?ks" by (simp add: length_keys_bytes)
  have data: "concat (map item_data ?its) = ?d" using key_items(2) [OF ok] by simp
  have its: "\<forall>it \<in> set ?its. item_ok it" using key_items(1) [OF ok] by simp
  have fit: "0 + length ?d \<le> length buf" "length buf < 2147483648" using buf(2) sz unfolding len by simp_all
  have "fold (pack_item pk) ?its (MPI_SUCCESS, buf, of_nat 0) =
      (MPI_SUCCESS, splice buf 0 ?d, of_nat (0 + length ?d))"
    by (rule pack_items_run [of ?its 0 buf MPI_SUCCESS, unfolded data, OF its fit])
  moreover have "splice buf 0 ?d = ?d @ drop (length ?d) buf" by (simp add: splice_def)
  ultimately have "pack_out pk mal (of_nat sz) ?its = (MDHIM_SUCCESS, Some (?d @ drop (length ?d) buf))"
    using buf sz(2) unfolding pack_out_def by (simp del: fold.simps)
  then have "pack_bget_message pk mal bg ss =
      (MDHIM_SUCCESS, Some (?d @ drop (length ?d) buf), of_nat sz, ?bg)"
    unfolding pack_bget_message_def is_eq using m sz(2) by (simp add: Let_def)
  moreover have "length (drop (length ?d) buf) = 4 * length ?ks" using buf len sz by simp
  ultimately show ?thesis by (intro exI conjI) simp_all
qed

lemma bdel_packs:
  assumes "bdelm_ok bd sz" and "malloc_ok mal"
  shows "pack_bdel_message pk mal bd ss =
    (MDHIM_SUCCESS, Some (bdelm_image (bd\<lparr>bd_size := of_nat sz\<rparr>) @
       keys_bytes (snd (bd_keys bd)) (snd (bd_key_lens bd))),
     of_nat sz, bd\<lparr>bd_size := of_nat sz\<rparr>)"
proof -
  let ?bd = "bd\<lparr>bd_size := of_nat sz\<rparr>"
  let ?ks = "snd (bd_keys bd)" and ?kl = "snd (bd_key_lens bd)"
  have ok: "blobs_ok ?ks ?kl (bd_num_records bd)"
    and sz: "sz = 40 + 4 * length ?ks + blobs_size ?ks" "sz < 2147483648"
    using assms(1) by (simp_all add: bdelm_ok_def)
  note is_eq = blobs_ok_nat [OF ok]
  have n: "bd_num_records bd = of_nat (length ?ks)" "length ?ks < 2147483648"
    using blobs_okD(1,3) [OF ok] by simp_all
  have m: "fold (\<lambda>i s. s + scast (?kl ! i)) [0..<length ?ks]
      (40 + scast (bd_num_records bd) * 4 :: 64 word) = of_nat sz"
    using keys_m_size [OF ok, of "40 + length ?ks * 4"] n sz by (simp add: ac_simps)
  note run = pack_out_bulk [OF assms(2), of 40 "bdelm_image ?bd", OF _ key_items [OF ok], of sz]
  show ?thesis
    unfolding pack_bdel_message_def is_eq
    using m run sz length_keys_bytes [of ?ks ?kl] by (simp add: Let_def del: of_nat_add)
qed

text \<open>One turn of each unpacking loop.\<close>

lemma bput_body_run:
  assumes "malloc_ok mal" and "blob_ok (ks ! i) (kl ! i)" and "blob_ok (vs ! i) (vl ! i)"
    and "4 * i + 4 \<le> length kls" and "4 * i + 4 \<le> length vls"
    and msg: "msg = pre @ pair_bytes ks kl vs vl i @ post" "length msg < 2147483648"
  shows "bput_body up mal msg (of_nat (length msg)) kls vls i (rc, of_nat (length pre)) =
    Some ((kl ! i, (addr mal (5 + 2 * i) (length (snd (ks ! i))), snd (ks ! i)),
           vl ! i, (addr mal (6 + 2 * i) (length (snd (vs ! i))), snd (vs ! i))),
          rc, of_nat (length (pre @ pair_bytes ks kl vs vl i)))"
proof -
  let ?k = "snd (ks ! i)" and ?v = "snd (vs ! i)"
  have lens: "kl ! i = of_nat (length ?k)" "vl ! i = of_nat (length ?v)"
    using assms(2,3) by (simp_all add: blob_ok_def)
  have m: "msg = pre @ enc32 (kl ! i) @ ?k @ enc32 (vl ! i) @ ?v @ post"
    using msg(1) by (simp add: pair_bytes_def)
  note len = msg(2) [unfolded m]
  show ?thesis
    using up_int_run [OF len, of "take 4 (drop (4 * i) kls)" rc]
      up_alloc_run [OF assms(1), of "pre @ enc32 (kl ! i)" ?k "enc32 (vl ! i) @ ?v @ post" _ "5 + 2 * i" rc]
      up_int_run [of "pre @ enc32 (kl ! i) @ ?k" "vl ! i" "?v @ post" "take 4 (drop (4 * i) vls)" rc]
      up_alloc_run [OF assms(1), of "pre @ enc32 (kl ! i) @ ?k @ enc32 (vl ! i)" ?v post _ "6 + 2 * i" rc]
      len assms(4,5)
    unfolding bput_body_def m pair_bytes_def by (simp add: lens)
qed

lemma bgetrm_body_run:
  assumes "malloc_ok mal" and "blob_ok (ks ! i) (kl ! i)" and "blob_ok (vs ! i) (vl ! i)"
    and "4 * i + 4 \<le> length kls" and "4 * i + 4 \<le> length vls"
    and msg: "msg = pre @ pair_bytes ks kl vs vl i @ post" "length msg < 2147483648"
  shows "bgetrm_body up mal msg (of_nat (length msg)) kls vls i (rc, of_nat (length pre)) =
    Some ((kl ! i, (if snd (ks ! i) = [] then 0 else addr mal (5 + 2 * i) (length (snd (ks ! i))), snd (ks ! i)),
           vl ! i, (if snd (vs ! i) = [] then 0 else addr mal (6 + 2 * i) (length (snd (vs ! i))), snd (vs ! i))),
          rc, of_nat (length (pre @ pair_bytes ks kl vs vl i)))"
proof -
  let ?k = "snd (ks ! i)" and ?v = "snd (vs ! i)"
  have lens: "kl ! i = of_nat (length ?k)" "vl ! i = of_nat (length ?v)"
    using assms(2,3) by (simp_all add: blob_ok_def)
  have m: "msg = pre @ enc32 (kl ! i) @ ?k @ enc32 (vl ! i) @ ?v @ post"
    using msg(1) by (simp add: pair_bytes_def)
  note len = msg(2) [unfolded m]
  show ?thesis
    using up_int_run [OF len, of "take 4 (drop (4 * i) kls)" rc]
      up_alloc_nz_run [OF assms(1), of "pre @ enc32 (kl ! i)" ?k "enc32 (vl ! i) @ ?v @ post" _ "5 + 2 * i" rc]
      up_int_run [of "pre @ enc32 (kl ! i) @ ?k" "vl ! i" "?v @ post" "take 4 (drop (4 * i) vls)" rc]
      up_alloc_nz_run [OF assms(1), of "pre @ enc32 (kl ! i) @ ?k @ enc32 (vl ! i)" ?v post _ "6 + 2 * i" rc]
      len assms(4,5)
    unfolding bgetrm_body_def m pair_bytes_def by (simp add: lens)
qed

lemma keys_body_run:
  assumes "malloc_ok mal" and "blob_ok (ks ! i) (kl ! i)" and "4 * i + 4 \<le> length kls"
    and msg: "msg = pre @ key_bytes ks kl i @ post" "length msg < 2147483648"
  shows "keys_body up mal msg (of_nat (length msg)) kls i (rc, of_nat (length pre)) =
    Some ((kl ! i, (addr mal (3 + i) (length (snd (ks ! i))), snd (ks ! i))),
          rc, of_nat (length (pre @ key_bytes ks kl i)))"
proof -
  let ?k = "snd (ks ! i)"
  have lens: "kl ! i = of_nat (length ?k)" using assms(2) by (simp add: blob_ok_def)
  have m: "msg = pre @ enc32 (kl ! i) @ ?k @ post"
    using msg(1) by (simp add: key_bytes_def)
  note len = msg(2) [unfolded m]
  show ?thesis
    using up_int_run [OF len, of "take 4 (drop (4 * i) kls)" rc]
      up_alloc_run [OF assms(1), of "pre @ enc32 (kl ! i)" ?k post _ "3 + i" rc] len assms(3)
    unfolding keys_body_def m key_bytes_def by (simp add: lens)
qed

lemma bput_unpacks:
  assumes "bputm_ok bp sz" and "malloc_ok mal"
  shows "unpack_bput_message up mal (bputm_image bp @
      pairs_bytes (snd (bp_keys bp)) (snd (bp_key_lens bp)) (snd (bp_values bp)) (snd (bp_value_lens bp)))
      (of_nat sz) =
    Some (bp\<lparr>bp_keys := (addr mal 1 (8 * length (snd (bp_keys bp))), received mal (\<lambda>i. 5 + 2 * i) (snd (bp_keys bp))),
             bp_key_lens := (addr mal 3 (4 * length (snd (bp_keys bp))), snd (bp_key_lens bp)),
             bp_values := (addr mal 2 (8 * length (snd (bp_keys bp))), received mal (\<lambda>i. 6 + 2 * i) (snd (bp_values bp))),
             bp_value_lens := (addr mal 4 (4 * length (snd (bp_keys bp))), snd (bp_value_lens bp))\<rparr>)"
proof -
  let ?ks = "snd (bp_keys bp)" and ?kl = "snd (bp_key_lens bp)"
  let ?vs = "snd (bp_values bp)" and ?vl = "snd (bp_value_lens bp)"
  let ?b = "pairs_bytes ?ks ?kl ?vs ?vl" and ?n = "length ?ks"
  let ?msg = "bputm_image bp @ ?b"
  have ok: "blobs_ok ?ks ?kl (bp_num_records bp)" "blobs_ok ?vs ?vl (bp_num_records bp)"
    and sz': "sz = 56 + 8 * ?n + blobs_size ?ks + blobs_size ?vs" "sz < 2147483648"
    using assms(1) by (simp_all add: bputm_ok_def)
  have len: "length ?vs = ?n" using blobs_ok_nat [OF ok(1)] blobs_ok_nat [OF ok(2)] by simp
  have sz: "sz = length ?msg" "length ?msg < 2147483648"
    using sz' length_pairs_bytes [OF len] by simp_all
  have n: "bp_num_records bp = of_nat ?n" "?n < 2147483648" "nat (sint (bp_num_records bp)) = ?n"
    "8 * ?n < 4294967296"
    using blobs_okD(1,3) [OF ok(1)] blobs_ok_nat [OF ok(1)] sz' by simp_all
  have n4: "4 * ?n < 4294967296" using n(4) by simp
  obtain x1 where mal1: "mal 1 (8 * ?n) = Some (addr mal 1 (8 * ?n), x1)"
    by (rule malloc_okE [OF assms(2) n(4)])
  obtain x2 where mal2: "mal 2 (8 * ?n) = Some (addr mal 2 (8 * ?n), x2)"
    by (rule malloc_okE [OF assms(2) n(4)])
  obtain kls where mal3: "mal 3 (4 * ?n) = Some (addr mal 3 (4 * ?n), kls)" "length kls = 4 * ?n"
    by (rule malloc_okE [OF assms(2) n4])
  obtain vls where mal4: "mal 4 (4 * ?n) = Some (addr mal 4 (4 * ?n), vls)" "length vls = 4 * ?n"
    by (rule malloc_okE [OF assms(2) n4])
  have kl: "map ((!) ?kl) [0..<?n] = ?kl" "map ((!) ?vl) [0..<?n] = ?vl"
    using blobs_okD(2) [OF ok(1)] blobs_okD(2) [OF ok(2)] len map_nth [of ?kl] map_nth [of ?vl] by simp_all
  let ?g = "\<lambda>i. (?kl ! i, (addr mal (5 + 2 * i) (length (snd (?ks ! i))), snd (?ks ! i)),
      ?vl ! i, (addr mal (6 + 2 * i) (length (snd (?vs ! i))), snd (?vs ! i)))"
  have "up_loop (bput_body up mal ?msg (of_nat (length ?msg)) kls vls) [0..<?n]
      (MPI_SUCCESS, of_nat (length (bputm_image bp))) =
      Some (map ?g [0..<?n], MPI_SUCCESS,
        of_nat (length (bputm_image bp @ concat (map (pair_bytes ?ks ?kl ?vs ?vl) [0..<?n]))))"
  proof (rule up_loop_run)
    show "?msg = bputm_image bp @ concat (map (pair_bytes ?ks ?kl ?vs ?vl) [0..<?n]) @ []"
      by (simp add: pairs_bytes_def)
    fix i pre post assume "i \<in> set [0..<?n]" and msg: "?msg = pre @ pair_bytes ?ks ?kl ?vs ?vl i @ post"
    then have i: "i < ?n" by simp
    show "bput_body up mal ?msg (of_nat (length ?msg)) kls vls i (MPI_SUCCESS, of_nat (length pre)) =
        Some (?g i, MPI_SUCCESS, of_nat (length (pre @ pair_bytes ?ks ?kl ?vs ?vl i)))"
      using i mal3(2) mal4(2) blobs_okD(4) [OF ok(1)] blobs_okD(4) [OF ok(2)] len sz(2)
      by (intro bput_body_run [OF assms(2) _ _ _ _ msg]) simp_all
  qed
  note loop = this [folded pairs_bytes_def]
  show ?thesis
    unfolding sz(1) unpack_bput_message_def
    using up_struct_run [OF assms(2) refl sz(2)] loop mal1 mal2 mal3(1) mal4(1)
    by (simp add: n(1,3) array_size_of_nat n(2) mult.commute received_def comp_def len kl [unfolded comp_def])
qed

lemma bgetrm_unpacks:
  assumes "bgetrm_ok br sz" and "malloc_ok mal"
  shows "unpack_bgetrm_message up mal (bgetrm_image br @
      pairs_bytes (snd (br_keys br)) (snd (br_key_lens br)) (snd (br_values br)) (snd (br_value_lens br)))
      (of_nat sz) =
    Some (br\<lparr>br_keys := (addr mal 1 (8 * length (snd (br_keys br))), received_nz mal (\<lambda>i. 5 + 2 * i) (snd (br_keys br))),
             br_key_lens := (addr mal 2 (4 * length (snd (br_keys br))), snd (br_key_lens br)),
             br_values := (addr mal 3 (8 * length (snd (br_keys br))), received_nz mal (\<lambda>i. 6 + 2 * i) (snd (br_values br))),
             br_value_lens := (addr mal 4 (4 * length (snd (br_keys br))), snd (br_value_lens br))\<rparr>)"
proof -
  let ?ks = "snd (br_keys br)" and ?kl = "snd (br_key_lens br)"
  let ?vs = "snd (br_values br)" and ?vl = "snd (br_value_lens br)"
  let ?b = "pairs_bytes ?ks ?kl ?vs ?vl" and ?n = "length ?ks"
  let ?msg = "bgetrm_image br @ ?b"
  have ok: "blobs_ok ?ks ?kl (br_num_records br)" "blobs_ok ?vs ?vl (br_num_records br)"
    and sz': "sz = 64 + 8 * ?n + blobs_size ?ks + blobs_size ?vs" "sz < 2147483648"
    using assms(1) by (simp_all add: bgetrm_ok_def)
  have len: "length ?vs = ?n" using blobs_ok_nat [OF ok(1)] blobs_ok_nat [OF ok(2)] by simp
  have sz: "sz = length ?msg" "length ?msg < 2147483648"
    using sz' length_pairs_bytes [OF len] by simp_all
  have n: "br_num_records br = of_nat ?n" "?n < 2147483648" "nat (sint (br_num_records br)) = ?n"
    "8 * ?n < 4294967296" "4 * ?n < 4294967296"
    using blobs_okD(1,3) [OF ok(1)] blobs_ok_nat [OF ok(1)] sz' by simp_all
  obtain x1 where mal1: "mal 1 (8 * ?n) = Some (addr mal 1 (8 * ?n), x1)"
    by (rule malloc_okE [OF assms(2) n(4)])
  obtain kls where mal2: "mal 2 (4 * ?n) = Some (addr mal 2 (4 * ?n), kls)" "length kls = 4 * ?n"
    by (rule malloc_okE [OF assms(2) n(5)])
  obtain x3 where mal3: "mal 3 (8 * ?n) = Some (addr mal 3 (8 * ?n), x3)"
    by (rule malloc_okE [OF assms(2) n(4)])
  obtain vls where mal4: "mal 4 (4 * ?n) = Some (addr mal 4 (4 * ?n), vls)" "length vls = 4 * ?n"
    by (rule malloc_okE [OF assms(2) n(5)])
  have kl: "map ((!) ?kl) [0..<?n] = ?kl" "map ((!) ?vl) [0..<?n] = ?vl"
    using blobs_okD(2) [OF ok(1)] blobs_okD(2) [OF ok(2)] len map_nth [of ?kl] map_nth [of ?vl] by simp_all
  let ?g = "\<lambda>i. (?kl ! i, (if snd (?ks ! i) = [] then 0 else addr mal (5 + 2 * i) (length (snd (?ks ! i))), snd (?ks ! i)),
      ?vl ! i, (if snd (?vs ! i) = [] then 0 else addr mal (6 + 2 * i) (length (snd (?vs ! i))), snd (?vs ! i)))"
  have "up_loop (bgetrm_body up mal ?msg (of_nat (length ?msg)) kls vls) [0..<?n]
      (MPI_SUCCESS, of_nat (length (bgetrm_image br))) =
      Some (map ?g [0..<?n], MPI_SUCCESS,
        of_nat (length (bgetrm_image br @ concat (map (pair_bytes ?ks ?kl ?vs ?vl) [0..<?n]))))"
  proof (rule up_loop_run)
    show "?msg = bgetrm_image br @ concat (map (pair_bytes ?ks ?kl ?vs ?vl) [0..<?n]) @ []"
      by (simp add: pairs_bytes_def)
    fix i pre post assume "i \<in> set [0..<?n]" and msg: "?msg = pre @ pair_bytes ?ks ?kl ?vs ?vl i @ post"
    then have i: "i < ?n" by simp
    show "bgetrm_body up mal ?msg (of_nat (length ?msg)) kls vls i (MPI_SUCCESS, of_nat (length pre)) =
        Some (?g i, MPI_SUCCESS, of_nat (length (pre @ pair_bytes ?ks ?kl ?vs ?vl i)))"
      using i mal2(2) mal4(2) blobs_okD(4) [OF ok(1)] blobs_okD(4) [OF ok(2)] len sz(2)
      by (intro bgetrm_body_run [OF assms(2) _ _ _ _ msg]) simp_all
  qed
  note loop = this [folded pairs_bytes_def]
  show ?thesis
    unfolding sz(1) unpack_bgetrm_message_def
    using up_struct_run [OF assms(2) refl sz(2)] loop mal1 mal2(1) mal3 mal4(1)
    by (simp add: n(1,3) array_size_of_nat n(2) mult.commute received_nz_def comp_def len kl [unfolded comp_def])
qed

text \<open>The receiving loop of the two messages with keys only; \<open>spare\<close> is what follows.\<close>

lemma keys_loop:
  assumes "malloc_ok mal" and "blobs_ok ks kl num" and "length kls = 4 * length ks"
    and msg: "msg = img @ keys_bytes ks kl @ spare" "length msg < 2147483648"
  shows "up_loop (keys_body up mal msg (of_nat (length msg)) kls) [0..<length ks] (rc, of_nat (length img)) =
    Some (zip kl (received mal (\<lambda>i. 3 + i) ks), rc, of_nat (length (img @ keys_bytes ks kl)))"
proof -
  let ?g = "\<lambda>i. (kl ! i, (addr mal (3 + i) (length (snd (ks ! i))), snd (ks ! i)))"
  have "up_loop (keys_body up mal msg (of_nat (length msg)) kls) [0..<length ks] (rc, of_nat (length img)) =
      Some (map ?g [0..<length ks], rc, of_nat (length (img @ concat (map (key_bytes ks kl) [0..<length ks]))))"
  proof (rule up_loop_run)
    show "msg = img @ concat (map (key_bytes ks kl) [0..<length ks]) @ spare"
      using msg(1) by (simp add: keys_bytes_def)
    fix i pre post assume "i \<in> set [0..<length ks]" and m: "msg = pre @ key_bytes ks kl i @ post"
    then have i: "i < length ks" by simp
    show "keys_body up mal msg (of_nat (length msg)) kls i (rc, of_nat (length pre)) =
        Some (?g i, rc, of_nat (length (pre @ key_bytes ks kl i)))"
      using i assms(3) blobs_okD(4) [OF assms(2)] msg(2)
      by (intro keys_body_run [OF assms(1) _ _ m]) simp_all
  qed
  moreover have "map ?g [0..<length ks] = zip kl (received mal (\<lambda>i. 3 + i) ks)"
    using blobs_okD(2) [OF assms(2)] by (intro nth_equalityI) (simp_all add: received_def)
  ultimately show ?thesis by (simp add: keys_bytes_def)
qed

lemma bget_unpacks:
  assumes "bgetm_ok bg sz" and "malloc_ok mal" and "length spare = 4 * length (snd (bg_keys bg))"
  shows "unpack_bget_message up mal
      (bgetm_image bg @ keys_bytes (snd (bg_keys bg)) (snd (bg_key_lens bg)) @ spare) (of_nat sz) =
    Some (bg\<lparr>bg_keys := (addr mal 1 (8 * length (snd (bg_keys bg))), received mal (\<lambda>i. 3 + i) (snd (bg_keys bg))),
             bg_key_lens := (addr mal 2 (4 * length (snd (bg_keys bg))), snd (bg_key_lens bg))\<rparr>)"
proof -
  let ?ks = "snd (bg_keys bg)" and ?kl = "snd (bg_key_lens bg)"
  let ?n = "length ?ks" and ?msg = "bgetm_image bg @ keys_bytes ?ks ?kl @ spare"
  have ok: "blobs_ok ?ks ?kl (bg_num_records bg)"
    and sz': "sz = 40 + 8 * ?n + blobs_size ?ks" "sz < 2147483648"
    using assms(1) by (simp_all add: bgetm_ok_def)
  have sz: "sz = length ?msg" "length ?msg < 2147483648"
    using sz' length_keys_bytes [of ?ks ?kl] assms(3) by simp_all
  have n: "bg_num_records bg = of_nat ?n" "?n < 2147483648" "nat (sint (bg_num_records bg)) = ?n"
    "8 * ?n < 4294967296" "4 * ?n < 4294967296"
    using blobs_okD(1,3) [OF ok] blobs_ok_nat [OF ok] sz' by simp_all
  obtain x1 where mal1: "mal 1 (8 * ?n) = Some (addr mal 1 (8 * ?n), x1)"
    by (rule malloc_okE [OF assms(2) n(4)])
  obtain x2 where mal2: "mal 2 (4 * ?n) = Some (addr mal 2 (4 * ?n), x2)"
    by (rule malloc_okE [OF assms(2) n(5)])
  have len: "length ?kl = ?n" by (rule blobs_okD(2) [OF ok])
  show ?thesis
    unfolding sz(1) unpack_bget_message_def
    using up_struct_run [OF assms(2) refl sz(2)] mal1 mal2
      keys_loop [OF assms(2) ok _ refl sz(2), of "replicate (?n * 4) 0"]
    by (simp add: n(1,3) array_size_of_nat n(2) mult.commute len received_def)
qed

lemma bdel_unpacks:
  assumes "bdelm_ok bd sz" and "malloc_ok mal"
  shows "unpack_bdel_message up mal
      (bdelm_image bd @ keys_bytes (snd (bd_keys bd)) (snd (bd_key_lens bd))) (of_nat sz) =
    Some (bd\<lparr>bd_keys := (addr mal 1 (8 * length (snd (bd_keys bd))), received mal (\<lambda>i. 3 + i) (snd (bd_keys bd))),
             bd_key_lens := (addr mal 2 (4 * length (snd (bd_keys bd))), snd (bd_key_lens bd))\<rparr>)"
proof -
  let ?ks = "snd (bd_keys bd)" and ?kl = "snd (bd_key_lens bd)"
  let ?n = "length ?ks" and ?msg = "bdelm_image bd @ keys_bytes ?ks ?kl @ []"
  have ok: "blobs_ok ?ks ?kl (bd_num_records bd)"
    and sz': "sz = 40 + 4 * ?n + blobs_size ?ks" "sz < 2147483648"
    using assms(1) by (simp_all add: bdelm_ok_def)
  have sz: "sz = length ?msg" "length ?msg < 2147483648"
    using sz' length_keys_bytes [of ?ks ?kl] by simp_all
  have n: "bd_num_records bd = of_nat ?n" "?n < 2147483648" "nat (sint (bd_num_records bd)) = ?n"
    "8 * ?n < 4294967296" "4 * ?n < 4294967296"
    using blobs_okD(1,3) [OF ok] blobs_ok_nat [OF ok] sz' by simp_all
  obtain x1 where mal1: "mal 1 (8 * ?n) = Some (addr mal 1 (8 * ?n), x1)"
    by (rule malloc_okE [OF assms(2) n(4)])
  obtain kls where mal2: "mal 2 (4 * ?n) = Some (addr mal 2 (4 * ?n), kls)" "length kls = 4 * ?n"
    by (rule malloc_okE [OF assms(2) n(5)])
  have len: "length ?kl = ?n" by (rule blobs_okD(2) [OF ok])
  show ?thesis
    unfolding sz(1) unpack_bdel_message_def
    using up_struct_run [OF assms(2) refl sz(2)] mal1 mal2(1) keys_loop [OF assms(2) ok mal2(2) refl sz(2)]
    by (simp add: n(1,3) array_size_of_nat n(2) mult.commute len received_def)
qed

end

text \<open>A put whose size does not fit in an \<^verbatim>\<open>int\<close>: either the computed size is too large, or the
  sum of the lengths wrapped around and the size is negative or smaller than the structure.\<close>

lemma csize_negative: "sint w < 0 \<Longrightarrow> 9223372036854775808 \<le> csize w"
proof -
  assume "sint w < 0"
  moreover have ge: "- 2147483648 \<le> sint w" using sint_ge [of w] by simp
  ultimately have "(sint w + 2 ^ 64) mod 2 ^ 64 = sint w + 2 ^ 64"
    by (intro mod_pos_pos_trivial) simp_all
  then have "sint w mod 2 ^ 64 = sint w + 2 ^ 64" by (simp only: mod_add_self2)
  then show ?thesis using ge by (simp add: csize_def)
qed

lemma sint_word_of_int_32: "- 2147483648 \<le> d \<Longrightarrow> d < 2147483648 \<Longrightarrow> sint (word_of_int d :: i32) = d"
  by (simp add: signed_of_int signed_take_bit_int_eq_self)

lemma sint_word_of_int_64:
  "- 9223372036854775808 \<le> d \<Longrightarrow> d < 9223372036854775808 \<Longrightarrow> sint (word_of_int d :: 64 word) = d"
  by (simp add: signed_of_int signed_take_bit_int_eq_self)

lemma scast_word_of_int_32:
  "- 2147483648 \<le> d \<Longrightarrow> d < 2147483648 \<Longrightarrow> (scast (word_of_int d :: i32) :: 64 word) = word_of_int d"
proof -
  assume d: "- 2147483648 \<le> d" "d < 2147483648"
  have "(scast (word_of_int d :: i32) :: 64 word) = word_of_int (sint (word_of_int d :: i32))"
    by (rule scast_eq)
  with d show ?thesis by (simp add: sint_word_of_int_32)
qed

lemma ucast_word_of_int_64: "(ucast (word_of_int d :: 64 word) :: i32) = word_of_int d"
proof -
  have "take_bit 32 (take_bit 64 d) = take_bit 32 d" by simp
  then show ?thesis by (simp add: unsigned_of_int word_of_int_eq_iff)
qed

context packer
begin

lemma pack_item_full:
  "length data = n * elem_size dt \<Longrightarrow> length buf < length data \<Longrightarrow> length data < 2147483648 \<Longrightarrow>
   pack_item pk (of_nat n, dt, data) (rc, buf, 0) = (rc + MPI_ERR_NO_SPACE, buf, 0)"
  using pk_full [of data n dt buf 0] by (simp add: pack_item_def)

end

lemma wrapped_put_fails:
  assumes "packer pk up" and "blob_ok k kl" and "blob_ok v vl"
    and mal: "\<And>k n. 9223372036854775808 \<le> n \<Longrightarrow> mal k n = None"
      "\<And>k n a bs. mal k n = Some (a, bs) \<Longrightarrow> length bs = n"
    and d: "- 2147483648 \<le> d" "d < 0" and d_eq: "d = int (length (snd k)) + int (length (snd v)) - 4294967296"
  shows "fst (pack_out pk mal (word_of_int (48 + d)) [(48, MPI_CHAR, putm_image pm), char_item kl k, char_item vl v]) =
    MDHIM_ERROR"
proof (cases "48 + d < 0")
  case True
  have "sint (word_of_int (48 + d) :: i32) = 48 + d" using d by (intro sint_word_of_int_32) simp_all
  with True have "sint (word_of_int (48 + d) :: i32) < 0" by simp
  from mal(1) [OF csize_negative [OF this]] show ?thesis by (simp add: pack_out_def)
next
  case False
  then obtain n where n: "48 + d = int n" "n < 48" using d by (metis add_less_same_cancel1 int_ops(3) not_less of_nat_less_iff zero_le_imp_eq_int)
  have w: "(word_of_int (48 + d) :: i32) = of_nat n" by (simp add: n(1))
  have len: "length (snd k) < 2147483648" "length (snd v) < 2147483648" "kl = of_nat (length (snd k))"
      "vl = of_nat (length (snd v))" "n < length (snd k)" "n < length (snd v)"
    using assms(2,3) n d_eq by (simp_all add: blob_ok_def)
  show ?thesis
  proof (cases "mal 0 (csize (of_nat n))")
    case None
    then show ?thesis unfolding w by (simp add: pack_out_def)
  next
    case (Some ab)
    obtain a buf where ab: "ab = (a, buf)" by (cases ab)
    have buf: "length buf = n" using mal(2) [of 0 "csize (of_nat n)" a buf] Some ab n(2) by simp
    have "fold (pack_item pk) [(48, MPI_CHAR, putm_image pm), char_item kl k, char_item vl v] (MPI_SUCCESS, buf, 0) =
        (MPI_SUCCESS + MPI_ERR_NO_SPACE + MPI_ERR_NO_SPACE + MPI_ERR_NO_SPACE, buf, 0)"
      using packer.pack_item_full [OF assms(1), of "putm_image pm" 48 MPI_CHAR buf MPI_SUCCESS]
        packer.pack_item_full [OF assms(1), of "snd k" "length (snd k)" MPI_CHAR buf]
        packer.pack_item_full [OF assms(1), of "snd v" "length (snd v)" MPI_CHAR buf] buf n len assms(2,3)
      by simp
    then show ?thesis
      using Some ab unfolding w by (simp add: pack_out_def MPI_SUCCESS_def MPI_ERR_NO_SPACE_def del: fold.simps)
  qed
qed

section \<open>Properties\<close>

text \<open>An allocator that always succeeds, for the witnesses.\<close>

definition ref_malloc :: malloc_op where
  "ref_malloc k n = Some (of_nat (4096 * Suc k), replicate n 0)"

lemma ref_malloc_ok [simp]: "malloc_ok ref_malloc"
  by (simp add: malloc_ok_def ref_malloc_def)

lemma addr_ref_malloc [simp]: "addr ref_malloc k n = of_nat (4096 * Suc k)"
  by (simp add: addr_def ref_malloc_def)

context sym_buffers
begin

lemma is_packer: "packer (sym_pack L me base comm) (sym_unpack L me base comm)"
  by unfold_locales

end

lemma sym_packer:
  assumes "shmem_documented L" and "has_rank comm me" and "sh_accessible L base me"
  shows "packer (sym_pack L me base comm) (sym_unpack L me base comm)"
  using assms by (intro sym_buffers.is_packer sym_buffers.intro shmem.intro sym_buffers_axioms.intro)

text \<open>Messages for the witnesses.\<close>

definition example_putm :: mdhim_putm_t where
  "example_putm = \<lparr>pm_mtype = 1, pm_server_rank = 0, pm_size = 0, pm_pad0 = 7, pm_key = (100, [1, 2, 3]),
     pm_key_len = 3, pm_pad1 = 8, pm_value = (200, [4, 5]), pm_value_len = 2, pm_pad2 = 9\<rparr>"

definition example_bputm :: mdhim_bputm_t where
  "example_bputm = \<lparr>bp_mtype = 2, bp_server_rank = 0, bp_size = 0, bp_pad0 = 7,
     bp_keys = (100, [(110, [1, 2]), (120, [3])]), bp_key_lens = (130, [2, 1]),
     bp_values = (140, [(150, [4]), (160, [])]), bp_value_lens = (170, [1, 0]), bp_num_records = 2, bp_pad1 = 9\<rparr>"

definition example_getm :: mdhim_getm_t where
  "example_getm = \<lparr>gm_mtype = 3, gm_server_rank = 0, gm_size = 0, gm_op = 0, gm_key = (100, [1, 2]),
     gm_key_len = 2, gm_num_records = 1\<rparr>"

definition example_delm :: mdhim_delm_t where
  "example_delm = \<lparr>dm_mtype = 5, dm_server_rank = 0, dm_size = 0, dm_pad0 = 1, dm_key = (100, [1]),
     dm_key_len = 1, dm_pad1 = 3\<rparr>"

definition example_bgetm :: mdhim_bgetm_t where
  "example_bgetm = \<lparr>bg_mtype = 4, bg_server_rank = 0, bg_size = 0, bg_op = 0,
     bg_keys = (100, [(110, [1, 2]), (120, [3])]), bg_key_lens = (130, [2, 1]), bg_num_records = 2, bg_pad = 0\<rparr>"

definition example_bdelm :: mdhim_bdelm_t where
  "example_bdelm = \<lparr>bd_mtype = 6, bd_server_rank = 0, bd_size = 0, bd_pad0 = 0,
     bd_keys = (100, [(110, [1, 2])]), bd_key_lens = (130, [2]), bd_num_records = 1, bd_pad1 = 0\<rparr>"


definition big_key :: "byte list" where "big_key = replicate 2147483647 1"

definition bounded_malloc :: malloc_op where
  "bounded_malloc k n = (if n < 9223372036854775808 then Some (of_nat (4096 * Suc k), replicate n 0) else None)"

lemma length_big_key [simp]: "length big_key = 2147483647"
  unfolding big_key_def by (rule length_replicate)


end
