(* ===== verification/Messages_Private.thy ===== *)
theory Messages_Private
  imports Messages
begin

text \<open>
  What the packing functions of \<^verbatim>\<open>src/mdhimMods/src/messages.c\<close> put into their send buffers when
  MPI_Pack is the repository's own (\<open>Mpi_Pack.MPI_Pack\<close>).  The send buffer comes from malloc, so it
  is not symmetric: every block goes through the staging area of the communicator, and the state
  of the packing functions is the pair of both (\<open>private_pack\<close>).  A message of one block arrives
  unchanged; of a message of several blocks the send buffer has only the first bytes, as many as
  the longest block has, and malloc's contents behind them.
\<close>

section \<open>Runs of the packing functions\<close>

text \<open>The buffer malloc returns for the \<open>k\<close>-th call, and malloc beside a staging area \<open>stg\<close>.\<close>

definition fresh :: "malloc_op \<Rightarrow> nat \<Rightarrow> nat \<Rightarrow> byte list" where
  "fresh mal k n = snd (the (mal k n))"

definition private_malloc :: "malloc_op \<Rightarrow> byte list \<Rightarrow> (byte list \<times> byte list) alloc_op" where
  "private_malloc mal stg k n = map_option (\<lambda>(a, buf). (a, (buf, stg))) (mal k n)"

text \<open>The length of the longest block.\<close>

definition longest :: "item list \<Rightarrow> nat" where
  "longest items = foldr (\<lambda>it. max (length (item_data it))) items 0"

lemma longest_simps [simp]:
  "longest [] = 0" "longest (it # items) = max (length (item_data it)) (longest items)"
  by (simp_all add: longest_def)

lemma longest_append [simp]: "longest (xs @ ys) = max (longest xs) (longest ys)"
  by (induction xs) simp_all

text \<open>One block: the staging area gets it behind the data so far, the send buffer gets the first
  bytes of the staging area.\<close>

lemma keep_longest:
  assumes "M \<le> length D"
  shows "take (length d) (D @ d @ s) @ drop (length d) (take M D @ drop M out) =
    take (max M (length d)) (D @ d) @ drop (max M (length d)) out"
proof (cases "length d < M")
  case True
  then have "take M D = take (length d) D @ take (M - length d) (drop (length d) D)"
    by (metis le_add_diff_inverse less_imp_le take_add)
  with True assms show ?thesis by (simp add: max_def drop_take)
next
  case False
  with assms show ?thesis by (simp add: max_def)
qed

lemma private_items_run:
  assumes "private_buffer L me base c (length out) (length stg)" and "\<forall>it \<in> set items. item_ok it"
    and "length (D @ concat (map item_data items)) \<le> length out" and "M \<le> length D"
  shows "fold (pack_item (private_pack L me base c)) items
      (rc, (take M D @ drop M out, D @ drop (length D) stg), of_nat (length D)) =
    (let D' = D @ concat (map item_data items); M' = max M (longest items)
     in (rc, (take M' D' @ drop M' out, D' @ drop (length D') stg), of_nat (length D')))"
  using assms(2-4)
proof (induction items arbitrary: D M)
  case Nil
  then show ?case by simp
next
  case (Cons it items)
  obtain cnt dt d where it: "it = (cnt, dt, d)" by (cases it)
  obtain n where n: "cnt = of_nat n" "length d = n * elem_size dt"
    using Cons.prems(1) by (auto simp: it item_ok_def)
  let ?o = "take M D @ drop M out" and ?s = "D @ drop (length D) stg"
  let ?M = "max M (length d)"
  have le: "length out \<le> length stg" using assms(1) by (simp add: private_buffer_def)
  have fit: "length D + length d \<le> length out" using Cons.prems(2) by (simp add: it)
  have len: "length ?o = length out" "length ?s = length stg" using Cons.prems(3) fit le by auto
  have s: "splice ?s (length D) d = (D @ d) @ drop (length (D @ d)) stg"
    by (simp add: splice_def add.commute)
  have "private_pack L me base c cnt dt d (?o, ?s) (of_nat (length D)) =
      (MPI_SUCCESS, (take ?M (D @ d) @ drop ?M out, (D @ d) @ drop (length (D @ d)) stg),
       of_nat (length (D @ d)))"
    using private_pack_fits [of L me base c ?o ?s d n dt "length D"] assms(1) n fit
      keep_longest [OF Cons.prems(3), of d "drop (length (D @ d)) stg" out]
    unfolding len s by simp
  then have "fold (pack_item (private_pack L me base c)) (it # items) (rc, (?o, ?s), of_nat (length D)) =
      fold (pack_item (private_pack L me base c)) items
        (rc, (take ?M (D @ d) @ drop ?M out, (D @ d) @ drop (length (D @ d)) stg), of_nat (length (D @ d)))"
    by (simp add: it pack_item_def MPI_SUCCESS_def)
  also have "\<dots> = (let D' = (D @ d) @ concat (map item_data items); M' = max ?M (longest items)
     in (rc, (take M' D' @ drop M' out, D' @ drop (length D') stg), of_nat (length D')))"
    using Cons.prems by (intro Cons.IH) (simp_all add: it)
  finally show ?case by (simp add: it max.assoc Let_def)
qed

lemma private_pack_out:
  assumes "private_buffer L me base c sz (length stg)" and "malloc_ok mal"
    and "\<forall>it \<in> set items. item_ok it" and "concat (map item_data items) = D" and "sz = length D"
  shows "pack_out (private_pack L me base c) (private_malloc mal stg) (of_nat sz) items =
    (MDHIM_SUCCESS, Some (take (longest items) D @ drop (longest items) (fresh mal 0 sz), D @ drop sz stg))"
proof -
  have b: "sz < 2147483648" using assms(1) by (simp add: private_buffer_def)
  obtain buf where buf: "mal 0 sz = Some (addr mal 0 sz, buf)" "length buf = sz"
    using malloc_okE [OF assms(2), of sz 0] b by auto
  have "fold (pack_item (private_pack L me base c)) items (MPI_SUCCESS, (buf, stg), 0) =
      (MPI_SUCCESS, (take (longest items) D @ drop (longest items) buf, D @ drop (length D) stg), of_nat sz)"
    using private_items_run [of L me base c buf stg items "[]" 0 MPI_SUCCESS] assms buf
    by (simp add: Let_def)
  then show ?thesis
    using buf b by (simp add: pack_out_def private_malloc_def fresh_def assms(5))
qed

text \<open>The longest block of a bulk message.\<close>

definition longest_blob :: "blob list \<Rightarrow> nat" where
  "longest_blob bs = foldr (\<lambda>b. max (length (snd b))) bs 0"

lemma longest_pairs:
  assumes "blobs_ok ks kl n" and "blobs_ok vs vl n"
  shows "max 4 (longest (concat (map (\<lambda>i. [int_item (kl ! i), char_item (kl ! i) (ks ! i), int_item (vl ! i),
      char_item (vl ! i) (vs ! i)]) [0..<length ks]))) = max 4 (max (longest_blob ks) (longest_blob vs))"
proof -
  let ?g = "\<lambda>i. [int_item (kl ! i), char_item (kl ! i) (ks ! i), int_item (vl ! i), char_item (vl ! i) (vs ! i)]"
  have len: "length vs = length ks"
    using blobs_ok_nat [OF assms(1)] blobs_ok_nat [OF assms(2)] by simp
  have "max 4 (longest (concat (map ?g [0..<k]))) = max 4 (max (longest_blob (take k ks)) (longest_blob (take k vs)))"
    if "k \<le> length ks" for k
    using that
  proof (induction k)
    case 0
    then show ?case by (simp add: longest_blob_def)
  next
    case (Suc k)
    have blob: "longest_blob (take (Suc k) xs) = max (longest_blob (take k xs)) (length (snd (xs ! k)))"
      if "k < length xs" for xs
    proof -
      have "longest_blob (ys @ [b]) = max (longest_blob ys) (length (snd b))" for ys b
        unfolding longest_blob_def by (induction ys) (simp_all add: max.assoc)
      then show ?thesis using that by (simp add: take_Suc_conv_app_nth)
    qed
    have "max 4 (longest (concat (map ?g [0..<Suc k]))) =
        max (max 4 (longest (concat (map ?g [0..<k])))) (max (length (snd (ks ! k))) (length (snd (vs ! k))))"
      using Suc.prems len blobs_okD(4) [OF assms(1), of k] blobs_okD(4) [OF assms(2), of k]
      by (simp add: max.assoc max.commute max.left_commute)
    also have "\<dots> = max 4 (max (longest_blob (take (Suc k) ks)) (longest_blob (take (Suc k) vs)))"
      using Suc len by (simp add: blob max.assoc max.commute max.left_commute)
    finally show ?case .
  qed
  from this [of "length ks"] len show ?thesis by simp
qed

section \<open>Properties\<close>

text \<open>C11.  A put message packed by MPI_Pack of the repository into its send buffer from malloc,
  on a communicator whose ranks are processing-element numbers and whose staging area is large
  enough: pack_put_message reports success and the whole message is in the staging area, but the
  send buffer has only the first bytes of the message, as many as the longest of its three blocks
  (the structure of 48 bytes, the key, the value) has; behind them it still has what malloc left
  there.\<close>

theorem put_message_truncated:
  assumes "private_buffer L me base c sz (length stg)" and "malloc_ok mal" and "putm_ok pm sz"
  shows "pack_put_message (private_pack L me base c) (private_malloc mal stg) pm ss =
    (let pm' = pm\<lparr>pm_size := of_nat sz\<rparr>;
         message = putm_image pm' @ snd (pm_key pm) @ snd (pm_value pm);
         sent = max 48 (max (length (snd (pm_key pm))) (length (snd (pm_value pm))))
     in (MDHIM_SUCCESS, Some (take sent message @ drop sent (fresh mal 0 sz), message @ drop sz stg),
         of_nat sz, pm'))"
proof -
  let ?pm = "pm\<lparr>pm_size := of_nat sz\<rparr>"
  have ok: "blob_ok (pm_key pm) (pm_key_len pm)" "blob_ok (pm_value pm) (pm_value_len pm)"
    and sz: "sz = 48 + length (snd (pm_key pm)) + length (snd (pm_value pm))" "sz < 2147483648"
    using assms(3) by (simp_all add: putm_ok_def)
  let ?its = "[(48, MPI_CHAR, putm_image ?pm), char_item (pm_key_len pm) (pm_key pm),
      char_item (pm_value_len pm) (pm_value pm)]"
  let ?d = "putm_image ?pm @ snd (pm_key pm) @ snd (pm_value pm)"
  have its: "\<forall>it \<in> set ?its. item_ok it" "concat (map item_data ?its) = ?d"
    and longest: "longest ?its = max 48 (max (length (snd (pm_key pm))) (length (snd (pm_value pm))))"
    using ok by simp_all
  have size: "sz = length ?d" using sz(1) by simp
  note run = private_pack_out [OF assms(1,2) its size, unfolded longest]
  show ?thesis
    unfolding pack_put_message_def putm_m_size [OF assms(3)] using run sz(2) by (simp add: Let_def)
qed

theorem put_message_truncated_witness:
  "fst (pack_put_message (private_pack (ref_shmem 0 4000) 0 9000 (the one_comm)) (private_malloc ref_malloc (replicate 60 170))
      example_putm 0) = MDHIM_SUCCESS \<and>
    map_option fst (fst (snd (pack_put_message (private_pack (ref_shmem 0 4000) 0 9000 (the one_comm))
      (private_malloc ref_malloc (replicate 60 170)) example_putm 0))) =
    Some (putm_image (example_putm\<lparr>pm_size := 53\<rparr>) @ replicate 5 0)"
proof -
  have "private_buffer (ref_shmem 0 4000) 0 9000 (the one_comm) 53 (length (replicate 60 170 :: byte list))"
    using one_comm_rank by (simp add: private_buffer_def apart_def one_comm_def world_comm_def)
  from put_message_truncated [OF this ref_malloc_ok, of example_putm 0] show ?thesis
    by (simp add: putm_ok_def example_putm_def blob_ok_def fresh_def ref_malloc_def Let_def)
qed

text \<open>C24.  The same for a bulk put: the send buffer has only as many of the first bytes of the
  message as the longest block has (the structure of 56 bytes, a key or a value); all records
  behind them are missing, and pack_bput_message reports success.\<close>

theorem bulk_put_truncated:
  assumes "private_buffer L me base c sz (length stg)" and "malloc_ok mal" and "bputm_ok bp sz"
  shows "pack_bput_message (private_pack L me base c) (private_malloc mal stg) bp ss =
    (let bp' = bp\<lparr>bp_size := of_nat sz\<rparr>;
         message = bputm_image bp' @
           pairs_bytes (snd (bp_keys bp)) (snd (bp_key_lens bp)) (snd (bp_values bp)) (snd (bp_value_lens bp));
         sent = max 56 (max (longest_blob (snd (bp_keys bp))) (longest_blob (snd (bp_values bp))))
     in (MDHIM_SUCCESS, Some (take sent message @ drop sent (fresh mal 0 sz), message @ drop sz stg),
         of_nat sz, bp'))"
proof -
  let ?bp = "bp\<lparr>bp_size := of_nat sz\<rparr>"
  let ?ks = "snd (bp_keys bp)" and ?kl = "snd (bp_key_lens bp)"
  let ?vs = "snd (bp_values bp)" and ?vl = "snd (bp_value_lens bp)"
  let ?its = "concat (map (\<lambda>i. [int_item (?kl ! i), char_item (?kl ! i) (?ks ! i), int_item (?vl ! i),
      char_item (?vl ! i) (?vs ! i)]) [0..<length ?ks])"
  have ok: "blobs_ok ?ks ?kl (bp_num_records bp)" "blobs_ok ?vs ?vl (bp_num_records bp)"
    and sz: "sz = 56 + 8 * length ?ks + blobs_size ?ks + blobs_size ?vs" "sz < 2147483648"
    using assms(3) by (simp_all add: bputm_ok_def)
  have len: "length ?vs = length ?ks" using blobs_ok_nat [OF ok(1)] blobs_ok_nat [OF ok(2)] by simp
  have longest: "longest ((56, MPI_CHAR, bputm_image ?bp) # ?its) = max 56 (max (longest_blob ?ks) (longest_blob ?vs))"
    using longest_pairs [OF ok] by simp
  let ?d = "bputm_image ?bp @ pairs_bytes ?ks ?kl ?vs ?vl"
  have its: "\<forall>it \<in> set ((56, MPI_CHAR, bputm_image ?bp) # ?its). item_ok it"
      "concat (map item_data ((56, MPI_CHAR, bputm_image ?bp) # ?its)) = ?d"
    using pair_items [OF ok] by simp_all
  have size: "sz = length ?d" using sz(1) length_pairs_bytes [OF len, of ?kl ?vl] by simp
  note run = private_pack_out [OF assms(1,2) its size, unfolded longest]
  show ?thesis
    unfolding pack_bput_message_def blobs_ok_nat [OF ok(1)]
    using bputm_m_size [OF assms(3)] run sz(2) by (simp add: Let_def)
qed

theorem bulk_put_truncated_witness:
  "map_option fst (fst (snd (pack_bput_message (private_pack (ref_shmem 0 4000) 0 9000 (the one_comm))
      (private_malloc ref_malloc (replicate 100 170)) example_bputm 0))) =
    Some (bputm_image (example_bputm\<lparr>bp_size := 76\<rparr>) @ replicate 20 0)"
proof -
  have "private_buffer (ref_shmem 0 4000) 0 9000 (the one_comm) 76 (length (replicate 100 170 :: byte list))"
    using one_comm_rank by (simp add: private_buffer_def apart_def one_comm_def world_comm_def)
  from bulk_put_truncated [OF this ref_malloc_ok, of example_bputm 0] show ?thesis
    by (simp add: bputm_ok_def example_bputm_def blob_ok_def blobs_ok_def blobs_size_def longest_blob_def
        fresh_def ref_malloc_def Let_def)
qed

text \<open>C25.  The reply of a range server to a put, delete or commit is one block, and it does arrive:
  packed by MPI_Pack into the send buffer from malloc and unpacked by MPI_Unpack from the receive
  buffer of another process, whatever the staging areas of the two held before, it is the
  structure that was sent.\<close>

theorem plain_reply_round_trip:
  assumes "private_buffer L me base c 16 (length stg)" and "malloc_ok mal"
    and "private_buffer L me' base' c' 16 (length stg')" and "malloc_ok mal'"
  shows "\<exists>buf stg1. pack_return_message (private_pack L me base c) (private_malloc mal stg) rm ss =
      (MDHIM_SUCCESS, Some (buf, stg1), 16, rm\<lparr>rm_size := 16\<rparr>) \<and>
    unpack_return_message (private_unpack L me' base' c' stg') mal' buf = Some (rm\<lparr>rm_size := 16\<rparr>)"
proof -
  let ?rm = "rm\<lparr>rm_size := 16\<rparr>"
  obtain buf where "mal 0 16 = Some (addr mal 0 16, buf)" "length buf = 16"
    using malloc_okE [OF assms(2), of 16 0] by auto
  then have len: "length (fresh mal 0 16) = 16" by (simp add: fresh_def)
  have its: "\<forall>it \<in> set [(16, MPI_CHAR, rm_image ?rm)]. item_ok it"
      "concat (map item_data [(16, MPI_CHAR, rm_image ?rm)]) = rm_image ?rm"
      "longest [(16, MPI_CHAR, rm_image ?rm)] = 16" "16 = length (rm_image ?rm)"
    by simp_all
  note run = private_pack_out [OF assms(1,2) its(1,2,4), unfolded its(3)]
  have "pack_out (private_pack L me base c) (private_malloc mal stg) (of_nat 16) [(16, MPI_CHAR, rm_image ?rm)] =
      (MDHIM_SUCCESS, Some (rm_image ?rm, rm_image ?rm @ drop 16 stg))"
    using run len by simp
  then have pack: "pack_return_message (private_pack L me base c) (private_malloc mal stg) rm ss =
      (MDHIM_SUCCESS, Some (rm_image ?rm, rm_image ?rm @ drop 16 stg), 16, ?rm)"
    by (simp add: pack_return_message_def Let_def)
  obtain old where old: "mal' 0 16 = Some (addr mal' 0 16, old)" "length old = 16"
    using malloc_okE [OF assms(4), of 16 0] by auto
  have "private_unpack L me' base' c' stg' (rm_image ?rm) (of_nat 16) (of_nat 0) (of_nat 16) MPI_CHAR old =
      (MPI_SUCCESS, rm_image ?rm, of_nat 16)"
    using private_unpack_fits [of L me' base' c' "rm_image ?rm" stg' old 16 MPI_CHAR 0] assms(3) old by simp
  then have "unpack_return_message (private_unpack L me' base' c' stg') mal' (rm_image ?rm) = Some ?rm"
    using old by (simp add: unpack_return_message_def up_struct_def)
  with pack show ?thesis by blast
qed

theorem plain_reply_round_trip_witness:
  "\<exists>buf stg1. pack_return_message (private_pack (ref_shmem 0 4000) 0 9000 (the one_comm))
      (private_malloc ref_malloc (replicate 60 170)) \<lparr>rm_mtype = 11, rm_server_rank = 3, rm_size = 0, rm_error = -1\<rparr> 0 =
      (MDHIM_SUCCESS, Some (buf, stg1), 16, \<lparr>rm_mtype = 11, rm_server_rank = 3, rm_size = 16, rm_error = -1\<rparr>) \<and>
    unpack_return_message (private_unpack (ref_shmem 0 4000) 0 9500 (the one_comm) (replicate 60 85)) ref_malloc buf =
      Some \<lparr>rm_mtype = 11, rm_server_rank = 3, rm_size = 16, rm_error = -1\<rparr>"
proof -
  have "private_buffer (ref_shmem 0 4000) 0 b (the one_comm) 16 (length (replicate 60 x :: byte list))"
    if "5000 \<le> b" for b x
    using one_comm_rank that by (simp add: private_buffer_def apart_def one_comm_def world_comm_def)
  from plain_reply_round_trip [OF this [of 9000 170] ref_malloc_ok this [of 9500 85] ref_malloc_ok,
      where rm = "\<lparr>rm_mtype = 11, rm_server_rank = 3, rm_size = 0, rm_error = -1\<rparr>" and ss = 0]
  show ?thesis by simp
qed

end
