(* ===== verification/Mpi_Coll.thy ===== *)
theory Mpi_Coll
  imports Mpi_Pack
begin

text \<open>
  The collective operations MPI_Bcast, MPI_Allgather and MPI_Gather of
  \<^verbatim>\<open>src/mpi_to_openshmem.c\<close>, for all processing elements at once.  A call is a sequence of
  phases separated by barriers.  In a phase every processing element runs once, in the order
  the lists \<open>ord1\<close>, \<open>ord2\<close>, \<dots> give; the theorems hold for every order.  Arguments that
  may differ between processing elements are functions of the processing element.  The
  result is \<open>None\<close> when some processing elements return before the first barrier and others
  do not: those wait for ever.
\<close>

section \<open>Phases\<close>

definition collective ::
  "nat \<Rightarrow> (nat \<Rightarrow> i32 option) \<Rightarrow> (gmem \<Rightarrow> gmem) \<Rightarrow> gmem \<Rightarrow> ((nat \<Rightarrow> i32) \<times> gmem) option" where
  "collective npes early body m =
     (if list_all (\<lambda>p. early p = None) [0..<npes] then Some (\<lambda>_. MPI_SUCCESS, body m)
      else if list_all (\<lambda>p. early p \<noteq> None) [0..<npes] then Some (\<lambda>p. the (early p), m)
      else None)"

text \<open>An order in which the processing elements run.\<close>

definition order :: "nat \<Rightarrow> nat list \<Rightarrow> bool" where
  "order npes ord \<longleftrightarrow> distinct ord \<and> set ord = {..<npes}"

definition phase :: "nat list \<Rightarrow> (nat \<Rightarrow> gmem \<Rightarrow> gmem) \<Rightarrow> gmem \<Rightarrow> gmem" where
  "phase ord f m = fold f ord m"

lemma collective_all:
  "(\<And>p. p < npes \<Longrightarrow> early p = None) \<Longrightarrow> collective npes early body m = Some (\<lambda>_. MPI_SUCCESS, body m)"
  by (simp add: collective_def list_all_iff)

lemma order_upt [simp]: "order n [0..<n]"
  by (auto simp: order_def)

lemma phase_local:
  assumes "distinct ord"
  shows "phase ord (\<lambda>p m. m(p := f p (m p))) m = (\<lambda>p. if p \<in> set ord then f p (m p) else m p)"
  using assms unfolding phase_def
proof (induction ord arbitrary: m)
  case Nil
  then show ?case by simp
next
  case (Cons q ord)
  then show ?case by (auto simp: fun_eq_iff)
qed

lemma rd_blocks: "rd m a (n * k) = concat (map (\<lambda>j. rd m (a + j * k) k) [0..<n])"
  by (induction n) (simp_all add: add.commute [of k] rd_add)

section \<open>MPI_Bcast\<close>

text \<open>Before the barrier: a private buffer is copied into the communicator's buffer.  The
  result is \<^verbatim>\<open>createSymSource\<close>, \<^verbatim>\<open>symSource\<close> and \<^verbatim>\<open>destBuffer\<close>.\<close>

definition bcast_bufs :: "shmem_lib \<Rightarrow> nat \<Rightarrow> nat \<Rightarrow> i32 \<Rightarrow> MPI_Datatype \<Rightarrow> MPID_Comm \<Rightarrow> bool \<times> nat \<times> nat" where
  "bcast_bufs L me source count dt c =
     (if \<not> sh_accessible L source me then (True, c_bufferPtr c, fst (GetBufferOffset count dt c))
      else (False, source, c_bufferPtr c))"

definition bcast_stage ::
  "shmem_lib \<Rightarrow> nat \<Rightarrow> nat \<Rightarrow> i32 \<Rightarrow> MPI_Datatype \<Rightarrow> MPID_Comm \<Rightarrow> gmem \<Rightarrow> gmem" where
  "bcast_stage L me source count dt c m =
     (let (createSymSource, symSource, _) = bcast_bufs L me source count dt c
      in if createSymSource then CopyMyData me symSource source count dt m else m)"

definition bcast_finish ::
  "shmem_lib \<Rightarrow> nat \<Rightarrow> nat \<Rightarrow> nat \<Rightarrow> i32 \<Rightarrow> MPI_Datatype \<Rightarrow> MPID_Comm \<Rightarrow> gmem \<Rightarrow> gmem" where
  "bcast_finish L rt me source count dt c m =
     (let (_, _, destBuffer) = bcast_bufs L me source count dt c
      in if me \<noteq> rt then CopyMyData me source destBuffer count dt m else m)"

definition MPI_Bcast ::
  "shmem_lib \<Rightarrow> nat \<Rightarrow> nat list \<Rightarrow> nat list \<Rightarrow> (nat \<Rightarrow> nat) \<Rightarrow> i32 \<Rightarrow> MPI_Datatype \<Rightarrow> nat
     \<Rightarrow> (nat \<Rightarrow> MPI_Comm) \<Rightarrow> gmem \<Rightarrow> ((nat \<Rightarrow> i32) \<times> gmem) option" where
  "MPI_Bcast L npes ord1 ord2 source count dt rt comm =
     collective npes (\<lambda>p. if comm p = None then Some MPI_ERR_COMM else None)
       (\<lambda>m. let c = (\<lambda>p. the (comm p));
                m1 = phase ord1 (\<lambda>p. bcast_stage L p (source p) count dt (c p)) m;
                bufs = (\<lambda>p. bcast_bufs L p (source p) count dt (c p));
                m2 = sh_broadcast64 L npes rt (\<lambda>p. snd (snd (bufs p))) (\<lambda>p. fst (snd (bufs p)))
                       (csize count) m1
            in phase ord2 (\<lambda>p. bcast_finish L rt p (source p) count dt (c p)) m2)"

section \<open>MPI_Allgather\<close>

text \<open>The buffers a gathering call works on: \<^verbatim>\<open>createSymSend\<close> and the send address, and
  \<^verbatim>\<open>createSymRecv\<close> and the receive address.\<close>

definition gather_bufs ::
  "shmem_lib \<Rightarrow> nat \<Rightarrow> nat \<Rightarrow> nat \<Rightarrow> i32 \<Rightarrow> MPI_Datatype \<Rightarrow> MPID_Comm \<Rightarrow> (bool \<times> nat) \<times> (bool \<times> nat)" where
  "gather_bufs L me sendbuf recvbuf sendcount sendtype c =
     (let createSymSend = \<not> sh_accessible L sendbuf me;
          createSymRecv = \<not> sh_accessible L recvbuf me;
          recvBufIndex = (if createSymSend then fst (GetBufferOffset sendcount sendtype c) else 0)
      in ((createSymSend, if createSymSend then c_bufferPtr c else sendbuf),
          (createSymRecv, if createSymRecv then (if recvBufIndex \<noteq> 0 then recvBufIndex else c_bufferPtr c)
                          else recvbuf)))"

definition gather_stage ::
  "shmem_lib \<Rightarrow> nat \<Rightarrow> nat \<Rightarrow> nat \<Rightarrow> i32 \<Rightarrow> MPI_Datatype \<Rightarrow> MPID_Comm \<Rightarrow> gmem \<Rightarrow> gmem" where
  "gather_stage L me sendbuf recvbuf sendcount sendtype c m =
     (let ((createSymSend, symSend), _) = gather_bufs L me sendbuf recvbuf sendcount sendtype c
      in if createSymSend then CopyMyData me symSend sendbuf sendcount sendtype m else m)"

definition gather_early :: "(nat \<Rightarrow> MPI_Comm) \<Rightarrow> (nat \<Rightarrow> nat) \<Rightarrow> (nat \<Rightarrow> nat) \<Rightarrow> nat \<Rightarrow> i32 option" where
  "gather_early comm sendbuf recvbuf p =
     (if comm p = None then Some MPI_ERR_COMM
      else if recvbuf p = 0 \<or> sendbuf p = 0 then Some MPI_ERR_BUFFER else None)"

definition MPI_Allgather ::
  "shmem_lib \<Rightarrow> nat \<Rightarrow> nat list \<Rightarrow> nat list \<Rightarrow> (nat \<Rightarrow> nat) \<Rightarrow> i32 \<Rightarrow> MPI_Datatype \<Rightarrow> (nat \<Rightarrow> nat) \<Rightarrow> MPI_Datatype
     \<Rightarrow> (nat \<Rightarrow> MPI_Comm) \<Rightarrow> gmem \<Rightarrow> ((nat \<Rightarrow> i32) \<times> gmem) option" where
  "MPI_Allgather L npes ord1 ord2 sendbuf sendcount sendtype recvbuf recvtype comm =
     collective npes (gather_early comm sendbuf recvbuf)
       (\<lambda>m. let c = (\<lambda>p. the (comm p));
                m1 = phase ord1 (\<lambda>p. gather_stage L p (sendbuf p) (recvbuf p) sendcount sendtype (c p)) m;
                bufs = (\<lambda>p. gather_bufs L p (sendbuf p) (recvbuf p) sendcount sendtype (c p));
                m2 = sh_fcollect64 L npes (\<lambda>p. snd (snd (bufs p))) (\<lambda>p. snd (fst (bufs p)))
                       (csize sendcount) m1
            in phase ord2 (\<lambda>p m. if fst (snd (bufs p))
                 then CopyMyData p (recvbuf p) (snd (snd (bufs p))) (sendcount * of_nat npes) recvtype m
                 else m) m2)"

section \<open>MPI_Gather\<close>

text \<open>The switch over the datatype, with its four cases for staged buffers.\<close>

definition gather_put ::
  "shmem_lib \<Rightarrow> nat \<Rightarrow> nat \<Rightarrow> i32 \<Rightarrow> MPI_Datatype \<Rightarrow> (bool \<times> nat) \<times> (bool \<times> nat) \<Rightarrow> gmem \<Rightarrow> gmem" where
  "gather_put L rt me sendcount sendtype bufs m =
     (let fn = rma_of_type sendtype;
          target = index_addr (snd (snd bufs)) (sendcount * of_nat me) (rma_size fn)
      in sh_put L fn me target (snd (fst bufs)) (csize sendcount) rt m)"

definition MPI_Gather ::
  "shmem_lib \<Rightarrow> nat \<Rightarrow> nat list \<Rightarrow> nat list \<Rightarrow> nat list \<Rightarrow> (nat \<Rightarrow> nat) \<Rightarrow> i32 \<Rightarrow> MPI_Datatype
     \<Rightarrow> (nat \<Rightarrow> nat) \<Rightarrow> MPI_Datatype \<Rightarrow> nat \<Rightarrow> (nat \<Rightarrow> MPI_Comm) \<Rightarrow> gmem \<Rightarrow> ((nat \<Rightarrow> i32) \<times> gmem) option" where
  "MPI_Gather L npes ord1 ord2 ord3 sendbuf sendcount sendtype recvbuf recvtype rt comm =
     collective npes (gather_early comm sendbuf recvbuf)
       (\<lambda>m. let c = (\<lambda>p. the (comm p));
                m1 = phase ord1 (\<lambda>p. gather_stage L p (sendbuf p) (recvbuf p) sendcount sendtype (c p)) m;
                bufs = (\<lambda>p. gather_bufs L p (sendbuf p) (recvbuf p) sendcount sendtype (c p));
                m2 = phase ord2 (\<lambda>p. gather_put L rt p sendcount sendtype (bufs p)) m1
            in phase ord3 (\<lambda>p m. if p = rt \<and> fst (snd (bufs p))
                 then CopyMyData p (recvbuf p) (snd (snd (bufs p))) (sendcount * of_nat npes) recvtype m
                 else m) m2)"

section \<open>Lemmas\<close>

text \<open>\<open>put_all\<close>: all processing elements write a block of \<open>k\<close> bytes, theirs, to processing
  element \<open>rt\<close>.\<close>

definition put_all :: "nat \<Rightarrow> nat \<Rightarrow> nat \<Rightarrow> (nat \<Rightarrow> nat) \<Rightarrow> nat \<Rightarrow> gmem \<Rightarrow> gmem" where
  "put_all rt a k src p m = m(rt := wr (m rt) (a + p * k) (rd (m p) (src p) k))"

lemma block_apart_nth: "p < n \<Longrightarrow> q < n \<Longrightarrow> p \<noteq> q \<Longrightarrow> a + p * k + k \<le> a + q * k \<or> a + q * k + k \<le> a + p * (k::nat)"
proof (cases "p < q")
  case True
  then have "Suc p * k \<le> q * k" by (intro mult_le_mono1) simp
  then show ?thesis by simp
next
  case False
  assume "p \<noteq> q"
  with False have "Suc q * k \<le> p * k" by (intro mult_le_mono1) simp
  then show ?thesis by simp
qed

lemma block_inside: "p < n \<Longrightarrow> p * k + k \<le> n * (k::nat)"
  using mult_le_mono1 [of "Suc p" n k] by simp

lemma phase_put_all:
  assumes "distinct ord" and "set ord \<subseteq> {..<n}"
    and "\<And>p. p < n \<Longrightarrow> apart (src p) k a (n * k)"
  shows "(\<forall>p \<in> set ord. rd (phase ord (put_all rt a k src) m rt) (a + p * k) k = rd (m p) (src p) k) \<and>
    (\<forall>q. q \<noteq> rt \<longrightarrow> phase ord (put_all rt a k src) m q = m q) \<and>
    (\<forall>b j. apart b j a (n * k) \<longrightarrow> rd (phase ord (put_all rt a k src) m rt) b j = rd (m rt) b j) \<and>
    (\<forall>p < n. p \<notin> set ord \<longrightarrow> rd (phase ord (put_all rt a k src) m rt) (a + p * k) k = rd (m rt) (a + p * k) k)"
  using assms
proof (induction ord arbitrary: m)
  case Nil
  then show ?case by (simp add: phase_def)
next
  case (Cons p ord)
  let ?m = "put_all rt a k src p m" and ?r = "phase (p # ord) (put_all rt a k src) m"
  have run: "?r = phase ord (put_all rt a k src) ?m" by (simp add: phase_def)
  have p: "p < n" "p \<notin> set ord" using Cons.prems by auto
  have mrt: "?m rt = wr (m rt) (a + p * k) (rd (m p) (src p) k)" by (simp add: put_all_def)
  have other: "?m q = m q" if "q \<noteq> rt" for q using that by (simp add: put_all_def)
  have far: "rd (?m rt) b j = rd (m rt) b j" if "apart b j a (n * k)" for b j
    using that block_inside [OF p(1), of k] unfolding mrt apart_def by (intro rd_wr_disjoint) auto
  have block: "rd (?m rt) (a + q * k) k = rd (m rt) (a + q * k) k" if "q < n" "q \<noteq> p" for q
    using block_apart_nth [OF that(1) p(1) that(2)] unfolding mrt by (intro rd_wr_disjoint) simp
  have src: "rd (?m q) (src q) k = rd (m q) (src q) k" if "q < n" for q
    using other far Cons.prems(3) that by (cases "q = rt") auto
  note IH = Cons.IH [of ?m, OF _ _ Cons.prems(3), simplified]
  have ord: "distinct ord" "set ord \<subseteq> {..<n}" using Cons.prems by auto
  show ?case
    unfolding run
  proof (intro conjI ballI allI impI)
    fix q assume q: "q \<in> set (p # ord)"
    then have "q < n" using Cons.prems(2) by auto
    then show "rd (phase ord (put_all rt a k src) ?m rt) (a + q * k) k = rd (m q) (src q) k"
      using IH [OF ord] q p src mrt by (cases "q = p") auto
  next
    fix q assume "q \<noteq> rt"
    then show "phase ord (put_all rt a k src) ?m q = m q" using IH [OF ord] other by simp
  next
    fix b j assume "apart b j a (n * k)"
    then show "rd (phase ord (put_all rt a k src) ?m rt) b j = rd (m rt) b j"
      using IH [OF ord] far by simp
  next
    fix q assume "q < n" "q \<notin> set (p # ord)"
    then show "rd (phase ord (put_all rt a k src) ?m rt) (a + q * k) k = rd (m rt) (a + q * k) k"
      using IH [OF ord] block by simp
  qed
qed

lemma phase_put_all_blocks:
  assumes "order n ord" and "\<And>p. p < n \<Longrightarrow> apart (src p) k a (n * k)"
  shows "rd (phase ord (put_all rt a k src) m rt) a (n * k) =
    concat (map (\<lambda>p. rd (m p) (src p) k) [0..<n])"
proof -
  have "distinct ord" "set ord \<subseteq> {..<n}" using assms(1) by (auto simp: order_def)
  from phase_put_all [OF this assms(2), where rt = rt and m = m]
  have "rd (phase ord (put_all rt a k src) m rt) (a + p * k) k = rd (m p) (src p) k" if "p < n" for p
    using that assms(1) by (simp add: order_def)
  then show ?thesis
    unfolding rd_blocks by (intro arg_cong [of _ _ concat] map_cong) simp_all
qed

text \<open>All processing elements hold the same communicator, with its buffer at the symmetric
  address \<open>B\<close> (no code of the repository moves the offset from 0).\<close>

definition shared_comm :: "nat \<Rightarrow> (nat \<Rightarrow> MPI_Comm) \<Rightarrow> nat \<Rightarrow> bool" where
  "shared_comm npes comm B \<longleftrightarrow> 0 < B \<and>
     (\<forall>p < npes. \<exists>c. comm p = Some c \<and> c_bufferPtr c = B \<and> c_offset c = 0)"

text \<open>A buffer argument that is in symmetric memory on all processing elements or on none.\<close>

definition same_side :: "shmem_lib \<Rightarrow> nat \<Rightarrow> (nat \<Rightarrow> nat) \<Rightarrow> bool \<Rightarrow> bool" where
  "same_side L npes buf b \<longleftrightarrow> (\<forall>p < npes. sh_accessible L (buf p) p = b)"

lemma shared_commD:
  assumes "shared_comm npes comm B" and "p < npes"
  shows "comm p = Some (the (comm p))" and "c_bufferPtr (the (comm p)) = B" and "c_offset (the (comm p)) = 0"
  using assms by (force simp: shared_comm_def)+

lemma order_set: "order n ord \<Longrightarrow> p \<in> set ord \<longleftrightarrow> p < n" and order_distinct: "order n ord \<Longrightarrow> distinct ord"
  by (auto simp: order_def)

lemma phase_cong: "(\<And>p m. p \<in> set ord \<Longrightarrow> f p m = g p m) \<Longrightarrow> phase ord f m = phase ord g m"
  unfolding phase_def by (rule fold_cong) auto

lemma phase_order_local:
  assumes "order n ord" and "\<And>p m. p < n \<Longrightarrow> f p m = m(p := g p (m p))"
  shows "phase ord f m = (\<lambda>p. if p < n then g p (m p) else m p)"
proof -
  have "phase ord f m = phase ord (\<lambda>p m. m(p := g p (m p))) m"
    using assms by (intro phase_cong) (simp add: order_set)
  then show ?thesis
    using phase_local [OF order_distinct [OF assms(1)]] assms(1) by (simp add: order_set)
qed

lemma gather_bufs_of_nat:
  assumes "n * elem_size dt < 2147483648" and "c_bufferPtr c = B" and "c_offset c = 0" and "0 < B"
  shows "gather_bufs L me sb rb (of_nat n) dt c =
    ((\<not> sh_accessible L sb me, if sh_accessible L sb me then sb else B),
     (\<not> sh_accessible L rb me,
      if sh_accessible L rb me then rb else if sh_accessible L sb me then B else B + n * elem_size dt))"
  using assms by (simp add: gather_bufs_def Let_def GetBufferOffset_of_nat)

lemma gather_stage_of_nat:
  assumes "n * elem_size dt < 2147483648" and "c_bufferPtr c = B" and "c_offset c = 0" and "0 < B"
  shows "gather_stage L me sb rb (of_nat n) dt c m =
    m(me := (if sh_accessible L sb me then m me else wr (m me) B (rd (m me) sb (n * elem_size dt))))"
  using assms by (simp add: gather_stage_def gather_bufs_of_nat CopyMyData_of_nat)

text \<open>The first phase of a gathering call leaves every block to send in place.\<close>

lemma gather_phase1:
  fixes m :: gmem and rb :: "nat \<Rightarrow> nat"
  assumes ord: "order npes ord" and comm: "shared_comm npes comm B" and side: "same_side L npes sb b"
    and n: "n * elem_size dt < 2147483648"
  defines "m1 \<equiv> phase ord (\<lambda>p. gather_stage L p (sb p) (rb p) (of_nat n) dt (the (comm p))) m"
  shows "m1 = (\<lambda>p. if p < npes \<and> \<not> b then wr (m p) B (rd (m p) (sb p) (n * elem_size dt)) else m p)"
    and "p < npes \<Longrightarrow> rd (m1 p) (if b then sb p else B) (n * elem_size dt) = rd (m p) (sb p) (n * elem_size dt)"
proof -
  have B: "0 < B" using comm by (simp add: shared_comm_def)
  have "m1 = (\<lambda>p. if p < npes then if b then m p else wr (m p) B (rd (m p) (sb p) (n * elem_size dt)) else m p)"
    unfolding m1_def
    using side shared_commD [OF comm] gather_stage_of_nat [OF n _ _ B]
    by (intro phase_order_local [OF ord, of _ "\<lambda>p mp. if b then mp else wr mp B (rd mp (sb p) (n * elem_size dt))"])
      (simp add: same_side_def)
  then show m1: "m1 = (\<lambda>p. if p < npes \<and> \<not> b then wr (m p) B (rd (m p) (sb p) (n * elem_size dt)) else m p)"
    by (auto simp: fun_eq_iff)
  show "rd (m1 p) (if b then sb p else B) (n * elem_size dt) = rd (m p) (sb p) (n * elem_size dt)"
    if "p < npes"
    using that by (simp add: m1)
qed

text \<open>MPI_Allgather when no early return is taken: what the 64-bit collect leaves in the
  receive buffer of every processing element.\<close>

lemma MPI_Allgather_run:
  assumes lib: "shmem_documented L" and ords: "order npes ord1" "order npes ord2"
    and comm: "shared_comm npes comm B" and side: "same_side L npes sb bs" "same_side L npes rb br"
    and ptr: "\<forall>p < npes. 0 < sb p \<and> 0 < rb p" and bound: "n * elem_size dt * npes < 2147483648"
    and pos: "0 < npes"
    and args: "fcollect_args L npes (\<lambda>p. if br then rb p else if bs then B else B + n * elem_size dt) (\<lambda>p. if bs then sb p else B) n"
  defines "src \<equiv> \<lambda>p. if bs then sb p else B"
    and "T \<equiv> \<lambda>p. if br then rb p else if bs then B else B + n * elem_size dt"
  shows "\<exists>m1 m'. MPI_Allgather L npes ord1 ord2 sb (of_nat n) dt rb dt comm m = Some (\<lambda>_. MPI_SUCCESS, m') \<and>
    m1 = (\<lambda>p. if p < npes \<and> \<not> bs then wr (m p) B (rd (m p) (sb p) (n * elem_size dt)) else m p) \<and>
    (\<forall>q < npes. m' q =
      (let x = wr (m1 q) (T q) (concat (map (\<lambda>j. rd (m1 j) (src j) (8 * n)) [0..<npes]))
       in if br then x else wr x (rb q) (rd x (T q) (n * elem_size dt * npes))))"
proof -
  let ?k = "n * elem_size dt"
  have "?k * 1 \<le> ?k * npes" using pos by (intro mult_le_mono2) simp
  then have k: "?k < 2147483648" using bound by (simp only: mult_1_right)
  have B: "0 < B" using comm by (simp add: shared_comm_def)
  define m1 where "m1 = phase ord1 (\<lambda>p. gather_stage L p (sb p) (rb p) (of_nat n) dt (the (comm p))) m"
  note m1 = gather_phase1(1) [OF ords(1) comm side(1) k, where rb = rb and m = m, folded m1_def]
  define bufs where "bufs = (\<lambda>p. gather_bufs L p (sb p) (rb p) (of_nat n) dt (the (comm p)))"
  have bufs: "bufs p = ((\<not> bs, src p), (\<not> br, T p))" if "p < npes" for p
    using that side shared_commD [OF comm that] gather_bufs_of_nat [OF k _ _ B]
    by (simp add: bufs_def same_side_def src_def T_def)
  define m2 where "m2 = sh_fcollect64 L npes (\<lambda>p. snd (snd (bufs p))) (\<lambda>p. snd (fst (bufs p))) (csize (of_nat n)) m1"
  have "concat (map (\<lambda>j. rd (m1 j) (snd (fst (bufs j))) (8 * n)) [0..<npes]) =
      concat (map (\<lambda>j. rd (m1 j) (src j) (8 * n)) [0..<npes])"
    by (intro arg_cong [of _ _ concat] map_cong refl) (simp add: bufs)
  moreover have "fcollect_args L npes (\<lambda>p. snd (snd (bufs p))) (\<lambda>p. snd (fst (bufs p))) n"
    using args bufs by (simp add: fcollect_args_def symmetric_args_def src_def T_def)
  ultimately have m2: "m2 q = wr (m1 q) (T q) (concat (map (\<lambda>j. rd (m1 j) (src j) (8 * n)) [0..<npes]))" if "q < npes" for q
    unfolding m2_def using es_bound [OF k] that
    by (simp add: shmem.fcollect [OF shmem.intro [OF lib]] doc_fcollect64_def bufs)
  define m3 where "m3 = phase ord2 (\<lambda>p x. if fst (snd (bufs p))
      then CopyMyData p (rb p) (snd (snd (bufs p))) (of_nat n * of_nat npes) dt x else x) m2"
  have "(of_nat n * of_nat npes :: i32) = of_nat (n * npes)" by simp
  then have "CopyMyData p (rb p) (T p) (of_nat n * of_nat npes) dt x =
      x(p := wr (x p) (rb p) (rd (x p) (T p) (?k * npes)))" for p x
    using CopyMyData_of_nat [of "n * npes" dt p "rb p" "T p" x] bound by (simp add: ac_simps del: of_nat_mult)
  then have "m3 = (\<lambda>p. if p < npes then if br then m2 p else wr (m2 p) (rb p) (rd (m2 p) (T p) (?k * npes)) else m2 p)"
    unfolding m3_def using bufs
    by (intro phase_order_local [OF ords(2), of _ "\<lambda>p x. if br then x else wr x (rb p) (rd x (T p) (?k * npes))"])
      simp
  moreover have "MPI_Allgather L npes ord1 ord2 sb (of_nat n) dt rb dt comm m = Some (\<lambda>_. MPI_SUCCESS, m3)"
    unfolding MPI_Allgather_def m3_def m2_def m1_def bufs_def Let_def using ptr shared_commD(1) [OF comm]
    by (subst collective_all) (auto simp: gather_early_def)
  ultimately show ?thesis using m1 m2 by (auto simp: Let_def)
qed

text \<open>The block a processing element sends never overlaps the place where blocks arrive.\<close>

lemma apart_staged:
  "apart s k B (k + K) \<Longrightarrow> apart s k R K \<Longrightarrow> apart R K B (k + K) \<Longrightarrow>
   apart (if bs then s else B) k (if br then R else if bs then B else B + k) K"
  by (auto simp: apart_def)

section \<open>Properties\<close>

text \<open>C28.  MPI_Gather of \<open>n\<close> elements per processing element, with every buffer either in
  symmetric memory or staged through the communicator's buffer: in whatever order the
  processing elements run, every one of them returns success and the root's receive buffer
  holds the blocks in the order of the processing elements.\<close>

theorem MPI_Gather_delivers:
  assumes lib: "shmem_documented L" and ords: "order npes ord1" "order npes ord2" "order npes ord3"
    and rt: "rt < npes" and comm: "shared_comm npes comm B"
    and side: "same_side L npes sb bs" "same_side L npes rb br"
    and ptr: "\<forall>p < npes. 0 < sb p \<and> 0 < rb p" and sym: "br \<Longrightarrow> \<forall>p < npes. rb p = rb rt"
    and bound: "n * elem_size dt * npes < 2147483648"
    and apart: "\<forall>p < npes. apart (sb p) (n * elem_size dt) B (n * elem_size dt * Suc npes)"
      "\<forall>p < npes. apart (sb p) (n * elem_size dt) (rb rt) (n * elem_size dt * npes)"
      "apart (rb rt) (n * elem_size dt * npes) B (n * elem_size dt * Suc npes)"
  shows "\<exists>m'. MPI_Gather L npes ord1 ord2 ord3 sb (of_nat n) dt rb dt rt comm m = Some (\<lambda>_. MPI_SUCCESS, m') \<and>
    rd (m' rt) (rb rt) (n * elem_size dt * npes) =
      concat (map (\<lambda>p. rd (m p) (sb p) (n * elem_size dt)) [0..<npes])"
proof -
  let ?k = "n * elem_size dt"
  have "?k * 1 \<le> ?k * npes" using rt by (intro mult_le_mono2) simp
  then have k: "?k < 2147483648" using bound by (simp only: mult_1_right)
  have B: "0 < B" using comm by (simp add: shared_comm_def)
  define T where "T = (if br then rb rt else if bs then B else B + ?k)"
  define src where "src p = (if bs then sb p else B)" for p
  define m1 where "m1 = phase ord1 (\<lambda>p. gather_stage L p (sb p) (rb p) (of_nat n) dt (the (comm p))) m"
  note p1 = gather_phase1 [OF ords(1) comm side(1) k, where rb = rb and m = m, folded m1_def]
  define bufs where "bufs = (\<lambda>p. gather_bufs L p (sb p) (rb p) (of_nat n) dt (the (comm p)))"
  have bufs: "bufs p = ((\<not> bs, src p), (\<not> br, T))" if "p < npes" for p
    using that side sym shared_commD [OF comm that] gather_bufs_of_nat [OF k _ _ B]
    by (simp add: bufs_def same_side_def src_def T_def)
  define m2 where "m2 = phase ord2 (\<lambda>p. gather_put L rt p (of_nat n) dt (bufs p)) m1"
  have "gather_put L rt p (of_nat n) dt (bufs p) x = put_all rt T ?k src p x" if "p < npes" for p x
  proof -
    have "n * p \<le> n * npes" using that by simp
    moreover have "n * npes < 2147483648"
      using es_bound [of "n * npes" dt] bound by (simp add: ac_simps)
    ultimately have "n * p < 2147483648" by linarith
    then show ?thesis
      using es_bound [OF k] index_addr_of_nat [of "n * p"] shmem.put_typed [OF shmem.intro [OF lib]]
      by (simp add: gather_put_def Let_def bufs [OF that] put_all_def ac_simps)
  qed
  then have m2: "m2 = phase ord2 (put_all rt T ?k src) m1"
    unfolding m2_def using ords(2) by (intro phase_cong) (simp add: order_set)
  have "apart (src p) ?k T (npes * ?k)" if "p < npes" for p
    using apart that unfolding src_def T_def mult.commute [of npes]
    by (intro apart_staged) (simp_all only: mult_Suc_right)
  then have "rd (m2 rt) T (npes * ?k) = concat (map (\<lambda>p. rd (m1 p) (src p) ?k) [0..<npes])"
    unfolding m2 by (rule phase_put_all_blocks [OF ords(2)])
  moreover have "map (\<lambda>p. rd (m1 p) (src p) ?k) [0..<npes] = map (\<lambda>p. rd (m p) (sb p) ?k) [0..<npes]"
    unfolding src_def by (intro map_cong refl p1(2)) simp
  ultimately have blocks: "rd (m2 rt) T (?k * npes) = concat (map (\<lambda>p. rd (m p) (sb p) ?k) [0..<npes])"
    by (simp only: mult.commute [of npes])
  define m3 where "m3 = phase ord3 (\<lambda>p x. if p = rt \<and> fst (snd (bufs p))
      then CopyMyData p (rb p) (snd (snd (bufs p))) (of_nat n * of_nat npes) dt x else x) m2"
  have "(of_nat n * of_nat npes :: i32) = of_nat (n * npes)" by simp
  then have "CopyMyData rt (rb rt) T (of_nat n * of_nat npes) dt x =
      x(rt := wr (x rt) (rb rt) (rd (x rt) T (?k * npes)))" for x
    using CopyMyData_of_nat [of "n * npes" dt rt "rb rt" T x] bound by (simp add: ac_simps del: of_nat_mult)
  then have "m3 = (\<lambda>p. if p < npes then if p = rt \<and> \<not> br then wr (m2 p) (rb rt) (rd (m2 p) T (?k * npes))
      else m2 p else m2 p)"
    unfolding m3_def using bufs rt
    by (intro phase_order_local [OF ords(3), of _ "\<lambda>p x. if p = rt \<and> \<not> br then wr x (rb rt) (rd x T (?k * npes))
      else x"]) simp
  then have "rd (m3 rt) (rb rt) (?k * npes) = concat (map (\<lambda>p. rd (m p) (sb p) ?k) [0..<npes])"
    using blocks rt by (auto simp: T_def)
  moreover have "MPI_Gather L npes ord1 ord2 ord3 sb (of_nat n) dt rb dt rt comm m = Some (\<lambda>_. MPI_SUCCESS, m3)"
    unfolding MPI_Gather_def m3_def m2_def m1_def bufs_def Let_def using ptr shared_commD(1) [OF comm]
    by (subst collective_all) (auto simp: gather_early_def)
  ultimately show ?thesis by blast
qed

theorem MPI_Gather_delivers_witness:
  "\<exists>m'. MPI_Gather (ref_shmem 0 4000) 2 [1, 0] [1, 0] [0, 1] (\<lambda>_. 9000) 2 MPI_INT (\<lambda>_. 9100) MPI_INT 1
      (\<lambda>p. Some (world_comm 2 p 0 1000 2000 3000 6)) (\<lambda>p a. 5 + of_nat p) = Some (\<lambda>_. MPI_SUCCESS, m') \<and>
    rd (m' 1) 9100 16 = rd (\<lambda>_. 5) 9000 8 @ rd (\<lambda>_. 6) 9000 8"
proof -
  have sz: "elem_size MPI_INT = 4" by (simp add: elem_size_def GetNumBytes_def mpi_types)
  have ord: "order 2 [1, 0]" "order 2 [0, 1]" by (auto simp: order_def)
  have upt2: "[0..<2] = [0, 1::nat]" by (simp add: upt_rec)
  have "shared_comm 2 (\<lambda>p. Some (world_comm 2 p 0 1000 2000 3000 6)) 1000"
    by (simp add: shared_comm_def world_comm_def)
  moreover have "same_side (ref_shmem 0 4000) 2 (\<lambda>_. 9000) False" "same_side (ref_shmem 0 4000) 2 (\<lambda>_. 9100) False"
    by (simp_all add: same_side_def)
  ultimately have "\<exists>m'. MPI_Gather (ref_shmem 0 4000) 2 [1, 0] [1, 0] [0, 1] (\<lambda>_. 9000) (of_nat 2) MPI_INT (\<lambda>_. 9100)
      MPI_INT 1 (\<lambda>p. Some (world_comm 2 p 0 1000 2000 3000 6)) (\<lambda>p a. 5 + of_nat p) = Some (\<lambda>_. MPI_SUCCESS, m') \<and>
    rd (m' 1) 9100 (2 * elem_size MPI_INT * 2) =
      concat (map (\<lambda>p. rd (\<lambda>a. 5 + of_nat p) 9000 (2 * elem_size MPI_INT)) [0..<2])"
    using MPI_Gather_delivers [OF ref_shmem_documented ord(1) ord(1) ord(2), of 1 _ 1000 0 4000 "\<lambda>_. 9000" False
        "\<lambda>_. 9100" False 2 MPI_INT "\<lambda>p a. 5 + of_nat p"]
    by (simp add: sz apart_def)
  then show ?thesis by (simp add: sz upt2)
qed

text \<open>MPI_Bcast of \<open>n\<close> elements of at most 8 bytes each: in whatever order the
  processing elements run, every one of them returns success and afterwards has in its buffer
  what the root had, provided the staging buffer of the communicator has room for \<open>n\<close> 64-bit
  words behind the data (the code always broadcasts \<open>n\<close> 64-bit words).\<close>

theorem MPI_Bcast_delivers:
  assumes lib: "shmem_documented L" and ords: "order npes ord1" "order npes ord2" and rt: "rt < npes"
    and comm: "shared_comm npes comm B" and side: "same_side L npes sb b" and same: "b \<Longrightarrow> \<forall>p < npes. sb p = S"
    and staging: "\<forall>p < npes. sh_accessible L B p \<and> sh_accessible L (B + n * elem_size dt) p"
    and bound: "n * elem_size dt < 2147483648" and size: "elem_size dt \<le> 8"
    and apart: "\<forall>p < npes. apart (sb p) (n * elem_size dt) B (n * elem_size dt + n * 8)"
  shows "\<exists>m'. MPI_Bcast L npes ord1 ord2 sb (of_nat n) dt rt comm m = Some (\<lambda>_. MPI_SUCCESS, m') \<and>
    (\<forall>p < npes. rd (m' p) (sb p) (n * elem_size dt) = rd (m rt) (sb rt) (n * elem_size dt))"
proof -
  let ?k = "n * elem_size dt"
  have k: "?k \<le> 8 * n" using size by (simp add: mult.commute)
  define src where "src p = (if b then sb p else B)" for p
  define dst where "dst = (if b then B else B + ?k)"
  define bufs where "bufs = (\<lambda>p. bcast_bufs L p (sb p) (of_nat n) dt (the (comm p)))"
  have bufs: "bufs p = (\<not> b, src p, dst)" if "p < npes" for p
    using that side shared_commD [OF comm that] GetBufferOffset_of_nat [OF bound]
    by (simp add: bufs_def bcast_bufs_def same_side_def src_def dst_def)
  define m1 where "m1 = phase ord1 (\<lambda>p. bcast_stage L p (sb p) (of_nat n) dt (the (comm p))) m"
  have m1: "m1 = (\<lambda>p. if p < npes then if b then m p else wr (m p) B (rd (m p) (sb p) ?k) else m p)"
    unfolding m1_def using bufs CopyMyData_of_nat [OF bound]
    by (intro phase_order_local [OF ords(1), of _ "\<lambda>p x. if b then x else wr x B (rd x (sb p) ?k)"])
      (simp add: bcast_stage_def bufs_def src_def Let_def)
  define m2 where "m2 = sh_broadcast64 L npes rt (\<lambda>p. snd (snd (bufs p))) (\<lambda>p. fst (snd (bufs p))) n m1"
  have m2: "m2 p = (if p \<noteq> rt then wr (m1 p) dst (rd (m1 rt) (src rt) (8 * n)) else m1 p)" if "p < npes" for p
  proof -
    have "symmetric_args L npes (\<lambda>p. snd (snd (bufs p))) (\<lambda>p. fst (snd (bufs p))) dst (if b then S else B)"
      using bufs side same staging by (cases b) (simp_all add: symmetric_args_def src_def dst_def same_side_def)
    from shmem.broadcast [OF shmem.intro [OF lib] this, of rt n m1] show ?thesis
      using that rt by (simp add: m2_def doc_broadcast64_def bufs)
  qed
  define m3 where "m3 = phase ord2 (\<lambda>p. bcast_finish L rt p (sb p) (of_nat n) dt (the (comm p))) m2"
  have m3: "m3 = (\<lambda>p. if p < npes then if p \<noteq> rt then wr (m2 p) (sb p) (rd (m2 p) dst ?k) else m2 p else m2 p)"
    unfolding m3_def using bufs CopyMyData_of_nat [OF bound]
    by (intro phase_order_local [OF ords(2), of _ "\<lambda>p x. if p \<noteq> rt then wr x (sb p) (rd x dst ?k) else x"])
      (simp add: bcast_finish_def bufs_def Let_def)
  have root: "rd (m1 rt) (src rt) ?k = rd (m rt) (sb rt) ?k" using rt by (simp add: m1 src_def)
  have "rd (m1 rt) (sb rt) ?k = rd (m rt) (sb rt) ?k"
    using rt apart by (auto simp: m1 apart_def intro!: rd_wr_disjoint)
  moreover have "rd (m2 p) dst ?k = rd (m rt) (sb rt) ?k" if "p < npes" "p \<noteq> rt" for p
    using that root k by (simp add: m2 rd_wr_within)
  ultimately have "\<forall>p < npes. rd (m3 p) (sb p) ?k = rd (m rt) (sb rt) ?k"
    by (simp add: m3 m2)
  moreover have "MPI_Bcast L npes ord1 ord2 sb (of_nat n) dt rt comm m = Some (\<lambda>_. MPI_SUCCESS, m3)"
    unfolding MPI_Bcast_def using shared_commD(1) [OF comm] es_bound [OF bound]
    by (subst collective_all) (auto simp: m3_def m2_def m1_def bufs_def Let_def)
  ultimately show ?thesis by blast
qed

theorem MPI_Bcast_delivers_witness:
  "\<exists>m'. MPI_Bcast (ref_shmem 0 4000) 2 [1, 0] [0, 1] (\<lambda>_. 9000) 3 MPI_LONG 1
      (\<lambda>p. Some (world_comm 2 p 0 1000 2000 3000 6)) (\<lambda>p a. of_nat (a + p)) = Some (\<lambda>_. MPI_SUCCESS, m') \<and>
    rd (m' 0) 9000 24 = rd (\<lambda>a. of_nat (a + 1)) 9000 24"
proof -
  have sz: "elem_size MPI_LONG = 8" by (simp add: elem_size_def GetNumBytes_def mpi_types)
  have ord: "order 2 [1, 0]" "order 2 [0, 1]" by (auto simp: order_def)
  have "shared_comm 2 (\<lambda>p. Some (world_comm 2 p 0 1000 2000 3000 6)) 1000"
    by (simp add: shared_comm_def world_comm_def)
  moreover have "same_side (ref_shmem 0 4000) 2 (\<lambda>_. 9000) False" by (simp add: same_side_def)
  ultimately have "\<exists>m'. MPI_Bcast (ref_shmem 0 4000) 2 [1, 0] [0, 1] (\<lambda>_. 9000) (of_nat 3) MPI_LONG 1
      (\<lambda>p. Some (world_comm 2 p 0 1000 2000 3000 6)) (\<lambda>p a. of_nat (a + p)) = Some (\<lambda>_. MPI_SUCCESS, m') \<and>
    (\<forall>p < 2. rd (m' p) 9000 (3 * elem_size MPI_LONG) = rd (\<lambda>a. of_nat (a + 1)) 9000 (3 * elem_size MPI_LONG))"
    using MPI_Bcast_delivers [OF ref_shmem_documented ord, where sb = "\<lambda>_. 9000" and b = False and rt = 1 and B = 1000
        and n = 3 and dt = MPI_LONG and m = "\<lambda>p a. of_nat (a + p)"]
    by (simp add: sz apart_def)
  then show ?thesis by (auto simp: sz)
qed

text \<open>C29.  MPI_Allgather of \<open>n\<close> 8-byte elements per processing element, in symmetric buffers (at the same addresses
  everywhere) or staged through the communicator's symmetric buffer, when none of these areas overlap: in whatever
  order the processing elements run, every one of them returns success and receives the blocks of all in order.\<close>

theorem MPI_Allgather_delivers:
  assumes lib: "shmem_documented L" and ords: "order npes ord1" "order npes ord2" and pos: "0 < npes"
    and comm: "shared_comm npes comm B" and side: "same_side L npes sb bs" "same_side L npes rb br"
    and ptr: "\<forall>p < npes. 0 < sb p \<and> 0 < rb p" and size: "elem_size dt = 8"
    and bound: "n * 8 * npes < 2147483648"
    and same: "bs \<Longrightarrow> \<forall>p < npes. sb p = S" "br \<Longrightarrow> \<forall>p < npes. rb p = R"
    and staging: "\<forall>p < npes. sh_accessible L B p \<and> sh_accessible L (B + n * 8) p"
    and apart: "bs \<Longrightarrow> br \<Longrightarrow> apart S (n * 8) R (n * 8 * npes)" "bs \<Longrightarrow> \<not> br \<Longrightarrow> apart S (n * 8) B (n * 8 * npes)"
      "\<not> bs \<Longrightarrow> br \<Longrightarrow> apart R (n * 8 * npes) B (n * 8)"
  shows "\<exists>m'. MPI_Allgather L npes ord1 ord2 sb (of_nat n) dt rb dt comm m = Some (\<lambda>_. MPI_SUCCESS, m') \<and>
    (\<forall>q < npes. rd (m' q) (rb q) (n * 8 * npes) = concat (map (\<lambda>p. rd (m p) (sb p) (n * 8)) [0..<npes]))"
proof -
  let ?d = "if br then R else if bs then B else B + n * 8" and ?s = "if bs then S else B"
  have "symmetric_args L npes (\<lambda>p. if br then rb p else if bs then B else B + n * 8) (\<lambda>p. if bs then sb p else B) ?d ?s"
    using side same staging by (cases bs; cases br) (simp_all add: symmetric_args_def same_side_def)
  moreover have "?d + 8 * n * npes \<le> ?s \<or> ?s + 8 * n \<le> ?d"
    using apart by (cases bs; cases br) (auto simp: apart_def mult.commute [of 8])
  ultimately have args: "fcollect_args L npes (\<lambda>p. if br then rb p else if bs then B else B + n * elem_size dt) (\<lambda>p. if bs then sb p else B) n"
    unfolding fcollect_args_def size by blast
  obtain m1 m' where run: "MPI_Allgather L npes ord1 ord2 sb (of_nat n) dt rb dt comm m = Some (\<lambda>_. MPI_SUCCESS, m')"
    and m1: "m1 = (\<lambda>p. if p < npes \<and> \<not> bs then wr (m p) B (rd (m p) (sb p) (n * 8)) else m p)"
    and m': "\<forall>q < npes. m' q = (let x = wr (m1 q) (if br then rb q else if bs then B else B + n * 8)
        (concat (map (\<lambda>j. rd (m1 j) (if bs then sb j else B) (8 * n)) [0..<npes]))
       in if br then x else wr x (rb q) (rd x (if br then rb q else if bs then B else B + n * 8) (n * 8 * npes)))"
    using MPI_Allgather_run [OF lib ords comm side ptr _ pos args, of m] bound unfolding size by blast
  define D where "D = concat (map (\<lambda>p. rd (m p) (sb p) (n * 8)) [0..<npes])"
  have "concat (map (\<lambda>j. rd (m1 j) (if bs then sb j else B) (8 * n)) [0..<npes]) = D"
    unfolding D_def by (intro arg_cong [of _ _ concat] map_cong refl) (simp add: m1 mult.commute [of 8])
  moreover have "length D = n * 8 * npes" by (simp add: D_def length_concat comp_def sum_list_triv)
  ultimately have "rd (m' q) (rb q) (n * 8 * npes) = D" if "q < npes" for q
    using m' that by (cases br; cases bs) (simp_all add: Let_def)
  with run show ?thesis unfolding D_def by blast
qed

theorem MPI_Allgather_delivers_witness:
  "\<exists>m'. MPI_Allgather (ref_shmem 0 4000) 2 [1, 0] [0, 1] (\<lambda>_. 9000) (of_nat 2) MPI_LONG (\<lambda>_. 9100) MPI_LONG
      (\<lambda>p. Some (world_comm 2 p 0 1000 2000 3000 6)) (\<lambda>p a. 5 + of_nat p) = Some (\<lambda>_. MPI_SUCCESS, m') \<and>
    (\<forall>q < 2. rd (m' q) 9100 32 = rd (\<lambda>_. 5) 9000 16 @ rd (\<lambda>_. 6) 9000 16)"
proof -
  have sz: "elem_size MPI_LONG = 8" by (simp add: elem_size_def GetNumBytes_def mpi_types)
  have ord: "order 2 [1, 0]" "order 2 [0, 1]" by (auto simp: order_def)
  have upt2: "[0..<2] = [0, 1::nat]" by (simp add: upt_rec)
  have comm: "shared_comm 2 (\<lambda>p. Some (world_comm 2 p 0 1000 2000 3000 6)) 1000"
    by (simp add: shared_comm_def world_comm_def)
  have side: "same_side (ref_shmem 0 4000) 2 (\<lambda>_. 9000) False" "same_side (ref_shmem 0 4000) 2 (\<lambda>_. 9100) False"
    by (simp_all add: same_side_def)
  show ?thesis
    using MPI_Allgather_delivers [OF ref_shmem_documented ord _ comm side _ sz, where n = 2
        and m = "\<lambda>p a. 5 + of_nat p"]
    by (simp add: upt2)
qed

text \<open>C39.  For element types of at most 4 bytes MPI_Allgather is wrong: it reports success, but
  where the block of processing element 1 belongs, every receive buffer holds the bytes that
  lie behind processing element 0's send buffer.\<close>

theorem MPI_Allgather_small_types:
  assumes lib: "shmem_documented L" and ords: "order npes ord1" "order npes ord2" and npes: "1 < npes"
    and comm: "shared_comm npes comm B" and side: "same_side L npes sb True" "same_side L npes rb True"
    and ptr: "\<forall>p < npes. 0 < sb p \<and> 0 < rb p" and size: "elem_size dt \<le> 4"
    and bound: "n * elem_size dt * npes < 2147483648"
    and same: "\<forall>p < npes. sb p = S \<and> rb p = R" and apart: "apart S (8 * n) R (8 * n * npes)"
  shows "\<exists>m'. MPI_Allgather L npes ord1 ord2 sb (of_nat n) dt rb dt comm m = Some (\<lambda>_. MPI_SUCCESS, m') \<and>
    (\<forall>q < npes. rd (m' q) (rb q + n * elem_size dt) (n * elem_size dt) =
       rd (m 0) (sb 0 + n * elem_size dt) (n * elem_size dt))"
proof -
  let ?k = "n * elem_size dt"
  have pos: "0 < npes" using npes by simp
  have args: "fcollect_args L npes (\<lambda>p. if True then rb p else if True then B else B + n * elem_size dt) (\<lambda>p. if True then sb p else B) n"
    unfolding fcollect_args_def symmetric_args_def
    by (rule exI [of _ R], rule exI [of _ S]) (use side same apart in \<open>auto simp: same_side_def apart_def\<close>)
  obtain m' where run: "MPI_Allgather L npes ord1 ord2 sb (of_nat n) dt rb dt comm m = Some (\<lambda>_. MPI_SUCCESS, m')"
    and m': "\<forall>q < npes. m' q = wr (m q) (rb q) (concat (map (\<lambda>j. rd (m j) (sb j) (8 * n)) [0..<npes]))"
    using MPI_Allgather_run [OF lib ords comm side ptr bound pos args, of m] by auto
  have "[0..<npes] = 0 # [1..<npes]" using npes by (simp add: upt_conv_Cons)
  then have c: "concat (map (\<lambda>j. rd (m j) (sb j) (8 * n)) [0..<npes]) =
      rd (m 0) (sb 0) (8 * n) @ concat (map (\<lambda>j. rd (m j) (sb j) (8 * n)) [1..<npes])" by simp
  have k: "?k + ?k \<le> 8 * n" using mult_le_mono2 [OF size, of n] by linarith
  have "rd (m' q) (rb q + ?k) ?k = rd (m 0) (sb 0 + ?k) ?k" if "q < npes" for q
  proof -
    have "take ?k (drop ?k (rd (m 0) (sb 0) (8 * n))) = rd (m 0) (sb 0 + ?k) ?k"
      using k by (subst drop_rd, linarith, subst take_rd) (linarith, rule refl)
    then show ?thesis using m' that k by (simp add: c rd_wr_within)
  qed
  with run show ?thesis by blast
qed

theorem MPI_Allgather_small_types_witness:
  "\<exists>m'. MPI_Allgather (ref_shmem 0 4000) 2 [1, 0] [0, 1] (\<lambda>_. 2000) (of_nat 1) MPI_INT (\<lambda>_. 2100) MPI_INT
      (\<lambda>p. Some (world_comm 2 p 0 1000 2000 3000 6)) (\<lambda>p a. 5 + of_nat p) = Some (\<lambda>_. MPI_SUCCESS, m') \<and>
    rd (m' 1) 2104 4 = [5, 5, 5, 5]"
proof -
  have sz: "elem_size MPI_INT = 4" by (simp add: elem_size_def GetNumBytes_def mpi_types)
  have ord: "order 2 [1, 0]" "order 2 [0, 1]" by (auto simp: order_def)
  have comm: "shared_comm 2 (\<lambda>p. Some (world_comm 2 p 0 1000 2000 3000 6)) 1000"
    by (simp add: shared_comm_def world_comm_def)
  have side: "same_side (ref_shmem 0 4000) 2 (\<lambda>_. 2000) True" "same_side (ref_shmem 0 4000) 2 (\<lambda>_. 2100) True"
    by (simp_all add: same_side_def)
  have "rd (\<lambda>_. 5) 2004 4 = [5, 5, 5, 5]" by (simp add: rd_def upt_rec)
  then show ?thesis
    using MPI_Allgather_small_types [OF ref_shmem_documented ord _ comm side, where n = 1 and dt = MPI_INT
        and m = "\<lambda>p a. 5 + of_nat p" and S = 2000 and R = 2100]
    by (auto simp: sz apart_def)
qed

text \<open>C26.  With private buffers, as malloc gives them, and element types of less than 8 bytes, MPI_Allgather passes overlapping
  areas to \<^verbatim>\<open>shmem_fcollect64\<close>: the staged data is \<open>8 * n\<close> bytes for the library, but the place for the result
  starts behind its \<open>n\<close> elements.  Then OpenSHMEM promises nothing: whatever bytes are chosen, there is a library that
  behaves as documented with which the call succeeds and every process receives these bytes.\<close>

theorem staged_Allgather_unspecified:
  assumes lib: "shmem_documented L" and ords: "order npes ord1" "order npes ord2" and pos: "0 < npes" "0 < n"
    and comm: "shared_comm npes comm B" and side: "same_side L npes sb False" "same_side L npes rb False"
    and ptr: "\<forall>p < npes. 0 < sb p \<and> 0 < rb p" and size: "elem_size dt < 8"
    and bound: "n * elem_size dt * npes < 2147483648"
    and bytes: "\<forall>q < npes. length (bytes q) = n * elem_size dt * npes"
  shows "\<exists>L' m'. shmem_documented L' \<and> sh_accessible L' = sh_accessible L \<and>
    MPI_Allgather L' npes ord1 ord2 sb (of_nat n) dt rb dt comm m = Some (\<lambda>_. MPI_SUCCESS, m') \<and>
    (\<forall>q < npes. rd (m' q) (rb q) (n * elem_size dt * npes) = bytes q)"
proof -
  let ?k = "n * elem_size dt"
  define fc where "fc = (\<lambda>npes' dest source nlong m'. if fcollect_args L npes' dest source nlong
    then sh_fcollect64 L npes' dest source nlong m' else (\<lambda>p. wr (m' p) (dest p) (bytes p)))"
  define L' where "L' = L\<lparr>sh_fcollect64 := fc\<rparr>"
  have acc: "sh_accessible L' = sh_accessible L" by (simp add: L'_def)
  have args: "fcollect_args L' = fcollect_args L" "symmetric_args L' = symmetric_args L"
    by (simp_all add: fun_eq_iff fcollect_args_def symmetric_args_def acc)
  have lib': "shmem_documented L'" using lib unfolding shmem_documented_def args by (simp add: L'_def fc_def)
  have "?k * 1 \<le> ?k * npes" using pos by (intro mult_le_mono2) simp
  then have k: "?k < 2147483648" using bound by (simp only: mult_1_right)
  have B: "0 < B" using comm by (simp add: shared_comm_def)
  define m1 where "m1 = phase ord1 (\<lambda>p. gather_stage L' p (sb p) (rb p) (of_nat n) dt (the (comm p))) m"
  define bufs where "bufs = (\<lambda>p. gather_bufs L' p (sb p) (rb p) (of_nat n) dt (the (comm p)))"
  have bufs: "bufs p = ((True, B), (True, B + ?k))" if "p < npes" for p
    using that side shared_commD [OF comm that] gather_bufs_of_nat [OF k _ _ B]
    by (simp add: bufs_def same_side_def acc)
  have "\<not> fcollect_args L npes (\<lambda>p. snd (snd (bufs p))) (\<lambda>p. snd (fst (bufs p))) n"
  proof
    assume "fcollect_args L npes (\<lambda>p. snd (snd (bufs p))) (\<lambda>p. snd (fst (bufs p))) n"
    then obtain d s where "symmetric_args L npes (\<lambda>p. snd (snd (bufs p))) (\<lambda>p. snd (fst (bufs p))) d s"
      "d + 8 * n * npes \<le> s \<or> s + 8 * n \<le> d" unfolding fcollect_args_def by blast
    then have "B + ?k + 8 * n * npes \<le> B \<or> B + 8 * n \<le> B + ?k" using pos(1) bufs [OF pos(1)] by (auto simp: symmetric_args_def)
    then have "8 * n \<le> ?k" using pos by simp
    then show False using size pos(2) by (simp add: mult.commute [of n])
  qed
  then have m2: "sh_fcollect64 L' npes (\<lambda>p. snd (snd (bufs p))) (\<lambda>p. snd (fst (bufs p))) (csize (of_nat n)) m1 = (\<lambda>p. wr (m1 p) (snd (snd (bufs p))) (bytes p))"
    using es_bound [OF k] by (simp add: L'_def fc_def)
  define m3 where "m3 = phase ord2 (\<lambda>p x. if fst (snd (bufs p))
      then CopyMyData p (rb p) (snd (snd (bufs p))) (of_nat n * of_nat npes) dt x else x)
    (sh_fcollect64 L' npes (\<lambda>p. snd (snd (bufs p))) (\<lambda>p. snd (fst (bufs p))) (csize (of_nat n)) m1)"
  have "(of_nat n * of_nat npes :: i32) = of_nat (n * npes)" by simp
  then have "CopyMyData p a b (of_nat n * of_nat npes) dt x = x(p := wr (x p) a (rd (x p) b (?k * npes)))" for p a b x
    using CopyMyData_of_nat [of "n * npes" dt p a b x] bound by (simp add: ac_simps del: of_nat_mult)
  then have "m3 = (\<lambda>p. if p < npes then (\<lambda>x. wr x (rb p) (rd x (B + ?k) (?k * npes))) (wr (m1 p) (snd (snd (bufs p))) (bytes p))
      else wr (m1 p) (snd (snd (bufs p))) (bytes p))"
    unfolding m3_def m2 using bufs
    by (intro phase_order_local [OF ords(2), of _ "\<lambda>p x. wr x (rb p) (rd x (B + ?k) (?k * npes))"]) simp
  then have "rd (m3 q) (rb q) (?k * npes) = bytes q" if "q < npes" for q
    using that bufs bytes by simp
  moreover have "MPI_Allgather L' npes ord1 ord2 sb (of_nat n) dt rb dt comm m = Some (\<lambda>_. MPI_SUCCESS, m3)"
    unfolding MPI_Allgather_def m3_def m1_def bufs_def Let_def using ptr shared_commD(1) [OF comm]
    by (subst collective_all) (auto simp: gather_early_def)
  ultimately show ?thesis using lib' acc by blast
qed

text \<open>The buffers of the exchange of range servers: 4 bytes of type MPI_PACKED each.\<close>

theorem staged_Allgather_unspecified_witness:
  "\<exists>L' m'. shmem_documented L' \<and>
    MPI_Allgather L' 2 [1, 0] [0, 1] (\<lambda>_. 9000) (of_nat 4) MPI_PACKED (\<lambda>_. 9100) MPI_PACKED
      (\<lambda>p. Some (world_comm 2 p 0 1000 2000 3000 6)) (\<lambda>_ _. 1) = Some (\<lambda>_. MPI_SUCCESS, m') \<and>
    rd (m' 1) 9100 8 = [9, 9, 9, 9, 9, 9, 9, 9]"
proof -
  have sz: "elem_size MPI_PACKED = 1" by (simp add: elem_size_def GetNumBytes_def mpi_types)
  have ord: "order 2 [1, 0]" "order 2 [0, 1]" by (auto simp: order_def)
  have comm: "shared_comm 2 (\<lambda>p. Some (world_comm 2 p 0 1000 2000 3000 6)) 1000"
    by (simp add: shared_comm_def world_comm_def)
  have side: "same_side (ref_shmem 0 4000) 2 (\<lambda>_. 9000) False" "same_side (ref_shmem 0 4000) 2 (\<lambda>_. 9100) False"
    by (simp_all add: same_side_def)
  from staged_Allgather_unspecified [OF ref_shmem_documented ord _ _ comm side, where n = 4 and dt = MPI_PACKED
      and m = "\<lambda>_ _. 1" and bytes = "\<lambda>_. [9, 9, 9, 9, 9, 9, 9, 9]"]
  obtain L' m' where "shmem_documented L'"
    "MPI_Allgather L' 2 [1, 0] [0, 1] (\<lambda>_. 9000) (of_nat 4) MPI_PACKED (\<lambda>_. 9100) MPI_PACKED
      (\<lambda>p. Some (world_comm 2 p 0 1000 2000 3000 6)) (\<lambda>_ _. 1) = Some (\<lambda>_. MPI_SUCCESS, m')"
    "\<forall>q < 2. rd (m' q) 9100 8 = [9, 9, 9, 9, 9, 9, 9, 9]"
    by (auto simp: sz)
  then show ?thesis by (intro exI [of _ L'] exI [of _ m']) simp
qed

end
