(* ===== verification/Mpi_P2P.thy ===== *)
theory Mpi_P2P
  imports Mpi_Pack
begin

text \<open>
  Point-to-point messages of \<^verbatim>\<open>src/mpi_to_openshmem.c\<close>: MPI_Send and MPI_Recv through
  the first tracking slot of the communicator, MPI_Isend, MPI_Irecv and MPI_Test.  The
  sender's wait for its data may go on for ever, so it is a partial function and \<open>None\<close>
  is a call that never returns.  \<open>junk\<close> is the uninitialised \<^verbatim>\<open>ret\<close> that MPI_Send and
  MPI_Recv return.
\<close>

section \<open>MPI_Send\<close>

text \<open>Which types wait for their last element, and which for a marker behind the data.\<close>

definition send_by_value :: "MPI_Datatype \<Rightarrow> bool" where
  "send_by_value dt \<longleftrightarrow> dt = MPI_INT \<or> dt = MPI_UNSIGNED \<or> dt = MPI_LONG \<or> dt = MPI_UNSIGNED_LONG \<or>
     dt = MPI_LONG_LONG"

definition send_marker :: "MPI_Datatype \<Rightarrow> i32" where
  "send_marker dt =
     (if dt = MPI_CHAR \<or> dt = MPI_UNSIGNED_CHAR \<or> dt = MPI_BYTE then 12345
      else if dt = MPI_SHORT \<or> dt = MPI_UNSIGNED_SHORT then 23456
      else if dt = MPI_FLOAT then 34567
      else if dt = MPI_DOUBLE then 45678
      else if dt = MPI_LONG_DOUBLE then 56789
      else 67890)"

text \<open>The value of a 4-byte or 8-byte signed integer.\<close>

definition signed_val :: "byte list \<Rightarrow> int" where
  "signed_val bs = (if length bs = 4 then sint (dec32 bs) else sint (dec64 bs))"

text \<open>The \<^verbatim>\<open>while\<close> loop.  \<^verbatim>\<open>isItThereFlag\<close> is an \<^verbatim>\<open>int\<close> for every type, so a longer old value
  is cut to 32 bits before it is compared.\<close>

partial_function (option) send_wait ::
  "shmem_lib \<Rightarrow> nat \<Rightarrow> byte list \<Rightarrow> nat \<Rightarrow> i32 \<Rightarrow> gmem \<Rightarrow> gmem option" where
  "send_wait L offset expected dest isItThereFlag m =
     (if sint isItThereFlag = signed_val expected then Some m
      else let (old, m') = sh_cswap L (length expected) offset expected expected dest m
           in send_wait L offset expected dest (dec32 (take 4 old)) m')"

text \<open>\<open>stk\<close> is the address of the local variable \<^verbatim>\<open>expectedInt\<close>.\<close>

definition MPI_Send ::
  "shmem_lib \<Rightarrow> i32 \<Rightarrow> nat \<Rightarrow> nat \<Rightarrow> nat \<Rightarrow> i32 \<Rightarrow> MPI_Datatype \<Rightarrow> nat \<Rightarrow> i32 \<Rightarrow> MPI_Comm \<Rightarrow> gmem
     \<Rightarrow> (i32 \<times> MPI_Comm \<times> gmem) option" where
  "MPI_Send L junk stk me buf count dt dest tag comm m =
     (case comm of None \<Rightarrow> Some (MPI_ERR_COMM, comm, m)
      | Some c \<Rightarrow>
        (let si = c_sendInfo c ! 0;
             c' = c\<lparr>c_sendInfo := (c_sendInfo c)
                      [0 := si\<lparr>sr_tag := tag, sr_datatype := dt, sr_count := count\<rparr>]\<rparr>;
             recv_buf = sr_bufPtr si;
             sz = elem_size dt;
             by_value = send_by_value dt;
             expected = (if by_value then rd (m me) (index_addr buf (count - 1) sz) sz
                         else enc32 (send_marker dt));
             offset = (if by_value then index_addr recv_buf (count - 1) sz
                       else fst (GetBufferOffset count dt c));
             m0 = (if by_value then m else m(me := wr (m me) stk expected));
             m1 = sh_put L (rma_of_type dt) me recv_buf buf (csize count) dest m0;
             m2 = (if by_value then m1 else sh_put L RInt me offset stk 1 dest m1);
             (old, m3) = sh_cswap L (length expected) offset expected expected dest m2
         in map_option (\<lambda>m'. (junk, Some c', m'))
              (send_wait L offset expected dest (dec32 (take 4 old)) m3)))"

section \<open>MPI_Recv\<close>

definition MPI_Recv ::
  "i32 \<Rightarrow> nat \<Rightarrow> nat \<Rightarrow> i32 \<Rightarrow> MPI_Datatype \<Rightarrow> MPI_Comm \<Rightarrow> gmem \<Rightarrow> i32 \<times> MPI_Comm \<times> gmem" where
  "MPI_Recv junk me buf count dt comm m =
     (case comm of None \<Rightarrow> (MPI_ERR_COMM, comm, m)
      | Some c \<Rightarrow>
        (let recv_buf = sr_bufPtr (c_sendInfo c ! 0);
             m' = CopyMyData me buf recv_buf count dt m;
             c' = c\<lparr>c_sendInfo := (c_sendInfo c)[0 := init_sendrecv (c_bufferPtr c)]\<rparr>
         in (junk, Some c', m')))"

section \<open>Nonblocking operations\<close>

datatype requestType_t = RECV | IRECV | SEND | ISEND

record MPID_Request =
  rq_requestType :: requestType_t
  rq_rank :: nat
  rq_dataType :: MPI_Datatype
  rq_lastBufPtr :: nat
  rq_expected :: nat

text \<open>\<open>ex\<close> is the address \<^verbatim>\<open>shmalloc\<close> returns for the expected value.  Both functions take the
  last 4-byte word of the buffer at index \<^verbatim>\<open>count-1\<close>, whatever the datatype.\<close>

definition MPI_Isend ::
  "shmem_lib \<Rightarrow> nat \<Rightarrow> nat \<Rightarrow> nat \<Rightarrow> i32 \<Rightarrow> MPI_Datatype \<Rightarrow> nat \<Rightarrow> MPI_Comm \<Rightarrow> MPID_Request \<Rightarrow> gmem
     \<Rightarrow> i32 \<times> MPID_Request \<times> gmem" where
  "MPI_Isend L ex me buf count dt dest comm request m =
     (case comm of None \<Rightarrow> (MPI_ERR_COMM, request, m)
      | Some c \<Rightarrow>
        (let symRecvBuf = c_bufferPtr c;
             recvBufIndex = fst (GetBufferOffset count dt c)
         in if symRecvBuf = 0 then (MPI_ERR_BUFFER, request, m)
            else let createSymSend = \<not> sh_accessible L buf me;
                     symSendBuf = recvBufIndex;
                     m1 = (if createSymSend then CopyMyData me symSendBuf buf count dt m else m);
                     m2 = m1(me := wr (m1 me) ex (rd (m1 me) (index_addr buf (count - 1) 4) 4));
                     m3 = sh_put L (rma_of_type dt) me symRecvBuf
                            (if createSymSend then symSendBuf else buf) (csize count) dest m2
                 in (MPI_SUCCESS,
                     \<lparr>rq_requestType = ISEND, rq_rank = dest, rq_dataType = dt,
                      rq_lastBufPtr = index_addr symRecvBuf (count - 1) 4, rq_expected = ex\<rparr>, m3)))"

definition MPI_Irecv ::
  "shmem_lib \<Rightarrow> nat \<Rightarrow> nat \<Rightarrow> nat \<Rightarrow> i32 \<Rightarrow> MPI_Datatype \<Rightarrow> nat \<Rightarrow> MPI_Comm \<Rightarrow> MPID_Request \<Rightarrow> gmem
     \<Rightarrow> i32 \<times> MPID_Request \<times> gmem" where
  "MPI_Irecv L ex me buf count dt source comm request m =
     (case comm of None \<Rightarrow> (MPI_ERR_COMM, request, m)
      | Some c \<Rightarrow>
        (let recv_buf = c_bufferPtr c
         in if recv_buf = 0 then (MPI_ERR_BUFFER, request, m)
            else let lastBufPtr = index_addr recv_buf (count - 1) 4;
                     m1 = sh_get L (rma_of_type dt) me buf recv_buf (csize count) source m;
                     m2 = sh_get L RInt me ex lastBufPtr 1 source m1
                 in (MPI_SUCCESS,
                     \<lparr>rq_requestType = IRECV, rq_rank = source, rq_dataType = dt,
                      rq_lastBufPtr = lastBufPtr, rq_expected = ex\<rparr>, m2)))"

text \<open>The result is the return code, \<open>*flag\<close> and the memories.\<close>

definition MPI_Test :: "shmem_lib \<Rightarrow> nat \<Rightarrow> MPID_Request \<Rightarrow> gmem \<Rightarrow> i32 \<times> bool \<times> gmem" where
  "MPI_Test L me request m =
     (let expected = rd (m me) (rq_expected request) 4;
          (val, m') = sh_cswap L 4 (rq_lastBufPtr request) expected expected (rq_rank request) m
      in (MPI_SUCCESS, val = rd (m' me) (rq_expected request) 4, m'))"

section \<open>Lemmas\<close>

lemma signed_val_4: "length bs = 4 \<Longrightarrow> sint (dec32 (take 4 bs)) = signed_val bs"
  by (simp add: signed_val_def)

lemma send_wait_done: "sint f = signed_val e \<Longrightarrow> send_wait L off e d f m = Some m"
  by (subst send_wait.simps) simp

text \<open>A communicator between two calls: its first slot points to its buffer at address \<open>B\<close>.\<close>

definition idle_comm :: "MPI_Comm \<Rightarrow> nat \<Rightarrow> bool" where
  "idle_comm comm B \<longleftrightarrow> (\<exists>c. comm = Some c \<and> c_bufferPtr c = B \<and> c_offset c = 0 \<and>
     c_sendInfo c \<noteq> [] \<and> sr_bufPtr (c_sendInfo c ! 0) = B)"

lemma idle_world: "0 < n \<Longrightarrow> idle_comm (Some (world_comm npes me r B pk scr n)) B"
  by (simp add: idle_comm_def world_comm_def init_sendrecv_def nth_replicate)

text \<open>The last element of the message fits in an \<^verbatim>\<open>int\<close>, or the type does not wait for it.\<close>

definition last_fits :: "mem \<Rightarrow> nat \<Rightarrow> nat \<Rightarrow> MPI_Datatype \<Rightarrow> bool" where
  "last_fits mm buf n dt \<longleftrightarrow>
     (let e = rd mm (buf + (n - 1) * elem_size dt) (elem_size dt)
      in send_by_value dt \<longrightarrow> sint (dec32 (take 4 e)) = signed_val e)"

lemma send_by_value_size: "send_by_value dt \<Longrightarrow> elem_size dt = 4 \<or> elem_size dt = 8"
  by (auto simp: send_by_value_def elem_size_def GetNumBytes_def mpi_types)

lemma last_index: "0 < n \<Longrightarrow> n < 2147483648 \<Longrightarrow> index_addr a (of_nat n - 1) sz = a + (n - 1) * sz"
proof -
  assume n: "0 < n" "n < 2147483648"
  then have "(of_nat n - 1 :: i32) = of_nat (n - 1)" by simp
  then show ?thesis using n by (simp del: of_nat_diff)
qed

lemma last_block: "0 < n \<Longrightarrow> (n - 1) * k + k = n * (k :: nat)"
  by (cases n) simp_all

lemma last_rd: "0 < n \<Longrightarrow> drop ((n - 1) * k) (rd mm a (n * k)) = rd mm (a + (n - 1) * k) k"
  by (cases n) simp_all

context shmem
begin

lemma send_wait_returns:
  assumes "send_wait L' off e d f m = Some y" and "L' = L"
  shows "sint f = signed_val e \<or> sint (dec32 (take 4 (rd (m d) off (length e)))) = signed_val e"
  using assms
proof (induction rule: send_wait.raw_induct [rotated, consumes 1, case_names step])
  case (step send_wait L' off e d f m y)
  have "sh_cswap L' (length e) off e e d m = (rd (m d) off (length e), m)"
    using cswap_same step.prems by simp
  with step show ?case by (simp split: if_splits) blast
qed

lemma send_wait_stuck:
  assumes "sint f \<noteq> signed_val e" and "sint (dec32 (take 4 (rd (m d) off (length e)))) \<noteq> signed_val e"
  shows "send_wait L off e d f m = None"
  using send_wait_returns [of L off e d f m] assms by (cases "send_wait L off e d f m") auto

text \<open>What MPI_Send does once the data is at the destination.\<close>

lemma MPI_Send_run:
  fixes m :: gmem
  assumes comm: "idle_comm comm B" and n: "0 < n" "n * elem_size dt < 2147483648"
    and apart: "apart stk 4 buf (n * elem_size dt)" "apart stk 4 B (n * elem_size dt)"
      "me = d \<Longrightarrow> apart buf (n * elem_size dt) B (n * elem_size dt)"
  defines "e \<equiv> rd (m me) (buf + (n - 1) * elem_size dt) (elem_size dt)"
  shows "\<exists>c m'. (if last_fits (m me) buf n dt
      then MPI_Send L junk stk me buf (of_nat n) dt d tag comm m = Some (junk, Some c, m')
      else MPI_Send L junk stk me buf (of_nat n) dt d tag comm m = None) \<and>
    idle_comm (Some c) B \<and>
    rd (m' d) B (n * elem_size dt) = rd (m me) buf (n * elem_size dt) \<and>
    (\<forall>a j. apart stk 4 a j \<and> me \<noteq> d \<longrightarrow> rd (m' me) a j = rd (m me) a j)"
proof -
  let ?k = "n * elem_size dt" and ?sz = "elem_size dt"
  obtain c where c: "comm = Some c" "c_bufferPtr c = B" "c_offset c = 0" "c_sendInfo c \<noteq> []"
    "sr_bufPtr (c_sendInfo c ! 0) = B" using comm by (auto simp: idle_comm_def)
  note len = es_bound [OF n(2)]
  let ?c = "c\<lparr>c_sendInfo := (c_sendInfo c)[0 := (c_sendInfo c ! 0)
      \<lparr>sr_tag := tag, sr_datatype := dt, sr_count := of_nat n\<rparr>]\<rparr>"
  have idle: "idle_comm (Some ?c) B" using c by (simp add: idle_comm_def)
  show ?thesis
  proof (cases "send_by_value dt")
    case True
    let ?m = "m(d := wr (m d) B (rd (m me) buf ?k))"
    have "drop ((n - 1) * ?sz) (rd (m me) buf ?k) = rd (m me) (buf + (n - 1) * ?sz) ?sz"
      by (rule last_rd [OF n(1)])
    then have last: "rd (?m d) (B + (n - 1) * ?sz) ?sz = e"
      using last_block [OF n(1), of ?sz] by (simp add: e_def rd_wr_within)
    have send: "MPI_Send L junk stk me buf (of_nat n) dt d tag comm m =
        map_option (\<lambda>m'. (junk, Some ?c, m')) (send_wait L (B + (n - 1) * ?sz) e d (dec32 (take 4 e)) ?m)"
      using True c len last last_index [OF n(1) len] cswap_same [of e ?sz "B + (n - 1) * ?sz" d ?m]
      by (simp add: MPI_Send_def Let_def put_typed e_def)
    have fits: "last_fits (m me) buf n dt \<longleftrightarrow> sint (dec32 (take 4 e)) = signed_val e"
      using True by (simp add: last_fits_def e_def Let_def)
    have "send_wait L (B + (n - 1) * ?sz) e d (dec32 (take 4 e)) ?m = None" if "\<not> last_fits (m me) buf n dt"
      using that fits last by (intro send_wait_stuck) (simp_all add: e_def)
    then show ?thesis
      using send fits idle send_wait_done
      by (intro exI [of _ ?c] exI [of _ ?m]) (auto simp: fun_upd_def)
  next
    case False
    let ?e = "enc32 (send_marker dt)" and ?off = "B + ?k"
    let ?m0 = "m(me := wr (m me) stk ?e)"
    let ?m1 = "?m0(d := wr (?m0 d) B (rd (?m0 me) buf ?k))"
    let ?m2 = "?m1(d := wr (?m1 d) ?off (rd (?m1 me) stk 4))"
    have data: "rd (?m0 me) buf ?k = rd (m me) buf ?k"
      using apart(1) by (auto simp: apart_def intro!: rd_wr_disjoint)
    have marker: "rd (?m1 me) stk 4 = ?e"
      using apart(2) by (cases "me = d") (simp_all add: apart_def rd_wr_disjoint)
    have off: "fst (GetBufferOffset (of_nat n) dt c) = ?off"
      using GetBufferOffset_of_nat [OF n(2)] c by simp
    have old: "rd (?m2 d) ?off 4 = ?e" using marker by simp
    have put1: "sh_put L (rma_of_type dt) me B buf n d ?m0 = ?m1"
      by (simp add: put_typed)
    have put2: "sh_put L RInt me ?off stk 1 d ?m1 = ?m2"
      by (simp add: put)
    have "sh_cswap L 4 ?off ?e ?e d ?m2 = (?e, ?m2)"
      using cswap_same [of ?e 4 ?off d ?m2] old by simp
    then have "MPI_Send L junk stk me buf (of_nat n) dt d tag comm m = Some (junk, Some ?c, ?m2)"
      using False c(1,5) len off put1 put2 send_wait_done [OF signed_val_4 [of ?e]]
      by (simp add: MPI_Send_def Let_def)
    moreover have "rd (?m2 d) B ?k = rd (m me) buf ?k"
      using data by (simp add: rd_wr_disjoint)
    moreover have "rd (?m2 me) a j = rd (m me) a j" if "apart stk 4 a j" "me \<noteq> d" for a j
      using that by (auto simp: apart_def intro!: rd_wr_disjoint)
    ultimately show ?thesis
      using False idle by (intro exI [of _ ?c] exI [of _ ?m2]) (simp add: last_fits_def)
  qed
qed

end

lemma send_then_recv:
  assumes lib: "shmem_documented L" and comm: "idle_comm comms B" "idle_comm commd B"
    and n: "0 < n" "n * elem_size dt < 2147483648" and fits: "last_fits (m me) buf n dt"
    and apart: "apart stk 4 buf (n * elem_size dt)" "apart stk 4 B (n * elem_size dt)"
      "me = d \<Longrightarrow> apart buf (n * elem_size dt) B (n * elem_size dt)"
  shows "\<exists>c1 m1 c2 m2. MPI_Send L junk stk me buf (of_nat n) dt d tag comms m = Some (junk, Some c1, m1) \<and>
    MPI_Recv junk' d rbuf (of_nat n) dt commd m1 = (junk', Some c2, m2) \<and>
    rd (m2 d) rbuf (n * elem_size dt) = rd (m me) buf (n * elem_size dt) \<and>
    idle_comm (Some c1) B \<and> idle_comm (Some c2) B"
proof -
  obtain c1 m1 where send: "MPI_Send L junk stk me buf (of_nat n) dt d tag comms m = Some (junk, Some c1, m1)"
    "idle_comm (Some c1) B" "rd (m1 d) B (n * elem_size dt) = rd (m me) buf (n * elem_size dt)"
    using shmem.MPI_Send_run [OF shmem.intro [OF lib] comm(1) n apart] fits by (metis (no_types, lifting))
  obtain c where c: "commd = Some c" "c_bufferPtr c = B" "c_offset c = 0" "c_sendInfo c \<noteq> []"
    "sr_bufPtr (c_sendInfo c ! 0) = B" using comm(2) by (auto simp: idle_comm_def)
  have "\<exists>c2 m2. MPI_Recv junk' d rbuf (of_nat n) dt commd m1 = (junk', Some c2, m2) \<and>
      rd (m2 d) rbuf (n * elem_size dt) = rd (m1 d) B (n * elem_size dt) \<and> idle_comm (Some c2) B"
    using c CopyMyData_of_nat [OF n(2)]
    by (simp add: MPI_Recv_def Let_def idle_comm_def init_sendrecv_def)
  with send show ?thesis by metis
qed

section \<open>Properties\<close>



text \<open>MPI_Send of a type it waits for by value never returns when the last element
  does not fit in an \<^verbatim>\<open>int\<close>, even though all data has arrived: the waiting loop compares the
  element with an \<^verbatim>\<open>int\<close> copy of it.\<close>

theorem send_never_returns:
  assumes lib: "shmem_documented L" and comm: "idle_comm comm B"
    and n: "0 < n" "n * elem_size dt < 2147483648" and big: "\<not> last_fits (m me) buf n dt"
    and apart: "apart stk 4 buf (n * elem_size dt)" "apart stk 4 B (n * elem_size dt)"
      "me = d \<Longrightarrow> apart buf (n * elem_size dt) B (n * elem_size dt)"
  shows "MPI_Send L junk stk me buf (of_nat n) dt d tag comm m = None"
  using shmem.MPI_Send_run [OF shmem.intro [OF lib] comm n apart] big by (metis (no_types, lifting))

theorem send_never_returns_witness:
  "MPI_Send (ref_shmem 0 4000) 7 9900 0 9000 (of_nat 1) MPI_LONG 1 5
     (Some (world_comm 2 0 0 1000 2000 3000 6)) (\<lambda>p a. if a = 9004 then 1 else 0) = None"
proof -
  have sz: "elem_size MPI_LONG = 8" by (simp add: elem_size_def GetNumBytes_def mpi_types)
  have v: "send_by_value MPI_LONG" by (simp add: send_by_value_def)
  have idle: "idle_comm (Some (world_comm 2 0 0 1000 2000 3000 6)) 1000" by (simp add: idle_world)
  have "rd (\<lambda>a. if a = 9004 then 1 else 0) 9000 8 = [0, 0, 0, 0, 1, 0, 0, 0 :: byte]"
    by (simp add: rd_def upt_rec)
  then have "\<not> last_fits (\<lambda>a. if a = 9004 then 1 else 0) 9000 1 MPI_LONG"
    by (simp add: last_fits_def v sz signed_val_def dec32_def dec64_def)
  from send_never_returns [OF ref_shmem_documented idle, where m = "\<lambda>p a. if a = 9004 then 1 else 0" and me = 0
      and buf = 9000 and n = 1 and dt = MPI_LONG and d = 1 and stk = 9900, OF _ _ this]
  show ?thesis by (simp add: sz apart_def)
qed

text \<open>The sender does not wait for the receiver: of two messages sent one after the
  other to the same destination, the first MPI_Recv there delivers the second message and the
  first one is lost.\<close>

theorem second_send_overwrites:
  assumes lib: "shmem_documented L" and comm: "idle_comm comms B" "idle_comm commd B" and d: "me \<noteq> d"
    and n: "0 < n" "n * elem_size dt < 2147483648"
    and fits: "last_fits (m me) buf1 n dt" "last_fits (m me) buf2 n dt"
    and apart: "apart stk 4 buf1 (n * elem_size dt)" "apart stk 4 buf2 (n * elem_size dt)"
      "apart stk 4 B (n * elem_size dt)"
  shows "\<exists>c1 m1 c2 m2 c3 m3.
    MPI_Send L junk stk me buf1 (of_nat n) dt d tag comms m = Some (junk, Some c1, m1) \<and>
    MPI_Send L junk stk me buf2 (of_nat n) dt d tag (Some c1) m1 = Some (junk, Some c2, m2) \<and>
    MPI_Recv junk' d rbuf (of_nat n) dt commd m2 = (junk', Some c3, m3) \<and>
    rd (m3 d) rbuf (n * elem_size dt) = rd (m me) buf2 (n * elem_size dt)"
proof -
  let ?k = "n * elem_size dt" and ?sz = "elem_size dt"
  obtain c1 m1 where send: "MPI_Send L junk stk me buf1 (of_nat n) dt d tag comms m = Some (junk, Some c1, m1)"
    "idle_comm (Some c1) B" and keep: "\<forall>a j. apart stk 4 a j \<and> me \<noteq> d \<longrightarrow> rd (m1 me) a j = rd (m me) a j"
    using shmem.MPI_Send_run [OF shmem.intro [OF lib] comm(1) n apart(1,3)] d fits(1)
    by (metis (no_types, lifting))
  have "rd (m1 me) buf2 ?k = rd (m me) buf2 ?k" using keep apart(2) d by blast
  moreover from this have "rd (m1 me) (buf2 + (n - 1) * ?sz) ?sz = rd (m me) (buf2 + (n - 1) * ?sz) ?sz"
    using last_rd [OF n(1)] by metis
  ultimately have fits2: "last_fits (m1 me) buf2 n dt" and
    data: "rd (m1 me) buf2 ?k = rd (m me) buf2 ?k" using fits(2) by (simp_all add: last_fits_def)
  have "me = d \<Longrightarrow> apart buf2 ?k B ?k" using d by simp
  from send_then_recv [where m = m1 and me = me and tag = tag and junk = junk and junk' = junk' and rbuf = rbuf,
      OF lib send(2) comm(2) n fits2 apart(2,3) this]
  obtain c2 m2 c3 m3 where "MPI_Send L junk stk me buf2 (of_nat n) dt d tag (Some c1) m1 = Some (junk, Some c2, m2)"
    "MPI_Recv junk' d rbuf (of_nat n) dt commd m2 = (junk', Some c3, m3)"
    "rd (m3 d) rbuf ?k = rd (m1 me) buf2 ?k" by blast
  with send(1) data show ?thesis by metis
qed

theorem second_send_overwrites_witness:
  "\<exists>c1 m1 c2 m2 c3 m3.
    MPI_Send (ref_shmem 0 4000) 7 9900 0 9000 (of_nat 1) MPI_CHAR 1 5
      (Some (world_comm 2 0 0 1000 2000 3000 6)) (\<lambda>p a. of_nat a) = Some (7, Some c1, m1) \<and>
    MPI_Send (ref_shmem 0 4000) 7 9900 0 9001 (of_nat 1) MPI_CHAR 1 5 (Some c1) m1 = Some (7, Some c2, m2) \<and>
    MPI_Recv 8 1 9100 (of_nat 1) MPI_CHAR (Some (world_comm 2 1 1 1000 2000 3000 6)) m2 = (8, Some c3, m3) \<and>
    rd (m3 1) 9100 1 = [of_nat 9001]"
proof -
  have sz: "elem_size MPI_CHAR = 1" by (simp add: elem_size_def GetNumBytes_def mpi_types)
  have v: "\<not> send_by_value MPI_CHAR" by (simp add: send_by_value_def mpi_types)
  have idle: "idle_comm (Some (world_comm 2 me r 1000 2000 3000 6)) 1000" for me r
    by (simp add: idle_world)
  have one: "rd of_nat 9001 1 = [of_nat 9001 :: byte]" by (simp add: rd_def)
  show ?thesis
    using second_send_overwrites [OF ref_shmem_documented idle idle, where n = 1 and dt = MPI_CHAR and me = 0
        and m = "\<lambda>p a. of_nat a" and ?buf1.0 = 9000 and ?buf2.0 = 9001 and stk = 9900 and d = 1, where tag = 5
        and junk = 7 and junk' = 8 and rbuf = 9100]
    unfolding sz by (simp add: sz last_fits_def v apart_def one [simplified])
qed

text \<open>For element types of 4 or more bytes, once the data of an MPI_Isend has arrived
  MPI_Test reports completion and changes no memory.\<close>

theorem isend_test_completes:
  assumes lib: "shmem_documented L" and c: "comm = Some c" "c_bufferPtr c = B" "c_offset c = 0" "0 < B"
    and n: "0 < n" "n * elem_size dt < 2147483648" and size: "4 \<le> elem_size dt"
    and apart: "apart ex 4 buf (n * elem_size dt)" "apart ex 4 B (2 * (n * elem_size dt))"
      "apart buf (n * elem_size dt) B (2 * (n * elem_size dt))"
  shows "\<exists>rq m'. MPI_Isend L ex me buf (of_nat n) dt d comm rq0 m = (MPI_SUCCESS, rq, m') \<and>
    rd (m' d) B (n * elem_size dt) = rd (m me) buf (n * elem_size dt) \<and>
    MPI_Test L me rq m' = (MPI_SUCCESS, True, m')"
proof -
  let ?k = "n * elem_size dt" and ?j = "(n - 1) * 4"
  note len = es_bound [OF n(2)]
  have "n * 4 \<le> ?k" using mult_le_mono2 [OF size, of n] .
  then have j: "?j + 4 \<le> ?k" using n(1) by (cases n) simp_all
  define priv where "priv \<longleftrightarrow> \<not> sh_accessible L buf me"
  define m1 where "m1 = (if priv then m(me := wr (m me) (B + ?k) (rd (m me) buf ?k)) else m)"
  define src where "src = (if priv then B + ?k else buf)"
  let ?x = "rd (m1 me) (buf + ?j) 4"
  define m2 where "m2 = m1(me := wr (m1 me) ex ?x)"
  define m3 where "m3 = m2(d := wr (m2 d) B (rd (m2 me) src ?k))"
  let ?rq = "\<lparr>rq_requestType = ISEND, rq_rank = d, rq_dataType = dt, rq_lastBufPtr = B + ?j, rq_expected = ex\<rparr>"
  have isend: "MPI_Isend L ex me buf (of_nat n) dt d comm rq0 m = (MPI_SUCCESS, ?rq, m3)"
    using c len last_index [OF n(1) len, of _ 4] GetBufferOffset_of_nat [OF n(2)] CopyMyData_of_nat [OF n(2)]
      shmem.put_typed [OF shmem.intro [OF lib]]
    by (simp add: MPI_Isend_def Let_def m3_def m2_def m1_def src_def priv_def)
  have buf: "rd (m1 me) (buf + i) l = rd (m me) (buf + i) l" if "i + l \<le> ?k" for i l
    using apart(3) that by (auto simp: m1_def apart_def intro!: rd_wr_disjoint)
  have "rd (m1 me) src ?k = rd (m me) buf ?k"
    using buf [of 0 ?k] by (simp add: src_def m1_def)
  moreover have "rd (m2 me) src ?k = rd (m1 me) src ?k"
    using apart(1,2) by (auto simp: m2_def src_def apart_def intro!: rd_wr_disjoint)
  ultimately have data: "rd (m3 d) B ?k = rd (m me) buf ?k" by (simp add: m3_def)
  have "take 4 (drop ?j (rd (m3 d) B ?k)) = rd (m3 d) (B + ?j) 4"
    using j by (subst drop_rd, linarith, subst take_rd) (linarith, rule refl)
  moreover have "take 4 (drop ?j (rd (m me) buf ?k)) = rd (m me) (buf + ?j) 4"
    using j by (subst drop_rd, linarith, subst take_rd) (linarith, rule refl)
  ultimately have last: "rd (m3 d) (B + ?j) 4 = ?x"
    using data buf [OF j] by simp
  have "rd (m3 me) ex 4 = ?x"
    using apart(2) by (cases "me = d") (auto simp: m3_def m2_def apart_def rd_wr_disjoint)
  then have "MPI_Test L me ?rq m3 = (MPI_SUCCESS, True, m3)"
    using shmem.cswap_same [OF shmem.intro [OF lib], of ?x 4 "B + ?j" d m3] last
    by (simp add: MPI_Test_def Let_def)
  with isend data show ?thesis by blast
qed

theorem isend_test_completes_witness:
  "\<exists>rq m'. MPI_Isend (ref_shmem 0 4000) 3900 0 9000 (of_nat 2) MPI_LONG 1 (Some (world_comm 2 0 0 1000 2000 3000 6))
      \<lparr>rq_requestType = SEND, rq_rank = 0, rq_dataType = 0, rq_lastBufPtr = 0, rq_expected = 0\<rparr>
      (\<lambda>p a. of_nat a) = (MPI_SUCCESS, rq, m') \<and>
    rd (m' 1) 1000 16 = rd of_nat 9000 16 \<and>
    MPI_Test (ref_shmem 0 4000) 0 rq m' = (MPI_SUCCESS, True, m')"
proof -
  have sz: "elem_size MPI_LONG = 8" by (simp add: elem_size_def GetNumBytes_def mpi_types)
  show ?thesis
    using isend_test_completes [OF ref_shmem_documented refl, where n = 2 and dt = MPI_LONG and me = 0
        and m = "\<lambda>p a. of_nat a" and buf = 9000 and ex = 3900 and d = 1 and B = 1000
        and c = "world_comm 2 0 0 1000 2000 3000 6"
        and ?rq0.0 = "\<lparr>rq_requestType = SEND, rq_rank = 0, rq_dataType = 0, rq_lastBufPtr = 0, rq_expected = 0\<rparr>"]
    by (simp add: sz apart_def world_comm_def)
qed

text \<open>MPI_Irecv does not receive what MPI_Isend sent: the data of the send is in the
  communicator buffer of the destination, but the receive copies the communicator buffer of
  the source, as it was before the send.\<close>

theorem isend_irecv_mismatch:
  assumes lib: "shmem_documented L" and c: "comm = Some c" "c_bufferPtr c = B" "c_offset c = 0" "0 < B"
    and c': "comm' = Some c2" "c_bufferPtr c2 = B" and d: "me \<noteq> d"
    and n: "0 < n" "n * elem_size dt < 2147483648"
    and apart: "apart ex 4 B (2 * (n * elem_size dt))" "apart ex' 4 rbuf (n * elem_size dt)"
  shows "\<exists>rq m1 rq' m2. MPI_Isend L ex me buf (of_nat n) dt d comm rq0 m = (MPI_SUCCESS, rq, m1) \<and>
    MPI_Irecv L ex' d rbuf (of_nat n) dt me comm' rq0' m1 = (MPI_SUCCESS, rq', m2) \<and>
    rd (m2 d) rbuf (n * elem_size dt) = rd (m me) B (n * elem_size dt)"
proof -
  let ?k = "n * elem_size dt"
  note len = es_bound [OF n(2)]
  obtain rq m1 where isend: "MPI_Isend L ex me buf (of_nat n) dt d comm rq0 m = (MPI_SUCCESS, rq, m1)"
    and own: "m1 me = wr (if sh_accessible L buf me then m me else wr (m me) (B + ?k) (rd (m me) buf ?k)) ex
      (rd (if sh_accessible L buf me then m me else wr (m me) (B + ?k) (rd (m me) buf ?k)) (buf + (n - 1) * 4) 4)"
    using c d len last_index [OF n(1) len, of _ 4] GetBufferOffset_of_nat [OF n(2)] CopyMyData_of_nat [OF n(2)]
      shmem.put_typed [OF shmem.intro [OF lib]]
    by (simp add: MPI_Isend_def Let_def)
  have src: "rd (m1 me) B ?k = rd (m me) B ?k"
    using apart(1) unfolding own by (auto simp: apart_def rd_wr_disjoint)
  obtain rq' m2 where "MPI_Irecv L ex' d rbuf (of_nat n) dt me comm' rq0' m1 = (MPI_SUCCESS, rq', m2)"
    "m2 d = wr (wr (m1 d) rbuf (rd (m1 me) B ?k)) ex' (rd (m1 me) (B + (n - 1) * 4) 4)"
    using c' c(4) d len last_index [OF n(1) len, of _ 4] shmem.get_typed [OF shmem.intro [OF lib]]
      shmem.get [OF shmem.intro [OF lib]]
    by (simp add: MPI_Irecv_def Let_def)
  moreover from this have "rd (m2 d) rbuf ?k = rd (m1 me) B ?k"
    using apart(2) by (auto simp: apart_def rd_wr_disjoint)
  ultimately show ?thesis using isend src by metis
qed

theorem isend_irecv_mismatch_witness:
  "\<exists>rq m1 rq' m2. MPI_Isend (ref_shmem 0 4000) 3900 0 9000 (of_nat 1) MPI_CHAR 1
      (Some (world_comm 2 0 0 1000 2000 3000 6))
      \<lparr>rq_requestType = SEND, rq_rank = 0, rq_dataType = 0, rq_lastBufPtr = 0, rq_expected = 0\<rparr>
      (\<lambda>p a. if a = 9000 then 42 else 0) = (MPI_SUCCESS, rq, m1) \<and>
    MPI_Irecv (ref_shmem 0 4000) 3910 1 9100 (of_nat 1) MPI_CHAR 0 (Some (world_comm 2 1 1 1000 2000 3000 6))
      \<lparr>rq_requestType = SEND, rq_rank = 0, rq_dataType = 0, rq_lastBufPtr = 0, rq_expected = 0\<rparr> m1 =
      (MPI_SUCCESS, rq', m2) \<and>
    rd (m2 1) 9100 1 = [0]"
proof -
  have sz: "elem_size MPI_CHAR = 1" by (simp add: elem_size_def GetNumBytes_def mpi_types)
  have one: "rd (\<lambda>a. if a = 9000 then 42 else 0) 1000 1 = [0 :: byte]" by (simp add: rd_def)
  show ?thesis
    using isend_irecv_mismatch [OF ref_shmem_documented refl _ _ _ refl, where n = 1 and dt = MPI_CHAR and me = 0
        and m = "\<lambda>p a. if a = 9000 then 42 else 0" and buf = 9000 and ex = 3900 and d = 1 and B = 1000
        and c = "world_comm 2 0 0 1000 2000 3000 6" and ?c2.0 = "world_comm 2 1 1 1000 2000 3000 6"
        and ex' = 3910 and rbuf = 9100
        and ?rq0.0 = "\<lparr>rq_requestType = SEND, rq_rank = 0, rq_dataType = 0, rq_lastBufPtr = 0, rq_expected = 0\<rparr>"
        and rq0' = "\<lparr>rq_requestType = SEND, rq_rank = 0, rq_dataType = 0, rq_lastBufPtr = 0, rq_expected = 0\<rparr>"]
    by (simp add: sz apart_def world_comm_def one [simplified])
qed

end
