(* ===== verification/Long_Double.thy ===== *)
theory Long_Double
  imports Prelude "HOL-Library.Log_Nat"
begin

text \<open>
  The floating-point arithmetic the partitioner uses, on the numbers it meets: C
  \<^verbatim>\<open>long double\<close> with a 64-bit significand (x87 extended precision, the format of the Linux
  machines the code is built for), rounded to the nearest value, ties to even, on
  non-negative rationals; \<^verbatim>\<open>pow(2, -k)\<close> in double precision; the decoding of \<^verbatim>\<open>float\<close> and
  \<^verbatim>\<open>double\<close> keys; conversion to \<^verbatim>\<open>uint64_t\<close>.  The interface \<open>rounding\<close> is what the
  proofs use, and is interpreted on \<open>ld_round\<close>.
\<close>

section \<open>Rounding\<close>

definition round_even :: "rat \<Rightarrow> int" where
  "round_even y =
     (let f = \<lfloor>y\<rfloor>; r = y - of_int f
      in if r < 1 / 2 then f else if r > 1 / 2 then f + 1 else if even f then f else f + 1)"

text \<open>The exponent \<open>e\<close> with \<open>2 ^ e \<le> x < 2 ^ (e + 1)\<close>.\<close>

definition ld_exp :: "rat \<Rightarrow> int" where
  "ld_exp x = (let (a, b) = quotient_of x; d = bitlen a - bitlen b
     in if 2 powi d \<le> x then d else d - 1)"

definition ld_round :: "rat \<Rightarrow> rat" where
  "ld_round x = (if x \<le> 0 then 0
     else let s = 2 powi (63 - ld_exp x) in of_int (round_even (x * s)) / s)"

text \<open>\<^verbatim>\<open>pow(2, -k)\<close>: exact down to the smallest subnormal double, then 0.\<close>

definition pow2neg :: "nat \<Rightarrow> rat" where
  "pow2neg k = (if k \<le> 1074 then 1 / 2 ^ k else 0)"

text \<open>Conversion to \<^verbatim>\<open>uint64_t\<close> truncates; it is undefined (\<open>None\<close>) out of range.\<close>

definition to_u64 :: "rat \<Rightarrow> u64 option" where
  "to_u64 x = (if -1 < x \<and> x < 2 ^ 64 then Some (of_int (if 0 \<le> x then \<lfloor>x\<rfloor> else 0)) else None)"

text \<open>An IEEE 754 number with \<open>p\<close> fraction bits and \<open>ew\<close> exponent bits; \<open>None\<close> for an infinity
  or a NaN.\<close>

definition ieee_val :: "nat \<Rightarrow> nat \<Rightarrow> nat \<Rightarrow> rat option" where
  "ieee_val p ew w =
     (let m = w mod 2 ^ p; e = (w div 2 ^ p) mod 2 ^ ew; sgn = (if (w div 2 ^ (p + ew)) mod 2 = 1 then -1 else 1);
          bias = 2 ^ (ew - 1) - 1
      in if e = 2 ^ ew - 1 then None
         else if e = 0 then Some (sgn * of_nat m * 2 powi (1 - bias - int p))
         else Some (sgn * of_nat (2 ^ p + m) * 2 powi (int e - bias - int p)))"

definition float_val :: "byte list \<Rightarrow> rat option" where
  "float_val bs = ieee_val 23 8 (le_val (take 4 bs))"

definition double_val :: "byte list \<Rightarrow> rat option" where
  "double_val bs = ieee_val 52 11 (le_val (take 8 bs))"

section \<open>Lemmas\<close>

lemma round_even_bounds: "\<lfloor>y\<rfloor> \<le> round_even y" "round_even y \<le> \<lfloor>y\<rfloor> + 1"
  by (simp_all add: round_even_def Let_def)

lemma round_even_of_int [simp]: "round_even (of_int k) = k"
  by (simp add: round_even_def)

lemma round_even_mono: "y \<le> z \<Longrightarrow> round_even y \<le> round_even z"
proof -
  assume le: "y \<le> z"
  then have f: "\<lfloor>y\<rfloor> \<le> \<lfloor>z\<rfloor>" by (rule floor_mono)
  show ?thesis
  proof (cases "\<lfloor>y\<rfloor> = \<lfloor>z\<rfloor>")
    case True
    with le show ?thesis by (auto simp: round_even_def Let_def)
  next
    case False
    with f have "\<lfloor>y\<rfloor> + 1 \<le> \<lfloor>z\<rfloor>" by simp
    with round_even_bounds [of y] round_even_bounds [of z] show ?thesis by linarith
  qed
qed

lemma ld_exp_bounds:
  assumes "0 < x"
  shows "2 powi ld_exp x \<le> x" and "x < 2 powi (ld_exp x + 1)"
proof (atomize (full))
  obtain a b where q: "quotient_of x = (a, b)" by force
  have b: "0 < b" using q by (rule quotient_of_denom_pos)
  have x: "x = of_int a / of_int b" using q by (rule quotient_of_div)
  have a: "0 < a" using assms b by (simp add: x zero_less_divide_iff)
  let ?d = "bitlen a - bitlen b"
  have pa: "0 < bitlen a" and pb: "0 < bitlen b" 
    using a b bitlen_nonneg [of a] bitlen_nonneg [of b] bitlen_eq_zero_iff [of a] bitlen_eq_zero_iff [of b] by linarith+
  have *: "(of_int (2 ^ nat k) :: rat) = 2 powi k" if "0 \<le> k" for k
    using that by (simp add: power_int_def)
  have A: "2 powi (bitlen a - 1) \<le> (of_int a :: rat)" "(of_int a :: rat) < 2 powi (bitlen a)"
    using bitlen_bounds [OF a] pa by (simp_all flip: * add: of_int_le_iff of_int_less_iff del: of_int_power)
  have B: "2 powi (bitlen b - 1) \<le> (of_int b :: rat)" "(of_int b :: rat) < 2 powi (bitlen b)"
    using bitlen_bounds [OF b] pb by (simp_all flip: * add: of_int_le_iff of_int_less_iff del: of_int_power)
  have b': "0 < (of_int b :: rat)" using b by simp
  have up: "x < 2 powi (?d + 1)"
  proof -
    have "x * 2 powi (bitlen b - 1) \<le> x * of_int b" using assms B(1) by (intro mult_left_mono) simp_all
    also have "\<dots> = of_int a" using b' by (simp add: x)
    also have "\<dots> < 2 powi (?d + 1) * 2 powi (bitlen b - 1)" using A(2) by (simp flip: power_int_add)
    finally show ?thesis by (simp add: mult_less_cancel_right)
  qed
  have lo: "2 powi (?d - 1) \<le> x"
  proof -
    have "2 powi (?d - 1) * of_int b \<le> 2 powi (?d - 1) * (2 powi (bitlen b) :: rat)"
      using B(2) by (intro mult_left_mono) simp_all
    also have "\<dots> = 2 powi (bitlen a - 1)" by (simp flip: power_int_add)
    also have "\<dots> \<le> of_int a" by (rule A(1))
    finally show ?thesis using b' by (simp add: x pos_le_divide_eq)
  qed
  show "2 powi ld_exp x \<le> x \<and> x < 2 powi (ld_exp x + 1)"
    using up lo by (auto simp: ld_exp_def q Let_def)
qed

lemma powi_le: "i \<le> j \<Longrightarrow> (2 powi i :: rat) \<le> 2 powi j"
  by (intro power_int_increasing) simp_all

lemma ld_exp_mono: "0 < x \<Longrightarrow> x \<le> y \<Longrightarrow> ld_exp x \<le> ld_exp y"
proof (rule ccontr)
  assume x: "0 < x" "x \<le> y" and "\<not> ld_exp x \<le> ld_exp y"
  then have "2 powi (ld_exp y + 1) \<le> (2 powi ld_exp x :: rat)" by (intro powi_le) simp
  with ld_exp_bounds [of x] ld_exp_bounds [of y] x show False by linarith
qed

lemma ld_round_bounds:
  assumes "0 < x"
  shows "2 powi ld_exp x \<le> ld_round x" and "ld_round x \<le> 2 powi (ld_exp x + 1)"
proof (atomize (full))
  let ?s = "2 powi (63 - ld_exp x) :: rat"
  have s: "0 < ?s" by simp
  have 63: "(2 powi ld_exp x :: rat) * ?s = of_int (2 ^ 63)" and 64: "(2 powi (ld_exp x + 1) :: rat) * ?s = of_int (2 ^ 64)"
    by (simp_all flip: power_int_add)
  have "of_int (2 ^ 63) \<le> x * ?s"
    using ld_exp_bounds(1) [OF assms] s by (subst 63 [symmetric], intro mult_right_mono) simp_all
  from round_even_mono [OF this] have lo: "2 ^ 63 \<le> round_even (x * ?s)" by (simp only: round_even_of_int)
  have "x * ?s \<le> of_int (2 ^ 64)"
    using ld_exp_bounds(2) [OF assms] s by (subst 64 [symmetric], intro mult_right_mono) simp_all
  from round_even_mono [OF this] have up: "round_even (x * ?s) \<le> 2 ^ 64" by (simp only: round_even_of_int)
  have "2 powi ld_exp x * ?s \<le> of_int (round_even (x * ?s))"
    unfolding 63 using lo by (simp only: of_int_le_iff)
  moreover have "of_int (round_even (x * ?s)) \<le> 2 powi (ld_exp x + 1) * ?s"
    unfolding 64 using up by (simp only: of_int_le_iff)
  ultimately show "2 powi ld_exp x \<le> ld_round x \<and> ld_round x \<le> 2 powi (ld_exp x + 1)"
    using assms s by (simp add: ld_round_def Let_def pos_le_divide_eq pos_divide_le_eq)
qed

lemma ld_round_nonneg [simp]: "0 \<le> ld_round x"
proof (cases "0 < x")
  case True
  have "(0 :: rat) \<le> 2 powi ld_exp x" by simp
  with ld_round_bounds(1) [OF True] show ?thesis by linarith
qed (simp add: ld_round_def)

lemma ld_round_mono: "x \<le> y \<Longrightarrow> ld_round x \<le> ld_round y"
proof -
  assume le: "x \<le> y"
  show ?thesis
  proof (cases "0 < x")
    case False
    then show ?thesis using ld_round_nonneg [of y] by (simp add: ld_round_def)
  next
    case True
    with le have y: "0 < y" by simp
    from ld_exp_mono [OF True le] consider "ld_exp x = ld_exp y" | "ld_exp x + 1 \<le> ld_exp y" by linarith
    then show ?thesis
    proof cases
      case 1
      have "x * 2 powi (63 - ld_exp y) \<le> y * 2 powi (63 - ld_exp y)" using le by (intro mult_right_mono) simp_all
      from round_even_mono [OF this] show ?thesis
        using True y 1 by (simp add: ld_round_def Let_def divide_right_mono)
    next
      case 2
      from powi_le [OF this] show ?thesis
        using ld_round_bounds(2) [OF True] ld_round_bounds(1) [OF y] by linarith
    qed
  qed
qed

lemma ld_round_exact:
  assumes "0 \<le> k" and "k < 2 ^ 64"
  shows "ld_round (of_int k * 2 powi j) = of_int k * 2 powi j"
proof (cases "k = 0")
  case False
  with assms have k: "0 < k" by simp
  let ?x = "of_int k * 2 powi j :: rat"
  have x: "0 < ?x" using k by simp
  have "ld_exp ?x < j + 64"
  proof (rule ccontr)
    assume "\<not> ?thesis"
    then have "(2 powi (j + 64) :: rat) \<le> 2 powi ld_exp ?x" by (intro powi_le) simp
    also have "\<dots> \<le> ?x" by (rule ld_exp_bounds(1) [OF x])
    also have "?x < of_int (2 ^ 64) * 2 powi j" using assms(2) by (intro mult_strict_right_mono) (simp_all only: of_int_less_iff, simp)
    also have "\<dots> = 2 powi (j + 64)" by (simp add: power_int_add)
    finally show False by simp
  qed
  then have e: "0 \<le> j + (63 - ld_exp ?x)" by simp
  let ?s = "2 powi (63 - ld_exp ?x) :: rat"
  have "?x * ?s = of_int k * 2 powi (j + (63 - ld_exp ?x))"
    by (simp add: mult.assoc power_int_add)
  also have "\<dots> = of_int (k * 2 ^ nat (j + (63 - ld_exp ?x)))"
    using e by (simp add: power_int_def)
  finally have int: "?x * ?s = of_int (k * 2 ^ nat (j + (63 - ld_exp ?x)))" .
  have "ld_round ?x = of_int (round_even (?x * ?s)) / ?s" using x by (simp only: ld_round_def Let_def) simp
  also have "\<dots> = ?x * ?s / ?s" by (simp only: int round_even_of_int)
  also have "\<dots> = ?x" by simp
  finally show ?thesis .
qed (simp add: ld_round_def)

section \<open>Fractions in base \<open>2 ^ e\<close>\<close>

text \<open>The exact value of digits behind the point.\<close>

fun frac :: "nat \<Rightarrow> int list \<Rightarrow> rat" where
  "frac e [] = 0"
| "frac e (d # ds) = (of_int d + frac e ds) / 2 ^ e"

lemma frac_bounds: "\<forall>d \<in> set ds. 0 \<le> d \<and> d < 2 ^ e \<Longrightarrow> 0 \<le> frac e ds \<and> frac e ds < 1"
proof (induction ds)
  case (Cons d ds)
  then have "0 \<le> frac e ds" "frac e ds < 1" by simp_all
  moreover have "(of_int (d + 1) :: rat) \<le> of_int (2 ^ e)"
    using Cons.prems unfolding of_int_le_iff by simp
  moreover have "(0 :: rat) \<le> of_int d" using Cons.prems by simp
  ultimately show ?case by simp
qed simp

text \<open>A sequence of digits that comes first lexicographically has the smaller value.\<close>

lemma frac_lexord:
  assumes "ord_class.lexordp_eq ds es" and "\<forall>d \<in> set ds. 0 \<le> d \<and> d < 2 ^ e" and "\<forall>d \<in> set es. 0 \<le> d \<and> d < 2 ^ e"
  shows "frac e ds \<le> frac e es"
  using assms
proof (induction rule: ord_class.lexordp_eq.induct)
  case (Nil ys)
  then show ?case using frac_bounds [of ys e] by simp
next
  case (Cons x y xs ys)
  then have "(of_int (x + 1) :: rat) \<le> of_int y" unfolding of_int_le_iff by simp
  moreover have "frac e xs < 1" "0 \<le> frac e ys" using frac_bounds [of xs e] frac_bounds [of ys e] Cons by simp_all
  ultimately show ?case by (simp add: divide_right_mono)
next
  case (Cons_eq x y xs ys)
  then have "x = y" "frac e xs \<le> frac e ys" by simp_all
  then show ?case by (simp add: divide_right_mono)
qed

section \<open>What the partitioner relies on\<close>

locale rounding =
  fixes fl :: "rat \<Rightarrow> rat"
  assumes mono: "x \<le> y \<Longrightarrow> fl x \<le> fl y"
    and exact: "0 \<le> k \<Longrightarrow> k < 2 ^ 64 \<Longrightarrow> fl (of_int k * 2 powi j) = of_int k * 2 powi j"
begin

lemma exact_int: "0 \<le> k \<Longrightarrow> k < 2 ^ 64 \<Longrightarrow> fl (of_int k) = of_int k"
  using exact [of k 0] by simp

lemma exact_frac: "0 \<le> k \<Longrightarrow> k < 2 ^ 64 \<Longrightarrow> fl (of_int k / 2 ^ n) = of_int k / 2 ^ n"
  using exact [of k "- int n"] by (simp add: power_int_minus field_simps)

text \<open>Rounding never crosses a representable bound.\<close>

lemma le_int: "x \<le> of_int k \<Longrightarrow> 0 \<le> k \<Longrightarrow> k < 2 ^ 64 \<Longrightarrow> fl x \<le> of_int k"
  using mono [of x "of_int k"] exact_int [of k] by simp

lemma le_frac: "x \<le> of_int k / 2 ^ n \<Longrightarrow> 0 \<le> k \<Longrightarrow> k < 2 ^ 64 \<Longrightarrow> fl x \<le> of_int k / 2 ^ n"
  using mono [of x "of_int k / 2 ^ n"] exact_frac [of k n] by simp

lemma nonneg: "0 \<le> x \<Longrightarrow> 0 \<le> fl x"
  using mono [of 0 x] exact_int [of 0] by simp

text \<open>A sum of digits scaled by falling powers of two, rounded after every addition.\<close>

fun frac_loop :: "nat \<Rightarrow> int list \<Rightarrow> nat \<Rightarrow> rat \<Rightarrow> rat" where
  "frac_loop e [] i acc = acc"
| "frac_loop e (d # ds) i acc = frac_loop e ds (Suc i) (fl (acc + of_int d * pow2neg (e * (i + 1))))"

lemma frac_loop_exact:
  assumes "\<forall>d \<in> set ds. 0 \<le> d \<and> d < 2 ^ e" and "0 \<le> k" and "k < 2 ^ (e * i)"
    and "e * (i + length ds) \<le> 64"
  shows "frac_loop e ds i (of_int k / 2 ^ (e * i)) = of_int k / 2 ^ (e * i) + frac e ds / 2 ^ (e * i)"
  using assms
proof (induction ds arbitrary: i k)
  case Nil
  then show ?case by simp
next
  case (Cons d ds)
  let ?k = "k * 2 ^ e + d"
  have d: "0 \<le> d" "d < 2 ^ e" using Cons.prems(1) by simp_all
  have e: "e * (i + 1) \<le> 64"
  proof -
    have "e * (i + 1) \<le> e * (i + length (d # ds))" by (intro mult_le_mono2) simp
    with Cons.prems(4) show ?thesis by linarith
  qed
  have "k * 2 ^ e + d < k * 2 ^ e + 2 ^ e" using d by simp
  also have "\<dots> = (k + 1) * 2 ^ e" by (simp add: algebra_simps)
  also have "\<dots> \<le> 2 ^ (e * i) * 2 ^ e" using Cons.prems(3) by (intro mult_right_mono) simp_all
  also have "\<dots> = 2 ^ (e * Suc i)" by (simp add: power_add mult.commute)
  finally have k: "0 \<le> ?k" "?k < 2 ^ (e * Suc i)" using Cons.prems(2) d by simp_all
  have "(2 :: int) ^ (e * Suc i) \<le> 2 ^ 64" using e by (intro power_increasing) simp_all
  with k(2) have k64: "?k < 2 ^ 64" by (rule less_le_trans)
  have "of_int k / 2 ^ (e * i) + of_int d * pow2neg (e * (i + 1)) = of_int ?k / 2 ^ (e * Suc i)"
    using e by (simp add: pow2neg_def power_add field_simps)
  then have "fl (of_int k / 2 ^ (e * i) + of_int d * pow2neg (e * (i + 1))) = of_int ?k / 2 ^ (e * Suc i)"
    using exact_frac [OF k(1) k64] by simp
  then have "frac_loop e (d # ds) i (of_int k / 2 ^ (e * i)) = frac_loop e ds (Suc i) (of_int ?k / 2 ^ (e * Suc i))"
    by simp
  also have "\<dots> = of_int ?k / 2 ^ (e * Suc i) + frac e ds / 2 ^ (e * Suc i)"
    using Cons.prems(1,4) k by (intro Cons.IH) simp_all
  also have "\<dots> = of_int k / 2 ^ (e * i) + frac e (d # ds) / 2 ^ (e * i)"
    by (simp add: power_add field_simps)
  finally show ?case .
qed

text \<open>With digits up to 61 and 6 bits per digit the sum stays below 63/64, however the
  roundings fall, for any number of digits that occurs.\<close>

lemma frac_loop_bound_tail:
  assumes "\<forall>d \<in> set ds. 0 \<le> d \<and> d \<le> 61" and "10 \<le> i" and "0 \<le> acc"
    and "acc \<le> of_int (2 ^ 53 * 62 + j) / 2 ^ 59" and "0 \<le> j" and "j + int (length ds) \<le> 2 ^ 53"
  shows "0 \<le> frac_loop 6 ds i acc \<and> frac_loop 6 ds i acc \<le> 63 / 64"
  using assms
proof (induction ds arbitrary: i acc j)
  case Nil
  then have "acc \<le> of_int (2 ^ 53 * 62 + j) / 2 ^ 59" by simp
  also have "\<dots> \<le> of_int (2 ^ 53 * 62 + 2 ^ 53) / 2 ^ 59"
    using Nil.prems by (intro divide_right_mono) (simp_all only: of_int_le_iff, simp_all)
  finally show ?case using Nil.prems(3) by simp
next
  case (Cons d ds)
  let ?t = "of_int d * pow2neg (6 * (i + 1))"
  have d: "0 \<le> d" "d \<le> 61" using Cons.prems(1) by simp_all
  have "pow2neg (6 * (i + 1)) \<le> 1 / 2 ^ 66"
  proof -
    have "(2 :: rat) ^ 66 \<le> 2 ^ (6 * (i + 1))" using Cons.prems(2) by (intro power_increasing) simp_all
    then have "1 / 2 ^ (6 * (i + 1)) \<le> 1 / (2 :: rat) ^ 66" by (intro divide_left_mono) simp_all
    then show ?thesis by (simp add: pow2neg_def)
  qed
  moreover have p: "0 \<le> pow2neg (6 * (i + 1))" by (simp add: pow2neg_def)
  ultimately have "?t \<le> 61 * (1 / 2 ^ 66)" using d by (intro mult_mono) simp_all
  also have "\<dots> \<le> 1 / 2 ^ 59" by simp
  finally have "acc + ?t \<le> of_int (2 ^ 53 * 62 + j) / 2 ^ 59 + 1 / 2 ^ 59"
    by (intro add_mono [OF Cons.prems(4)])
  also have "\<dots> = of_int (2 ^ 53 * 62 + (j + 1)) / 2 ^ 59" by (simp add: field_simps)
  finally have "fl (acc + ?t) \<le> of_int (2 ^ 53 * 62 + (j + 1)) / 2 ^ 59"
    using Cons.prems(5,6) by (intro le_frac) simp_all
  moreover have "0 \<le> fl (acc + ?t)" using Cons.prems(3) d p by (intro nonneg) simp
  ultimately show ?case
    using Cons.prems Cons.IH [of "Suc i" "fl (acc + ?t)" "j + 1"] by simp
qed

end

interpretation ld: rounding ld_round
  by unfold_locales (auto intro: ld_round_mono ld_round_exact)

end
