(* ===== verification/Key_Compare.thy ===== *)
theory Key_Compare
  imports Mdhim_Base Long_Double
begin

text \<open>
  The key comparators of \<^verbatim>\<open>src/mdhimMods/src/ds_leveldb.c\<close>, which the database orders its keys
  with, the interface \<open>key_order\<close> the database asks of a comparator (a total order), and its
  interpretations for 32-bit and 64-bit integers, byte strings and C strings.

  A key argument is a pointer (\<open>None\<close> for NULL, or the bytes of the object) and a length.  A
  comparator yields \<open>None\<close> when it reads outside the object, and for a floating-point NaN or
  infinity.
\<close>

section \<open>The comparators\<close>

type_synonym cmp_fn = "byte list option \<Rightarrow> nat \<Rightarrow> byte list option \<Rightarrow> nat \<Rightarrow> int option"

definition cmp_empty :: "byte list option \<Rightarrow> nat \<Rightarrow> byte list option \<Rightarrow> nat \<Rightarrow> int" where
  "cmp_empty a alen b blen =
     (if a \<noteq> None \<and> b = None then 1
      else if a = None \<and> b \<noteq> None then -1
      else if a = None \<and> b = None then 0
      else if alen > blen then 1
      else if blen > alen then -1
      else 2)"

text \<open>Reading \<open>n\<close> bytes at the start of an object.\<close>

definition read_bytes :: "nat \<Rightarrow> byte list option \<Rightarrow> byte list option" where
  "read_bytes n p = (case p of None \<Rightarrow> None | Some bs \<Rightarrow> if n \<le> length bs then Some (take n bs) else None)"

definition cmp_int_compare :: cmp_fn where
  "cmp_int_compare a alen b blen =
     (let ret = cmp_empty a alen b blen in
      if ret \<noteq> 2 then Some ret
      else case (read_bytes 4 a, read_bytes 4 b) of
          (Some x, Some y) \<Rightarrow>
            Some (if dec32 x < dec32 y then -1 else if dec32 x = dec32 y then 0 else 1)
        | _ \<Rightarrow> None)"

definition cmp_lint_compare :: cmp_fn where
  "cmp_lint_compare a alen b blen =
     (let ret = cmp_empty a alen b blen in
      if ret \<noteq> 2 then Some ret
      else case (read_bytes 8 a, read_bytes 8 b) of
          (Some x, Some y) \<Rightarrow>
            Some (if dec64 x < dec64 y then -1 else if dec64 x = dec64 y then 0 else 1)
        | _ \<Rightarrow> None)"

definition cmp_double_compare :: cmp_fn where
  "cmp_double_compare a alen b blen =
     (let ret = cmp_empty a alen b blen in
      if ret \<noteq> 2 then Some ret
      else case (Option.bind (read_bytes 8 a) double_val, Option.bind (read_bytes 8 b) double_val) of
          (Some x, Some y) \<Rightarrow> Some (if x < y then -1 else if x = y then 0 else 1)
        | _ \<Rightarrow> None)"

definition cmp_float_compare :: cmp_fn where
  "cmp_float_compare a alen b blen =
     (let ret = cmp_empty a alen b blen in
      if ret \<noteq> 2 then Some ret
      else case (Option.bind (read_bytes 4 a) float_val, Option.bind (read_bytes 4 b) float_val) of
          (Some x, Some y) \<Rightarrow> Some (if x < y then -1 else if x = y then 0 else 1)
        | _ \<Rightarrow> None)"

text \<open>The loop of the string comparator, from index \<open>idx\<close>: the rest of the two objects and the
  index where it stops.\<close>

fun cmp_string_loop :: "byte list \<Rightarrow> nat \<Rightarrow> byte list \<Rightarrow> nat \<Rightarrow> nat \<Rightarrow> (byte \<times> byte \<times> nat) option" where
  "cmp_string_loop (x # a) alen (y # b) blen idx =
     (if x = y \<and> x \<noteq> 0 \<and> y \<noteq> 0 \<and> idx < alen \<and> idx < blen
      then cmp_string_loop a alen b blen (Suc idx) else Some (x, y, idx))"
| "cmp_string_loop _ _ _ _ _ = None"

definition cmp_string_compare :: cmp_fn where
  "cmp_string_compare a alen b blen =
     (case (a, b) of
        (Some _, None) \<Rightarrow> Some 1
      | (None, Some _) \<Rightarrow> Some (-1)
      | (None, None) \<Rightarrow> Some 0
      | (Some p, Some q) \<Rightarrow>
        (case cmp_string_loop p alen q blen 0 of None \<Rightarrow> None
         | Some (x, y, idx) \<Rightarrow> Some (
             if (x = 0 \<and> y = 0) \<or> (alen = blen \<and> idx = alen) then 0
             else if (alen = idx \<or> x = 0) \<and> alen < blen then -1
             else if (blen = idx \<or> y = 0) \<and> blen < alen then 1
             else if sint x > sint y then 1
             else -1)))"

text \<open>\<^verbatim>\<open>memcmp\<close>, of which C fixes only the sign.\<close>

fun memcmp :: "byte list \<Rightarrow> byte list \<Rightarrow> nat \<Rightarrow> int option" where
  "memcmp _ _ 0 = Some 0"
| "memcmp (x # a) (y # b) (Suc n) = (if x < y then Some (-1) else if x = y then memcmp a b n else Some 1)"
| "memcmp _ _ (Suc n) = None"

definition cmp_byte_compare :: cmp_fn where
  "cmp_byte_compare a alen b blen =
     (let ret = cmp_empty a alen b blen in
      if ret \<noteq> 2 then Some ret
      else case (a, b) of (Some p, Some q) \<Rightarrow> memcmp p q alen | _ \<Rightarrow> None)"

text \<open>The comparator that mdhim_leveldb_open installs for a key type.\<close>

definition key_cmp :: "int \<Rightarrow> cmp_fn" where
  "key_cmp key_type =
     (if key_type = MDHIM_INT_KEY then cmp_int_compare
      else if key_type = MDHIM_LONG_INT_KEY then cmp_lint_compare
      else if key_type = MDHIM_FLOAT_KEY then cmp_float_compare
      else if key_type = MDHIM_DOUBLE_KEY then cmp_double_compare
      else if key_type = MDHIM_STRING_KEY then cmp_string_compare
      else cmp_byte_compare)"

text \<open>How the database calls a comparator: with two keys that are there, and their lengths.\<close>

definition call_cmp :: "cmp_fn \<Rightarrow> byte list \<Rightarrow> byte list \<Rightarrow> int option" where
  "call_cmp cmp a b = cmp (Some a) (length a) (Some b) (length b)"

section \<open>The order of C strings\<close>

text \<open>Dictionary order with signed characters.\<close>

fun str_less :: "byte list \<Rightarrow> byte list \<Rightarrow> bool" where
  "str_less [] (y # t) = True"
| "str_less (x # s) (y # t) = (sint x < sint y \<or> x = y \<and> str_less s t)"
| "str_less s [] = False"

lemma str_less_irrefl: "\<not> str_less s s"
  by (induction s) auto

lemma str_less_trans: "str_less r s \<Longrightarrow> str_less s t \<Longrightarrow> str_less r t"
proof (induction r s arbitrary: t rule: str_less.induct)
  case (1 y s)
  then show ?case by (cases t) auto
next
  case (2 x r y s)
  then show ?case by (cases t) (auto intro: less_trans)
next
  case (3 s)
  then show ?case by simp
qed

lemma str_less_total: "s \<noteq> t \<Longrightarrow> str_less s t \<or> str_less t s"
proof (induction s t rule: str_less.induct)
  case (2 x s y t)
  then show ?case using signed_word_eqI [of x y] by (cases "sint x" "sint y" rule: linorder_cases) auto
qed (auto simp: neq_Nil_conv)

lemma str_less_asym: "str_less s t \<Longrightarrow> \<not> str_less t s"
  using str_less_trans str_less_irrefl by blast

text \<open>What the characters \<open>x\<close> and \<open>y\<close> at which the loop stops say about the strings.\<close>

definition stop_chars :: "byte list \<Rightarrow> byte list \<Rightarrow> byte \<Rightarrow> byte \<Rightarrow> bool" where
  "stop_chars s t x y \<longleftrightarrow> s = t \<and> x = 0 \<and> y = 0 \<or>
     x \<noteq> y \<and> (x = 0 \<longrightarrow> str_less s t \<and> length s < length t) \<and>
     (y = 0 \<longrightarrow> str_less t s \<and> length t < length s) \<and>
     (x \<noteq> 0 \<and> y \<noteq> 0 \<longrightarrow> (if sint x > sint y then str_less t s else str_less s t))"

lemma stop_chars_Cons: "stop_chars s t x y \<Longrightarrow> stop_chars (c # s) (c # t) x y"
  by (auto simp: stop_chars_def)

lemma cmp_string_loop_C:
  assumes "0 \<notin> set s" and "0 \<notin> set t" and "length s + k < alen" and "length t + k < blen"
  shows "\<exists>x y idx. cmp_string_loop (s @ [0]) alen (t @ [0]) blen k = Some (x, y, idx) \<and>
    idx < alen \<and> idx < blen \<and> stop_chars s t x y"
  using assms
proof (induction s arbitrary: t k)
  case Nil
  then show ?case by (cases t) (auto simp: stop_chars_def)
next
  case (Cons c s)
  show ?case
  proof (cases t)
    case Nil
    with Cons.prems show ?thesis by (auto simp: stop_chars_def)
  next
    case (Cons d u)
    show ?thesis
    proof (cases "c = d")
      case True
      then show ?thesis
        using Cons.IH [of u "Suc k"] Cons.prems Cons by (auto intro: stop_chars_Cons)
    next
      case False
      then have "sint c \<noteq> sint d" using signed_word_eqI by blast
      with False Cons.prems Cons show ?thesis by (auto simp: stop_chars_def)
    qed
  qed
qed

lemma cmp_string_C:
  assumes "0 \<notin> set s" and "0 \<notin> set t"
  shows "call_cmp cmp_string_compare (s @ [0]) (t @ [0]) =
    Some (if s = t then 0 else if str_less s t then -1 else 1)"
proof -
  let ?m = "length s + 1" and ?n = "length t + 1"
  obtain x y idx where loop: "cmp_string_loop (s @ [0]) ?m (t @ [0]) ?n 0 = Some (x, y, idx)"
    and idx: "idx < ?m" "idx < ?n" and cs: "stop_chars s t x y"
    using cmp_string_loop_C [OF assms, of 0 ?m ?n] by auto
  have "s \<noteq> t" if "str_less s t \<or> str_less t s" using that str_less_irrefl by blast
  with loop idx cs show ?thesis
    by (auto simp: call_cmp_def cmp_string_compare_def stop_chars_def dest: str_less_asym split: if_splits)
qed

section \<open>Total orders\<close>

text \<open>What the database asks of a comparator, on the keys that are valid for it.\<close>

locale key_order =
  fixes valid :: "byte list \<Rightarrow> bool" and cmp :: "byte list \<Rightarrow> byte list \<Rightarrow> int option"
  assumes defined: "valid a \<Longrightarrow> valid b \<Longrightarrow> cmp a b \<noteq> None"
    and zero: "valid a \<Longrightarrow> valid b \<Longrightarrow> cmp a b = Some 0 \<longleftrightarrow> a = b"
    and flip: "valid a \<Longrightarrow> valid b \<Longrightarrow> the (cmp a b) < 0 \<longleftrightarrow> 0 < the (cmp b a)"
    and trans: "valid a \<Longrightarrow> valid b \<Longrightarrow> valid c \<Longrightarrow> the (cmp a b) < 0 \<Longrightarrow> the (cmp b c) < 0 \<Longrightarrow>
      the (cmp a c) < 0"
begin

definition key_less :: "byte list \<Rightarrow> byte list \<Rightarrow> bool" where
  "key_less a b \<longleftrightarrow> the (cmp a b) < 0"

lemma key_less_irrefl: "valid a \<Longrightarrow> \<not> key_less a a"
  using zero [of a a] by (auto simp: key_less_def)

lemma key_less_trans: "valid a \<Longrightarrow> valid b \<Longrightarrow> valid c \<Longrightarrow> key_less a b \<Longrightarrow> key_less b c \<Longrightarrow> key_less a c"
  unfolding key_less_def by (rule trans)

lemma key_less_total:
  assumes "valid a" and "valid b" and "a \<noteq> b"
  shows "key_less a b \<or> key_less b a"
proof -
  have "cmp a b \<noteq> Some 0" "cmp a b \<noteq> None" using assms zero defined by blast+
  then show ?thesis using flip [OF assms(2,1)] by (auto simp: key_less_def)
qed

lemma not_less_iff: "valid a \<Longrightarrow> valid b \<Longrightarrow> \<not> key_less a b \<longleftrightarrow> a = b \<or> key_less b a"
  using key_less_total key_less_irrefl key_less_trans by blast

end

text \<open>Comparators given by a key that is injective on the valid keys.\<close>

lemma key_order_by:
  fixes f :: "byte list \<Rightarrow> 'a :: linorder"
  assumes "\<And>a b. valid a \<Longrightarrow> valid b \<Longrightarrow> cmp a b = Some (if f a < f b then -1 else if f a = f b then 0 else 1)"
    and "\<And>a b. valid a \<Longrightarrow> valid b \<Longrightarrow> f a = f b \<Longrightarrow> a = b"
  shows "key_order valid cmp"
proof (rule key_order.intro)
  fix a b c assume v: "valid a" "valid b"
  note cmp = assms(1) [OF v] assms(1) [OF v(2,1)]
  show "cmp a b \<noteq> None" using cmp by simp
  show "cmp a b = Some 0 \<longleftrightarrow> a = b" using cmp(1) assms(2) [OF v] by auto
  show "the (cmp a b) < 0 \<longleftrightarrow> 0 < the (cmp b a)" using cmp by auto
  assume "valid c"
  note cmp = cmp assms(1) [OF v(2) this] assms(1) [OF v(1) this]
  assume "the (cmp a b) < 0" "the (cmp b c) < 0"
  then have "f a < f b" "f b < f c" using cmp by (simp_all split: if_splits)
  then have "f a < f c" by (rule order.strict_trans)
  then show "the (cmp a c) < 0" using cmp by simp
qed

lemma byte_digits: "(x :: nat) < 256 \<Longrightarrow> y < 256 \<Longrightarrow> x + 256 * a = y + 256 * b \<Longrightarrow> x = y \<and> a = b"
proof -
  assume xy: "x < 256" "y < 256" and eq: "x + 256 * a = y + 256 * b"
  then have "(x + 256 * a) mod 256 = (y + 256 * b) mod 256" by simp
  with xy have "x = y" by simp
  with eq show ?thesis by simp
qed

lemma le_val_inject: "length a = length b \<Longrightarrow> le_val a = le_val b \<Longrightarrow> a = b"
proof (induction a b rule: list_induct2)
  case Nil
  then show ?case by simp
next
  case (Cons x xs y ys)
  have "unat x = unat y \<and> le_val xs = le_val ys"
    using Cons.prems by (intro byte_digits unat_byte_lt) simp
  then show ?case using Cons.IH by (simp add: unsigned_word_eqI)
qed

definition int_key :: "byte list \<Rightarrow> bool" where "int_key k \<longleftrightarrow> length k = 4"
definition lint_key :: "byte list \<Rightarrow> bool" where "lint_key k \<longleftrightarrow> length k = 8"

text \<open>A C string with its terminating NUL, the only one in it.\<close>

definition string_key :: "byte list \<Rightarrow> bool" where
  "string_key k \<longleftrightarrow> (\<exists>s. k = s @ [0] \<and> 0 \<notin> set s)"

lemma dec32_less: "length a = 4 \<Longrightarrow> length b = 4 \<Longrightarrow> dec32 a < dec32 b \<longleftrightarrow> le_val a < le_val b"
  using le_val_bound [of a] le_val_bound [of b] by (simp add: dec32_def word_less_nat_alt unat_of_nat_u32)

lemma dec64_less: "length a = 8 \<Longrightarrow> length b = 8 \<Longrightarrow> dec64 a < dec64 b \<longleftrightarrow> le_val a < le_val b"
  using le_val_bound [of a] le_val_bound [of b] by (simp add: dec64_def word_less_nat_alt unat_of_nat_u64)

interpretation int_order: key_order int_key "call_cmp cmp_int_compare"
proof (rule key_order_by [where f = le_val])
  fix a b assume "int_key a" "int_key b"
  then have len: "length a = 4" "length b = 4" by (simp_all add: int_key_def)
  have "dec32 a = dec32 b \<longleftrightarrow> le_val a = le_val b"
    using dec32_less [OF len] dec32_less [OF len(2,1)] by (metis linorder_neqE less_irrefl)
  then show "call_cmp cmp_int_compare a b =
      Some (if le_val a < le_val b then -1 else if le_val a = le_val b then 0 else 1)"
    using len by (simp add: call_cmp_def cmp_int_compare_def cmp_empty_def read_bytes_def dec32_less)
  show "le_val a = le_val b \<Longrightarrow> a = b" using le_val_inject len by simp
qed

interpretation lint_order: key_order lint_key "call_cmp cmp_lint_compare"
proof (rule key_order_by [where f = le_val])
  fix a b assume "lint_key a" "lint_key b"
  then have len: "length a = 8" "length b = 8" by (simp_all add: lint_key_def)
  have "dec64 a = dec64 b \<longleftrightarrow> le_val a = le_val b"
    using dec64_less [OF len] dec64_less [OF len(2,1)] by (metis linorder_neqE less_irrefl)
  then show "call_cmp cmp_lint_compare a b =
      Some (if le_val a < le_val b then -1 else if le_val a = le_val b then 0 else 1)"
    using len by (simp add: call_cmp_def cmp_lint_compare_def cmp_empty_def read_bytes_def dec64_less)
  show "le_val a = le_val b \<Longrightarrow> a = b" using le_val_inject len by simp
qed

interpretation string_order: key_order string_key "call_cmp cmp_string_compare"
  by unfold_locales
    (auto simp: string_key_def cmp_string_C str_less_irrefl split: if_splits
      dest: str_less_asym str_less_total intro: str_less_trans)

text \<open>Byte strings: shorter ones first, then by unsigned bytes.  With a leading 1 this is the order
  of the big-endian numbers.\<close>

definition be_val :: "nat \<Rightarrow> byte list \<Rightarrow> nat" where
  "be_val v bs = foldl (\<lambda>v b. 256 * v + unat b) v bs"

lemma be_val_simps [simp]: "be_val v [] = v" "be_val v (b # bs) = be_val (256 * v + unat b) bs"
  by (simp_all add: be_val_def)

lemma be_val_less: "length a = length b \<Longrightarrow> v < w \<Longrightarrow> be_val v a < be_val w b"
proof (induction a b arbitrary: v w rule: list_induct2)
  case Nil
  then show ?case by simp
next
  case (Cons x xs y ys)
  have "256 * v + unat x < 256 * w + unat y" using unat_byte_lt [of x] Cons.prems by simp
  then show ?case using Cons.IH by simp
qed

lemma be_val_bounds: "v * 256 ^ length a \<le> be_val v a" "be_val v a < Suc v * 256 ^ length a"
proof (induction a arbitrary: v)
  case Nil
  { case 1 show ?case by simp }
  { case 2 show ?case by simp }
next
  case (Cons x a)
  { case 1
    let ?w = "256 * v + unat x"
    have "v * 256 ^ length (x # a) = v * 256 * 256 ^ length a" by simp
    also have "\<dots> \<le> ?w * 256 ^ length a" by (intro mult_right_mono) (simp_all add: mult.commute)
    also have "\<dots> \<le> be_val ?w a" by (rule Cons.IH)
    finally show ?case by simp }
  { case 2
    let ?w = "256 * v + unat x"
    have "be_val ?w a < Suc ?w * 256 ^ length a" by (rule Cons.IH)
    also have "\<dots> \<le> (256 * Suc v) * 256 ^ length a"
      using unat_byte_lt [of x] by (intro mult_right_mono) (simp_all add: mult.commute)
    finally show ?case by (simp add: algebra_simps) }
qed

lemma be_val_inject: "length a = length b \<Longrightarrow> be_val v a = be_val v b \<Longrightarrow> a = b"
proof (induction a b arbitrary: v rule: list_induct2)
  case Nil
  then show ?case by simp
next
  case (Cons x xs y ys)
  have "256 * v + unat x = 256 * v + unat y"
    using Cons.prems be_val_less [OF Cons.hyps] be_val_less [OF Cons.hyps [symmetric]]
    by (metis be_val_simps(2) linorder_neqE_nat less_irrefl)
  then have "x = y" by (simp add: unsigned_word_eqI)
  then show ?case using Cons.IH Cons.prems by simp
qed

lemma be_val_shorter: "length a < length b \<Longrightarrow> be_val 1 a < be_val 1 b"
proof -
  assume "length a < length b"
  then have "2 * 256 ^ length a \<le> (256 :: nat) ^ length b"
    using power_increasing [of "Suc (length a)" "length b" "256 :: nat"] by simp
  then show ?thesis using be_val_bounds(2) [of 1 a] be_val_bounds(1) [of 1 b] by simp
qed

lemma memcmp_be_val:
  "length a = length b \<Longrightarrow>
   memcmp a b (length a) = Some (if be_val v a < be_val v b then -1 else if be_val v a = be_val v b then 0 else 1)"
proof (induction a b arbitrary: v rule: list_induct2)
  case Nil
  then show ?case by simp
next
  case (Cons x xs y ys)
  let ?v = "256 * v + unat x" and ?w = "256 * v + unat y"
  consider "x < y" | "x = y" | "y < x" by (rule linorder_cases)
  then show ?case
  proof cases
    case 1
    then show ?thesis using be_val_less [OF Cons.hyps, of ?v ?w] by (simp add: word_less_nat_alt)
  next
    case 2
    then show ?thesis using Cons.IH [of ?v] by simp
  next
    case 3
    then have "\<not> x < y" "x \<noteq> y" by auto
    with 3 show ?thesis
      using be_val_less [OF Cons.hyps [symmetric], of ?w ?v] by (auto simp: word_less_nat_alt)
  qed
qed

interpretation byte_order: key_order "\<lambda>_. True" "call_cmp cmp_byte_compare"
proof (rule key_order_by [where f = "be_val 1"])
  fix a b :: "byte list"
  show "call_cmp cmp_byte_compare a b =
      Some (if be_val 1 a < be_val 1 b then -1 else if be_val 1 a = be_val 1 b then 0 else 1)"
    using be_val_shorter [of a b] be_val_shorter [of b a] memcmp_be_val [of a b 1]
    by (auto simp: call_cmp_def cmp_byte_compare_def cmp_empty_def)
  assume "be_val 1 a = be_val 1 b"
  then show "a = b"
    using be_val_inject be_val_shorter [of a b] be_val_shorter [of b a] by (metis less_irrefl linorder_neqE_nat)
qed

section \<open>Properties\<close>

definition valid_key :: "int \<Rightarrow> byte list \<Rightarrow> bool" where
  "valid_key t k \<longleftrightarrow> (if t = MDHIM_INT_KEY then int_key k else if t = MDHIM_LONG_INT_KEY then lint_key k
     else if t = MDHIM_STRING_KEY then string_key k else t = MDHIM_BYTE_KEY)"

lemma key_order_valid:
  assumes "t \<in> {MDHIM_INT_KEY, MDHIM_LONG_INT_KEY, MDHIM_STRING_KEY, MDHIM_BYTE_KEY}"
  shows "key_order (valid_key t) (call_cmp (key_cmp t))"
proof -
  have "valid_key MDHIM_INT_KEY = int_key" "valid_key MDHIM_LONG_INT_KEY = lint_key"
    "valid_key MDHIM_STRING_KEY = string_key" "valid_key MDHIM_BYTE_KEY = (\<lambda>_. True)"
    by (simp_all add: valid_key_def key_types fun_eq_iff)
  then show ?thesis
    using assms int_order.key_order_axioms lint_order.key_order_axioms string_order.key_order_axioms
      byte_order.key_order_axioms
    by (auto simp: key_cmp_def key_types)
qed

text \<open>C15.  The comparator that is installed for integer, long integer, string or byte keys is a total
  order on the keys of that type (of 4 bytes, of 8 bytes, C strings, any bytes): it never reads
  outside a key, it finds exactly equal keys equal, and it is antisymmetric and transitive.\<close>

theorem key_comparators_total_order:
  assumes "t \<in> {MDHIM_INT_KEY, MDHIM_LONG_INT_KEY, MDHIM_STRING_KEY, MDHIM_BYTE_KEY}"
    and "valid_key t a" and "valid_key t b" and "valid_key t c"
  shows "\<exists>x y. call_cmp (key_cmp t) a b = Some x \<and> call_cmp (key_cmp t) b a = Some y \<and>
    (x = 0 \<longleftrightarrow> a = b) \<and> (x < 0 \<longleftrightarrow> 0 < y) \<and>
    (x < 0 \<and> the (call_cmp (key_cmp t) b c) < 0 \<longrightarrow> the (call_cmp (key_cmp t) a c) < 0)"
proof -
  note K = key_order_valid [OF assms(1)]
  obtain x y where xy: "call_cmp (key_cmp t) a b = Some x" "call_cmp (key_cmp t) b a = Some y"
    using key_order.defined [OF K] assms(2,3) by blast
  then show ?thesis
    using key_order.zero [OF K assms(2,3)] key_order.flip [OF K assms(2,3)] key_order.trans [OF K assms(2-4)]
    by auto
qed

theorem key_comparators_total_order_witness:
  "\<exists>x y. call_cmp (key_cmp MDHIM_STRING_KEY) [97, 98, 0] [97, 99, 0] = Some x \<and>
    call_cmp (key_cmp MDHIM_STRING_KEY) [97, 99, 0] [97, 98, 0] = Some y \<and> (x < 0 \<longleftrightarrow> 0 < y)"
proof -
  have s: "string_key [97, 98, 0]" "string_key [97, 99, 0]"
    using exI [of "\<lambda>s. [97, 98, 0 :: byte] = s @ [0] \<and> 0 \<notin> set s" "[97, 98]"]
      exI [of "\<lambda>s. [97, 99, 0 :: byte] = s @ [0] \<and> 0 \<notin> set s" "[97, 99]"]
    by (simp_all add: string_key_def)
  then have "valid_key MDHIM_STRING_KEY [97, 98, 0]" "valid_key MDHIM_STRING_KEY [97, 99, 0]"
    by (simp_all add: valid_key_def key_types)
  from key_comparators_total_order [OF _ this this(2), of] show ?thesis by auto
qed

text \<open>The string comparator orders C strings as a dictionary does, characters being signed.\<close>

theorem string_comparator_dictionary:
  assumes "0 \<notin> set s" and "0 \<notin> set t"
  shows "call_cmp (key_cmp MDHIM_STRING_KEY) (s @ [0]) (t @ [0]) =
    Some (if s = t then 0 else if str_less s t then -1 else 1)"
  using cmp_string_C [OF assms] by (simp add: key_cmp_def key_types)

theorem string_comparator_dictionary_witness:
  "call_cmp (key_cmp MDHIM_STRING_KEY) [97, 98, 0] [97, 99, 0] = Some (-1)"
  using string_comparator_dictionary [of "[97, 98]" "[97, 99]"] by simp

text \<open>The string comparator reads past the end of a key that is compared with an equal one when
  the key has no terminating NUL, although it is given the lengths: the loop looks at the
  characters before it looks at the lengths.\<close>

theorem unterminated_string_read_past_end:
  assumes "0 \<notin> set s"
  shows "call_cmp cmp_string_compare s s = None"
proof -
  have "cmp_string_loop s n s n k = None" if "length s + k \<le> n" for n k
    using that assms by (induction s arbitrary: k) auto
  from this [of 0 "length s"] show ?thesis by (simp add: call_cmp_def cmp_string_compare_def)
qed

theorem unterminated_string_read_past_end_witness: "call_cmp cmp_string_compare [97, 98] [97, 98] = None"
  using unterminated_string_read_past_end [of "[97, 98]"] by simp

end
