(* ===== verification/Data_Store.thy ===== *)
theory Data_Store
  imports Key_Compare
begin

text \<open>
  The data store of a range server: the functions of \<^verbatim>\<open>src/mdhimMods/src/ds_leveldb.c\<close> over
  LevelDB (a third-party library: a parameter, with what its documentation says of it as the
  interface \<open>leveldb_db\<close>), the table of functions of \<^verbatim>\<open>data_store.c\<close>, and the interface
  \<open>ordered_store\<close> that the range server relies on.  The first is interpreted on a sorted list,
  for every comparator of the code, and the second on the code's functions.

  A pointer and a length are a list of bytes; NULL with length 0 is the empty list where the code
  does not tell them apart.
\<close>

type_synonym key = "byte list"
type_synonym val = "byte list"

section \<open>LevelDB\<close>

text \<open>The first component of a result is true when the library sets the error string.  An
  iterator is a position; \<open>l_entry\<close> is what it points to, \<open>None\<close> when it is not valid.\<close>

record ('d, 'p) leveldb =
  l_put :: "'d \<Rightarrow> key \<Rightarrow> val \<Rightarrow> bool \<times> 'd"
  l_write :: "'d \<Rightarrow> (key \<times> val) list \<Rightarrow> bool \<times> 'd"
  l_delete :: "'d \<Rightarrow> key \<Rightarrow> bool \<times> 'd"
  l_get :: "'d \<Rightarrow> key \<Rightarrow> bool \<times> val option"
  l_first :: "'d \<Rightarrow> 'p"
  l_last :: "'d \<Rightarrow> 'p"
  l_seek :: "'d \<Rightarrow> key \<Rightarrow> 'p"
  l_next :: "'d \<Rightarrow> 'p \<Rightarrow> 'p"
  l_prev :: "'d \<Rightarrow> 'p \<Rightarrow> 'p"
  l_entry :: "'d \<Rightarrow> 'p \<Rightarrow> (key \<times> val) option"

section \<open>The functions over LevelDB\<close>

definition mdhim_leveldb_put :: "('d, 'p) leveldb \<Rightarrow> 'd \<Rightarrow> key \<Rightarrow> val \<Rightarrow> int \<times> 'd" where
  "mdhim_leveldb_put L db key data =
     (let (err, db') = l_put L db key data in (if err then MDHIM_DB_ERROR else MDHIM_SUCCESS, db'))"

definition mdhim_leveldb_batch_put :: "('d, 'p) leveldb \<Rightarrow> 'd \<Rightarrow> (key \<times> val) list \<Rightarrow> int \<times> 'd" where
  "mdhim_leveldb_batch_put L db records =
     (let write_batch = fold (\<lambda>r b. b @ [r]) records [];
          (err, db') = l_write L db write_batch
      in (if err then MDHIM_DB_ERROR else MDHIM_SUCCESS, db'))"

text \<open>The second component is \<open>*data\<close> with \<open>*data_len\<close>, \<open>None\<close> for NULL.\<close>

definition mdhim_leveldb_get :: "('d, 'p) leveldb \<Rightarrow> 'd \<Rightarrow> key \<Rightarrow> int \<times> val option" where
  "mdhim_leveldb_get L db key =
     (let (err, ldb_data) = l_get L db key
      in if err then (MDHIM_DB_ERROR, None)
         else let ldb_data_len = (case ldb_data of None \<Rightarrow> 0 | Some v \<Rightarrow> length v)
              in if ldb_data_len = 0 then (MDHIM_DB_ERROR, None) else (MDHIM_SUCCESS, ldb_data))"

text \<open>The part after positioning the iterator: \<open>*key\<close> and \<open>*data\<close>, or the error exit.  Two things are left
  out: the library writes the lengths as 8 bytes through the addresses of the 4-byte ints \<open>len\<close> and
  \<open>*key_len\<close> (the high half goes behind them), and a malloc that returns NULL for an empty value, as the
  C standard permits, would take the error exit; malloc of zero bytes is taken to return a block.\<close>

definition iter_result :: "('d, 'p) leveldb \<Rightarrow> 'd \<Rightarrow> 'p \<Rightarrow> int \<times> (key \<times> val) option" where
  "iter_result L db iter =
     (case l_entry L db iter of None \<Rightarrow> (MDHIM_DB_ERROR, None) | Some kv \<Rightarrow> (MDHIM_SUCCESS, Some kv))"

definition mdhim_leveldb_get_next :: "('d, 'p) leveldb \<Rightarrow> 'd \<Rightarrow> key \<Rightarrow> int \<times> (key \<times> val) option" where
  "mdhim_leveldb_get_next L db old_key =
     (if old_key = [] then iter_result L db (l_first L db)
      else let iter = l_seek L db old_key
           in if l_entry L db iter = None then (MDHIM_DB_ERROR, None)
              else iter_result L db (l_next L db iter))"

definition mdhim_leveldb_get_prev :: "('d, 'p) leveldb \<Rightarrow> 'd \<Rightarrow> key \<Rightarrow> int \<times> (key \<times> val) option" where
  "mdhim_leveldb_get_prev L db old_key =
     (if old_key = [] then iter_result L db (l_last L db)
      else let iter = l_seek L db old_key
           in if l_entry L db iter = None then (MDHIM_DB_ERROR, None)
              else iter_result L db (l_prev L db iter))"

definition mdhim_leveldb_del :: "('d, 'p) leveldb \<Rightarrow> 'd \<Rightarrow> key \<Rightarrow> int \<times> 'd" where
  "mdhim_leveldb_del L db key =
     (let (err, db') = l_delete L db key in (if err then MDHIM_DB_ERROR else MDHIM_SUCCESS, db'))"

definition mdhim_leveldb_commit :: "'d \<Rightarrow> int" where
  "mdhim_leveldb_commit dbh = MDHIM_SUCCESS"

section \<open>The table of functions\<close>

definition LEVELDB :: int where "LEVELDB = 1"
definition ROCKSDB :: int where "ROCKSDB = 4"

record 'd mdhim_store_t =
  s_type :: int
  s_put :: "'d \<Rightarrow> key \<Rightarrow> val \<Rightarrow> int \<times> 'd"
  s_batch_put :: "'d \<Rightarrow> (key \<times> val) list \<Rightarrow> int \<times> 'd"
  s_get :: "'d \<Rightarrow> key \<Rightarrow> int \<times> val option"
  s_get_next :: "'d \<Rightarrow> key \<Rightarrow> int \<times> (key \<times> val) option"
  s_get_prev :: "'d \<Rightarrow> key \<Rightarrow> int \<times> (key \<times> val) option"
  s_del :: "'d \<Rightarrow> key \<Rightarrow> int \<times> 'd"
  s_commit :: "'d \<Rightarrow> int"

text \<open>\<open>leveldb_support\<close> and \<open>rocksdb_support\<close> are the two compile-time switches.\<close>

definition mdhim_db_init :: "bool \<Rightarrow> bool \<Rightarrow> ('d, 'p) leveldb \<Rightarrow> int \<Rightarrow> 'd mdhim_store_t option" where
  "mdhim_db_init leveldb_support rocksdb_support L type =
     (if leveldb_support \<and> type = LEVELDB \<or> rocksdb_support \<and> type = ROCKSDB
      then Some \<lparr>s_type = type, s_put = mdhim_leveldb_put L, s_batch_put = mdhim_leveldb_batch_put L,
        s_get = mdhim_leveldb_get L, s_get_next = mdhim_leveldb_get_next L,
        s_get_prev = mdhim_leveldb_get_prev L, s_del = mdhim_leveldb_del L,
        s_commit = mdhim_leveldb_commit\<rparr>
      else None)"

section \<open>What LevelDB documents\<close>

text \<open>\<open>view\<close> is the contents in key order, \<open>ix\<close> the index a position stands for, \<open>inv\<close> the
  states the library can be in.\<close>

locale leveldb_db = key_order +
  fixes L :: "('d, 'p) leveldb" and view :: "'d \<Rightarrow> (key \<times> val) list" and ix :: "'d \<Rightarrow> 'p \<Rightarrow> nat"
    and inv :: "'d \<Rightarrow> bool"
  assumes view_sorted: "inv d \<Longrightarrow> sorted_wrt key_less (map fst (view d))"
    and view_valid: "inv d \<Longrightarrow> k \<in> fst ` set (view d) \<Longrightarrow> valid k"
    and ldb_put: "inv d \<Longrightarrow> valid k \<Longrightarrow> l_put L d k v = (False, d') \<Longrightarrow>
      inv d' \<and> map_of (view d') = (map_of (view d))(k \<mapsto> v)"
    and ldb_write: "inv d \<Longrightarrow> \<forall>r \<in> set rs. valid (fst r) \<Longrightarrow> l_write L d rs = (False, d') \<Longrightarrow>
      inv d' \<and> map_of (view d') = fold (\<lambda>(k, v) m. m(k \<mapsto> v)) rs (map_of (view d))"
    and ldb_delete: "inv d \<Longrightarrow> valid k \<Longrightarrow> l_delete L d k = (False, d') \<Longrightarrow>
      inv d' \<and> map_of (view d') = (map_of (view d))(k := None)"
    and ldb_get: "inv d \<Longrightarrow> valid k \<Longrightarrow> l_get L d k = (False, map_of (view d) k)"
    and ldb_entry: "inv d \<Longrightarrow> l_entry L d p = (if ix d p < length (view d) then Some (view d ! ix d p) else None)"
    and ldb_first: "inv d \<Longrightarrow> ix d (l_first L d) = 0"
    and ldb_last: "inv d \<Longrightarrow> view d \<noteq> [] \<Longrightarrow> ix d (l_last L d) = length (view d) - 1"
    and ldb_seek: "inv d \<Longrightarrow> valid k \<Longrightarrow>
      ix d (l_seek L d k) = length (takeWhile (\<lambda>e. key_less (fst e) k) (view d))"
    and ldb_next: "inv d \<Longrightarrow> ix d p < length (view d) \<Longrightarrow> ix d (l_next L d p) = Suc (ix d p)"
    and ldb_prev: "inv d \<Longrightarrow> ix d p < length (view d) \<Longrightarrow> ix d p \<noteq> 0 \<Longrightarrow> ix d (l_prev L d p) = ix d p - 1"
    and ldb_prev_0: "inv d \<Longrightarrow> ix d p = 0 \<Longrightarrow> length (view d) \<le> ix d (l_prev L d p)"

section \<open>What the range server relies on\<close>

text \<open>A cursor operation on an ordered list of entries, as the code does it: seek the first entry
  that is not below the key, then move by one.\<close>

definition entry_at :: "(key \<times> val) list \<Rightarrow> nat \<Rightarrow> int \<times> (key \<times> val) option" where
  "entry_at es i = (if i < length es then (MDHIM_SUCCESS, Some (es ! i)) else (MDHIM_DB_ERROR, None))"

definition next_entry :: "(key \<Rightarrow> key \<Rightarrow> bool) \<Rightarrow> (key \<times> val) list \<Rightarrow> key \<Rightarrow> int \<times> (key \<times> val) option" where
  "next_entry lt es k =
     (if k = [] then entry_at es 0
      else entry_at es (Suc (length (takeWhile (\<lambda>e. lt (fst e) k) es))))"

definition prev_entry :: "(key \<Rightarrow> key \<Rightarrow> bool) \<Rightarrow> (key \<times> val) list \<Rightarrow> key \<Rightarrow> int \<times> (key \<times> val) option" where
  "prev_entry lt es k =
     (if k = [] then entry_at (rev es) 0
      else let i = length (takeWhile (\<lambda>e. lt (fst e) k) es)
           in if i < length es \<and> i \<noteq> 0 then entry_at es (i - 1) else (MDHIM_DB_ERROR, None))"

definition found :: "val option \<Rightarrow> int \<times> val option" where
  "found r = (case r of None \<Rightarrow> (MDHIM_DB_ERROR, None)
     | Some v \<Rightarrow> if v = [] then (MDHIM_DB_ERROR, None) else (MDHIM_SUCCESS, Some v))"

locale ordered_store = key_order +
  fixes st :: "'d mdhim_store_t" and view :: "'d \<Rightarrow> (key \<times> val) list" and inv :: "'d \<Rightarrow> bool"
  assumes store_sorted: "inv d \<Longrightarrow> sorted_wrt key_less (map fst (view d))"
    and store_valid: "inv d \<Longrightarrow> k \<in> fst ` set (view d) \<Longrightarrow> valid k"
    and store_put: "inv d \<Longrightarrow> valid k \<Longrightarrow> s_put st d k v = (MDHIM_SUCCESS, d') \<Longrightarrow>
      inv d' \<and> map_of (view d') = (map_of (view d))(k \<mapsto> v)"
    and store_batch_put: "inv d \<Longrightarrow> \<forall>r \<in> set rs. valid (fst r) \<Longrightarrow> s_batch_put st d rs = (MDHIM_SUCCESS, d') \<Longrightarrow>
      inv d' \<and> map_of (view d') = fold (\<lambda>(k, v) m. m(k \<mapsto> v)) rs (map_of (view d))"
    and store_del: "inv d \<Longrightarrow> valid k \<Longrightarrow> s_del st d k = (MDHIM_SUCCESS, d') \<Longrightarrow>
      inv d' \<and> map_of (view d') = (map_of (view d))(k := None)"
    and store_get: "inv d \<Longrightarrow> valid k \<Longrightarrow> s_get st d k = found (map_of (view d) k)"
    and store_next: "inv d \<Longrightarrow> valid k \<or> k = [] \<Longrightarrow> s_get_next st d k = next_entry key_less (view d) k"
    and store_prev: "inv d \<Longrightarrow> valid k \<or> k = [] \<Longrightarrow> s_get_prev st d k = prev_entry key_less (view d) k"
begin

lemma store_distinct:
  assumes "inv d"
  shows "distinct (map fst (view d))"
proof -
  have "distinct ks" if "sorted_wrt key_less ks" "\<forall>k \<in> set ks. valid k" for ks
    using that by (induction ks) (auto dest: key_less_irrefl)
  then show ?thesis using store_sorted [OF assms] store_valid [OF assms] by auto
qed

end

lemma map_append_fold: "fold (\<lambda>r b. b @ [r]) rs b = b @ rs"
  by (induction rs arbitrary: b) simp_all

definition leveldb_store :: "('d, 'p) leveldb \<Rightarrow> 'd mdhim_store_t" where
  "leveldb_store L = the (mdhim_db_init True False L LEVELDB)"

lemma leveldb_store_fields [simp]:
  "s_put (leveldb_store L) = mdhim_leveldb_put L"
  "s_batch_put (leveldb_store L) = mdhim_leveldb_batch_put L"
  "s_get (leveldb_store L) = mdhim_leveldb_get L"
  "s_get_next (leveldb_store L) = mdhim_leveldb_get_next L"
  "s_get_prev (leveldb_store L) = mdhim_leveldb_get_prev L"
  "s_del (leveldb_store L) = mdhim_leveldb_del L"
  "s_commit (leveldb_store L) = mdhim_leveldb_commit"
  by (simp_all add: leveldb_store_def mdhim_db_init_def)

context leveldb_db
begin

lemma iter_result_entry: "inv d \<Longrightarrow> iter_result L d p = entry_at (view d) (ix d p)"
  by (simp add: iter_result_def ldb_entry entry_at_def)

lemma leveldb_next:
  assumes "inv d" and "valid k \<or> k = []"
  shows "mdhim_leveldb_get_next L d k = next_entry key_less (view d) k"
  using assms
  by (auto simp: mdhim_leveldb_get_next_def next_entry_def iter_result_entry ldb_first ldb_entry
      ldb_seek ldb_next entry_at_def Let_def)

lemma leveldb_prev:
  assumes "inv d" and "valid k \<or> k = []"
  shows "mdhim_leveldb_get_prev L d k = prev_entry key_less (view d) k"
proof (cases "k = []")
  case True
  show ?thesis
  proof (cases "view d = []")
    case False
    with True assms show ?thesis
      by (simp add: mdhim_leveldb_get_prev_def prev_entry_def iter_result_entry ldb_last entry_at_def rev_nth)
  next
    case empty: True
    with True assms show ?thesis
      by (simp add: mdhim_leveldb_get_prev_def prev_entry_def iter_result_entry entry_at_def)
  qed
next
  case False
  with assms have k: "valid k" by simp
  let ?p = "l_seek L d k"
  show ?thesis
    using False assms(1) ldb_seek [OF assms(1) k] ldb_prev [OF assms(1), of ?p] ldb_prev_0 [OF assms(1), of ?p]
    by (auto simp: mdhim_leveldb_get_prev_def prev_entry_def iter_result_entry ldb_entry entry_at_def Let_def)
qed

end

sublocale leveldb_db \<subseteq> ordered_store valid cmp "leveldb_store L" view inv
proof unfold_locales
  fix d assume inv: "inv d"
  show "sorted_wrt key_less (map fst (view d))" by (rule view_sorted [OF inv])
  show "s_get_next (leveldb_store L) d k = next_entry key_less (view d) k"
    and "s_get_prev (leveldb_store L) d k = prev_entry key_less (view d) k" if "valid k \<or> k = []" for k
    using leveldb_next leveldb_prev inv that by simp_all
  fix k
  show "k \<in> fst ` set (view d) \<Longrightarrow> valid k" by (rule view_valid [OF inv])
  {
    fix rs d' assume "\<forall>r \<in> set rs. valid (fst r)" "s_batch_put (leveldb_store L) d rs = (MDHIM_SUCCESS, d')"
    then show "inv d' \<and> map_of (view d') = fold (\<lambda>(k, v) m. m(k \<mapsto> v)) rs (map_of (view d))"
      using ldb_write [OF inv, of rs d']
      by (auto simp: mdhim_leveldb_batch_put_def map_append_fold return_codes split: prod.splits if_splits)
  }
  assume k: "valid k"
  show "s_get (leveldb_store L) d k = found (map_of (view d) k)"
    using ldb_get [OF inv k] by (auto simp: mdhim_leveldb_get_def found_def split: option.splits)
  fix v d'
  show "inv d' \<and> map_of (view d') = (map_of (view d))(k \<mapsto> v)"
    if "s_put (leveldb_store L) d k v = (MDHIM_SUCCESS, d')"
    using that ldb_put [OF inv k, of v d']
    by (auto simp: mdhim_leveldb_put_def return_codes split: prod.splits if_splits)
  show "inv d' \<and> map_of (view d') = (map_of (view d))(k := None)"
    if "s_del (leveldb_store L) d k = (MDHIM_SUCCESS, d')"
    using that ldb_delete [OF inv k, of d']
    by (auto simp: mdhim_leveldb_del_def return_codes split: prod.splits if_splits)
qed

section \<open>A sorted list as the library\<close>

fun sorted_ins :: "(key \<Rightarrow> key \<Rightarrow> bool) \<Rightarrow> key \<Rightarrow> val \<Rightarrow> (key \<times> val) list \<Rightarrow> (key \<times> val) list" where
  "sorted_ins lt k v [] = [(k, v)]"
| "sorted_ins lt k v ((j, w) # es) =
     (if j = k then (k, v) # es else if lt k j then (k, v) # (j, w) # es
      else (j, w) # sorted_ins lt k v es)"

definition ref_leveldb :: "(key \<Rightarrow> key \<Rightarrow> bool) \<Rightarrow> ((key \<times> val) list, nat) leveldb" where
  "ref_leveldb lt = \<lparr>l_put = \<lambda>d k v. (False, sorted_ins lt k v d),
     l_write = \<lambda>d rs. (False, fold (\<lambda>(k, v). sorted_ins lt k v) rs d),
     l_delete = \<lambda>d k. (False, filter (\<lambda>e. fst e \<noteq> k) d),
     l_get = \<lambda>d k. (False, map_of d k), l_first = \<lambda>d. 0, l_last = \<lambda>d. length d - 1,
     l_seek = \<lambda>d k. length (takeWhile (\<lambda>e. lt (fst e) k) d), l_next = \<lambda>d p. Suc p,
     l_prev = \<lambda>d p. if p = 0 then length d else p - 1,
     l_entry = \<lambda>d p. if p < length d then Some (d ! p) else None\<rparr>"

definition ref_db_inv :: "(key \<Rightarrow> bool) \<Rightarrow> (key \<Rightarrow> key \<Rightarrow> bool) \<Rightarrow> (key \<times> val) list \<Rightarrow> bool" where
  "ref_db_inv valid lt d \<longleftrightarrow> sorted_wrt lt (map fst d) \<and> (\<forall>k \<in> fst ` set d. valid k)"

lemma map_of_sorted_ins: "map_of (sorted_ins lt k v es) = (map_of es)(k \<mapsto> v)"
  by (induction lt k v es rule: sorted_ins.induct) (auto simp: fun_eq_iff)

lemma fst_set_sorted_ins: "fst ` set (sorted_ins lt k v es) = insert k (fst ` set es)"
  by (induction lt k v es rule: sorted_ins.induct) auto

context key_order
begin

lemma sorted_ins_inv:
  "ref_db_inv valid key_less d \<Longrightarrow> valid k \<Longrightarrow> ref_db_inv valid key_less (sorted_ins key_less k v d)"
proof (induction d)
  case Nil
  then show ?case by (simp add: ref_db_inv_def)
next
  case (Cons e es)
  obtain j w where e: "e = (j, w)" by (cases e)
  have es: "ref_db_inv valid key_less es" and j: "valid j"
    and below: "\<forall>i \<in> fst ` set es. key_less j i" and v: "\<forall>i \<in> fst ` set es. valid i"
    using Cons.prems(1) by (simp_all add: ref_db_inv_def e)
  consider "j = k" | "j \<noteq> k" "key_less k j" | "j \<noteq> k" "\<not> key_less k j" by blast
  then show ?case
  proof cases
    case 1
    then show ?thesis using es j below v by (simp add: e ref_db_inv_def)
  next
    case 2
    then have "\<forall>i \<in> fst ` set es. key_less k i"
      using key_less_trans [OF Cons.prems(2) j _ 2(2)] below v by blast
    then show ?thesis using 2 es j below v Cons.prems(2) by (simp add: e ref_db_inv_def)
  next
    case 3
    then have "key_less j k" using not_less_iff [OF Cons.prems(2) j] by blast
    then have "\<forall>i \<in> fst ` set (sorted_ins key_less k v es). key_less j i"
      using below by (simp add: fst_set_sorted_ins)
    then show ?thesis using 3 Cons.IH [OF es Cons.prems(2)] j by (simp add: e ref_db_inv_def)
  qed
qed

lemma fold_sorted_ins:
  "ref_db_inv valid key_less d \<Longrightarrow> \<forall>r \<in> set rs. valid (fst r) \<Longrightarrow>
   ref_db_inv valid key_less (fold (\<lambda>(k, v). sorted_ins key_less k v) rs d) \<and>
   map_of (fold (\<lambda>(k, v). sorted_ins key_less k v) rs d) = fold (\<lambda>(k, v) m. m(k \<mapsto> v)) rs (map_of d)"
proof (induction rs arbitrary: d)
  case Nil
  then show ?case by simp
next
  case (Cons r rs)
  obtain k v where r: "r = (k, v)" by (cases r)
  have "ref_db_inv valid key_less (sorted_ins key_less k v d)"
    using Cons.prems by (intro sorted_ins_inv) (simp_all add: r)
  with Cons show ?case by (simp add: r map_of_sorted_ins del: fun_upd_apply)
qed

end

lemma filter_inv: "ref_db_inv valid lt d \<Longrightarrow> ref_db_inv valid lt (filter P d)"
  by (induction d) (auto simp: ref_db_inv_def)

sublocale key_order \<subseteq> ref_db: leveldb_db valid cmp "ref_leveldb key_less" "\<lambda>d. d" "\<lambda>d p. p"
    "ref_db_inv valid key_less"
proof unfold_locales
  fix d :: "(key \<times> val) list" assume inv: "ref_db_inv valid key_less d"
  show "sorted_wrt key_less (map fst d)" using inv by (simp add: ref_db_inv_def)
  show "valid k" if "k \<in> fst ` set d" for k using inv that by (auto simp: ref_db_inv_def)
  show "ref_db_inv valid key_less d' \<and> map_of d' = (map_of d)(k \<mapsto> v)"
    if "valid k" "l_put (ref_leveldb key_less) d k v = (False, d')" for k v d'
    using that sorted_ins_inv [OF inv, of k v] by (auto simp: ref_leveldb_def map_of_sorted_ins)
  show "ref_db_inv valid key_less d' \<and> map_of d' = fold (\<lambda>(k, v) m. m(k \<mapsto> v)) rs (map_of d)"
    if "\<forall>r \<in> set rs. valid (fst r)" "l_write (ref_leveldb key_less) d rs = (False, d')" for rs d'
    using that fold_sorted_ins [OF inv, of rs] by (auto simp: ref_leveldb_def)
  show "ref_db_inv valid key_less d' \<and> map_of d' = (map_of d)(k := None)"
    if "valid k" "l_delete (ref_leveldb key_less) d k = (False, d')" for k d'
    using that filter_inv [OF inv] by (auto simp: ref_leveldb_def map_of_filter_neq)
qed (auto simp: ref_leveldb_def)

context key_order
begin

lemma ref_leveldb_db:
  "leveldb_db valid cmp (ref_leveldb key_less) (\<lambda>d. d) (\<lambda>d p. p) (ref_db_inv valid key_less)"
  by unfold_locales

end

interpretation int_store: ordered_store int_key "call_cmp cmp_int_compare"
    "leveldb_store (ref_leveldb int_order.key_less)" "\<lambda>d. d" "ref_db_inv int_key int_order.key_less"
  by unfold_locales

section \<open>Properties\<close>

context leveldb_db
begin

text \<open>The index that a seek finds.\<close>

lemma seek_index:
  assumes "inv d" and "i < length (view d)"
  shows "length (takeWhile (\<lambda>e. key_less (fst e) (fst (view d ! i))) (view d)) = i"
proof (rule length_takeWhile_eq)
  show "i \<le> length (view d)" using assms(2) by simp
  show "key_less (fst (view d ! j)) (fst (view d ! i))" if "j < i" for j
    using that assms(2) view_sorted [OF assms(1)] by (simp add: sorted_wrt_iff_nth_less)
  have "valid (fst (view d ! i))" using assms by (intro view_valid) auto
  then show "i < length (view d) \<Longrightarrow> \<not> key_less (fst (view d ! i)) (fst (view d ! i))"
    by (rule key_less_irrefl)
qed

lemma get_found: "inv d \<Longrightarrow> valid k \<Longrightarrow> mdhim_leveldb_get L d k = found (map_of (view d) k)"
  using store_get [of d k] by simp

lemma put_found:
  assumes "inv d" and "valid k" and "valid j" and "mdhim_leveldb_put L d k v = (MDHIM_SUCCESS, d')"
  shows "mdhim_leveldb_get L d' j = found (if j = k then Some v else map_of (view d) j)"
  using store_put [OF assms(1,2), of v d'] assms(3,4) get_found by simp

lemma del_found:
  assumes "inv d" and "valid k" and "valid j" and "mdhim_leveldb_del L d k = (MDHIM_SUCCESS, d')"
  shows "mdhim_leveldb_get L d' j = found (if j = k then None else map_of (view d) j)"
  using store_del [OF assms(1,2), of d'] assms(3,4) get_found by simp

lemma walk_entry:
  assumes "inv d" and "i < length (view d)" and "fst (view d ! i) \<noteq> []"
  shows "mdhim_leveldb_get_next L d (fst (view d ! i)) = entry_at (view d) (Suc i) \<and>
    mdhim_leveldb_get_prev L d (fst (view d ! i)) =
      (if i = 0 then (MDHIM_DB_ERROR, None) else entry_at (view d) (i - 1))"
proof -
  have "valid (fst (view d ! i))" using assms by (intro view_valid) auto
  then show ?thesis
    using assms seek_index [OF assms(1,2)]
    by (simp add: leveldb_next leveldb_prev next_entry_def prev_entry_def Let_def)
qed

lemma absent:
  assumes "inv d" and "valid k" and "k \<noteq> []" and "i \<le> length (view d)"
    and "\<forall>j < i. the (cmp (fst (view d ! j)) k) < 0"
    and "i < length (view d) \<longrightarrow> the (cmp k (fst (view d ! i))) < 0"
  shows "mdhim_leveldb_get_next L d k =
      (if Suc i < length (view d) then (MDHIM_SUCCESS, Some (view d ! Suc i)) else (MDHIM_DB_ERROR, None)) \<and>
    mdhim_leveldb_get_prev L d k =
      (if i \<noteq> 0 \<and> i < length (view d) then (MDHIM_SUCCESS, Some (view d ! (i - 1))) else (MDHIM_DB_ERROR, None))"
proof -
  have "length (takeWhile (\<lambda>e. key_less (fst e) k) (view d)) = i"
  proof (rule length_takeWhile_eq)
    show "i \<le> length (view d)" by fact
    show "key_less (fst (view d ! j)) k" if "j < i" for j using that assms(5) by (simp add: key_less_def)
    assume i: "i < length (view d)"
    then have "valid (fst (view d ! i))" using assms(1) by (intro view_valid) auto
    moreover have "key_less k (fst (view d ! i))" using i assms(6) by (simp add: key_less_def)
    ultimately show "\<not> key_less (fst (view d ! i)) k"
      using assms(2) key_less_trans key_less_irrefl by blast
  qed
  then show ?thesis
    using assms(1-4) by (auto simp: leveldb_next leveldb_prev next_entry_def prev_entry_def entry_at_def Let_def)
qed

lemma walk:
  assumes "inv d" and "i < length (view d)" and "fst (view d ! i) \<noteq> []"
  shows "sorted_wrt (\<lambda>a b. the (cmp a b) < 0) (map fst (view d)) \<and>
    mdhim_leveldb_get_next L d [] = (MDHIM_SUCCESS, Some (hd (view d))) \<and>
    mdhim_leveldb_get_prev L d [] = (MDHIM_SUCCESS, Some (last (view d))) \<and>
    mdhim_leveldb_get_next L d (fst (view d ! i)) =
      (if Suc i < length (view d) then (MDHIM_SUCCESS, Some (view d ! Suc i)) else (MDHIM_DB_ERROR, None)) \<and>
    mdhim_leveldb_get_prev L d (fst (view d ! i)) =
      (if i = 0 then (MDHIM_DB_ERROR, None) else (MDHIM_SUCCESS, Some (view d ! (i - 1))))"
proof -
  have ne: "view d \<noteq> []" using assms(2) by auto
  have "mdhim_leveldb_get_next L d [] = (MDHIM_SUCCESS, Some (hd (view d)))"
    using ne by (simp add: leveldb_next [OF assms(1)] next_entry_def entry_at_def hd_conv_nth)
  moreover have "mdhim_leveldb_get_prev L d [] = (MDHIM_SUCCESS, Some (last (view d)))"
    using ne by (simp add: leveldb_prev [OF assms(1)] prev_entry_def entry_at_def rev_nth last_conv_nth)
  moreover have "(\<lambda>a b. the (cmp a b) < 0) = key_less" by (simp add: key_less_def fun_eq_iff)
  ultimately show ?thesis
    using walk_entry [OF assms] view_sorted [OF assms(1)] assms(2) by (auto simp: entry_at_def)
qed

end

text \<open>C17.  Over any library that behaves as LevelDB documents, with the comparator of the key type,
  putting a record and getting its key returns the value, except that an empty value is an error;
  a get after a delete fails; and neither changes what a get of another key returns.\<close>

theorem store_put_get_del:
  assumes "leveldb_db valid cmp L view ix I" and "I d" and "valid k" and "valid j"
  shows "(\<forall>v d'. mdhim_leveldb_put L d k v = (MDHIM_SUCCESS, d') \<longrightarrow>
      mdhim_leveldb_get L d' k = (if v = [] then (MDHIM_DB_ERROR, None) else (MDHIM_SUCCESS, Some v)) \<and>
      (j \<noteq> k \<longrightarrow> mdhim_leveldb_get L d' j = mdhim_leveldb_get L d j)) \<and>
    (\<forall>d'. mdhim_leveldb_del L d k = (MDHIM_SUCCESS, d') \<longrightarrow>
      mdhim_leveldb_get L d' k = (MDHIM_DB_ERROR, None) \<and>
      (j \<noteq> k \<longrightarrow> mdhim_leveldb_get L d' j = mdhim_leveldb_get L d j))"
  using leveldb_db.put_found [OF assms(1-3,3)] leveldb_db.put_found [OF assms(1-4)]
    leveldb_db.del_found [OF assms(1-3,3)] leveldb_db.del_found [OF assms(1-4)]
    leveldb_db.get_found [OF assms(1,2,4)]
  by (simp add: found_def)

lemma cmp_int_enc32:
  "call_cmp cmp_int_compare (enc32 a) (enc32 b) = Some (if a < b then -1 else if a = b then 0 else 1)"
  by (simp add: call_cmp_def cmp_int_compare_def cmp_empty_def read_bytes_def)

lemma enc32_not_Nil: "enc32 a \<noteq> []"
  using length_enc32 [of a] by (metis list.size(3) zero_neq_numeral)

definition sample_db :: "(key \<times> val) list" where
  "sample_db = map (\<lambda>(k, v). (enc32 k, [v])) [(2, 20), (4, 40), (6, 60)]"

lemma sample_db: "ref_db_inv int_key int_order.key_less sample_db"
  by (simp add: ref_db_inv_def sample_db_def int_order.key_less_def int_key_def call_cmp_def
      cmp_int_compare_def cmp_empty_def read_bytes_def)

theorem store_put_get_del_witness:
  "mdhim_leveldb_get (ref_leveldb int_order.key_less)
     (snd (mdhim_leveldb_put (ref_leveldb int_order.key_less) sample_db (enc32 3) [30])) (enc32 3) =
   (MDHIM_SUCCESS, Some [30])"
proof -
  let ?L = "ref_leveldb int_order.key_less"
  have k: "int_key (enc32 3)" by (simp add: int_key_def)
  have "fst (mdhim_leveldb_put ?L sample_db (enc32 3) [30]) = MDHIM_SUCCESS"
    by (simp add: mdhim_leveldb_put_def ref_leveldb_def)
  with store_put_get_del [OF int_order.ref_leveldb_db sample_db k k] show ?thesis
    by (metis list.discI prod.collapse)
qed

text \<open>C16.  Walking the records: from the key of a stored record, get_next returns the next record in
  key order and get_prev the one before it, with an error at the ends; without a key they return
  the first and the last record.\<close>

theorem cursor_walks_in_order:
  assumes "leveldb_db valid cmp L view ix I" and "I d" and "i < length (view d)"
    and "fst (view d ! i) \<noteq> []"
  shows "sorted_wrt (\<lambda>a b. the (cmp a b) < 0) (map fst (view d)) \<and>
    mdhim_leveldb_get_next L d [] = (MDHIM_SUCCESS, Some (hd (view d))) \<and>
    mdhim_leveldb_get_prev L d [] = (MDHIM_SUCCESS, Some (last (view d))) \<and>
    mdhim_leveldb_get_next L d (fst (view d ! i)) =
      (if Suc i < length (view d) then (MDHIM_SUCCESS, Some (view d ! Suc i)) else (MDHIM_DB_ERROR, None)) \<and>
    mdhim_leveldb_get_prev L d (fst (view d ! i)) =
      (if i = 0 then (MDHIM_DB_ERROR, None) else (MDHIM_SUCCESS, Some (view d ! (i - 1))))"
  using assms(2-) by (rule leveldb_db.walk [OF assms(1)])

theorem cursor_walks_in_order_witness:
  "mdhim_leveldb_get_next (ref_leveldb int_order.key_less) sample_db (enc32 2) =
     (MDHIM_SUCCESS, Some (enc32 4, [40])) \<and>
   mdhim_leveldb_get_prev (ref_leveldb int_order.key_less) sample_db (enc32 2) = (MDHIM_DB_ERROR, None)"
  using cursor_walks_in_order [OF int_order.ref_leveldb_db sample_db, of 0]
  by (simp add: sample_db_def enc32_not_Nil)

text \<open>The cursor operations from a key that is not stored, which lies between the records \<open>i - 1\<close>
  and \<open>i\<close>: get_next leaves out the next larger record \<open>i\<close> and returns the one after it; and from
  a key beyond the last record get_prev is an error, whatever is stored below it.\<close>

theorem cursor_from_absent_key:
  assumes "leveldb_db valid cmp L view ix I" and "I d" and "valid k" and "k \<noteq> []"
    and "i \<le> length (view d)" and "\<forall>j < i. the (cmp (fst (view d ! j)) k) < 0"
    and "i < length (view d) \<longrightarrow> the (cmp k (fst (view d ! i))) < 0"
  shows "mdhim_leveldb_get_next L d k =
      (if Suc i < length (view d) then (MDHIM_SUCCESS, Some (view d ! Suc i)) else (MDHIM_DB_ERROR, None)) \<and>
    mdhim_leveldb_get_prev L d k =
      (if i \<noteq> 0 \<and> i < length (view d) then (MDHIM_SUCCESS, Some (view d ! (i - 1))) else (MDHIM_DB_ERROR, None))"
  using assms(2-) by (rule leveldb_db.absent [OF assms(1)])

theorem cursor_from_absent_key_witness:
  "mdhim_leveldb_get_next (ref_leveldb int_order.key_less) sample_db (enc32 3) =
     (MDHIM_SUCCESS, Some (enc32 6, [60])) \<and>
   mdhim_leveldb_get_prev (ref_leveldb int_order.key_less) sample_db (enc32 7) = (MDHIM_DB_ERROR, None)"
proof -
  have keys: "int_key (enc32 3)" "int_key (enc32 7)" by (simp_all add: int_key_def)
  have below: "\<forall>j < 3. the (call_cmp cmp_int_compare (fst (sample_db ! j)) (enc32 7)) < 0"
    by (auto simp: sample_db_def cmp_int_enc32 numeral_3_eq_3 less_Suc_eq)
  have "mdhim_leveldb_get_next (ref_leveldb int_order.key_less) sample_db (enc32 3) =
      (MDHIM_SUCCESS, Some (enc32 6, [60]))"
    using cursor_from_absent_key [OF int_order.ref_leveldb_db sample_db keys(1) enc32_not_Nil, of 1]
    by (simp add: sample_db_def cmp_int_enc32)
  moreover have "mdhim_leveldb_get_prev (ref_leveldb int_order.key_less) sample_db (enc32 7) =
      (MDHIM_DB_ERROR, None)"
    using cursor_from_absent_key [OF int_order.ref_leveldb_db sample_db keys(2) enc32_not_Nil _ below]
    by (simp add: sample_db_def)
  ultimately show ?thesis ..
qed

end
