(* ===== verification/Uthash.thy ===== *)
theory Uthash
  imports Prelude
begin

text \<open>
  The hash table of \<^verbatim>\<open>mdhimMods/src/uthash/uthash.h\<close> with 4-byte integer keys, as the
  partitioner, the range server and \<^verbatim>\<open>hashUtils.c\<close> use it: elements on a heap of
  handles, the application-order list, the buckets with their chains, bucket expansion
  with its back-off, and the macros HASH_FIND_INT, HASH_ADD_INT, HASH_REPLACE_INT,
  HASH_DEL, HASH_ITER and HASH_COUNT.  A pointer to an element is a natural number, fresh
  for every \<^verbatim>\<open>malloc\<close> of an element; the head pointer is \<open>None\<close> for NULL.  The
  interface \<open>int_table\<close> states what the macros promise over the list of key/value pairs
  in application order, and is interpreted here on the macros.  The numbers of items and of buckets,
  unsigned ints of 32 bits in the code, are natural numbers here: the macros agree with the model for
  tables of fewer than \<open>2 ^ 31\<close> items.
\<close>

section \<open>Data\<close>

record 'v UT_hash_handle =
  hh_key :: u32
  hh_hashv :: u32
  hh_val :: 'v

record UT_hash_bucket =
  bk_chain :: "nat list"
  bk_count :: nat
  bk_expand_mult :: nat

record 'v UT_hash_table =
  tb_heap :: "nat \<rightharpoonup> 'v UT_hash_handle"
  tb_next :: nat
  tb_order :: "nat list"
  tb_buckets :: "UT_hash_bucket list"
  tb_log2_num_buckets :: nat
  tb_num_items :: nat
  tb_ideal_chain_maxlen :: nat
  tb_nonideal_items :: nat
  tb_ineff_expands :: nat
  tb_noexpand :: bool

type_synonym 'v ut_head = "'v UT_hash_table option"

definition HASH_INITIAL_NUM_BUCKETS :: nat where "HASH_INITIAL_NUM_BUCKETS = 32"
definition HASH_BKT_CAPACITY_THRESH :: nat where "HASH_BKT_CAPACITY_THRESH = 10"

section \<open>The Jenkins hash of an integer key\<close>

definition HASH_JEN_MIX :: "u32 \<times> u32 \<times> u32 \<Rightarrow> u32 \<times> u32 \<times> u32" where
  "HASH_JEN_MIX = (\<lambda>(a, b, c).
     let a = a - b; a = a - c; a = a XOR drop_bit 13 c;
         b = b - c; b = b - a; b = b XOR push_bit 8 a;
         c = c - a; c = c - b; c = c XOR drop_bit 13 b;
         a = a - b; a = a - c; a = a XOR drop_bit 12 c;
         b = b - c; b = b - a; b = b XOR push_bit 16 a;
         c = c - a; c = c - b; c = c XOR drop_bit 5 b;
         a = a - b; a = a - c; a = a XOR drop_bit 3 c;
         b = b - c; b = b - a; b = b XOR push_bit 10 a;
         c = c - a; c = c - b; c = c XOR drop_bit 15 b
     in (a, b, c))"

text \<open>For a key of four bytes the block loop does not run and the cases 4 to 1 of the
  switch add the whole little-endian key to the first word.\<close>

definition HASH_JEN :: "u32 \<Rightarrow> u32" where
  "HASH_JEN key =
     (let i = 0x9e3779b9; j = 0x9e3779b9; hashv = 0xfeedbeef + 4;
          i = i + (key AND 0xff000000);
          i = i + (key AND 0x00ff0000);
          i = i + (key AND 0x0000ff00);
          i = i + (key AND 0x000000ff)
      in snd (snd (HASH_JEN_MIX (i, j, hashv))))"

definition HASH_TO_BKT :: "u32 \<Rightarrow> nat \<Rightarrow> nat" where
  "HASH_TO_BKT hashv num_bkts = unat (hashv AND (of_nat num_bkts - 1))"

section \<open>Operations\<close>

definition empty_bucket :: UT_hash_bucket where
  "empty_bucket = \<lparr>bk_chain = [], bk_count = 0, bk_expand_mult = 0\<rparr>"

definition HASH_MAKE_TABLE :: "'v UT_hash_table" where
  "HASH_MAKE_TABLE =
     \<lparr>tb_heap = Map.empty, tb_next = 0, tb_order = [],
      tb_buckets = replicate HASH_INITIAL_NUM_BUCKETS empty_bucket,
      tb_log2_num_buckets = 5, tb_num_items = 0, tb_ideal_chain_maxlen = 0,
      tb_nonideal_items = 0, tb_ineff_expands = 0, tb_noexpand = False\<rparr>"

definition elem :: "'v UT_hash_table \<Rightarrow> nat \<Rightarrow> 'v UT_hash_handle" where
  "elem t p = the (tb_heap t p)"

fun HASH_FIND_IN_BKT :: "'v UT_hash_table \<Rightarrow> u32 \<Rightarrow> nat list \<Rightarrow> nat option" where
  "HASH_FIND_IN_BKT t k [] = None"
| "HASH_FIND_IN_BKT t k (p # ps) =
     (if hh_key (elem t p) = k then Some p else HASH_FIND_IN_BKT t k ps)"

definition HASH_FIND_INT :: "'v ut_head \<Rightarrow> u32 \<Rightarrow> nat option" where
  "HASH_FIND_INT head k =
     (case head of None \<Rightarrow> None
      | Some t \<Rightarrow>
          HASH_FIND_IN_BKT t k
            (bk_chain (tb_buckets t ! HASH_TO_BKT (HASH_JEN k) (length (tb_buckets t)))))"

text \<open>One element moved to its new bucket; the state is the new buckets and the number
  of elements beyond the ideal chain length.\<close>

definition expand_move ::
  "nat \<Rightarrow> nat \<Rightarrow> 'v UT_hash_table \<Rightarrow> nat \<Rightarrow> UT_hash_bucket list \<times> nat \<Rightarrow> UT_hash_bucket list \<times> nat"
  where
  "expand_move new_num ideal t p = (\<lambda>(bs, nonideal).
     let i = HASH_TO_BKT (hh_hashv (elem t p)) new_num;
         b = bs ! i;
         cnt = Suc (bk_count b);
         b' = b\<lparr>bk_count := cnt, bk_chain := p # bk_chain b,
                bk_expand_mult := (if cnt > ideal then cnt div ideal else bk_expand_mult b)\<rparr>
     in (bs[i := b'], if cnt > ideal then Suc nonideal else nonideal))"

definition HASH_EXPAND_BUCKETS :: "'v UT_hash_table \<Rightarrow> 'v UT_hash_table" where
  "HASH_EXPAND_BUCKETS t =
     (let n = length (tb_buckets t);
          items = tb_num_items t;
          ideal = items div 2 ^ (tb_log2_num_buckets t + 1) +
                  (if items mod (2 * n) \<noteq> 0 then 1 else 0);
          (bs, nonideal) = fold (\<lambda>b. fold (expand_move (2 * n) ideal t) (bk_chain b)) (tb_buckets t)
                             (replicate (2 * n) empty_bucket, 0);
          ineff = (if nonideal > items div 2 then Suc (tb_ineff_expands t) else 0)
      in t\<lparr>tb_ideal_chain_maxlen := ideal, tb_nonideal_items := nonideal,
           tb_buckets := bs, tb_log2_num_buckets := Suc (tb_log2_num_buckets t),
           tb_ineff_expands := ineff,
           tb_noexpand := (tb_noexpand t \<or> ineff > 1)\<rparr>)"

definition HASH_ADD_TO_BKT :: "'v UT_hash_table \<Rightarrow> nat \<Rightarrow> nat \<Rightarrow> 'v UT_hash_table" where
  "HASH_ADD_TO_BKT t i p =
     (let b = tb_buckets t ! i;
          b' = b\<lparr>bk_count := Suc (bk_count b), bk_chain := p # bk_chain b\<rparr>;
          t' = t\<lparr>tb_buckets := (tb_buckets t)[i := b']\<rparr>
      in if bk_count b' \<ge> (bk_expand_mult b' + 1) * HASH_BKT_CAPACITY_THRESH \<and> \<not> tb_noexpand t'
         then HASH_EXPAND_BUCKETS t' else t')"

definition HASH_ADD_INT :: "'v ut_head \<Rightarrow> u32 \<Rightarrow> 'v \<Rightarrow> 'v ut_head" where
  "HASH_ADD_INT head k v =
     (let t = (case head of None \<Rightarrow> HASH_MAKE_TABLE | Some t \<Rightarrow> t);
          p = tb_next t;
          hashv = HASH_JEN k;
          t1 = t\<lparr>tb_heap := (tb_heap t)(p \<mapsto> \<lparr>hh_key = k, hh_hashv = hashv, hh_val = v\<rparr>),
                 tb_next := Suc p,
                 tb_order := tb_order t @ [p],
                 tb_num_items := Suc (tb_num_items t)\<rparr>
      in Some (HASH_ADD_TO_BKT t1 (HASH_TO_BKT hashv (length (tb_buckets t1))) p))"

definition HASH_DEL_IN_BKT :: "UT_hash_bucket \<Rightarrow> nat \<Rightarrow> UT_hash_bucket" where
  "HASH_DEL_IN_BKT b p = b\<lparr>bk_count := bk_count b - 1, bk_chain := removeAll p (bk_chain b)\<rparr>"

text \<open>The element is unlinked from the application order and from its bucket; when it is
  the only one, the table itself is released and the head becomes NULL.\<close>

definition HASH_DEL :: "'v ut_head \<Rightarrow> nat \<Rightarrow> 'v ut_head" where
  "HASH_DEL head p =
     (case head of None \<Rightarrow> None
      | Some t \<Rightarrow>
          if tb_order t = [p] then None
          else let i = HASH_TO_BKT (hh_hashv (elem t p)) (length (tb_buckets t)) in
            Some (t\<lparr>tb_order := removeAll p (tb_order t),
                    tb_buckets := (tb_buckets t)[i := HASH_DEL_IN_BKT (tb_buckets t ! i) p],
                    tb_num_items := tb_num_items t - 1\<rparr>))"

definition HASH_REPLACE_INT :: "'v ut_head \<Rightarrow> u32 \<Rightarrow> 'v \<Rightarrow> 'v ut_head" where
  "HASH_REPLACE_INT head k v =
     (case HASH_FIND_INT head k of
        None \<Rightarrow> HASH_ADD_INT head k v
      | Some p \<Rightarrow> HASH_ADD_INT (HASH_DEL head p) k v)"

definition HASH_ITER :: "'v ut_head \<Rightarrow> nat list" where
  "HASH_ITER head = (case head of None \<Rightarrow> [] | Some t \<Rightarrow> tb_order t)"

definition HASH_COUNT :: "'v ut_head \<Rightarrow> nat" where
  "HASH_COUNT head = (case head of None \<Rightarrow> 0 | Some t \<Rightarrow> tb_num_items t)"

text \<open>Reading and writing the user's fields through an element pointer.\<close>

definition hh_get :: "'v ut_head \<Rightarrow> nat \<Rightarrow> 'v" where
  "hh_get head p = hh_val (elem (the head) p)"

definition hh_set :: "'v ut_head \<Rightarrow> nat \<Rightarrow> 'v \<Rightarrow> 'v ut_head" where
  "hh_set head p v =
     map_option (\<lambda>t. t\<lparr>tb_heap := (tb_heap t)(p \<mapsto> (elem t p)\<lparr>hh_val := v\<rparr>)\<rparr>) head"

section \<open>Invariant\<close>

text \<open>\<open>bkts_ok t n bs S\<close>: the \<open>n\<close> buckets \<open>bs\<close> chain exactly the elements of \<open>S\<close>, each in
  the bucket of its hash value, and every bucket's count is the length of its chain.\<close>

definition bkts_ok :: "'v UT_hash_table \<Rightarrow> nat \<Rightarrow> UT_hash_bucket list \<Rightarrow> nat set \<Rightarrow> bool" where
  "bkts_ok t n bs S \<longleftrightarrow>
     length bs = n \<and>
     (\<forall>i < n. distinct (bk_chain (bs ! i)) \<and>
        set (bk_chain (bs ! i)) = {p \<in> S. HASH_TO_BKT (hh_hashv (elem t p)) n = i} \<and>
        bk_count (bs ! i) = length (bk_chain (bs ! i)))"

definition ut_inv :: "'v UT_hash_table \<Rightarrow> bool" where
  "ut_inv t \<longleftrightarrow>
     distinct (tb_order t) \<and>
     (\<forall>p \<in> set (tb_order t). p < tb_next t \<and> tb_heap t p \<noteq> None \<and>
        hh_hashv (elem t p) = HASH_JEN (hh_key (elem t p))) \<and>
     length (tb_buckets t) = 2 ^ tb_log2_num_buckets t \<and>
     bkts_ok t (length (tb_buckets t)) (tb_buckets t) (set (tb_order t)) \<and>
     tb_num_items t = length (tb_order t)"

definition ut_key :: "'v UT_hash_table \<Rightarrow> nat \<Rightarrow> u32" where
  "ut_key t p = hh_key (elem t p)"

text \<open>The abstraction: key/value pairs in application order.\<close>

definition ut_alist :: "'v ut_head \<Rightarrow> (u32 \<times> 'v) list" where
  "ut_alist head = (case head of None \<Rightarrow> []
     | Some t \<Rightarrow> map (\<lambda>p. (hh_key (elem t p), hh_val (elem t p))) (tb_order t))"

text \<open>A head is well formed when its table is, is not empty, and no two elements have the
  same key (HASH_ADD_INT leaves that to its caller).\<close>

definition head_inv :: "'v ut_head \<Rightarrow> bool" where
  "head_inv head \<longleftrightarrow>
     (case head of None \<Rightarrow> True | Some t \<Rightarrow> ut_inv t \<and> tb_order t \<noteq> []) \<and>
     distinct (map fst (ut_alist head))"

subsection \<open>Buckets\<close>

lemma HASH_TO_BKT_lt [simp]: "0 < n \<Longrightarrow> HASH_TO_BKT h n < n"
proof -
  assume n: "0 < n"
  then have w: "(of_nat n - 1 :: u32) = of_nat (n - 1)"
    by simp
  have "unat (h AND of_nat (n - 1)) \<le> unat (of_nat (n - 1) :: u32)"
    using word_and_le1 word_le_nat_alt by blast
  also have "\<dots> \<le> n - 1"
    by (simp add: unat_of_nat)
  finally show ?thesis
    using n by (simp add: HASH_TO_BKT_def w del: of_nat_diff)
qed

lemma bkts_ok_empty: "bkts_ok t n (replicate n empty_bucket) {}"
  by (simp add: bkts_ok_def empty_bucket_def)

lemma bkts_ok_insert:
  assumes ok: "bkts_ok t n bs S" and new: "p \<notin> S" and n: "0 < n"
    and i: "i = HASH_TO_BKT (hh_hashv (elem t p)) n"
    and b': "bk_chain b' = p # bk_chain (bs ! i)" "bk_count b' = Suc (bk_count (bs ! i))"
  shows "bkts_ok t n (bs[i := b']) (insert p S)"
proof -
  have "i < n" using n i by simp
  then show ?thesis
    using ok new b' i by (auto simp: bkts_ok_def nth_list_update)
qed

lemma expand_move_ok:
  assumes "bkts_ok t n (fst st) S" and "p \<notin> S" and "0 < n"
  shows "bkts_ok t n (fst (expand_move n ideal t p st)) (insert p S)"
  using bkts_ok_insert [OF assms refl]
  by (cases st) (simp add: expand_move_def Let_def)

lemma fold_expand_move_ok:
  assumes "bkts_ok t n (fst st) S" and "0 < n" and "distinct ps" and "set ps \<inter> S = {}"
  shows "bkts_ok t n (fst (fold (expand_move n ideal t) ps st)) (S \<union> set ps)"
  using assms
proof (induction ps arbitrary: st S)
  case Nil
  then show ?case by simp
next
  case (Cons p ps)
  then have "bkts_ok t n (fst (expand_move n ideal t p st)) (insert p S)"
    by (intro expand_move_ok) auto
  from Cons.IH [OF this] Cons.prems show ?case by auto
qed

lemma fold_nested: "fold (\<lambda>b. fold f (g b)) bs st = fold f (concat (map g bs)) st"
  by (induction bs arbitrary: st) (auto simp: fold_append)

lemma distinct_concat_upt:
  assumes "\<And>i. i < n \<Longrightarrow> distinct (f i)"
    and "\<And>i j. i < n \<Longrightarrow> j < n \<Longrightarrow> i \<noteq> j \<Longrightarrow> set (f i) \<inter> set (f j) = {}"
  shows "distinct (concat (map f [0..<n]))"
  using assms
proof (induction n)
  case 0
  then show ?case by simp
next
  case (Suc n)
  then have "distinct (concat (map f [0..<n]))" by simp
  moreover have "set (f i) \<inter> set (f n) = {}" if "i < n" for i
    using Suc.prems(2) [of i n] that by simp
  then have "set (concat (map f [0..<n])) \<inter> set (f n) = {}"
    by (fastforce simp: disjoint_iff)
  ultimately show ?case using Suc.prems(1) by auto
qed

lemma bkts_ok_chains:
  assumes ok: "bkts_ok t n bs S" and n: "0 < n"
  shows "distinct (concat (map bk_chain bs))" and "set (concat (map bk_chain bs)) = S"
proof -
  have bs: "map bk_chain bs = map (\<lambda>i. bk_chain (bs ! i)) [0..<n]"
    using ok by (intro nth_equalityI) (auto simp: bkts_ok_def)
  have chain: "set (bk_chain (bs ! i)) = {p \<in> S. HASH_TO_BKT (hh_hashv (elem t p)) n = i}"
    if "i < n" for i
    using ok that by (simp add: bkts_ok_def)
  show "distinct (concat (map bk_chain bs))"
    unfolding bs using ok chain by (intro distinct_concat_upt) (auto simp: bkts_ok_def)
  show "set (concat (map bk_chain bs)) = S"
    unfolding bs using chain n by auto
qed

lemma elem_bucket_update [simp]:
  "elem (t\<lparr>tb_buckets := x\<rparr>) = elem t" by (simp add: elem_def fun_eq_iff)

lemma bkts_ok_heap_cong:
  assumes "\<And>p. p \<in> S \<Longrightarrow> hh_hashv (elem t p) = hh_hashv (elem t' p)"
  shows "bkts_ok t n bs S = bkts_ok t' n bs S"
  using assms by (auto simp: bkts_ok_def)

lemma HASH_EXPAND_BUCKETS_frame [simp]:
  "tb_heap (HASH_EXPAND_BUCKETS t) = tb_heap t"
  "tb_next (HASH_EXPAND_BUCKETS t) = tb_next t"
  "tb_order (HASH_EXPAND_BUCKETS t) = tb_order t"
  "tb_num_items (HASH_EXPAND_BUCKETS t) = tb_num_items t"
  by (simp_all add: HASH_EXPAND_BUCKETS_def Let_def split_beta)

lemma HASH_EXPAND_BUCKETS_inv:
  assumes "ut_inv t"
  shows "ut_inv (HASH_EXPAND_BUCKETS t)"
proof -
  let ?n = "length (tb_buckets t)"
  have n: "0 < ?n" and ok: "bkts_ok t ?n (tb_buckets t) (set (tb_order t))"
    using assms by (auto simp: ut_inv_def)
  have el: "elem (HASH_EXPAND_BUCKETS t) = elem t"
    by (simp add: elem_def fun_eq_iff)
  have "bkts_ok t (2 * ?n)
      (fst (fold (expand_move (2 * ?n) ideal t) (concat (map bk_chain (tb_buckets t)))
        (replicate (2 * ?n) empty_bucket, 0))) ({} \<union> set (tb_order t))" for ideal
    unfolding bkts_ok_chains(2) [OF ok n, symmetric]
    using n bkts_ok_chains(1) [OF ok n]
    by (intro fold_expand_move_ok) (auto simp: bkts_ok_empty)
  then have new: "bkts_ok t (2 * ?n) (tb_buckets (HASH_EXPAND_BUCKETS t)) (set (tb_order t))"
    by (simp add: HASH_EXPAND_BUCKETS_def Let_def split_beta fold_nested)
  then have "length (tb_buckets (HASH_EXPAND_BUCKETS t)) = 2 * ?n"
    by (simp add: bkts_ok_def)
  moreover have "tb_log2_num_buckets (HASH_EXPAND_BUCKETS t) = Suc (tb_log2_num_buckets t)"
    by (simp add: HASH_EXPAND_BUCKETS_def Let_def split_beta)
  moreover have "bkts_ok (HASH_EXPAND_BUCKETS t) (2 * ?n)
      (tb_buckets (HASH_EXPAND_BUCKETS t)) (set (tb_order t))"
    using new bkts_ok_heap_cong [of "set (tb_order t)" t "HASH_EXPAND_BUCKETS t"] by (simp add: el)
  ultimately show ?thesis
    using assms by (simp add: ut_inv_def el)
qed

subsection \<open>The macros over the abstraction\<close>

lemma HASH_FIND_IN_BKT_Some:
  "HASH_FIND_IN_BKT t k ps = Some p \<Longrightarrow> p \<in> set ps \<and> hh_key (elem t p) = k"
  by (induction ps) (auto split: if_splits)

lemma HASH_FIND_IN_BKT_None:
  "HASH_FIND_IN_BKT t k ps = None \<Longrightarrow> p \<in> set ps \<Longrightarrow> hh_key (elem t p) \<noteq> k"
  by (induction ps) (auto split: if_splits)

lemma ut_inv_chain:
  assumes "ut_inv t"
  shows "set (bk_chain (tb_buckets t ! HASH_TO_BKT (HASH_JEN k) (length (tb_buckets t)))) =
    {p \<in> set (tb_order t).
       HASH_TO_BKT (HASH_JEN (hh_key (elem t p))) (length (tb_buckets t)) =
       HASH_TO_BKT (HASH_JEN k) (length (tb_buckets t))}"
proof -
  have "0 < length (tb_buckets t)" using assms by (simp add: ut_inv_def)
  then show ?thesis using assms by (auto simp: ut_inv_def bkts_ok_def)
qed

lemma HASH_FIND_INT_table_Some:
  assumes "ut_inv t" and "HASH_FIND_INT (Some t) k = Some p"
  shows "p \<in> set (tb_order t) \<and> hh_key (elem t p) = k"
  using assms ut_inv_chain [OF assms(1), of k]
  by (auto simp: HASH_FIND_INT_def dest: HASH_FIND_IN_BKT_Some)

lemma HASH_FIND_INT_table_None:
  assumes "ut_inv t" and "HASH_FIND_INT (Some t) k = None" and "p \<in> set (tb_order t)"
  shows "hh_key (elem t p) \<noteq> k"
proof
  assume k: "hh_key (elem t p) = k"
  then have "p \<in> set (bk_chain (tb_buckets t ! HASH_TO_BKT (HASH_JEN k) (length (tb_buckets t))))"
    using ut_inv_chain [OF assms(1), of k] assms(3) by simp
  then show False
    using assms(2) k HASH_FIND_IN_BKT_None [of t k _ p] by (auto simp: HASH_FIND_INT_def)
qed

lemma HASH_FIND_INT_None_iff:
  "head_inv head \<Longrightarrow> HASH_FIND_INT head k = None \<longleftrightarrow> k \<notin> fst ` set (ut_alist head)"
proof (cases head)
  case None
  then show ?thesis by (simp add: HASH_FIND_INT_def ut_alist_def)
next
  case (Some t)
  assume "head_inv head"
  then have inv: "ut_inv t" using Some by (simp add: head_inv_def)
  have "k \<notin> hh_key ` elem t ` set (tb_order t)" if "HASH_FIND_INT head k = None"
    using HASH_FIND_INT_table_None [OF inv] that Some by auto
  moreover have "k \<in> hh_key ` elem t ` set (tb_order t)" if "HASH_FIND_INT head k = Some p" for p
    using HASH_FIND_INT_table_Some [OF inv] that Some by blast
  ultimately show ?thesis
    by (cases "HASH_FIND_INT head k") (auto simp: Some ut_alist_def image_image)
qed

lemma HASH_FIND_INT_map_of:
  assumes "head_inv head"
  shows "map_option (hh_get head) (HASH_FIND_INT head k) = map_of (ut_alist head) k"
proof (cases "HASH_FIND_INT head k")
  case None
  then have "map_of (ut_alist head) k = None"
    using HASH_FIND_INT_None_iff [OF assms] by (simp add: map_of_eq_None_iff)
  with None show ?thesis by simp
next
  case (Some p)
  then obtain t where t: "head = Some t"
    by (cases head) (auto simp: HASH_FIND_INT_def)
  then have "p \<in> set (tb_order t)" "hh_key (elem t p) = k"
    using assms Some HASH_FIND_INT_table_Some by (auto simp: head_inv_def)
  then have "(k, hh_get head p) \<in> set (ut_alist head)"
    by (force simp: ut_alist_def hh_get_def t)
  then show ?thesis
    using assms Some by (simp add: head_inv_def)
qed

lemma HASH_ADD_TO_BKT_frame [simp]:
  "tb_heap (HASH_ADD_TO_BKT t i p) = tb_heap t"
  "tb_next (HASH_ADD_TO_BKT t i p) = tb_next t"
  "tb_order (HASH_ADD_TO_BKT t i p) = tb_order t"
  "tb_num_items (HASH_ADD_TO_BKT t i p) = tb_num_items t"
  by (simp_all add: HASH_ADD_TO_BKT_def Let_def)

lemma elem_add [simp]:
  "elem (t\<lparr>tb_heap := (tb_heap t)(p \<mapsto> x), tb_next := n, tb_order := os, tb_num_items := c\<rparr>) q =
   (if q = p then x else elem t q)"
  by (simp add: elem_def)

lemma HASH_ADD_TO_BKT_inv:
  assumes ord: "distinct (tb_order t)"
      "\<forall>p \<in> set (tb_order t). p < tb_next t \<and> tb_heap t p \<noteq> None \<and>
         hh_hashv (elem t p) = HASH_JEN (hh_key (elem t p))"
      "length (tb_buckets t) = 2 ^ tb_log2_num_buckets t" "tb_num_items t = length (tb_order t)"
    and S: "set (tb_order t) = insert p S" "p \<notin> S"
    and ok: "bkts_ok t (length (tb_buckets t)) (tb_buckets t) S"
    and i: "i = HASH_TO_BKT (hh_hashv (elem t p)) (length (tb_buckets t))"
  shows "ut_inv (HASH_ADD_TO_BKT t i p)"
proof -
  define b' where "b' = (tb_buckets t ! i)\<lparr>bk_count := Suc (bk_count (tb_buckets t ! i)),
      bk_chain := p # bk_chain (tb_buckets t ! i)\<rparr>"
  define t' where "t' = t\<lparr>tb_buckets := (tb_buckets t)[i := b']\<rparr>"
  have "bkts_ok t (length (tb_buckets t)) ((tb_buckets t)[i := b']) (insert p S)"
    using ok S(2) ord(3) i by (intro bkts_ok_insert) (auto simp: b'_def)
  then have "bkts_ok t' (length (tb_buckets t')) (tb_buckets t') (set (tb_order t'))"
    using S(1) bkts_ok_heap_cong [of "set (tb_order t)" t t'] by (simp add: t'_def)
  then have "ut_inv t'"
    using ord by (simp add: ut_inv_def t'_def)
  then show ?thesis
    by (simp add: HASH_ADD_TO_BKT_def Let_def t'_def b'_def HASH_EXPAND_BUCKETS_inv)
qed

lemma ut_inv_make: "ut_inv HASH_MAKE_TABLE"
  by (simp add: ut_inv_def HASH_MAKE_TABLE_def HASH_INITIAL_NUM_BUCKETS_def bkts_ok_empty)

lemma HASH_ADD_INT_table:
  assumes t: "ut_inv t"
    and t1: "t1 = t\<lparr>tb_heap := (tb_heap t)(tb_next t \<mapsto> \<lparr>hh_key = k, hh_hashv = HASH_JEN k, hh_val = v\<rparr>),
                 tb_next := Suc (tb_next t),
                 tb_order := tb_order t @ [tb_next t],
                 tb_num_items := Suc (tb_num_items t)\<rparr>"
  shows "ut_inv (HASH_ADD_TO_BKT t1 (HASH_TO_BKT (HASH_JEN k) (length (tb_buckets t1))) (tb_next t))"
proof (rule HASH_ADD_TO_BKT_inv [where S = "set (tb_order t)"])
  have fresh: "tb_next t \<notin> set (tb_order t)"
    using t by (auto simp: ut_inv_def)
  then show "tb_next t \<notin> set (tb_order t)" .
  have same: "hh_hashv (elem t p) = hh_hashv (elem t1 p)" if "p \<in> set (tb_order t)" for p
    using that fresh by (auto simp: t1)
  have "bkts_ok t (length (tb_buckets t)) (tb_buckets t) (set (tb_order t))"
    using t unfolding ut_inv_def by blast
  then show "bkts_ok t1 (length (tb_buckets t1)) (tb_buckets t1) (set (tb_order t))"
    using bkts_ok_heap_cong [of "set (tb_order t)" t t1, OF same] by (simp add: t1)
  show "\<forall>p\<in>set (tb_order t1). p < tb_next t1 \<and> tb_heap t1 p \<noteq> None \<and>
      hh_hashv (elem t1 p) = HASH_JEN (hh_key (elem t1 p))"
    using t by (auto simp: t1 ut_inv_def less_Suc_eq)
qed (use t in \<open>auto simp: t1 ut_inv_def\<close>)

lemma ut_alist_HASH_ADD_INT:
  assumes "head_inv head"
  shows "ut_alist (HASH_ADD_INT head k v) = ut_alist head @ [(k, v)]"
proof -
  have "tb_next t \<notin> set (tb_order t)" if "ut_inv t" for t :: "'a UT_hash_table"
    using that by (auto simp: ut_inv_def)
  then show ?thesis
    using assms
    by (cases head)
      (auto simp: HASH_ADD_INT_def Let_def ut_alist_def head_inv_def elem_def HASH_MAKE_TABLE_def)
qed

lemma HASH_ADD_INT_inv:
  assumes inv: "head_inv head" and new: "HASH_FIND_INT head k = None"
  shows "head_inv (HASH_ADD_INT head k v)"
proof -
  have "k \<notin> fst ` set (ut_alist head)"
    using HASH_FIND_INT_None_iff inv new by blast
  then have "distinct (map fst (ut_alist (HASH_ADD_INT head k v)))"
    using inv by (simp add: ut_alist_HASH_ADD_INT head_inv_def)
  moreover have "ut_inv (case head of None \<Rightarrow> HASH_MAKE_TABLE | Some t \<Rightarrow> t)"
    using inv by (auto simp: head_inv_def ut_inv_make split: option.splits)
  ultimately show ?thesis
    using HASH_ADD_INT_table [OF _ refl]
    by (simp add: head_inv_def HASH_ADD_INT_def Let_def)
qed

lemma inj_keys:
  assumes "head_inv (Some t)" and "p \<in> set (tb_order t)" and "q \<in> set (tb_order t)"
    and "hh_key (elem t p) = hh_key (elem t q)"
  shows "p = q"
proof -
  have "distinct (map (\<lambda>p. hh_key (elem t p)) (tb_order t))"
    using assms(1) by (simp add: head_inv_def ut_alist_def comp_def)
  then show ?thesis
    using assms(2-4) by (auto simp: distinct_map inj_on_def)
qed

lemma ut_alist_remove:
  assumes inv: "head_inv (Some t)" and p: "p \<in> set (tb_order t)" "hh_key (elem t p) = k"
  shows "map (\<lambda>q. (hh_key (elem t q), hh_val (elem t q))) (removeAll p (tb_order t)) =
    filter (\<lambda>x. fst x \<noteq> k) (ut_alist (Some t))"
proof -
  have "p = q \<longleftrightarrow> hh_key (elem t q) = k" if "q \<in> set (tb_order t)" for q
    using inj_keys [OF inv p(1) that] p(2) by metis
  then have eq: "filter (\<lambda>q. p \<noteq> q) (tb_order t) = filter (\<lambda>q. hh_key (elem t q) \<noteq> k) (tb_order t)"
    by (intro filter_cong) simp_all
  show ?thesis
    unfolding ut_alist_def option.case filter_map comp_def fst_conv removeAll_filter_not_eq eq ..
qed

lemma bkts_ok_delete:
  assumes ok: "bkts_ok t n bs S" and p: "p \<in> S" and n: "0 < n"
    and i: "i = HASH_TO_BKT (hh_hashv (elem t p)) n"
  shows "bkts_ok t n (bs[i := HASH_DEL_IN_BKT (bs ! i) p]) (S - {p})"
proof -
  have i_n: "i < n" using n i by simp
  have b: "distinct (bk_chain (bs ! j))" "bk_count (bs ! j) = length (bk_chain (bs ! j))"
    "set (bk_chain (bs ! j)) = {q \<in> S. HASH_TO_BKT (hh_hashv (elem t q)) n = j}" if "j < n" for j
    using ok that by (simp_all add: bkts_ok_def)
  have "p \<in> set (bk_chain (bs ! i))"
    using b(3) [OF i_n] p i by simp
  then have len: "length (removeAll p (bk_chain (bs ! i))) = length (bk_chain (bs ! i)) - 1"
    using b(1) [OF i_n] by (simp add: length_remove1 flip: distinct_remove1_removeAll)
  have "distinct (bk_chain (bs[i := HASH_DEL_IN_BKT (bs ! i) p] ! j)) \<and>
      set (bk_chain (bs[i := HASH_DEL_IN_BKT (bs ! i) p] ! j)) =
        {q \<in> S - {p}. HASH_TO_BKT (hh_hashv (elem t q)) n = j} \<and>
      bk_count (bs[i := HASH_DEL_IN_BKT (bs ! i) p] ! j) =
        length (bk_chain (bs[i := HASH_DEL_IN_BKT (bs ! i) p] ! j))" if "j < n" for j
  proof (cases "j = i")
    case True
    then show ?thesis
      using b [OF i_n] len i_n ok
      by (auto simp: bkts_ok_def HASH_DEL_IN_BKT_def distinct_removeAll)
  next
    case False
    then show ?thesis using b [OF that] i by auto
  qed
  then show ?thesis
    using ok by (simp add: bkts_ok_def)
qed

lemma HASH_DEL_table:
  assumes t: "ut_inv t" and p: "p \<in> set (tb_order t)" and i: "i = HASH_TO_BKT (hh_hashv (elem t p)) (length (tb_buckets t))"
    and t': "t' = t\<lparr>tb_order := removeAll p (tb_order t),
                    tb_buckets := (tb_buckets t)[i := HASH_DEL_IN_BKT (tb_buckets t ! i) p],
                    tb_num_items := tb_num_items t - 1\<rparr>"
  shows "ut_inv t'"
proof -
  have n: "0 < length (tb_buckets t)" using t by (simp add: ut_inv_def)
  have "bkts_ok t (length (tb_buckets t)) (tb_buckets t) (set (tb_order t))"
    using t unfolding ut_inv_def by blast
  from bkts_ok_delete [OF this p n i] have
    "bkts_ok t' (length (tb_buckets t')) (tb_buckets t') (set (tb_order t'))"
    using bkts_ok_heap_cong [of "set (tb_order t')" t t'] by (simp add: t' elem_def)
  moreover have "length (removeAll p (tb_order t)) = length (tb_order t) - 1"
    using t p by (simp add: ut_inv_def length_remove1 flip: distinct_remove1_removeAll)
  ultimately show ?thesis
    using t by (auto simp: ut_inv_def t' elem_def distinct_removeAll)
qed

lemma HASH_DEL_laws:
  assumes inv: "head_inv head" and find: "HASH_FIND_INT head k = Some p"
  shows "ut_alist (HASH_DEL head p) = filter (\<lambda>x. fst x \<noteq> k) (ut_alist head)"
    and "head_inv (HASH_DEL head p)"
proof -
  obtain t where head: "head = Some t"
    using find by (cases head) (auto simp: HASH_FIND_INT_def)
  have t: "ut_inv t" using inv by (simp add: head head_inv_def)
  have p: "p \<in> set (tb_order t)" "hh_key (elem t p) = k"
    using HASH_FIND_INT_table_Some [OF t] find head by auto
  have al: "ut_alist (HASH_DEL head p) = map (\<lambda>q. (hh_key (elem t q), hh_val (elem t q))) (removeAll p (tb_order t))"
    by (simp add: HASH_DEL_def head ut_alist_def Let_def elem_def)
  also have "\<dots> = filter (\<lambda>x. fst x \<noteq> k) (ut_alist head)"
    using ut_alist_remove inv p unfolding head by blast
  finally show al': "ut_alist (HASH_DEL head p) = filter (\<lambda>x. fst x \<noteq> k) (ut_alist head)" .
  have "removeAll p (tb_order t) \<noteq> []" if "tb_order t \<noteq> [p]"
  proof -
    have "distinct (tb_order t)" using t by (simp add: ut_inv_def)
    then show ?thesis
      using that p(1) by (cases "tb_order t" rule: list.exhaust; cases "tl (tb_order t)") auto
  qed
  moreover have "distinct (map fst (ut_alist (HASH_DEL head p)))"
    using inv by (simp add: al' head_inv_def distinct_map_filter)
  ultimately show "head_inv (HASH_DEL head p)"
    using HASH_DEL_table [OF t p(1) refl refl]
    by (simp add: head_inv_def HASH_DEL_def Let_def head)
qed

lemma HASH_REPLACE_laws:
  assumes inv: "head_inv head"
  shows "ut_alist (HASH_REPLACE_INT head k v) = filter (\<lambda>x. fst x \<noteq> k) (ut_alist head) @ [(k, v)]"
    and "head_inv (HASH_REPLACE_INT head k v)"
proof (atomize (full), cases "HASH_FIND_INT head k")
  case None
  then have "k \<notin> fst ` set (ut_alist head)"
    using HASH_FIND_INT_None_iff inv by blast
  then have "filter (\<lambda>x. fst x \<noteq> k) (ut_alist head) = ut_alist head"
    by (force simp: filter_id_conv)
  then show "ut_alist (HASH_REPLACE_INT head k v) = filter (\<lambda>x. fst x \<noteq> k) (ut_alist head) @ [(k, v)] \<and>
      head_inv (HASH_REPLACE_INT head k v)"
    using None inv by (simp add: HASH_REPLACE_INT_def ut_alist_HASH_ADD_INT HASH_ADD_INT_inv)
next
  case (Some p)
  note del = HASH_DEL_laws [OF inv Some]
  have "HASH_FIND_INT (HASH_DEL head p) k = None"
    using HASH_FIND_INT_None_iff [OF del(2)] by (auto simp: del(1))
  then show "ut_alist (HASH_REPLACE_INT head k v) = filter (\<lambda>x. fst x \<noteq> k) (ut_alist head) @ [(k, v)] \<and>
      head_inv (HASH_REPLACE_INT head k v)"
    using Some del by (simp add: HASH_REPLACE_INT_def ut_alist_HASH_ADD_INT HASH_ADD_INT_inv)
qed

lemma hh_set_laws:
  assumes inv: "head_inv head" and find: "HASH_FIND_INT head k = Some p"
  shows "ut_alist (hh_set head p v) = map (\<lambda>x. if fst x = k then (k, v) else x) (ut_alist head)"
    and "head_inv (hh_set head p v)"
proof -
  obtain t where head: "head = Some t"
    using find by (cases head) (auto simp: HASH_FIND_INT_def)
  have t: "ut_inv t" using inv by (simp add: head head_inv_def)
  have p: "p \<in> set (tb_order t)" "hh_key (elem t p) = k"
    using HASH_FIND_INT_table_Some [OF t] find head by auto
  define t' where "t' = t\<lparr>tb_heap := (tb_heap t)(p \<mapsto> (elem t p)\<lparr>hh_val := v\<rparr>)\<rparr>"
  have el: "elem t' q = (if q = p then (elem t p)\<lparr>hh_val := v\<rparr> else elem t q)" for q
    by (simp add: t'_def elem_def)
  have set: "hh_set head p v = Some t'"
    by (simp add: hh_set_def head t'_def)
  have [simp]: "tb_order t' = tb_order t" "tb_next t' = tb_next t" "tb_buckets t' = tb_buckets t"
    "tb_log2_num_buckets t' = tb_log2_num_buckets t" "tb_num_items t' = tb_num_items t"
    by (simp_all add: t'_def)
  have eq: "q = p \<longleftrightarrow> hh_key (elem t q) = k" if "q \<in> set (tb_order t)" for q
    using inj_keys [OF inv [unfolded head] that p(1)] p by auto
  show al: "ut_alist (hh_set head p v) = map (\<lambda>x. if fst x = k then (k, v) else x) (ut_alist head)"
    using eq p(2) unfolding set unfolding head ut_alist_def by (auto simp: el)
  have "bkts_ok t (length (tb_buckets t)) (tb_buckets t) (set (tb_order t))"
    using t unfolding ut_inv_def by blast
  then have bk: "bkts_ok t' (length (tb_buckets t)) (tb_buckets t) (set (tb_order t))"
    using bkts_ok_heap_cong [of "set (tb_order t)" t t'] by (simp add: el)
  have "tb_heap t' q \<noteq> None" if "q \<in> set (tb_order t)" for q
    using that t by (auto simp: t'_def ut_inv_def)
  then have "ut_inv t'"
    using t bk unfolding ut_inv_def by (simp add: el)
  moreover have "map fst (ut_alist (hh_set head p v)) = map fst (ut_alist head)"
    by (simp add: al comp_def)
  ultimately show "head_inv (hh_set head p v)"
    using inv unfolding head_inv_def set unfolding head by simp
qed

lemma HASH_ITER_alist:
  "map (hh_get head) (HASH_ITER head) = map snd (ut_alist head)"
  by (cases head) (auto simp: HASH_ITER_def ut_alist_def hh_get_def)

lemma HASH_COUNT_alist: "head_inv head \<Longrightarrow> HASH_COUNT head = length (ut_alist head)"
  by (cases head) (auto simp: HASH_COUNT_def ut_alist_def head_inv_def ut_inv_def)

section \<open>The interface\<close>

text \<open>What a user of the macros relies on: over the key/value pairs in application order,
  adding appends, replacing moves the key to the end, deleting removes exactly that key,
  a lookup is the lookup of the pairs, and iteration yields every value in order.\<close>

locale int_table =
  fixes null :: 'h
    and lookup :: "'h \<Rightarrow> u32 \<Rightarrow> 'p option"
    and val :: "'h \<Rightarrow> 'p \<Rightarrow> 'v"
    and set_val :: "'h \<Rightarrow> 'p \<Rightarrow> 'v \<Rightarrow> 'h"
    and add :: "'h \<Rightarrow> u32 \<Rightarrow> 'v \<Rightarrow> 'h"
    and replace :: "'h \<Rightarrow> u32 \<Rightarrow> 'v \<Rightarrow> 'h"
    and del :: "'h \<Rightarrow> 'p \<Rightarrow> 'h"
    and iter :: "'h \<Rightarrow> 'p list"
    and pairs :: "'h \<Rightarrow> (u32 \<times> 'v) list"
    and inv :: "'h \<Rightarrow> bool"
  assumes null: "pairs null = []" "inv null"
    and distinct_keys: "inv h \<Longrightarrow> distinct (map fst (pairs h))"
    and lookup_pairs: "inv h \<Longrightarrow> map_option (val h) (lookup h k) = map_of (pairs h) k"
    and add_pairs: "inv h \<Longrightarrow> lookup h k = None \<Longrightarrow> pairs (add h k v) = pairs h @ [(k, v)]"
    and add_inv: "inv h \<Longrightarrow> lookup h k = None \<Longrightarrow> inv (add h k v)"
    and replace_pairs: "inv h \<Longrightarrow> pairs (replace h k v) = filter (\<lambda>x. fst x \<noteq> k) (pairs h) @ [(k, v)]"
    and replace_inv: "inv h \<Longrightarrow> inv (replace h k v)"
    and del_pairs: "inv h \<Longrightarrow> lookup h k = Some p \<Longrightarrow> pairs (del h p) = filter (\<lambda>x. fst x \<noteq> k) (pairs h)"
    and del_inv: "inv h \<Longrightarrow> lookup h k = Some p \<Longrightarrow> inv (del h p)"
    and set_pairs: "inv h \<Longrightarrow> lookup h k = Some p \<Longrightarrow>
      pairs (set_val h p v) = map (\<lambda>x. if fst x = k then (k, v) else x) (pairs h)"
    and set_inv: "inv h \<Longrightarrow> lookup h k = Some p \<Longrightarrow> inv (set_val h p v)"
    and iter_pairs: "map (val h) (iter h) = map snd (pairs h)"
begin

definition get :: "'h \<Rightarrow> u32 \<Rightarrow> 'v option" where
  "get h k = map_option (val h) (lookup h k)"

lemma get_pairs: "inv h \<Longrightarrow> get h k = map_of (pairs h) k"
  by (simp add: get_def lookup_pairs)

lemma get_null: "get null k = None"
  by (simp add: get_pairs null)

lemma lookup_None_iff: "inv h \<Longrightarrow> lookup h k = None \<longleftrightarrow> k \<notin> fst ` set (pairs h)"
  by (metis lookup_pairs map_option_is_None map_of_eq_None_iff)

lemma lookup_None_get: "lookup h k = None \<longleftrightarrow> get h k = None"
  by (simp add: get_def)

lemma get_iff_pair: "inv h \<Longrightarrow> get h k = Some v \<longleftrightarrow> (k, v) \<in> set (pairs h)"
  by (simp add: get_pairs distinct_keys)

lemma get_add: "inv h \<Longrightarrow> lookup h k = None \<Longrightarrow> get (add h k v) = (get h)(k \<mapsto> v)"
  by (auto simp: fun_eq_iff get_pairs add_pairs add_inv map_add_def lookup_None_get split: option.splits)

lemma get_replace: "inv h \<Longrightarrow> get (replace h k v) = (get h)(k \<mapsto> v)"
  by (auto simp: fun_eq_iff get_pairs replace_pairs replace_inv map_add_def map_of_filter_neq
      split: option.splits)

lemma get_del: "inv h \<Longrightarrow> lookup h k = Some p \<Longrightarrow> get (del h p) = (get h)(k := None)"
  by (simp add: fun_eq_iff get_pairs del_pairs del_inv map_of_filter_neq)

lemma get_set:
  assumes "inv h" and "lookup h k = Some p"
  shows "get (set_val h p v) = (get h)(k \<mapsto> v)"
proof -
  have "map_of (map (\<lambda>x. if fst x = k then (k, v) else x) xs) j =
    (if j = k \<and> k \<in> fst ` set xs then Some v else map_of xs j)" for xs j
    by (induction xs) (force simp: image_iff)+
  moreover have "k \<in> fst ` set (pairs h)"
    using assms lookup_None_iff [of h k] by auto
  ultimately show ?thesis
    using assms by (auto simp: fun_eq_iff get_pairs set_pairs set_inv)
qed

lemmas get_update = get_null get_add get_replace get_del get_set
lemmas inv_update = null(2) add_inv replace_inv del_inv set_inv

lemma add_all:
  assumes "inv h" and "distinct (map fst xs)" and "fst ` set xs \<inter> fst ` set (pairs h) = {}"
  shows "inv (fold (\<lambda>(k, v) h. add h k v) xs h)"
    and "pairs (fold (\<lambda>(k, v) h. add h k v) xs h) = pairs h @ xs"
proof (atomize (full))
  show "inv (fold (\<lambda>(k, v) h. add h k v) xs h) \<and>
    pairs (fold (\<lambda>(k, v) h. add h k v) xs h) = pairs h @ xs"
    using assms
  proof (induction xs arbitrary: h)
    case Nil
    then show ?case by simp
  next
    case (Cons x xs)
    obtain k v where x: "x = (k, v)" by force
    then have "lookup h k = None"
      using Cons.prems lookup_None_iff by auto
    then have "inv (add h k v)" and "pairs (add h k v) = pairs h @ [(k, v)]"
      using Cons.prems(1) by (simp_all add: add_inv add_pairs)
    then show ?case
      using Cons.IH [of "add h k v"] Cons.prems x by auto
  qed
qed

end

interpretation ut: int_table None HASH_FIND_INT hh_get hh_set HASH_ADD_INT HASH_REPLACE_INT
    HASH_DEL HASH_ITER ut_alist head_inv
proof unfold_locales
  fix h :: "'v ut_head" and k p v
  show "ut_alist (None :: 'v ut_head) = []" by (simp add: ut_alist_def)
  show "head_inv (None :: 'v ut_head)" by (simp add: head_inv_def ut_alist_def)
  show "map (hh_get h) (HASH_ITER h) = map snd (ut_alist h)" by (rule HASH_ITER_alist)
  assume inv: "head_inv h"
  show "distinct (map fst (ut_alist h))" using inv by (simp add: head_inv_def)
  show "map_option (hh_get h) (HASH_FIND_INT h k) = map_of (ut_alist h) k"
    by (rule HASH_FIND_INT_map_of [OF inv])
  show "ut_alist (HASH_REPLACE_INT h k v) = filter (\<lambda>x. fst x \<noteq> k) (ut_alist h) @ [(k, v)]"
    and "head_inv (HASH_REPLACE_INT h k v)"
    by (rule HASH_REPLACE_laws [OF inv])+
  {
    assume "HASH_FIND_INT h k = None"
    then show "ut_alist (HASH_ADD_INT h k v) = ut_alist h @ [(k, v)]" and "head_inv (HASH_ADD_INT h k v)"
      using inv by (simp_all add: ut_alist_HASH_ADD_INT HASH_ADD_INT_inv)
  }
  {
    assume find: "HASH_FIND_INT h k = Some p"
    show "ut_alist (HASH_DEL h p) = filter (\<lambda>x. fst x \<noteq> k) (ut_alist h)" and "head_inv (HASH_DEL h p)"
      by (rule HASH_DEL_laws [OF inv find])+
    show "ut_alist (hh_set h p v) = map (\<lambda>x. if fst x = k then (k, v) else x) (ut_alist h)"
      and "head_inv (hh_set h p v)"
      by (rule hh_set_laws [OF inv find])+
  }
qed

section \<open>Sequences of operations\<close>

text \<open>A user of the table looks a key up before adding or deleting it, as all callers of the
  macros in the repository do.\<close>

datatype 'v ut_cmd = CAdd u32 'v | CReplace u32 'v | CDel u32 | CSet u32 'v

fun ut_exec :: "'v ut_cmd \<Rightarrow> 'v ut_head \<Rightarrow> 'v ut_head" where
  "ut_exec (CAdd k v) h = (case HASH_FIND_INT h k of None \<Rightarrow> HASH_ADD_INT h k v | Some _ \<Rightarrow> h)"
| "ut_exec (CReplace k v) h = HASH_REPLACE_INT h k v"
| "ut_exec (CDel k) h = (case HASH_FIND_INT h k of None \<Rightarrow> h | Some p \<Rightarrow> HASH_DEL h p)"
| "ut_exec (CSet k v) h = (case HASH_FIND_INT h k of None \<Rightarrow> h | Some p \<Rightarrow> hh_set h p v)"

text \<open>The same commands on a finite map, and on the list of pairs in application order.\<close>

fun map_exec :: "'v ut_cmd \<Rightarrow> (u32 \<rightharpoonup> 'v) \<Rightarrow> (u32 \<rightharpoonup> 'v)" where
  "map_exec (CAdd k v) m = (if k \<in> dom m then m else m(k \<mapsto> v))"
| "map_exec (CReplace k v) m = m(k \<mapsto> v)"
| "map_exec (CDel k) m = m(k := None)"
| "map_exec (CSet k v) m = (if k \<in> dom m then m(k \<mapsto> v) else m)"

fun list_exec :: "'v ut_cmd \<Rightarrow> (u32 \<times> 'v) list \<Rightarrow> (u32 \<times> 'v) list" where
  "list_exec (CAdd k v) xs = (if k \<in> fst ` set xs then xs else xs @ [(k, v)])"
| "list_exec (CReplace k v) xs = filter (\<lambda>x. fst x \<noteq> k) xs @ [(k, v)]"
| "list_exec (CDel k) xs = filter (\<lambda>x. fst x \<noteq> k) xs"
| "list_exec (CSet k v) xs = map (\<lambda>x. if fst x = k then (k, v) else x) xs"

lemma map_id_absent: "k \<notin> fst ` set xs \<Longrightarrow> map (\<lambda>x. if fst x = k then (k, v) else x) xs = xs"
  by (induction xs) auto

lemma filter_id_absent: "k \<notin> fst ` set xs \<Longrightarrow> filter (\<lambda>x. fst x \<noteq> k) xs = xs"
  by (force simp: filter_id_conv)

lemma ut_exec_list:
  assumes "head_inv h"
  shows "head_inv (ut_exec c h) \<and> ut_alist (ut_exec c h) = list_exec c (ut_alist h)"
proof -
  have absent: "k \<notin> fst ` set (ut_alist h)" if "HASH_FIND_INT h k = None" for k
    using ut.lookup_None_iff [OF assms] that by blast
  have present: "k \<in> fst ` set (ut_alist h)" if "HASH_FIND_INT h k = Some p" for k p
    using ut.lookup_None_iff [OF assms, of k] that by simp
  show ?thesis
  proof (cases c)
    case (CAdd k v)
    then show ?thesis
      using assms absent present
      by (cases "HASH_FIND_INT h k") (simp_all add: ut.inv_update ut.add_pairs)
  next
    case (CReplace k v)
    then show ?thesis using assms by (simp add: ut.inv_update ut.replace_pairs)
  next
    case (CDel k)
    then show ?thesis
      using assms filter_id_absent [OF absent]
      by (cases "HASH_FIND_INT h k") (simp_all add: ut.inv_update ut.del_pairs)
  next
    case (CSet k v)
    then show ?thesis
      using assms map_id_absent [OF absent]
      by (cases "HASH_FIND_INT h k") (simp_all add: ut.inv_update ut.set_pairs)
  qed
qed

lemma fold_ut_exec:
  assumes "head_inv h"
  shows "head_inv (fold ut_exec cs h) \<and> ut_alist (fold ut_exec cs h) = fold list_exec cs (ut_alist h)"
  using assms by (induction cs arbitrary: h) (simp_all add: ut_exec_list)

lemma ut_exec_get:
  assumes inv: "head_inv h"
  shows "ut.get (ut_exec c h) = map_exec c (ut.get h)"
  using inv
  by (cases c) (auto simp: ut.get_update domIff fun_upd_idem_iff split: option.splits
      simp flip: ut.lookup_None_get)

lemma fold_ut_exec_get: "head_inv h \<Longrightarrow> ut.get (fold ut_exec cs h) = fold map_exec cs (ut.get h)"
  by (induction cs arbitrary: h) (simp_all add: ut_exec_list ut_exec_get)

section \<open>Properties\<close>

text \<open>C5.  Every sequence of hash-table operations, started on a NULL head, behaves as the
  same sequence on a finite map: whatever expansions of the bucket array happen on the way, a
  lookup finds exactly the value last stored, the stored item count is the size of the map and
  the table's structural invariant holds.\<close>

theorem uthash_refines_map:
  "head_inv (fold ut_exec cmds None) \<and>
   (\<lambda>k. map_option (hh_get (fold ut_exec cmds None)) (HASH_FIND_INT (fold ut_exec cmds None) k)) =
     fold map_exec cmds Map.empty \<and>
   HASH_COUNT (fold ut_exec cmds None) = card (dom (fold map_exec cmds Map.empty))"
proof -
  let ?h = "fold ut_exec cmds None"
  have inv: "head_inv ?h" using fold_ut_exec [OF ut.null(2)] by blast
  have "ut.get (None :: 'a ut_head) = Map.empty" by (simp add: ut.get_null fun_eq_iff)
  with fold_ut_exec_get [OF ut.null(2), of cmds]
  have get: "ut.get ?h = fold map_exec cmds Map.empty" by simp
  have "dom (ut.get ?h) = fst ` set (ut_alist ?h)"
    using inv ut.get_pairs [OF inv] by (metis dom_map_of_conv_image_fst ext)
  then have "HASH_COUNT ?h = card (dom (ut.get ?h))"
    using HASH_COUNT_alist [OF inv] distinct_card [OF ut.distinct_keys [OF inv]] by simp
  then have "HASH_COUNT ?h = card (dom (fold map_exec cmds Map.empty))" by (simp only: get)
  with inv get show ?thesis by (simp add: ut.get_def fun_eq_iff)
qed

text \<open>Iterating over a table (HASH_ITER) visits the values in application order: in the
  order they were added, where deletion removes an entry, replacement moves it to the end and
  writing through an element pointer leaves it in place.\<close>

theorem uthash_iterates_in_order:
  "map (hh_get (fold ut_exec cmds None)) (HASH_ITER (fold ut_exec cmds None)) =
   map snd (fold list_exec cmds [])"
  using fold_ut_exec [OF ut.null(2), of cmds] by (simp add: ut.iter_pairs ut.null(1))

text \<open>Doubling the bucket array loses, duplicates and reorders nothing: afterwards there
  are twice as many buckets, every element is chained exactly once, in the bucket of its hash
  value, and every bucket's count is the length of its chain.\<close>

theorem uthash_expand:
  assumes "ut_inv t"
  shows "length (tb_buckets (HASH_EXPAND_BUCKETS t)) = 2 * length (tb_buckets t) \<and>
    bkts_ok t (2 * length (tb_buckets t)) (tb_buckets (HASH_EXPAND_BUCKETS t)) (set (tb_order t)) \<and>
    tb_order (HASH_EXPAND_BUCKETS t) = tb_order t"
proof -
  let ?t' = "HASH_EXPAND_BUCKETS t"
  note inv = HASH_EXPAND_BUCKETS_inv [OF assms, unfolded ut_inv_def]
  have "tb_log2_num_buckets ?t' = Suc (tb_log2_num_buckets t)"
    by (simp add: HASH_EXPAND_BUCKETS_def Let_def split_beta)
  then have "length (tb_buckets ?t') = 2 ^ Suc (tb_log2_num_buckets t)"
    using inv by metis
  then have len: "length (tb_buckets ?t') = 2 * length (tb_buckets t)"
    using assms by (simp add: ut_inv_def)
  have "bkts_ok ?t' (length (tb_buckets ?t')) (tb_buckets ?t') (set (tb_order t))"
    using inv unfolding HASH_EXPAND_BUCKETS_frame by blast
  moreover have "elem ?t' = elem t" by (simp add: elem_def fun_eq_iff)
  ultimately have "bkts_ok t (length (tb_buckets ?t')) (tb_buckets ?t') (set (tb_order t))"
    using bkts_ok_heap_cong [of "set (tb_order t)" ?t' t] by simp
  then show ?thesis by (simp add: len)
qed

theorem uthash_expand_witness:
  "length (tb_buckets (HASH_EXPAND_BUCKETS (HASH_MAKE_TABLE :: nat UT_hash_table))) = 64"
proof -
  have "ut_inv (HASH_MAKE_TABLE :: nat UT_hash_table)"
    by (simp add: ut_inv_def HASH_MAKE_TABLE_def HASH_INITIAL_NUM_BUCKETS_def bkts_ok_empty)
  from uthash_expand [OF this] show ?thesis
    by (simp add: HASH_MAKE_TABLE_def HASH_INITIAL_NUM_BUCKETS_def)
qed

end
