(* ===== verification/Partitioner.thy ===== *)
theory Partitioner
  imports Mdhim_Base Uthash Long_Double Mpi_Pack "HOL-Library.FuncSet"
begin

text \<open>
  \<^verbatim>\<open>mdhimMods/src/partitioner.c\<close>: the alphabet table, the check of a key, the slice of a
  key, the numbering of the range servers, the server of a slice, and the choice of a slice
  from statistics.  The result \<open>None\<close> of an operation that returns an option is a run
  with undefined behaviour: a NULL pointer followed, a division by zero, or a floating-point
  number converted to an integer type that cannot hold it.  A NULL pointer that is returned is
  an inner \<open>None\<close>.  A key is the bytes it points to, \<open>None\<close> for NULL; a \<^verbatim>\<open>char\<close> is signed.
\<close>

section \<open>Data\<close>

definition MDHIM_MAX_SLICES :: int where "MDHIM_MAX_SLICES = 2147483647"
definition MAX_KEY_LEN :: int where "MAX_KEY_LEN = 262144"
definition MDHIM_ALPHABET_EXPONENT :: nat where "MDHIM_ALPHABET_EXPONENT = 6"

lemmas mdhim_consts = MDHIM_SUCCESS_def MDHIM_ERROR_def MDHIM_MAX_SLICES_def MAX_KEY_LEN_def
lemmas get_ops = MDHIM_GET_EQ_def MDHIM_GET_NEXT_def MDHIM_GET_PREV_def MDHIM_GET_FIRST_def MDHIM_GET_LAST_def

text \<open>A statistics bound: \<^verbatim>\<open>uint64_t\<close> for integer keys, \<^verbatim>\<open>long double\<close> for the others.\<close>

datatype stat_val = IStat u64 | FStat rat

record mdhim_stat =
  st_key :: int
  st_max :: stat_val
  st_min :: stat_val
  st_num :: u64

record rangesrv_info =
  rs_rank :: u32
  rs_rangesrv_num :: u32

text \<open>The fields of \<^verbatim>\<open>struct mdhim_t\<close> the partitioner reads, and its global variables; the
  linked list of range servers is a list.\<close>

record mdhim_t =
  md_comm :: MPI_Comm
  md_key_type :: int
  md_num_rangesrvs :: u32
  md_rangesrvs :: "rangesrv_info list"
  md_stats :: "mdhim_stat ut_head"

record part_globals =
  mdhim_alphabet :: "int ut_head"
  range_server_factor :: int
  mdhim_max_recs_per_slice :: u64

section \<open>The alphabet\<close>

definition add_char :: "int \<Rightarrow> int \<Rightarrow> int ut_head \<Rightarrow> int ut_head" where
  "add_char c pos h = HASH_ADD_INT h (of_int c) pos"

text \<open>One of the three loops: the characters from \<open>c\<close> to \<open>d\<close> get the next indexes.\<close>

definition add_chars :: "int \<Rightarrow> int \<Rightarrow> int \<times> int ut_head \<Rightarrow> int \<times> int ut_head" where
  "add_chars c d st = fold (\<lambda>i (indx, h). (indx + 1, add_char i indx h)) [c..d] st"

definition build_alphabet :: "int ut_head \<Rightarrow> int ut_head" where
  "build_alphabet h = snd (add_chars 97 122 (add_chars 65 90 (add_chars 48 57 (0, h))))"

definition delete_alphabet :: "int ut_head \<Rightarrow> int ut_head" where
  "delete_alphabet h = (let _ = fold (\<lambda>p h. HASH_DEL h p) (HASH_ITER h) h in None)"

definition char_id :: "byte \<Rightarrow> u32" where
  "char_id b = scast b"

section \<open>Keys as numbers\<close>

fun str_num_loop :: "int ut_head \<Rightarrow> byte list \<Rightarrow> nat \<Rightarrow> rat \<Rightarrow> rat option" where
  "str_num_loop al [] i acc = Some acc"
| "str_num_loop al (b # bs) i acc =
     (if bs = [] \<and> b = 0 then Some acc
      else case HASH_FIND_INT al (char_id b) of None \<Rightarrow> None
        | Some mc \<Rightarrow> str_num_loop al bs (Suc i)
            (ld_round (acc + of_int (hh_get al mc) * pow2neg (MDHIM_ALPHABET_EXPONENT * (i + 1)))))"

definition get_str_num :: "int ut_head \<Rightarrow> byte list \<Rightarrow> int \<Rightarrow> rat option" where
  "get_str_num al key key_len = str_num_loop al (take (nat key_len) key) 0 0"

fun byte_num_loop :: "byte list \<Rightarrow> nat \<Rightarrow> rat \<Rightarrow> rat" where
  "byte_num_loop [] i acc = acc"
| "byte_num_loop (b # bs) i acc =
     byte_num_loop bs (Suc i) (ld_round (acc + of_nat (unat b) * pow2neg (8 * (i + 1))))"

definition get_byte_num :: "byte list \<Rightarrow> int \<Rightarrow> rat" where
  "get_byte_num key key_len = byte_num_loop (take (nat key_len) key) 0 0"

text \<open>The loop of verify_key: are all characters in the alphabet?\<close>

fun verify_chars :: "int ut_head \<Rightarrow> byte list \<Rightarrow> bool" where
  "verify_chars al [] = True"
| "verify_chars al (b # bs) =
     (if bs = [] \<and> b = 0 then True
      else HASH_FIND_INT al (char_id b) \<noteq> None \<and> verify_chars al bs)"

definition verify_key :: "part_globals \<Rightarrow> byte list option \<Rightarrow> int \<Rightarrow> int \<Rightarrow> int option" where
  "verify_key g key key_len key_type =
     (case key of None \<Rightarrow> Some MDHIM_ERROR
      | Some k \<Rightarrow>
        if key_len > MAX_KEY_LEN then Some MDHIM_ERROR
        else if key_type = MDHIM_STRING_KEY \<and> \<not> verify_chars (mdhim_alphabet g) (take (nat key_len) k)
          then Some MDHIM_ERROR
        else case (if key_type = MDHIM_INT_KEY then Some (of_nat (le_val (take 4 k)))
                   else if key_type = MDHIM_LONG_INT_KEY then Some (of_nat (le_val (take 8 k)))
                   else if key_type = MDHIM_FLOAT_KEY then Option.bind (float_val k) to_u64
                   else if key_type = MDHIM_DOUBLE_KEY then Option.bind (double_val k) to_u64
                   else Some 0) of
            None \<Rightarrow> None
          | Some ikey \<Rightarrow>
            if mdhim_max_recs_per_slice g = 0 then None
            else if uint (ikey div mdhim_max_recs_per_slice g) \<ge> MDHIM_MAX_SLICES then Some MDHIM_ERROR
            else Some MDHIM_SUCCESS)"

definition is_float_key :: "int \<Rightarrow> bool" where
  "is_float_key type =
     (if type = MDHIM_STRING_KEY then True
      else if type = MDHIM_FLOAT_KEY then True
      else if type = MDHIM_DOUBLE_KEY then True
      else if type = MDHIM_INT_KEY then False
      else if type = MDHIM_LONG_INT_KEY then False
      else if type = MDHIM_BYTE_KEY then True
      else False)"

text \<open>\<^verbatim>\<open>floorl(map_num * total_keys)\<close>.\<close>

definition scale_key :: "rat \<Rightarrow> u64 \<Rightarrow> u64 option" where
  "scale_key map_num total_keys = to_u64 (of_int \<lfloor>ld_round (map_num * of_nat (unat total_keys))\<rfloor>)"

definition get_slice_num :: "part_globals \<Rightarrow> mdhim_t \<Rightarrow> byte list option \<Rightarrow> int \<Rightarrow> int option" where
  "get_slice_num g md key key_len =
     (let key_type = md_key_type md; recs = mdhim_max_recs_per_slice g;
          total_keys = of_int MDHIM_MAX_SLICES * recs
      in case verify_key g key key_len key_type of None \<Rightarrow> None
         | Some ret \<Rightarrow>
           if ret \<noteq> MDHIM_SUCCESS then Some MDHIM_ERROR
           else let k = the key;
             key_num = (if key_type = MDHIM_INT_KEY then Some (of_nat (le_val (take 4 k)))
               else if key_type = MDHIM_LONG_INT_KEY then Some (of_nat (le_val (take 8 k)))
               else if key_type = MDHIM_BYTE_KEY then scale_key (get_byte_num k key_len) total_keys
               else if key_type = MDHIM_FLOAT_KEY
                 then Option.bind (float_val k) (\<lambda>f. to_u64 (of_int \<lfloor>\<bar>f\<bar>\<rfloor>))
               else if key_type = MDHIM_DOUBLE_KEY
                 then Option.bind (double_val k) (\<lambda>f. to_u64 (of_int \<lfloor>\<bar>f\<bar>\<rfloor>))
               else if key_type = MDHIM_STRING_KEY
                 then Option.bind (get_str_num (mdhim_alphabet g) k key_len) (\<lambda>x. scale_key x total_keys)
               else Some 0)
             in if \<not> (MDHIM_INT_KEY \<le> key_type \<and> key_type \<le> MDHIM_BYTE_KEY) then Some 0
                else map_option (\<lambda>n. sint (ucast (n div recs) :: i32)) key_num)"

section \<open>Range servers\<close>

definition get_num_range_servers :: "part_globals \<Rightarrow> mdhim_t \<Rightarrow> u32 option" where
  "get_num_range_servers g md =
     (let (ret, sz) = MPI_Comm_size (md_comm md) 0; factor = range_server_factor g; size = sint sz
      in if ret \<noteq> MPI_SUCCESS then Some (of_int MDHIM_ERROR)
         else if size - 1 < factor then Some 1
         else if factor = 0 \<and> 0 < size then None
         else Some (of_nat (length (filter (\<lambda>i. i mod factor = 0) [0..size - 1]))))"

definition is_range_server :: "part_globals \<Rightarrow> mdhim_t \<Rightarrow> int \<Rightarrow> u32 option" where
  "is_range_server g md rank =
     (let (ret, sz) = MPI_Comm_size (md_comm md) 0; factor = range_server_factor g; size = sint sz - 1
      in if ret \<noteq> MPI_SUCCESS then Some (of_int MDHIM_ERROR)
         else if size < factor \<and> rank = size then Some (if 1 > md_num_rangesrvs md then 0 else 1)
         else if size \<ge> factor \<and> factor = 0 then None
         else let rangesrv_num = (if size \<ge> factor \<and> rank mod factor = 0
                                  then of_int (rank div factor) + 1 else 0 :: u64)
              in Some (if rangesrv_num > ucast (md_num_rangesrvs md) then 0 else ucast rangesrv_num))"

definition partitioner_init ::
  "int \<Rightarrow> u64 \<Rightarrow> part_globals \<Rightarrow> mdhim_t \<Rightarrow> (part_globals \<times> mdhim_t) option" where
  "partitioner_init server_factor max_recs g md =
     (let g = g\<lparr>range_server_factor := server_factor, mdhim_max_recs_per_slice := max_recs\<rparr>
      in case get_num_range_servers g md of None \<Rightarrow> None
         | Some n \<Rightarrow> Some (g\<lparr>mdhim_alphabet := build_alphabet (mdhim_alphabet g)\<rparr>,
                           md\<lparr>md_num_rangesrvs := n\<rparr>))"

definition partitioner_release :: "part_globals \<Rightarrow> part_globals" where
  "partitioner_release g = g\<lparr>mdhim_alphabet := delete_alphabet (mdhim_alphabet g)\<rparr>"

text \<open>The modulus is computed in \<^verbatim>\<open>uint32_t\<close>, so a negative slice is converted first.\<close>

definition get_range_server_by_slice :: "mdhim_t \<Rightarrow> int \<Rightarrow> rangesrv_info option option" where
  "get_range_server_by_slice md sl =
     (let n = md_num_rangesrvs md
      in if n = 0 then None
         else let rangesrv_num = (if n = 1 then 1 else (of_int sl :: u32) mod n + 1)
              in Some (find (\<lambda>rp. rangesrv_num = rs_rangesrv_num rp) (md_rangesrvs md)))"

definition get_range_server ::
  "part_globals \<Rightarrow> mdhim_t \<Rightarrow> byte list option \<Rightarrow> int \<Rightarrow> rangesrv_info option option" where
  "get_range_server g md key key_len =
     (case get_slice_num g md key key_len of None \<Rightarrow> None
      | Some slice_num \<Rightarrow> if slice_num = MDHIM_ERROR then Some None
                          else get_range_server_by_slice md slice_num)"

section \<open>Slices from statistics\<close>

definition get_next_slice_stat :: "mdhim_t \<Rightarrow> int \<Rightarrow> mdhim_stat option" where
  "get_next_slice_stat md slice_num =
     fold (\<lambda>p best. let stat = hh_get (md_stats md) p in
         case best of None \<Rightarrow> if st_key stat > slice_num then Some stat else None
         | Some b \<Rightarrow> if st_key stat > slice_num \<and> st_key stat < st_key b then Some stat else Some b)
       (HASH_ITER (md_stats md)) None"

definition get_prev_slice_stat :: "mdhim_t \<Rightarrow> int \<Rightarrow> mdhim_stat option" where
  "get_prev_slice_stat md slice_num =
     fold (\<lambda>p best. let stat = hh_get (md_stats md) p in
         case best of None \<Rightarrow> if st_key stat < slice_num then Some stat else None
         | Some b \<Rightarrow> if st_key stat < slice_num \<and> st_key stat > st_key b then Some stat else Some b)
       (HASH_ITER (md_stats md)) None"

definition get_last_slice_stat :: "mdhim_t \<Rightarrow> mdhim_stat option" where
  "get_last_slice_stat md =
     fold (\<lambda>p best. let stat = hh_get (md_stats md) p in
         case best of None \<Rightarrow> Some stat
         | Some b \<Rightarrow> if st_key stat > st_key b then Some stat else Some b)
       (HASH_ITER (md_stats md)) None"

definition get_first_slice_stat :: "mdhim_t \<Rightarrow> mdhim_stat option" where
  "get_first_slice_stat md =
     fold (\<lambda>p best. let stat = hh_get (md_stats md) p in
         case best of None \<Rightarrow> Some stat
         | Some b \<Rightarrow> if st_key stat < st_key b then Some stat else Some b)
       (HASH_ITER (md_stats md)) None"

definition stat_slice :: "mdhim_stat option \<Rightarrow> int" where
  "stat_slice new_stat = (case new_stat of None \<Rightarrow> 0 | Some s \<Rightarrow> st_key s)"

text \<open>The statistics of the current slice.\<close>

definition cur_stat :: "mdhim_t \<Rightarrow> int \<Rightarrow> mdhim_stat option" where
  "cur_stat md cur_slice =
     map_option (hh_get (md_stats md)) (HASH_FIND_INT (md_stats md) (of_int cur_slice))"

text \<open>Reading a bound as a \<^verbatim>\<open>long double\<close> or a \<^verbatim>\<open>uint64_t\<close>; \<open>None\<close> when the other type is
  stored there.\<close>

fun fstat_of :: "stat_val \<Rightarrow> rat option" where
  "fstat_of (FStat x) = Some x"
| "fstat_of (IStat w) = None"

fun istat_of :: "stat_val \<Rightarrow> u64 option" where
  "istat_of (IStat w) = Some w"
| "istat_of (FStat x) = None"

definition get_slice_from_fstat :: "mdhim_t \<Rightarrow> int \<Rightarrow> rat \<Rightarrow> int \<Rightarrow> int option" where
  "get_slice_from_fstat md cur_slice fstat op =
     (if md_stats md = None then Some 0
      else let cur = cur_stat md cur_slice in
        if op = MDHIM_GET_NEXT then
          (case cur of None \<Rightarrow> Some (stat_slice (get_next_slice_stat md cur_slice))
           | Some s \<Rightarrow> map_option (\<lambda>x. if x > fstat then cur_slice
                         else stat_slice (get_next_slice_stat md cur_slice)) (fstat_of (st_max s)))
        else if op = MDHIM_GET_PREV then
          (case cur of None \<Rightarrow> Some (stat_slice (get_prev_slice_stat md cur_slice))
           | Some s \<Rightarrow> map_option (\<lambda>x. if x < fstat then cur_slice
                         else stat_slice (get_prev_slice_stat md cur_slice)) (fstat_of (st_min s)))
        else if op = MDHIM_GET_FIRST then Some (stat_slice (get_first_slice_stat md))
        else if op = MDHIM_GET_LAST then Some (stat_slice (get_last_slice_stat md))
        else Some 0)"

definition get_slice_from_istat :: "mdhim_t \<Rightarrow> int \<Rightarrow> u64 \<Rightarrow> int \<Rightarrow> int option" where
  "get_slice_from_istat md cur_slice istat op =
     (if md_stats md = None then Some 0
      else let cur = cur_stat md cur_slice in
        if op = MDHIM_GET_NEXT then
          (case cur of None \<Rightarrow> Some (stat_slice (get_next_slice_stat md cur_slice))
           | Some s \<Rightarrow> map_option (\<lambda>x. if x > istat then cur_slice
                         else stat_slice (get_next_slice_stat md cur_slice)) (istat_of (st_max s)))
        else if op = MDHIM_GET_PREV then
          (case cur of None \<Rightarrow> Some (stat_slice (get_prev_slice_stat md cur_slice))
           | Some s \<Rightarrow> map_option (\<lambda>x. if x < istat then cur_slice
                         else stat_slice (get_prev_slice_stat md cur_slice)) (istat_of (st_min s)))
        else if op = MDHIM_GET_FIRST then Some (stat_slice (get_first_slice_stat md))
        else if op = MDHIM_GET_LAST then Some (stat_slice (get_last_slice_stat md))
        else Some 0)"

definition get_range_server_from_stats ::
  "part_globals \<Rightarrow> mdhim_t \<Rightarrow> byte list option \<Rightarrow> int \<Rightarrow> int \<Rightarrow> rangesrv_info option option" where
  "get_range_server_from_stats g md key key_len op =
     (let t = md_key_type md; has_key = (key \<noteq> None \<and> key_len \<noteq> 0) in
      if md_stats md = None then Some None
      else case (if has_key then get_slice_num g md key key_len else Some 0) of None \<Rightarrow> None
      | Some cur_slice \<Rightarrow>
        if has_key \<and> cur_slice = MDHIM_ERROR then Some None
        else if \<not> has_key \<and> op \<noteq> MDHIM_GET_FIRST \<and> op \<noteq> MDHIM_GET_LAST then Some None
        else let k = the key;
          fstat = (if \<not> has_key then Some 0
                   else if t = MDHIM_STRING_KEY then get_str_num (mdhim_alphabet g) k key_len
                   else if t = MDHIM_FLOAT_KEY then float_val k
                   else if t = MDHIM_DOUBLE_KEY then double_val k
                   else if t = MDHIM_BYTE_KEY then Some (get_byte_num k key_len)
                   else Some 0);
          istat = (if \<not> has_key then 0
                   else if t = MDHIM_INT_KEY then of_nat (le_val (take 4 k))
                   else if t = MDHIM_LONG_INT_KEY then of_nat (le_val (take 8 k))
                   else 0);
          sl = (if is_float_key t then Option.bind fstat (\<lambda>x. get_slice_from_fstat md cur_slice x op)
                   else get_slice_from_istat md cur_slice istat op)
        in case sl of None \<Rightarrow> None
           | Some slice_num \<Rightarrow> if slice_num = MDHIM_ERROR then Some None
                               else get_range_server_by_slice md slice_num)"

section \<open>Lemmas: numbering of the range servers\<close>

lemma length_multiples:
  assumes "0 < f" and "0 \<le> m"
  shows "length (filter (\<lambda>i. i mod f = 0) [0..m]) = nat (m div f) + 1"
proof -
  have "set (filter (\<lambda>i. i mod f = 0) [0..m]) = (\<lambda>k. k * f) ` {0..m div f}"
  proof (intro set_eqI iffI)
    fix i assume "i \<in> set (filter (\<lambda>i. i mod f = 0) [0..m])"
    then have i: "0 \<le> i" "i \<le> m" "i = i div f * f" by auto
    moreover have "i div f \<in> {0..m div f}"
      using i assms by (auto intro: zdiv_mono1 simp: pos_imp_zdiv_nonneg_iff)
    ultimately show "i \<in> (\<lambda>k. k * f) ` {0..m div f}" by blast
  next
    fix i assume "i \<in> (\<lambda>k. k * f) ` {0..m div f}"
    then obtain k where "i = k * f" "k \<in> {0..m div f}" by blast
    then have k: "i = k * f" "0 \<le> k" "k \<le> m div f" by simp_all
    then have "k * f \<le> m div f * f" using assms by (intro mult_right_mono) simp_all
    also have "\<dots> \<le> m" using div_mult_mod_eq [of m f] pos_mod_sign [OF assms(1), of m] by linarith
    finally show "i \<in> set (filter (\<lambda>i. i mod f = 0) [0..m])" using k assms by simp
  qed
  then have "length (filter (\<lambda>i. i mod f = 0) [0..m]) = card ((\<lambda>k. k * f) ` {0..m div f})"
    by (metis distinct_card distinct_filter distinct_upto)
  also have "\<dots> = card {0..m div f}"
    using assms by (intro card_image) (simp add: inj_on_def)
  also have "\<dots> = nat (m div f) + 1"
    using assms by (simp add: pos_imp_zdiv_nonneg_iff nat_add_distrib)
  finally show ?thesis .
qed

text \<open>The communicator has \<open>n\<close> members.\<close>

definition comm_size_is :: "mdhim_t \<Rightarrow> nat \<Rightarrow> bool" where
  "comm_size_is md n \<longleftrightarrow> 0 < n \<and> n < 2147483648 \<and> MPI_Comm_size (md_comm md) 0 = (MPI_SUCCESS, of_nat n)"

lemma get_num_range_servers_val:
  assumes "comm_size_is md n" and "0 < range_server_factor g"
  shows "get_num_range_servers g md = Some (of_nat
    (if int n - 1 < range_server_factor g then 1 else nat ((int n - 1) div range_server_factor g) + 1))"
  using assms length_multiples [of "range_server_factor g" "int n - 1"]
  by (simp add: get_num_range_servers_def comm_size_is_def)

lemma is_range_server_val:
  assumes n: "comm_size_is md n" and f: "0 < range_server_factor g" and r: "0 \<le> r" "r < int n"
    and num: "get_num_range_servers g md = Some (md_num_rangesrvs md)"
  shows "is_range_server g md r = Some (of_nat
    (if int n - 1 < range_server_factor g then (if r = int n - 1 then 1 else 0)
     else if r mod range_server_factor g = 0 then nat (r div range_server_factor g) + 1 else 0))"
proof -
  let ?f = "range_server_factor g"
  have size: "MPI_Comm_size (md_comm md) 0 = (MPI_SUCCESS, of_nat n)" "0 < n" "n < 2147483648"
    using n by (simp_all add: comm_size_is_def)
  have N: "md_num_rangesrvs md = of_nat (if int n - 1 < ?f then 1 else nat ((int n - 1) div ?f) + 1)"
    using num get_num_range_servers_val [OF n f] by simp
  show ?thesis
  proof (cases "int n - 1 < ?f")
    case True
    then show ?thesis using size f N by (simp add: is_range_server_def Let_def)
  next
    case False
    define k where "k = nat (r div ?f) + 1"
    have d: "0 \<le> r div ?f" using r f by (simp add: pos_imp_zdiv_nonneg_iff)
    have "r div ?f \<le> (int n - 1) div ?f" using r f by (intro zdiv_mono1) simp_all
    then have kN: "k \<le> nat ((int n - 1) div ?f) + 1" by (simp add: k_def)
    have "(int n - 1) div ?f \<le> int n - 1"
      using f size zdiv_mono2 [of "int n - 1" 1 ?f] by simp
    then have NN: "nat ((int n - 1) div ?f) + 1 < 4294967296" using size by simp
    have kw: "of_int (r div ?f) + 1 = (of_nat k :: u64)" using d by (simp add: k_def)
    have un: "unat (md_num_rangesrvs md) = nat ((int n - 1) div ?f) + 1"
      using N False NN unat_of_nat_u32 [of "nat ((int n - 1) div ?f) + 1"] by (simp add: unat_of_nat_u32 del: of_nat_add)
    have uk: "unat (of_nat k :: u64) = k" using kN NN by (intro unat_of_nat_u64) simp
    have "\<not> (of_nat k :: u64) > ucast (md_num_rangesrvs md)"
      using kN by (simp add: word_less_nat_alt uk un)
    moreover have "ucast (of_nat k :: u64) = (of_nat k :: u32)"
      using kN NN by (simp add: unsigned_of_nat take_bit_nat_eq_self)
    ultimately show ?thesis
      using False size f kw by (simp add: is_range_server_def Let_def) (simp add: k_def)
  qed
qed

section \<open>Lemmas: the alphabet\<close>

text \<open>The index of a character: digits, capitals, small letters.\<close>

definition alpha_pos :: "byte \<Rightarrow> int option" where
  "alpha_pos b = (let c = uint b in
     if 48 \<le> c \<and> c \<le> 57 then Some (c - 48)
     else if 65 \<le> c \<and> c \<le> 90 then Some (c - 55)
     else if 97 \<le> c \<and> c \<le> 122 then Some (c - 61)
     else None)"

definition alpha_pairs :: "int \<Rightarrow> int \<Rightarrow> int \<Rightarrow> (u32 \<times> int) list" where
  "alpha_pairs c d k = map (\<lambda>i. (of_int i, i - k)) [c..d]"

lemma add_chars_pairs:
  "c \<le> d + 1 \<Longrightarrow> add_chars c d (n, h) =
   (n + (d + 1 - c), fold (\<lambda>(k, v) h. HASH_ADD_INT h k v) (alpha_pairs c d (c - n)) h)"
proof (induction "nat (d + 1 - c)" arbitrary: c n h)
  case 0
  then show ?case by (simp add: add_chars_def alpha_pairs_def)
next
  case (Suc k)
  then have le: "c \<le> d" by linarith
  then have up: "[c..d] = c # [c + 1..d]" by (rule upto_rec1)
  have "add_chars c d (n, h) = add_chars (c + 1) d (n + 1, add_char c n h)"
    by (simp add: add_chars_def up)
  also have "\<dots> = (n + 1 + (d + 1 - (c + 1)), fold (\<lambda>(k, v) h. HASH_ADD_INT h k v)
      (alpha_pairs (c + 1) d (c + 1 - (n + 1))) (add_char c n h))"
    using Suc le by (intro Suc.hyps) simp_all
  finally show ?case by (simp add: alpha_pairs_def up add_char_def)
qed

lemma fst_alpha_pairs: "fst ` set (alpha_pairs c d k) = of_int ` {c..d}"
  by (force simp: alpha_pairs_def)

lemma of_int_inj_u32: "inj_on (of_int :: int \<Rightarrow> u32) {0..<4294967296}"
  by (rule inj_on_inverseI [where g = uint]) (simp add: unsigned_of_int take_bit_int_eq_self)

lemma of_int_image_disjoint:
  assumes "0 \<le> c" and "d < c'" and "d' < 4294967296" and "0 \<le> c'" and "d < 4294967296"
  shows "of_int ` {c..d} \<inter> (of_int ` {c'..d'} :: u32 set) = {}"
proof -
  have "of_int ` {c..d} \<inter> (of_int ` {c'..d'} :: u32 set) = of_int ` ({c..d} \<inter> {c'..d'})"
    using assms by (intro inj_on_image_Int [OF of_int_inj_u32, symmetric]) auto
  then show ?thesis using assms by auto
qed

lemma distinct_alpha_pairs:
  "0 \<le> c \<Longrightarrow> d < 4294967296 \<Longrightarrow> distinct (map fst (alpha_pairs c d k))"
  by (auto simp: alpha_pairs_def comp_def distinct_map intro: inj_on_subset [OF of_int_inj_u32])

lemma map_of_alpha_pairs:
  assumes "0 \<le> c" and "d < 4294967296"
  shows "map_of (alpha_pairs c d k) w = (if c \<le> uint w \<and> uint w \<le> d then Some (uint w - k) else None)"
proof (cases "c \<le> uint w \<and> uint w \<le> d")
  case True
  then have "(w, uint w - k) \<in> set (alpha_pairs c d k)"
    unfolding alpha_pairs_def by (auto intro!: image_eqI [where x = "uint w"])
  with True distinct_alpha_pairs [OF assms] show ?thesis by simp
next
  case False
  have "w \<noteq> of_int i" if "c \<le> i" "i \<le> d" for i
  proof
    assume "w = of_int i"
    then have "uint w = i" using that assms by (simp add: unsigned_of_int take_bit_int_eq_self)
    with that False show False by simp
  qed
  then have "w \<notin> fst ` set (alpha_pairs c d k)"
    unfolding fst_alpha_pairs by (metis atLeastAtMost_iff imageE)
  with False show ?thesis by (auto simp: map_of_eq_None_iff)
qed

definition alphabet_pairs :: "(u32 \<times> int) list" where
  "alphabet_pairs = alpha_pairs 48 57 48 @ alpha_pairs 65 90 55 @ alpha_pairs 97 122 61"

lemma build_alphabet_pairs:
  "head_inv (build_alphabet None)" "ut_alist (build_alphabet None) = alphabet_pairs"
proof -
  have "build_alphabet None = fold (\<lambda>(k, v) h. HASH_ADD_INT h k v) alphabet_pairs None"
    by (simp add: build_alphabet_def add_chars_pairs alphabet_pairs_def)
  moreover have "distinct (map fst alphabet_pairs)"
    unfolding alphabet_pairs_def map_append distinct_append set_map set_append image_Un fst_alpha_pairs
    using of_int_image_disjoint [of 48 57 65 90] of_int_image_disjoint [of 48 57 97 122]
      of_int_image_disjoint [of 65 90 97 122]
    by (auto simp: distinct_alpha_pairs)
  ultimately show "head_inv (build_alphabet None)" "ut_alist (build_alphabet None) = alphabet_pairs"
    using ut.add_all [OF ut.null(2), of alphabet_pairs] by (simp_all add: ut.null(1))
qed

lemma uint_char_id: "uint (char_id b) = (if uint b < 128 then uint b else uint b + 4294967040)"
proof -
  have "uint (char_id b) = sint b mod 4294967296"
    unfolding char_id_def scast_eq by (simp add: unsigned_of_int take_bit_eq_mod del: of_int_sint)
  also have "\<dots> = (if uint b < 128 then uint b else uint b + 4294967040)"
  proof (cases "uint b < 128")
    case True
    then show ?thesis by (simp add: sint_byte mod_pos_pos_trivial)
  next
    case False
    then have "sint b mod 4294967296 = (uint b - 256 + 4294967296) mod 4294967296"
      unfolding mod_add_self2 by (simp add: sint_byte)
    also have "\<dots> = uint b - 256 + 4294967296"
      using uint_byte [of b] False by (intro mod_pos_pos_trivial) simp_all
    finally show ?thesis using False by simp
  qed
  finally show ?thesis .
qed

lemma alphabet_lookup:
  "map_option (hh_get (build_alphabet None)) (HASH_FIND_INT (build_alphabet None) (char_id b)) = alpha_pos b"
proof -
  have "map_option (hh_get (build_alphabet None)) (HASH_FIND_INT (build_alphabet None) (char_id b)) =
      map_of alphabet_pairs (char_id b)"
    using ut.lookup_pairs [OF build_alphabet_pairs(1)] build_alphabet_pairs(2) by simp
  also have "\<dots> = alpha_pos b"
    by (auto simp: alphabet_pairs_def map_add_def map_of_alpha_pairs alpha_pos_def Let_def uint_char_id)
  finally show ?thesis .
qed

section \<open>Properties of the range server numbering\<close>

text \<open>The number of a rank.\<close>

definition server_number :: "int \<Rightarrow> nat \<Rightarrow> int \<Rightarrow> nat" where
  "server_number f n r =
     (if int n - 1 < f then (if r = int n - 1 then 1 else 0)
      else if r mod f = 0 then nat (r div f) + 1 else 0)"

lemma server_number_bij:
  assumes f: "0 < f" and n: "0 < n"
  shows "bij_betw (server_number f n) {r. 0 \<le> r \<and> r < int n \<and> server_number f n r \<noteq> 0}
    {1..if int n - 1 < f then 1 else nat ((int n - 1) div f) + 1}"
proof (cases "int n - 1 < f")
  case True
  then have "{r. 0 \<le> r \<and> r < int n \<and> server_number f n r \<noteq> 0} = {int n - 1}"
    using n by (auto simp: server_number_def)
  with True show ?thesis by (simp add: bij_betw_def server_number_def)
next
  case False
  let ?A = "{r. 0 \<le> r \<and> r < int n \<and> r mod f = 0}"
  have A: "{r. 0 \<le> r \<and> r < int n \<and> server_number f n r \<noteq> 0} = ?A"
    using False by (auto simp: server_number_def)
  have "bij_betw (\<lambda>r. nat (r div f) + 1) ?A {1..nat ((int n - 1) div f) + 1}"
  proof (rule bij_betwI [where g = "\<lambda>j. (int j - 1) * f"])
    show "(\<lambda>r. nat (r div f) + 1) \<in> ?A \<rightarrow> {1..nat ((int n - 1) div f) + 1}"
    proof
      fix r assume "r \<in> ?A"
      then have "r div f \<le> (int n - 1) div f" using f by (intro zdiv_mono1) simp_all
      then show "nat (r div f) + 1 \<in> {1..nat ((int n - 1) div f) + 1}" by simp
    qed
    show "(\<lambda>j. (int j - 1) * f) \<in> {1..nat ((int n - 1) div f) + 1} \<rightarrow> ?A"
    proof
      fix j assume j: "j \<in> {1..nat ((int n - 1) div f) + 1}"
      have "0 \<le> (int n - 1) div f" using f n by (simp add: pos_imp_zdiv_nonneg_iff)
      with j have "int j - 1 \<le> (int n - 1) div f" by auto
      then have "(int j - 1) * f \<le> (int n - 1) div f * f" using f by (intro mult_right_mono) simp_all
      also have "\<dots> \<le> int n - 1"
        using div_mult_mod_eq [of "int n - 1" f] pos_mod_sign [OF f, of "int n - 1"] by linarith
      finally show "(int j - 1) * f \<in> ?A" using j f by simp
    qed
    show "(int (nat (r div f) + 1) - 1) * f = r" if "r \<in> ?A" for r
    proof -
      have "0 \<le> r div f" using that f by (simp add: pos_imp_zdiv_nonneg_iff)
      then show ?thesis using that div_mult_mod_eq [of r f] by simp
    qed
    show "nat ((int j - 1) * f div f) + 1 = j" if "j \<in> {1..nat ((int n - 1) div f) + 1}" for j
      using that f by auto
  qed
  then have "bij_betw (server_number f n) ?A {1..nat ((int n - 1) div f) + 1}"
    by (rule bij_betw_cong [THEN iffD1, rotated]) (use False in \<open>simp add: server_number_def\<close>)
  then show ?thesis unfolding A using False by simp
qed

text \<open>C31.  Among the members of a communicator, those that is_range_server declares range
  servers are numbered from 1 to the number of range servers, each number being given to exactly
  one rank; all other ranks get 0.\<close>

theorem range_server_numbering:
  assumes n: "comm_size_is md n" and f: "0 < range_server_factor g"
    and num: "get_num_range_servers g md = Some (md_num_rangesrvs md)"
  shows "\<exists>num_of. (\<forall>r. 0 \<le> r \<and> r < int n \<longrightarrow> is_range_server g md r = Some (num_of r)) \<and>
    bij_betw (\<lambda>r. unat (num_of r)) {r. 0 \<le> r \<and> r < int n \<and> num_of r \<noteq> 0} {1..unat (md_num_rangesrvs md)}"
proof -
  let ?f = "range_server_factor g"
  have n': "0 < n" "n < 2147483648" using n by (simp_all add: comm_size_is_def)
  have le: "x div ?f \<le> int n - 1" if "0 \<le> x" "x \<le> int n - 1" for x
    using that f zdiv_mono2 [of x 1 ?f] by simp
  have un: "unat (of_nat (server_number ?f n r) :: u32) = server_number ?f n r" if "0 \<le> r" "r < int n" for r
  proof -
    have "nat (r div ?f) + 1 \<le> n" using le [of r] that by linarith
    then have "server_number ?f n r \<le> n" using n' by (auto simp: server_number_def)
    then show ?thesis using n' by (intro unat_of_nat_u32) simp
  qed
  have nz: "(of_nat (server_number ?f n r) :: u32) \<noteq> 0 \<longleftrightarrow> server_number ?f n r \<noteq> 0" if "0 \<le> r" "r < int n" for r
    using un [OF that] unat_eq_zero [of "of_nat (server_number ?f n r) :: u32"] by argo
  have "nat ((int n - 1) div ?f) + 1 < 4294967296" using le [of "int n - 1"] n' by linarith
  from unat_of_nat_u32 [OF this]
  have "unat (md_num_rangesrvs md) = (if int n - 1 < ?f then 1 else nat ((int n - 1) div ?f) + 1)"
    using num get_num_range_servers_val [OF n f] by (simp del: of_nat_add split: if_splits)
  with server_number_bij [OF f n'(1)]
  have "bij_betw (server_number ?f n) {r. 0 \<le> r \<and> r < int n \<and> server_number ?f n r \<noteq> 0} {1..unat (md_num_rangesrvs md)}"
    by simp
  moreover have S: "{r. 0 \<le> r \<and> r < int n \<and> (of_nat (server_number ?f n r) :: u32) \<noteq> 0} =
      {r. 0 \<le> r \<and> r < int n \<and> server_number ?f n r \<noteq> 0}" using nz by blast
  moreover have "bij_betw (\<lambda>r. unat (of_nat (server_number ?f n r) :: u32))
      {r. 0 \<le> r \<and> r < int n \<and> server_number ?f n r \<noteq> 0} A =
    bij_betw (server_number ?f n) {r. 0 \<le> r \<and> r < int n \<and> server_number ?f n r \<noteq> 0} A" for A
    by (rule bij_betw_cong) (simp add: un)
  ultimately have "bij_betw (\<lambda>r. unat (of_nat (server_number ?f n r) :: u32))
      {r. 0 \<le> r \<and> r < int n \<and> (of_nat (server_number ?f n r) :: u32) \<noteq> 0} {1..unat (md_num_rangesrvs md)}"
    unfolding S by blast
  moreover have "\<forall>r. 0 \<le> r \<and> r < int n \<longrightarrow> is_range_server g md r = Some (of_nat (server_number ?f n r))"
    using is_range_server_val [OF n f _ _ num] unfolding server_number_def by blast
  ultimately show ?thesis by (intro exI [of _ "\<lambda>r. of_nat (server_number ?f n r)"]) blast
qed

definition example_md :: mdhim_t where
  "example_md = \<lparr>md_comm = Some (world_comm 8 0 0 1000 2000 3000 6), md_key_type = MDHIM_INT_KEY,
     md_num_rangesrvs = 4, md_rangesrvs = [], md_stats = None\<rparr>"

definition example_globals :: part_globals where
  "example_globals = \<lparr>mdhim_alphabet = None, range_server_factor = 2, mdhim_max_recs_per_slice = 100\<rparr>"

lemma example_size: "comm_size_is example_md 8"
  by (simp add: comm_size_is_def example_md_def MPI_Comm_size_def world_comm_def)

text \<open>Eight ranks and a factor of 2: the range servers are the ranks 0, 2, 4 and 6.\<close>

theorem range_server_numbering_witness:
  "\<exists>num_of. (\<forall>r. 0 \<le> r \<and> r < 8 \<longrightarrow> is_range_server example_globals example_md r = Some (num_of r)) \<and>
    bij_betw (\<lambda>r. unat (num_of r)) {r. 0 \<le> r \<and> r < 8 \<and> num_of r \<noteq> 0} {1..4}"
proof -
  have f: "0 < range_server_factor example_globals" by (simp add: example_globals_def)
  have "get_num_range_servers example_globals example_md = Some (md_num_rangesrvs example_md)"
    using get_num_range_servers_val [OF example_size f] by (simp add: example_globals_def example_md_def)
  from range_server_numbering [OF example_size f this] show ?thesis
    by (simp add: example_md_def)
qed

text \<open>Every slice has its entry, when the list is complete.\<close>

lemma slice_served:
  assumes pos: "0 < md_num_rangesrvs md"
    and all: "\<forall>j \<in> {1..unat (md_num_rangesrvs md)}. \<exists>rp \<in> set (md_rangesrvs md). unat (rs_rangesrv_num rp) = j"
  shows "\<exists>rp \<in> set (md_rangesrvs md). get_range_server_by_slice md sl = Some (Some rp) \<and>
    (0 \<le> sl \<and> sl < 4294967296 \<longrightarrow> unat (rs_rangesrv_num rp) = nat sl mod unat (md_num_rangesrvs md) + 1)"
proof -
  let ?N = "md_num_rangesrvs md"
  define w where "w = (if ?N = 1 then 1 else (of_int sl :: u32) mod ?N + 1)"
  have N: "0 < unat ?N" using pos by (simp add: unat_gt_0 word_neq_0_conv)
  have m: "unat ((of_int sl :: u32) mod ?N) < unat ?N" using N by (simp add: unat_mod)
  have "unat ((of_int sl :: u32) mod ?N + 1) = unat ((of_int sl :: u32) mod ?N) + 1"
    using m unat_u32_lt [of ?N] by (simp add: unat_word_ariths(1))
  moreover have "unat (1 :: u32) = unat ((of_int sl :: u32) mod 1) + 1" by simp
  ultimately have w: "unat w = unat ((of_int sl :: u32) mod ?N) + 1" by (simp add: w_def)
  with m have "unat w \<in> {1..unat ?N}" by simp
  with all obtain rp0 where "rp0 \<in> set (md_rangesrvs md)" "rs_rangesrv_num rp0 = w"
    by (metis word_unat_eq_iff)
  then obtain rp where rp: "find (\<lambda>rp. w = rs_rangesrv_num rp) (md_rangesrvs md) = Some rp"
    by (metis (mono_tags, lifting) find_None_iff option.exhaust)
  then have "rp \<in> set (md_rangesrvs md)" "rs_rangesrv_num rp = w"
    by (auto simp: find_Some_iff)
  moreover have "get_range_server_by_slice md sl = Some (Some rp)"
    using pos rp by (simp add: get_range_server_by_slice_def Let_def w_def)
  moreover have "unat (of_int sl :: u32) = nat sl" if "0 \<le> sl" "sl < 4294967296"
    using uint_of_int_u32 [OF that] by (metis nat_uint_eq)
  ultimately show ?thesis using w by (auto simp: unat_mod)
qed

text \<open>C32.  When the list of range servers has an entry for every number from 1 to their count,
  every slice, negative ones included, is served: get_range_server_by_slice returns an entry of the
  list, and for a non-negative slice it is the one whose number is the slice modulo the count, plus
  one, so consecutive slices go round the servers.\<close>

theorem every_slice_is_served:
  assumes pos: "0 < md_num_rangesrvs md"
    and all: "\<forall>j \<in> {1..unat (md_num_rangesrvs md)}. \<exists>rp \<in> set (md_rangesrvs md). unat (rs_rangesrv_num rp) = j"
  shows "\<exists>rp \<in> set (md_rangesrvs md). get_range_server_by_slice md sl = Some (Some rp) \<and>
    (0 \<le> sl \<and> sl < 4294967296 \<longrightarrow> unat (rs_rangesrv_num rp) = nat sl mod unat (md_num_rangesrvs md) + 1)"
  by (rule slice_served [OF assms])

theorem every_slice_is_served_witness:
  "\<exists>rp \<in> set [\<lparr>rs_rank = 2, rs_rangesrv_num = 2\<rparr>, \<lparr>rs_rank = 0, rs_rangesrv_num = 1\<rparr>].
    get_range_server_by_slice (example_md\<lparr>md_num_rangesrvs := 2,
      md_rangesrvs := [\<lparr>rs_rank = 2, rs_rangesrv_num = 2\<rparr>, \<lparr>rs_rank = 0, rs_rangesrv_num = 1\<rparr>]\<rparr>) 7 = Some (Some rp) \<and>
    unat (rs_rangesrv_num rp) = 2"
proof -
  have two: "{Suc 0..2} = {1, 2}" by auto
  show ?thesis
    using every_slice_is_served [of "example_md\<lparr>md_num_rangesrvs := 2,
      md_rangesrvs := [\<lparr>rs_rank = 2, rs_rangesrv_num = 2\<rparr>, \<lparr>rs_rank = 0, rs_rangesrv_num = 1\<rparr>]\<rparr>" 7]
    by (auto simp: two)
qed

section \<open>Lemmas: keys\<close>

definition strip_nul :: "byte list \<Rightarrow> byte list" where
  "strip_nul bs = (if bs \<noteq> [] \<and> last bs = 0 then butlast bs else bs)"

definition positions :: "byte list \<Rightarrow> int list" where
  "positions bs = map (\<lambda>b. the (alpha_pos b)) bs"

lemma alpha_pos_range: "alpha_pos b = Some p \<Longrightarrow> 0 \<le> p \<and> p \<le> 61"
  by (auto simp: alpha_pos_def Let_def split: if_splits)

lemma alpha_pos_0 [simp]: "alpha_pos 0 = None"
  by (simp add: alpha_pos_def)

lemma alphabet_find_None: "HASH_FIND_INT (build_alphabet None) (char_id b) = None \<longleftrightarrow> alpha_pos b = None"
  using alphabet_lookup [of b] by (metis option.map_disc_iff)

lemma alphabet_find_Some:
  "HASH_FIND_INT (build_alphabet None) (char_id b) = Some p \<Longrightarrow> hh_get (build_alphabet None) p = the (alpha_pos b)"
  using alphabet_lookup [of b] by (metis option.sel option.map(2))

lemma strip_nul_Cons: "strip_nul (b # bs) = (if bs = [] \<and> b = 0 then [] else b # strip_nul bs)"
  by (auto simp: strip_nul_def)

lemma length_strip_nul: "length (strip_nul bs) \<le> length bs"
  by (simp add: strip_nul_def)

lemma verify_chars_iff:
  "verify_chars (build_alphabet None) bs \<longleftrightarrow> (\<forall>b \<in> set (strip_nul bs). alpha_pos b \<noteq> None)"
proof (induction bs)
  case (Cons b bs)
  then show ?case by (auto simp: strip_nul_Cons alphabet_find_None)
qed (simp add: strip_nul_def)

lemma str_num_loop_frac:
  "\<forall>b \<in> set (strip_nul bs). alpha_pos b \<noteq> None \<Longrightarrow>
   str_num_loop (build_alphabet None) bs i acc = Some (ld.frac_loop 6 (positions (strip_nul bs)) i acc)"
proof (induction bs arbitrary: i acc)
  case (Cons b bs)
  show ?case
  proof (cases "bs = [] \<and> b = 0")
    case False
    then have ok: "alpha_pos b \<noteq> None" "\<forall>b \<in> set (strip_nul bs). alpha_pos b \<noteq> None"
      using Cons.prems by (auto simp: strip_nul_Cons split: if_splits)
    then obtain p where p: "HASH_FIND_INT (build_alphabet None) (char_id b) = Some p"
      using alphabet_find_None [of b] by auto
    from False Cons.IH [OF ok(2)] show ?thesis
      by (auto simp: p alphabet_find_Some [OF p] strip_nul_Cons positions_def MDHIM_ALPHABET_EXPONENT_def)
  qed (simp add: strip_nul_Cons positions_def)
qed (simp add: strip_nul_def positions_def)

lemma byte_num_loop_frac: "byte_num_loop bs i acc = ld.frac_loop 8 (map uint bs) i acc"
proof (induction bs arbitrary: i acc)
  case (Cons b bs)
  have "(of_nat (unat b) :: rat) = of_int (uint b)" by (simp flip: nat_uint_eq)
  with Cons show ?case by simp
qed simp

lemma positions_range:
  "\<forall>b \<in> set bs. alpha_pos b \<noteq> None \<Longrightarrow> \<forall>d \<in> set (positions bs). 0 \<le> d \<and> d \<le> 61"
  using alpha_pos_range by (fastforce simp: positions_def)

text \<open>Up to 10 characters, or 8 bytes, no rounding takes place.\<close>

lemma ld_frac_exact:
  "\<forall>d \<in> set ds. 0 \<le> d \<and> d < 2 ^ e \<Longrightarrow> e * length ds \<le> 64 \<Longrightarrow> ld.frac_loop e ds 0 0 = frac e ds"
  using ld.frac_loop_exact [of ds e 0 0] by simp

text \<open>Longer strings stay clear of 1.\<close>

lemma frac_6_bound: "\<forall>d \<in> set ds. 0 \<le> d \<and> d \<le> 61 \<Longrightarrow> 0 \<le> frac 6 ds \<and> frac 6 ds \<le> 61 / 63"
proof (induction ds)
  case (Cons d ds)
  then have "(of_int d :: rat) \<le> of_int 61" unfolding of_int_le_iff by simp
  moreover have "(0 :: rat) \<le> of_int d" using Cons.prems by simp
  ultimately show ?case using Cons by simp
qed simp

lemma frac_loop_append:
  "ld.frac_loop e (ds @ es) i acc = ld.frac_loop e es (i + length ds) (ld.frac_loop e ds i acc)"
  by (induction ds arbitrary: i acc) simp_all

lemma str_num_bound:
  assumes "\<forall>d \<in> set ds. 0 \<le> d \<and> d \<le> 61" and "length ds \<le> 262144"
  shows "0 \<le> ld.frac_loop 6 ds 0 0 \<and> ld.frac_loop 6 ds 0 0 \<le> 63 / 64"
proof -
  have "\<forall>d \<in> set (take 10 ds). 0 \<le> d \<and> d \<le> 61" using assms(1) by (meson in_set_takeD)
  then have "0 \<le> frac 6 (take 10 ds) \<and> frac 6 (take 10 ds) \<le> 61 / 63" by (rule frac_6_bound)
  moreover have "ld.frac_loop 6 (take 10 ds) 0 0 = frac 6 (take 10 ds)"
    using assms(1) by (intro ld_frac_exact) (auto dest!: in_set_takeD)
  ultimately have head: "0 \<le> ld.frac_loop 6 (take 10 ds) 0 0" "ld.frac_loop 6 (take 10 ds) 0 0 \<le> 61 / 63"
    by simp_all
  show ?thesis
  proof (cases "length ds \<le> 10")
    case True
    with head show ?thesis by simp
  next
    case False
    have "ld.frac_loop 6 ds 0 0 = ld.frac_loop 6 (drop 10 ds) 10 (ld.frac_loop 6 (take 10 ds) 0 0)"
      using frac_loop_append [of 6 "take 10 ds" "drop 10 ds" 0 0] False by simp
    moreover have "\<forall>d \<in> set (drop 10 ds). 0 \<le> d \<and> d \<le> 61" using assms(1) by (meson in_set_dropD)
    ultimately show ?thesis
      using ld.frac_loop_bound_tail [of "drop 10 ds" 10 "ld.frac_loop 6 (take 10 ds) 0 0" 0] head assms(2)
      by simp
  qed
qed

lemma to_u64_of_int: "0 \<le> k \<Longrightarrow> k < 18446744073709551616 \<Longrightarrow> to_u64 (of_int k) = Some (of_int k)"
  by (simp add: to_u64_def)

lemma scale_key_val:
  assumes "0 \<le> x" and "x \<le> 1" and T: "unat T = N"
  shows "\<exists>w. scale_key x T = Some w \<and> int (unat w) = \<lfloor>ld_round (x * of_nat N)\<rfloor>"
proof -
  let ?y = "ld_round (x * of_nat N)"
  have N: "N < 18446744073709551616" using unat_u64_lt [of T] T by simp
  have "x * of_nat N \<le> 1 * of_nat N" using assms by (intro mult_right_mono) simp_all
  then have "?y \<le> of_int (int N)" using N by (intro ld.le_int) simp_all
  then have "\<lfloor>?y\<rfloor> \<le> int N" by linarith
  moreover have "0 \<le> \<lfloor>?y\<rfloor>" by simp
  ultimately have k: "0 \<le> \<lfloor>?y\<rfloor>" "\<lfloor>?y\<rfloor> < 18446744073709551616" using N by linarith+
  then have "uint (of_int \<lfloor>?y\<rfloor> :: u64) = \<lfloor>?y\<rfloor>"
    by (simp add: unsigned_of_int take_bit_int_eq_self)
  then show ?thesis
    unfolding scale_key_def T to_u64_of_int [OF k] by simp
qed

text \<open>The slice of a scaled key for slices of \<open>R\<close> records, when \<open>2147483647 * R\<close> fits 64 bits.\<close>

definition slice_of :: "rat \<Rightarrow> nat \<Rightarrow> int" where
  "slice_of x R = \<lfloor>ld_round (x * of_nat (2147483647 * R))\<rfloor> div int R"

lemma slice_of_mono: "x \<le> y \<Longrightarrow> 0 < R \<Longrightarrow> slice_of x R \<le> slice_of y R"
  unfolding slice_of_def
  by (intro zdiv_mono1 floor_mono ld_round_mono mult_right_mono) simp_all

lemma slice_of_nonneg: "0 \<le> slice_of x R"
  unfolding slice_of_def by (cases "R = 0") (simp_all add: pos_imp_zdiv_nonneg_iff)

lemma slice_of_le:
  assumes "x \<le> 1" and R: "0 < R" and T: "2147483647 * R < 18446744073709551616"
  shows "slice_of x R \<le> 2147483647"
proof -
  let ?T = "2147483647 * R"
  have "x * of_nat ?T \<le> 1 * of_nat ?T" using assms by (intro mult_right_mono) simp_all
  then have "x * of_nat ?T \<le> of_int (int ?T)" by simp
  then have "ld_round (x * of_nat ?T) \<le> of_int (int ?T)" using T by (intro ld.le_int) simp_all
  then have "\<lfloor>ld_round (x * of_nat ?T)\<rfloor> \<le> int ?T" by linarith
  then have "slice_of x R \<le> int ?T div int R"
    unfolding slice_of_def using R by (intro zdiv_mono1) simp_all
  then show ?thesis using R by simp
qed

lemma slice_of_lt:
  assumes "x \<le> 63 / 64" and R: "0 < R" and T: "2147483647 * R < 18446744073709551616"
  shows "slice_of x R < 2147483647"
proof -
  let ?T = "2147483647 * R"
  have "x * of_nat ?T \<le> 63 / 64 * of_nat ?T" using assms by (intro mult_right_mono) simp_all
  also have "\<dots> \<le> of_nat ?T - 1"
  proof -
    have "(1 :: rat) \<le> of_nat R" using R by simp
    then show ?thesis by simp
  qed
  finally have "x * of_nat ?T \<le> of_int (int ?T - 1)" by simp
  then have "ld_round (x * of_nat ?T) \<le> of_int (int ?T - 1)" using T R by (intro ld.le_int) simp_all
  then have "\<lfloor>ld_round (x * of_nat ?T)\<rfloor> \<le> int ?T - 1" by linarith
  then have "slice_of x R \<le> (int ?T - 1) div int R"
    unfolding slice_of_def using R by (intro zdiv_mono1) simp_all
  also have "\<dots> < 2147483647" using R by (intro div_less_bound) simp_all
  finally show ?thesis .
qed

lemma slice_word:
  assumes "unat w div unat recs < 2147483648"
  shows "sint (ucast (w div recs) :: i32) = int (unat w div unat recs)"
proof -
  have "ucast (w div recs) = (of_nat (unat (w div recs)) :: i32)" by simp
  then have "ucast (w div recs) = (of_nat (unat w div unat recs) :: i32)" by (simp only: unat_div)
  then show ?thesis by (simp only: sint_of_nat_small [OF assms])
qed

lemma scaled_slice:
  assumes x: "0 \<le> x" "x \<le> 1" and r: "unat recs = R" "0 < R" "2147483647 * R < 18446744073709551616"
  shows "map_option (\<lambda>n. sint (ucast (n div recs) :: i32)) (scale_key x (of_int MDHIM_MAX_SLICES * recs)) =
    Some (slice_of x R)"
proof -
  have "recs = of_nat R" by (simp flip: r(1))
  then have "of_int MDHIM_MAX_SLICES * recs = of_nat (2147483647 * R)"
    by (simp add: MDHIM_MAX_SLICES_def)
  then have T: "unat (of_int MDHIM_MAX_SLICES * recs) = 2147483647 * R"
    using unat_of_nat_u64 [OF r(3)] by simp
  obtain w where w: "scale_key x (of_int MDHIM_MAX_SLICES * recs) = Some w"
    "int (unat w) = \<lfloor>ld_round (x * of_nat (2147483647 * R))\<rfloor>"
    using scale_key_val [OF x T] by blast
  have s: "int (unat w div unat recs) = slice_of x R"
    unfolding zdiv_int w(2) r(1) by (simp only: slice_of_def)
  then have "unat w div unat recs < 2147483648" using slice_of_le [OF x(2) r(2,3)] by linarith
  from slice_word [OF this] s w(1) show ?thesis by simp
qed

section \<open>Properties of key slices\<close>

lemma le_val_enc32 [simp]: "le_val (enc32 w) = unat w"
  using unat_u32_lt [of w] by (simp add: enc32_def le_val_le_bytes)

lemma le_val_enc64 [simp]: "le_val (enc64 w) = unat w"
  using unat_u64_lt [of w] by (simp add: enc64_def le_val_le_bytes)

lemma int_slice:
  assumes k: "k < 18446744073709551616" and recs: "mdhim_max_recs_per_slice g \<noteq> 0"
  shows "uint ((of_nat k :: u64) div mdhim_max_recs_per_slice g) =
      int (k div unat (mdhim_max_recs_per_slice g))"
    and "k div unat (mdhim_max_recs_per_slice g) < 2147483647 \<Longrightarrow>
      sint (ucast ((of_nat k :: u64) div mdhim_max_recs_per_slice g) :: i32) =
      int (k div unat (mdhim_max_recs_per_slice g))"
proof -
  have u: "unat (of_nat k :: u64) = k" using k by (rule unat_of_nat_u64)
  then have "unat ((of_nat k :: u64) div mdhim_max_recs_per_slice g) = k div unat (mdhim_max_recs_per_slice g)"
    by (simp only: unat_div)
  then show "uint ((of_nat k :: u64) div mdhim_max_recs_per_slice g) =
      int (k div unat (mdhim_max_recs_per_slice g))"
    by (metis uint_nat)
  show "sint (ucast ((of_nat k :: u64) div mdhim_max_recs_per_slice g) :: i32) =
      int (k div unat (mdhim_max_recs_per_slice g))" if "k div unat (mdhim_max_recs_per_slice g) < 2147483647"
    using slice_word [of "of_nat k" "mdhim_max_recs_per_slice g"] that unfolding u by simp
qed

lemma integer_slice_val:
  assumes recs: "mdhim_max_recs_per_slice g \<noteq> 0"
  shows "(md_key_type md = MDHIM_INT_KEY \<longrightarrow> get_slice_num g md (Some (enc32 w)) 4 =
      Some (if unat w div unat (mdhim_max_recs_per_slice g) < 2147483647
            then int (unat w div unat (mdhim_max_recs_per_slice g)) else MDHIM_ERROR)) \<and>
    (md_key_type md = MDHIM_LONG_INT_KEY \<longrightarrow> get_slice_num g md (Some (enc64 v)) 8 =
      Some (if unat v div unat (mdhim_max_recs_per_slice g) < 2147483647
            then int (unat v div unat (mdhim_max_recs_per_slice g)) else MDHIM_ERROR))"
proof -
  have w: "unat w < 18446744073709551616" using unat_u32_lt [of w] by simp
  note div = int_slice [OF w recs] int_slice [OF unat_u64_lt [of v] recs]
  show ?thesis
    using recs div by (simp add: get_slice_num_def verify_key_def Let_def key_types mdhim_consts)
qed

text \<open>C35.  The slice of an integer key is the key divided by the slice size when that is below
  the number of slices, and MDHIM_ERROR otherwise, for 32-bit and for 64-bit keys.  The comment of
  get_slice_num promises 0 on an error, which is also the slice of small keys; the code returns
  MDHIM_ERROR.\<close>

theorem integer_key_slice:
  assumes recs: "mdhim_max_recs_per_slice g \<noteq> 0"
  shows "(md_key_type md = MDHIM_INT_KEY \<longrightarrow> get_slice_num g md (Some (enc32 w)) 4 =
      Some (if unat w div unat (mdhim_max_recs_per_slice g) < 2147483647
            then int (unat w div unat (mdhim_max_recs_per_slice g)) else MDHIM_ERROR)) \<and>
    (md_key_type md = MDHIM_LONG_INT_KEY \<longrightarrow> get_slice_num g md (Some (enc64 v)) 8 =
      Some (if unat v div unat (mdhim_max_recs_per_slice g) < 2147483647
            then int (unat v div unat (mdhim_max_recs_per_slice g)) else MDHIM_ERROR))"
  by (rule integer_slice_val [OF recs])

theorem integer_key_slice_witness:
  "get_slice_num example_globals example_md (Some (enc32 1234)) 4 = Some 12"
  using integer_key_slice [of example_globals example_md 1234]
  by (simp add: example_globals_def example_md_def)

text \<open>A configuration with the alphabet built and a usable slice size.\<close>

definition part_ok :: "part_globals \<Rightarrow> bool" where
  "part_ok g \<longleftrightarrow> mdhim_alphabet g = build_alphabet None \<and> 0 < unat (mdhim_max_recs_per_slice g) \<and>
     2147483647 * unat (mdhim_max_recs_per_slice g) < 18446744073709551616"

lemma part_ok_recs: "part_ok g \<Longrightarrow> mdhim_max_recs_per_slice g \<noteq> 0"
  by (auto simp: part_ok_def)

lemma string_slice_val:
  assumes g: "part_ok g" and t: "md_key_type md = MDHIM_STRING_KEY" and len: "length key \<le> 262144"
    and ok: "\<forall>b \<in> set (strip_nul key). alpha_pos b \<noteq> None"
  shows "get_slice_num g md (Some key) (int (length key)) =
    Some (slice_of (ld.frac_loop 6 (positions (strip_nul key)) 0 0) (unat (mdhim_max_recs_per_slice g)))"
proof -
  let ?x = "ld.frac_loop 6 (positions (strip_nul key)) 0 0"
  have "length (positions (strip_nul key)) \<le> 262144"
    using len length_strip_nul [of key] by (simp add: positions_def)
  then have "0 \<le> ?x" "?x \<le> 63 / 64" using str_num_bound [OF positions_range [OF ok]] by simp_all
  then have x: "0 \<le> ?x" "?x \<le> 1" by simp_all
  have v: "verify_key g (Some key) (int (length key)) MDHIM_STRING_KEY = Some MDHIM_SUCCESS"
    using g len ok part_ok_recs [OF g]
    by (simp add: verify_key_def verify_chars_iff part_ok_def MAX_KEY_LEN_def key_types MDHIM_MAX_SLICES_def)
  have n: "get_str_num (mdhim_alphabet g) key (int (length key)) = Some ?x"
    using g str_num_loop_frac [OF ok, of 0 0] by (simp add: get_str_num_def part_ok_def)
  have "get_slice_num g md (Some key) (int (length key)) =
      map_option (\<lambda>n. sint (ucast (n div mdhim_max_recs_per_slice g) :: i32))
        (scale_key ?x (of_int MDHIM_MAX_SLICES * mdhim_max_recs_per_slice g))"
    unfolding get_slice_num_def t Let_def v by (simp add: n key_types)
  also have "\<dots> = Some (slice_of ?x (unat (mdhim_max_recs_per_slice g)))"
    using g by (intro scaled_slice [OF x refl]) (simp_all add: part_ok_def)
  finally show ?thesis .
qed

text \<open>Every string key of admissible length has a result, whatever the roundings of the
  floating-point sum: a key of letters and digits (with an optional terminating NUL) gets a slice
  number from 0 to MDHIM_MAX_SLICES - 1, and a key with any other character gets MDHIM_ERROR; no
  NULL pointer is followed.\<close>

theorem string_key_slice:
  assumes g: "part_ok g" and t: "md_key_type md = MDHIM_STRING_KEY" and len: "length key \<le> 262144"
  shows "if \<forall>b \<in> set (strip_nul key). alpha_pos b \<noteq> None
    then \<exists>s. get_slice_num g md (Some key) (int (length key)) = Some s \<and> 0 \<le> s \<and> s < MDHIM_MAX_SLICES
    else get_slice_num g md (Some key) (int (length key)) = Some MDHIM_ERROR"
proof (cases "\<forall>b \<in> set (strip_nul key). alpha_pos b \<noteq> None")
  case True
  have "length (positions (strip_nul key)) \<le> 262144"
    using len length_strip_nul [of key] by (simp add: positions_def)
  then have "ld.frac_loop 6 (positions (strip_nul key)) 0 0 \<le> 63 / 64"
    using str_num_bound [OF positions_range [OF True]] by simp
  then have "slice_of (ld.frac_loop 6 (positions (strip_nul key)) 0 0) (unat (mdhim_max_recs_per_slice g)) < 2147483647"
    using g by (intro slice_of_lt) (simp_all add: part_ok_def)
  with string_slice_val [OF g t len True] True slice_of_nonneg show ?thesis
    by (simp add: MDHIM_MAX_SLICES_def)
next
  case False
  then have "verify_key g (Some key) (int (length key)) MDHIM_STRING_KEY = Some MDHIM_ERROR"
    using g len by (simp add: verify_key_def verify_chars_iff part_ok_def MAX_KEY_LEN_def)
  with False show ?thesis
    by (simp add: get_slice_num_def t Let_def mdhim_consts)
qed

definition string_globals :: part_globals where
  "string_globals = \<lparr>mdhim_alphabet = build_alphabet None, range_server_factor = 2, mdhim_max_recs_per_slice = 100\<rparr>"

lemma string_globals_ok: "part_ok string_globals"
  by (simp add: part_ok_def string_globals_def)

theorem string_key_slice_witness:
  "\<exists>s. get_slice_num string_globals (example_md\<lparr>md_key_type := MDHIM_STRING_KEY\<rparr>) (Some [97, 90, 48, 0]) 4 = Some s \<and>
     0 \<le> s \<and> s < MDHIM_MAX_SLICES"
  using string_key_slice [OF string_globals_ok, of "example_md\<lparr>md_key_type := MDHIM_STRING_KEY\<rparr>" "[97, 90, 48, 0]"]
  by (simp add: strip_nul_def alpha_pos_def)

text \<open>A strictly monotone map of the characters keeps the lexicographic order.\<close>

lemma lexordp_eq_map:
  assumes "ord_class.lexordp_eq xs ys" and "\<forall>x \<in> set xs. P x" and "\<forall>y \<in> set ys. P y"
    and "\<And>x y. P x \<Longrightarrow> P y \<Longrightarrow> x < y \<Longrightarrow> f x < (f y :: int)"
  shows "ord_class.lexordp_eq (map f xs) (map f (ys :: byte list))"
  using assms(1-3)
proof (induction rule: ord_class.lexordp_eq.induct)
  case (Cons_eq x y xs ys)
  then have "x = y" by simp
  with Cons_eq show ?case by simp
qed (simp_all add: assms(4))

lemma alpha_pos_mono:
  "alpha_pos x \<noteq> None \<Longrightarrow> alpha_pos y \<noteq> None \<Longrightarrow> x < y \<Longrightarrow> the (alpha_pos x) < the (alpha_pos y)"
  by (auto simp: alpha_pos_def Let_def word_less_def split: if_splits)

text \<open>C33.  String keys keep their order: of two keys of at most 10 letters and digits each, the one
  that comes first in the dictionary (in ASCII order, a prefix before its extensions) gets a slice that
  is not greater.\<close>

theorem string_slices_ordered:
  assumes g: "part_ok g" and t: "md_key_type md = MDHIM_STRING_KEY"
    and a: "\<forall>c \<in> set a. alpha_pos c \<noteq> None" "length a \<le> 10"
    and b: "\<forall>c \<in> set b. alpha_pos c \<noteq> None" "length b \<le> 10"
    and le: "ord_class.lexordp_eq a b"
  shows "\<exists>s1 s2. get_slice_num g md (Some a) (int (length a)) = Some s1 \<and>
    get_slice_num g md (Some b) (int (length b)) = Some s2 \<and> s1 \<le> s2"
proof -
  let ?R = "unat (mdhim_max_recs_per_slice g)"
  have slice: "get_slice_num g md (Some k) (int (length k)) = Some (slice_of (frac 6 (positions k)) ?R)"
    if k: "\<forall>c \<in> set k. alpha_pos c \<noteq> None" "length k \<le> 10" for k
  proof -
    have "k = [] \<or> last k \<noteq> 0" using k(1) by (metis alpha_pos_0 last_in_set)
    then have s: "strip_nul k = k" by (auto simp: strip_nul_def)
    have "ld.frac_loop 6 (positions k) 0 0 = frac 6 (positions k)"
    proof (rule ld_frac_exact)
      show "\<forall>d \<in> set (positions k). 0 \<le> d \<and> d < 2 ^ 6" using positions_range [OF k(1)] by fastforce
      show "6 * length (positions k) \<le> 64" using k(2) by (simp add: positions_def)
    qed
    then show ?thesis using string_slice_val [OF g t, of k] k by (simp add: s)
  qed
  have "ord_class.lexordp_eq (positions a) (positions b)"
    unfolding positions_def by (rule lexordp_eq_map [OF le a(1) b(1) alpha_pos_mono])
  then have "frac 6 (positions a) \<le> frac 6 (positions b)"
    using positions_range [OF a(1)] positions_range [OF b(1)] by (intro frac_lexord) fastforce+
  then have "slice_of (frac 6 (positions a)) ?R \<le> slice_of (frac 6 (positions b)) ?R"
    using g by (intro slice_of_mono) (simp_all add: part_ok_def)
  with slice [OF a] slice [OF b] show ?thesis by blast
qed

theorem string_slices_ordered_witness:
  "\<exists>s1 s2. get_slice_num string_globals (example_md\<lparr>md_key_type := MDHIM_STRING_KEY\<rparr>) (Some [65]) 1 = Some s1 \<and>
    get_slice_num string_globals (example_md\<lparr>md_key_type := MDHIM_STRING_KEY\<rparr>) (Some [65, 97]) 2 = Some s2 \<and> s1 \<le> s2"
  using string_slices_ordered [OF string_globals_ok, of "example_md\<lparr>md_key_type := MDHIM_STRING_KEY\<rparr>" "[65]" "[65, 97]"]
  by (simp add: alpha_pos_def)

section \<open>Properties of the slice statistics\<close>

text \<open>The statistics in application order.\<close>

definition stat_list :: "mdhim_t \<Rightarrow> mdhim_stat list" where
  "stat_list md = map snd (ut_alist (md_stats md))"

text \<open>The loops of the four functions keep the best entry so far.\<close>

definition best_step :: "(mdhim_stat \<Rightarrow> bool) \<Rightarrow> (mdhim_stat \<Rightarrow> int) \<Rightarrow> mdhim_stat \<Rightarrow> mdhim_stat option \<Rightarrow> mdhim_stat option" where
  "best_step P f s best = (case best of None \<Rightarrow> if P s then Some s else None
     | Some b \<Rightarrow> if P s \<and> f s < f b then Some s else Some b)"

definition is_best :: "(mdhim_stat \<Rightarrow> bool) \<Rightarrow> (mdhim_stat \<Rightarrow> int) \<Rightarrow> mdhim_stat set \<Rightarrow> mdhim_stat option \<Rightarrow> bool" where
  "is_best P f S r = (case r of None \<Rightarrow> \<forall>s \<in> S. \<not> P s
     | Some b \<Rightarrow> b \<in> S \<and> P b \<and> (\<forall>s \<in> S. P s \<longrightarrow> f b \<le> f s))"

lemma fold_best: "is_best P f S r \<Longrightarrow> is_best P f (S \<union> set xs) (fold (best_step P f) xs r)"
proof (induction xs arbitrary: S r)
  case (Cons x xs)
  have "is_best P f (insert x S) (best_step P f x r)"
    using Cons.prems by (force simp: is_best_def best_step_def split: option.splits if_splits)
  from Cons.IH [OF this] show ?case by simp
qed simp

lemma fold_iter_best:
  "fold (\<lambda>p. best_step P f (hh_get (md_stats md) p)) (HASH_ITER (md_stats md)) None =
   fold (best_step P f) (stat_list md) None"
proof -
  have "fold (\<lambda>p. best_step P f (hh_get (md_stats md) p)) xs r = fold (best_step P f) (map (hh_get (md_stats md)) xs) r" for xs r
    by (simp add: fold_map comp_def)
  then show ?thesis by (simp add: stat_list_def ut.iter_pairs)
qed

lemma slice_stat_best:
  "get_next_slice_stat md k = fold (best_step (\<lambda>s. st_key s > k) st_key) (stat_list md) None"
  "get_prev_slice_stat md k = fold (best_step (\<lambda>s. st_key s < k) (\<lambda>s. - st_key s)) (stat_list md) None"
  "get_first_slice_stat md = fold (best_step (\<lambda>s. True) st_key) (stat_list md) None"
  "get_last_slice_stat md = fold (best_step (\<lambda>s. True) (\<lambda>s. - st_key s)) (stat_list md) None"
  unfolding get_next_slice_stat_def get_prev_slice_stat_def get_first_slice_stat_def get_last_slice_stat_def
    fold_iter_best [symmetric]
  by (simp_all add: best_step_def [abs_def] Let_def)

lemma best_of_stats: "is_best P f (set (stat_list md)) (fold (best_step P f) (stat_list md) None)"
  using fold_best [of P f "{}" None "stat_list md"] by (simp add: is_best_def)

text \<open>The neighbours of a slice are found exactly: get_next_slice_stat returns statistics of the
  smallest slice above the given one and NULL only if there is none, get_prev_slice_stat those of the
  greatest slice below it, get_first_slice_stat and get_last_slice_stat those of the smallest and the
  greatest slice of all, in whatever order the table iterates.\<close>

theorem neighbour_slices:
  "is_best (\<lambda>s. st_key s > k) st_key (set (stat_list md)) (get_next_slice_stat md k) \<and>
   is_best (\<lambda>s. st_key s < k) (\<lambda>s. - st_key s) (set (stat_list md)) (get_prev_slice_stat md k) \<and>
   is_best (\<lambda>s. True) st_key (set (stat_list md)) (get_first_slice_stat md) \<and>
   is_best (\<lambda>s. True) (\<lambda>s. - st_key s) (set (stat_list md)) (get_last_slice_stat md)"
  unfolding slice_stat_best using best_of_stats by blast

text \<open>A cursor operation after the last slice is sent to slice 0: if no slice above the current
  one has statistics and the current one holds no greater key, get_slice_from_istat returns 0,
  which is the number of an ordinary slice, not an error.\<close>

theorem no_next_slice_gives_zero:
  assumes none: "\<forall>s \<in> set (stat_list md). st_key s \<le> k"
    and imax: "\<forall>s. cur_stat md k = Some s \<longrightarrow> (\<exists>w. st_max s = IStat w \<and> w \<le> istat)"
  shows "get_slice_from_istat md k istat MDHIM_GET_NEXT = Some 0"
proof -
  have "get_next_slice_stat md k = None"
    using neighbour_slices [of k md] none by (fastforce simp: is_best_def split: option.splits)
  moreover have "istat_of (st_max s) = Some w" if "st_max s = IStat w" for s w using that by simp
  ultimately show ?thesis
    using imax by (cases "cur_stat md k")
      (fastforce simp: get_slice_from_istat_def Let_def stat_slice_def)+
qed

theorem no_next_slice_gives_zero_witness:
  "get_slice_from_istat example_md 5 77 MDHIM_GET_NEXT = Some 0"
  using no_next_slice_gives_zero [of example_md 5 77]
  by (simp add: example_md_def stat_list_def ut.null(1) cur_stat_def HASH_FIND_INT_def)

text \<open>For an integer key, MDHIM_GET_NEXT goes to the current slice if that has seen a key above
  the given one, and otherwise to the smallest slice above it with statistics; if there is one of
  either kind, the range server of the chosen slice is returned.\<close>

theorem next_range_server:
  assumes t: "md_key_type md = MDHIM_LONG_INT_KEY" and st: "md_stats md \<noteq> None"
    and cur: "get_slice_num g md (Some (enc64 w)) 8 = Some k" "0 \<le> k"
    and ints: "\<forall>s. cur_stat md k = Some s \<longrightarrow> (\<exists>x. st_max s = IStat x)"
    and ex: "(\<exists>s x. cur_stat md k = Some s \<and> st_max s = IStat x \<and> x > w) \<or> (\<exists>s \<in> set (stat_list md). st_key s > k)"
  shows "\<exists>sl. get_range_server_from_stats g md (Some (enc64 w)) 8 MDHIM_GET_NEXT = get_range_server_by_slice md sl \<and>
    (if \<exists>s x. cur_stat md k = Some s \<and> st_max s = IStat x \<and> x > w then sl = k
     else k < sl \<and> (\<exists>s \<in> set (stat_list md). st_key s = sl) \<and>
          (\<forall>s \<in> set (stat_list md). k < st_key s \<longrightarrow> sl \<le> st_key s))"
proof -
  obtain h where h: "md_stats md = Some h" using st by blast
  obtain sl where sl: "get_slice_from_istat md k w MDHIM_GET_NEXT = Some sl"
    "if \<exists>s x. cur_stat md k = Some s \<and> st_max s = IStat x \<and> x > w then sl = k
     else k < sl \<and> (\<exists>s \<in> set (stat_list md). st_key s = sl) \<and>
          (\<forall>s \<in> set (stat_list md). k < st_key s \<longrightarrow> sl \<le> st_key s)"
  proof (cases "\<exists>s x. cur_stat md k = Some s \<and> st_max s = IStat x \<and> x > w")
    case True
    then have "get_slice_from_istat md k w MDHIM_GET_NEXT = Some k"
      using h by (auto simp: get_slice_from_istat_def Let_def)
    then show ?thesis using that [of k] True by simp
  next
    case False
    with ex obtain s0 where "s0 \<in> set (stat_list md)" "st_key s0 > k" by blast
    then obtain b where b: "get_next_slice_stat md k = Some b" "b \<in> set (stat_list md)" "st_key b > k"
      "\<forall>s \<in> set (stat_list md). st_key s > k \<longrightarrow> st_key b \<le> st_key s"
      using neighbour_slices [of k md] by (auto simp: is_best_def split: option.splits)
    have "get_slice_from_istat md k w MDHIM_GET_NEXT = Some (st_key b)"
    proof (cases "cur_stat md k")
      case None
      then show ?thesis using h b(1) by (simp add: get_slice_from_istat_def Let_def stat_slice_def)
    next
      case (Some s)
      with ints obtain x where "st_max s = IStat x" by blast
      with Some False h b(1) show ?thesis by (simp add: get_slice_from_istat_def Let_def stat_slice_def)
    qed
    then show ?thesis
      by (rule that) (unfold if_not_P [OF False], use b in blast)
  qed
  have "0 \<le> sl" using sl(2) cur(2) by (auto split: if_splits)
  then have "get_range_server_from_stats g md (Some (enc64 w)) 8 MDHIM_GET_NEXT = get_range_server_by_slice md sl"
    using h cur sl(1)
    by (simp add: get_range_server_from_stats_def t Let_def is_float_key_def key_types MDHIM_ERROR_def)
  with sl(2) show ?thesis by blast
qed

theorem next_range_server_witness:
  "\<exists>sl. get_range_server_from_stats example_globals
      (example_md\<lparr>md_key_type := MDHIM_LONG_INT_KEY, md_stats := HASH_ADD_INT (HASH_ADD_INT None 9
        \<lparr>st_key = 9, st_max = IStat 950, st_min = IStat 910, st_num = 3\<rparr>) 7
        \<lparr>st_key = 7, st_max = IStat 750, st_min = IStat 710, st_num = 3\<rparr>\<rparr>) (Some (enc64 120)) 8 MDHIM_GET_NEXT =
    get_range_server_by_slice
      (example_md\<lparr>md_key_type := MDHIM_LONG_INT_KEY, md_stats := HASH_ADD_INT (HASH_ADD_INT None 9
        \<lparr>st_key = 9, st_max = IStat 950, st_min = IStat 910, st_num = 3\<rparr>) 7
        \<lparr>st_key = 7, st_max = IStat 750, st_min = IStat 710, st_num = 3\<rparr>\<rparr>) sl \<and> sl = 7"
proof -
  let ?s9 = "\<lparr>st_key = 9, st_max = IStat 950, st_min = IStat 910, st_num = 3\<rparr>"
  let ?s7 = "\<lparr>st_key = 7, st_max = IStat 750, st_min = IStat 710, st_num = 3\<rparr>"
  let ?h1 = "HASH_ADD_INT None 9 ?s9" and ?h = "HASH_ADD_INT (HASH_ADD_INT None 9 ?s9) 7 ?s7"
  let ?md = "example_md\<lparr>md_key_type := MDHIM_LONG_INT_KEY, md_stats := ?h\<rparr>"
  have n1: "HASH_FIND_INT (None :: mdhim_stat ut_head) 9 = None" by (simp add: HASH_FIND_INT_def)
  have al1: "ut_alist ?h1 = [(9, ?s9)]" "head_inv ?h1"
    using ut.add_pairs [OF ut.null(2) n1] ut.add_inv [OF ut.null(2) n1] by (simp_all add: ut.null(1))
  have n2: "HASH_FIND_INT ?h1 7 = None" using ut.lookup_None_iff [OF al1(2)] by (simp add: al1(1))
  have al: "ut_alist ?h = [(9, ?s9), (7, ?s7)]" "head_inv ?h"
    using ut.add_pairs [OF al1(2) n2] ut.add_inv [OF al1(2) n2] by (simp_all add: al1(1))
  have "HASH_FIND_INT ?h 1 = None" using ut.lookup_None_iff [OF al(2)] by (simp add: al(1))
  then have cur: "cur_stat ?md 1 = None" by (simp add: cur_stat_def)
  have st: "stat_list ?md = [?s9, ?s7]" by (simp add: stat_list_def al(1))
  have sl: "get_slice_num example_globals ?md (Some (enc64 120)) 8 = Some 1"
    using integer_slice_val [of example_globals ?md _ 120]
    by (simp add: example_globals_def example_md_def)
  have "md_stats ?md \<noteq> None" by (simp add: HASH_ADD_INT_def Let_def)
  from next_range_server [OF _ this sl]
  show ?thesis by (auto simp: cur st)
qed

end
