(* ===== verification/Range_Server.thy ===== *)
theory Range_Server
  imports Data_Store Partitioner Messages
begin

text \<open>
  The range server of \<^verbatim>\<open>src/mdhimMods/src/range_server.c\<close>: statistics per slice, the handlers of
  the requests and the dispatch of the worker thread.  A handler takes the state of the server,
  the message and its source, and yields the new state with the response delivered; \<open>None\<close> is
  undefined behaviour (a value of the wrong type read, an uninitialised pointer used, a block freed
  twice).  The bulk put, whose two loops free the same blocks, keeps the list of the blocks it has freed;
  the frees of the other handlers, each of a block of its own, are left out.

  A response to the server's own rank goes into the mailbox \<open>sv_receive_msg\<close>, any other into
  the list \<open>sv_sent\<close> of what was handed to \<^verbatim>\<open>send_client_response\<close>.  The time a request took is a
  parameter.
\<close>

section \<open>Data\<close>

text \<open>\<open>sv_value_append\<close> tells whether the option \<^verbatim>\<open>db_value_append\<close> is MDHIM_DB_APPEND; the header that
  defines the options is not part of the repository.\<close>

datatype response = Rm mdhim_rm_t | Getrm mdhim_getrm_t | Bgetrm mdhim_bgetrm_t

record 'd mdhim_rs_t =
  sv_md :: mdhim_t
  sv_rank :: i32
  sv_value_append :: bool
  sv_store :: "'d mdhim_store_t"
  sv_db_handle :: 'd
  sv_db_stats :: 'd
  sv_store_stats :: "mdhim_stat ut_head"
  sv_put_time :: rat
  sv_get_time :: rat
  sv_num_put :: "64 word"
  sv_num_get :: "64 word"
  sv_receive_msg :: "response option"
  sv_sent :: "(i32 \<times> response) list"

text \<open>What malloc gives a handler: the addresses of its blocks, and the contents of the structures
  before their fields are set.\<close>

record blocks =
  bl_addr :: "nat \<Rightarrow> u64"
  bl_rm :: mdhim_rm_t
  bl_getrm :: mdhim_getrm_t
  bl_bgetrm :: mdhim_bgetrm_t

definition NULL_blob :: blob where "NULL_blob = (0, [])"

definition value_blob :: "u64 \<Rightarrow> val option \<Rightarrow> blob" where
  "value_blob a v = (case v of None \<Rightarrow> NULL_blob | Some bs \<Rightarrow> (a, bs))"

definition len32 :: "byte list \<Rightarrow> i32" where "len32 bs = of_nat (length bs)"

section \<open>Answers and timing\<close>

definition send_locally_or_remote :: "'d mdhim_rs_t \<Rightarrow> i32 \<Rightarrow> response \<Rightarrow> 'd mdhim_rs_t" where
  "send_locally_or_remote st dest message =
     (if sv_rank st \<noteq> dest then st\<lparr>sv_sent := sv_sent st @ [(dest, message)]\<rparr>
      else st\<lparr>sv_receive_msg := Some message\<rparr>)"

definition add_timing :: "rat \<Rightarrow> int \<Rightarrow> 'd mdhim_rs_t \<Rightarrow> i32 \<Rightarrow> 'd mdhim_rs_t" where
  "add_timing elapsed num st mtype =
     (if mtype = MDHIM_PUT \<or> mtype = MDHIM_BULK_PUT
      then st\<lparr>sv_put_time := ld_round (sv_put_time st + elapsed), sv_num_put := sv_num_put st + of_int num\<rparr>
      else if mtype = MDHIM_GET \<or> mtype = MDHIM_BULK_GET
      then st\<lparr>sv_get_time := ld_round (sv_get_time st + elapsed), sv_num_get := sv_num_get st + of_int num\<rparr>
      else st)"

definition return_message :: "blocks \<Rightarrow> 'd mdhim_rs_t \<Rightarrow> int \<Rightarrow> response" where
  "return_message bl st error =
     Rm ((bl_rm bl)\<lparr>rm_mtype := MDHIM_RECV, rm_error := of_int error, rm_server_rank := sv_rank st\<rparr>)"

section \<open>Statistics\<close>

text \<open>The number of a key, in the type the statistics of that key type have.\<close>

definition key_stat :: "part_globals \<Rightarrow> int \<Rightarrow> byte list \<Rightarrow> int \<Rightarrow> stat_val option" where
  "key_stat g key_type key key_len =
     (if key_type = MDHIM_STRING_KEY then map_option FStat (get_str_num (mdhim_alphabet g) key key_len)
      else if key_type = MDHIM_FLOAT_KEY then map_option FStat (float_val key)
      else if key_type = MDHIM_DOUBLE_KEY then map_option FStat (double_val key)
      else if key_type = MDHIM_INT_KEY then Some (IStat (of_nat (le_val (take 4 key))))
      else if key_type = MDHIM_LONG_INT_KEY then Some (IStat (of_nat (le_val (take 8 key))))
      else if key_type = MDHIM_BYTE_KEY then Some (FStat (get_byte_num key key_len))
      else None)"

fun stat_less :: "stat_val \<Rightarrow> stat_val \<Rightarrow> bool option" where
  "stat_less (IStat a) (IStat b) = Some (a < b)"
| "stat_less (FStat x) (FStat y) = Some (x < y)"
| "stat_less _ _ = None"

definition update_all_stats :: "part_globals \<Rightarrow> byte list \<Rightarrow> int \<Rightarrow> 'd mdhim_rs_t \<Rightarrow> 'd mdhim_rs_t option" where
  "update_all_stats g key key_len st = do {
     val \<leftarrow> key_stat g (md_key_type (sv_md st)) key key_len;
     slice_num \<leftarrow> get_slice_num g (sv_md st) (Some key) key_len;
     let tbl = sv_store_stats st;
     case HASH_FIND_INT tbl (of_int slice_num) of
       None \<Rightarrow> Some (st\<lparr>sv_store_stats := HASH_ADD_INT tbl (of_int slice_num)
                  \<lparr>st_key = slice_num, st_max = val, st_min = val, st_num = 1\<rparr>\<rparr>)
     | Some p \<Rightarrow> let os = hh_get tbl p in do {
         below \<leftarrow> stat_less val (st_min os);
         above \<leftarrow> stat_less (st_max os) val;
         Some (st\<lparr>sv_store_stats := HASH_REPLACE_INT tbl (of_int slice_num)
           \<lparr>st_key = slice_num, st_max = (if above then val else st_max os),
            st_min = (if below then val else st_min os), st_num = st_num os + 1\<rparr>\<rparr>) } }"

section \<open>Put\<close>

text \<open>The value that is written: with the append option the old value comes first.  The sum of the
  lengths is an \<^verbatim>\<open>int\<close>; when it wraps around, the copy goes to a block that is not there.\<close>

definition appended :: "byte list \<Rightarrow> byte list \<Rightarrow> i32 \<Rightarrow> byte list option" where
  "appended old new new_len =
     (if len32 old + new_len <s 0 then None else Some (old @ new))"

definition put_value :: "'d mdhim_rs_t \<Rightarrow> byte list \<Rightarrow> byte list \<Rightarrow> i32 \<Rightarrow> (bool \<times> byte list) option" where
  "put_value st key new new_len =
     (let value = snd (s_get (sv_store st) (sv_db_handle st) key);
          exists = (value \<noteq> None \<and> value \<noteq> Some [])
      in if exists \<and> sv_value_append st
         then map_option (Pair exists) (appended (the value) new new_len)
         else Some (exists, new))"

definition range_server_put ::
  "part_globals \<Rightarrow> blocks \<Rightarrow> rat \<Rightarrow> mdhim_putm_t \<Rightarrow> i32 \<Rightarrow> 'd mdhim_rs_t \<Rightarrow> 'd mdhim_rs_t option" where
  "range_server_put g bl elapsed im source st = do {
     let key = bytes_at (pm_key im) (pm_key_len im);
     (exists, new_value) \<leftarrow> put_value st key (bytes_at (pm_value im) (pm_value_len im)) (pm_value_len im);
     let (error, db) = s_put (sv_store st) (sv_db_handle st) key new_value;
     let inserted = (if error \<noteq> MDHIM_SUCCESS then 0 else 1);
     let st = st\<lparr>sv_db_handle := db\<rparr>;
     st \<leftarrow> (if \<not> exists \<and> error = MDHIM_SUCCESS then update_all_stats g key (sint (pm_key_len im)) st
           else Some st);
     let st = add_timing elapsed inserted st MDHIM_PUT;
     Some (send_locally_or_remote st source (return_message bl st error)) }"

text \<open>Step \<open>i\<close> of the first loop of the bulk put: the existence of the key and the value to write.\<close>

definition bput_value :: "'d mdhim_rs_t \<Rightarrow> mdhim_bputm_t \<Rightarrow> nat \<Rightarrow> (bool \<times> byte list) option" where
  "bput_value st bim i =
     put_value st (bytes_at (snd (bp_keys bim) ! i) (snd (bp_key_lens bim) ! i))
       (bytes_at (snd (bp_values bim) ! i) (snd (bp_value_lens bim) ! i)) (snd (bp_value_lens bim) ! i)"

text \<open>Run the loop body for every index.\<close>

fun loop_opt :: "(nat \<Rightarrow> 'a option) \<Rightarrow> nat list \<Rightarrow> 'a list option" where
  "loop_opt f [] = Some []"
| "loop_opt f (i # is) = do { x \<leftarrow> f i; xs \<leftarrow> loop_opt f is; Some (x # xs) }"

definition bput_key :: "mdhim_bputm_t \<Rightarrow> nat \<Rightarrow> byte list" where
  "bput_key bim i = bytes_at (snd (bp_keys bim) ! i) (snd (bp_key_lens bim) ! i)"

fun bput_stats :: "part_globals \<Rightarrow> mdhim_bputm_t \<Rightarrow> bool list \<Rightarrow> nat \<Rightarrow> 'd mdhim_rs_t \<Rightarrow> 'd mdhim_rs_t option" where
  "bput_stats g bim [] i st = Some st"
| "bput_stats g bim (exists # es) i st = do {
     st \<leftarrow> (if \<not> exists then update_all_stats g (bput_key bim i) (sint (snd (bp_key_lens bim) ! i)) st
           else Some st);
     bput_stats g bim es (Suc i) st }"

text \<open>The blocks the function frees: the key and value of record \<open>i\<close> of the message, the old value that was
  read for it, the concatenation that is written instead, its own arrays and variables, and the parts of the message.
  Each is a block of its own.  \<open>None\<close>: a block is freed that was freed before.\<close>

datatype bput_block = Key_block nat | Value_block nat | Old_block nat | New_block nat
  | Exists_array | New_values_array | New_value_lens_array | Value_variable | Value_len_variable
  | Keys_array | Key_lens_array | Values_array | Value_lens_array | Message_block

fun free_blocks :: "'b list \<Rightarrow> 'b list \<Rightarrow> 'b list option" where
  "free_blocks [] freed = Some freed"
| "free_blocks (b # bs) freed = (if b \<in> set freed then None else free_blocks bs (freed @ [b]))"

text \<open>What step \<open>i\<close> of the first and of the second loop frees; \<open>remote\<close>: the message came from another rank.\<close>

definition bput_read_frees :: "bool \<Rightarrow> bool \<Rightarrow> bool \<Rightarrow> bool \<Rightarrow> nat \<Rightarrow> bput_block list" where
  "bput_read_frees app remote exists old i =
     (if exists \<and> app then (if exists \<and> remote then [Value_block i] else []) else []) @ (if old then [Old_block i] else [])"

definition bput_done_frees :: "bool \<Rightarrow> bool \<Rightarrow> bool \<Rightarrow> nat \<Rightarrow> bput_block list" where
  "bput_done_frees app remote exists i =
     (if exists \<and> app then [New_block i] else []) @ (if remote then [Key_block i, Value_block i] else [])"

definition range_server_bput ::
  "part_globals \<Rightarrow> blocks \<Rightarrow> rat \<Rightarrow> mdhim_bputm_t \<Rightarrow> i32 \<Rightarrow> 'd mdhim_rs_t \<Rightarrow> 'd mdhim_rs_t option" where
  "range_server_bput g bl elapsed bim source st = do {
     let num_records = nat (sint (bp_num_records bim));
     let remote = (source \<noteq> sv_rank st);
     let app = sv_value_append st;
     rs \<leftarrow> (if int num_records > MAX_BULK_OPS then None else loop_opt (bput_value st bim) [0..<num_records]);
     let exists = map fst rs;
     let old = map (\<lambda>i. snd (s_get (sv_store st) (sv_db_handle st) (bput_key bim i)) \<noteq> None) [0..<num_records];
     freed \<leftarrow> free_blocks (concat (map (\<lambda>i. bput_read_frees app remote (exists ! i) (old ! i) i) [0..<num_records])) [];
     let (error, db) = s_batch_put (sv_store st) (sv_db_handle st)
       (zip (map (bput_key bim) [0..<num_records]) (map snd rs));
     let num_put = (if error \<noteq> MDHIM_SUCCESS then 0 else sint (bp_num_records bim));
     let st = st\<lparr>sv_db_handle := db\<rparr>;
     st \<leftarrow> (if error = MDHIM_SUCCESS then bput_stats g bim exists 0 st else Some st);
     freed \<leftarrow> free_blocks (concat (map (\<lambda>i. bput_done_frees app remote (exists ! i) i) [0..<num_records])) freed;
     freed \<leftarrow> free_blocks [Exists_array, New_values_array, New_value_lens_array, Value_variable, Value_len_variable] freed;
     let st = add_timing elapsed num_put st MDHIM_BULK_PUT;
     freed \<leftarrow> free_blocks [Keys_array, Key_lens_array, Values_array, Value_lens_array, Message_block] freed;
     Some (send_locally_or_remote st source (return_message bl st error)) }"

text \<open>What is freed once can be freed, and nothing else.\<close>

lemma free_blocks_iff: "distinct freed \<Longrightarrow> free_blocks bs freed = (if distinct (freed @ bs) then Some (freed @ bs) else None)"
  by (induction bs arbitrary: freed) auto

lemma bput_frees_distinct:
  "distinct (concat (map (\<lambda>i. bput_read_frees app remote (ex i) (old i) i) [0..<n]))"
  "distinct (concat (map (\<lambda>i. bput_done_frees app remote (ex i) i) [0..<n]))"
  by (induction n) (auto simp: bput_read_frees_def bput_done_frees_def)

text \<open>The frees of the function succeed unless a value that is appended to belongs to a message from another rank.\<close>

lemma bput_frees:
  defines "reads n app remote ex old \<equiv> concat (map (\<lambda>i. bput_read_frees app remote (ex ! i) (old ! i) i) [0..<n])"
    and "dones n app remote ex \<equiv> concat (map (\<lambda>i. bput_done_frees app remote (ex ! i) i) [0..<n])"
  shows "\<not> (app \<and> remote \<and> (\<exists>i < n. ex ! i)) \<Longrightarrow> \<exists>f1 f2 f3 f4. free_blocks (reads n app remote ex old) [] = Some f1 \<and>
      free_blocks (dones n app remote ex) f1 = Some f2 \<and>
      free_blocks [Exists_array, New_values_array, New_value_lens_array, Value_variable, Value_len_variable] f2 = Some f3 \<and>
      free_blocks [Keys_array, Key_lens_array, Values_array, Value_lens_array, Message_block] f3 = Some f4"
    and "app \<and> remote \<and> (\<exists>i < n. ex ! i) \<Longrightarrow>
      \<exists>f1. free_blocks (reads n app remote ex old) [] = Some f1 \<and> free_blocks (dones n app remote ex) f1 = None"
proof -
  let ?r = "reads n app remote ex old" and ?d = "dones n app remote ex"
  have d: "distinct ?r" "distinct ?d" unfolding reads_def dones_def by (rule bput_frees_distinct)+
  have r: "free_blocks ?r [] = Some ?r" using free_blocks_iff [of "[]" ?r] d(1) by simp
  {
    assume "\<not> (app \<and> remote \<and> (\<exists>i < n. ex ! i))"
    then have "set ?r \<inter> set ?d = {}"
      by (auto simp: reads_def dones_def bput_read_frees_def bput_done_frees_def split: if_split_asm)
    then have "free_blocks ?d ?r = Some (?r @ ?d)" using free_blocks_iff [OF d(1), of ?d] d by simp
    moreover have "b \<notin> set (?r @ ?d)" if "b \<in> {Exists_array, New_values_array, New_value_lens_array, Value_variable,
        Value_len_variable, Keys_array, Key_lens_array, Values_array, Value_lens_array, Message_block}" for b
      using that by (auto simp: reads_def dones_def bput_read_frees_def bput_done_frees_def split: if_split_asm)
    ultimately show "\<exists>f1 f2 f3 f4. free_blocks ?r [] = Some f1 \<and> free_blocks ?d f1 = Some f2 \<and>
      free_blocks [Exists_array, New_values_array, New_value_lens_array, Value_variable, Value_len_variable] f2 = Some f3 \<and>
      free_blocks [Keys_array, Key_lens_array, Values_array, Value_lens_array, Message_block] f3 = Some f4"
      using r by simp
  }
  {
    assume "app \<and> remote \<and> (\<exists>i < n. ex ! i)"
    then obtain i where "app" "remote" "i < n" "ex ! i" by blast
    then have "Value_block i \<in> set ?r" "Value_block i \<in> set ?d"
      by (auto simp: reads_def dones_def bput_read_frees_def bput_done_frees_def)
    then have "free_blocks ?d ?r = None" using free_blocks_iff [OF d(1), of ?d] by auto
    with r show "\<exists>f1. free_blocks ?r [] = Some f1 \<and> free_blocks ?d f1 = None" by blast
  }
qed

section \<open>Delete and commit\<close>

definition range_server_del ::
  "blocks \<Rightarrow> mdhim_delm_t \<Rightarrow> i32 \<Rightarrow> 'd mdhim_rs_t \<Rightarrow> 'd mdhim_rs_t option" where
  "range_server_del bl dm source st =
     (let (ret, db) = s_del (sv_store st) (sv_db_handle st) (bytes_at (dm_key dm) (dm_key_len dm));
          st = st\<lparr>sv_db_handle := db\<rparr>
      in Some (send_locally_or_remote st source (return_message bl st ret)))"

definition bdel_step :: "'d mdhim_store_t \<Rightarrow> mdhim_bdelm_t \<Rightarrow> nat \<Rightarrow> int \<times> 'd \<Rightarrow> int \<times> 'd" where
  "bdel_step store bdm i = (\<lambda>(error, db).
     let (ret, db') = s_del store db (bytes_at (snd (bd_keys bdm) ! i) (snd (bd_key_lens bdm) ! i))
     in (if ret \<noteq> MDHIM_SUCCESS then ret else error, db'))"

definition range_server_bdel ::
  "blocks \<Rightarrow> mdhim_bdelm_t \<Rightarrow> i32 \<Rightarrow> 'd mdhim_rs_t \<Rightarrow> 'd mdhim_rs_t option" where
  "range_server_bdel bl bdm source st =
     (let n = nat (min (sint (bd_num_records bdm)) MAX_BULK_OPS);
          (error, db) = fold (bdel_step (sv_store st) bdm) [0..<n] (0, sv_db_handle st);
          st = st\<lparr>sv_db_handle := db\<rparr>
      in Some (send_locally_or_remote st source (return_message bl st error)))"

definition range_server_commit ::
  "blocks \<Rightarrow> mdhim_basem_t \<Rightarrow> i32 \<Rightarrow> 'd mdhim_rs_t \<Rightarrow> 'd mdhim_rs_t option" where
  "range_server_commit bl im source st =
     (let ret = s_commit (sv_store st) (sv_db_handle st)
      in Some (send_locally_or_remote st source (return_message bl st ret)))"

section \<open>Get\<close>

definition get_message :: "blocks \<Rightarrow> 'd mdhim_rs_t \<Rightarrow> int \<Rightarrow> blob \<Rightarrow> i32 \<Rightarrow> val option \<Rightarrow> response" where
  "get_message bl st error key key_len value =
     Getrm ((bl_getrm bl)\<lparr>gr_mtype := MDHIM_RECV_GET, gr_error := of_int error, gr_server_rank := sv_rank st,
       gr_key := key, gr_key_len := key_len, gr_value := value_blob (bl_addr bl 0) value,
       gr_value_len := len32 (case value of None \<Rightarrow> [] | Some v \<Rightarrow> v)\<rparr>)"

text \<open>The database call of the switch: the return code, the key that the local variable \<open>key\<close> then
  has when the call set it, and the value.\<close>

definition get_op :: "'d mdhim_store_t \<Rightarrow> 'd \<Rightarrow> key \<Rightarrow> int \<Rightarrow> int \<times> key option option \<times> val option" where
  "get_op store db key op =
     (let moved = (\<lambda>(ret, r). (ret, Some (map_option fst r), map_option snd r)) in
      if op = MDHIM_GET_EQ then (let (ret, v) = s_get store db key in (ret, None, v))
      else if op = MDHIM_GET_NEXT then moved (s_get_next store db key)
      else if op = MDHIM_GET_PREV then moved (s_get_prev store db key)
      else if op = MDHIM_GET_FIRST then moved (s_get_next store db [])
      else if op = MDHIM_GET_LAST then moved (s_get_prev store db [])
      else (0, None, None))"

definition range_server_get ::
  "blocks \<Rightarrow> rat \<Rightarrow> mdhim_getm_t \<Rightarrow> i32 \<Rightarrow> int \<Rightarrow> 'd mdhim_rs_t \<Rightarrow> 'd mdhim_rs_t option" where
  "range_server_get bl elapsed gm source op st =
     (let given = (if gm_key_len gm \<noteq> 0 then gm_key gm else NULL_blob);
          (error, moved, value) = get_op (sv_store st) (sv_db_handle st) (bytes_at given (gm_key_len gm)) op;
          num_retrieved = (if error = MDHIM_SUCCESS then 1 else 0);
          st = add_timing elapsed num_retrieved st MDHIM_GET;
          (key, key_len) = (case moved of
              None \<Rightarrow> (if source = sv_rank st \<and> gm_key_len gm \<noteq> 0 \<and> op = MDHIM_GET_EQ
                       then (bl_addr bl 1, bytes_at given (gm_key_len gm)) else given, gm_key_len gm)
            | Some k \<Rightarrow> (value_blob (bl_addr bl 2) k, len32 (case k of None \<Rightarrow> [] | Some bs \<Rightarrow> bs)))
      in Some (send_locally_or_remote st source (get_message bl st error key key_len value)))"

section \<open>Bulk get\<close>

definition bget_message ::
  "blocks \<Rightarrow> 'd mdhim_rs_t \<Rightarrow> int \<Rightarrow> u64 \<times> blob list \<Rightarrow> u64 \<times> i32 list \<Rightarrow> val option list \<Rightarrow> i32 \<Rightarrow> response" where
  "bget_message bl st error keys key_lens values num_records =
     Bgetrm ((bl_bgetrm bl)\<lparr>br_mtype := MDHIM_RECV_BULK_GET, br_error := of_int error,
       br_server_rank := sv_rank st, br_keys := keys, br_key_lens := key_lens,
       br_values := (bl_addr bl 0, map (\<lambda>(i, v). value_blob (bl_addr bl (4 + 2 * i)) v) (enumerate 0 values)),
       br_value_lens := (bl_addr bl 1, map (\<lambda>v. len32 (case v of None \<Rightarrow> [] | Some bs \<Rightarrow> bs)) values),
       br_num_records := num_records\<rparr>)"

definition bget_step :: "'d mdhim_rs_t \<Rightarrow> mdhim_bgetm_t \<Rightarrow> nat \<Rightarrow> int \<times> val option" where
  "bget_step st bgm i =
     (let (ret, v) = s_get (sv_store st) (sv_db_handle st)
        (bytes_at (snd (bg_keys bgm) ! i) (snd (bg_key_lens bgm) ! i))
      in (ret, if ret \<noteq> MDHIM_SUCCESS then None else v))"

text \<open>The error of the last record that has one, and how many have none.\<close>

definition last_error :: "int list \<Rightarrow> int" where
  "last_error rets = fold (\<lambda>ret error. if ret \<noteq> MDHIM_SUCCESS then ret else error) rets 0"

definition range_server_bget ::
  "blocks \<Rightarrow> rat \<Rightarrow> mdhim_bgetm_t \<Rightarrow> i32 \<Rightarrow> 'd mdhim_rs_t \<Rightarrow> 'd mdhim_rs_t option" where
  "range_server_bget bl elapsed bgm source st =
     (let rs = map (bget_step st bgm) [0..<nat (min (sint (bg_num_records bgm)) MAX_BULK_OPS)];
          error = last_error (map fst rs);
          num_retrieved = int (length (filter (\<lambda>r. fst r = MDHIM_SUCCESS) rs));
          st = add_timing elapsed num_retrieved st MDHIM_BULK_GET;
          n = nat (sint (bg_num_records bgm));
          (keys, key_lens) =
            (if source = sv_rank st
             then ((bl_addr bl 2, map (\<lambda>i. (bl_addr bl (5 + 2 * i),
                       bytes_at (snd (bg_keys bgm) ! i) (snd (bg_key_lens bgm) ! i))) [0..<n]),
                   (bl_addr bl 3, take n (snd (bg_key_lens bgm))))
             else (bg_keys bgm, bg_key_lens bgm))
      in Some (send_locally_or_remote st source
           (bget_message bl st error keys key_lens (map snd rs) (bg_num_records bgm))))"

text \<open>The loop of the bulk get by operation, from index \<open>i\<close>: \<open>get_key\<close> is the key the database is
  called with.  The result is the error and the keys and values of the records got.\<close>

fun bget_op_loop :: "'d mdhim_store_t \<Rightarrow> 'd \<Rightarrow> int \<Rightarrow> nat \<Rightarrow> nat \<Rightarrow> key option \<Rightarrow> int \<times> (key option \<times> val option) list" where
  "bget_op_loop store db op i 0 get_key = (0, [])"
| "bget_op_loop store db op i (Suc n) get_key =
     (let k = (case get_key of None \<Rightarrow> [] | Some k \<Rightarrow> k);
          fwd = (op = MDHIM_GET_FIRST \<or> op = MDHIM_GET_NEXT);
          bwd = (op = MDHIM_GET_LAST \<or> op = MDHIM_GET_PREV)
      in if i = 0 \<and> get_key = None \<and> (op = MDHIM_GET_NEXT \<or> op = MDHIM_GET_PREV) then (MDHIM_ERROR, [])
         else if \<not> fwd \<and> \<not> bwd then (0, [])
         else let (ret, key', value) =
                (if i = 0 then (let (ret, v) = s_get store db k in (ret, get_key, v))
                 else let (ret, r) = (if fwd then s_get_next store db k else s_get_prev store db k)
                      in (ret, map_option fst r, map_option snd r))
              in if ret \<noteq> MDHIM_SUCCESS then (ret, [])
                 else let (error, rest) = bget_op_loop store db op (Suc i) n key'
                      in (error, (key', value) # rest))"

definition range_server_bget_op ::
  "blocks \<Rightarrow> rat \<Rightarrow> mdhim_getm_t \<Rightarrow> i32 \<Rightarrow> int \<Rightarrow> 'd mdhim_rs_t \<Rightarrow> 'd mdhim_rs_t option" where
  "range_server_bget_op bl elapsed gm source op st =
     (let get_key = (if gm_key_len gm \<noteq> 0 \<and> fst (gm_key gm) \<noteq> 0
                     then Some (bytes_at (gm_key gm) (gm_key_len gm)) else None);
          (error, rs) = bget_op_loop (sv_store st) (sv_db_handle st) op 0
            (nat (min (sint (gm_num_records gm)) MAX_BULK_OPS)) get_key;
          st = add_timing elapsed (int (length rs)) st MDHIM_BULK_GET
      in Some (send_locally_or_remote st source
           (bget_message bl st error
             (bl_addr bl 2, map (\<lambda>(i, k, v). value_blob (bl_addr bl (5 + 2 * i)) k) (enumerate 0 rs))
             (bl_addr bl 3, map (\<lambda>(k, v). len32 (case k of None \<Rightarrow> [] | Some bs \<Rightarrow> bs)) rs)
             (map snd rs) (of_nat (length rs)))))"

section \<open>The dispatch of the worker\<close>

text \<open>A message in the work queue, by the structure that it really is; its type is the first field.\<close>

datatype rs_message = PutM mdhim_putm_t | BputM mdhim_bputm_t | GetM mdhim_getm_t | BgetM mdhim_bgetm_t
  | DelM mdhim_delm_t | BdelM mdhim_bdelm_t | BaseM mdhim_basem_t

fun message_type :: "rs_message \<Rightarrow> i32" where
  "message_type (PutM m) = pm_mtype m"
| "message_type (BputM m) = bp_mtype m"
| "message_type (GetM m) = gm_mtype m"
| "message_type (BgetM m) = bg_mtype m"
| "message_type (DelM m) = dm_mtype m"
| "message_type (BdelM m) = bd_mtype m"
| "message_type (BaseM m) = bs_mtype m"

text \<open>The switch of worker_thread, except MDHIM_CLOSE, which ends the thread.\<close>

definition handle_work ::
  "part_globals \<Rightarrow> blocks \<Rightarrow> rat \<Rightarrow> rs_message \<Rightarrow> i32 \<Rightarrow> 'd mdhim_rs_t \<Rightarrow> 'd mdhim_rs_t option" where
  "handle_work g bl elapsed msg source st =
     (let mtype = message_type msg in
      if mtype = MDHIM_PUT then (case msg of PutM m \<Rightarrow> range_server_put g bl elapsed m source st | _ \<Rightarrow> None)
      else if mtype = MDHIM_BULK_PUT
        then (case msg of BputM m \<Rightarrow> range_server_bput g bl elapsed m source st | _ \<Rightarrow> None)
      else if mtype = MDHIM_GET
        then (case msg of GetM m \<Rightarrow> if 1 <s gm_num_records m
                then range_server_bget_op bl elapsed m source (sint (gm_op m)) st
                else range_server_get bl elapsed m source (sint (gm_op m)) st | _ \<Rightarrow> None)
      else if mtype = MDHIM_BULK_GET
        then (case msg of BgetM m \<Rightarrow> range_server_bget bl elapsed m source st | _ \<Rightarrow> None)
      else if mtype = MDHIM_DEL then (case msg of DelM m \<Rightarrow> range_server_del bl m source st | _ \<Rightarrow> None)
      else if mtype = MDHIM_BULK_DEL
        then (case msg of BdelM m \<Rightarrow> range_server_bdel bl m source st | _ \<Rightarrow> None)
      else if mtype = MDHIM_COMMIT
        then (case msg of BaseM m \<Rightarrow> range_server_commit bl m source st | _ \<Rightarrow> None)
      else Some st)"

section \<open>Frames\<close>

lemma send_frame [simp]:
  "sv_md (send_locally_or_remote st d r) = sv_md st"
  "sv_rank (send_locally_or_remote st d r) = sv_rank st"
  "sv_value_append (send_locally_or_remote st d r) = sv_value_append st"
  "sv_store (send_locally_or_remote st d r) = sv_store st"
  "sv_db_handle (send_locally_or_remote st d r) = sv_db_handle st"
  "sv_db_stats (send_locally_or_remote st d r) = sv_db_stats st"
  "sv_store_stats (send_locally_or_remote st d r) = sv_store_stats st"
  by (simp_all add: send_locally_or_remote_def)

lemma timing_frame [simp]:
  "sv_md (add_timing e n st t) = sv_md st"
  "sv_rank (add_timing e n st t) = sv_rank st"
  "sv_value_append (add_timing e n st t) = sv_value_append st"
  "sv_store (add_timing e n st t) = sv_store st"
  "sv_db_handle (add_timing e n st t) = sv_db_handle st"
  "sv_db_stats (add_timing e n st t) = sv_db_stats st"
  "sv_store_stats (add_timing e n st t) = sv_store_stats st"
  "return_message bl (add_timing e n st t) error = return_message bl st error"
  by (simp_all add: add_timing_def return_message_def)

text \<open>The answer to a source that was delivered last.\<close>

definition answer :: "'d mdhim_rs_t \<Rightarrow> i32 \<Rightarrow> response option" where
  "answer st source =
     (if source = sv_rank st then sv_receive_msg st
      else if sv_sent st = [] then None else Some (snd (last (sv_sent st))))"

lemma answer_send [simp]: "answer (send_locally_or_remote st d r) d = Some r"
  by (simp add: answer_def send_locally_or_remote_def)

section \<open>Statistics: types and bounds\<close>

definition stat_kind :: "int \<Rightarrow> stat_val \<Rightarrow> bool" where
  "stat_kind t v = (case v of IStat _ \<Rightarrow> \<not> is_float_key t | FStat _ \<Rightarrow> is_float_key t)"

text \<open>A table of statistics whose bounds all have the type that the key type asks for.\<close>

definition stats_typed :: "int \<Rightarrow> mdhim_stat ut_head \<Rightarrow> bool" where
  "stats_typed t tbl \<longleftrightarrow> head_inv tbl \<and>
     (\<forall>k s. ut.get tbl k = Some s \<longrightarrow> stat_kind t (st_min s) \<and> stat_kind t (st_max s))"

lemma key_stat_kind: "key_stat g t k l = Some v \<Longrightarrow> stat_kind t v"
  by (auto simp: key_stat_def stat_kind_def is_float_key_def key_types split: if_splits)

lemma stat_less_kind: "stat_kind t a \<Longrightarrow> stat_kind t b \<Longrightarrow> \<exists>r. stat_less a b = Some r"
  by (cases a; cases b) (auto simp: stat_kind_def)

definition covers :: "mdhim_stat ut_head \<Rightarrow> int \<Rightarrow> stat_val \<Rightarrow> bool" where
  "covers tbl sl v \<longleftrightarrow> (\<exists>s. ut.get tbl (of_int sl) = Some s \<and>
     stat_less v (st_min s) = Some False \<and> stat_less (st_max s) v = Some False)"

text \<open>The statistics of a slice with one more key.\<close>

definition add_key :: "mdhim_stat option \<Rightarrow> int \<Rightarrow> stat_val \<Rightarrow> mdhim_stat" where
  "add_key os sl v = (case os of
       None \<Rightarrow> \<lparr>st_key = sl, st_max = v, st_min = v, st_num = 1\<rparr>
     | Some s \<Rightarrow> \<lparr>st_key = sl, st_max = (if stat_less (st_max s) v = Some True then v else st_max s),
         st_min = (if stat_less v (st_min s) = Some True then v else st_min s), st_num = st_num s + 1\<rparr>)"

lemma update_all_stats_run:
  assumes "stats_typed (md_key_type (sv_md st)) (sv_store_stats st)"
    and v: "key_stat g (md_key_type (sv_md st)) k l = Some v" and sl: "get_slice_num g (sv_md st) (Some k) l = Some sl"
  shows "\<exists>tbl. update_all_stats g k l st = Some (st\<lparr>sv_store_stats := tbl\<rparr>) \<and> head_inv tbl \<and>
    ut.get tbl = (ut.get (sv_store_stats st))(of_int sl \<mapsto> add_key (ut.get (sv_store_stats st) (of_int sl)) sl v)"
proof -
  let ?t = "md_key_type (sv_md st)" and ?tbl = "sv_store_stats st"
  have inv: "head_inv ?tbl" using assms(1) by (simp add: stats_typed_def)
  show ?thesis
  proof (cases "HASH_FIND_INT ?tbl (of_int sl)")
    case None
    then show ?thesis
      using v sl inv ut.get_add [OF inv None] ut.add_inv [OF inv None] ut.lookup_None_get [of ?tbl "of_int sl"]
      by (intro exI [of _ "HASH_ADD_INT ?tbl (of_int sl) (add_key None sl v)"])
        (simp add: update_all_stats_def add_key_def)
  next
    case (Some p)
    let ?os = "hh_get ?tbl p"
    have os: "ut.get ?tbl (of_int sl) = Some ?os" using Some by (simp add: ut.get_def)
    then have "stat_kind ?t (st_min ?os)" "stat_kind ?t (st_max ?os)"
      using assms(1) unfolding stats_typed_def by blast+
    then obtain b a where "stat_less v (st_min ?os) = Some b" "stat_less (st_max ?os) v = Some a"
      using stat_less_kind key_stat_kind [OF v] by metis
    then show ?thesis
      using v sl Some os inv ut.get_replace [OF inv] ut.replace_inv [OF inv]
      by (intro exI [of _ "HASH_REPLACE_INT ?tbl (of_int sl) (add_key (Some ?os) sl v)"]) (simp add: update_all_stats_def add_key_def Let_def)
  qed
qed

lemma add_key_typed:
  "stat_kind t v \<Longrightarrow> (\<And>s. os = Some s \<Longrightarrow> stat_kind t (st_min s) \<and> stat_kind t (st_max s)) \<Longrightarrow>
   stat_kind t (st_min (add_key os sl v)) \<and> stat_kind t (st_max (add_key os sl v))"
  by (auto simp: add_key_def split: option.splits)

lemma add_key_covers:
  assumes "stat_kind t v" and "\<And>s. os = Some s \<Longrightarrow> stat_kind t (st_min s) \<and> stat_kind t (st_max s)"
  shows "stat_less v (st_min (add_key os sl v)) = Some False \<and> stat_less (st_max (add_key os sl v)) v = Some False"
proof -
  have "stat_less v v = Some False" by (cases v) auto
  moreover have "\<exists>r. stat_less v (st_min s) = Some r" "\<exists>r. stat_less (st_max s) v = Some r" if "os = Some s" for s
    using assms(2) [OF that] assms(1) stat_less_kind by blast+
  ultimately show ?thesis by (auto simp: add_key_def split: option.splits)
qed

lemma add_key_keeps:
  assumes "os = Some s" and "stat_less w (st_min s) = Some False" and "stat_less (st_max s) w = Some False"
  shows "stat_less w (st_min (add_key os sl v)) = Some False \<and> stat_less (st_max (add_key os sl v)) w = Some False"
  using assms by (cases v; cases w; cases "st_min s"; cases "st_max s") (auto simp: add_key_def)

end
