(* ===== verification/Server_Spec.thy ===== *)
theory Server_Spec
  imports Range_Server
begin

text \<open>
  The range server against an abstract specification: a finite map from keys to values.  The
  handlers refine it, request by request and for every sequence of requests, over any data store
  that keeps the contract \<open>ordered_store\<close>; the statistics stay well typed and cover every key
  that is stored.
\<close>

section \<open>The specification\<close>

type_synonym contents = "key \<rightharpoonup> val"

datatype answer = Done i32 | Value i32 "byte list" "byte list" | Values i32 "(byte list \<times> byte list) list"

fun ans_of :: "response \<Rightarrow> answer" where
  "ans_of (Rm m) = Done (rm_error m)"
| "ans_of (Getrm m) = Value (gr_error m) (snd (gr_key m)) (snd (gr_value m))"
| "ans_of (Bgetrm m) = Values (br_error m) (zip (map snd (snd (br_keys m))) (map snd (snd (br_values m))))"

definition put_new :: "bool \<Rightarrow> contents \<Rightarrow> key \<Rightarrow> val \<Rightarrow> val" where
  "put_new app m k v = (if app then (case m k of None \<Rightarrow> v | Some w \<Rightarrow> w @ v) else v)"

definition read_val :: "contents \<Rightarrow> key \<Rightarrow> i32 \<times> val" where
  "read_val m k = (case m k of None \<Rightarrow> (of_int MDHIM_DB_ERROR, [])
     | Some v \<Rightarrow> if v = [] then (of_int MDHIM_DB_ERROR, []) else (0, v))"

fun spec_serve :: "bool \<Rightarrow> rs_message \<Rightarrow> contents \<Rightarrow> answer \<times> contents" where
  "spec_serve app (PutM im) m =
     (Done 0, m(snd (pm_key im) \<mapsto> put_new app m (snd (pm_key im)) (snd (pm_value im))))"
| "spec_serve app (BputM bim) m =
     (Done 0, fold (\<lambda>(k, v) m'. m'(k \<mapsto> put_new app m k v))
        (zip (map snd (snd (bp_keys bim))) (map snd (snd (bp_values bim)))) m)"
| "spec_serve app (GetM gm) m =
     (Value (fst (read_val m (snd (gm_key gm)))) (snd (gm_key gm)) (snd (read_val m (snd (gm_key gm)))), m)"
| "spec_serve app (BgetM bgm) m =
     (let ks = map snd (snd (bg_keys bgm))
      in (Values (if \<exists>k \<in> set ks. fst (read_val m k) \<noteq> 0 then of_int MDHIM_DB_ERROR else 0)
            (map (\<lambda>k. (k, snd (read_val m k))) ks), m))"
| "spec_serve app (DelM dm) m = (Done 0, m(snd (dm_key dm) := None))"
| "spec_serve app (BdelM bdm) m = (Done 0, m |` (- snd ` set (snd (bd_keys bdm))))"
| "spec_serve app (BaseM bm) m = (Done 0, m)"

fun spec_run :: "bool \<Rightarrow> (rs_message \<times> i32) list \<Rightarrow> contents \<Rightarrow> answer list \<times> contents" where
  "spec_run app [] m = ([], m)"
| "spec_run app ((r, src) # rs) m =
     (let (a, m1) = spec_serve app r m; (as, m2) = spec_run app rs m1 in (a # as, m2))"

text \<open>The requests the specification speaks of: well-formed messages with valid keys whose numbers
  and slices are defined, gets of a key, bulk messages of at most MAX_BULK_OPS records, appended
  values that still have an \<^verbatim>\<open>int\<close> length, and no bulk append to an existing key from another rank.\<close>

definition key_known :: "part_globals \<Rightarrow> mdhim_t \<Rightarrow> key \<Rightarrow> bool" where
  "key_known g md k \<longleftrightarrow> key_stat g (md_key_type md) k (int (length k)) \<noteq> None \<and>
     get_slice_num g md (Some k) (int (length k)) \<noteq> None"

definition fits :: "bool \<Rightarrow> contents \<Rightarrow> key \<Rightarrow> val \<Rightarrow> bool" where
  "fits app m k v \<longleftrightarrow> (app \<longrightarrow> (case m k of None \<Rightarrow> True | Some w \<Rightarrow> length w + length v < 2147483648))"

fun request_ok ::
  "(key \<Rightarrow> bool) \<Rightarrow> part_globals \<Rightarrow> mdhim_t \<Rightarrow> i32 \<Rightarrow> bool \<Rightarrow> contents \<Rightarrow> rs_message \<times> i32 \<Rightarrow> bool" where
  "request_ok valid g md rank app m (PutM im, src) \<longleftrightarrow> pm_mtype im = MDHIM_PUT \<and>
     blob_ok (pm_key im) (pm_key_len im) \<and> blob_ok (pm_value im) (pm_value_len im) \<and>
     valid (snd (pm_key im)) \<and> key_known g md (snd (pm_key im)) \<and>
     fits app m (snd (pm_key im)) (snd (pm_value im))"
| "request_ok valid g md rank app m (BputM bim, src) \<longleftrightarrow> bp_mtype bim = MDHIM_BULK_PUT \<and>
     blobs_ok (snd (bp_keys bim)) (snd (bp_key_lens bim)) (bp_num_records bim) \<and>
     blobs_ok (snd (bp_values bim)) (snd (bp_value_lens bim)) (bp_num_records bim) \<and>
     int (length (snd (bp_keys bim))) \<le> MAX_BULK_OPS \<and>
     list_all2 (\<lambda>k v. valid (snd k) \<and> key_known g md (snd k) \<and> fits app m (snd k) (snd v) \<and>
        (app \<and> src \<noteq> rank \<longrightarrow> fst (read_val m (snd k)) \<noteq> 0)) (snd (bp_keys bim)) (snd (bp_values bim))"
| "request_ok valid g md rank app m (GetM gm, src) \<longleftrightarrow> gm_mtype gm = MDHIM_GET \<and>
     blob_ok (gm_key gm) (gm_key_len gm) \<and> snd (gm_key gm) \<noteq> [] \<and> valid (snd (gm_key gm)) \<and>
     gm_num_records gm = 1 \<and> gm_op gm = 0"
| "request_ok valid g md rank app m (BgetM bgm, src) \<longleftrightarrow> bg_mtype bgm = MDHIM_BULK_GET \<and>
     blobs_ok (snd (bg_keys bgm)) (snd (bg_key_lens bgm)) (bg_num_records bgm) \<and>
     int (length (snd (bg_keys bgm))) \<le> MAX_BULK_OPS \<and> (\<forall>k \<in> set (snd (bg_keys bgm)). valid (snd k))"
| "request_ok valid g md rank app m (DelM dm, src) \<longleftrightarrow> dm_mtype dm = MDHIM_DEL \<and>
     blob_ok (dm_key dm) (dm_key_len dm) \<and> valid (snd (dm_key dm))"
| "request_ok valid g md rank app m (BdelM bdm, src) \<longleftrightarrow> bd_mtype bdm = MDHIM_BULK_DEL \<and>
     blobs_ok (snd (bd_keys bdm)) (snd (bd_key_lens bdm)) (bd_num_records bdm) \<and>
     int (length (snd (bd_keys bdm))) \<le> MAX_BULK_OPS \<and> (\<forall>k \<in> set (snd (bd_keys bdm)). valid (snd k))"
| "request_ok valid g md rank app m (BaseM bm, src) \<longleftrightarrow> bs_mtype bm = MDHIM_COMMIT"

fun requests_ok ::
  "(key \<Rightarrow> bool) \<Rightarrow> part_globals \<Rightarrow> mdhim_t \<Rightarrow> i32 \<Rightarrow> bool \<Rightarrow> contents \<Rightarrow> (rs_message \<times> i32) list \<Rightarrow> bool" where
  "requests_ok valid g md rank app m [] \<longleftrightarrow> True"
| "requests_ok valid g md rank app m (r # rs) \<longleftrightarrow> request_ok valid g md rank app m r \<and>
     requests_ok valid g md rank app (snd (spec_serve app (fst r) m)) rs"

section \<open>The run of the server\<close>

text \<open>\<open>env i\<close> is what malloc and the clock give to the request number \<open>i\<close>.\<close>

fun serve_run :: "part_globals \<Rightarrow> (nat \<Rightarrow> blocks \<times> rat) \<Rightarrow> nat \<Rightarrow> (rs_message \<times> i32) list \<Rightarrow> 'd mdhim_rs_t
    \<Rightarrow> (answer list \<times> 'd mdhim_rs_t) option" where
  "serve_run g env i [] st = Some ([], st)"
| "serve_run g env i ((r, src) # rs) st = do {
     st1 \<leftarrow> handle_work g (fst (env i)) (snd (env i)) r src st;
     a \<leftarrow> answer st1 src;
     (as, st2) \<leftarrow> serve_run g env (Suc i) rs st1;
     Some (ans_of a # as, st2) }"

section \<open>The invariant\<close>

definition covered :: "part_globals \<Rightarrow> mdhim_t \<Rightarrow> mdhim_stat ut_head \<Rightarrow> key \<Rightarrow> bool" where
  "covered g md tbl k \<longleftrightarrow> (\<exists>v sl. key_stat g (md_key_type md) k (int (length k)) = Some v \<and>
     get_slice_num g md (Some k) (int (length k)) = Some sl \<and> covers tbl sl v)"

definition store_succeeds :: "'d mdhim_store_t \<Rightarrow> bool" where
  "store_succeeds st \<longleftrightarrow> (\<forall>d k v. fst (s_put st d k v) = MDHIM_SUCCESS) \<and>
     (\<forall>d rs. fst (s_batch_put st d rs) = MDHIM_SUCCESS) \<and>
     (\<forall>d k. fst (s_del st d k) = MDHIM_SUCCESS) \<and> (\<forall>d. s_commit st d = MDHIM_SUCCESS)"

definition server_inv ::
  "'d mdhim_store_t \<Rightarrow> ('d \<Rightarrow> (key \<times> val) list) \<Rightarrow> ('d \<Rightarrow> bool) \<Rightarrow> part_globals \<Rightarrow> 'd mdhim_rs_t \<Rightarrow> bool" where
  "server_inv store view I g st \<longleftrightarrow> sv_store st = store \<and> I (sv_db_handle st) \<and>
     stats_typed (md_key_type (sv_md st)) (sv_store_stats st) \<and>
     (\<forall>k \<in> fst ` set (view (sv_db_handle st)). covered g (sv_md st) (sv_store_stats st) k)"

definition same_server :: "'d mdhim_rs_t \<Rightarrow> 'd mdhim_rs_t \<Rightarrow> bool" where
  "same_server st st' \<longleftrightarrow> sv_md st' = sv_md st \<and> sv_rank st' = sv_rank st \<and>
     sv_value_append st' = sv_value_append st \<and> sv_store st' = sv_store st \<and> sv_db_stats st' = sv_db_stats st"

lemma store_succeedsD:
  assumes "store_succeeds st"
  obtains "\<And>d k v. s_put st d k v = (MDHIM_SUCCESS, snd (s_put st d k v))"
    and "\<And>d rs. s_batch_put st d rs = (MDHIM_SUCCESS, snd (s_batch_put st d rs))"
    and "\<And>d k. s_del st d k = (MDHIM_SUCCESS, snd (s_del st d k))"
  using assms by (auto simp: store_succeeds_def prod_eq_iff)

text \<open>The server did with a request what the specification says, and keeps its invariant.\<close>

definition served :: "'d mdhim_store_t \<Rightarrow> ('d \<Rightarrow> (key \<times> val) list) \<Rightarrow> ('d \<Rightarrow> bool) \<Rightarrow> part_globals \<Rightarrow>
    rs_message \<Rightarrow> i32 \<Rightarrow> 'd mdhim_rs_t \<Rightarrow> 'd mdhim_rs_t \<Rightarrow> bool" where
  "served store view I g req src st st' \<longleftrightarrow> server_inv store view I g st' \<and> same_server st st' \<and>
     (\<exists>r. answer st' src = Some r \<and>
       spec_serve (sv_value_append st) req (map_of (view (sv_db_handle st))) =
         (ans_of r, map_of (view (sv_db_handle st'))))"

lemma update_known:
  assumes typed: "stats_typed (md_key_type (sv_md st)) (sv_store_stats st)" and k: "key_known g (sv_md st) k"
  shows "\<exists>tbl. update_all_stats g k (int (length k)) st = Some (st\<lparr>sv_store_stats := tbl\<rparr>) \<and>
    stats_typed (md_key_type (sv_md st)) tbl \<and> covered g (sv_md st) tbl k \<and>
    (\<forall>j. covered g (sv_md st) (sv_store_stats st) j \<longrightarrow> covered g (sv_md st) tbl j)"
proof -
  let ?t = "md_key_type (sv_md st)" and ?tbl = "sv_store_stats st"
  from k obtain v sl where v: "key_stat g ?t k (int (length k)) = Some v"
    and sl: "get_slice_num g (sv_md st) (Some k) (int (length k)) = Some sl"
    by (auto simp: key_known_def)
  from update_all_stats_run [OF typed v sl] obtain tbl where
    run: "update_all_stats g k (int (length k)) st = Some (st\<lparr>sv_store_stats := tbl\<rparr>)" and inv: "head_inv tbl"
    and get: "ut.get tbl = (ut.get ?tbl)(of_int sl \<mapsto> add_key (ut.get ?tbl (of_int sl)) sl v)" by blast
  note kind = key_stat_kind [OF v]
  have old: "stat_kind ?t (st_min s) \<and> stat_kind ?t (st_max s)" if "ut.get ?tbl j = Some s" for j s
    using typed that unfolding stats_typed_def by blast
  have "stats_typed ?t tbl"
    unfolding stats_typed_def using inv old add_key_typed [OF kind old] by (auto simp: get)
  moreover have "covered g (sv_md st) tbl k"
    using v sl add_key_covers [OF kind old] by (auto simp: covered_def covers_def get)
  moreover have "covers tbl i w" if "covers ?tbl i w" for i w
    using that add_key_keeps [of "ut.get ?tbl (of_int sl)"] by (auto simp: covers_def get)
  then have "\<forall>j. covered g (sv_md st) ?tbl j \<longrightarrow> covered g (sv_md st) tbl j"
    unfolding covered_def by blast
  ultimately show ?thesis using run by blast
qed

lemma len32_add:
  "length xs + length ys < 2147483648 \<Longrightarrow> \<not> len32 xs + of_nat (length ys) <s 0"
  by (simp add: len32_def word_sless_alt flip: of_nat_add)

lemma db_error_nonzero [simp]: "(of_int MDHIM_DB_ERROR :: i32) \<noteq> 0"
  by (simp add: MDHIM_DB_ERROR_def)

lemma success_zero [simp]: "(of_int MDHIM_SUCCESS :: i32) = 0"
  by (simp add: MDHIM_SUCCESS_def)

lemma read_val_found: "fst (read_val m k) = 0 \<Longrightarrow> k \<in> dom m"
  by (auto simp: read_val_def split: option.splits)

lemma keys_of_map: "map_of xs = m \<Longrightarrow> fst ` set xs = dom m"
  by (metis dom_map_of_conv_image_fst)

lemma restrict_step: "(m |` (- A))(k := None) = m |` (- insert k A)"
  by (auto simp: restrict_map_def)

lemma blob_sint [simp]: "blob_ok b len \<Longrightarrow> sint len = int (length (snd b))"
  by (simp add: blob_ok_def)

context ordered_store
begin

lemma put_value_run:
  assumes "sv_store s = st" and "inv (sv_db_handle s)" and "valid k"
    and "fits (sv_value_append s) (map_of (view (sv_db_handle s))) k v" and "n = of_nat (length v)"
  shows "put_value s k v n =
    Some (fst (read_val (map_of (view (sv_db_handle s))) k) = 0,
          put_new (sv_value_append s) (map_of (view (sv_db_handle s))) k v)"
  using assms store_get [OF assms(2,3)] len32_add [of _ v]
  by (auto simp: put_value_def found_def read_val_def put_new_def fits_def appended_def return_codes
      split: option.splits)

lemma put_run:
  assumes inv: "server_inv st view inv g s" and ok: "store_succeeds st"
    and req: "request_ok valid g (sv_md s) (sv_rank s) (sv_value_append s) (map_of (view (sv_db_handle s))) (PutM im, src)"
  shows "\<exists>s'. range_server_put g bl e im src s = Some s' \<and> served st view inv g (PutM im) src s s'"
proof -
  let ?k = "snd (pm_key im)" and ?v = "snd (pm_value im)" and ?m = "map_of (view (sv_db_handle s))"
  let ?w = "put_new (sv_value_append s) ?m ?k ?v"
  from req have k: "valid ?k" "key_known g (sv_md s) ?k" and fit: "fits (sv_value_append s) ?m ?k ?v"
    and bk: "blob_ok (pm_key im) (pm_key_len im)" and bv: "blob_ok (pm_value im) (pm_value_len im)" by simp_all
  from inv have s: "sv_store s = st" "inv (sv_db_handle s)" by (simp_all add: server_inv_def)
  obtain d where put: "s_put st (sv_db_handle s) ?k ?w = (MDHIM_SUCCESS, d)"
    using store_succeedsD [OF ok] by blast
  have d: "inv d" "map_of (view d) = ?m(?k \<mapsto> ?w)" using store_put [OF s(2) k(1) put] by simp_all
  have dom: "fst ` set (view d) = insert ?k (fst ` set (view (sv_db_handle s)))"
    using keys_of_map [OF d(2)] by (simp add: dom_map_of_conv_image_fst)
  have pv: "put_value s ?k ?v (pm_value_len im) = Some (fst (read_val ?m ?k) = 0, ?w)"
    using bv by (intro put_value_run [OF s k(1) fit]) (simp add: blob_ok_def)
  let ?s = "s\<lparr>sv_db_handle := d\<rparr>"
  have "\<exists>tbl. (if \<not> fst (read_val ?m ?k) = 0 then update_all_stats g ?k (int (length ?k)) ?s else Some ?s) =
      Some (?s\<lparr>sv_store_stats := tbl\<rparr>) \<and> stats_typed (md_key_type (sv_md s)) tbl \<and>
      (\<forall>j \<in> fst ` set (view d). covered g (sv_md s) tbl j)"
  proof (cases "fst (read_val ?m ?k) = 0")
    case True
    then have "?k \<in> fst ` set (view (sv_db_handle s))"
      using read_val_found [of ?m ?k] by (simp add: dom_map_of_conv_image_fst)
    with True inv show ?thesis
      by (intro exI [of _ "sv_store_stats s"]) (auto simp: server_inv_def dom)
  next
    case False
    with update_known [of ?s g ?k] inv k(2) show ?thesis by (auto simp: server_inv_def dom)
  qed
  then obtain tbl where tbl: "(if \<not> fst (read_val ?m ?k) = 0 then update_all_stats g ?k (int (length ?k)) ?s else Some ?s) =
      Some (?s\<lparr>sv_store_stats := tbl\<rparr>)" "stats_typed (md_key_type (sv_md s)) tbl"
      "\<forall>j \<in> fst ` set (view d). covered g (sv_md s) tbl j" by blast
  show ?thesis
    using tbl [folded blob_sint [OF bk]] d s bk bv pv put
    by (simp add: range_server_put_def served_def server_inv_def same_server_def return_message_def Let_def
        split del: if_split)
qed

lemma get_run:
  assumes inv: "server_inv st view inv g s"
    and req: "request_ok valid g (sv_md s) (sv_rank s) (sv_value_append s) (map_of (view (sv_db_handle s))) (GetM gm, src)"
  shows "\<exists>s'. range_server_get bl e gm src MDHIM_GET_EQ s = Some s' \<and> served st view inv g (GetM gm) src s s'"
proof -
  let ?k = "snd (gm_key gm)"
  from req have k: "valid ?k" "?k \<noteq> []" and bk: "blob_ok (gm_key gm) (gm_key_len gm)" by simp_all
  from inv have s: "sv_store s = st" "inv (sv_db_handle s)" by (simp_all add: server_inv_def)
  have len: "gm_key_len gm \<noteq> 0" using blob_sint [OF bk] k(2) by auto
  have get: "s_get st (sv_db_handle s) ?k = found (map_of (view (sv_db_handle s)) ?k)"
    by (rule store_get [OF s(2) k(1)])
  show ?thesis
    using inv bk len get s
    by (simp add: range_server_get_def get_op_def served_def server_inv_def same_server_def get_message_def
        found_def read_val_def value_blob_def NULL_blob_def return_codes MDHIM_GET_EQ_def Let_def
        split: option.split)
qed

lemma del_run:
  assumes inv: "server_inv st view inv g s" and ok: "store_succeeds st"
    and req: "request_ok valid g (sv_md s) (sv_rank s) (sv_value_append s) (map_of (view (sv_db_handle s))) (DelM dm, src)"
  shows "\<exists>s'. range_server_del bl dm src s = Some s' \<and> served st view inv g (DelM dm) src s s'"
proof -
  let ?k = "snd (dm_key dm)"
  from req have k: "valid ?k" and bk: "blob_ok (dm_key dm) (dm_key_len dm)" by simp_all
  from inv have s: "sv_store s = st" "inv (sv_db_handle s)" by (simp_all add: server_inv_def)
  obtain d where del: "s_del st (sv_db_handle s) ?k = (MDHIM_SUCCESS, d)"
    using store_succeedsD [OF ok] by blast
  have d: "inv d" "map_of (view d) = (map_of (view (sv_db_handle s)))(?k := None)"
    using store_del [OF s(2) k del] by simp_all
  have "fst ` set (view d) \<subseteq> fst ` set (view (sv_db_handle s))"
    using keys_of_map [OF d(2)] by (auto simp: dom_map_of_conv_image_fst)
  with inv have "\<forall>j \<in> fst ` set (view d). covered g (sv_md s) (sv_store_stats s) j"
    unfolding server_inv_def by blast
  then show ?thesis
    using inv bk del d s
    by (simp add: range_server_del_def served_def server_inv_def same_server_def return_message_def Let_def)
qed

lemma bdel_fold:
  assumes "store_succeeds st" and "inv d" and "list_all2 blob_ok (snd (bd_keys bdm)) (snd (bd_key_lens bdm))"
    and "\<forall>k \<in> set (snd (bd_keys bdm)). valid (snd k)" and "n \<le> length (snd (bd_keys bdm))"
  shows "\<exists>d'. fold (bdel_step st bdm) [0..<n] (0, d) = (0, d') \<and> inv d' \<and>
    map_of (view d') = map_of (view d) |` (- snd ` set (take n (snd (bd_keys bdm))))"
  using assms(5)
proof (induction n)
  case 0
  then show ?case using assms(2) by simp
next
  case (Suc n)
  then obtain d1 where IH: "fold (bdel_step st bdm) [0..<n] (0, d) = (0, d1)" "inv d1"
    "map_of (view d1) = map_of (view d) |` (- snd ` set (take n (snd (bd_keys bdm))))"
    by auto
  let ?b = "snd (bd_keys bdm) ! n"
  have b: "blob_ok ?b (snd (bd_key_lens bdm) ! n)" "valid (snd ?b)"
    using Suc.prems assms(3,4) by (simp_all add: list_all2_nthD)
  obtain d2 where del: "s_del st d1 (snd ?b) = (MDHIM_SUCCESS, d2)"
    using store_succeedsD [OF assms(1)] by blast
  have "bdel_step st bdm n (0, d1) = (0, d2)" using del b(1) by (simp add: bdel_step_def)
  moreover have "inv d2 \<and> map_of (view d2) = map_of (view d) |` (- insert (snd ?b) (snd ` set (take n (snd (bd_keys bdm)))))"
    using store_del [OF IH(2) b(2) del] unfolding IH(3) restrict_step .
  moreover have "snd ` set (take (Suc n) (snd (bd_keys bdm))) = insert (snd ?b) (snd ` set (take n (snd (bd_keys bdm))))"
    using Suc.prems by (simp add: take_Suc_conv_app_nth)
  ultimately show ?case using IH(1) by simp
qed

lemma bdel_run:
  assumes inv: "server_inv st view inv g s" and ok: "store_succeeds st"
    and req: "request_ok valid g (sv_md s) (sv_rank s) (sv_value_append s) (map_of (view (sv_db_handle s))) (BdelM bdm, src)"
  shows "\<exists>s'. range_server_bdel bl bdm src s = Some s' \<and> served st view inv g (BdelM bdm) src s s'"
proof -
  let ?ks = "snd (bd_keys bdm)"
  from req have ks: "blobs_ok ?ks (snd (bd_key_lens bdm)) (bd_num_records bdm)" "int (length ?ks) \<le> MAX_BULK_OPS"
    "\<forall>k \<in> set ?ks. valid (snd k)" by simp_all
  from inv have s: "sv_store s = st" "inv (sv_db_handle s)" by (simp_all add: server_inv_def)
  have n: "nat (min (sint (bd_num_records bdm)) MAX_BULK_OPS) = length ?ks"
    using ks(1,2) by (simp add: blobs_ok_def)
  obtain d where d: "fold (bdel_step st bdm) [0..<length ?ks] (0, sv_db_handle s) = (0, d)" "inv d"
    "map_of (view d) = map_of (view (sv_db_handle s)) |` (- snd ` set ?ks)"
    using bdel_fold [OF ok s(2) _ ks(3), of "length ?ks"] ks(1) by (auto simp: blobs_ok_def)
  have "fst ` set (view d) \<subseteq> fst ` set (view (sv_db_handle s))"
    using keys_of_map [OF d(3)] by (auto simp: dom_map_of_conv_image_fst)
  with inv have "\<forall>j \<in> fst ` set (view d). covered g (sv_md s) (sv_store_stats s) j"
    unfolding server_inv_def by blast
  then show ?thesis
    using inv n d s
    by (simp add: range_server_bdel_def served_def server_inv_def same_server_def return_message_def Let_def)
qed

lemma commit_run:
  assumes inv: "server_inv st view inv g s" and ok: "store_succeeds st"
  shows "\<exists>s'. range_server_commit bl bm src s = Some s' \<and> served st view inv g (BaseM bm) src s s'"
  using assms
  by (simp add: range_server_commit_def served_def server_inv_def same_server_def return_message_def
      store_succeeds_def)

end

section \<open>Bulk requests\<close>

lemma bget_message_timing [simp]:
  "bget_message bl (add_timing e n s t) err ks kl vs num = bget_message bl s err ks kl vs num"
  by (simp add: bget_message_def)

lemma last_error_found:
  "set rets \<subseteq> {MDHIM_SUCCESS, MDHIM_DB_ERROR} \<Longrightarrow>
   last_error rets = (if MDHIM_DB_ERROR \<in> set rets then MDHIM_DB_ERROR else 0)"
  by (induction rets rule: rev_induct) (auto simp: last_error_def return_codes)

lemma snd_value_blobs:
  "map snd (map (\<lambda>(i, v). value_blob (a i) v) (enumerate n vs)) = map (case_option [] (\<lambda>v. v)) vs"
  by (rule nth_equalityI) (auto simp: nth_enumerate_eq value_blob_def NULL_blob_def split: option.split)

lemma zip_batch:
  "zip xs (map snd (map (\<lambda>(k, v). (p k v, n k v)) (zip xs ys))) = map (\<lambda>(k, v). (k, n k v)) (zip xs ys)"
  by (induction xs ys rule: list_induct2') simp_all

lemma fold_batch:
  "fold (\<lambda>(k, v) m. m(k \<mapsto> v)) (map (\<lambda>(k, v). (k, n k v)) xs) m = fold (\<lambda>(k, v) m. m(k \<mapsto> n k v)) xs m"
  by (induction xs arbitrary: m) (simp_all add: split_beta del: fun_upd_apply)

lemma loop_opt_map: "(\<And>i. i \<in> set is \<Longrightarrow> f i = Some (h i)) \<Longrightarrow> loop_opt f is = Some (map h is)"
  by (induction "is") auto

lemma bput_key_val:
  "list_all2 blob_ok (snd (bp_keys bim)) (snd (bp_key_lens bim)) \<Longrightarrow> i < length (snd (bp_keys bim)) \<Longrightarrow>
   bput_key bim i = snd (snd (bp_keys bim) ! i)"
  by (simp add: bput_key_def list_all2_nthD)

lemma bput_stats_run:
  assumes "stats_typed (md_key_type (sv_md s)) (sv_store_stats s)"
    and ks: "list_all2 blob_ok (snd (bp_keys bim)) (snd (bp_key_lens bim))"
      "\<forall>k \<in> set (snd (bp_keys bim)). key_known g (sv_md s) (snd k)"
    and "i + length es \<le> length (snd (bp_keys bim))"
  shows "\<exists>tbl. bput_stats g bim es i s = Some (s\<lparr>sv_store_stats := tbl\<rparr>) \<and>
    stats_typed (md_key_type (sv_md s)) tbl \<and>
    (\<forall>j. covered g (sv_md s) (sv_store_stats s) j \<longrightarrow> covered g (sv_md s) tbl j) \<and>
    (\<forall>x < length es. \<not> es ! x \<longrightarrow> covered g (sv_md s) tbl (snd (snd (bp_keys bim) ! (i + x))))"
  using assms(1,3,4)
proof (induction es arbitrary: i s)
  case Nil
  then show ?case by (intro exI [of _ "sv_store_stats s"]) simp
next
  case (Cons ex es)
  let ?k = "snd (bp_keys bim) ! i"
  have b: "blob_ok ?k (snd (bp_key_lens bim) ! i)" "key_known g (sv_md s) (snd ?k)"
    using Cons.prems ks by (simp_all add: list_all2_nthD)
  have key: "bput_key bim i = snd ?k" "sint (snd (bp_key_lens bim) ! i) = int (length (snd ?k))"
    using bput_key_val [OF ks(1)] b(1) Cons.prems by simp_all
  obtain t1 where t1: "(if \<not> ex then update_all_stats g (snd ?k) (int (length (snd ?k))) s else Some s) =
      Some (s\<lparr>sv_store_stats := t1\<rparr>)" "stats_typed (md_key_type (sv_md s)) t1"
      "\<not> ex \<longrightarrow> covered g (sv_md s) t1 (snd ?k)"
      "\<forall>j. covered g (sv_md s) (sv_store_stats s) j \<longrightarrow> covered g (sv_md s) t1 j"
  proof (cases ex)
    case True
    with that [of "sv_store_stats s"] Cons.prems show ?thesis by simp
  next
    case False
    with that update_known [OF Cons.prems(1) b(2)] show ?thesis by auto
  qed
  let ?s = "s\<lparr>sv_store_stats := t1\<rparr>"
  obtain tbl where tbl: "bput_stats g bim es (Suc i) ?s = Some (?s\<lparr>sv_store_stats := tbl\<rparr>)"
    "stats_typed (md_key_type (sv_md s)) tbl" "\<forall>j. covered g (sv_md s) t1 j \<longrightarrow> covered g (sv_md s) tbl j"
    "\<forall>x < length es. \<not> es ! x \<longrightarrow> covered g (sv_md s) tbl (snd (snd (bp_keys bim) ! (Suc i + x)))"
    using Cons.IH [of ?s "Suc i"] Cons.prems t1(2) by auto
  have "\<not> (ex # es) ! x \<longrightarrow> covered g (sv_md s) tbl (snd (snd (bp_keys bim) ! (i + x)))"
    if "x < length (ex # es)" for x
    using that t1(3) tbl(3,4) by (cases x) auto
  moreover have "bput_stats g bim (ex # es) i s = Some (s\<lparr>sv_store_stats := tbl\<rparr>)"
    using tbl(1) unfolding bput_stats.simps key t1(1) by simp
  ultimately show ?case using t1(4) tbl(2,3) by blast
qed

lemma loop_opt_length: "loop_opt f is = Some xs \<Longrightarrow> length xs = length is"
  by (induction "is" arbitrary: xs) (auto split: bind_splits)

lemma bput_success:
  assumes "int n \<le> MAX_BULK_OPS" and "nat (sint (bp_num_records bim)) = n"
    and "loop_opt (bput_value s bim) [0..<n] = Some rs"
    and "s_batch_put (sv_store s) (sv_db_handle s) (zip (map (bput_key bim) [0..<n]) (map snd rs)) = (MDHIM_SUCCESS, d)"
    and "bput_stats g bim (map fst rs) 0 (s\<lparr>sv_db_handle := d\<rparr>) = Some s'" and "same_server s s'"
    and "\<not> (True \<in> set (map fst rs) \<and> sv_value_append s \<and> src \<noteq> sv_rank s)"
  shows "range_server_bput g bl e bim src s = Some (send_locally_or_remote
    (add_timing e (sint (bp_num_records bim)) s' MDHIM_BULK_PUT) src (return_message bl s MDHIM_SUCCESS))"
proof -
  let ?old = "map (\<lambda>i. snd (s_get (sv_store s) (sv_db_handle s) (bput_key bim i)) \<noteq> None) [0..<n]"
  have "length rs = n" using loop_opt_length [OF assms(3)] by simp
  then have "\<not> (sv_value_append s \<and> src \<noteq> sv_rank s \<and> (\<exists>i < n. map fst rs ! i))"
    using assms(7) by (metis length_map nth_mem)
  from bput_frees(1) [OF this, of ?old] obtain f1 f2 f3 f4 where
    "free_blocks (concat (map (\<lambda>i. bput_read_frees (sv_value_append s) (src \<noteq> sv_rank s) (map fst rs ! i) (?old ! i) i) [0..<n])) [] = Some f1"
    "free_blocks (concat (map (\<lambda>i. bput_done_frees (sv_value_append s) (src \<noteq> sv_rank s) (map fst rs ! i) i) [0..<n])) f1 = Some f2"
    "free_blocks [Exists_array, New_values_array, New_value_lens_array, Value_variable, Value_len_variable] f2 = Some f3"
    "free_blocks [Keys_array, Key_lens_array, Values_array, Value_lens_array, Message_block] f3 = Some f4" by blast
  then show ?thesis
    using assms(1,3-6) unfolding range_server_bput_def assms(2) Let_def
    by (simp add: same_server_def return_message_def del: free_blocks.simps)
qed

lemma dom_fold_upd: "dom (fold (\<lambda>(k, v) m. m(k \<mapsto> f k v)) kvs m) = fst ` set kvs \<union> dom m"
proof (induction kvs arbitrary: m)
  case (Cons x kvs)
  obtain k v where "x = (k, v)" by force
  with Cons [of "m(k \<mapsto> f k v)"] show ?case by (simp del: fun_upd_apply)
qed simp

context ordered_store
begin

lemma bget_run:
  assumes inv: "server_inv st view inv g s"
    and req: "request_ok valid g (sv_md s) (sv_rank s) (sv_value_append s) (map_of (view (sv_db_handle s))) (BgetM bgm, src)"
  shows "\<exists>s'. range_server_bget bl e bgm src s = Some s' \<and> served st view inv g (BgetM bgm) src s s'"
proof -
  let ?ks = "snd (bg_keys bgm)" and ?kl = "snd (bg_key_lens bgm)" and ?m = "map_of (view (sv_db_handle s))"
  from req have ks: "blobs_ok ?ks ?kl (bg_num_records bgm)" "int (length ?ks) \<le> MAX_BULK_OPS"
    "\<forall>k \<in> set ?ks. valid (snd k)" by simp_all
  from inv have s: "sv_store s = st" "inv (sv_db_handle s)" by (simp_all add: server_inv_def)
  have n: "nat (min (sint (bg_num_records bgm)) MAX_BULK_OPS) = length ?ks"
    "nat (sint (bg_num_records bgm)) = length ?ks" using ks(1,2) by (simp_all add: blobs_ok_def)
  have at: "bytes_at (?ks ! i) (?kl ! i) = snd (?ks ! i)" if "i < length ?ks" for i
    using blobs_okD(4) [OF ks(1) that] by simp
  let ?rs = "map (\<lambda>k. found (?m (snd k))) ?ks"
  have steps: "map (bget_step s bgm) [0..<length ?ks] = ?rs"
  proof (rule nth_equalityI)
    fix i assume "i < length (map (bget_step s bgm) [0..<length ?ks])"
    then have i: "i < length ?ks" by simp
    then have "valid (snd (?ks ! i))" using ks(3) by simp
    then show "map (bget_step s bgm) [0..<length ?ks] ! i = ?rs ! i"
      using i s store_get [OF s(2)] by (auto simp: bget_step_def at found_def split: option.splits)
  qed simp
  have err: "(of_int (last_error (map fst ?rs)) :: i32) =
      (if \<exists>k \<in> snd ` set ?ks. fst (read_val ?m k) \<noteq> 0 then of_int MDHIM_DB_ERROR else 0)"
    by (subst last_error_found)
      (auto simp: found_def read_val_def return_codes image_iff split: option.splits if_splits)
  have vals: "map (case_option [] (\<lambda>v. v)) (map snd ?rs) = map (\<lambda>k. snd (read_val ?m k)) (map snd ?ks)"
    by (simp add: found_def read_val_def split: option.splits)
  have keys: "map snd (map (\<lambda>i. (a i, bytes_at (?ks ! i) (?kl ! i))) [0..<length ?ks]) = map snd ?ks" for a :: "nat \<Rightarrow> u64"
    using at by (intro nth_equalityI) simp_all
  have zip: "zip xs (map f xs) = map (\<lambda>k. (k, f k)) xs" for f :: "key \<Rightarrow> val" and xs
    by (induction xs) simp_all
  let ?ans = "\<lambda>b1 b2. ans_of (bget_message bl s (last_error (map fst ?rs)) b1 b2 (map snd ?rs) (bg_num_records bgm))"
  have ans: "?ans b1 b2 = fst (spec_serve (sv_value_append s) (BgetM bgm) ?m)"
    if "map snd (snd b1) = map snd ?ks" for b1 b2
    using that err unfolding bget_message_def ans_of.simps spec_serve.simps Let_def
    by (simp add: snd_value_blobs vals zip del: map_map)
  let ?b = "if src = sv_rank s then ((bl_addr bl 2, map (\<lambda>i. (bl_addr bl (5 + 2 * i), bytes_at (?ks ! i) (?kl ! i)))
      [0..<length ?ks]), (bl_addr bl 3, take (length ?ks) ?kl)) else (bg_keys bgm, bg_key_lens bgm)"
  have b: "map snd (snd (fst ?b)) = map snd ?ks" using keys by simp
  let ?s = "add_timing e (int (length (filter (\<lambda>r. fst r = MDHIM_SUCCESS) ?rs))) s MDHIM_BULK_GET"
  have "range_server_bget bl e bgm src s = Some (send_locally_or_remote ?s src
      (bget_message bl s (last_error (map fst ?rs)) (fst ?b) (snd ?b) (map snd ?rs) (bg_num_records bgm)))"
    unfolding range_server_bget_def n steps Let_def by (simp add: split_beta del: map_map)
  then show ?thesis
    using ans [OF b] inv s by (simp add: served_def server_inv_def same_server_def prod_eq_iff del: map_map)
qed

lemma bput_values:
  assumes s: "sv_store s = st" "inv (sv_db_handle s)"
    and req: "request_ok valid g (sv_md s) (sv_rank s) (sv_value_append s) (map_of (view (sv_db_handle s))) (BputM bim, src)"
  shows "loop_opt (bput_value s bim) [0..<length (snd (bp_keys bim))] =
    Some (map (\<lambda>(k, v). (fst (read_val (map_of (view (sv_db_handle s))) k) = 0,
        put_new (sv_value_append s) (map_of (view (sv_db_handle s))) k v))
      (zip (map snd (snd (bp_keys bim))) (map snd (snd (bp_values bim)))))"
    (is "loop_opt _ [0..<?n] = Some (map ?h (zip ?K ?V))")
proof -
  let ?ks = "snd (bp_keys bim)" and ?vs = "snd (bp_values bim)"
  from req have len: "length ?vs = ?n" by (auto dest: list_all2_lengthD)
  have "bput_value s bim i = Some (?h (zip ?K ?V ! i))" if "i < ?n" for i
  proof -
    from req that have "blob_ok (?ks ! i) (snd (bp_key_lens bim) ! i)"
      "blob_ok (?vs ! i) (snd (bp_value_lens bim) ! i)" using len by (auto intro: blobs_okD(4))
    moreover from req that have "valid (snd (?ks ! i))"
      "fits (sv_value_append s) (map_of (view (sv_db_handle s))) (snd (?ks ! i)) (snd (?vs ! i))"
      by (auto dest: list_all2_nthD)
    moreover have "snd (bp_value_lens bim) ! i = of_nat (length (snd (?vs ! i)))"
      using calculation(2) by (simp add: blob_ok_def)
    ultimately show ?thesis
      using put_value_run [OF s] that len by (simp add: bput_value_def)
  qed
  then have "loop_opt (bput_value s bim) [0..<?n] = Some (map (\<lambda>i. ?h (zip ?K ?V ! i)) [0..<?n])"
    by (intro loop_opt_map) simp
  also have "map (\<lambda>i. ?h (zip ?K ?V ! i)) [0..<?n] = map ?h (zip ?K ?V)"
    using len by (intro nth_equalityI) simp_all
  finally show ?thesis .
qed

lemma bput_run:
  assumes inv: "server_inv st view inv g s" and ok: "store_succeeds st"
    and req: "request_ok valid g (sv_md s) (sv_rank s) (sv_value_append s) (map_of (view (sv_db_handle s))) (BputM bim, src)"
  shows "\<exists>s'. range_server_bput g bl e bim src s = Some s' \<and> served st view inv g (BputM bim) src s s'"
proof -
  let ?ks = "snd (bp_keys bim)" and ?vs = "snd (bp_values bim)" and ?m = "map_of (view (sv_db_handle s))"
  let ?n = "length ?ks" and ?new = "put_new (sv_value_append s) ?m"
  let ?kvs = "zip (map snd ?ks) (map snd ?vs)"
  let ?es = "map (\<lambda>(k, v). fst (read_val ?m k) = 0) ?kvs"
  let ?P = "\<lambda>k v. valid (snd k) \<and> key_known g (sv_md s) (snd k) \<and>
    fits (sv_value_append s) ?m (snd k) (snd v) \<and>
    (sv_value_append s \<and> src \<noteq> sv_rank s \<longrightarrow> fst (read_val ?m (snd k)) \<noteq> 0)"
  from req have wf: "blobs_ok ?ks (snd (bp_key_lens bim)) (bp_num_records bim)" "int ?n \<le> MAX_BULK_OPS"
    "list_all2 ?P ?ks ?vs" by simp_all
  have len: "length ?vs = ?n" using wf(3) by (simp add: list_all2_lengthD)
  have P: "?P (?ks ! i) (?vs ! i)" if "i < ?n" for i using list_all2_nthD [OF wf(3) that] .
  have bk: "list_all2 blob_ok ?ks (snd (bp_key_lens bim))" "\<forall>k \<in> set ?ks. key_known g (sv_md s) (snd k)"
    and kv: "\<forall>k \<in> set ?ks. valid (snd k)" 
    using wf(1) P by (simp_all add: blobs_ok_def all_set_conv_all_nth)
  have num: "bp_num_records bim = of_nat ?n" "nat (sint (bp_num_records bim)) = ?n"
    using wf(1) by (simp_all add: blobs_ok_def)
  from inv have s: "sv_store s = st" "inv (sv_db_handle s)" by (simp_all add: server_inv_def)
  let ?batch = "map (\<lambda>(k, v). (k, ?new k v)) ?kvs"
  have keys: "map (bput_key bim) [0..<?n] = map snd ?ks"
    using bput_key_val [OF bk(1)] by (intro nth_equalityI) simp_all
  have "zip (map (bput_key bim) [0..<?n]) (map snd (map (\<lambda>(k, v). (fst (read_val ?m k) = 0, ?new k v)) ?kvs)) = ?batch"
    unfolding keys by (rule zip_batch)
  note batch = this
  obtain d where put: "s_batch_put st (sv_db_handle s) ?batch = (MDHIM_SUCCESS, d)"
    using store_succeedsD [OF ok] by blast
  have "valid k" if "(k, v) \<in> set ?kvs" for k v using set_zip_leftD [OF that] kv by auto
  then have "\<forall>r \<in> set ?batch. valid (fst r)" by auto
  from store_batch_put [OF s(2) this put] have d: "inv d"
    "map_of (view d) = fold (\<lambda>(k, v) m. m(k \<mapsto> ?new k v)) ?kvs ?m"
    by (simp_all add: fold_batch del: fun_upd_apply)
  have dom: "fst ` set (view d) = snd ` set ?ks \<union> fst ` set (view (sv_db_handle s))"
    using keys_of_map [OF d(2)] len unfolding dom_fold_upd
    by (simp add: dom_map_of_conv_image_fst flip: set_map)
  let ?s = "s\<lparr>sv_db_handle := d\<rparr>"
  obtain tbl where tbl: "bput_stats g bim ?es 0 ?s = Some (?s\<lparr>sv_store_stats := tbl\<rparr>)"
    "stats_typed (md_key_type (sv_md s)) tbl"
    "\<forall>j. covered g (sv_md s) (sv_store_stats s) j \<longrightarrow> covered g (sv_md s) tbl j"
    "\<forall>x < length ?es. \<not> ?es ! x \<longrightarrow> covered g (sv_md s) tbl (snd (?ks ! x))"
    using bput_stats_run [of ?s bim g 0 ?es] bk inv len by (auto simp: server_inv_def)
  have "covered g (sv_md s) tbl (snd (?ks ! x))" if "x < ?n" for x
  proof (cases "fst (read_val ?m (snd (?ks ! x))) = 0")
    case True
    then have "snd (?ks ! x) \<in> fst ` set (view (sv_db_handle s))"
      using read_val_found by (simp flip: dom_map_of_conv_image_fst)
    with inv tbl(3) show ?thesis unfolding server_inv_def by blast
  next
    case False
    then show ?thesis using tbl(4) that len by simp
  qed
  then have "\<forall>k \<in> set ?ks. covered g (sv_md s) tbl (snd k)" by (simp add: all_set_conv_all_nth)
  then have cov: "\<forall>j \<in> fst ` set (view d). covered g (sv_md s) tbl j"
    using tbl(3) inv unfolding dom server_inv_def by blast
  have nocrash: "\<not> (True \<in> set ?es \<and> sv_value_append s \<and> src \<noteq> sv_rank s)"
    using P len by (auto simp: in_set_conv_nth)
  let ?rs = "map (\<lambda>(k, v). (fst (read_val ?m k) = 0, ?new k v)) ?kvs"
  have es: "map fst ?rs = ?es" by auto
  have "range_server_bput g bl e bim src s = Some (send_locally_or_remote
      (add_timing e (sint (bp_num_records bim)) (?s\<lparr>sv_store_stats := tbl\<rparr>) MDHIM_BULK_PUT) src
      (return_message bl s MDHIM_SUCCESS))"
    using nocrash tbl(1) batch put s
    by (intro bput_success [OF wf(2) num(2) bput_values [OF s req], where d = d])
      (simp_all only: es same_server_def mdhim_rs_t.simps mdhim_rs_t.update_convs, simp_all)
  then show ?thesis
    using d s tbl(2) cov
    by (simp add: served_def server_inv_def same_server_def return_message_def)
qed

lemma serve_one:
  assumes inv: "server_inv st view inv g s" and ok: "store_succeeds st"
    and req: "request_ok valid g (sv_md s) (sv_rank s) (sv_value_append s) (map_of (view (sv_db_handle s))) (r, src)"
  shows "\<exists>s'. handle_work g bl e r src s = Some s' \<and> served st view inv g r src s s'"
proof (cases r)
  case (GetM gm)
  with req have "sint (gm_op gm) = MDHIM_GET_EQ" by (simp add: MDHIM_GET_EQ_def)
  with req GetM get_run [OF inv, of gm src] show ?thesis
    by (simp add: handle_work_def message_types)
qed (use req put_run [OF inv ok] bput_run [OF inv ok] bget_run [OF inv] del_run [OF inv ok] bdel_run [OF inv ok]
    commit_run [OF inv ok] in \<open>simp_all add: handle_work_def message_types\<close>)

lemma serve_all:
  assumes "server_inv st view inv g s" and ok: "store_succeeds st"
    and "requests_ok valid g (sv_md s) (sv_rank s) (sv_value_append s) (map_of (view (sv_db_handle s))) rs"
  shows "\<exists>s'. serve_run g env i rs s =
      Some (fst (spec_run (sv_value_append s) rs (map_of (view (sv_db_handle s)))), s') \<and>
    server_inv st view inv g s' \<and> same_server s s' \<and>
    map_of (view (sv_db_handle s')) = snd (spec_run (sv_value_append s) rs (map_of (view (sv_db_handle s))))"
  using assms(1,3)
proof (induction rs arbitrary: s i)
  case Nil
  then show ?case by (simp add: same_server_def)
next
  case (Cons x rs)
  obtain r src where x: "x = (r, src)" by force
  from serve_one [OF Cons.prems(1) ok, of r src "fst (env i)" "snd (env i)"] Cons.prems(2) obtain s1 where
    s1: "handle_work g (fst (env i)) (snd (env i)) r src s = Some s1" "served st view inv g r src s s1"
    by (auto simp: x)
  then obtain a where a: "answer s1 src = Some a" "spec_serve (sv_value_append s) r (map_of (view (sv_db_handle s))) =
      (ans_of a, map_of (view (sv_db_handle s1)))" and inv1: "server_inv st view inv g s1" and same: "same_server s s1"
    by (auto simp: served_def)
  have "requests_ok valid g (sv_md s1) (sv_rank s1) (sv_value_append s1) (map_of (view (sv_db_handle s1))) rs"
    using Cons.prems(2) a(2) same by (simp add: x same_server_def)
  from Cons.IH [OF inv1 this, of "Suc i"] s1(1) a same show ?case
    by (auto simp: x same_server_def split_beta)
qed

end

end
