(* ===== verification/Transport.thy ===== *)
theory Transport
  imports Server_Spec
begin

text \<open>
  The functions of \<^verbatim>\<open>src/mdhimMods/src/messages.c\<close> that carry requests and responses between
  processes: a message goes as two MPI messages, its size and its packed bytes, under two tags.

  The MPI calls are a parameter, one record for each process; what MPI documents about them (messages
  between two processes with the same tag arrive in order, none is lost) is the locale
  \<open>mpi_channels\<close>.  A receive that is posted with MPI_Irecv and then tested in a loop until it is
  complete is one call here; \<open>None\<close> is a call that never returns, or undefined behaviour.

  The locale has the send calls of a network with room for the message: they complete at once.  The
  repository's own MPI_Send does not always do what MPI documents: it can wait for ever and it can
  overwrite an earlier message (\<^verbatim>\<open>Mpi_P2P\<close>), and its MPI_Pack needs symmetric buffers, which the
  functions of \<^verbatim>\<open>messages.c\<close> do not have (\<^verbatim>\<open>Messages_Private\<close>).
\<close>

section \<open>The calls of MPI\<close>

definition RANGESRV_WORK_MSG :: i32 where "RANGESRV_WORK_MSG = 1"
definition RANGESRV_WORK_SIZE_MSG :: i32 where "RANGESRV_WORK_SIZE_MSG = 2"
definition CLIENT_RESPONSE_MSG :: i32 where "CLIENT_RESPONSE_MSG = 4"
definition CLIENT_RESPONSE_SIZE_MSG :: i32 where "CLIENT_RESPONSE_SIZE_MSG = 5"

lemmas tags = RANGESRV_WORK_MSG_def RANGESRV_WORK_SIZE_MSG_def CLIENT_RESPONSE_MSG_def CLIENT_RESPONSE_SIZE_MSG_def

text \<open>\<open>mp_send data dest tag\<close>, \<open>mp_recv size source tag\<close>; the source of \<open>mp_irecv\<close> is \<open>None\<close> for
  MPI_ANY_SOURCE, and it also yields the source of the message.  \<open>mp_malloc\<close> is the allocator of the
  packing functions, \<open>mp_alloc\<close> that of the functions here.\<close>

record 'n mpi =
  mp_pack :: "byte list pack_op"
  mp_unpack :: unpack_op
  mp_malloc :: malloc_op
  mp_alloc :: malloc_op
  mp_send :: "byte list \<Rightarrow> i32 \<Rightarrow> i32 \<Rightarrow> 'n \<Rightarrow> i32 \<times> 'n"
  mp_isend :: "byte list \<Rightarrow> i32 \<Rightarrow> i32 \<Rightarrow> 'n \<Rightarrow> i32 \<times> 'n"
  mp_recv :: "nat \<Rightarrow> i32 \<Rightarrow> i32 \<Rightarrow> 'n \<Rightarrow> (i32 \<times> byte list \<times> 'n) option"
  mp_irecv :: "nat \<Rightarrow> i32 option \<Rightarrow> i32 \<Rightarrow> 'n \<Rightarrow> (i32 \<times> i32 \<times> byte list \<times> 'n) option"

section \<open>Requests\<close>

definition packed_out :: "(byte list, 'm) packed \<Rightarrow> int \<times> byte list option \<times> i32" where
  "packed_out = (\<lambda>(code, buf, sz, _). (code, buf, sz))"

text \<open>The switch of send_rangesrv_work; \<open>ss\<close> is \<open>sendsize\<close> before it.\<close>

definition pack_request :: "'n mpi \<Rightarrow> i32 \<Rightarrow> rs_message \<Rightarrow> (int \<times> byte list option \<times> i32) option" where
  "pack_request mp ss message =
     (let mtype = message_type message; pk = mp_pack mp; mal = mp_malloc mp in
      if mtype = MDHIM_PUT
        then (case message of PutM m \<Rightarrow> Some (packed_out (pack_put_message pk mal m ss)) | _ \<Rightarrow> None)
      else if mtype = MDHIM_BULK_PUT
        then (case message of BputM m \<Rightarrow> Some (packed_out (pack_bput_message pk mal m ss)) | _ \<Rightarrow> None)
      else if mtype = MDHIM_GET
        then (case message of GetM m \<Rightarrow> Some (packed_out (pack_get_message pk mal m ss)) | _ \<Rightarrow> None)
      else if mtype = MDHIM_BULK_GET
        then (case message of BgetM m \<Rightarrow> Some (packed_out (pack_bget_message pk mal m ss)) | _ \<Rightarrow> None)
      else if mtype = MDHIM_DEL
        then (case message of DelM m \<Rightarrow> Some (packed_out (pack_del_message pk mal m ss)) | _ \<Rightarrow> None)
      else if mtype = MDHIM_BULK_DEL
        then (case message of BdelM m \<Rightarrow> Some (packed_out (pack_bdel_message pk mal m ss)) | _ \<Rightarrow> None)
      else if mtype = MDHIM_COMMIT \<or> mtype = MDHIM_CLOSE
        then (case message of BaseM m \<Rightarrow> Some (packed_out (pack_base_message pk mal m ss)) | _ \<Rightarrow> None)
      else Some (MDHIM_ERROR, None, ss))"

definition send_rangesrv_work :: "'n mpi \<Rightarrow> i32 \<Rightarrow> rs_message \<Rightarrow> 'n \<Rightarrow> (int \<times> 'n) option" where
  "send_rangesrv_work mp dest message n = do {
     (return_code, sendbuf, sendsize) \<leftarrow> pack_request mp 0 message;
     if return_code \<noteq> MDHIM_SUCCESS then Some (MDHIM_ERROR, n)
     else let (rc, n) = mp_send mp (enc32 sendsize) dest RANGESRV_WORK_SIZE_MSG n in
       if rc \<noteq> MPI_SUCCESS then Some (MDHIM_ERROR, n)
       else do {
         buf \<leftarrow> sendbuf;
         let (rc, n) = mp_send mp (take (csize sendsize) buf) dest RANGESRV_WORK_MSG n;
         Some (if rc \<noteq> MPI_SUCCESS then MDHIM_ERROR else MDHIM_SUCCESS, n) } }"

fun message_server_rank :: "rs_message \<Rightarrow> i32" where
  "message_server_rank (PutM m) = pm_server_rank m"
| "message_server_rank (BputM m) = bp_server_rank m"
| "message_server_rank (GetM m) = gm_server_rank m"
| "message_server_rank (BgetM m) = bg_server_rank m"
| "message_server_rank (DelM m) = dm_server_rank m"
| "message_server_rank (BdelM m) = bd_server_rank m"
| "message_server_rank (BaseM m) = bs_server_rank m"

text \<open>The switch of send_all_rangesrv_work has the three bulk types.  The variables \<open>return_code\<close>,
  \<open>sendbuf\<close> and \<open>sendsize\<close> keep their values from one round to the next, also for a message of
  another type.\<close>

type_synonym send_vars = "int \<times> byte list option \<times> i32"

definition pack_bulk :: "'n mpi \<Rightarrow> rs_message \<Rightarrow> send_vars \<Rightarrow> send_vars option" where
  "pack_bulk mp mesg vars =
     (let mtype = message_type mesg
      in if mtype = MDHIM_BULK_PUT \<or> mtype = MDHIM_BULK_GET \<or> mtype = MDHIM_BULK_DEL
         then pack_request mp (snd (snd vars)) mesg else Some vars)"

fun send_all_loop :: "'n mpi \<Rightarrow> rs_message option list \<Rightarrow> send_vars \<Rightarrow> int \<Rightarrow> 'n \<Rightarrow> (int \<times> 'n) option" where
  "send_all_loop mp [] vars ret n = Some (ret, n)"
| "send_all_loop mp (None # ms) vars ret n = send_all_loop mp ms vars ret n"
| "send_all_loop mp (Some mesg # ms) vars ret n = do {
     (return_code, sendbuf, sendsize) \<leftarrow> pack_bulk mp mesg vars;
     if return_code \<noteq> MDHIM_SUCCESS
     then send_all_loop mp ms (return_code, sendbuf, sendsize) MDHIM_ERROR n
     else do {
       let dest = message_server_rank mesg;
       let (rc1, n) = mp_isend mp (enc32 sendsize) dest RANGESRV_WORK_SIZE_MSG n;
       buf \<leftarrow> sendbuf;
       let (rc2, n) = mp_isend mp (take (csize sendsize) buf) dest RANGESRV_WORK_MSG n;
       send_all_loop mp ms (sint rc2, sendbuf, sendsize)
         (if rc1 \<noteq> MPI_SUCCESS \<or> rc2 \<noteq> MPI_SUCCESS then MDHIM_ERROR else ret) n } }"

definition send_all_rangesrv_work :: "'n mpi \<Rightarrow> rs_message option list \<Rightarrow> 'n \<Rightarrow> (int \<times> 'n) option" where
  "send_all_rangesrv_work mp messages n =
     send_all_loop mp messages (MDHIM_ERROR, None, 0) MDHIM_SUCCESS n"

text \<open>The switch of receive_rangesrv_work: whether the return code is a success, and \<open>*message\<close>.\<close>

definition unpacked :: "('m \<Rightarrow> 'r) \<Rightarrow> 'm option \<Rightarrow> bool \<times> 'r option" where
  "unpacked f m = (m \<noteq> None, map_option f m)"

definition unpack_request ::
  "unpack_op \<Rightarrow> malloc_op \<Rightarrow> i32 \<Rightarrow> i32 \<Rightarrow> byte list \<Rightarrow> i32 \<Rightarrow> bool \<times> rs_message option" where
  "unpack_request up mal mtype rc buf msg_size =
     (if mtype = MDHIM_PUT then unpacked PutM (unpack_put_message up mal buf msg_size)
      else if mtype = MDHIM_BULK_PUT then unpacked BputM (unpack_bput_message up mal buf msg_size)
      else if mtype = MDHIM_GET then unpacked GetM (unpack_get_message up mal buf msg_size)
      else if mtype = MDHIM_BULK_GET then unpacked BgetM (unpack_bget_message up mal buf msg_size)
      else if mtype = MDHIM_DEL then unpacked DelM (unpack_del_message up mal buf msg_size)
      else if mtype = MDHIM_BULK_DEL then unpacked BdelM (unpack_bdel_message up mal buf msg_size)
      else (rc = MPI_SUCCESS, None))"

text \<open>The return code, \<open>*src\<close> and \<open>*message\<close>; on an error that comes before the message is there,
  \<open>*src\<close> and \<open>*message\<close> are not set, and the caller does not look at them.\<close>

definition receive_rangesrv_work :: "'n mpi \<Rightarrow> 'n \<Rightarrow> (int \<times> i32 \<times> rs_message option \<times> 'n) option" where
  "receive_rangesrv_work mp n = do {
     (rc, src, b, n) \<leftarrow> mp_irecv mp 4 None RANGESRV_WORK_SIZE_MSG n;
     if rc \<noteq> MPI_SUCCESS then Some (MDHIM_ERROR, src, None, n)
     else do {
       let recvsize = dec32 b;
       _ \<leftarrow> mp_alloc mp 0 (csize recvsize);
       (rc, src, recvbuf, n) \<leftarrow> mp_irecv mp (csize recvsize) (Some src) RANGESRV_WORK_MSG n;
       if rc \<noteq> MPI_SUCCESS then Some (MDHIM_ERROR, src, None, n)
       else do {
         (_, old) \<leftarrow> mp_alloc mp 1 12;
         let (rc, bm, _) = mp_unpack mp recvbuf recvsize 0 12 MPI_CHAR old;
         let mtype = w32 bm 0;
         let msg_size = w32 bm 8;
         if msg_size = 0 \<or> mtype <s MDHIM_PUT \<or> MDHIM_COMMIT <s mtype then Some (MDHIM_ERROR, src, None, n)
         else let (success, message) = unpack_request (mp_unpack mp) (mp_malloc mp) mtype rc recvbuf msg_size
           in Some (if \<not> success then MDHIM_ERROR
                else if mtype = MDHIM_COMMIT then sint MDHIM_COMMIT
                else if mtype = MDHIM_CLOSE then sint MDHIM_CLOSE
                else MDHIM_SUCCESS, src, message, n) } } }"

section \<open>Responses\<close>

fun response_type :: "response \<Rightarrow> i32" where
  "response_type (Rm m) = rm_mtype m"
| "response_type (Getrm m) = gr_mtype m"
| "response_type (Bgetrm m) = br_mtype m"

definition pack_response :: "'n mpi \<Rightarrow> response \<Rightarrow> (int \<times> byte list option \<times> i32) option" where
  "pack_response mp message =
     (let mtype = response_type message; pk = mp_pack mp; mal = mp_malloc mp in
      if mtype = MDHIM_RECV
        then (case message of Rm m \<Rightarrow> Some (packed_out (pack_return_message pk mal m 0)) | _ \<Rightarrow> None)
      else if mtype = MDHIM_RECV_GET
        then (case message of Getrm m \<Rightarrow> Some (packed_out (pack_getrm_message pk mal m 0)) | _ \<Rightarrow> None)
      else if mtype = MDHIM_RECV_BULK_GET
        then (case message of Bgetrm m \<Rightarrow> Some (packed_out (pack_bgetrm_message pk mal m 0)) | _ \<Rightarrow> None)
      else Some (0, None, 0))"

text \<open>The response is sent even when packing failed; a NULL buffer can only be sent with size 0.\<close>

definition send_client_response :: "'n mpi \<Rightarrow> i32 \<Rightarrow> response \<Rightarrow> 'n \<Rightarrow> (int \<times> 'n) option" where
  "send_client_response mp dest message n = do {
     (return_code, sendbuf, sendsize) \<leftarrow> pack_response mp message;
     let ret = (if return_code \<noteq> MDHIM_SUCCESS then MDHIM_ERROR else MDHIM_SUCCESS);
     let (rc, n) = mp_send mp (enc32 sendsize) dest CLIENT_RESPONSE_SIZE_MSG n;
     let ret = (if rc \<noteq> MPI_SUCCESS then MDHIM_ERROR else ret);
     buf \<leftarrow> (if sendsize = 0 then Some [] else sendbuf);
     let (rc, n) = mp_send mp (take (csize sendsize) buf) dest CLIENT_RESPONSE_MSG n;
     Some (if rc \<noteq> MPI_SUCCESS then MDHIM_ERROR else ret, n) }"

text \<open>A response that cannot be unpacked leaves a pointer to a half-filled structure behind, which the
  callers go on to use; here it has no result.\<close>

definition unpack_response ::
  "unpack_op \<Rightarrow> malloc_op \<Rightarrow> i32 \<Rightarrow> i32 \<Rightarrow> byte list \<Rightarrow> i32 \<Rightarrow> (bool \<times> response option) option" where
  "unpack_response up mal mtype rc buf msg_size =
     (let filled = map_option (\<lambda>r. (True, Some r)) in
      if mtype = MDHIM_RECV then filled (map_option Rm (unpack_return_message up mal buf))
      else if mtype = MDHIM_RECV_GET then filled (map_option Getrm (unpack_getrm_message up mal buf msg_size))
      else if mtype = MDHIM_RECV_BULK_GET then filled (map_option Bgetrm (unpack_bgetrm_message up mal buf msg_size))
      else Some (rc = MPI_SUCCESS, None))"

text \<open>What both receiving functions do with the bytes of one response.\<close>

definition open_response :: "'n mpi \<Rightarrow> byte list \<Rightarrow> i32 \<Rightarrow> (bool \<times> response option) option" where
  "open_response mp recvbuf sz = do {
     (_, old) \<leftarrow> mp_alloc mp 1 12;
     let (rc, bm, _) = mp_unpack mp recvbuf sz 0 12 MPI_CHAR old;
     unpack_response (mp_unpack mp) (mp_malloc mp) (w32 bm 0) rc recvbuf (w32 bm 8) }"

definition receive_client_response :: "'n mpi \<Rightarrow> i32 \<Rightarrow> 'n \<Rightarrow> (int \<times> response option \<times> 'n) option" where
  "receive_client_response mp src n = do {
     (rc, b, n) \<leftarrow> mp_recv mp 4 src CLIENT_RESPONSE_SIZE_MSG n;
     if rc \<noteq> MPI_SUCCESS then Some (MDHIM_ERROR, None, n)
     else do {
       let msg_size = dec32 b;
       _ \<leftarrow> mp_alloc mp 0 (csize msg_size);
       (rc, recvbuf, n) \<leftarrow> mp_recv mp (csize msg_size) src CLIENT_RESPONSE_MSG n;
       if rc \<noteq> MPI_SUCCESS then Some (MDHIM_ERROR, None, n)
       else do {
         (success, message) \<leftarrow> open_response mp recvbuf msg_size;
         Some (if \<not> success then MDHIM_ERROR else MDHIM_SUCCESS, message, n) } } }"

text \<open>The loops of receive_all_client_responses: the sizes, the messages, the unpacking.  The result
  of the first two is whether no call failed, and what was received.\<close>

fun receive_sizes :: "'n mpi \<Rightarrow> i32 list \<Rightarrow> 'n \<Rightarrow> (bool \<times> i32 list \<times> 'n) option" where
  "receive_sizes mp [] n = Some (True, [], n)"
| "receive_sizes mp (src # srcs) n = do {
     (rc, _, b, n) \<leftarrow> mp_irecv mp 4 (Some src) CLIENT_RESPONSE_SIZE_MSG n;
     (good, sizes, n) \<leftarrow> receive_sizes mp srcs n;
     Some (rc = MPI_SUCCESS \<and> good, dec32 b # sizes, n) }"

fun receive_bufs :: "'n mpi \<Rightarrow> (i32 \<times> i32) list \<Rightarrow> 'n \<Rightarrow> (bool \<times> byte list list \<times> 'n) option" where
  "receive_bufs mp [] n = Some (True, [], n)"
| "receive_bufs mp ((src, sz) # ss) n = do {
     _ \<leftarrow> mp_alloc mp 0 (csize sz);
     (rc, _, recvbuf, n) \<leftarrow> mp_irecv mp (csize sz) (Some src) CLIENT_RESPONSE_MSG n;
     (good, bufs, n) \<leftarrow> receive_bufs mp ss n;
     Some (rc = MPI_SUCCESS \<and> good, recvbuf # bufs, n) }"

fun open_responses :: "'n mpi \<Rightarrow> (byte list \<times> i32) list \<Rightarrow> (bool \<times> response option list) option" where
  "open_responses mp [] = Some (True, [])"
| "open_responses mp ((recvbuf, sz) # bs) = do {
     (success, message) \<leftarrow> open_response mp recvbuf sz;
     (good, messages) \<leftarrow> open_responses mp bs;
     Some (success \<and> good, message # messages) }"

definition receive_all_client_responses ::
  "'n mpi \<Rightarrow> i32 list \<Rightarrow> 'n \<Rightarrow> (int \<times> response option list \<times> 'n) option" where
  "receive_all_client_responses mp srcs n = do {
     (good1, sizes, n) \<leftarrow> receive_sizes mp srcs n;
     (good2, bufs, n) \<leftarrow> receive_bufs mp (zip srcs sizes) n;
     (good3, messages) \<leftarrow> open_responses mp (zip bufs sizes);
     Some (if good1 \<and> good2 \<and> good3 then MDHIM_SUCCESS else MDHIM_ERROR, messages, n) }"

section \<open>What a buffer carries\<close>

text \<open>Two requests with the same type, server rank, keys, values, lengths, operation and number of
  records: they differ only in addresses, sizes and padding.\<close>

fun same_request :: "rs_message \<Rightarrow> rs_message \<Rightarrow> bool" where
  "same_request (PutM a) (PutM b) \<longleftrightarrow> pm_mtype b = pm_mtype a \<and> pm_server_rank b = pm_server_rank a \<and> snd (pm_key b) = snd (pm_key a) \<and>
     pm_key_len b = pm_key_len a \<and> snd (pm_value b) = snd (pm_value a) \<and> pm_value_len b = pm_value_len a"
| "same_request (BputM a) (BputM b) \<longleftrightarrow> bp_mtype b = bp_mtype a \<and> bp_server_rank b = bp_server_rank a \<and>
     map snd (snd (bp_keys b)) = map snd (snd (bp_keys a)) \<and> snd (bp_key_lens b) = snd (bp_key_lens a) \<and>
     map snd (snd (bp_values b)) = map snd (snd (bp_values a)) \<and> snd (bp_value_lens b) = snd (bp_value_lens a) \<and>
     bp_num_records b = bp_num_records a"
| "same_request (GetM a) (GetM b) \<longleftrightarrow> gm_mtype b = gm_mtype a \<and> gm_server_rank b = gm_server_rank a \<and> snd (gm_key b) = snd (gm_key a) \<and>
     gm_key_len b = gm_key_len a \<and> gm_op b = gm_op a \<and> gm_num_records b = gm_num_records a"
| "same_request (BgetM a) (BgetM b) \<longleftrightarrow> bg_mtype b = bg_mtype a \<and> bg_server_rank b = bg_server_rank a \<and>
     map snd (snd (bg_keys b)) = map snd (snd (bg_keys a)) \<and> snd (bg_key_lens b) = snd (bg_key_lens a) \<and>
     bg_op b = bg_op a \<and> bg_num_records b = bg_num_records a"
| "same_request (DelM a) (DelM b) \<longleftrightarrow> dm_mtype b = dm_mtype a \<and> dm_server_rank b = dm_server_rank a \<and> snd (dm_key b) = snd (dm_key a) \<and>
     dm_key_len b = dm_key_len a"
| "same_request (BdelM a) (BdelM b) \<longleftrightarrow> bd_mtype b = bd_mtype a \<and> bd_server_rank b = bd_server_rank a \<and>
     map snd (snd (bd_keys b)) = map snd (snd (bd_keys a)) \<and> snd (bd_key_lens b) = snd (bd_key_lens a) \<and>
     bd_num_records b = bd_num_records a"
| "same_request _ _ \<longleftrightarrow> False"

text \<open>The well-formed requests that fit in \<open>sz\<close> bytes.\<close>

fun sendable :: "rs_message \<Rightarrow> nat \<Rightarrow> bool" where
  "sendable (PutM m) sz \<longleftrightarrow> pm_mtype m = MDHIM_PUT \<and> putm_ok m sz"
| "sendable (BputM m) sz \<longleftrightarrow> bp_mtype m = MDHIM_BULK_PUT \<and> bputm_ok m sz"
| "sendable (GetM m) sz \<longleftrightarrow> gm_mtype m = MDHIM_GET \<and> getm_ok m sz"
| "sendable (BgetM m) sz \<longleftrightarrow> bg_mtype m = MDHIM_BULK_GET \<and> bgetm_ok m sz"
| "sendable (DelM m) sz \<longleftrightarrow> dm_mtype m = MDHIM_DEL \<and> delm_ok m sz"
| "sendable (BdelM m) sz \<longleftrightarrow> bd_mtype m = MDHIM_BULK_DEL \<and> bdelm_ok m sz"
| "sendable (BaseM m) sz \<longleftrightarrow> False"

lemma image_heads [simp]:
  "w32 (putm_image a @ r) 0 = pm_mtype a" "w32 (putm_image a @ r) 8 = pm_size a"
  "w32 (bputm_image b @ r) 0 = bp_mtype b" "w32 (bputm_image b @ r) 8 = bp_size b"
  "w32 (getm_image c @ r) 0 = gm_mtype c" "w32 (getm_image c @ r) 8 = gm_size c"
  "w32 (bgetm_image d @ r) 0 = bg_mtype d" "w32 (bgetm_image d @ r) 8 = bg_size d"
  "w32 (delm_image e @ r) 0 = dm_mtype e" "w32 (delm_image e @ r) 8 = dm_size e"
  "w32 (bdelm_image f @ r) 0 = bd_mtype f" "w32 (bdelm_image f @ r) 8 = bd_size f"
  "w32 (rm_image g) 0 = rm_mtype g" "w32 (rm_image g) 8 = rm_size g"
  "w32 (getrm_image h @ r) 0 = gr_mtype h" "w32 (getrm_image h @ r) 8 = gr_size h"
  "w32 (bgetrm_image i @ r) 0 = br_mtype i" "w32 (bgetrm_image i @ r) 8 = br_size i"
  by (simp_all add: putm_image_def bputm_image_def getm_image_def bgetm_image_def delm_image_def bdelm_image_def
      rm_image_def getrm_image_def bgetrm_image_def image_simps)

text \<open>A buffer that any receiver unpacks to the request, respectively to a response with the same
  answer; the header has the type and the size.\<close>

definition header_ok :: "byte list \<Rightarrow> i32 \<Rightarrow> bool" where
  "header_ok buf mtype \<longleftrightarrow> 12 \<le> length buf \<and> length buf < 2147483648 \<and>
     w32 buf 0 = mtype \<and> w32 buf 8 = of_nat (length buf)"

definition carries :: "byte list \<Rightarrow> rs_message \<Rightarrow> bool" where
  "carries buf msg \<longleftrightarrow> header_ok buf (message_type msg) \<and>
     message_type msg \<in> {MDHIM_PUT, MDHIM_BULK_PUT, MDHIM_GET, MDHIM_BULK_GET, MDHIM_DEL, MDHIM_BULK_DEL} \<and>
     (\<forall>pk up mal rc. packer pk up \<longrightarrow> malloc_ok mal \<longrightarrow>
        (\<exists>msg'. unpack_request up mal (message_type msg) rc buf (of_nat (length buf)) = (True, Some msg') \<and>
           same_request msg msg'))"

lemma put_carries:
  assumes "putm_ok m sz" and "pm_mtype m = MDHIM_PUT" and "pm_size m = of_nat sz"
  shows "carries (putm_image m @ snd (pm_key m) @ snd (pm_value m)) (PutM m)"
proof -
  have "sz = length (putm_image m @ snd (pm_key m) @ snd (pm_value m))" "sz < 2147483648"
    using assms(1) by (simp_all add: putm_ok_def)
  then show ?thesis
    using assms packer.put_unpacks [OF _ assms(1)]
    by (auto simp: carries_def header_ok_def unpack_request_def unpacked_def message_types)
qed

lemma get_carries:
  assumes "getm_ok m sz" and "gm_mtype m = MDHIM_GET" and "gm_size m = of_nat sz"
  shows "carries (getm_image m @ snd (gm_key m)) (GetM m)"
proof -
  have "sz = length (getm_image m @ snd (gm_key m))" "sz < 2147483648"
    using assms(1) by (simp_all add: getm_ok_def)
  then show ?thesis
    using assms packer.get_unpacks [OF _ assms(1)]
    by (auto simp: carries_def header_ok_def unpack_request_def unpacked_def message_types)
qed

lemma del_carries:
  assumes "delm_ok m sz" and "dm_mtype m = MDHIM_DEL" and "dm_size m = of_nat sz"
  shows "carries (delm_image m @ snd (dm_key m)) (DelM m)"
proof -
  have "sz = length (delm_image m @ snd (dm_key m))" "sz < 2147483648"
    using assms(1) by (simp_all add: delm_ok_def)
  then show ?thesis
    using assms packer.del_unpacks [OF _ assms(1)]
    by (auto simp: carries_def header_ok_def unpack_request_def unpacked_def message_types)
qed

lemma bput_carries:
  assumes "bputm_ok m sz" and "bp_mtype m = MDHIM_BULK_PUT" and "bp_size m = of_nat sz"
  shows "carries (bputm_image m @ pairs_bytes (snd (bp_keys m)) (snd (bp_key_lens m)) (snd (bp_values m))
    (snd (bp_value_lens m))) (BputM m)"
proof -
  have "length (snd (bp_values m)) = length (snd (bp_keys m))"
    using assms(1) blobs_ok_nat by (metis bputm_ok_def)
  then have "sz = length (bputm_image m @ pairs_bytes (snd (bp_keys m)) (snd (bp_key_lens m)) (snd (bp_values m))
      (snd (bp_value_lens m)))" "sz < 2147483648"
    using assms(1) by (simp_all add: bputm_ok_def length_pairs_bytes)
  then show ?thesis
    using assms packer.bput_unpacks [OF _ assms(1)]
    by (auto simp: carries_def header_ok_def unpack_request_def unpacked_def message_types)
qed

lemma bget_carries:
  assumes "bgetm_ok m sz" and "bg_mtype m = MDHIM_BULK_GET" and "bg_size m = of_nat sz"
    and spare: "length spare = 4 * length (snd (bg_keys m))"
  shows "carries (bgetm_image m @ keys_bytes (snd (bg_keys m)) (snd (bg_key_lens m)) @ spare) (BgetM m)"
proof -
  have "sz = length (bgetm_image m @ keys_bytes (snd (bg_keys m)) (snd (bg_key_lens m)) @ spare)" "sz < 2147483648"
    using assms(1) spare by (simp_all add: bgetm_ok_def length_keys_bytes)
  then show ?thesis
    using assms packer.bget_unpacks [OF _ assms(1) _ spare]
    by (auto simp: carries_def header_ok_def unpack_request_def unpacked_def message_types)
qed

lemma bdel_carries:
  assumes "bdelm_ok m sz" and "bd_mtype m = MDHIM_BULK_DEL" and "bd_size m = of_nat sz"
  shows "carries (bdelm_image m @ keys_bytes (snd (bd_keys m)) (snd (bd_key_lens m))) (BdelM m)"
proof -
  have "sz = length (bdelm_image m @ keys_bytes (snd (bd_keys m)) (snd (bd_key_lens m)))" "sz < 2147483648"
    using assms(1) by (simp_all add: bdelm_ok_def length_keys_bytes)
  then show ?thesis
    using assms packer.bdel_unpacks [OF _ assms(1)]
    by (auto simp: carries_def header_ok_def unpack_request_def unpacked_def message_types)
qed

lemma same_request_type: "same_request a b \<Longrightarrow> message_type b = message_type a"
  by (cases a; cases b) simp_all

lemma same_request_trans: "same_request a b \<Longrightarrow> same_request b c \<Longrightarrow> same_request a c"
  by (cases a; cases b; cases c) simp_all

lemma carries_same:
  assumes "carries buf b" and same: "same_request a b"
  shows "carries buf a"
proof -
  note t = same_request_type [OF same]
  have "\<exists>m. unpack_request up mal (message_type a) rc buf (of_nat (length buf)) = (True, Some m) \<and> same_request a m"
    if u: "packer pk up" "malloc_ok mal" for pk up mal rc
  proof -
    obtain m where "unpack_request up mal (message_type b) rc buf (of_nat (length buf)) = (True, Some m)"
      "same_request b m"
      using assms(1) u unfolding carries_def by blast
    with t same_request_trans [OF same] show ?thesis by auto
  qed
  with assms(1) show ?thesis unfolding carries_def t by blast
qed

lemma carries_len: "carries buf m \<Longrightarrow> 12 \<le> length buf \<and> length buf < 2147483648"
  by (simp add: carries_def header_ok_def)

lemma pack_request_simps:
  "pm_mtype a = MDHIM_PUT \<Longrightarrow> pack_request mp ss (PutM a) =
     Some (packed_out (pack_put_message (mp_pack mp) (mp_malloc mp) a ss))"
  "bp_mtype b = MDHIM_BULK_PUT \<Longrightarrow> pack_request mp ss (BputM b) =
     Some (packed_out (pack_bput_message (mp_pack mp) (mp_malloc mp) b ss))"
  "gm_mtype c = MDHIM_GET \<Longrightarrow> pack_request mp ss (GetM c) =
     Some (packed_out (pack_get_message (mp_pack mp) (mp_malloc mp) c ss))"
  "bg_mtype d = MDHIM_BULK_GET \<Longrightarrow> pack_request mp ss (BgetM d) =
     Some (packed_out (pack_bget_message (mp_pack mp) (mp_malloc mp) d ss))"
  "dm_mtype e = MDHIM_DEL \<Longrightarrow> pack_request mp ss (DelM e) =
     Some (packed_out (pack_del_message (mp_pack mp) (mp_malloc mp) e ss))"
  "bd_mtype f = MDHIM_BULK_DEL \<Longrightarrow> pack_request mp ss (BdelM f) =
     Some (packed_out (pack_bdel_message (mp_pack mp) (mp_malloc mp) f ss))"
  by (simp_all add: pack_request_def message_types)

lemma packsI:
  "pack_request mp ss msg = Some (packed_out (MDHIM_SUCCESS, Some buf, of_nat sz, x)) \<Longrightarrow> length buf = sz \<Longrightarrow>
   carries buf msg \<Longrightarrow>
   \<exists>buf. pack_request mp ss msg = Some (MDHIM_SUCCESS, Some buf, of_nat sz) \<and> length buf = sz \<and> carries buf msg"
  by (auto simp: packed_out_def)

lemma bputm_ok_values: "bputm_ok m sz \<Longrightarrow> length (snd (bp_values m)) = length (snd (bp_keys m))"
  using blobs_ok_nat by (metis bputm_ok_def)

lemma request_packs:
  assumes pk: "packer (mp_pack mp) (mp_unpack mp)" and mal: "malloc_ok (mp_malloc mp)" and ok: "sendable msg sz"
  shows "\<exists>buf. pack_request mp ss msg = Some (MDHIM_SUCCESS, Some buf, of_nat sz) \<and> length buf = sz \<and> carries buf msg"
proof (cases msg)
  case (PutM m)
  let ?m = "m\<lparr>pm_size := of_nat sz\<rparr>"
  from ok PutM have m: "putm_ok m sz" "pm_mtype m = MDHIM_PUT" "putm_ok ?m sz" "pm_size ?m = of_nat sz"
    by (simp_all add: putm_ok_def)
  show ?thesis
  proof (rule packsI)
    show "pack_request mp ss msg = Some (packed_out (MDHIM_SUCCESS, Some (putm_image ?m @ snd (pm_key m) @ snd (pm_value m)), of_nat sz, ?m))"
      unfolding PutM pack_request_simps(1) [OF m(2)] packer.put_packs [OF pk m(1) mal] ..
    show "length (putm_image ?m @ snd (pm_key m) @ snd (pm_value m)) = sz"
      using m(1) by (simp add: putm_ok_def)
    have "carries (putm_image ?m @ snd (pm_key m) @ snd (pm_value m)) (PutM ?m)"
      using put_carries [OF m(3) _ m(4)] m(2) by simp
    then show "carries (putm_image ?m @ snd (pm_key m) @ snd (pm_value m)) msg"
      unfolding PutM by (rule carries_same) simp
  qed
next
  case (BputM m)
  let ?m = "m\<lparr>bp_size := of_nat sz\<rparr>"
  from ok BputM have m: "bputm_ok m sz" "bp_mtype m = MDHIM_BULK_PUT" "bputm_ok ?m sz" "bp_size ?m = of_nat sz"
    by (simp_all add: bputm_ok_def)
  show ?thesis
  proof (rule packsI)
    show "pack_request mp ss msg = Some (packed_out (MDHIM_SUCCESS, Some (bputm_image ?m @ pairs_bytes (snd (bp_keys m)) (snd (bp_key_lens m)) (snd (bp_values m)) (snd (bp_value_lens m))), of_nat sz, ?m))"
      unfolding BputM pack_request_simps(2) [OF m(2)] packer.bput_packs [OF pk m(1) mal] ..
    show "length (bputm_image ?m @ pairs_bytes (snd (bp_keys m)) (snd (bp_key_lens m)) (snd (bp_values m)) (snd (bp_value_lens m))) = sz"
      using m(1) unfolding bputm_ok_def by (simp add: length_pairs_bytes [OF bputm_ok_values [OF m(1)]])
    have "carries (bputm_image ?m @ pairs_bytes (snd (bp_keys m)) (snd (bp_key_lens m)) (snd (bp_values m)) (snd (bp_value_lens m))) (BputM ?m)"
      using bput_carries [OF m(3) _ m(4)] m(2) by simp
    then show "carries (bputm_image ?m @ pairs_bytes (snd (bp_keys m)) (snd (bp_key_lens m)) (snd (bp_values m)) (snd (bp_value_lens m))) msg"
      unfolding BputM by (rule carries_same) simp
  qed
next
  case (GetM m)
  let ?m = "m\<lparr>gm_size := of_nat sz\<rparr>"
  from ok GetM have m: "getm_ok m sz" "gm_mtype m = MDHIM_GET" "getm_ok ?m sz" "gm_size ?m = of_nat sz"
    by (simp_all add: getm_ok_def)
  show ?thesis
  proof (rule packsI)
    show "pack_request mp ss msg = Some (packed_out (MDHIM_SUCCESS, Some (getm_image ?m @ snd (gm_key m)), of_nat sz, ?m))"
      unfolding GetM pack_request_simps(3) [OF m(2)] packer.get_packs [OF pk m(1) mal] ..
    show "length (getm_image ?m @ snd (gm_key m)) = sz"
      using m(1) by (simp add: getm_ok_def)
    have "carries (getm_image ?m @ snd (gm_key m)) (GetM ?m)"
      using get_carries [OF m(3) _ m(4)] m(2) by simp
    then show "carries (getm_image ?m @ snd (gm_key m)) msg"
      unfolding GetM by (rule carries_same) simp
  qed
next
  case (BgetM m)
  let ?m = "m\<lparr>bg_size := of_nat sz\<rparr>" and ?b = "keys_bytes (snd (bg_keys m)) (snd (bg_key_lens m))"
  from ok BgetM have m: "bgetm_ok m sz" "bg_mtype m = MDHIM_BULK_GET" "bgetm_ok ?m sz" "bg_size ?m = of_nat sz"
    by (simp_all add: bgetm_ok_def)
  obtain spare where spare: "length spare = 4 * length (snd (bg_keys m))"
    "pack_bget_message (mp_pack mp) (mp_malloc mp) m ss =
      (MDHIM_SUCCESS, Some (bgetm_image ?m @ ?b @ spare), of_nat sz, ?m)"
    using packer.bget_packs [OF pk m(1) mal, of ss] by blast
  show ?thesis
  proof (rule packsI)
    show "pack_request mp ss msg = Some (packed_out (MDHIM_SUCCESS, Some (bgetm_image ?m @ ?b @ spare), of_nat sz, ?m))"
      unfolding BgetM pack_request_simps(4) [OF m(2)] spare(2) ..
    show "length (bgetm_image ?m @ ?b @ spare) = sz"
      using m(1) spare(1) by (simp add: bgetm_ok_def length_keys_bytes)
    have "carries (bgetm_image ?m @ ?b @ spare) (BgetM ?m)"
      using bget_carries [OF m(3) _ m(4), of spare] m(2) spare(1) by simp
    then show "carries (bgetm_image ?m @ ?b @ spare) msg"
      unfolding BgetM by (rule carries_same) simp
  qed
next
  case (DelM m)
  let ?m = "m\<lparr>dm_size := of_nat sz\<rparr>"
  from ok DelM have m: "delm_ok m sz" "dm_mtype m = MDHIM_DEL" "delm_ok ?m sz" "dm_size ?m = of_nat sz"
    by (simp_all add: delm_ok_def)
  show ?thesis
  proof (rule packsI)
    show "pack_request mp ss msg = Some (packed_out (MDHIM_SUCCESS, Some (delm_image ?m @ snd (dm_key m)), of_nat sz, ?m))"
      unfolding DelM pack_request_simps(5) [OF m(2)] packer.del_packs [OF pk m(1) mal] ..
    show "length (delm_image ?m @ snd (dm_key m)) = sz"
      using m(1) by (simp add: delm_ok_def)
    have "carries (delm_image ?m @ snd (dm_key m)) (DelM ?m)"
      using del_carries [OF m(3) _ m(4)] m(2) by simp
    then show "carries (delm_image ?m @ snd (dm_key m)) msg"
      unfolding DelM by (rule carries_same) simp
  qed
next
  case (BdelM m)
  let ?m = "m\<lparr>bd_size := of_nat sz\<rparr>"
  from ok BdelM have m: "bdelm_ok m sz" "bd_mtype m = MDHIM_BULK_DEL" "bdelm_ok ?m sz" "bd_size ?m = of_nat sz"
    by (simp_all add: bdelm_ok_def)
  show ?thesis
  proof (rule packsI)
    show "pack_request mp ss msg = Some (packed_out (MDHIM_SUCCESS, Some (bdelm_image ?m @ keys_bytes (snd (bd_keys m)) (snd (bd_key_lens m))), of_nat sz, ?m))"
      unfolding BdelM pack_request_simps(6) [OF m(2)] packer.bdel_packs [OF pk m(1) mal] ..
    show "length (bdelm_image ?m @ keys_bytes (snd (bd_keys m)) (snd (bd_key_lens m))) = sz"
      using m(1) by (simp add: bdelm_ok_def length_keys_bytes)
    have "carries (bdelm_image ?m @ keys_bytes (snd (bd_keys m)) (snd (bd_key_lens m))) (BdelM ?m)"
      using bdel_carries [OF m(3) _ m(4)] m(2) by simp
    then show "carries (bdelm_image ?m @ keys_bytes (snd (bd_keys m)) (snd (bd_key_lens m))) msg"
      unfolding BdelM by (rule carries_same) simp
  qed
next
  case (BaseM m)
  with ok show ?thesis by simp
qed

text \<open>Responses whose length fields are right; their packed size follows from the answer.\<close>

fun wf_response :: "response \<Rightarrow> bool" where
  "wf_response (Rm m) \<longleftrightarrow> rm_mtype m = MDHIM_RECV"
| "wf_response (Getrm m) \<longleftrightarrow> gr_mtype m = MDHIM_RECV_GET \<and> gr_key_len m = len32 (snd (gr_key m)) \<and>
     gr_value_len m = len32 (snd (gr_value m))"
| "wf_response (Bgetrm m) \<longleftrightarrow> br_mtype m = MDHIM_RECV_BULK_GET \<and>
     snd (br_key_lens m) = map (len32 \<circ> snd) (snd (br_keys m)) \<and>
     snd (br_value_lens m) = map (len32 \<circ> snd) (snd (br_values m)) \<and>
     length (snd (br_values m)) = length (snd (br_keys m)) \<and>
     br_num_records m = of_nat (length (snd (br_keys m)))"

fun answer_size :: "answer \<Rightarrow> nat" where
  "answer_size (Done e) = 16"
| "answer_size (Value e k v) = 48 + length k + length v"
| "answer_size (Values e kvs) = 64 + 8 * length kvs + sum_list (map (\<lambda>(k, v). length k + length v) kvs)"

definition reply_fits :: "answer \<Rightarrow> bool" where
  "reply_fits a \<longleftrightarrow> answer_size a \<le> 2147483647"

definition carries_reply :: "byte list \<Rightarrow> response \<Rightarrow> bool" where
  "carries_reply buf r \<longleftrightarrow> header_ok buf (response_type r) \<and>
     (\<forall>pk up mal rc. packer pk up \<longrightarrow> malloc_ok mal \<longrightarrow>
        (\<exists>r'. unpack_response up mal (response_type r) rc buf (of_nat (length buf)) = Some (True, Some r') \<and>
           wf_response r' \<and> ans_of r' = ans_of r))"

lemma blobs_size_zip:
  "length vs = length ks \<Longrightarrow> sum_list (map (\<lambda>(k, v). length k + length v) (zip (map snd ks) (map snd vs))) =
     blobs_size ks + blobs_size vs"
proof (induction vs ks rule: list_induct2)
  case (Cons v vs k ks)
  then show ?case by (simp add: blobs_size_def)
qed (simp add: blobs_size_def)

lemma blob_le_size: "b \<in> set bs \<Longrightarrow> length (snd b) \<le> blobs_size bs"
  by (auto simp: in_set_conv_nth intro: blob_le_blobs_size)

lemma blobs_ok_lens:
  assumes "lens = map (len32 \<circ> snd) bs" and "num = of_nat (length bs)" and "length bs < 2147483648"
    and "blobs_size bs < 2147483648"
  shows "blobs_ok bs lens num"
proof -
  have "blob_ok b (len32 (snd b))" if "b \<in> set bs" for b
    using blob_le_size [OF that] assms(4) by (simp add: blob_ok_def len32_def)
  then show ?thesis using assms by (simp add: blobs_ok_def list_all2_map2 list_all2_same)
qed

lemma length_received_nz [simp]: "length (received_nz mal j bs) = length bs"
  by (simp add: received_nz_def)

lemma map_len32_cong: "map snd xs = map snd ys \<Longrightarrow> map (len32 \<circ> snd) xs = map (len32 \<circ> snd) ys"
  by (simp flip: map_map)

lemma getrm_carries:
  assumes "getrm_ok m sz" and "wf_response (Getrm m)" and "gr_size m = of_nat sz"
  shows "carries_reply (getrm_image m @ snd (gr_key m) @ snd (gr_value m)) (Getrm m)"
proof -
  have "sz = length (getrm_image m @ snd (gr_key m) @ snd (gr_value m))" "sz < 2147483648"
    using assms(1) by (simp_all add: getrm_ok_def)
  then show ?thesis
    using assms packer.getrm_unpacks [OF _ assms(1)]
    by (auto simp: carries_reply_def header_ok_def unpack_response_def message_types)
qed

lemma bgetrm_carries:
  assumes "bgetrm_ok m sz" and "wf_response (Bgetrm m)" and "br_size m = of_nat sz"
  shows "carries_reply (bgetrm_image m @ pairs_bytes (snd (br_keys m)) (snd (br_key_lens m)) (snd (br_values m))
    (snd (br_value_lens m))) (Bgetrm m)"
    (is "carries_reply ?buf _")
proof -
  have vs: "length (snd (br_values m)) = length (snd (br_keys m))" using assms(2) by simp
  have len: "sz = length ?buf" "sz < 2147483648" "12 \<le> sz"
    using assms(1) vs by (simp_all add: bgetrm_ok_def length_pairs_bytes)
  have "header_ok ?buf MDHIM_RECV_BULK_GET"
    using assms(2,3) len unfolding header_ok_def image_heads len(1) by simp
  moreover have "\<exists>r'. unpack_response up mal MDHIM_RECV_BULK_GET rc ?buf (of_nat sz) = Some (True, Some r') \<and>
      wf_response r' \<and> ans_of r' = ans_of (Bgetrm m)" if u: "packer pk up" "malloc_ok mal" for pk up mal rc
  proof -
    obtain r where r: "unpack_bgetrm_message up mal ?buf (of_nat sz) = Some r"
      "map snd (snd (br_keys r)) = map snd (snd (br_keys m))" "snd (br_key_lens r) = snd (br_key_lens m)"
      "map snd (snd (br_values r)) = map snd (snd (br_values m))" "snd (br_value_lens r) = snd (br_value_lens m)"
      "br_num_records r = br_num_records m" "br_mtype r = br_mtype m" "br_error r = br_error m"
      using packer.bgetrm_unpacks [OF u(1) assms(1) u(2)] by simp
    have "length (snd (br_keys r)) = length (snd (br_keys m))" "length (snd (br_values r)) = length (snd (br_values m))"
      using r(2,4) by (metis length_map)+
    with r assms(2) have "wf_response (Bgetrm r)" "ans_of (Bgetrm r) = ans_of (Bgetrm m)"
      using map_len32_cong [OF r(2)] map_len32_cong [OF r(4)] by simp_all
    moreover have "unpack_response up mal MDHIM_RECV_BULK_GET rc ?buf (of_nat sz) = Some (True, Some (Bgetrm r))"
      unfolding unpack_response_def Let_def r(1) by (simp add: message_types)
    ultimately show ?thesis by blast
  qed
  ultimately show ?thesis
    using assms(2) unfolding carries_reply_def len(1) by auto
qed

lemma carries_reply_same:
  "carries_reply buf r' \<Longrightarrow> response_type r' = response_type r \<Longrightarrow> ans_of r' = ans_of r \<Longrightarrow> carries_reply buf r"
  by (simp add: carries_reply_def)

lemma response_packsI:
  "pack_response mp r = Some (packed_out (MDHIM_SUCCESS, Some buf, of_nat sz, x)) \<Longrightarrow> length buf = sz \<Longrightarrow>
   carries_reply buf r \<Longrightarrow>
   \<exists>buf. pack_response mp r = Some (MDHIM_SUCCESS, Some buf, of_nat (length buf)) \<and> carries_reply buf r"
  by (auto simp: packed_out_def)

lemma pack_response_simps:
  "rm_mtype a = MDHIM_RECV \<Longrightarrow> pack_response mp (Rm a) =
     Some (packed_out (pack_return_message (mp_pack mp) (mp_malloc mp) a 0))"
  "gr_mtype b = MDHIM_RECV_GET \<Longrightarrow> pack_response mp (Getrm b) =
     Some (packed_out (pack_getrm_message (mp_pack mp) (mp_malloc mp) b 0))"
  "br_mtype c = MDHIM_RECV_BULK_GET \<Longrightarrow> pack_response mp (Bgetrm c) =
     Some (packed_out (pack_bgetrm_message (mp_pack mp) (mp_malloc mp) c 0))"
  by (simp_all add: pack_response_def message_types)

lemma response_packs:
  assumes pk: "packer (mp_pack mp) (mp_unpack mp)" and mal: "malloc_ok (mp_malloc mp)"
    and wf: "wf_response r" and fits: "reply_fits (ans_of r)"
  shows "\<exists>buf. pack_response mp r = Some (MDHIM_SUCCESS, Some buf, of_nat (length buf)) \<and> carries_reply buf r"
proof (cases r)
  case (Rm m)
  let ?m = "m\<lparr>rm_size := 16\<rparr>"
  have "carries_reply (rm_image ?m) (Rm m)"
    using wf Rm packer.return_unpacks [of _ _ _ ?m]
    by (auto simp: carries_reply_def header_ok_def unpack_response_def message_types)
  with wf Rm packer.return_packs [OF pk mal, of m 0] show ?thesis
    by (intro exI [of _ "rm_image ?m"]) (simp add: pack_response_def packed_out_def)
next
  case (Getrm m)
  define sz where "sz = answer_size (ans_of r)"
  let ?m = "m\<lparr>gr_size := of_nat sz\<rparr>" and ?b = "snd (gr_key m) @ snd (gr_value m)"
  from wf fits Getrm have m: "getrm_ok m sz" "gr_mtype m = MDHIM_RECV_GET" "getrm_ok ?m sz"
      "wf_response (Getrm ?m)" "gr_size ?m = of_nat sz"
    by (simp_all add: getrm_ok_def blob_ok_def len32_def reply_fits_def sz_def)
  show ?thesis
  proof (rule response_packsI)
    show "pack_response mp r = Some (packed_out (MDHIM_SUCCESS, Some (getrm_image ?m @ ?b), of_nat sz, ?m))"
      unfolding Getrm pack_response_simps(2) [OF m(2)] packer.getrm_packs [OF pk m(1) mal] ..
    show "length (getrm_image ?m @ ?b) = sz" using Getrm by (simp add: sz_def)
    have "carries_reply (getrm_image ?m @ ?b) (Getrm ?m)" using getrm_carries [OF m(3-5)] by simp
    then show "carries_reply (getrm_image ?m @ ?b) r" unfolding Getrm by (rule carries_reply_same) simp_all
  qed
next
  case (Bgetrm m)
  define sz where "sz = answer_size (ans_of r)"
  let ?ks = "snd (br_keys m)" and ?vs = "snd (br_values m)"
  let ?m = "m\<lparr>br_size := of_nat sz\<rparr>" and ?b = "pairs_bytes ?ks (snd (br_key_lens m)) ?vs (snd (br_value_lens m))"
  have vs: "length ?vs = length ?ks" using wf Bgetrm by simp
  have sz: "sz = 64 + 8 * length ?ks + (blobs_size ?ks + blobs_size ?vs)" "sz < 2147483648"
    using Bgetrm fits blobs_size_zip [OF vs] vs by (simp_all add: reply_fits_def sz_def)
  have "blobs_ok ?ks (snd (br_key_lens m)) (br_num_records m)" "blobs_ok ?vs (snd (br_value_lens m)) (br_num_records m)"
    using wf Bgetrm sz vs by (auto intro!: blobs_ok_lens)
  with sz have m: "bgetrm_ok m sz" "br_mtype m = MDHIM_RECV_BULK_GET" "bgetrm_ok ?m sz"
      "wf_response (Bgetrm ?m)" "br_size ?m = of_nat sz"
    using wf Bgetrm by (simp_all add: bgetrm_ok_def)
  show ?thesis
  proof (rule response_packsI)
    show "pack_response mp r = Some (packed_out (MDHIM_SUCCESS, Some (bgetrm_image ?m @ ?b), of_nat sz, ?m))"
      unfolding Bgetrm pack_response_simps(3) [OF m(2)] packer.bgetrm_packs [OF pk m(1) mal] ..
    show "length (bgetrm_image ?m @ ?b) = sz" using sz(1) by (simp add: length_pairs_bytes [OF vs])
    have "carries_reply (bgetrm_image ?m @ ?b) (Bgetrm ?m)" using bgetrm_carries [OF m(3-5)] by simp
    then show "carries_reply (bgetrm_image ?m @ ?b) r" unfolding Bgetrm by (rule carries_reply_same) simp_all
  qed
qed

section \<open>Channels\<close>

text \<open>What MPI promises.  \<open>chan n (p, q, t)\<close> are the messages from \<open>p\<close> to \<open>q\<close> with tag \<open>t\<close> that are
  on their way, the oldest first.  A receive from any source takes the oldest message of some
  source, and does not return while there is none.\<close>

locale mpi_channels =
  fixes mpi :: "i32 \<Rightarrow> 'n mpi" and chan :: "'n \<Rightarrow> i32 \<times> i32 \<times> i32 \<Rightarrow> byte list list"
  assumes packs: "packer (mp_pack (mpi p)) (mp_unpack (mpi p))"
    and mallocs: "malloc_ok (mp_malloc (mpi p))" "malloc_ok (mp_alloc (mpi p))"
    and sent: "\<exists>n'. mp_send (mpi p) d q t n = (MPI_SUCCESS, n') \<and> chan n' = (chan n)((p, q, t) := chan n (p, q, t) @ [d])"
    and isent: "\<exists>n'. mp_isend (mpi p) d q t n = (MPI_SUCCESS, n') \<and> chan n' = (chan n)((p, q, t) := chan n (p, q, t) @ [d])"
    and received: "chan n (q, p, t) = d # ds \<Longrightarrow>
      \<exists>n'. mp_recv (mpi p) (length d) q t n = Some (MPI_SUCCESS, d, n') \<and> chan n' = (chan n)((q, p, t) := ds)"
    and ireceived: "chan n (q, p, t) = d # ds \<Longrightarrow>
      \<exists>n'. mp_irecv (mpi p) (length d) (Some q) t n = Some (MPI_SUCCESS, q, d, n') \<and> chan n' = (chan n)((q, p, t) := ds)"
    and ireceived_any: "chan n (q0, p, t) \<noteq> [] \<Longrightarrow> (\<And>q d. d \<in> set (chan n (q, p, t)) \<Longrightarrow> length d = sz) \<Longrightarrow>
      \<exists>q d ds n'. chan n (q, p, t) = d # ds \<and> mp_irecv (mpi p) sz None t n = Some (MPI_SUCCESS, q, d, n') \<and>
        chan n' = (chan n)((q, p, t) := ds)"
    and waits: "(\<And>q. chan n (q, p, t) = []) \<Longrightarrow> mp_irecv (mpi p) sz None t n = None"

text \<open>The requests from \<open>p\<close> to \<open>q\<close> that are on their way, each with its size; likewise the responses.\<close>

definition size_msg :: "byte list \<Rightarrow> byte list" where
  "size_msg buf = enc32 (of_nat (length buf))"

definition requests_sent :: "(i32 \<times> i32 \<times> i32 \<Rightarrow> byte list list) \<Rightarrow> i32 \<Rightarrow> i32 \<Rightarrow> rs_message list \<Rightarrow> bool" where
  "requests_sent c p q ms \<longleftrightarrow>
     (\<exists>bufs. c (p, q, RANGESRV_WORK_SIZE_MSG) = map size_msg bufs \<and> c (p, q, RANGESRV_WORK_MSG) = bufs \<and>
        list_all2 carries bufs ms)"

definition responses_sent :: "(i32 \<times> i32 \<times> i32 \<Rightarrow> byte list list) \<Rightarrow> i32 \<Rightarrow> i32 \<Rightarrow> response list \<Rightarrow> bool" where
  "responses_sent c p q rs \<longleftrightarrow>
     (\<exists>bufs. c (p, q, CLIENT_RESPONSE_SIZE_MSG) = map size_msg bufs \<and> c (p, q, CLIENT_RESPONSE_MSG) = bufs \<and>
        list_all2 carries_reply bufs rs)"

text \<open>Adding at the end, taking at the front; nothing else changes.\<close>

definition chan_put where
  "chan_put c p q st mt buf = c((p, q, st) := c (p, q, st) @ [size_msg buf], (p, q, mt) := c (p, q, mt) @ [buf])"

definition chan_take where
  "chan_take c p q st mt = c((p, q, st) := tl (c (p, q, st)), (p, q, mt) := tl (c (p, q, mt)))"

definition chan_tl :: "(i32 \<times> i32 \<times> i32 \<Rightarrow> byte list list) \<Rightarrow> i32 list \<Rightarrow> i32 \<Rightarrow> i32 \<Rightarrow> i32 \<times> i32 \<times> i32 \<Rightarrow> byte list list" where
  "chan_tl c ps q t = (\<lambda>(a, b, u). if a \<in> set ps \<and> b = q \<and> u = t then tl (c (a, b, u)) else c (a, b, u))"

lemma chan_tl_Nil: "chan_tl c [] q t = c"
  by (simp add: chan_tl_def)

lemma chan_tl_Cons: "p \<notin> set ps \<Longrightarrow> chan_tl c (p # ps) q t = chan_tl (c((p, q, t) := tl (c (p, q, t)))) ps q t"
  by (auto simp: chan_tl_def)

fun somes :: "'a option list \<Rightarrow> 'a list" where
  "somes [] = []"
| "somes (None # xs) = somes xs"
| "somes (Some x # xs) = x # somes xs"

definition bulk_type :: "rs_message \<Rightarrow> bool" where
  "bulk_type m \<longleftrightarrow> message_type m = MDHIM_BULK_PUT \<or> message_type m = MDHIM_BULK_GET \<or> message_type m = MDHIM_BULK_DEL"

lemma length_size_msg [simp]: "length (size_msg buf) = 4" by (simp add: size_msg_def)

lemma of_nat_nonzero: "0 < n \<Longrightarrow> n < 2147483648 \<Longrightarrow> (of_nat n :: i32) \<noteq> 0"
  by (auto simp: word_of_nat_eq_0_iff dest: nat_dvd_not_less [rotated])

lemma take_csize: "length buf < 2147483648 \<Longrightarrow> take (csize (of_nat (length buf))) buf = buf"
  by (simp add: csize_of_nat)

context mpi_channels
begin

lemma alloc: "n < 2147483648 \<Longrightarrow> \<exists>a bs. mp_alloc (mpi p) k n = Some (a, bs) \<and> length bs = n"
  using mallocs(2) [of p] unfolding malloc_ok_def by simp

lemma header_read:
  assumes "header_ok buf t" and "length old = 12"
  shows "\<exists>bm pos. mp_unpack (mpi p) buf (of_nat (length buf)) 0 12 MPI_CHAR old = (MPI_SUCCESS, bm, pos) \<and>
    w32 bm 0 = t \<and> w32 bm 8 = of_nat (length buf)"
proof -
  have "mp_unpack (mpi p) buf (of_nat (length buf)) (of_nat 0) (of_nat 12) MPI_CHAR old =
      (MPI_SUCCESS, take (12 * elem_size MPI_CHAR) (drop 0 buf), of_nat (0 + 12 * elem_size MPI_CHAR))"
    using assms by (intro packer.up_fits [OF packs]) (simp_all add: header_ok_def)
  moreover have "w32 (take 12 buf) 0 = w32 buf 0" "w32 (take 12 buf) 8 = w32 buf 8"
    by (simp_all add: w32_def drop_take)
  ultimately show ?thesis
    using assms(1) unfolding header_ok_def by simp
qed

lemma send_request:
  assumes "sendable msg sz"
  shows "\<exists>buf n'. send_rangesrv_work (mpi p) q msg n = Some (MDHIM_SUCCESS, n') \<and> carries buf msg \<and>
    chan n' = chan_put (chan n) p q RANGESRV_WORK_SIZE_MSG RANGESRV_WORK_MSG buf"
proof -
  obtain buf where buf: "pack_request (mpi p) 0 msg = Some (MDHIM_SUCCESS, Some buf, of_nat sz)" "length buf = sz"
    "carries buf msg"
    using request_packs [OF packs mallocs(1) assms] by blast
  obtain n1 where n1: "mp_send (mpi p) (size_msg buf) q RANGESRV_WORK_SIZE_MSG n = (MPI_SUCCESS, n1)"
    "chan n1 = (chan n)((p, q, RANGESRV_WORK_SIZE_MSG) := chan n (p, q, RANGESRV_WORK_SIZE_MSG) @ [size_msg buf])"
    using sent by blast
  obtain n2 where n2: "mp_send (mpi p) buf q RANGESRV_WORK_MSG n1 = (MPI_SUCCESS, n2)"
    "chan n2 = (chan n1)((p, q, RANGESRV_WORK_MSG) := chan n1 (p, q, RANGESRV_WORK_MSG) @ [buf])"
    using sent by blast
  have "take (csize (of_nat sz)) buf = buf" using buf(2,3) take_csize carries_len by blast
  then show ?thesis
    using buf n1 n2
    by (intro exI [of _ buf] exI [of _ n2]) (simp add: send_rangesrv_work_def size_msg_def chan_put_def tags)
qed

lemma receive_request:
  assumes "R p0 \<noteq> []" and all: "\<And>p. requests_sent (chan n) p q (R p)"
  shows "\<exists>p msg msg' ms n'. R p = msg # ms \<and> same_request msg msg' \<and>
    receive_rangesrv_work (mpi q) n = Some (MDHIM_SUCCESS, p, Some msg', n') \<and>
    chan n' = chan_take (chan n) p q RANGESRV_WORK_SIZE_MSG RANGESRV_WORK_MSG"
proof -
  have "length d = 4" if "d \<in> set (chan n (p, q, RANGESRV_WORK_SIZE_MSG))" for p d
    using all [of p] that by (auto simp: requests_sent_def)
  moreover have "chan n (p0, q, RANGESRV_WORK_SIZE_MSG) \<noteq> []"
    using assms(1) all [of p0] by (auto simp: requests_sent_def)
  ultimately obtain p d ds n1 where d: "chan n (p, q, RANGESRV_WORK_SIZE_MSG) = d # ds"
    "mp_irecv (mpi q) 4 None RANGESRV_WORK_SIZE_MSG n = Some (MPI_SUCCESS, p, d, n1)"
    "chan n1 = (chan n)((p, q, RANGESRV_WORK_SIZE_MSG) := ds)"
    using ireceived_any [of n p0 q RANGESRV_WORK_SIZE_MSG 4] by blast
  obtain buf bufs msg ms where buf: "d = size_msg buf" "ds = map size_msg bufs"
    "chan n (p, q, RANGESRV_WORK_MSG) = buf # bufs" "carries buf msg" "R p = msg # ms"
    using d(1) all [of p] by (auto simp: requests_sent_def list_all2_Cons1 Cons_eq_map_conv)
  have len: "length buf < 2147483648" "12 \<le> length buf" using carries_len [OF buf(4)] by simp_all
  have "chan n1 (p, q, RANGESRV_WORK_MSG) = buf # bufs" using d(3) buf(3) by (simp add: tags)
  from ireceived [OF this] obtain n2 where n2:
    "mp_irecv (mpi q) (length buf) (Some p) RANGESRV_WORK_MSG n1 = Some (MPI_SUCCESS, p, buf, n2)"
    "chan n2 = (chan n1)((p, q, RANGESRV_WORK_MSG) := bufs)" by blast
  obtain a0 b0 where a0: "mp_alloc (mpi q) 0 (length buf) = Some (a0, b0)"
    using alloc len(1) by blast
  obtain a1 b1 where a1: "mp_alloc (mpi q) (Suc 0) 12 = Some (a1, b1)" "length b1 = 12"
    using alloc [of 12 q "Suc 0"] by auto
  obtain bm pos where bm: "mp_unpack (mpi q) buf (of_nat (length buf)) 0 12 MPI_CHAR b1 = (MPI_SUCCESS, bm, pos)"
    "w32 bm 0 = message_type msg" "w32 bm 8 = of_nat (length buf)"
    using header_read [OF _ a1(2)] buf(4) unfolding carries_def by blast
  obtain msg' where msg': "unpack_request (mp_unpack (mpi q)) (mp_malloc (mpi q)) (message_type msg) MPI_SUCCESS buf
      (of_nat (length buf)) = (True, Some msg')" "same_request msg msg'"
    using buf(4) packs mallocs(1) unfolding carries_def by blast
  have t: "\<not> message_type msg <s MDHIM_PUT" "\<not> MDHIM_COMMIT <s message_type msg" "message_type msg \<noteq> MDHIM_COMMIT"
      "message_type msg \<noteq> MDHIM_CLOSE"
    using buf(4) by (auto simp: carries_def message_types word_sless_alt)
  have "(of_nat (length buf) :: i32) \<noteq> 0" using len by (intro of_nat_nonzero) auto
  then have "receive_rangesrv_work (mpi q) n = Some (MDHIM_SUCCESS, p, Some msg', n2)"
    unfolding receive_rangesrv_work_def d(2)
    using t by (simp add: buf(1) size_msg_def csize_of_nat [OF len(1)] n2(1) a0 a1(1) bm msg'(1))
  moreover have "chan n2 = chan_take (chan n) p q RANGESRV_WORK_SIZE_MSG RANGESRV_WORK_MSG"
    unfolding n2(2) d(3) chan_take_def by (simp add: d(1) buf(3))
  ultimately show ?thesis using buf(5) msg'(2) by blast
qed

lemma no_request:
  assumes "\<And>p. requests_sent (chan n) p q []"
  shows "receive_rangesrv_work (mpi q) n = None"
  using assms by (simp add: receive_rangesrv_work_def requests_sent_def waits)

lemma send_response:
  assumes "wf_response r" and "reply_fits (ans_of r)"
  shows "\<exists>buf n'. send_client_response (mpi p) q r n = Some (MDHIM_SUCCESS, n') \<and> carries_reply buf r \<and>
    chan n' = chan_put (chan n) p q CLIENT_RESPONSE_SIZE_MSG CLIENT_RESPONSE_MSG buf"
proof -
  obtain buf where buf: "pack_response (mpi p) r = Some (MDHIM_SUCCESS, Some buf, of_nat (length buf))"
    "carries_reply buf r"
    using response_packs [OF packs mallocs(1) assms] by blast
  then have len: "length buf < 2147483648" "12 \<le> length buf" by (simp_all add: carries_reply_def header_ok_def)
  obtain n1 where n1: "mp_send (mpi p) (size_msg buf) q CLIENT_RESPONSE_SIZE_MSG n = (MPI_SUCCESS, n1)"
    "chan n1 = (chan n)((p, q, CLIENT_RESPONSE_SIZE_MSG) := chan n (p, q, CLIENT_RESPONSE_SIZE_MSG) @ [size_msg buf])"
    using sent by blast
  obtain n2 where n2: "mp_send (mpi p) buf q CLIENT_RESPONSE_MSG n1 = (MPI_SUCCESS, n2)"
    "chan n2 = (chan n1)((p, q, CLIENT_RESPONSE_MSG) := chan n1 (p, q, CLIENT_RESPONSE_MSG) @ [buf])"
    using sent by blast
  have "(of_nat (length buf) :: i32) \<noteq> 0" using len by (intro of_nat_nonzero) auto
  then show ?thesis
    using buf n1 n2 take_csize [OF len(1)]
    by (intro exI [of _ buf] exI [of _ n2]) (simp add: send_client_response_def size_msg_def chan_put_def tags)
qed

lemma open_run:
  assumes "carries_reply buf r"
  shows "\<exists>r'. open_response (mpi p) buf (of_nat (length buf)) = Some (True, Some r') \<and> wf_response r' \<and>
    ans_of r' = ans_of r"
proof -
  obtain a1 b1 where a1: "mp_alloc (mpi p) (Suc 0) 12 = Some (a1, b1)" "length b1 = 12"
    using alloc [of 12 p "Suc 0"] by auto
  obtain bm pos where bm: "mp_unpack (mpi p) buf (of_nat (length buf)) 0 12 MPI_CHAR b1 = (MPI_SUCCESS, bm, pos)"
    "w32 bm 0 = response_type r" "w32 bm 8 = of_nat (length buf)"
    using header_read [OF _ a1(2)] assms unfolding carries_reply_def by blast
  obtain r' where "unpack_response (mp_unpack (mpi p)) (mp_malloc (mpi p)) (response_type r) MPI_SUCCESS buf
      (of_nat (length buf)) = Some (True, Some r')" "wf_response r'" "ans_of r' = ans_of r"
    using assms packs mallocs(1) unfolding carries_reply_def by blast
  then show ?thesis by (simp add: open_response_def a1(1) bm)
qed

lemma receive_response:
  assumes "responses_sent (chan n) p q (r # rs)"
  shows "\<exists>r' n'. receive_client_response (mpi q) p n = Some (MDHIM_SUCCESS, Some r', n') \<and> wf_response r' \<and>
    ans_of r' = ans_of r \<and> chan n' = chan_take (chan n) p q CLIENT_RESPONSE_SIZE_MSG CLIENT_RESPONSE_MSG"
proof -
  from assms obtain buf bufs where buf: "chan n (p, q, CLIENT_RESPONSE_SIZE_MSG) = size_msg buf # map size_msg bufs"
    "chan n (p, q, CLIENT_RESPONSE_MSG) = buf # bufs" "carries_reply buf r"
    by (auto simp: responses_sent_def list_all2_Cons2)
  have len: "length buf < 2147483648" using buf(3) by (simp add: carries_reply_def header_ok_def)
  from received [OF buf(1)] obtain n1 where n1:
    "mp_recv (mpi q) 4 p CLIENT_RESPONSE_SIZE_MSG n = Some (MPI_SUCCESS, size_msg buf, n1)"
    "chan n1 = (chan n)((p, q, CLIENT_RESPONSE_SIZE_MSG) := map size_msg bufs)" by auto
  have "chan n1 (p, q, CLIENT_RESPONSE_MSG) = buf # bufs" using n1(2) buf(2) by (simp add: tags)
  from received [OF this] obtain n2 where n2:
    "mp_recv (mpi q) (length buf) p CLIENT_RESPONSE_MSG n1 = Some (MPI_SUCCESS, buf, n2)"
    "chan n2 = (chan n1)((p, q, CLIENT_RESPONSE_MSG) := bufs)" by blast
  obtain a0 b0 where a0: "mp_alloc (mpi q) 0 (length buf) = Some (a0, b0)" using alloc len by blast
  obtain r' where r': "open_response (mpi q) buf (of_nat (length buf)) = Some (True, Some r')" "wf_response r'"
    "ans_of r' = ans_of r"
    using open_run [OF buf(3)] by blast
  have "receive_client_response (mpi q) p n = Some (MDHIM_SUCCESS, Some r', n2)"
    unfolding receive_client_response_def n1(1)
    by (simp add: size_msg_def csize_of_nat [OF len] a0 n2(1) r'(1))
  moreover have "chan n2 = chan_take (chan n) p q CLIENT_RESPONSE_SIZE_MSG CLIENT_RESPONSE_MSG"
    unfolding n2(2) n1(2) chan_take_def by (simp add: buf(1,2))
  ultimately show ?thesis using r'(2,3) by blast
qed

lemma receive_sizes_run:
  assumes "distinct srcs"
    and "\<And>p. p \<in> set srcs \<Longrightarrow> hd (chan n (p, q, CLIENT_RESPONSE_SIZE_MSG)) = size_msg (b p) \<and>
      chan n (p, q, CLIENT_RESPONSE_SIZE_MSG) \<noteq> []"
  shows "\<exists>n'. receive_sizes (mpi q) srcs n = Some (True, map (\<lambda>p. of_nat (length (b p))) srcs, n') \<and>
    chan n' = chan_tl (chan n) srcs q CLIENT_RESPONSE_SIZE_MSG"
  using assms
proof (induction srcs arbitrary: n)
  case Nil
  then show ?case by (simp add: chan_tl_Nil)
next
  case (Cons p srcs)
  let ?t = CLIENT_RESPONSE_SIZE_MSG
  have "chan n (p, q, ?t) = size_msg (b p) # tl (chan n (p, q, ?t))"
    using Cons.prems(2) [of p] by (metis list.set_intros(1) list.exhaust_sel)
  from ireceived [OF this] obtain n1 where n1:
    "mp_irecv (mpi q) 4 (Some p) ?t n = Some (MPI_SUCCESS, p, size_msg (b p), n1)"
    "chan n1 = (chan n)((p, q, ?t) := tl (chan n (p, q, ?t)))" by auto
  have "\<And>p'. p' \<in> set srcs \<Longrightarrow> hd (chan n1 (p', q, ?t)) = size_msg (b p') \<and> chan n1 (p', q, ?t) \<noteq> []"
    using Cons.prems n1(2) by auto
  from Cons.IH [OF _ this] Cons.prems(1) obtain n2 where n2:
    "receive_sizes (mpi q) srcs n1 = Some (True, map (\<lambda>p. of_nat (length (b p))) srcs, n2)"
    "chan n2 = chan_tl (chan n1) srcs q ?t" by auto
  then show ?case
    using n1 Cons.prems(1) by (simp add: size_msg_def chan_tl_Cons)
qed

lemma receive_bufs_run:
  assumes "distinct srcs" and "\<And>p. p \<in> set srcs \<Longrightarrow> length (b p) < 2147483648"
    and "\<And>p. p \<in> set srcs \<Longrightarrow> hd (chan n (p, q, CLIENT_RESPONSE_MSG)) = b p \<and> chan n (p, q, CLIENT_RESPONSE_MSG) \<noteq> []"
  shows "\<exists>n'. receive_bufs (mpi q) (zip srcs (map (\<lambda>p. of_nat (length (b p))) srcs)) n = Some (True, map b srcs, n') \<and>
    chan n' = chan_tl (chan n) srcs q CLIENT_RESPONSE_MSG"
  using assms
proof (induction srcs arbitrary: n)
  case Nil
  then show ?case by (simp add: chan_tl_Nil)
next
  case (Cons p srcs)
  let ?t = CLIENT_RESPONSE_MSG
  have "chan n (p, q, ?t) = b p # tl (chan n (p, q, ?t))"
    using Cons.prems(3) [of p] by (metis list.set_intros(1) list.exhaust_sel)
  from ireceived [OF this] obtain n1 where n1:
    "mp_irecv (mpi q) (length (b p)) (Some p) ?t n = Some (MPI_SUCCESS, p, b p, n1)"
    "chan n1 = (chan n)((p, q, ?t) := tl (chan n (p, q, ?t)))" by auto
  have "\<And>p'. p' \<in> set srcs \<Longrightarrow> hd (chan n1 (p', q, ?t)) = b p' \<and> chan n1 (p', q, ?t) \<noteq> []"
    using Cons.prems n1(2) by auto
  from Cons.IH [OF _ _ this] Cons.prems(1,2) obtain n2 where n2:
    "receive_bufs (mpi q) (zip srcs (map (\<lambda>p. of_nat (length (b p))) srcs)) n1 = Some (True, map b srcs, n2)"
    "chan n2 = chan_tl (chan n1) srcs q ?t" by auto
  have len: "length (b p) < 2147483648" using Cons.prems(2) by simp
  obtain a0 b0 where "mp_alloc (mpi q) 0 (length (b p)) = Some (a0, b0)" using alloc len by blast
  then show ?case
    using n1 n2 Cons.prems(1) by (simp add: csize_of_nat [OF len] chan_tl_Cons)
qed

lemma open_responses_run:
  assumes "\<And>p. p \<in> set srcs \<Longrightarrow> carries_reply (b p) (r p)"
  shows "\<exists>rs. open_responses (mpi q) (zip (map b srcs) (map (\<lambda>p. of_nat (length (b p))) srcs)) =
      Some (True, map Some rs) \<and> list_all2 (\<lambda>p r'. wf_response r' \<and> ans_of r' = ans_of (r p)) srcs rs"
  using assms
proof (induction srcs)
  case (Cons p srcs)
  then obtain rs where rs: "open_responses (mpi q) (zip (map b srcs) (map (\<lambda>p. of_nat (length (b p))) srcs)) =
      Some (True, map Some rs)" "list_all2 (\<lambda>p r'. wf_response r' \<and> ans_of r' = ans_of (r p)) srcs rs" by auto
  obtain r' where r': "open_response (mpi q) (b p) (of_nat (length (b p))) = Some (True, Some r')" "wf_response r'"
    "ans_of r' = ans_of (r p)"
    using open_run [of "b p" "r p" q] Cons.prems [of p] by auto
  with rs show ?case by (intro exI [of _ "r' # rs"]) simp
qed simp

lemma send_all_run:
  assumes "\<And>m. Some m \<in> set ms \<Longrightarrow> bulk_type m \<and> (\<exists>sz. sendable m sz)"
  shows "\<exists>bufs n'. send_all_loop (mpi p) ms vars ret n = Some (ret, n') \<and> list_all2 carries bufs (somes ms) \<and>
    chan n' = fold (\<lambda>(m, buf) c. chan_put c p (message_server_rank m) RANGESRV_WORK_SIZE_MSG RANGESRV_WORK_MSG buf)
      (zip (somes ms) bufs) (chan n)"
  using assms
proof (induction ms arbitrary: vars n)
  case Nil
  then show ?case by simp
next
  case (Cons x ms)
  show ?case
  proof (cases x)
    case None
    with Cons.IH [of vars n] Cons.prems show ?thesis by auto
  next
    case (Some m)
    let ?q = "message_server_rank m"
    obtain sz where m: "bulk_type m" "sendable m sz" using Cons.prems [of m] Some by auto
    obtain buf where buf: "pack_request (mpi p) (snd (snd vars)) m = Some (MDHIM_SUCCESS, Some buf, of_nat sz)"
      "length buf = sz" "carries buf m"
      using request_packs [OF packs mallocs(1) m(2)] by blast
    obtain n1 where n1: "mp_isend (mpi p) (size_msg buf) ?q RANGESRV_WORK_SIZE_MSG n = (MPI_SUCCESS, n1)"
      "chan n1 = (chan n)((p, ?q, RANGESRV_WORK_SIZE_MSG) := chan n (p, ?q, RANGESRV_WORK_SIZE_MSG) @ [size_msg buf])"
      using isent by blast
    obtain n2 where n2: "mp_isend (mpi p) buf ?q RANGESRV_WORK_MSG n1 = (MPI_SUCCESS, n2)"
      "chan n2 = (chan n1)((p, ?q, RANGESRV_WORK_MSG) := chan n1 (p, ?q, RANGESRV_WORK_MSG) @ [buf])"
      using isent by blast
    have c: "chan n2 = chan_put (chan n) p ?q RANGESRV_WORK_SIZE_MSG RANGESRV_WORK_MSG buf"
      using n1(2) n2(2) by (simp add: chan_put_def tags)
    have whole: "take (csize (of_nat sz)) buf = buf" using buf(2,3) take_csize carries_len by blast
    obtain bufs n3 where n3: "send_all_loop (mpi p) ms (sint MPI_SUCCESS, Some buf, of_nat sz) ret n2 = Some (ret, n3)"
      "list_all2 carries bufs (somes ms)"
      "chan n3 = fold (\<lambda>(m, buf) c. chan_put c p (message_server_rank m) RANGESRV_WORK_SIZE_MSG RANGESRV_WORK_MSG buf)
        (zip (somes ms) bufs) (chan n2)"
      using Cons.IH Cons.prems by (metis list.set_intros(2))
    have "pack_bulk (mpi p) m vars = Some (MDHIM_SUCCESS, Some buf, of_nat sz)"
      using m(1) buf(1) by (simp add: pack_bulk_def bulk_type_def)
    then have "send_all_loop (mpi p) (Some m # ms) vars ret n = Some (ret, n3)"
      using n1(1) n2(1) n3(1) buf(2) whole by (simp add: size_msg_def)
    then show ?thesis
      using n3(2,3) buf(3) c Some by (intro exI [of _ "buf # bufs"] exI [of _ n3]) simp
  qed
qed

end

end
