(* ===== verification/Network.thy ===== *)
theory Network
  imports Transport
begin

text \<open>
  Requests and responses on the network, one level above bytes: which requests and responses are on
  their way between which processes.  The functions of \<^verbatim>\<open>Transport\<close> add and take one of them; sending and then
  receiving gives the request, or a response with the same answer.  A reference network, a list of
  the messages on their way, satisfies the contract of the channels.
\<close>

section \<open>Messages on their way\<close>

type_synonym 'm transit = "i32 \<times> i32 \<Rightarrow> 'm list"

definition in_flight ::
  "(i32 \<times> i32 \<times> i32 \<Rightarrow> byte list list) \<Rightarrow> rs_message transit \<Rightarrow> response transit \<Rightarrow> bool" where
  "in_flight c R S \<longleftrightarrow> (\<forall>p q. requests_sent c p q (R (p, q)) \<and> responses_sent c p q (S (p, q)))"

lemma in_flightD: "in_flight c R S \<Longrightarrow> requests_sent c p q (R (p, q)) \<and> responses_sent c p q (S (p, q))"
  by (simp add: in_flight_def)

lemma requests_sent_cong:
  "c (p, q, RANGESRV_WORK_SIZE_MSG) = c' (p, q, RANGESRV_WORK_SIZE_MSG) \<Longrightarrow>
   c (p, q, RANGESRV_WORK_MSG) = c' (p, q, RANGESRV_WORK_MSG) \<Longrightarrow> requests_sent c p q ms = requests_sent c' p q ms"
  by (simp add: requests_sent_def)

lemma responses_sent_cong:
  "c (p, q, CLIENT_RESPONSE_SIZE_MSG) = c' (p, q, CLIENT_RESPONSE_SIZE_MSG) \<Longrightarrow>
   c (p, q, CLIENT_RESPONSE_MSG) = c' (p, q, CLIENT_RESPONSE_MSG) \<Longrightarrow> responses_sent c p q ms = responses_sent c' p q ms"
  by (simp add: responses_sent_def)

lemma request_added:
  assumes "in_flight c R S" and "carries buf m"
  shows "in_flight (chan_put c p q RANGESRV_WORK_SIZE_MSG RANGESRV_WORK_MSG buf) (R((p, q) := R (p, q) @ [m])) S"
proof -
  let ?c = "chan_put c p q RANGESRV_WORK_SIZE_MSG RANGESRV_WORK_MSG buf"
  have "requests_sent ?c p' q' ((R((p, q) := R (p, q) @ [m])) (p', q'))" for p' q'
  proof (cases "(p', q') = (p, q)")
    case True
    with assms in_flightD [OF assms(1), of p q] show ?thesis
      by (auto simp: requests_sent_def chan_put_def tags list_all2_appendI intro!: exI [of _ "c (p, q, 1) @ [buf]"])
  next
    case False
    then have "requests_sent ?c p' q' (R (p', q')) = requests_sent c p' q' (R (p', q'))"
      by (intro requests_sent_cong) (auto simp: chan_put_def tags)
    with False in_flightD [OF assms(1), of p' q'] show ?thesis by auto
  qed
  moreover have "responses_sent ?c p' q' (S (p', q')) = responses_sent c p' q' (S (p', q'))" for p' q'
    by (intro responses_sent_cong) (auto simp: chan_put_def tags)
  ultimately show ?thesis using in_flightD [OF assms(1)] unfolding in_flight_def by blast
qed

lemma request_taken:
  assumes "in_flight c R S" and "R (p, q) = m # ms"
  shows "in_flight (chan_take c p q RANGESRV_WORK_SIZE_MSG RANGESRV_WORK_MSG) (R((p, q) := ms)) S"
proof -
  let ?c = "chan_take c p q RANGESRV_WORK_SIZE_MSG RANGESRV_WORK_MSG"
  have "requests_sent ?c p' q' ((R((p, q) := ms)) (p', q'))" for p' q'
  proof (cases "(p', q') = (p, q)")
    case True
    with assms(2) in_flightD [OF assms(1), of p q] show ?thesis
      by (auto simp: requests_sent_def chan_take_def tags list_all2_Cons2)
  next
    case False
    then have "requests_sent ?c p' q' (R (p', q')) = requests_sent c p' q' (R (p', q'))"
      by (intro requests_sent_cong) (auto simp: chan_take_def tags)
    with False in_flightD [OF assms(1), of p' q'] show ?thesis by auto
  qed
  moreover have "responses_sent ?c p' q' (S (p', q')) = responses_sent c p' q' (S (p', q'))" for p' q'
    by (intro responses_sent_cong) (auto simp: chan_take_def tags)
  ultimately show ?thesis using in_flightD [OF assms(1)] unfolding in_flight_def by blast
qed

lemma response_added:
  assumes "in_flight c R S" and "carries_reply buf r"
  shows "in_flight (chan_put c p q CLIENT_RESPONSE_SIZE_MSG CLIENT_RESPONSE_MSG buf) R (S((p, q) := S (p, q) @ [r]))"
proof -
  let ?c = "chan_put c p q CLIENT_RESPONSE_SIZE_MSG CLIENT_RESPONSE_MSG buf"
  have "responses_sent ?c p' q' ((S((p, q) := S (p, q) @ [r])) (p', q'))" for p' q'
  proof (cases "(p', q') = (p, q)")
    case True
    with assms in_flightD [OF assms(1), of p q] show ?thesis
      by (auto simp: responses_sent_def chan_put_def tags list_all2_appendI intro!: exI [of _ "c (p, q, 4) @ [buf]"])
  next
    case False
    then have "responses_sent ?c p' q' (S (p', q')) = responses_sent c p' q' (S (p', q'))"
      by (intro responses_sent_cong) (auto simp: chan_put_def tags)
    with False in_flightD [OF assms(1), of p' q'] show ?thesis by auto
  qed
  moreover have "requests_sent ?c p' q' (R (p', q')) = requests_sent c p' q' (R (p', q'))" for p' q'
    by (intro requests_sent_cong) (auto simp: chan_put_def tags)
  ultimately show ?thesis using in_flightD [OF assms(1)] unfolding in_flight_def by blast
qed

text \<open>Taking the first response of each of several senders.\<close>

definition take_responses :: "response transit \<Rightarrow> i32 list \<Rightarrow> i32 \<Rightarrow> response transit" where
  "take_responses S ps q = (\<lambda>(a, b). if a \<in> set ps \<and> b = q then tl (S (a, b)) else S (a, b))"

lemma responses_taken:
  assumes "in_flight c R S" and "\<And>p. p \<in> set ps \<Longrightarrow> S (p, q) \<noteq> []"
    and c': "c' = chan_tl (chan_tl c ps q CLIENT_RESPONSE_SIZE_MSG) ps q CLIENT_RESPONSE_MSG"
  shows "in_flight c' R (take_responses S ps q)"
proof -
  have "responses_sent c' p' q' (take_responses S ps q (p', q'))" for p' q'
  proof (cases "p' \<in> set ps \<and> q' = q")
    case True
    then obtain r rs where "S (p', q) = r # rs" using assms(2) by (meson list.exhaust)
    with True in_flightD [OF assms(1), of p' q] show ?thesis
      by (auto simp: responses_sent_def c' chan_tl_def take_responses_def tags list_all2_Cons2)
  next
    case False
    then have "responses_sent c' p' q' (S (p', q')) = responses_sent c p' q' (S (p', q'))"
      by (intro responses_sent_cong) (auto simp: c' chan_tl_def tags)
    with False in_flightD [OF assms(1), of p' q'] show ?thesis by (auto simp: take_responses_def)
  qed
  moreover have "requests_sent c' p' q' (R (p', q')) = requests_sent c p' q' (R (p', q'))" for p' q'
    by (intro requests_sent_cong) (auto simp: c' chan_tl_def tags)
  ultimately show ?thesis using in_flightD [OF assms(1)] unfolding in_flight_def by blast
qed

lemma chan_take_tl: "chan_take c p q st mt = chan_tl (chan_tl c [p] q st) [p] q mt" if "st \<noteq> mt"
  using that by (auto simp: chan_take_def chan_tl_def)

text \<open>Requests to several servers.\<close>

definition add_requests :: "rs_message transit \<Rightarrow> i32 \<Rightarrow> rs_message list \<Rightarrow> rs_message transit" where
  "add_requests R p ms = fold (\<lambda>m R. R((p, message_server_rank m) := R (p, message_server_rank m) @ [m])) ms R"

lemma requests_added:
  assumes "in_flight c R S" and "list_all2 carries bufs ms"
  shows "in_flight (fold (\<lambda>(m, buf) c. chan_put c p (message_server_rank m) RANGESRV_WORK_SIZE_MSG RANGESRV_WORK_MSG buf)
      (zip ms bufs) c) (add_requests R p ms) S"
  using assms(2,1)
proof (induction bufs ms arbitrary: c R rule: list_all2_induct)
  case (Cons buf bufs m ms)
  from Cons.IH [OF request_added [OF Cons.prems Cons.hyps(1), of p "message_server_rank m"]]
  show ?case by (simp add: add_requests_def del: fun_upd_apply)
qed (simp add: add_requests_def)

section \<open>The functions on messages\<close>

context mpi_channels
begin

abbreviation flying :: "'n \<Rightarrow> rs_message transit \<Rightarrow> response transit \<Rightarrow> bool" where
  "flying n R S \<equiv> in_flight (chan n) R S"

lemma request_sent:
  assumes "flying n R S" and "sendable m sz"
  shows "\<exists>n'. send_rangesrv_work (mpi p) q m n = Some (MDHIM_SUCCESS, n') \<and> flying n' (R((p, q) := R (p, q) @ [m])) S"
  using send_request [OF assms(2), of p q n] request_added [OF assms(1)] by metis

lemma requests_sent_all:
  assumes "flying n R S" and "\<And>m. Some m \<in> set ms \<Longrightarrow> bulk_type m \<and> (\<exists>sz. sendable m sz)"
  shows "\<exists>n'. send_all_rangesrv_work (mpi p) ms n = Some (MDHIM_SUCCESS, n') \<and> flying n' (add_requests R p (somes ms)) S"
proof -
  obtain bufs n' where "send_all_rangesrv_work (mpi p) ms n = Some (MDHIM_SUCCESS, n')"
    "list_all2 carries bufs (somes ms)"
    "chan n' = fold (\<lambda>(m, buf) c. chan_put c p (message_server_rank m) RANGESRV_WORK_SIZE_MSG RANGESRV_WORK_MSG buf)
      (zip (somes ms) bufs) (chan n)"
    using send_all_run [OF assms(2)] unfolding send_all_rangesrv_work_def by blast
  with requests_added [OF assms(1)] show ?thesis by metis
qed

lemma request_received:
  assumes "flying n R S" and "R (p0, q) \<noteq> []"
  shows "\<exists>p msg msg' ms n'. R (p, q) = msg # ms \<and> same_request msg msg' \<and>
    receive_rangesrv_work (mpi q) n = Some (MDHIM_SUCCESS, p, Some msg', n') \<and> flying n' (R((p, q) := ms)) S"
proof -
  have "requests_sent (chan n) p q (R (p, q))" for p using in_flightD [OF assms(1)] by blast
  from receive_request [of "\<lambda>p. R (p, q)", OF assms(2) this] request_taken [OF assms(1)] show ?thesis by metis
qed

lemma no_request_waits:
  assumes "flying n R S" and "\<And>p. R (p, q) = []"
  shows "receive_rangesrv_work (mpi q) n = None"
  using in_flightD [OF assms(1)] assms(2) no_request by metis

lemma response_sent:
  assumes "flying n R S" and "wf_response r" and "reply_fits (ans_of r)"
  shows "\<exists>n'. send_client_response (mpi p) q r n = Some (MDHIM_SUCCESS, n') \<and> flying n' R (S((p, q) := S (p, q) @ [r]))"
  using send_response [OF assms(2,3), of p q n] response_added [OF assms(1)] by metis

lemma response_received:
  assumes "flying n R S" and "S (p, q) = r # rs"
  shows "\<exists>r' n'. receive_client_response (mpi q) p n = Some (MDHIM_SUCCESS, Some r', n') \<and> wf_response r' \<and>
    ans_of r' = ans_of r \<and> flying n' R (take_responses S [p] q)"
proof -
  have "responses_sent (chan n) p q (r # rs)" using in_flightD [OF assms(1), of p q] assms(2) by simp
  from receive_response [OF this] obtain r' n' where r': "wf_response r'" "ans_of r' = ans_of r"
    "receive_client_response (mpi q) p n = Some (MDHIM_SUCCESS, Some r', n')"
    "chan n' = chan_take (chan n) p q CLIENT_RESPONSE_SIZE_MSG CLIENT_RESPONSE_MSG" by blast
  have "chan n' = chan_tl (chan_tl (chan n) [p] q CLIENT_RESPONSE_SIZE_MSG) [p] q CLIENT_RESPONSE_MSG"
    unfolding r'(4) by (rule chan_take_tl) (simp add: tags)
  from responses_taken [OF assms(1) _ this] assms(2) r' show ?thesis by auto
qed

lemma responses_received_all:
  assumes fl: "flying n R S" and dist: "distinct ps" and r: "\<And>p. p \<in> set ps \<Longrightarrow> S (p, q) \<noteq> []"
  shows "\<exists>rs n'. receive_all_client_responses (mpi q) ps n = Some (MDHIM_SUCCESS, map Some rs, n') \<and>
    list_all2 (\<lambda>p r'. wf_response r' \<and> ans_of r' = ans_of (hd (S (p, q)))) ps rs \<and>
    flying n' R (take_responses S ps q)"
proof -
  let ?b = "\<lambda>p. hd (chan n (p, q, CLIENT_RESPONSE_MSG))"
  have b: "hd (chan n (p, q, CLIENT_RESPONSE_SIZE_MSG)) = size_msg (?b p)" "chan n (p, q, CLIENT_RESPONSE_SIZE_MSG) \<noteq> []"
    "chan n (p, q, CLIENT_RESPONSE_MSG) \<noteq> []" "carries_reply (?b p) (hd (S (p, q)))" if p: "p \<in> set ps" for p
  proof -
    obtain x xs where "S (p, q) = x # xs" using r [OF p] by (meson list.exhaust)
    with in_flightD [OF fl, of p q] show "hd (chan n (p, q, CLIENT_RESPONSE_SIZE_MSG)) = size_msg (?b p)"
      "chan n (p, q, CLIENT_RESPONSE_SIZE_MSG) \<noteq> []" "chan n (p, q, CLIENT_RESPONSE_MSG) \<noteq> []"
      "carries_reply (?b p) (hd (S (p, q)))"
      by (auto simp: responses_sent_def list_all2_Cons2)
  qed
  then have len: "length (?b p) < 2147483648" if "p \<in> set ps" for p
    using that by (simp add: carries_reply_def header_ok_def)
  obtain n1 where n1: "receive_sizes (mpi q) ps n = Some (True, map (\<lambda>p. of_nat (length (?b p))) ps, n1)"
    "chan n1 = chan_tl (chan n) ps q CLIENT_RESPONSE_SIZE_MSG"
    using receive_sizes_run [of ps n q ?b] dist b by blast
  have "chan n1 (p, q, CLIENT_RESPONSE_MSG) = chan n (p, q, CLIENT_RESPONSE_MSG)" for p
    by (simp add: n1(2) chan_tl_def tags)
  then obtain n2 where n2: "receive_bufs (mpi q) (zip ps (map (\<lambda>p. of_nat (length (?b p))) ps)) n1 = Some (True, map ?b ps, n2)"
    "chan n2 = chan_tl (chan n1) ps q CLIENT_RESPONSE_MSG"
    using receive_bufs_run [of ps ?b n1 q] dist b len by auto
  obtain rs where rs: "open_responses (mpi q) (zip (map ?b ps) (map (\<lambda>p. of_nat (length (?b p))) ps)) =
      Some (True, map Some rs)" "list_all2 (\<lambda>p r'. wf_response r' \<and> ans_of r' = ans_of (hd (S (p, q)))) ps rs"
    using open_responses_run [of ps ?b "\<lambda>p. hd (S (p, q))" q] b(4) by blast
  have "receive_all_client_responses (mpi q) ps n = Some (MDHIM_SUCCESS, map Some rs, n2)"
    by (simp add: receive_all_client_responses_def n1(1) n2(1) rs(1))
  moreover have "flying n2 R (take_responses S ps q)"
    using n1(2) n2(2) by (intro responses_taken [OF fl r]) simp_all
  ultimately show ?thesis using rs(2) by blast
qed

end

section \<open>A reference network\<close>

text \<open>The messages on their way, the oldest first, each with its sender, receiver and tag.\<close>

type_synonym ref_net = "((i32 \<times> i32 \<times> i32) \<times> byte list) list"

definition ref_chan :: "ref_net \<Rightarrow> i32 \<times> i32 \<times> i32 \<Rightarrow> byte list list" where
  "ref_chan n k = map snd (filter (\<lambda>x. fst x = k) n)"

fun take_first :: "('k \<Rightarrow> bool) \<Rightarrow> ('k \<times> 'v) list \<Rightarrow> (('k \<times> 'v) \<times> ('k \<times> 'v) list) option" where
  "take_first P [] = None"
| "take_first P (x # xs) =
     (if P (fst x) then Some (x, xs) else map_option (\<lambda>(y, ys). (y, x # ys)) (take_first P xs))"

definition ref_mpi :: "i32 \<Rightarrow> ref_net mpi" where
  "ref_mpi me = \<lparr>mp_pack = sym_pack (ref_shmem 0 4000) 0 0 one_comm, mp_unpack = sym_unpack (ref_shmem 0 4000) 0 0 one_comm,
     mp_malloc = ref_malloc, mp_alloc = ref_malloc,
     mp_send = (\<lambda>d q t n. (MPI_SUCCESS, n @ [((me, q, t), d)])),
     mp_isend = (\<lambda>d q t n. (MPI_SUCCESS, n @ [((me, q, t), d)])),
     mp_recv = (\<lambda>sz q t n. map_option (\<lambda>((_, d), n'). (MPI_SUCCESS, take sz d, n')) (take_first (\<lambda>k. k = (q, me, t)) n)),
     mp_irecv = (\<lambda>sz src t n. map_option (\<lambda>(((a, _), d), n'). (MPI_SUCCESS, a, take sz d, n'))
       (take_first (\<lambda>(a, b, u). (case src of None \<Rightarrow> True | Some q \<Rightarrow> a = q) \<and> b = me \<and> u = t) n))\<rparr>"

lemma take_first_None: "take_first P n = None \<longleftrightarrow> (\<forall>k. P k \<longrightarrow> ref_chan n k = [])"
proof (induction n)
  case (Cons x n)
  obtain a b c d where "x = ((a, b, c), d)" by (metis prod.exhaust)
  with Cons show ?case by (auto simp: ref_chan_def)
qed (simp add: ref_chan_def)

lemma take_first_Some:
  "take_first P n = Some ((k, d), n') \<Longrightarrow> P k \<and> ref_chan n k = d # ref_chan n' k \<and> ref_chan n' = (ref_chan n)(k := ref_chan n' k)"
proof (induction n arbitrary: n')
  case (Cons x n)
  show ?case
  proof (cases "P (fst x)")
    case True
    with Cons.prems show ?thesis by (auto simp: ref_chan_def fun_eq_iff)
  next
    case False
    with Cons.prems obtain n1 where n1: "take_first P n = Some ((k, d), n1)" "n' = x # n1" by auto
    from Cons.IH [OF n1(1)] False have "P k" "ref_chan n k = d # ref_chan n1 k" "fst x \<noteq> k"
      and "\<And>j. j \<noteq> k \<Longrightarrow> ref_chan n1 j = ref_chan n j" by (auto simp: fun_eq_iff)
    then show ?thesis using n1(2) by (auto simp: ref_chan_def fun_eq_iff)
  qed
qed simp

lemma take_first_exact:
  assumes "ref_chan n k = d # ds"
  shows "\<exists>n'. take_first (\<lambda>j. j = k) n = Some ((k, d), n') \<and> ref_chan n' = (ref_chan n)(k := ds)"
proof (cases "take_first (\<lambda>j. j = k) n")
  case None
  with assms show ?thesis by (simp add: take_first_None)
next
  case (Some x)
  obtain k' d' n' where "x = ((k', d'), n')" by (metis prod.exhaust)
  with Some assms take_first_Some [of "\<lambda>j. j = k" n k' d' n'] show ?thesis by auto
qed

lemma take_first_any:
  assumes "ref_chan n (p0, q, t) \<noteq> []" and "\<And>p d. d \<in> set (ref_chan n (p, q, t)) \<Longrightarrow> length d = sz"
  shows "\<exists>p d ds n'. ref_chan n (p, q, t) = d # ds \<and>
    take_first (\<lambda>(a, b, u). b = q \<and> u = t) n = Some (((p, q, t), d), n') \<and> length d = sz \<and>
    ref_chan n' = (ref_chan n)((p, q, t) := ds)"
proof (cases "take_first (\<lambda>(a, b, u). b = q \<and> u = t) n")
  case None
  then have "ref_chan n (p0, q, t) = []" unfolding take_first_None by blast
  with assms(1) show ?thesis by simp
next
  case (Some x)
  obtain p b u d n' where "x = (((p, b, u), d), n')" by (metis prod.exhaust)
  with Some take_first_Some [of "\<lambda>(a, b, u). b = q \<and> u = t" n "(p, b, u)" d n'] assms(2) [of d p]
  show ?thesis by auto
qed

lemma ref_irecv: "mp_irecv (ref_mpi p) sz (Some q) t n =
    map_option (\<lambda>(((a, _), d), n'). (MPI_SUCCESS, a, take sz d, n')) (take_first (\<lambda>k. k = (q, p, t)) n)"
proof -
  have "(\<lambda>(a, b, u). a = q \<and> b = p \<and> u = t) = (\<lambda>k. k = (q, p, t))" by auto
  then show ?thesis by (simp add: ref_mpi_def)
qed

interpretation ref_net: mpi_channels ref_mpi ref_chan
proof (rule mpi_channels.intro)
  have pk: "packer (sym_pack (ref_shmem 0 4000) 0 0 one_comm) (sym_unpack (ref_shmem 0 4000) 0 0 one_comm)"
    by (rule sym_packer) simp_all
  fix p q t n and d :: "byte list" and ds and sz :: nat and p0
  show "packer (mp_pack (ref_mpi p)) (mp_unpack (ref_mpi p))" using pk by (simp add: ref_mpi_def)
  show "malloc_ok (mp_malloc (ref_mpi p))" "malloc_ok (mp_alloc (ref_mpi p))" by (simp_all add: ref_mpi_def)
  show "\<exists>n'. mp_send (ref_mpi p) d q t n = (MPI_SUCCESS, n') \<and>
      ref_chan n' = (ref_chan n)((p, q, t) := ref_chan n (p, q, t) @ [d])"
    by (auto simp: ref_mpi_def ref_chan_def)
  show "\<exists>n'. mp_isend (ref_mpi p) d q t n = (MPI_SUCCESS, n') \<and>
      ref_chan n' = (ref_chan n)((p, q, t) := ref_chan n (p, q, t) @ [d])"
    by (auto simp: ref_mpi_def ref_chan_def)
  show "\<exists>n'. mp_recv (ref_mpi p) (length d) q t n = Some (MPI_SUCCESS, d, n') \<and>
      ref_chan n' = (ref_chan n)((q, p, t) := ds)" if "ref_chan n (q, p, t) = d # ds"
    using take_first_exact [OF that] by (auto simp: ref_mpi_def)
  show "\<exists>n'. mp_irecv (ref_mpi p) (length d) (Some q) t n = Some (MPI_SUCCESS, q, d, n') \<and>
      ref_chan n' = (ref_chan n)((q, p, t) := ds)" if "ref_chan n (q, p, t) = d # ds"
    using take_first_exact [OF that] unfolding ref_irecv by auto
  show "\<exists>q d ds n'. ref_chan n (q, p, t) = d # ds \<and>
      mp_irecv (ref_mpi p) sz None t n = Some (MPI_SUCCESS, q, d, n') \<and>
      ref_chan n' = (ref_chan n)((q, p, t) := ds)"
    if some: "ref_chan n (p0, p, t) \<noteq> []" "\<And>q d. d \<in> set (ref_chan n (q, p, t)) \<Longrightarrow> length d = sz"
  proof -
    obtain q d ds n' where "ref_chan n (q, p, t) = d # ds" "length d = sz" "ref_chan n' = (ref_chan n)((q, p, t) := ds)"
      "take_first (\<lambda>(a, b, u). b = p \<and> u = t) n = Some (((q, p, t), d), n')"
      using take_first_any [of n p0 p t sz] some by blast
    then show ?thesis
      by (intro exI [of _ q] exI [of _ d] exI [of _ ds] exI [of _ n']) (simp add: ref_mpi_def)
  qed
  show "mp_irecv (ref_mpi p) sz None t n = None" if "\<And>q. ref_chan n (q, p, t) = []"
    using that take_first_None [of "\<lambda>(a, b, u). b = p \<and> u = t" n] by (auto simp: ref_mpi_def)
qed

section \<open>Order of delivery\<close>

text \<open>Send the requests one after the other; receive a number of them.\<close>

fun send_each :: "'n mpi \<Rightarrow> i32 \<Rightarrow> rs_message list \<Rightarrow> 'n \<Rightarrow> 'n option" where
  "send_each mp q [] n = Some n"
| "send_each mp q (m # ms) n = do {
     (ret, n) \<leftarrow> send_rangesrv_work mp q m n;
     if ret \<noteq> MDHIM_SUCCESS then None else send_each mp q ms n }"

fun receive_each :: "'n mpi \<Rightarrow> nat \<Rightarrow> 'n \<Rightarrow> ((i32 \<times> rs_message option) list \<times> 'n) option" where
  "receive_each mp 0 n = Some ([], n)"
| "receive_each mp (Suc k) n = do {
     (ret, src, m, n) \<leftarrow> receive_rangesrv_work mp n;
     (ms, n) \<leftarrow> receive_each mp k n;
     Some ((src, m) # ms, n) }"

context mpi_channels
begin

lemma send_each_run:
  "flying n R S \<Longrightarrow> (\<And>m. m \<in> set ms \<Longrightarrow> \<exists>sz. sendable m sz) \<Longrightarrow>
   \<exists>n'. send_each (mpi p) q ms n = Some n' \<and> flying n' (R((p, q) := R (p, q) @ ms)) S"
proof (induction ms arbitrary: n R)
  case (Cons m ms)
  obtain sz where "sendable m sz" using Cons.prems(2) by auto
  from request_sent [OF Cons.prems(1) this, of p q] obtain n1 where n1:
    "send_rangesrv_work (mpi p) q m n = Some (MDHIM_SUCCESS, n1)" "flying n1 (R((p, q) := R (p, q) @ [m])) S" by blast
  from Cons.IH [OF n1(2)] Cons.prems(2) show ?case
    by (simp add: n1(1) fun_upd_same del: fun_upd_apply)
qed simp

lemma receive_each_run:
  assumes "flying n (\<lambda>x. if x = (p, q) then ms else []) S"
  shows "\<exists>ms' n'. receive_each (mpi q) (length ms) n = Some (map (\<lambda>m. (p, Some m)) ms', n') \<and>
    list_all2 same_request ms ms' \<and> flying n' (\<lambda>_. []) S"
  using assms
proof (induction ms arbitrary: n)
  case Nil
  then show ?case by simp
next
  case (Cons m ms)
  from request_received [OF Cons.prems, of p q] obtain m' n1 where n1: "same_request m m'"
    "receive_rangesrv_work (mpi q) n = Some (MDHIM_SUCCESS, p, Some m', n1)"
    "flying n1 ((\<lambda>x. if x = (p, q) then m # ms else [])((p, q) := ms)) S"
    by (auto split: if_splits simp del: fun_upd_apply)
  have "(\<lambda>x. if x = (p, q) then m # ms else [])((p, q) := ms) = (\<lambda>x. if x = (p, q) then ms else [])" by auto
  from Cons.IH [OF n1(3) [unfolded this]] obtain ms' n2 where n2:
    "receive_each (mpi q) (length ms) n1 = Some (map (\<lambda>m. (p, Some m)) ms', n2)" "list_all2 same_request ms ms'"
    "flying n2 (\<lambda>_. []) S" by blast
  then show ?case using n1(1,2) by (intro exI [of _ "m' # ms'"] exI [of _ n2]) simp
qed

end

text \<open>C10.  Whatever put, get, delete and bulk requests a process sends to a range server over an idle
  network, the server receives all of them, in order, with the server rank, keys, values, lengths,
  operations and record numbers of the sender; and a further call waits.  Packing, memory and
  network are as MPI and malloc document them (\<open>mpi_channels\<close>): what is sent between two
  processes under a tag is received in that order and is not lost.  Commit and close messages
  are the next theorem.\<close>

theorem requests_delivered_in_order:
  assumes "mpi_channels mpi chan" and "in_flight (chan n) (\<lambda>_. []) (\<lambda>_. [])"
    and "\<forall>m \<in> set ms. \<exists>sz. sendable m sz"
  shows "\<exists>n1 ms' n2. send_each (mpi p) q ms n = Some n1 \<and>
    receive_each (mpi q) (length ms) n1 = Some (map (\<lambda>m. (p, Some m)) ms', n2) \<and>
    list_all2 same_request ms ms' \<and> receive_rangesrv_work (mpi q) n2 = None"
proof -
  note C = assms(1)
  obtain n1 where n1: "send_each (mpi p) q ms n = Some n1" "in_flight (chan n1) ((\<lambda>_. [])((p, q) := [] @ ms)) (\<lambda>_. [])"
    using mpi_channels.send_each_run [OF C assms(2), of ms p q] assms(3) by blast
  have "(\<lambda>_. [])((p, q) := [] @ ms) = (\<lambda>x. if x = (p, q) then ms else [])" by auto
  from mpi_channels.receive_each_run [OF C n1(2) [unfolded this]] n1(1)
    mpi_channels.no_request_waits [OF C] show ?thesis by metis
qed

lemma ref_idle: "in_flight (ref_chan []) (\<lambda>_. []) (\<lambda>_. [])"
  by (simp add: in_flight_def requests_sent_def responses_sent_def ref_chan_def)

theorem requests_delivered_in_order_witness:
  "\<exists>n1 m1 m2 n2. send_each (ref_mpi 3) 0 [PutM example_putm, DelM example_delm] [] = Some n1 \<and>
    receive_each (ref_mpi 0) 2 n1 = Some ([(3, Some m1), (3, Some m2)], n2) \<and>
    same_request (PutM example_putm) m1 \<and> same_request (DelM example_delm) m2"
proof -
  have "sendable (PutM example_putm) 53" "sendable (DelM example_delm) 33"
    by (simp_all add: example_putm_def example_delm_def putm_ok_def delm_ok_def blob_ok_def message_types)
  then have "\<forall>m \<in> set [PutM example_putm, DelM example_delm]. \<exists>sz. sendable m sz" by auto
  from requests_delivered_in_order [OF ref_net.mpi_channels_axioms ref_idle this, of 3 0] show ?thesis
    by (auto simp: list_all2_Cons1 numeral_2_eq_2 simp del: same_request.simps send_each.simps receive_each.simps)
qed

text \<open>A commit or close message sent to a range server over an idle network (the same assumptions)
  is not handed over as a message: the server's receive call returns its type as the return code,
  with the sender's rank and a NULL message, and the network is idle again.\<close>

lemma base_header:
  "header_ok (basem_image (m\<lparr>bs_size := 12\<rparr>)) (bs_mtype m)"
  by (simp add: header_ok_def basem_image_def image_simps)

theorem commit_close_delivered:
  assumes "mpi_channels mpi chan" and idle: "in_flight (chan n) (\<lambda>_. []) (\<lambda>_. [])"
    and type: "bs_mtype m = MDHIM_COMMIT \<or> bs_mtype m = MDHIM_CLOSE"
  shows "\<exists>n1 n2. send_rangesrv_work (mpi p) q (BaseM m) n = Some (MDHIM_SUCCESS, n1) \<and>
    receive_rangesrv_work (mpi q) n1 = Some (sint (bs_mtype m), p, None, n2) \<and> chan n2 = chan n"
proof -
  note C = assms(1)
  let ?buf = "basem_image (m\<lparr>bs_size := 12\<rparr>)" and ?S = RANGESRV_WORK_SIZE_MSG and ?M = RANGESRV_WORK_MSG
  have len: "length ?buf = 12" by simp
  have empty: "chan n (a, q, ?S) = []" "chan n (a, q, ?M) = []" for a
    using in_flightD [OF idle, of a q] by (simp_all add: requests_sent_def)
  have pack: "pack_request (mpi p) 0 (BaseM m) = Some (MDHIM_SUCCESS, Some ?buf, 12)"
    using packer.base_packs [OF mpi_channels.packs [OF C] mpi_channels.mallocs(1) [OF C], of p p m 0] type
    by (auto simp: pack_request_def packed_out_def message_types)
  obtain n0 where n0: "mp_send (mpi p) (size_msg ?buf) q ?S n = (MPI_SUCCESS, n0)"
    "chan n0 = (chan n)((p, q, ?S) := [size_msg ?buf])"
    using mpi_channels.sent [OF C, of p "size_msg ?buf" q ?S n] empty(1) by auto
  obtain n1 where n1: "mp_send (mpi p) ?buf q ?M n0 = (MPI_SUCCESS, n1)"
    "chan n1 = (chan n0)((p, q, ?M) := [?buf])"
    using mpi_channels.sent [OF C, of p ?buf q ?M n0] empty(2) n0(2) by (auto simp: tags)
  have send: "send_rangesrv_work (mpi p) q (BaseM m) n = Some (MDHIM_SUCCESS, n1)"
    using n0(1) n1(1) take_csize [of ?buf] by (simp add: send_rangesrv_work_def pack size_msg_def)
  have "length d = 4" if "d \<in> set (chan n1 (a, q, ?S))" for a d
    using that empty(1) by (auto simp: n0(2) n1(2) tags split: if_splits)
  moreover have "chan n1 (p, q, ?S) \<noteq> []" by (simp add: n0(2) n1(2) tags)
  ultimately obtain a d ds n2 where d: "chan n1 (a, q, ?S) = d # ds"
    "mp_irecv (mpi q) 4 None ?S n1 = Some (MPI_SUCCESS, a, d, n2)" "chan n2 = (chan n1)((a, q, ?S) := ds)"
    using mpi_channels.ireceived_any [OF C, of n1 p q ?S 4] by blast
  have a: "a = p" "d = size_msg ?buf" "ds = []"
    using d(1) empty(1) by (auto simp: n0(2) n1(2) tags split: if_splits)
  have "chan n2 (p, q, ?M) = [?buf]" by (simp add: d(3) a n1(2) tags)
  from mpi_channels.ireceived [OF C this] obtain n3 where n3:
    "mp_irecv (mpi q) 12 (Some p) ?M n2 = Some (MPI_SUCCESS, p, ?buf, n3)" "chan n3 = (chan n2)((p, q, ?M) := [])"
    unfolding len by blast
  obtain a0 b0 where a0: "mp_alloc (mpi q) 0 12 = Some (a0, b0)"
    using mpi_channels.alloc [OF C, of 12 q 0] by auto
  obtain a1 b1 where a1: "mp_alloc (mpi q) 1 12 = Some (a1, b1)" "length b1 = 12"
    using mpi_channels.alloc [OF C, of 12 q 1] by auto
  obtain bm pos where bm: "mp_unpack (mpi q) ?buf 12 0 12 MPI_CHAR b1 = (MPI_SUCCESS, bm, pos)"
    "w32 bm 0 = bs_mtype m" "w32 bm 8 = 12"
    using mpi_channels.header_read [OF C base_header a1(2), of q m] unfolding len by auto
  have "csize (12 :: i32) = 12" using csize_of_nat [of 12] by simp
  then have "receive_rangesrv_work (mpi q) n1 = Some (sint (bs_mtype m), p, None, n3)"
    unfolding receive_rangesrv_work_def d(2)
    using type a1(1) by (auto simp: a size_msg_def n3(1) a0 bm unpack_request_def message_types word_sless_alt)
  moreover have "chan n3 = chan n" using empty by (auto simp: n3(2) d(3) a n1(2) n0(2) fun_eq_iff)
  ultimately show ?thesis using send by blast
qed

theorem commit_close_delivered_witness:
  "\<exists>n1 n2. send_rangesrv_work (ref_mpi 3) 0 (BaseM \<lparr>bs_mtype = MDHIM_CLOSE, bs_server_rank = 0, bs_size = 0\<rparr>) [] =
      Some (MDHIM_SUCCESS, n1) \<and>
    receive_rangesrv_work (ref_mpi 0) n1 = Some (7, 3, None, n2) \<and> ref_chan n2 = ref_chan []"
  using commit_close_delivered [OF ref_net.mpi_channels_axioms ref_idle,
      of "\<lparr>bs_mtype = MDHIM_CLOSE, bs_server_rank = 0, bs_size = 0\<rparr>" 3 0]
  by (simp add: MDHIM_CLOSE_def)

end
