(* ===== verification/Work_Queue.thy ===== *)
theory Work_Queue
  imports Prelude
begin

text \<open>
  The work queue of a range server: \<^verbatim>\<open>work_item\<close> and \<^verbatim>\<open>work_queue\<close> of \<^verbatim>\<open>range_server.h\<close>,
  \<^verbatim>\<open>range_server_add_work\<close> and \<^verbatim>\<open>get_work\<close> of \<^verbatim>\<open>range_server.c\<close>.  The items are cells of a heap,
  linked both ways; work is added at the head and taken from the tail.  The interface \<open>fifo\<close> is a
  first-in first-out queue of addresses, interpreted on the code's functions.

  Both functions run under the mutex of the queue, so each is one step.
\<close>

section \<open>Data and operations\<close>

record 'm work_item =
  wi_next :: "nat option"
  wi_prev :: "nat option"
  wi_message :: 'm
  wi_source :: i32

record 'm work_queue =
  wq_heap :: "nat \<Rightarrow> 'm work_item"
  wq_head :: "nat option"
  wq_tail :: "nat option"

definition upd_item :: "nat \<Rightarrow> ('m work_item \<Rightarrow> 'm work_item) \<Rightarrow> 'm work_queue \<Rightarrow> 'm work_queue" where
  "upd_item p f q = q\<lparr>wq_heap := (wq_heap q)(p := f (wq_heap q p))\<rparr>"

definition range_server_add_work :: "'m work_queue \<Rightarrow> nat \<Rightarrow> 'm work_queue" where
  "range_server_add_work q item =
     (let q = upd_item item (\<lambda>it. it\<lparr>wi_next := None, wi_prev := None\<rparr>) q
      in case wq_head q of
          Some h \<Rightarrow>
            let q = upd_item h (\<lambda>it. it\<lparr>wi_prev := Some item\<rparr>) q;
                q = upd_item item (\<lambda>it. it\<lparr>wi_next := Some h\<rparr>) q
            in q\<lparr>wq_head := Some item\<rparr>
        | None \<Rightarrow> q\<lparr>wq_head := Some item, wq_tail := Some item\<rparr>)"

definition get_work :: "'m work_queue \<Rightarrow> nat option \<times> 'm work_queue" where
  "get_work q =
     (case wq_tail q of None \<Rightarrow> (None, q)
      | Some item \<Rightarrow>
        let q = (case wi_prev (wq_heap q item) of
                   Some p \<Rightarrow> (upd_item p (\<lambda>it. it\<lparr>wi_next := None\<rparr>) q)\<lparr>wq_tail := Some p\<rparr>
                 | None \<Rightarrow> q\<lparr>wq_tail := None, wq_head := None\<rparr>)
        in (Some item, upd_item item (\<lambda>it. it\<lparr>wi_next := None, wi_prev := None\<rparr>) q))"

text \<open>A new item, as the listener makes it: allocate the cell, set message and source.\<close>

definition new_item :: "'m work_queue \<Rightarrow> nat \<Rightarrow> 'm \<Rightarrow> i32 \<Rightarrow> 'm work_queue" where
  "new_item q p m src = upd_item p (\<lambda>_. \<lparr>wi_next = None, wi_prev = None, wi_message = m, wi_source = src\<rparr>) q"

section \<open>The linked list\<close>

text \<open>The cells \<open>ps\<close>, from head to tail, are linked both ways; \<open>before\<close> is what the first one has
  as its predecessor.\<close>

fun links :: "(nat \<Rightarrow> 'm work_item) \<Rightarrow> nat option \<Rightarrow> nat list \<Rightarrow> bool" where
  "links h before [] = True"
| "links h before (p # ps) =
     (wi_prev (h p) = before \<and> wi_next (h p) = (case ps of [] \<Rightarrow> None | x # _ \<Rightarrow> Some x) \<and> links h (Some p) ps)"

definition wq_cells :: "'m work_queue \<Rightarrow> nat list \<Rightarrow> bool" where
  "wq_cells q ps \<longleftrightarrow> distinct ps \<and> links (wq_heap q) None ps \<and>
     wq_head q = (if ps = [] then None else Some (hd ps)) \<and>
     wq_tail q = (if ps = [] then None else Some (last ps))"

lemma links_cong:
  "(\<And>p. p \<in> set ps \<Longrightarrow> wi_next (h p) = wi_next (h' p) \<and> wi_prev (h p) = wi_prev (h' p)) \<Longrightarrow>
   links h b ps = links h' b ps"
  by (induction ps arbitrary: b) auto

lemma links_upd_fresh: "p \<notin> set ps \<Longrightarrow> links (h(p := x)) b ps = links h b ps"
  by (rule links_cong) auto

lemma links_append:
  "links h b (ps @ [p]) \<longleftrightarrow>
   wi_prev (h p) = (if ps = [] then b else Some (last ps)) \<and> wi_next (h p) = None \<and>
   (if ps = [] then True else links (h(last ps := (h (last ps))\<lparr>wi_next := None\<rparr>)) b ps \<and>
      wi_next (h (last ps)) = Some p)" if "distinct (ps @ [p])"
  using that
proof (induction ps arbitrary: b)
  case Nil
  then show ?case by auto
next
  case (Cons x xs)
  show ?case
  proof (cases "xs = []")
    case True
    with Cons.prems show ?thesis by auto
  next
    case False
    then have "x \<noteq> last xs" using Cons.prems by auto
    moreover obtain y ys where "xs = y # ys" using False by (cases xs) auto
    ultimately show ?thesis using Cons False by auto
  qed
qed

lemma add_cells:
  assumes "wq_cells q ps" and "p \<notin> set ps"
  shows "wq_cells (range_server_add_work q p) (p # ps)"
proof (cases ps)
  case Nil
  with assms show ?thesis by (simp add: wq_cells_def range_server_add_work_def upd_item_def)
next
  case (Cons x xs)
  with assms show ?thesis
    by (auto simp: wq_cells_def range_server_add_work_def upd_item_def Let_def links_upd_fresh)
qed

lemma get_cells:
  assumes "wq_cells q ps"
  shows "fst (get_work q) = (if ps = [] then None else Some (last ps)) \<and>
    wq_cells (snd (get_work q)) (butlast ps)"
proof (cases ps rule: rev_cases)
  case Nil
  with assms show ?thesis by (simp add: wq_cells_def get_work_def)
next
  case (snoc xs p)
  have d: "distinct (xs @ [p])" and l: "links (wq_heap q) None (xs @ [p])"
    using assms snoc by (simp_all add: wq_cells_def)
  show ?thesis
  proof (cases "xs = []")
    case True
    with assms snoc show ?thesis by (simp add: wq_cells_def get_work_def upd_item_def)
  next
    case False
    then have p: "wi_prev (wq_heap q p) = Some (last xs)"
      and xs: "links ((wq_heap q)(last xs := (wq_heap q (last xs))\<lparr>wi_next := None\<rparr>)) None xs"
      using l unfolding links_append [OF d] by simp_all
    have ne: "last xs \<noteq> p" "p \<notin> set xs" using d False by auto
    from assms snoc False p have
      "get_work q = (Some p, upd_item p (\<lambda>it. it\<lparr>wi_next := None, wi_prev := None\<rparr>)
        ((upd_item (last xs) (\<lambda>it. it\<lparr>wi_next := None\<rparr>) q)\<lparr>wq_tail := Some (last xs)\<rparr>))"
      by (simp add: get_work_def wq_cells_def)
    with assms snoc False xs ne d show ?thesis
      by (simp add: wq_cells_def upd_item_def links_upd_fresh)
  qed
qed

lemma work_frame [simp]:
  "wi_message (wq_heap (range_server_add_work q p) x) = wi_message (wq_heap q x)"
  "wi_source (wq_heap (range_server_add_work q p) x) = wi_source (wq_heap q x)"
  "wi_message (wq_heap (snd (get_work q)) x) = wi_message (wq_heap q x)"
  "wi_source (wq_heap (snd (get_work q)) x) = wi_source (wq_heap q x)"
  by (auto simp: range_server_add_work_def get_work_def upd_item_def Let_def split: option.splits)

section \<open>A first-in first-out queue\<close>

text \<open>The operations on addresses with what a cell carries; \<open>queued\<close> lists the cells in the order in
  which they will be taken.\<close>

locale fifo =
  fixes add :: "'q \<Rightarrow> nat \<Rightarrow> 'x \<Rightarrow> 'q" and take_one :: "'q \<Rightarrow> (nat \<times> 'x) option \<times> 'q"
    and queued :: "'q \<Rightarrow> (nat \<times> 'x) list \<Rightarrow> bool"
  assumes add_queued: "queued q xs \<Longrightarrow> p \<notin> fst ` set xs \<Longrightarrow> queued (add q p x) (xs @ [(p, x)])"
    and take_empty: "queued q [] \<Longrightarrow> fst (take_one q) = None \<and> queued (snd (take_one q)) []"
    and take_queued: "queued q (e # xs) \<Longrightarrow> fst (take_one q) = Some e \<and> queued (snd (take_one q)) xs"

datatype 'x work_cmd = Add nat 'x | Take

text \<open>What the commands do to a plain list, and whether the new cells are not in it.\<close>

fun fifo_run :: "'x work_cmd list \<Rightarrow> (nat \<times> 'x) list \<Rightarrow> (nat \<times> 'x) option list \<times> (nat \<times> 'x) list" where
  "fifo_run [] xs = ([], xs)"
| "fifo_run (Add p x # cs) xs = fifo_run cs (xs @ [(p, x)])"
| "fifo_run (Take # cs) xs =
     (let (out, ys) = fifo_run cs (tl xs) in ((case xs of [] \<Rightarrow> None | e # _ \<Rightarrow> Some e) # out, ys))"

fun cells_fresh :: "'x work_cmd list \<Rightarrow> (nat \<times> 'x) list \<Rightarrow> bool" where
  "cells_fresh [] xs = True"
| "cells_fresh (Add p x # cs) xs = (p \<notin> fst ` set xs \<and> cells_fresh cs (xs @ [(p, x)]))"
| "cells_fresh (Take # cs) xs = cells_fresh cs (tl xs)"

fun queue_run :: "('q \<Rightarrow> nat \<Rightarrow> 'x \<Rightarrow> 'q) \<Rightarrow> ('q \<Rightarrow> (nat \<times> 'x) option \<times> 'q) \<Rightarrow> 'x work_cmd list \<Rightarrow> 'q
    \<Rightarrow> (nat \<times> 'x) option list \<times> 'q" where
  "queue_run ad tk [] q = ([], q)"
| "queue_run ad tk (Add p x # cs) q = queue_run ad tk cs (ad q p x)"
| "queue_run ad tk (Take # cs) q =
     (let (e, q1) = tk q; (out, q2) = queue_run ad tk cs q1 in (e # out, q2))"

context fifo
begin

lemma run_refines:
  "queued q xs \<Longrightarrow> cells_fresh cs xs \<Longrightarrow>
   fst (queue_run add take_one cs q) = fst (fifo_run cs xs) \<and>
   queued (snd (queue_run add take_one cs q)) (snd (fifo_run cs xs))"
proof (induction cs arbitrary: q xs)
  case Nil
  then show ?case by simp
next
  case (Cons c cs)
  show ?case
  proof (cases c)
    case (Add p x)
    with Cons show ?thesis using add_queued by simp
  next
    case Take
    show ?thesis
    proof (cases xs)
      case Nil
      with Cons.prems Take Cons.IH [of "snd (take_one q)" "[]"] take_empty [of q] show ?thesis
        by (simp add: split_beta)
    next
      case (Cons e ys)
      with Cons.prems Take Cons.IH [of "snd (take_one q)" ys] take_queued [of q e ys] show ?thesis
        by (simp add: split_beta)
    qed
  qed
qed

end

text \<open>The code's functions with the message and the source of a cell.\<close>

definition wq_add :: "'m work_queue \<Rightarrow> nat \<Rightarrow> 'm \<times> i32 \<Rightarrow> 'm work_queue" where
  "wq_add q p x = range_server_add_work (new_item q p (fst x) (snd x)) p"

definition wq_take :: "'m work_queue \<Rightarrow> (nat \<times> 'm \<times> i32) option \<times> 'm work_queue" where
  "wq_take q = (let (r, q') = get_work q
     in (map_option (\<lambda>p. (p, wi_message (wq_heap q' p), wi_source (wq_heap q' p))) r, q'))"

definition wq_queued :: "'m work_queue \<Rightarrow> (nat \<times> 'm \<times> i32) list \<Rightarrow> bool" where
  "wq_queued q xs \<longleftrightarrow> wq_cells q (rev (map fst xs)) \<and>
     (\<forall>(p, m, s) \<in> set xs. wi_message (wq_heap q p) = m \<and> wi_source (wq_heap q p) = s)"

definition empty_work_queue :: "(nat \<Rightarrow> 'm work_item) \<Rightarrow> 'm work_queue" where
  "empty_work_queue h = \<lparr>wq_heap = h, wq_head = None, wq_tail = None\<rparr>"

lemma wq_queued_empty [simp]: "wq_queued (empty_work_queue h) []"
  by (simp add: wq_queued_def wq_cells_def empty_work_queue_def)

lemma new_item_cells: "wq_cells q ps \<Longrightarrow> p \<notin> set ps \<Longrightarrow> wq_cells (new_item q p m s) ps"
  by (simp add: wq_cells_def new_item_def upd_item_def links_upd_fresh)

interpretation wq: fifo wq_add wq_take wq_queued
proof
  fix q :: "'m work_queue" and xs p and x :: "'m \<times> i32"
  show "wq_queued (wq_add q p x) (xs @ [(p, x)])" if "wq_queued q xs" "p \<notin> fst ` set xs"
    using that add_cells [OF new_item_cells, of q "rev (map fst xs)" p]
    by (auto simp: wq_queued_def wq_add_def new_item_def upd_item_def split_beta)
  show "fst (wq_take q) = None \<and> wq_queued (snd (wq_take q)) []" if "wq_queued q []"
    using that get_cells [of q "[]"] by (auto simp: wq_queued_def wq_take_def split_beta)
  fix e
  show "fst (wq_take q) = Some e \<and> wq_queued (snd (wq_take q)) xs" if "wq_queued q (e # xs)"
    using that get_cells [of q "rev (map fst (e # xs))"]
    by (auto simp: wq_queued_def wq_take_def split_beta)
qed

section \<open>Properties\<close>

text \<open>C14.  The work queue of a range server is first in, first out: for every sequence of additions
  and removals, starting with an empty queue, in which no cell is added while it is still queued,
  the items with their messages and sources come out as from a plain list, and get_work returns
  NULL exactly when that list is empty.\<close>

theorem work_queue_fifo:
  assumes "cells_fresh cs []"
  shows "fst (queue_run wq_add wq_take cs (empty_work_queue h)) = fst (fifo_run cs [])"
  using wq.run_refines [OF wq_queued_empty assms] by blast

theorem work_queue_fifo_witness:
  "fst (queue_run wq_add wq_take [Add 8 (CHR ''a'', 1), Add 9 (CHR ''b'', 2), Take, Add 8 (CHR ''c'', 1), Take, Take, Take]
     (empty_work_queue (\<lambda>_. \<lparr>wi_next = None, wi_prev = None, wi_message = CHR ''z'', wi_source = 0\<rparr>))) =
   [Some (8, CHR ''a'', 1), Some (9, CHR ''b'', 2), Some (8, CHR ''c'', 1), None]"
  by (subst work_queue_fifo) simp_all

end
