(* ===== verification/Mdhim_Client.thy ===== *)
theory Mdhim_Client
  imports Network Work_Queue
begin

text \<open>
  The client side of MDHIM: \<^verbatim>\<open>client.c\<close> (requests to other range servers), \<^verbatim>\<open>local_client.c\<close> (requests to
  the range server in the own process) and the operations of \<^verbatim>\<open>mdhim.c\<close>.  An operation works on
  the whole cluster: the network, and the work queue and the range server of every process.  While
  it waits for an answer the other threads and processes run, which is the parameter \<open>cl_run\<close>.

  A pointer to a structure that may be NULL is an option; a linked list of responses is a list, NULL
  the empty one.  \<open>None\<close> as the result of an operation is undefined behaviour, or a wait that never ends.
\<close>

section \<open>State and parameters\<close>

record ('n, 'd) world =
  w_net :: 'n
  w_queue :: "i32 \<Rightarrow> rs_message work_queue"
  w_server :: "i32 \<Rightarrow> 'd mdhim_rs_t option"
  w_listening :: "i32 \<Rightarrow> bool"
  w_working :: "i32 \<Rightarrow> bool"

text \<open>What malloc gives an operation: structures with the contents they have before their fields are
  set (\<open>None\<close> without memory), and the address of a work item.\<close>

record fresh =
  fr_putm :: "mdhim_putm_t option"
  fr_getm :: "mdhim_getm_t option"
  fr_delm :: "mdhim_delm_t option"
  fr_basem :: mdhim_basem_t
  fr_bputm :: "rangesrv_info \<Rightarrow> mdhim_bputm_t"
  fr_bgetm :: "rangesrv_info \<Rightarrow> mdhim_bgetm_t"
  fr_bdelm :: "rangesrv_info \<Rightarrow> mdhim_bdelm_t"
  fr_brm_size :: i32
  fr_item :: "nat option"

record ('n, 'd) client =
  cl_rank :: i32
  cl_globals :: part_globals
  cl_md :: mdhim_t
  cl_mpi :: "'n mpi"
  cl_run :: "('n, 'd) world \<Rightarrow> ('n, 'd) world option"
  cl_new :: fresh

record mdhim_brm_t =
  bm_mtype :: i32
  bm_server_rank :: i32
  bm_size :: i32
  bm_error :: i32

text \<open>A key argument, NULL when the address is 0.\<close>

definition key_arg :: "blob \<Rightarrow> byte list option" where
  "key_arg b = (if fst b = 0 then None else Some (snd b))"

text \<open>The responses are used through a pointer to the structure that is expected.\<close>

fun as_rm :: "response \<Rightarrow> mdhim_rm_t option" where
  "as_rm (Rm m) = Some m"
| "as_rm _ = None"

fun as_getrm :: "response \<Rightarrow> mdhim_getrm_t option" where
  "as_getrm (Getrm m) = Some m"
| "as_getrm _ = None"

fun as_bgetrm :: "response \<Rightarrow> mdhim_bgetrm_t option" where
  "as_bgetrm (Bgetrm m) = Some m"
| "as_bgetrm _ = None"

definition as_ptr :: "(response \<Rightarrow> 'm option) \<Rightarrow> response option \<Rightarrow> 'm option option" where
  "as_ptr as r = (case r of None \<Rightarrow> Some None | Some x \<Rightarrow> map_option Some (as x))"

section \<open>Requests to another process\<close>

text \<open>The body of client_put, client_get, client_bget_op and client_delete: send, wait for the response.
  When the receive fails the code writes through a pointer that was never set.\<close>

definition client_request ::
  "('n, 'd) client \<Rightarrow> i32 \<Rightarrow> rs_message \<Rightarrow> ('n, 'd) world \<Rightarrow> (response option \<times> ('n, 'd) world) option" where
  "client_request c dest msg w = do {
     (return_code, n) \<leftarrow> send_rangesrv_work (cl_mpi c) dest msg (w_net w);
     let w = w\<lparr>w_net := n\<rparr>;
     if return_code \<noteq> MDHIM_SUCCESS then Some (None, w)
     else do {
       w \<leftarrow> cl_run c w;
       (return_code, rm, n) \<leftarrow> receive_client_response (cl_mpi c) dest (w_net w);
       if return_code \<noteq> MDHIM_SUCCESS then None else Some (rm, w\<lparr>w_net := n\<rparr>) } }"

definition client_put where
  "client_put c pm w = do {
     (rm, w) \<leftarrow> client_request c (pm_server_rank pm) (PutM pm) w;
     rm \<leftarrow> as_ptr as_rm rm;
     Some (rm, w) }"

definition client_get where
  "client_get c gm w = do {
     (rm, w) \<leftarrow> client_request c (gm_server_rank gm) (GetM gm) w;
     rm \<leftarrow> as_ptr as_getrm rm;
     Some (rm, w) }"

definition client_bget_op where
  "client_bget_op c gm w = do {
     (brm, w) \<leftarrow> client_request c (gm_server_rank gm) (GetM gm) w;
     brm \<leftarrow> as_ptr as_bgetrm brm;
     Some (brm, w) }"

definition client_delete where
  "client_delete c dm w = do {
     (rm, w) \<leftarrow> client_request c (dm_server_rank dm) (DelM dm) w;
     rm \<leftarrow> as_ptr as_rm rm;
     Some (rm, w) }"

text \<open>The body of the bulk functions: send all messages, receive the responses of their servers.
  \<open>None\<close> inside is a failed send; a failed receive is only logged.\<close>

definition client_bulk ::
  "('n, 'd) client \<Rightarrow> rs_message option list \<Rightarrow> ('n, 'd) world \<Rightarrow> (response option list option \<times> ('n, 'd) world) option" where
  "client_bulk c msgs w = do {
     let srvs = map message_server_rank (somes msgs);
     (return_code, n) \<leftarrow> send_all_rangesrv_work (cl_mpi c) msgs (w_net w);
     let w = w\<lparr>w_net := n\<rparr>;
     if return_code \<noteq> MDHIM_SUCCESS then Some (None, w)
     else do {
       w \<leftarrow> cl_run c w;
       (return_code, rm_list, n) \<leftarrow> receive_all_client_responses (cl_mpi c) srvs (w_net w);
       Some (Some rm_list, w\<lparr>w_net := n\<rparr>) } }"

text \<open>The list that is returned: responses that are not there are skipped.\<close>

fun collect :: "(response \<Rightarrow> 'm option) \<Rightarrow> response option list \<Rightarrow> 'm list option" where
  "collect as [] = Some []"
| "collect as (None # rs) = collect as rs"
| "collect as (Some r # rs) = do { m \<leftarrow> as r; ms \<leftarrow> collect as rs; Some (m # ms) }"

definition brm_of :: "('n, 'd) client \<Rightarrow> mdhim_rm_t \<Rightarrow> mdhim_brm_t" where
  "brm_of c rm = \<lparr>bm_mtype = rm_mtype rm, bm_server_rank = rm_server_rank rm,
     bm_size = fr_brm_size (cl_new c), bm_error = rm_error rm\<rparr>"

definition as_brm :: "('n, 'd) client \<Rightarrow> response \<Rightarrow> mdhim_brm_t option" where
  "as_brm c r = map_option (brm_of c) (as_rm r)"

definition client_bput where
  "client_bput c bpm_list w =
     (if somes bpm_list = [] then Some ([], w)
      else do {
        (rm_list, w) \<leftarrow> client_bulk c (map (map_option BputM) bpm_list) w;
        case rm_list of None \<Rightarrow> Some ([], w)
        | Some rs \<Rightarrow> do { brms \<leftarrow> collect (as_brm c) rs; Some (brms, w) } })"

definition client_bget where
  "client_bget c bgm_list w =
     (if somes bgm_list = [] then Some ([], w)
      else do {
        (bgrm_list, w) \<leftarrow> client_bulk c (map (map_option BgetM) bgm_list) w;
        case bgrm_list of None \<Rightarrow> Some ([], w)
        | Some rs \<Rightarrow> do { bgrms \<leftarrow> collect as_bgetrm rs; Some (bgrms, w) } })"

definition client_bdelete where
  "client_bdelete c bdm_list w = do {
     (rm_list, w) \<leftarrow> client_bulk c (map (map_option BdelM) bdm_list) w;
     case rm_list of None \<Rightarrow> Some ([], w)
     | Some rs \<Rightarrow> do { brms \<leftarrow> collect (as_brm c) rs; Some (brms, w) } }"

fun close_loop :: "'n mpi \<Rightarrow> rangesrv_info list \<Rightarrow> rs_message \<Rightarrow> 'n \<Rightarrow> 'n option" where
  "close_loop mp [] cm n = Some n"
| "close_loop mp (rs # rss) cm n = do {
     (return_code, n) \<leftarrow> send_rangesrv_work mp (rs_rank rs) cm n;
     close_loop mp rss cm n }"

definition client_close :: "('n, 'd) client \<Rightarrow> mdhim_basem_t \<Rightarrow> ('n, 'd) world \<Rightarrow> ('n, 'd) world option" where
  "client_close c cm w =
     map_option (\<lambda>n. w\<lparr>w_net := n\<rparr>) (close_loop (cl_mpi c) (md_rangesrvs (cl_md c)) (BaseM cm) (w_net w))"

section \<open>Requests to the own process\<close>

text \<open>\<^verbatim>\<open>receive_msg\<close> is a field of the main structure; here it is with the range server, which is the only
  one that sets it.\<close>

definition get_msg_self ::
  "('n, 'd) client \<Rightarrow> ('n, 'd) world \<Rightarrow> (response option \<times> ('n, 'd) world) option" where
  "get_msg_self c w = do {
     st \<leftarrow> w_server w (cl_rank c);
     Some (sv_receive_msg st, w\<lparr>w_server := (w_server w)(cl_rank c \<mapsto> st\<lparr>sv_receive_msg := None\<rparr>)\<rparr>) }"

definition add_item :: "('n, 'd) client \<Rightarrow> nat \<Rightarrow> rs_message \<Rightarrow> ('n, 'd) world \<Rightarrow> ('n, 'd) world" where
  "add_item c item message w =
     w\<lparr>w_queue := (w_queue w)(cl_rank c :=
        range_server_add_work (new_item (w_queue w (cl_rank c)) item message (cl_rank c)) item)\<rparr>"

text \<open>The common body of the local functions; a process without a range server has no queue.\<close>

definition local_request ::
  "('n, 'd) client \<Rightarrow> rs_message \<Rightarrow> ('n, 'd) world \<Rightarrow> (response option \<times> ('n, 'd) world) option" where
  "local_request c message w =
     (case fr_item (cl_new c) of None \<Rightarrow> Some (None, w)
      | Some item \<Rightarrow> do {
          _ \<leftarrow> w_server w (cl_rank c);
          w \<leftarrow> cl_run c (add_item c item message w);
          get_msg_self c w })"

definition local_client_put where
  "local_client_put c pm w = do {
     (rm, w) \<leftarrow> local_request c (PutM pm) w; rm \<leftarrow> as_ptr as_rm rm; Some (rm, w) }"

text \<open>The size is an \<^verbatim>\<open>int64_t\<close>, each summand an \<^verbatim>\<open>int\<close>.\<close>

definition bput_m_size :: "mdhim_bputm_t \<Rightarrow> 64 word" where
  "bput_m_size bpm = fold (\<lambda>i m_size. m_size + scast (snd (bp_key_lens bpm) ! i + snd (bp_value_lens bpm) ! i))
     [0..<nat (sint (bp_num_records bpm))] 56"

definition local_client_bput where
  "local_client_bput c bpm w =
     (if MDHIM_MAX_MSG_SIZE <s bput_m_size bpm then Some (None, w)
      else do { (brm, w) \<leftarrow> local_request c (BputM bpm) w; brm \<leftarrow> as_ptr as_rm brm; Some (brm, w) })"

definition local_client_get where
  "local_client_get c gm w = do {
     (rm, w) \<leftarrow> local_request c (GetM gm) w; rm \<leftarrow> as_ptr as_getrm rm; Some (rm, w) }"

definition local_client_bget where
  "local_client_bget c bgm w = do {
     (rm, w) \<leftarrow> local_request c (BgetM bgm) w; rm \<leftarrow> as_ptr as_bgetrm rm; Some (rm, w) }"

definition local_client_bget_op where
  "local_client_bget_op c gm w = do {
     (rm, w) \<leftarrow> local_request c (GetM gm) w; rm \<leftarrow> as_ptr as_bgetrm rm; Some (rm, w) }"

definition local_client_commit where
  "local_client_commit c cm w = do {
     (rm, w) \<leftarrow> local_request c (BaseM cm) w; rm \<leftarrow> as_ptr as_rm rm; Some (rm, w) }"

definition local_client_delete where
  "local_client_delete c dm w = do {
     (rm, w) \<leftarrow> local_request c (DelM dm) w; rm \<leftarrow> as_ptr as_rm rm; Some (rm, w) }"

definition local_client_bdelete where
  "local_client_bdelete c bdm w = do {
     (brm, w) \<leftarrow> local_request c (BdelM bdm) w; brm \<leftarrow> as_ptr as_rm brm; Some (brm, w) }"

definition local_client_close where
  "local_client_close c cm w =
     (case fr_item (cl_new c) of None \<Rightarrow> Some w
      | Some item \<Rightarrow> do { _ \<leftarrow> w_server w (cl_rank c); Some (add_item c item (BaseM cm) w) })"

section \<open>Operations on one record\<close>

definition im_range_server :: "('n, 'd) client \<Rightarrow> ('n, 'd) world \<Rightarrow> bool" where
  "im_range_server c w \<longleftrightarrow> w_server w (cl_rank c) \<noteq> None"

definition find_server :: "('n, 'd) client \<Rightarrow> blob \<Rightarrow> i32 \<Rightarrow> rangesrv_info option option" where
  "find_server c key key_len = get_range_server (cl_globals c) (cl_md c) (key_arg key) (sint key_len)"

definition mdhimPut ::
  "('n, 'd) client \<Rightarrow> blob \<Rightarrow> i32 \<Rightarrow> blob \<Rightarrow> i32 \<Rightarrow> ('n, 'd) world \<Rightarrow> (mdhim_rm_t option \<times> ('n, 'd) world) option" where
  "mdhimPut c key key_len value value_len w = do {
     ri \<leftarrow> find_server c key key_len;
     case (ri, fr_putm (cl_new c)) of
       (Some ri, Some pm) \<Rightarrow>
         let pm = pm\<lparr>pm_mtype := MDHIM_PUT, pm_key := key, pm_key_len := key_len, pm_value := value,
               pm_value_len := value_len, pm_server_rank := rs_rank ri\<rparr>
         in if im_range_server c w \<and> cl_rank c = pm_server_rank pm then local_client_put c pm w
            else client_put c pm w
     | _ \<Rightarrow> Some (None, w) }"

text \<open>A response structure filled with zeros.\<close>

definition zero_getrm :: mdhim_getrm_t where
  "zero_getrm = \<lparr>gr_mtype = 0, gr_server_rank = 0, gr_size = 0, gr_error = 0, gr_key = NULL_blob, gr_key_len = 0,
     gr_pad0 = 0, gr_value = NULL_blob, gr_value_len = 0, gr_pad1 = 0\<rparr>"

definition zero_bgetrm :: mdhim_bgetrm_t where
  "zero_bgetrm = \<lparr>br_mtype = 0, br_server_rank = 0, br_size = 0, br_error = 0, br_keys = (0, []),
     br_key_lens = (0, []), br_values = (0, []), br_value_lens = (0, []), br_num_records = 0, br_pad = 0, br_next = 0\<rparr>"

text \<open>When the statistics have no server for the key, the log statement reads the number behind the
  pointer \<open>key\<close>, which is undefined for NULL.\<close>

definition mdhimGet ::
  "('n, 'd) client \<Rightarrow> blob \<Rightarrow> i32 \<Rightarrow> int \<Rightarrow> ('n, 'd) world \<Rightarrow> (mdhim_getrm_t option \<times> ('n, 'd) world) option" where
  "mdhimGet c key key_len op w = do {
     ri \<leftarrow> (if op = MDHIM_GET_EQ then find_server c key key_len
           else get_range_server_from_stats (cl_globals c) (cl_md c) (key_arg key) (sint key_len) op);
     case ri of
       None \<Rightarrow> if op \<noteq> MDHIM_GET_EQ
               then (if fst key = 0 then None else Some (Some zero_getrm, w)) else Some (None, w)
     | Some ri \<Rightarrow> (case fr_getm (cl_new c) of None \<Rightarrow> Some (None, w)
         | Some gm \<Rightarrow>
             let gm = gm\<lparr>gm_mtype := MDHIM_GET, gm_op := of_int op, gm_key := key, gm_key_len := key_len,
                   gm_server_rank := rs_rank ri, gm_num_records := 1\<rparr>
             in if im_range_server c w \<and> cl_rank c = gm_server_rank gm then local_client_get c gm w
                else client_get c gm w) }"

definition mdhimBGetOp ::
  "('n, 'd) client \<Rightarrow> blob \<Rightarrow> i32 \<Rightarrow> i32 \<Rightarrow> int \<Rightarrow> ('n, 'd) world \<Rightarrow> (mdhim_bgetrm_t option \<times> ('n, 'd) world) option" where
  "mdhimBGetOp c key key_len num_records op w =
     (if op = MDHIM_GET_EQ then Some (None, w)
      else if sint num_records > MAX_BULK_OPS then Some (None, w)
      else do {
        ri \<leftarrow> get_range_server_from_stats (cl_globals c) (cl_md c) (key_arg key) (sint key_len) op;
        case ri of
          None \<Rightarrow> if fst key = 0 then None else Some (Some zero_bgetrm, w)
        | Some ri \<Rightarrow> (case fr_getm (cl_new c) of None \<Rightarrow> Some (None, w)
            | Some gm \<Rightarrow>
                let gm = gm\<lparr>gm_mtype := MDHIM_GET, gm_op := of_int op, gm_key := key, gm_key_len := key_len,
                      gm_server_rank := rs_rank ri, gm_num_records := num_records\<rparr>
                in if im_range_server c w \<and> cl_rank c = gm_server_rank gm then local_client_bget_op c gm w
                   else client_bget_op c gm w) })"

definition mdhimDelete ::
  "('n, 'd) client \<Rightarrow> blob \<Rightarrow> i32 \<Rightarrow> ('n, 'd) world \<Rightarrow> (mdhim_rm_t option \<times> ('n, 'd) world) option" where
  "mdhimDelete c key key_len w = do {
     ri \<leftarrow> find_server c key key_len;
     case (ri, fr_delm (cl_new c)) of
       (Some ri, Some dm) \<Rightarrow>
         let dm = dm\<lparr>dm_mtype := MDHIM_DEL, dm_key := key, dm_key_len := key_len, dm_server_rank := rs_rank ri\<rparr>
         in if im_range_server c w \<and> cl_rank c = dm_server_rank dm then local_client_delete c dm w
            else client_delete c dm w
     | _ \<Rightarrow> Some (None, w) }"

text \<open>The barriers before and after do nothing to the state of the store.\<close>

definition mdhimCommit :: "('n, 'd) client \<Rightarrow> ('n, 'd) world \<Rightarrow> (int \<times> ('n, 'd) world) option" where
  "mdhimCommit c w =
     (if im_range_server c w
      then do {
        (rm, w) \<leftarrow> local_client_commit c ((fr_basem (cl_new c))\<lparr>bs_mtype := MDHIM_COMMIT\<rparr>) w;
        Some (case rm of None \<Rightarrow> MDHIM_ERROR
              | Some rm \<Rightarrow> if rm_error rm \<noteq> 0 then MDHIM_ERROR else MDHIM_SUCCESS, w) }
      else Some (MDHIM_SUCCESS, w))"

section \<open>Bulk operations\<close>

text \<open>The messages under construction: the one for the own range server, and the array of those for the
  others, by the number of the range server.\<close>

type_synonym 'm slots = "'m option \<times> 'm option list"

text \<open>The body of the loop over the records, the same in the three bulk operations: \<open>new\<close> makes the empty
  message for a range server, \<open>add\<close> adds record \<open>i\<close> to a message.\<close>

definition bulk_body :: "('n, 'd) client \<Rightarrow> (rangesrv_info \<Rightarrow> 'm) \<Rightarrow> (nat \<Rightarrow> 'm \<Rightarrow> 'm) \<Rightarrow> blob list \<Rightarrow> i32 list \<Rightarrow>
    nat \<Rightarrow> 'm slots \<Rightarrow> 'm slots option" where
  "bulk_body c new add keys key_lens i = (\<lambda>(lm, list). do {
     ri \<leftarrow> find_server c (keys ! i) (key_lens ! i);
     case ri of None \<Rightarrow> Some (lm, list)
     | Some ri \<Rightarrow>
         let slot = unat (rs_rangesrv_num ri - 1); mesg = (\<lambda>m. add i (case m of None \<Rightarrow> new ri | Some m \<Rightarrow> m)) in
         if rs_rank ri \<noteq> cl_rank c
         then (if slot < length list then Some (lm, list[slot := Some (mesg (list ! slot))]) else None)
         else Some (Some (mesg lm), list) })"

fun bulk_loop :: "(nat \<Rightarrow> 's \<Rightarrow> 's option) \<Rightarrow> nat list \<Rightarrow> 's \<Rightarrow> 's option" where
  "bulk_loop f [] s = Some s"
| "bulk_loop f (i # is) s = do { s \<leftarrow> f i s; bulk_loop f is s }"

definition no_slots :: "('n, 'd) client \<Rightarrow> 'm slots" where
  "no_slots c = (None, replicate (unat (md_num_rangesrvs (cl_md c))) None)"

definition records :: "i32 \<Rightarrow> nat list" where
  "records num_records = [0..<nat (min (sint num_records) MAX_BULK_OPS)]"

definition new_bputm :: "('n, 'd) client \<Rightarrow> rangesrv_info \<Rightarrow> mdhim_bputm_t" where
  "new_bputm c ri = (let bpm = fr_bputm (cl_new c) ri in
     bpm\<lparr>bp_keys := (fst (bp_keys bpm), []), bp_key_lens := (fst (bp_key_lens bpm), []),
        bp_values := (fst (bp_values bpm), []), bp_value_lens := (fst (bp_value_lens bpm), []),
        bp_num_records := 0, bp_server_rank := rs_rank ri, bp_mtype := MDHIM_BULK_PUT\<rparr>)"

definition add_bputm :: "blob list \<Rightarrow> i32 list \<Rightarrow> blob list \<Rightarrow> i32 list \<Rightarrow> nat \<Rightarrow> mdhim_bputm_t \<Rightarrow> mdhim_bputm_t" where
  "add_bputm keys key_lens values value_lens i bpm =
     bpm\<lparr>bp_keys := (fst (bp_keys bpm), snd (bp_keys bpm) @ [keys ! i]),
        bp_key_lens := (fst (bp_key_lens bpm), snd (bp_key_lens bpm) @ [key_lens ! i]),
        bp_values := (fst (bp_values bpm), snd (bp_values bpm) @ [values ! i]),
        bp_value_lens := (fst (bp_value_lens bpm), snd (bp_value_lens bpm) @ [value_lens ! i]),
        bp_num_records := bp_num_records bpm + 1\<rparr>"

definition mdhimBPut :: "('n, 'd) client \<Rightarrow> blob list \<Rightarrow> i32 list \<Rightarrow> blob list \<Rightarrow> i32 list \<Rightarrow> i32 \<Rightarrow>
    ('n, 'd) world \<Rightarrow> (mdhim_brm_t list \<times> ('n, 'd) world) option" where
  "mdhimBPut c keys key_lens values value_lens num_records w =
     (if sint num_records > MAX_BULK_OPS then Some ([], w)
      else do {
        (lbpm, bpm_list) \<leftarrow> bulk_loop
          (bulk_body c (new_bputm c) (add_bputm keys key_lens values value_lens) keys key_lens)
          (records num_records) (no_slots c);
        (brm_head, w) \<leftarrow> client_bput c bpm_list w;
        case lbpm of None \<Rightarrow> Some (brm_head, w)
        | Some lbpm \<Rightarrow> do {
            (rm, w) \<leftarrow> local_client_bput c lbpm w;
            Some (case rm of None \<Rightarrow> brm_head | Some rm \<Rightarrow> brm_of c rm # brm_head, w) } })"

definition new_bgetm :: "('n, 'd) client \<Rightarrow> rangesrv_info \<Rightarrow> mdhim_bgetm_t" where
  "new_bgetm c ri = (let bgm = fr_bgetm (cl_new c) ri in
     bgm\<lparr>bg_keys := (fst (bg_keys bgm), []), bg_key_lens := (fst (bg_key_lens bgm), []),
        bg_num_records := 0, bg_server_rank := rs_rank ri, bg_mtype := MDHIM_BULK_GET, bg_op := of_int MDHIM_GET_EQ\<rparr>)"

definition add_bgetm :: "blob list \<Rightarrow> i32 list \<Rightarrow> nat \<Rightarrow> mdhim_bgetm_t \<Rightarrow> mdhim_bgetm_t" where
  "add_bgetm keys key_lens i bgm =
     bgm\<lparr>bg_keys := (fst (bg_keys bgm), snd (bg_keys bgm) @ [keys ! i]),
        bg_key_lens := (fst (bg_key_lens bgm), snd (bg_key_lens bgm) @ [key_lens ! i]),
        bg_num_records := bg_num_records bgm + 1\<rparr>"

text \<open>The response of the own server is put in front without a check for NULL.\<close>

definition mdhimBGet :: "('n, 'd) client \<Rightarrow> blob list \<Rightarrow> i32 list \<Rightarrow> i32 \<Rightarrow>
    ('n, 'd) world \<Rightarrow> (mdhim_bgetrm_t list \<times> ('n, 'd) world) option" where
  "mdhimBGet c keys key_lens num_records w =
     (if sint num_records > MAX_BULK_OPS then Some ([], w)
      else do {
        (lbgm, bgm_list) \<leftarrow> bulk_loop (bulk_body c (new_bgetm c) (add_bgetm keys key_lens) keys key_lens)
          (records num_records) (no_slots c);
        (bgrm_head, w) \<leftarrow> client_bget c bgm_list w;
        case lbgm of None \<Rightarrow> Some (bgrm_head, w)
        | Some lbgm \<Rightarrow> do {
            (lbgrm, w) \<leftarrow> local_client_bget c lbgm w;
            lbgrm \<leftarrow> lbgrm;
            Some (lbgrm # bgrm_head, w) } })"

definition new_bdelm :: "('n, 'd) client \<Rightarrow> rangesrv_info \<Rightarrow> mdhim_bdelm_t" where
  "new_bdelm c ri = (let bdm = fr_bdelm (cl_new c) ri in
     bdm\<lparr>bd_keys := (fst (bd_keys bdm), []), bd_key_lens := (fst (bd_key_lens bdm), []),
        bd_num_records := 0, bd_server_rank := rs_rank ri, bd_mtype := MDHIM_BULK_DEL\<rparr>)"

definition add_bdelm :: "blob list \<Rightarrow> i32 list \<Rightarrow> nat \<Rightarrow> mdhim_bdelm_t \<Rightarrow> mdhim_bdelm_t" where
  "add_bdelm keys key_lens i bdm =
     bdm\<lparr>bd_keys := (fst (bd_keys bdm), snd (bd_keys bdm) @ [keys ! i]),
        bd_key_lens := (fst (bd_key_lens bdm), snd (bd_key_lens bdm) @ [key_lens ! i]),
        bd_num_records := bd_num_records bdm + 1\<rparr>"

definition mdhimBDelete :: "('n, 'd) client \<Rightarrow> blob list \<Rightarrow> i32 list \<Rightarrow> i32 \<Rightarrow>
    ('n, 'd) world \<Rightarrow> (mdhim_brm_t list \<times> ('n, 'd) world) option" where
  "mdhimBDelete c keys key_lens num_records w =
     (if sint num_records > MAX_BULK_OPS then Some ([], w)
      else do {
        (lbdm, bdm_list) \<leftarrow> bulk_loop (bulk_body c (new_bdelm c) (add_bdelm keys key_lens) keys key_lens)
          (records num_records) (no_slots c);
        (brm_head, w) \<leftarrow> client_bdelete c bdm_list w;
        case lbdm of None \<Rightarrow> Some (brm_head, w)
        | Some lbdm \<Rightarrow> do {
            (rm, w) \<leftarrow> local_client_bdelete c lbdm w;
            rm \<leftarrow> rm;
            Some (brm_of c rm # brm_head, w) } })"

end
