(* ===== verification/Server_Props.thy ===== *)
theory Server_Props
  imports Server_Spec
begin

text \<open>
  The properties of the range server: refinement of a map by every sequence of requests, the
  statistics, the cursor operations with many records, and the bulk requests that go wrong.
\<close>

section \<open>An example server\<close>

definition example_blocks :: blocks where
  "example_blocks = \<lparr>bl_addr = \<lambda>i. of_nat (8 * Suc i),
     bl_rm = \<lparr>rm_mtype = 0, rm_server_rank = 0, rm_size = 0, rm_error = 0\<rparr>,
     bl_getrm = \<lparr>gr_mtype = 0, gr_server_rank = 0, gr_size = 0, gr_error = 0, gr_key = (0, []), gr_key_len = 0,
       gr_pad0 = 0, gr_value = (0, []), gr_value_len = 0, gr_pad1 = 0\<rparr>,
     bl_bgetrm = \<lparr>br_mtype = 0, br_server_rank = 0, br_size = 0, br_error = 0, br_keys = (0, []),
       br_key_lens = (0, []), br_values = (0, []), br_value_lens = (0, []), br_num_records = 0, br_pad = 0,
       br_next = 0\<rparr>\<rparr>"

abbreviation int_leveldb :: "(key \<times> val) list mdhim_store_t" where
  "int_leveldb \<equiv> leveldb_store (ref_leveldb int_order.key_less)"

definition example_server :: "bool \<Rightarrow> (key \<times> val) list \<Rightarrow> (key \<times> val) list mdhim_rs_t" where
  "example_server app db = \<lparr>sv_md = example_md, sv_rank = 0, sv_value_append = app, sv_store = int_leveldb,
     sv_db_handle = db, sv_db_stats = [], sv_store_stats = None, sv_put_time = 0, sv_get_time = 0,
     sv_num_put = 0, sv_num_get = 0, sv_receive_msg = None, sv_sent = []\<rparr>"

lemma example_server_fields [simp]:
  "sv_md (example_server app db) = example_md" "sv_rank (example_server app db) = 0"
  "sv_value_append (example_server app db) = app" "sv_db_handle (example_server app db) = db"
  by (simp_all add: example_server_def)

lemma int_leveldb_succeeds: "store_succeeds int_leveldb"
  by (simp add: store_succeeds_def mdhim_leveldb_put_def mdhim_leveldb_batch_put_def mdhim_leveldb_del_def
      mdhim_leveldb_commit_def ref_leveldb_def)

lemma int_leveldb_store:
  "ordered_store int_key (call_cmp cmp_int_compare) int_leveldb (\<lambda>d. d) (ref_db_inv int_key int_order.key_less)"
  by unfold_locales

lemma example_server_inv:
  "server_inv int_leveldb (\<lambda>d. d) (ref_db_inv int_key int_order.key_less) example_globals (example_server app [])"
  by (simp add: server_inv_def example_server_def ref_db_inv_def stats_typed_def ut.null ut.get_null)

lemma int_key_known:
  assumes "md_key_type md = MDHIM_INT_KEY" and "mdhim_max_recs_per_slice g \<noteq> 0"
  shows "key_known g md (enc32 w)"
  using integer_slice_val [OF assms(2), of md w 0] assms(1)
  by (simp add: key_known_def key_stat_def key_types)

lemma enc32_eq [simp]: "enc32 a = enc32 b \<longleftrightarrow> a = b"
  by (metis dec32_enc32)

lemma example_known: "key_known example_globals example_md (enc32 w)"
  by (rule int_key_known) (simp_all add: example_md_def example_globals_def)

definition example_put :: "u32 \<Rightarrow> byte list \<Rightarrow> mdhim_putm_t" where
  "example_put k v = \<lparr>pm_mtype = MDHIM_PUT, pm_server_rank = 0, pm_size = 0, pm_pad0 = 0, pm_key = (100, enc32 k),
     pm_key_len = 4, pm_pad1 = 0, pm_value = (200, v), pm_value_len = of_nat (length v), pm_pad2 = 0\<rparr>"

definition example_get :: "u32 \<Rightarrow> i32 \<Rightarrow> i32 \<Rightarrow> mdhim_getm_t" where
  "example_get k num op1 = \<lparr>gm_mtype = MDHIM_GET, gm_server_rank = 0, gm_size = 0, gm_op = op1,
     gm_key = (100, enc32 k), gm_key_len = 4, gm_num_records = num\<rparr>"

definition example_bput :: "u32 list \<Rightarrow> byte list list \<Rightarrow> mdhim_bputm_t" where
  "example_bput ks vs = \<lparr>bp_mtype = MDHIM_BULK_PUT, bp_server_rank = 0, bp_size = 0, bp_pad0 = 0,
     bp_keys = (300, map (\<lambda>k. (100, enc32 k)) ks), bp_key_lens = (400, map (\<lambda>k. 4) ks),
     bp_values = (500, map (\<lambda>v. (200, v)) vs), bp_value_lens = (600, map (\<lambda>v. of_nat (length v)) vs),
     bp_num_records = of_nat (length ks), bp_pad1 = 0\<rparr>"

section \<open>Refinement\<close>

text \<open>C4.  The range server refines a finite map.  For every sequence of well-formed requests of any
  kind (put, get, delete, their bulk forms, commit) from any sources, over any store that keeps
  its contract and does not fail, the server answers every request as the map does, keeps its
  invariant, and ends with the contents of the map.  With the append option a put appends to the
  value that is there; a bulk put reads the old values before it writes any of its records; an
  empty value cannot be read back.\<close>

theorem range_server_refines_map:
  assumes "ordered_store valid cmp store view I" and "store_succeeds store" and "server_inv store view I g st"
    and "requests_ok valid g (sv_md st) (sv_rank st) (sv_value_append st) (map_of (view (sv_db_handle st))) rs"
  shows "\<exists>st'. serve_run g env 0 rs st =
      Some (fst (spec_run (sv_value_append st) rs (map_of (view (sv_db_handle st)))), st') \<and>
    server_inv store view I g st' \<and>
    map_of (view (sv_db_handle st')) = snd (spec_run (sv_value_append st) rs (map_of (view (sv_db_handle st))))"
  using ordered_store.serve_all [OF assms(1,3,2,4)] by blast

theorem range_server_refines_map_witness:
  "\<exists>st'. serve_run example_globals (\<lambda>_. (example_blocks, 0)) 0
      [(PutM (example_put 5 [1, 2]), 3), (PutM (example_put 5 [3]), 0), (GetM (example_get 5 1 0), 3),
       (GetM (example_get 6 1 0), 3)] (example_server True []) =
    Some ([Done 0, Done 0, Value 0 (enc32 5) [1, 2, 3], Value (-2) (enc32 6) []], st') \<and>
    map_of (sv_db_handle st') = [enc32 5 \<mapsto> [1, 2, 3]]"
proof -
  let ?rs = "[(PutM (example_put 5 [1, 2]), 3), (PutM (example_put 5 [3]), 0), (GetM (example_get 5 1 0), 3),
       (GetM (example_get 6 1 0), 3)]"
  have ne: "enc32 6 \<noteq> enc32 5" using dec32_enc32 [of 6] dec32_enc32 [of 5] by force
  have "requests_ok int_key example_globals example_md 0 True Map.empty ?rs"
    by (simp add: example_put_def example_get_def blob_ok_def int_key_def example_known fits_def put_new_def
        enc32_not_Nil ne)
  moreover have "spec_run True ?rs Map.empty =
      ([Done 0, Done 0, Value 0 (enc32 5) [1, 2, 3], Value (-2) (enc32 6) []], [enc32 5 \<mapsto> [1, 2, 3]])"
    by (simp add: example_put_def example_get_def put_new_def read_val_def ne MDHIM_DB_ERROR_def)
  ultimately show ?thesis
    using range_server_refines_map [OF int_leveldb_store int_leveldb_succeeds example_server_inv,
        of True ?rs "\<lambda>_. (example_blocks, 0)"]
    by (auto simp del: serve_run.simps spec_run.simps requests_ok.simps fun_upd_apply)
qed

text \<open>C13.  Whatever requests the server handled, every key that is stored has a number and a slice, the
  statistics of that slice are there, and the number lies between their minimum and maximum, in
  the type that belongs to the key type.\<close>

theorem statistics_cover_keys:
  assumes "ordered_store valid cmp store view I" and "store_succeeds store" and "server_inv store view I g st"
    and "requests_ok valid g (sv_md st) (sv_rank st) (sv_value_append st) (map_of (view (sv_db_handle st))) rs"
    and "serve_run g env 0 rs st = Some (answers, st')" and "k \<in> fst ` set (view (sv_db_handle st'))"
  shows "\<exists>v sl s. key_stat g (md_key_type (sv_md st)) k (int (length k)) = Some v \<and>
    get_slice_num g (sv_md st) (Some k) (int (length k)) = Some sl \<and>
    ut.get (sv_store_stats st') (of_int sl) = Some s \<and>
    stat_less v (st_min s) = Some False \<and> stat_less (st_max s) v = Some False"
proof -
  have "server_inv store view I g st'" "same_server st st'"
    using ordered_store.serve_all [OF assms(1,3,2,4), of env 0] assms(5) by auto
  with assms(6) have "covered g (sv_md st) (sv_store_stats st') k"
    unfolding server_inv_def same_server_def by metis
  then show ?thesis by (auto simp: covered_def covers_def)
qed

theorem statistics_cover_keys_witness:
  "\<exists>answers st' sl s. serve_run example_globals (\<lambda>_. (example_blocks, 0)) 0 [(PutM (example_put 250 [1]), 0)]
      (example_server False []) = Some (answers, st') \<and>
    get_slice_num example_globals example_md (Some (enc32 250)) 4 = Some sl \<and>
    ut.get (sv_store_stats st') (of_int sl) = Some s \<and> stat_less (st_max s) (IStat 250) = Some False"
proof -
  let ?rs = "[(PutM (example_put 250 [1]), 0)]"
  have ok: "requests_ok int_key example_globals (sv_md (example_server False [])) (sv_rank (example_server False []))
      (sv_value_append (example_server False [])) (map_of (sv_db_handle (example_server False []))) ?rs"
    by (simp add: example_put_def blob_ok_def int_key_def example_known fits_def)
  from ordered_store.serve_all [OF int_leveldb_store example_server_inv int_leveldb_succeeds ok,
      of "\<lambda>_. (example_blocks, 0)" 0] obtain st' where run:
    "serve_run example_globals (\<lambda>_. (example_blocks, 0)) 0 ?rs (example_server False []) =
      Some (fst (spec_run False ?rs Map.empty), st')" "map_of (sv_db_handle st') = snd (spec_run False ?rs Map.empty)"
    by (auto simp del: serve_run.simps spec_run.simps requests_ok.simps fun_upd_apply)
  then have "enc32 250 \<in> fst ` set (sv_db_handle st')"
    using keys_of_map [OF run(2)] by (simp add: example_put_def)
  from statistics_cover_keys [OF int_leveldb_store int_leveldb_succeeds example_server_inv ok run(1) this] run(1)
  show ?thesis
    by (auto simp: example_md_def key_stat_def key_types simp del: serve_run.simps spec_run.simps)
qed

section \<open>Cursor operations with many records\<close>

context ordered_store
begin

lemma next_stored:
  assumes "inv d" and "\<not> valid []" and j: "j < length (view d)"
  shows "s_get_next st d (fst (view d ! j)) = entry_at (view d) (Suc j)"
proof -
  have v: "valid (fst (view d ! j))" using j assms(1) by (intro store_valid) auto
  then have ne: "fst (view d ! j) \<noteq> []" using assms(2) by metis
  have "length (takeWhile (\<lambda>e. key_less (fst e) (fst (view d ! j))) (view d)) = j"
    using j store_sorted [OF assms(1)] v
    by (intro length_takeWhile_eq) (auto simp: sorted_wrt_iff_nth_less key_less_irrefl)
  then show ?thesis using store_next [OF assms(1)] v ne by (simp add: next_entry_def)
qed

lemma bget_next_loop:
  assumes "inv d" and "\<not> valid []"
  shows "j < length (view d) \<Longrightarrow>
    bget_op_loop st d MDHIM_GET_NEXT (Suc i) n (Some (fst (view d ! j))) =
    (if j + n < length (view d) then 0 else MDHIM_DB_ERROR,
     map (\<lambda>(k, v). (Some k, Some v)) (take n (drop (Suc j) (view d))))"
proof (induction n arbitrary: i j)
  case 0
  then show ?case by simp
next
  case (Suc n)
  note next_j = next_stored [OF assms Suc.prems]
  show ?case
  proof (cases "Suc j < length (view d)")
    case True
    then have "drop (Suc j) (view d) = view d ! Suc j # drop (Suc (Suc j)) (view d)"
      by (rule Cons_nth_drop_Suc [symmetric])
    with True Suc.IH [OF True] next_j show ?thesis
      by (simp add: entry_at_def return_codes get_ops split_beta)
  next
    case False
    with next_j Suc.prems show ?thesis by (simp add: entry_at_def return_codes get_ops)
  qed
qed

lemma bget_next_from:
  assumes "inv d" and "\<not> valid []" and "i < length (view d)" and "snd (view d ! i) \<noteq> []"
  shows "bget_op_loop st d MDHIM_GET_NEXT 0 (Suc n) (Some (fst (view d ! i))) =
    (if i + n < length (view d) then 0 else MDHIM_DB_ERROR,
     map (\<lambda>(k, v). (Some k, Some v)) (take (Suc n) (drop i (view d))))"
proof -
  obtain k v where e: "view d ! i = (k, v)" by force
  then have kv: "(k, v) \<in> set (view d)" using nth_mem [OF assms(3)] by simp
  then have "map_of (view d) k = Some v" by (rule map_of_is_SomeI [OF store_distinct [OF assms(1)]])
  moreover have "valid k" using kv by (intro store_valid [OF assms(1)]) force
  ultimately have "s_get st d k = (MDHIM_SUCCESS, Some v)"
    using store_get [OF assms(1)] assms(4) e by (simp add: found_def)
  moreover have "drop i (view d) = (k, v) # drop (Suc i) (view d)"
    using Cons_nth_drop_Suc [OF assms(3)] e by simp
  ultimately show ?thesis
    using bget_next_loop [OF assms(1-3), of 0 n] e by (simp add: return_codes get_ops)
qed

end

lemma ans_of_bget_message:
  "ans_of (bget_message bl st error (a, map (\<lambda>(i, k, v). value_blob (f i) k) (enumerate 0 (map (\<lambda>(k, v). (Some k, Some v)) rs)))
     kl (map snd (map (\<lambda>(k, v). (Some k, Some v)) rs)) n) = Values (of_int error) rs"
proof -
  have "map snd (map (\<lambda>(i, k, v). value_blob (f i) k) (enumerate 0 (map (\<lambda>(k, v). (Some k, Some v)) rs))) = map fst rs"
    by (rule nth_equalityI) (auto simp: nth_enumerate_eq value_blob_def split_beta)
  moreover have "map (case_option [] (\<lambda>v. v)) (map snd (map (\<lambda>(k, v). (Some k, Some v)) rs)) = map snd rs"
    by (rule nth_equalityI) (auto simp: split_beta)
  ultimately show ?thesis
    unfolding bget_message_def ans_of.simps by (simp add: snd_value_blobs zip_map_fst_snd del: map_map)
qed

text \<open>C18.  A request for \<open>n + 1\<close> records with MDHIM_GET_NEXT and the key of a stored record: the answer
  starts with the record of that key itself and goes on in key order; when there are fewer
  records than were asked for, all that there are come with the error MDHIM_DB_ERROR.  The
  contents do not change.\<close>

theorem bulk_get_next_answer:
  assumes "ordered_store valid cmp (sv_store st) view I" and "I (sv_db_handle st)" and "\<not> valid []"
    and "i < length (view (sv_db_handle st))" and "snd (view (sv_db_handle st) ! i) \<noteq> []"
    and "snd (gm_key gm) = fst (view (sv_db_handle st) ! i)" and "blob_ok (gm_key gm) (gm_key_len gm)"
    and "fst (gm_key gm) \<noteq> 0" and "sint (gm_num_records gm) = int n + 1" and "int n < MAX_BULK_OPS"
  shows "\<exists>st' m. range_server_bget_op bl elapsed gm source MDHIM_GET_NEXT st = Some st' \<and>
    sv_db_handle st' = sv_db_handle st \<and> answer st' source = Some m \<and>
    ans_of m = Values (if i + n < length (view (sv_db_handle st)) then 0 else of_int MDHIM_DB_ERROR)
      (take (Suc n) (drop i (view (sv_db_handle st))))"
proof -
  let ?v = "view (sv_db_handle st)"
  have "valid (fst (?v ! i))"
    using assms(2,4) ordered_store.store_valid [OF assms(1)] by (metis image_eqI nth_mem)
  then have "snd (gm_key gm) \<noteq> []" using assms(3,6) by metis
  then have "gm_key_len gm \<noteq> 0" using blob_sint [OF assms(7)] by auto
  moreover have "nat (min (sint (gm_num_records gm)) MAX_BULK_OPS) = Suc n" using assms(9,10) by simp
  ultimately show ?thesis
    using assms(6-8) ordered_store.bget_next_from [OF assms(1-5), of n]
    by (simp add: range_server_bget_op_def ans_of_bget_message Let_def
        del: map_map take_Suc_conv_app_nth bget_op_loop.simps)
qed

definition sample_server :: "(key \<times> val) list mdhim_rs_t" where
  "sample_server = example_server False sample_db"

theorem bulk_get_next_answer_witness:
  "\<exists>st' m. range_server_bget_op example_blocks 0 (example_get 4 3 1) 2 MDHIM_GET_NEXT sample_server = Some st' \<and>
    answer st' 2 = Some m \<and> ans_of m = Values (of_int MDHIM_DB_ERROR) [(enc32 4, [40]), (enc32 6, [60])]"
proof -
  have "\<not> int_key []" by (simp add: int_key_def)
  moreover have "sv_store sample_server = int_leveldb" by (simp add: sample_server_def example_server_def)
  ultimately show ?thesis
    using bulk_get_next_answer [of int_key "call_cmp cmp_int_compare" sample_server "\<lambda>d. d"
        "ref_db_inv int_key int_order.key_less" 1 "example_get 4 3 1" 2 example_blocks 0 2]
      int_leveldb_store sample_db
    by (auto simp: sample_server_def sample_db_def example_get_def blob_ok_def MAX_BULK_OPS_def)
qed

text \<open>MDHIM_GET_FIRST and MDHIM_GET_LAST for more than one record, which take no key, never return a
  record: the first round of the loop looks up the empty key, and its failure is the answer.\<close>

theorem bulk_get_first_fails:
  assumes "op = MDHIM_GET_FIRST \<or> op = MDHIM_GET_LAST" and "gm_key_len gm = 0" and "0 < sint (gm_num_records gm)"
    and "s_get (sv_store st) (sv_db_handle st) [] = (MDHIM_DB_ERROR, None)"
  shows "\<exists>st' m. range_server_bget_op bl elapsed gm source op st = Some st' \<and> answer st' source = Some m \<and>
    ans_of m = Values (of_int MDHIM_DB_ERROR) []"
proof -
  obtain n where "nat (min (sint (gm_num_records gm)) MAX_BULK_OPS) = Suc n"
    using assms(3) by (intro that [of "nat (min (sint (gm_num_records gm)) MAX_BULK_OPS) - 1"])
      (simp add: MAX_BULK_OPS_def)
  then show ?thesis
    using assms by (auto simp: range_server_bget_op_def Let_def get_ops return_codes bget_message_def)
qed

theorem bulk_get_first_fails_witness:
  "\<exists>st' m. range_server_bget_op example_blocks 0 ((example_get 4 3 3)\<lparr>gm_key := (0, []), gm_key_len := 0\<rparr>) 2
      MDHIM_GET_FIRST sample_server = Some st' \<and>
    answer st' 2 = Some m \<and> ans_of m = Values (of_int MDHIM_DB_ERROR) []"
  by (rule bulk_get_first_fails)
    (simp_all add: example_get_def sample_server_def example_server_def sample_db_def mdhim_leveldb_get_def
      ref_leveldb_def enc32_not_Nil [symmetric])

section \<open>Bulk puts that go wrong\<close>

lemma update_all_stats_frame:
  "update_all_stats g k l s = Some u \<Longrightarrow> sv_value_append u = sv_value_append s \<and> sv_rank u = sv_rank s"
  by (auto simp: update_all_stats_def Let_def split: bind_splits option.splits)

lemma bput_stats_frame:
  "bput_stats g bim es j s = Some s' \<Longrightarrow> sv_value_append s' = sv_value_append s \<and> sv_rank s' = sv_rank s"
proof (induction es arbitrary: j s)
  case (Cons ex es)
  then show ?case by (cases ex) (auto dest: update_all_stats_frame split: bind_splits)
qed simp

text \<open>C36.  With the append option, a bulk put from another rank that has a key which is already stored frees
  the value of that record in both of its loops: the run is undefined, for every server and store.\<close>

theorem bulk_append_frees_twice:
  assumes "sv_value_append st" and "source \<noteq> sv_rank st" and "i < nat (sint (bp_num_records bim))"
    and "bput_value st bim i = Some (True, v)"
  shows "range_server_bput g bl elapsed bim source st = None"
proof -
  let ?n = "nat (sint (bp_num_records bim))"
  have loop: "loop_opt (bput_value st bim) is = Some rs \<Longrightarrow> j < length is \<Longrightarrow> is ! j = i \<Longrightarrow> fst (rs ! j)" for "is" rs j
    using assms(4)
  proof (induction "is" arbitrary: rs j)
    case (Cons k ks)
    then show ?case by (cases j) (auto split: bind_splits)
  qed simp
  show ?thesis
  proof (cases "loop_opt (bput_value st bim) [0..<?n]")
    case None
    then show ?thesis by (simp add: range_server_bput_def Let_def)
  next
    case (Some rs)
    let ?old = "map (\<lambda>i. snd (s_get (sv_store st) (sv_db_handle st) (bput_key bim i)) \<noteq> None) [0..<?n]"
    obtain error db where put: "s_batch_put (sv_store st) (sv_db_handle st)
        (zip (map (bput_key bim) [0..<?n]) (map snd rs)) = (error, db)" by force
    have "map fst rs ! i" using loop [OF Some, of i] loop_opt_length [OF Some] assms(3) by simp
    then have "sv_value_append st \<and> source \<noteq> sv_rank st \<and> (\<exists>i < ?n. map fst rs ! i)" using assms(1-3) by blast
    from bput_frees(2) [OF this, of ?old] obtain f1 where
      "free_blocks (concat (map (\<lambda>i. bput_read_frees (sv_value_append st) (source \<noteq> sv_rank st) (map fst rs ! i) (?old ! i) i) [0..<?n])) [] = Some f1"
      "free_blocks (concat (map (\<lambda>i. bput_done_frees (sv_value_append st) (source \<noteq> sv_rank st) (map fst rs ! i) i) [0..<?n])) f1 = None"
      by blast
    then show ?thesis
      unfolding range_server_bput_def Some put Let_def
      by (cases "error = MDHIM_SUCCESS"; cases "bput_stats g bim (map fst rs) 0 (st\<lparr>sv_db_handle := db\<rparr>)")
        (simp_all add: Some put del: free_blocks.simps)
  qed
qed

theorem bulk_append_frees_twice_witness:
  "range_server_bput example_globals example_blocks 0 (example_bput [9, 4] [[1], [2]]) 3
     (sample_server\<lparr>sv_value_append := True\<rparr>) = None"
  by (rule bulk_append_frees_twice [where i = 1 and v = "[40, 2]"])
    (simp_all add: example_bput_def sample_server_def example_server_def sample_db_def bput_value_def put_value_def
      bytes_at_def mdhim_leveldb_get_def ref_leveldb_def appended_def len32_def word_sless_alt)

lemma bput_stats_of_result:
  assumes "range_server_bput g bl e bim src st = Some st'" and "store_succeeds (sv_store st)"
    and "loop_opt (bput_value st bim) [0..<nat (sint (bp_num_records bim))] = Some rs"
  shows "\<exists>d s. bput_stats g bim (map fst rs) 0 (st\<lparr>sv_db_handle := d\<rparr>) = Some s \<and>
    sv_store_stats st' = sv_store_stats s"
proof -
  obtain d where put: "s_batch_put (sv_store st) (sv_db_handle st)
      (zip (map (bput_key bim) [0..<nat (sint (bp_num_records bim))]) (map snd rs)) = (MDHIM_SUCCESS, d)"
    using store_succeedsD [OF assms(2)] by blast
  obtain s where "bput_stats g bim (map fst rs) 0 (st\<lparr>sv_db_handle := d\<rparr>) = Some s"
    using assms(1) by (cases "bput_stats g bim (map fst rs) 0 (st\<lparr>sv_db_handle := d\<rparr>)")
      (auto simp: range_server_bput_def assms(3) put Let_def split: if_splits)
  moreover from this have "sv_store_stats st' = sv_store_stats s"
    using assms(1)
    by (auto simp: range_server_bput_def assms(3) put Let_def simp del: free_blocks.simps split: if_splits bind_splits)
  ultimately show ?thesis by blast
qed

lemma update_twice:
  assumes "stats_typed (md_key_type (sv_md s)) (sv_store_stats s)" and "key_known g (sv_md s) k"
    and sl: "get_slice_num g (sv_md s) (Some k) (int (length k)) = Some sl"
    and "ut.get (sv_store_stats s) (of_int sl) = Some os"
  shows "\<exists>t s'. Option.bind (update_all_stats g k (int (length k)) s) (update_all_stats g k (int (length k))) =
      Some (s\<lparr>sv_store_stats := t\<rparr>) \<and> ut.get t (of_int sl) = Some s' \<and> st_num s' = st_num os + 2"
proof -
  from assms(2) obtain v where v: "key_stat g (md_key_type (sv_md s)) k (int (length k)) = Some v"
    by (auto simp: key_known_def)
  from update_all_stats_run [OF assms(1) v sl] obtain t1 where
    t1: "update_all_stats g k (int (length k)) s = Some (s\<lparr>sv_store_stats := t1\<rparr>)"
    "ut.get t1 = (ut.get (sv_store_stats s))(of_int sl \<mapsto> add_key (Some os) sl v)"
    using assms(4) by auto
  then have "stats_typed (md_key_type (sv_md s)) t1" using update_known [OF assms(1,2)] by (auto dest: arg_cong [of _ _ sv_store_stats])
  from update_all_stats_run [of "s\<lparr>sv_store_stats := t1\<rparr>", simplified, OF this v sl] obtain t2 where
    "update_all_stats g k (int (length k)) (s\<lparr>sv_store_stats := t1\<rparr>) = Some (s\<lparr>sv_store_stats := t2\<rparr>)"
    "ut.get t2 = (ut.get t1)(of_int sl \<mapsto> add_key (ut.get t1 (of_int sl)) sl v)" by auto
  with t1 show ?thesis by (auto simp: add_key_def)
qed

text \<open>A bulk put from the server's own rank, without the append option, of one new key in two
  records: one key is stored, with the last value, but the statistics of its slice count two.\<close>

theorem bulk_put_counts_twice:
  assumes "ordered_store valid cmp store view I" and "store_succeeds store" and "server_inv store view I g st"
    and "request_ok valid g (sv_md st) (sv_rank st) (sv_value_append st) (map_of (view (sv_db_handle st))) (BputM bim, src)"
    and "map snd (snd (bp_keys bim)) = [k, k]" and "map snd (snd (bp_values bim)) = [v, w]"
    and "\<not> sv_value_append st" and "k \<notin> fst ` set (view (sv_db_handle st))"
    and "get_slice_num g (sv_md st) (Some k) (int (length k)) = Some sl"
    and "ut.get (sv_store_stats st) (of_int sl) = Some s"
  shows "\<exists>st' s'. range_server_bput g bl elapsed bim src st = Some st' \<and>
    map_of (view (sv_db_handle st')) = (map_of (view (sv_db_handle st)))(k \<mapsto> w) \<and>
    ut.get (sv_store_stats st') (of_int sl) = Some s' \<and> st_num s' = st_num s + 2"
proof -
  let ?m = "map_of (view (sv_db_handle st))"
  from assms(3) have st: "sv_store st = store" "I (sv_db_handle st)"
    and typed: "stats_typed (md_key_type (sv_md st)) (sv_store_stats st)" by (simp_all add: server_inv_def)
  obtain st' where run: "range_server_bput g bl elapsed bim src st = Some st'" "served store view I g (BputM bim) src st st'"
    using ordered_store.bput_run [OF assms(1,3,2,4)] by blast
  have new: "fst (read_val ?m k) \<noteq> 0" using assms(8) read_val_found [of ?m k] by (auto simp: dom_map_of_conv_image_fst)
  from assms(4,5) have known: "key_known g (sv_md st) k" and bk: "list_all2 blob_ok (snd (bp_keys bim)) (snd (bp_key_lens bim))"
    and num: "nat (sint (bp_num_records bim)) = length (snd (bp_keys bim))" and two: "length (snd (bp_keys bim)) = 2"
    by (auto simp: blobs_ok_def map_eq_Cons_conv list_all2_Cons1)
  have keys: "bput_key bim 0 = k" "bput_key bim (Suc 0) = k"
    "sint (snd (bp_key_lens bim) ! 0) = int (length k)" "sint (snd (bp_key_lens bim) ! Suc 0) = int (length k)"
    using bput_key_val [OF bk] two assms(5) blob_sint [OF list_all2_nthD [OF bk, of 0]]
      blob_sint [OF list_all2_nthD [OF bk, of "Suc 0"]] by (auto simp: map_eq_Cons_conv)
  have "loop_opt (bput_value st bim) [0..<nat (sint (bp_num_records bim))] =
      Some [(False, put_new (sv_value_append st) ?m k v), (False, put_new (sv_value_append st) ?m k w)]"
    using ordered_store.bput_values [OF assms(1) st assms(4)] new unfolding num by (simp add: assms(5,6))
  from bput_stats_of_result [OF run(1) _ this] assms(2) st obtain d s2 where
    s2: "bput_stats g bim [False, False] 0 (st\<lparr>sv_db_handle := d\<rparr>) = Some s2" "sv_store_stats st' = sv_store_stats s2"
    by auto
  have one: "bput_stats g bim [False] (Suc 0) = update_all_stats g k (int (length k))"
  proof
    show "bput_stats g bim [False] (Suc 0) u = update_all_stats g k (int (length k)) u" for u
      by (cases "update_all_stats g k (int (length k)) u") (simp_all add: keys)
  qed
  have "Option.bind (update_all_stats g k (int (length k)) (st\<lparr>sv_db_handle := d\<rparr>)) (update_all_stats g k (int (length k))) = Some s2"
    using s2(1) unfolding bput_stats.simps(2) [of g bim False "[False]"] by (simp only: keys one not_False_eq_True if_True)
  with update_twice [of "st\<lparr>sv_db_handle := d\<rparr>" g k sl s] typed known assms(9,10) obtain s' where
    "ut.get (sv_store_stats s2) (of_int sl) = Some s'" "st_num s' = st_num s + 2" by auto
  moreover have "map_of (view (sv_db_handle st')) = ?m(k \<mapsto> w)"
    using run(2) assms(5-7) by (auto simp: served_def put_new_def)
  ultimately show ?thesis using run(1) s2(2) by auto
qed

definition counting_server :: "(key \<times> val) list mdhim_rs_t" where
  "counting_server = (example_server False [])\<lparr>sv_store_stats := HASH_ADD_INT None 2
     \<lparr>st_key = 2, st_max = IStat 249, st_min = IStat 249, st_num = 1\<rparr>\<rparr>"

lemma counting_stats:
  "head_inv (sv_store_stats counting_server)"
  "ut.get (sv_store_stats counting_server) = [2 \<mapsto> \<lparr>st_key = 2, st_max = IStat 249, st_min = IStat 249, st_num = 1\<rparr>]"
proof -
  have e: "head_inv (None :: mdhim_stat ut_head)" by (rule ut.null)
  have l: "HASH_FIND_INT (None :: mdhim_stat ut_head) 2 = None" by (simp add: ut.lookup_None_get ut.get_null)
  have n: "ut.get (None :: mdhim_stat ut_head) = Map.empty" by (rule ext) (rule ut.get_null)
  show "head_inv (sv_store_stats counting_server)"
    "ut.get (sv_store_stats counting_server) = [2 \<mapsto> \<lparr>st_key = 2, st_max = IStat 249, st_min = IStat 249, st_num = 1\<rparr>]"
    by (simp_all add: counting_server_def ut.get_add [OF e l] ut.add_inv [OF e l] n)
qed

lemma counting_inv:
  "server_inv int_leveldb (\<lambda>d. d) (ref_db_inv int_key int_order.key_less) example_globals counting_server"
  using example_server_inv [of False]
  by (simp add: server_inv_def stats_typed_def counting_stats)
    (simp add: counting_server_def example_md_def stat_kind_def is_float_key_def key_types)

theorem bulk_put_counts_twice_witness:
  "\<exists>st' s'. range_server_bput example_globals example_blocks 0 (example_bput [250, 250] [[1], [2]]) 0 counting_server =
      Some st' \<and>
    map_of (sv_db_handle st') = [enc32 250 \<mapsto> [2]] \<and>
    ut.get (sv_store_stats st') 2 = Some s' \<and> st_num s' = 3"
proof -
  have "request_ok int_key example_globals (sv_md counting_server) (sv_rank counting_server)
      (sv_value_append counting_server) (map_of (sv_db_handle counting_server))
      (BputM (example_bput [250, 250] [[1], [2]]), 0)"
    by (simp add: counting_server_def example_bput_def blobs_ok_def blob_ok_def int_key_def example_known fits_def
        MAX_BULK_OPS_def)
  moreover have "get_slice_num example_globals example_md (Some (enc32 250)) 4 = Some 2"
    using integer_slice_val [of example_globals example_md 250 0]
    by (simp add: example_globals_def example_md_def)
  ultimately show ?thesis
    using bulk_put_counts_twice [OF int_leveldb_store int_leveldb_succeeds counting_inv, of _ 0 "enc32 250" "[1]" "[2]" 2
        "\<lparr>st_key = 2, st_max = IStat 249, st_min = IStat 249, st_num = 1\<rparr>" example_blocks 0] counting_stats(2)
    by (simp add: example_bput_def) (simp add: counting_server_def)
qed

end
