(* ===== verification/Cluster.thy ===== *)
theory Cluster
  imports Mdhim_Client Server_Props
begin

text \<open>
  The range servers of all processes as they run while a client waits: the listener threads receive
  requests and put them into the work queues, the worker threads take them out, handle them and send
  the responses.  A schedule is a list of actions of these threads.  The state of a request (on its
  way, in the queue, answered) is followed through every schedule in which the listener of each
  server runs and its worker runs after that.
\<close>

section \<open>The threads of the range servers\<close>

text \<open>One round of the loop of listener_thread, \<open>p\<close> the address of the new work item.  While nothing can be
  received the thread waits.  A commit request that comes over the network has no message to look at.\<close>

definition listener_step :: "'n mpi \<Rightarrow> i32 \<Rightarrow> nat \<Rightarrow> ('n, 'd) world \<Rightarrow> ('n, 'd) world option" where
  "listener_step mp s p w =
     (if \<not> w_listening w s \<or> w_server w s = None then Some w
      else case receive_rangesrv_work mp (w_net w) of None \<Rightarrow> Some w
      | Some (ret, source, message, n) \<Rightarrow>
          let w = w\<lparr>w_net := n\<rparr> in
          if ret < MDHIM_SUCCESS then Some w
          else if ret = sint MDHIM_CLOSE then Some (w\<lparr>w_listening := (w_listening w)(s := False)\<rparr>)
          else do {
            message \<leftarrow> message;
            Some (w\<lparr>w_queue := (w_queue w)(s := range_server_add_work (new_item (w_queue w s) p message source) p)\<rparr>) })"

fun send_responses :: "'n mpi \<Rightarrow> (i32 \<times> response) list \<Rightarrow> 'n \<Rightarrow> 'n option" where
  "send_responses mp [] n = Some n"
| "send_responses mp ((dest, r) # rs) n = do { (ret, n) \<leftarrow> send_client_response mp dest r n; send_responses mp rs n }"

text \<open>One round of the loop of worker_thread over the work items; the responses to other processes that
  the handler left in \<open>sv_sent\<close> go to the network.\<close>

definition worker_step ::
  "'n mpi \<Rightarrow> part_globals \<Rightarrow> i32 \<Rightarrow> blocks \<Rightarrow> rat \<Rightarrow> ('n, 'd) world \<Rightarrow> ('n, 'd) world option" where
  "worker_step mp g s bl elapsed w =
     (case w_server w s of None \<Rightarrow> Some w
      | Some st \<Rightarrow>
        if \<not> w_working w s then Some w
        else let (item, q) = wq_take (w_queue w s); w = w\<lparr>w_queue := (w_queue w)(s := q)\<rparr> in
          case item of None \<Rightarrow> Some w
          | Some (_, message, source) \<Rightarrow>
            if message_type message = MDHIM_CLOSE then Some (w\<lparr>w_working := (w_working w)(s := False)\<rparr>)
            else do {
              st \<leftarrow> handle_work g bl elapsed message source st;
              n \<leftarrow> send_responses mp (sv_sent st) (w_net w);
              Some (w\<lparr>w_server := (w_server w)(s \<mapsto> st\<lparr>sv_sent := []\<rparr>), w_net := n\<rparr>) })"

datatype action = Listen i32 nat | Work i32 blocks rat

fun act :: "(i32 \<Rightarrow> 'n mpi) \<Rightarrow> part_globals \<Rightarrow> action \<Rightarrow> ('n, 'd) world \<Rightarrow> ('n, 'd) world option" where
  "act mpi g (Listen s p) w = listener_step (mpi s) s p w"
| "act mpi g (Work s bl elapsed) w = worker_step (mpi s) g s bl elapsed w"

fun run_actions :: "(i32 \<Rightarrow> 'n mpi) \<Rightarrow> part_globals \<Rightarrow> action list \<Rightarrow> ('n, 'd) world \<Rightarrow> ('n, 'd) world option" where
  "run_actions mpi g [] w = Some w"
| "run_actions mpi g (a # as) w = do { w \<leftarrow> act mpi g a w; run_actions mpi g as w }"

section \<open>The answers of the handlers\<close>

text \<open>Two states of a server with the same rank, mailbox and list of responses.\<close>

definition same_mail :: "'d mdhim_rs_t \<Rightarrow> 'd mdhim_rs_t \<Rightarrow> bool" where
  "same_mail s t \<longleftrightarrow> sv_sent t = sv_sent s \<and> sv_receive_msg t = sv_receive_msg s \<and> sv_rank t = sv_rank s"

lemma update_mail: "update_all_stats g k l s = Some u \<Longrightarrow> same_mail s' s \<Longrightarrow> same_mail s' u"
  by (auto simp: update_all_stats_def same_mail_def Let_def split: bind_splits option.splits)

lemma bput_stats_mail: "bput_stats g bim es j s = Some u \<Longrightarrow> same_mail s' s \<Longrightarrow> same_mail s' u"
proof (induction es arbitrary: j s)
  case (Cons ex es)
  then show ?case by (cases ex) (auto dest: update_mail split: bind_splits)
qed simp

lemma mail_simps [simp]:
  "same_mail s (add_timing e n t m) = same_mail s t" "same_mail s (t\<lparr>sv_db_handle := d\<rparr>) = same_mail s t" "same_mail s s"
  by (simp_all add: same_mail_def add_timing_def)

lemma update_mail_db: "update_all_stats g k l (s\<lparr>sv_db_handle := d\<rparr>) = Some u \<Longrightarrow> same_mail s u"
  by (erule update_mail) simp

lemma bput_stats_mail_db: "bput_stats g bim es j (s\<lparr>sv_db_handle := d\<rparr>) = Some u \<Longrightarrow> same_mail s u"
  by (erule bput_stats_mail) simp

text \<open>A handler sends one response, the last thing it does.\<close>

definition replied :: "i32 \<Rightarrow> 'd mdhim_rs_t \<Rightarrow> 'd mdhim_rs_t \<Rightarrow> response \<Rightarrow> bool" where
  "replied src s s' r \<longleftrightarrow> wf_response r \<and>
     sv_sent s' = (if src = sv_rank s then sv_sent s else sv_sent s @ [(src, r)]) \<and>
     sv_receive_msg s' = (if src = sv_rank s then Some r else sv_receive_msg s)"

lemma replied_send: "same_mail s t \<Longrightarrow> wf_response r \<Longrightarrow> \<exists>r'. replied src s (send_locally_or_remote t src r) r'"
  by (auto simp: replied_def send_locally_or_remote_def same_mail_def)

lemma wf_return [simp]: "wf_response (return_message bl st error)"
  by (simp add: return_message_def)

lemma put_replies: "range_server_put g bl e im src s = Some s' \<Longrightarrow> \<exists>r. replied src s s' r"
  by (auto simp: range_server_put_def Let_def intro!: replied_send dest: update_mail_db
      split: bind_splits prod.splits if_splits)

lemma bput_replies: "range_server_bput g bl e bim src s = Some s' \<Longrightarrow> \<exists>r. replied src s s' r"
  by (auto simp: range_server_bput_def Let_def simp del: free_blocks.simps intro!: replied_send dest: bput_stats_mail_db
      split: bind_splits prod.splits if_splits)

lemma simple_replies:
  "range_server_del bl dm src s = Some s' \<Longrightarrow> \<exists>r. replied src s s' r"
  "range_server_bdel bl bdm src s = Some s' \<Longrightarrow> \<exists>r. replied src s s' r"
  "range_server_commit bl cm src s = Some s' \<Longrightarrow> \<exists>r. replied src s s' r"
  by (auto simp: range_server_del_def range_server_bdel_def range_server_commit_def Let_def
      split: prod.splits intro!: replied_send)

lemma value_blob_len: "len32 (case v of None \<Rightarrow> [] | Some x \<Rightarrow> x) = len32 (snd (value_blob a v))"
  by (simp add: value_blob_def NULL_blob_def split: option.splits)

lemma get_replies:
  assumes "range_server_get bl e gm src MDHIM_GET_EQ s = Some s'" and ok: "blob_ok (gm_key gm) (gm_key_len gm)"
    and "snd (gm_key gm) \<noteq> []"
  shows "\<exists>r. replied src s s' r"
proof -
  have ne: "gm_key_len gm \<noteq> 0" using assms(2,3) of_nat_nonzero [of "length (snd (gm_key gm))"] by (auto simp: blob_ok_def)
  have len: "gm_key_len gm = len32 (snd (gm_key gm))" "bytes_at (gm_key gm) (gm_key_len gm) = snd (gm_key gm)"
    using ok by (simp_all add: blob_ok_def len32_def)
  obtain a v where get: "s_get (sv_store s) (sv_db_handle s) (snd (gm_key gm)) = (a, v)" by force
  have wf: "wf_response (get_message bl t b (x, snd (gm_key gm)) (gm_key_len gm) v)" for t x b
    by (simp add: get_message_def value_blob_len len(1))
  have wf': "wf_response (get_message bl t b (gm_key gm) (gm_key_len gm) v)" for t b
    using wf [of t b "fst (gm_key gm)"] by simp
  show ?thesis
    using assms(1) get ne
    by (auto simp: range_server_get_def get_op_def get_ops len(2) wf wf' Let_def intro!: replied_send split: if_splits)
qed

lemma bget_replies:
  assumes "range_server_bget bl e bgm src s = Some s'" 
    and ks: "blobs_ok (snd (bg_keys bgm)) (snd (bg_key_lens bgm)) (bg_num_records bgm)"
    and max: "int (length (snd (bg_keys bgm))) \<le> MAX_BULK_OPS"
  shows "\<exists>r. replied src s s' r"
proof -
  let ?ks = "snd (bg_keys bgm)" and ?kl = "snd (bg_key_lens bgm)"
  have n: "nat (min (sint (bg_num_records bgm)) MAX_BULK_OPS) = length ?ks"
    "nat (sint (bg_num_records bgm)) = length ?ks" "bg_num_records bgm = of_nat (length ?ks)" "length ?kl = length ?ks"
    using ks max by (auto simp: blobs_ok_def dest: list_all2_lengthD)
  have at: "bytes_at (?ks ! i) (?kl ! i) = snd (?ks ! i)" "?kl ! i = len32 (snd (?ks ! i))" if "i < length ?ks" for i
    using blobs_okD(4) [OF ks that] by (simp_all add: blob_ok_def len32_def)
  have kl: "?kl = map (len32 \<circ> snd) ?ks" using at n by (intro nth_equalityI) simp_all
  have wf: "wf_response (bget_message bl t a b (y, ?kl) vs (bg_num_records bgm))"
    if "map snd (snd b) = map snd ?ks" "length vs = length ?ks" for t a b y vs
  proof -
    have "length (snd b) = length ?ks" using that(1) by (metis length_map)
    moreover have "map (len32 \<circ> snd) (snd b) = map (len32 \<circ> snd) ?ks"
      using that(1) by (metis map_map)
    ultimately show ?thesis
      using that(2) n(3) by (auto simp: bget_message_def kl nth_enumerate_eq value_blob_len [symmetric] comp_def intro!: nth_equalityI)
  qed
  let ?b = "(bl_addr bl 2, map (\<lambda>i. (bl_addr bl (5 + 2 * i), bytes_at (?ks ! i) (?kl ! i))) [0..<length ?ks])"
  have b: "map snd (snd ?b) = map snd ?ks" using at by (intro nth_equalityI) simp_all
  define rs where "rs = map (bget_step s bgm) [0..<length ?ks]"
  define t where "t = add_timing e (int (length (filter (\<lambda>r. fst r = MDHIM_SUCCESS) rs))) s MDHIM_BULK_GET"
  define err where "err = last_error (map fst rs)"
  have vs: "length (map snd rs) = length ?ks" by (simp add: rs_def)
  have lens: "bg_key_lens bgm = (fst (bg_key_lens bgm), ?kl)" "take (length ?ks) ?kl = ?kl" using n(4) by simp_all
  have "s' = send_locally_or_remote t src
      (if src = sv_rank s then bget_message bl t err ?b (bl_addr bl 3, ?kl) (map snd rs) (bg_num_records bgm)
       else bget_message bl t err (bg_keys bgm) (bg_key_lens bgm) (map snd rs) (bg_num_records bgm))"
    using assms(1) unfolding range_server_bget_def Let_def n(1,2) rs_def [symmetric] t_def [symmetric] err_def [symmetric]
    by (cases "src = sv_rank s") (simp_all add: t_def lens(2))
  moreover have "wf_response (bget_message bl t err ?b (bl_addr bl 3, ?kl) (map snd rs) (bg_num_records bgm))"
    using b vs by (rule wf)
  moreover have "wf_response (bget_message bl t err (bg_keys bgm) (bg_key_lens bgm) (map snd rs) (bg_num_records bgm))"
    by (subst lens(1), rule wf [OF refl vs])
  moreover have "same_mail s t" by (simp add: t_def)
  ultimately show ?thesis by (simp add: replied_send del: wf_response.simps)
qed

lemma handle_replies:
  assumes "handle_work g bl e msg src s = Some s'" and "request_ok valid g md rank app m (msg, src)"
  shows "\<exists>r. replied src s s' r"
proof (cases msg)
  case (GetM gm)
  with assms(2) have "sint (gm_op gm) = MDHIM_GET_EQ" by (simp add: MDHIM_GET_EQ_def)
  with assms GetM show ?thesis by (auto simp: handle_work_def message_types intro: get_replies)
qed (use assms in \<open>auto simp: handle_work_def message_types intro: put_replies bput_replies simple_replies bget_replies\<close>)

section \<open>Requests that arrive\<close>

lemma slice_num_md: "md_key_type a = md_key_type b \<Longrightarrow> get_slice_num g a k l = get_slice_num g b k l"
  by (simp add: get_slice_num_def)

lemma request_ok_md:
  assumes "md_key_type a = md_key_type b"
  shows "request_ok valid g a = request_ok valid g b"
proof -
  have "key_known g a = key_known g b"
    using assms slice_num_md [OF assms] by (auto simp: key_known_def fun_eq_iff)
  then show ?thesis
    by (intro ext, rename_tac rank app m x, case_tac x, rename_tac r src, case_tac r) simp_all
qed

lemma list_all2_contents:
  "map snd xs = map snd xs' \<Longrightarrow> map snd ys = map snd ys' \<Longrightarrow>
   list_all2 (\<lambda>k v. P (snd k) (snd v)) xs ys = list_all2 (\<lambda>k v. P (snd k) (snd v)) xs' ys'"
  by (metis list_all2_map1 list_all2_map2)

lemma blobs_ok_contents: "map snd xs = map snd ys \<Longrightarrow> blobs_ok xs lens n = blobs_ok ys lens n"
proof -
  assume eq: "map snd xs = map snd ys"
  have "blob_ok = (\<lambda>b len. length (snd b) < 2147483648 \<and> len = of_nat (length (snd b)))"
    by (simp add: fun_eq_iff blob_ok_def)
  then have "list_all2 blob_ok zs lens =
      list_all2 (\<lambda>v len. length v < 2147483648 \<and> len = of_nat (length v)) (map snd zs) lens" for zs
    by (simp add: list_all2_map1)
  moreover have "length xs = length ys" using eq by (metis length_map)
  ultimately show ?thesis using eq by (simp add: blobs_ok_def)
qed

text \<open>A request that was received is as good as the one that was sent, and means the same.\<close>

lemma same_request_ok:
  assumes "same_request r r'"
  shows "request_ok valid g md rank app m (r', src) = request_ok valid g md rank app m (r, src)"
proof -
  have all: "(\<forall>k \<in> set xs. P (snd k)) = (\<forall>k \<in> set (map snd xs). P k)" for P :: "key \<Rightarrow> bool" and xs :: "blob list"
    by simp
  have len: "length xs = length (map snd xs)" for xs :: "blob list" by simp
  show ?thesis
  proof (cases r)
    case (BputM a)
    then obtain b where b: "r' = BputM b" using assms by (cases r') simp_all
    with BputM assms have eq: "map snd (snd (bp_keys b)) = map snd (snd (bp_keys a))"
      "map snd (snd (bp_values b)) = map snd (snd (bp_values a))" by simp_all
    show ?thesis
      using assms blobs_ok_contents [OF eq(1)] blobs_ok_contents [OF eq(2)]
        list_all2_contents [OF eq, of "\<lambda>k v. valid k \<and> key_known g md k \<and> fits app m k v \<and>
          (app \<and> src \<noteq> rank \<longrightarrow> fst (read_val m k) \<noteq> 0)"]
      unfolding BputM b request_ok.simps len eq by simp
  next
    case (BgetM a)
    then obtain b where b: "r' = BgetM b" using assms by (cases r') simp_all
    with BgetM assms have eq: "map snd (snd (bg_keys b)) = map snd (snd (bg_keys a))" by simp
    show ?thesis
      using assms blobs_ok_contents [OF eq] unfolding BgetM b request_ok.simps all len eq by simp
  next
    case (BdelM a)
    then obtain b where b: "r' = BdelM b" using assms by (cases r') simp_all
    with BdelM assms have eq: "map snd (snd (bd_keys b)) = map snd (snd (bd_keys a))" by simp
    show ?thesis
      using assms blobs_ok_contents [OF eq] unfolding BdelM b request_ok.simps all len eq by simp
  qed (use assms in \<open>cases r'; simp add: blob_ok_def\<close>)+
qed

lemma same_request_serve:
  assumes "same_request r r'"
  shows "spec_serve app r' m = spec_serve app r m"
  using assms
proof (cases r; cases r')
  fix a b assume "r = BdelM a" "r' = BdelM b"
  with assms have "map snd (snd (bd_keys b)) = map snd (snd (bd_keys a))" by simp
  then have "snd ` set (snd (bd_keys b)) = snd ` set (snd (bd_keys a))" by (metis set_map)
  with \<open>r = BdelM a\<close> \<open>r' = BdelM b\<close> show ?thesis by simp
qed simp_all

end
