(* ===== verification/Cluster_Run.thy ===== *)
theory Cluster_Run
  imports Cluster
begin

text \<open>
  What happens to requests that one client sends while nobody else has a request open: whatever the
  schedule of the threads, each request is received, served as the specification of the range server
  says, and answered.
\<close>

section \<open>The cluster\<close>

definition servers :: "mdhim_t \<Rightarrow> i32 set" where
  "servers md = rs_rank ` set (md_rangesrvs md)"

text \<open>Every server has a rank and a number of its own, the numbers from 1 on.\<close>

definition numbered :: "mdhim_t \<Rightarrow> bool" where
  "numbered md \<longleftrightarrow> distinct (map rs_rank (md_rangesrvs md)) \<and> distinct (map rs_rangesrv_num (md_rangesrvs md)) \<and>
     (\<forall>ri \<in> set (md_rangesrvs md). rs_rangesrv_num ri \<noteq> 0 \<and> rs_rangesrv_num ri \<le> md_num_rangesrvs md)"

definition at_rest ::
  "'d mdhim_store_t \<Rightarrow> ('d \<Rightarrow> (key \<times> val) list) \<Rightarrow> ('d \<Rightarrow> bool) \<Rightarrow> part_globals \<Rightarrow> mdhim_t \<Rightarrow> bool \<Rightarrow> i32 \<Rightarrow>
   'd mdhim_rs_t \<Rightarrow> bool" where
  "at_rest store view I g md app s sv \<longleftrightarrow> server_inv store view I g sv \<and> sv_rank sv = s \<and> sv_value_append sv = app \<and>
     md_key_type (sv_md sv) = md_key_type md \<and> sv_sent sv = [] \<and> sv_receive_msg sv = None"

text \<open>Nothing is on its way or queued; every server in the list runs.\<close>

definition idle ::
  "('n \<Rightarrow> i32 \<times> i32 \<times> i32 \<Rightarrow> byte list list) \<Rightarrow> 'd mdhim_store_t \<Rightarrow> ('d \<Rightarrow> (key \<times> val) list) \<Rightarrow> ('d \<Rightarrow> bool) \<Rightarrow>
   part_globals \<Rightarrow> mdhim_t \<Rightarrow> bool \<Rightarrow> ('n, 'd) world \<Rightarrow> bool" where
  "idle chan store view I g md app w \<longleftrightarrow> in_flight (chan (w_net w)) (\<lambda>_. []) (\<lambda>_. []) \<and>
     (\<forall>s. s \<notin> servers md \<longrightarrow> w_server w s = None) \<and>
     (\<forall>s \<in> servers md. w_listening w s \<and> w_working w s \<and> wq_queued (w_queue w s) [] \<and>
        (\<exists>sv. w_server w s = Some sv \<and> at_rest store view I g md app s sv))"

text \<open>In the schedule, every server's listener runs and, later, its worker.\<close>

definition fair :: "i32 set \<Rightarrow> action list \<Rightarrow> bool" where
  "fair S as \<longleftrightarrow> (\<forall>s \<in> S. \<exists>xs p ys bl e zs. as = xs @ Listen s p # ys @ Work s bl e # zs)"

section \<open>The state of a request\<close>

datatype phase = Idle | Sent rs_message | Queued rs_message | Replied rs_message

fun listened :: "phase \<Rightarrow> phase" where
  "listened (Sent m) = Queued m"
| "listened p = p"

fun worked :: "phase \<Rightarrow> phase" where
  "worked (Queued m) = Replied m"
| "worked p = p"

fun move :: "action \<Rightarrow> (i32 \<Rightarrow> phase) \<Rightarrow> (i32 \<Rightarrow> phase)" where
  "move (Listen s p) ph = ph(s := listened (ph s))"
| "move (Work s bl e) ph = ph(s := worked (ph s))"

fun settled :: "phase \<Rightarrow> phase" where
  "settled (Sent m) = Replied m"
| "settled (Queued m) = Replied m"
| "settled p = p"

lemma listened_cases: "listened p = p \<or> (\<exists>m. p = Sent m \<and> listened p = Queued m)"
  by (cases p) simp_all

lemma settled_moves [simp]: "settled (listened p) = settled p" "settled (worked p) = settled p"
  by (cases p; simp)+

lemma settled_move: "settled (move a ph s) = settled (ph s)"
  by (cases a) simp_all

lemma settled_fold: "settled (fold move as ph s) = settled (ph s)"
  by (induction as arbitrary: ph) (simp_all add: settled_move)

lemma not_sent: "(\<forall>m. ph s \<noteq> Sent m) \<Longrightarrow> \<forall>m. fold move as ph s \<noteq> Sent m"
proof (induction as arbitrary: ph)
  case (Cons a as)
  have "\<forall>m. move a ph s \<noteq> Sent m"
  proof (cases a)
    case (Listen t p)
    with Cons.prems show ?thesis by (cases "ph t") auto
  next
    case (Work t bl e)
    with Cons.prems show ?thesis by (cases "ph t") auto
  qed
  with Cons.IH [of "move a ph"] show ?case by simp
qed simp

lemma stays_settled: "settled (ph s) = ph s \<Longrightarrow> fold move as ph s = ph s"
proof (induction as arbitrary: ph)
  case (Cons a as)
  have "move a ph s = ph s"
  proof (cases a)
    case (Listen t p)
    with Cons.prems show ?thesis by (cases "ph t") auto
  next
    case (Work t bl e)
    with Cons.prems show ?thesis by (cases "ph t") auto
  qed
  with Cons show ?case by simp
qed simp

lemma fair_settles:
  assumes "fair S as" and "s \<in> S"
  shows "fold move as ph s = settled (ph s)"
proof -
  obtain xs p ys bl e zs where as: "as = xs @ Listen s p # ys @ Work s bl e # zs"
    using assms unfolding fair_def by blast
  define a where "a = move (Listen s p) (fold move xs ph)"
  define b where "b = fold move ys a"
  define c where "c = move (Work s bl e) b"
  have "\<forall>m. a s \<noteq> Sent m" unfolding a_def by (cases "fold move xs ph s") simp_all
  then have "\<forall>m. b s \<noteq> Sent m" unfolding b_def by (rule not_sent)
  then have c: "settled (c s) = c s" unfolding c_def by (cases "b s") simp_all
  have "fold move as ph s = fold move zs c s" by (simp add: as a_def b_def c_def)
  also have "\<dots> = c s" using c by (rule stays_settled)
  also have "\<dots> = settled (c s)" using c by simp
  also have "\<dots> = settled (ph s)"
    unfolding c_def b_def a_def by (simp add: settled_fold settled_move del: move.simps)
  finally show ?thesis .
qed

text \<open>The requests and the responses of the client \<open>me\<close> that are on their way.\<close>

definition reqs :: "i32 \<Rightarrow> (i32 \<Rightarrow> phase) \<Rightarrow> rs_message transit" where
  "reqs me ph = (\<lambda>(a, b). if a = me then (case ph b of Sent m \<Rightarrow> [m] | _ \<Rightarrow> []) else [])"

definition resps :: "i32 \<Rightarrow> (i32 \<Rightarrow> phase) \<Rightarrow> (i32 \<Rightarrow> response) \<Rightarrow> response transit" where
  "resps me ph rp = (\<lambda>(a, b). if b = me \<and> a \<noteq> me then (case ph a of Replied m \<Rightarrow> [rp a] | _ \<Rightarrow> []) else [])"

section \<open>Every schedule answers the requests\<close>

locale mdhim_cluster = mpi_channels mpi chan + ordered_store valid cmp st view inv
  for mpi :: "i32 \<Rightarrow> 'n mpi" and chan and valid and cmp and st :: "'d mdhim_store_t" and view and inv +
  fixes g :: part_globals and md :: mdhim_t and app :: bool
  assumes succeeds: "store_succeeds st" and numbers: "numbered md"
begin

abbreviation contents_of :: "'d mdhim_rs_t \<Rightarrow> contents" where
  "contents_of sv \<equiv> map_of (view (sv_db_handle sv))"

abbreviation resting :: "i32 \<Rightarrow> 'd mdhim_rs_t \<Rightarrow> bool" where
  "resting \<equiv> at_rest st view inv g md app"

abbreviation quiet :: "('n, 'd) world \<Rightarrow> bool" where
  "quiet \<equiv> idle chan st view inv g md app"

text \<open>The server \<open>s\<close>, which was in state \<open>sv0\<close>, and its queue, in a phase of the request.\<close>

fun server_state :: "i32 \<Rightarrow> i32 \<Rightarrow> 'd mdhim_rs_t \<Rightarrow> response \<Rightarrow> phase \<Rightarrow> rs_message work_queue \<Rightarrow> 'd mdhim_rs_t \<Rightarrow> bool" where
  "server_state me s sv0 r (Queued m) q sv \<longleftrightarrow> sv = sv0 \<and>
     (\<exists>p m'. wq_queued q [(p, m', me)] \<and> (m' = m \<or> same_request m m'))"
| "server_state me s sv0 r (Replied m) q sv \<longleftrightarrow> wq_queued q [] \<and> resting s (sv\<lparr>sv_receive_msg := None\<rparr>) \<and>
     spec_serve app m (contents_of sv0) = (ans_of r, contents_of sv) \<and> wf_response r \<and>
     sv_receive_msg sv = (if s = me then Some r else None)"
| "server_state me s sv0 r p q sv \<longleftrightarrow> sv = sv0 \<and> wq_queued q []"

definition good_request :: "i32 \<Rightarrow> i32 \<Rightarrow> 'd mdhim_rs_t \<Rightarrow> rs_message \<Rightarrow> bool" where
  "good_request me s sv0 m \<longleftrightarrow> request_ok valid g md s app (contents_of sv0) (m, me) \<and>
     (s \<noteq> me \<longrightarrow> reply_fits (fst (spec_serve app m (contents_of sv0))))"

definition phased ::
  "i32 \<Rightarrow> ('n, 'd) world \<Rightarrow> (i32 \<Rightarrow> phase) \<Rightarrow> (i32 \<Rightarrow> response) \<Rightarrow> ('n, 'd) world \<Rightarrow> bool" where
  "phased me w0 ph rp w \<longleftrightarrow> flying (w_net w) (reqs me ph) (resps me ph rp) \<and>
     (\<forall>s. s \<notin> servers md \<longrightarrow> w_server w s = None \<and> ph s = Idle) \<and>
     (\<forall>s \<in> servers md. w_listening w s \<and> w_working w s \<and>
        (\<exists>sv0 sv. w_server w0 s = Some sv0 \<and> w_server w s = Some sv \<and> resting s sv0 \<and>
           (\<forall>m. ph s = Sent m \<or> ph s = Queued m \<longrightarrow> good_request me s sv0 m) \<and>
           server_state me s sv0 (rp s) (ph s) (w_queue w s) sv))"

lemma phased_server:
  assumes "phased me w0 ph rp w" and "s \<in> servers md"
  obtains sv0 sv where "w_server w0 s = Some sv0" "w_server w s = Some sv" "resting s sv0"
    "\<forall>m. ph s = Sent m \<or> ph s = Queued m \<longrightarrow> good_request me s sv0 m"
    "server_state me s sv0 (rp s) (ph s) (w_queue w s) sv" "w_listening w s" "w_working w s"
  using assms unfolding phased_def by blast

text \<open>A step of the server \<open>s\<close>.\<close>

lemma phased_upd:
  assumes ph: "phased me w0 ph rp w" and s: "s \<in> servers md" "w_server w0 s = Some sv0" "resting s sv0"
    and net: "flying (w_net w') (reqs me (ph(s := p))) (resps me (ph(s := p)) (rp(s := r)))"
    and w': "w_queue w' = (w_queue w)(s := q)" "w_server w' = (w_server w)(s \<mapsto> sv)"
      "w_listening w' = w_listening w" "w_working w' = w_working w"
    and st: "server_state me s sv0 r p q sv" "\<And>m. p = Sent m \<or> p = Queued m \<Longrightarrow> good_request me s sv0 m"
  shows "phased me w0 (ph(s := p)) (rp(s := r)) w'"
proof -
  have "w_listening w' t \<and> w_working w' t \<and> (\<exists>sv0 sv'. w_server w0 t = Some sv0 \<and> w_server w' t = Some sv' \<and>
      resting t sv0 \<and> (\<forall>m. (ph(s := p)) t = Sent m \<or> (ph(s := p)) t = Queued m \<longrightarrow> good_request me t sv0 m) \<and>
      server_state me t sv0 ((rp(s := r)) t) ((ph(s := p)) t) (w_queue w' t) sv')" if t: "t \<in> servers md" for t
  proof (cases "t = s")
    case True
    have "w_listening w s \<and> w_working w s" using phased_server [OF ph s(1)] by blast
    with True s st show ?thesis by (simp add: w')
  next
    case False
    then have eq: "(ph(s := p)) t = ph t" "(rp(s := r)) t = rp t" "w_queue w' t = w_queue w t"
      "w_server w' t = w_server w t" by (simp_all add: w')
    from ph t show ?thesis unfolding eq phased_def w'(3,4) by blast
  qed
  moreover have "\<forall>t. t \<notin> servers md \<longrightarrow> w_server w' t = None \<and> (ph(s := p)) t = Idle"
    using ph s(1) by (auto simp: phased_def w')
  ultimately show ?thesis using net unfolding phased_def by blast
qed

lemma listen_moves:
  assumes ph: "phased me w0 ph rp w"
  shows "\<exists>w'. act mpi g (Listen s p) w = Some w' \<and> phased me w0 (move (Listen s p) ph) rp w'"
proof (cases "s \<in> servers md")
  case False
  with ph show ?thesis by (simp add: phased_def listener_step_def fun_upd_idem)
next
  case s: True
  obtain sv0 sv where sv: "w_server w0 s = Some sv0" "w_server w s = Some sv" "resting s sv0"
    "\<forall>m. ph s = Sent m \<or> ph s = Queued m \<longrightarrow> good_request me s sv0 m"
    "server_state me s sv0 (rp s) (ph s) (w_queue w s) sv" "w_listening w s" "w_working w s"
    using phased_server [OF ph s] by blast
  have net: "flying (w_net w) (reqs me ph) (resps me ph rp)" using ph by (simp add: phased_def)
  show ?thesis
  proof (cases "\<exists>m. ph s = Sent m")
    case False
    then have "reqs me ph (a, s) = []" for a by (auto simp: reqs_def split: phase.splits)
    from no_request_waits [OF net this] have "receive_rangesrv_work (mpi s) (w_net w) = None" .
    moreover have "listened (ph s) = ph s" using False by (cases "ph s") auto
    ultimately show ?thesis using ph by (simp add: listener_step_def fun_upd_idem)
  next
    case True
    then obtain m where m: "ph s = Sent m" by blast
    then have "reqs me ph (me, s) \<noteq> []" by (simp add: reqs_def)
    from request_received [OF net this] obtain a msg msg' ms n where rec: "reqs me ph (a, s) = msg # ms"
      "same_request msg msg'" "receive_rangesrv_work (mpi s) (w_net w) = Some (MDHIM_SUCCESS, a, Some msg', n)"
      "flying n ((reqs me ph)((a, s) := ms)) (resps me ph rp)" by blast
    then have a: "a = me" "msg = m" "ms = []" using m by (auto simp: reqs_def split: if_splits)
    have R: "(reqs me ph)((me, s) := []) = reqs me (ph(s := Queued m))" by (auto simp: reqs_def fun_eq_iff)
    have S: "resps me ph rp = resps me (ph(s := Queued m)) (rp(s := rp s))"
      using m by (auto simp: resps_def fun_eq_iff)
    let ?q = "wq_add (w_queue w s) p (msg', me)" 
    let ?w = "w\<lparr>w_net := n, w_queue := (w_queue w)(s := ?q)\<rparr>"
    have "wq_queued (w_queue w s) []" using sv(5) m by simp
    from wq.add_queued [OF this, of p "(msg', me)"] have q: "wq_queued ?q [(p, msg', me)]" by simp
    have "act mpi g (Listen s p) w = Some ?w"
      using sv(2,6) rec(3) a by (simp add: listener_step_def MDHIM_SUCCESS_def message_types wq_add_def)
    moreover have "phased me w0 (ph(s := Queued m)) (rp(s := rp s)) ?w"
    proof (rule phased_upd [OF ph s sv(1,3)])
      show "flying (w_net ?w) (reqs me (ph(s := Queued m))) (resps me (ph(s := Queued m)) (rp(s := rp s)))"
        using rec(4) unfolding a R S by simp
      show "server_state me s sv0 (rp s) (Queued m) ?q sv" using q rec(2) a sv(5) m by auto
      show "w_server ?w = (w_server w)(s \<mapsto> sv)" using sv(2) by (simp add: fun_upd_idem)
    qed (use sv(4) m in simp_all)
    ultimately show ?thesis using m by simp
  qed
qed

text \<open>The worker serves the request in its queue and answers it.\<close>

lemma work_served:
  assumes rest: "resting s sv" and m: "good_request me s sv m" and m': "m' = m \<or> same_request m m'"
  shows "\<exists>sv' r. handle_work g bl e m' me sv = Some sv' \<and> message_type m' \<noteq> MDHIM_CLOSE \<and>
    resting s (sv'\<lparr>sv_sent := [], sv_receive_msg := None\<rparr>) \<and> wf_response r \<and>
    spec_serve app m (contents_of sv) = (ans_of r, contents_of sv') \<and>
    sv_sent sv' = (if s = me then [] else [(me, r)]) \<and> sv_receive_msg sv' = (if s = me then Some r else None)"
proof -
  have sv: "server_inv st view inv g sv" "sv_rank sv = s" "sv_value_append sv = app" "sv_sent sv = []"
    "md_key_type (sv_md sv) = md_key_type md" "sv_receive_msg sv = None" using rest by (simp_all add: at_rest_def)
  have "request_ok valid g md s app (contents_of sv) (m', me)"
    using m m' same_request_ok unfolding good_request_def by blast
  then have ok: "request_ok valid g (sv_md sv) (sv_rank sv) (sv_value_append sv) (contents_of sv) (m', me)"
    using request_ok_md [OF sv(5)] sv by simp
  from serve_one [OF sv(1) succeeds ok] obtain sv' where sv': "handle_work g bl e m' me sv = Some sv'"
    "served st view inv g m' me sv sv'" by blast
  from handle_replies [OF sv'(1) ok] obtain r where r: "replied me sv sv' r" by blast
  obtain r' where r': "answer sv' me = Some r'"
    "spec_serve app m' (contents_of sv) = (ans_of r', contents_of sv')" and same: "same_server sv sv'"
    and inv': "server_inv st view inv g sv'"
    using sv'(2) sv(3) by (auto simp: served_def)
  have "r' = r" using r r'(1) same sv(2,4) by (auto simp: replied_def answer_def same_server_def split: if_splits)
  moreover have "spec_serve app m' = spec_serve app m" using m' same_request_serve by blast
  moreover have "resting s (sv'\<lparr>sv_sent := [], sv_receive_msg := None\<rparr>)"
    using inv' same sv by (simp add: at_rest_def same_server_def server_inv_def)
  moreover have "message_type m' \<noteq> MDHIM_CLOSE"
    using ok by (cases m') (simp_all add: message_types)
  ultimately show ?thesis
    using sv'(1) r r'(2) sv by (intro exI [of _ sv'] exI [of _ r]) (simp add: replied_def eq_commute [of me])
qed

lemma work_moves:
  assumes ph: "phased me w0 ph rp w"
  shows "\<exists>w' rp'. act mpi g (Work s bl e) w = Some w' \<and> phased me w0 (move (Work s bl e) ph) rp' w'"
proof (cases "s \<in> servers md")
  case False
  then have "w_server w s = None" "ph s = Idle" using ph by (simp_all add: phased_def)
  then have "act mpi g (Work s bl e) w = Some w" "move (Work s bl e) ph = ph"
    by (simp_all add: worker_step_def fun_upd_idem)
  with ph show ?thesis by auto
next
  case s: True
  obtain sv0 sv where sv: "w_server w0 s = Some sv0" "w_server w s = Some sv" "resting s sv0"
    "\<forall>m. ph s = Sent m \<or> ph s = Queued m \<longrightarrow> good_request me s sv0 m"
    "server_state me s sv0 (rp s) (ph s) (w_queue w s) sv" "w_listening w s" "w_working w s"
    using phased_server [OF ph s] by blast
  have net: "flying (w_net w) (reqs me ph) (resps me ph rp)" using ph by (simp add: phased_def)
  show ?thesis
  proof (cases "\<exists>m. ph s = Queued m")
    case False
    then have q: "wq_queued (w_queue w s) []" and w: "worked (ph s) = ph s" using sv(5) by (cases "ph s"; auto)+
    obtain q' where q': "wq_take (w_queue w s) = (None, q')" "wq_queued q' []"
      using wq.take_empty [OF q] by (metis prod.collapse)
    let ?w = "w\<lparr>w_queue := (w_queue w)(s := q')\<rparr>"
    have "act mpi g (Work s bl e) w = Some ?w" using sv(2,7) q'(1) by (simp add: worker_step_def)
    moreover have "phased me w0 (ph(s := ph s)) (rp(s := rp s)) ?w"
    proof (rule phased_upd [OF ph s sv(1,3)])
      show "server_state me s sv0 (rp s) (ph s) q' sv" using sv(5) q'(2) False by (cases "ph s") auto
      show "w_server ?w = (w_server w)(s \<mapsto> sv)" using sv(2) by (simp add: fun_upd_idem)
    qed (use net sv(4) in auto)
    ultimately show ?thesis using w by auto
  next
    case True
    then obtain m where m: "ph s = Queued m" by blast
    then obtain p m' where q: "wq_queued (w_queue w s) [(p, m', me)]" "m' = m \<or> same_request m m'" "sv = sv0"
      using sv(5) by auto
    obtain q' where q': "wq_take (w_queue w s) = (Some (p, m', me), q')" "wq_queued q' []"
      using wq.take_queued [OF q(1)] by (metis prod.collapse)
    have good: "good_request me s sv0 m" using sv(4) m by blast
    from work_served [OF sv(3) this q(2)] obtain sv' r where sv': "handle_work g bl e m' me sv0 = Some sv'"
      "message_type m' \<noteq> MDHIM_CLOSE" "resting s (sv'\<lparr>sv_sent := [], sv_receive_msg := None\<rparr>)" "wf_response r"
      "spec_serve app m (contents_of sv0) = (ans_of r, contents_of sv')"
      "sv_sent sv' = (if s = me then [] else [(me, r)])" "sv_receive_msg sv' = (if s = me then Some r else None)"
      by blast
    have R: "reqs me (ph(s := Replied m)) = reqs me ph" using m by (auto simp: reqs_def fun_eq_iff)
    have "\<exists>n. send_responses (mpi s) (sv_sent sv') (w_net w) = Some n \<and>
        flying n (reqs me ph) (resps me (ph(s := Replied m)) (rp(s := r)))"
    proof (cases "s = me")
      case True
      then have "resps me (ph(s := Replied m)) (rp(s := r)) = resps me ph rp" by (auto simp: resps_def fun_eq_iff split: phase.splits)
      with True net sv'(6) show ?thesis by simp
    next
      case False
      then have "reply_fits (ans_of r)" using good sv'(5) by (simp add: good_request_def)
      from response_sent [OF net sv'(4) this, of s me] obtain n where n:
        "send_client_response (mpi s) me r (w_net w) = Some (MDHIM_SUCCESS, n)"
        "flying n (reqs me ph) ((resps me ph rp)((s, me) := resps me ph rp (s, me) @ [r]))" by blast
      have "(resps me ph rp)((s, me) := resps me ph rp (s, me) @ [r]) = resps me (ph(s := Replied m)) (rp(s := r))"
        using False m by (auto simp: resps_def fun_eq_iff split: phase.splits)
      with n False sv'(6) show ?thesis by simp
    qed
    then obtain n where n: "send_responses (mpi s) (sv_sent sv') (w_net w) = Some n"
      "flying n (reqs me ph) (resps me (ph(s := Replied m)) (rp(s := r)))" by blast
    let ?sv = "sv'\<lparr>sv_sent := []\<rparr>"
    let ?w = "w\<lparr>w_queue := (w_queue w)(s := q'), w_server := (w_server w)(s \<mapsto> ?sv), w_net := n\<rparr>"
    have "act mpi g (Work s bl e) w = Some ?w"
      using sv(2,7) q'(1) sv'(1,2) n(1) q(3) by (simp add: worker_step_def)
    moreover have "phased me w0 (ph(s := Replied m)) (rp(s := r)) ?w"
    proof (rule phased_upd [OF ph s sv(1,3)])
      show "server_state me s sv0 r (Replied m) q' ?sv" using q'(2) sv' by simp
      show "flying (w_net ?w) (reqs me (ph(s := Replied m))) (resps me (ph(s := Replied m)) (rp(s := r)))"
        using n(2) R by simp
    qed simp_all
    ultimately show ?thesis using m by auto
  qed
qed

lemma actions_move:
  "phased me w0 ph rp w \<Longrightarrow> \<exists>w' rp'. run_actions mpi g as w = Some w' \<and> phased me w0 (fold move as ph) rp' w'"
proof (induction as arbitrary: ph rp w)
  case (Cons a as)
  have "\<exists>w1 rp1. act mpi g a w = Some w1 \<and> phased me w0 (move a ph) rp1 w1"
    using listen_moves [OF Cons.prems] work_moves [OF Cons.prems] by (cases a) blast+
  then obtain w1 rp1 where w1: "act mpi g a w = Some w1" "phased me w0 (move a ph) rp1 w1" by blast
  from Cons.IH [OF w1(2)] w1(1) show ?case by auto
qed auto

lemma fair_run:
  assumes ph: "phased me w0 ph rp w" and "fair (servers md) as"
  shows "\<exists>w' rp'. run_actions mpi g as w = Some w' \<and> phased me w0 (settled \<circ> ph) rp' w'"
proof -
  obtain w' rp' where w': "run_actions mpi g as w = Some w'" "phased me w0 (fold move as ph) rp' w'"
    using actions_move [OF ph] by blast
  have "fold move as ph s = settled (ph s)" for s
  proof (cases "s \<in> servers md")
    case True
    then show ?thesis using fair_settles assms(2) by blast
  next
    case False
    then have "ph s = Idle" using ph by (simp add: phased_def)
    then show ?thesis using stays_settled [of ph s as] by simp
  qed
  then have "fold move as ph = settled \<circ> ph" by auto
  with w' show ?thesis by auto
qed

end

end
