(* ===== verification/Cluster_Calls.thy ===== *)
theory Cluster_Calls
  imports Cluster_Run
begin

text \<open>
  One call of a client while the rest of the cluster is quiet: a request to one server, requests to
  several, a request to the own server.  Each returns the answer of the specification and leaves the
  cluster quiet again, with the contents of the servers changed as the specification says.
\<close>

definition server_contents :: "('d \<Rightarrow> (key \<times> val) list) \<Rightarrow> ('n, 'd) world \<Rightarrow> i32 \<Rightarrow> contents" where
  "server_contents view w s =
     (case w_server w s of None \<Rightarrow> Map.empty | Some sv \<Rightarrow> map_of (view (sv_db_handle sv)))"

text \<open>The tables that decide where a request goes; the communicator of a process, and the statistics it has
  fetched, are its own.\<close>

definition same_routing :: "mdhim_t \<Rightarrow> mdhim_t \<Rightarrow> bool" where
  "same_routing md md' \<longleftrightarrow> md_key_type md' = md_key_type md \<and> md_num_rangesrvs md' = md_num_rangesrvs md \<and>
     md_rangesrvs md' = md_rangesrvs md"

lemma same_routing_refl [simp]: "same_routing md md"
  by (simp add: same_routing_def)

lemma same_routing_server: "same_routing md md' \<Longrightarrow> get_range_server g md' k len = get_range_server g md k len"
proof -
  assume "same_routing md md'"
  then have md: "md_key_type md' = md_key_type md" "md_num_rangesrvs md' = md_num_rangesrvs md" "md_rangesrvs md' = md_rangesrvs md"
    by (simp_all add: same_routing_def)
  have "get_slice_num g md' k len = get_slice_num g md k len" unfolding get_slice_num_def md ..
  then show ?thesis unfolding get_range_server_def get_range_server_by_slice_def md by simp
qed

text \<open>What a client needs: the tables and the rank of its process, memory, and processes that go on
  running while it waits.\<close>

definition client_ok :: "(i32 \<Rightarrow> 'n mpi) \<Rightarrow> part_globals \<Rightarrow> mdhim_t \<Rightarrow> i32 \<Rightarrow> ('n, 'd) client \<Rightarrow> bool" where
  "client_ok mpi g md me c \<longleftrightarrow> cl_rank c = me \<and> cl_globals c = g \<and> same_routing md (cl_md c) \<and> cl_mpi c = mpi me \<and>
     (\<exists>as. fair (servers md) as \<and> cl_run c = run_actions mpi g as) \<and>
     fr_putm (cl_new c) \<noteq> None \<and> fr_getm (cl_new c) \<noteq> None \<and> fr_delm (cl_new c) \<noteq> None \<and> fr_item (cl_new c) \<noteq> None"

text \<open>The phase of the servers just after the requests were sent.\<close>

definition sent_to :: "(i32 \<rightharpoonup> rs_message) \<Rightarrow> i32 \<Rightarrow> phase" where
  "sent_to ms s = (case ms s of None \<Rightarrow> Idle | Some m \<Rightarrow> Sent m)"

lemma reqs_sent_to_empty: "reqs me (sent_to Map.empty) = (\<lambda>_. [])"
  by (auto simp: reqs_def sent_to_def)

lemma reqs_sent_to_upd:
  "ms s = None \<Longrightarrow> reqs me (sent_to (ms(s \<mapsto> m))) = (reqs me (sent_to ms))((me, s) := reqs me (sent_to ms) (me, s) @ [m])"
  by (auto simp: reqs_def sent_to_def fun_eq_iff)

lemma resps_sent_to: "resps me (sent_to ms) rp = (\<lambda>_. [])"
  by (auto simp: resps_def sent_to_def fun_eq_iff split: option.splits)

lemma settled_sent_to: "(settled \<circ> sent_to ms) s = (case ms s of None \<Rightarrow> Idle | Some m \<Rightarrow> Replied m)"
  by (simp add: sent_to_def split: option.splits)

lemma reqs_settled: "reqs me (settled \<circ> ph) = (\<lambda>_. [])"
proof -
  have "settled p \<noteq> Sent m" for p m by (cases p) simp_all
  then show ?thesis by (auto simp: reqs_def fun_eq_iff split: phase.splits)
qed

text \<open>The messages by the rank they go to.\<close>

definition by_rank :: "rs_message list \<Rightarrow> i32 \<rightharpoonup> rs_message" where
  "by_rank ms = map_of (map (\<lambda>m. (message_server_rank m, m)) ms)"

lemma add_requests_sent:
  "distinct (map message_server_rank ms) \<Longrightarrow> (\<And>m. m \<in> set ms \<Longrightarrow> f (message_server_rank m) = None) \<Longrightarrow>
   add_requests (reqs me (sent_to f)) me ms = reqs me (sent_to (f ++ by_rank ms))"
proof (induction ms arbitrary: f)
  case (Cons m ms)
  let ?s = "message_server_rank m"
  have "add_requests (reqs me (sent_to f)) me (m # ms) = add_requests (reqs me (sent_to (f(?s \<mapsto> m)))) me ms"
    using Cons.prems(2) [of m] by (simp add: add_requests_def reqs_sent_to_upd)
  also have "\<dots> = reqs me (sent_to (f(?s \<mapsto> m) ++ by_rank ms))"
    using Cons.prems by (intro Cons.IH) (auto simp: image_iff)
  also have "f(?s \<mapsto> m) ++ by_rank ms = f ++ by_rank (m # ms)"
  proof -
    have "by_rank ms ?s = None" using Cons.prems(1) by (auto simp: by_rank_def map_of_eq_None_iff)
    then show ?thesis by (auto simp: by_rank_def map_add_def fun_eq_iff split: option.splits)
  qed
  finally show ?case .
qed (simp add: add_requests_def by_rank_def)

context mdhim_cluster
begin

abbreviation contents_at :: "('n, 'd) world \<Rightarrow> i32 \<Rightarrow> contents" where
  "contents_at \<equiv> server_contents view"

text \<open>The servers served the requests \<open>ms\<close>, one at most each, and all is quiet again.\<close>

definition after :: "(i32 \<rightharpoonup> rs_message) \<Rightarrow> ('n, 'd) world \<Rightarrow> ('n, 'd) world \<Rightarrow> bool" where
  "after ms w w' \<longleftrightarrow> quiet w' \<and> (\<forall>s. contents_at w' s =
     (case ms s of None \<Rightarrow> contents_at w s | Some m \<Rightarrow> snd (spec_serve app m (contents_at w s))))"

lemma quiet_server:
  assumes "quiet w" and "s \<in> servers md"
  obtains sv where "w_server w s = Some sv" "resting s sv" "contents_at w s = contents_of sv"
proof -
  from assms obtain sv where "w_server w s = Some sv" "resting s sv" unfolding idle_def by blast
  then show ?thesis using that by (simp add: server_contents_def)
qed

definition good_at :: "i32 \<Rightarrow> ('n, 'd) world \<Rightarrow> i32 \<Rightarrow> rs_message \<Rightarrow> bool" where
  "good_at me w s m \<longleftrightarrow> s \<in> servers md \<and> request_ok valid g md s app (contents_at w s) (m, me) \<and>
     (s \<noteq> me \<longrightarrow> reply_fits (fst (spec_serve app m (contents_at w s))))"

lemma good_at_request: "good_at me w s m \<Longrightarrow> w_server w s = Some sv \<Longrightarrow> good_request me s sv m"
  by (simp add: good_at_def good_request_def server_contents_def)

lemma start:
  assumes q: "quiet w" and ms: "\<And>s m. ms s = Some m \<Longrightarrow> good_at me w s m"
    and net: "flying n (reqs me (sent_to ms)) (\<lambda>_. [])"
  shows "phased me w (sent_to ms) rp (w\<lparr>w_net := n\<rparr>)"
  unfolding phased_def
proof (intro conjI ballI allI impI)
  show "flying (w_net (w\<lparr>w_net := n\<rparr>)) (reqs me (sent_to ms)) (resps me (sent_to ms) rp)"
    using net by (simp add: resps_sent_to)
  fix s
  show "w_server (w\<lparr>w_net := n\<rparr>) s = None" if "s \<notin> servers md" using q that by (simp add: idle_def)
  show "sent_to ms s = Idle" if "s \<notin> servers md" using ms [of s] that
    by (cases "ms s") (auto simp: sent_to_def good_at_def)
  assume s: "s \<in> servers md"
  then show "w_listening (w\<lparr>w_net := n\<rparr>) s" "w_working (w\<lparr>w_net := n\<rparr>) s" using q by (simp_all add: idle_def)
  obtain sv where sv: "w_server w s = Some sv" "resting s sv" using quiet_server [OF q s] by blast
  have "good_request me s sv m" if "sent_to ms s = Sent m \<or> sent_to ms s = Queued m" for m
    using that ms good_at_request [OF _ sv(1)] by (auto simp: sent_to_def split: option.splits)
  moreover have "server_state me s sv (rp s) (sent_to ms s) (w_queue w s) sv"
    using q s by (simp add: sent_to_def idle_def split: option.splits)
  ultimately show "\<exists>sv0 sv. w_server w s = Some sv0 \<and> w_server (w\<lparr>w_net := n\<rparr>) s = Some sv \<and> resting s sv0 \<and>
      (\<forall>m. sent_to ms s = Sent m \<or> sent_to ms s = Queued m \<longrightarrow> good_request me s sv0 m) \<and>
      server_state me s sv0 (rp s) (sent_to ms s) (w_queue (w\<lparr>w_net := n\<rparr>) s) sv"
    using sv by simp
qed

text \<open>When all requests are answered and the responses received.\<close>

lemma finish:
  assumes ph: "phased me w0 ph rp w" and q: "quiet w0"
    and phs: "\<And>s. ph s = (case ms s of None \<Rightarrow> Idle | Some m \<Rightarrow> Replied m)"
    and w': "flying (w_net w') (\<lambda>_. []) (\<lambda>_. [])" "w_queue w' = w_queue w" "w_listening w' = w_listening w"
      "w_working w' = w_working w" "\<And>s. w_server w' s = map_option (\<lambda>sv. sv\<lparr>sv_receive_msg := None\<rparr>) (w_server w s)"
  shows "after ms w0 w'"
proof -
  have out: "w_server w s = None" "ms s = None" "w_server w0 s = None" if "s \<notin> servers md" for s
    using ph q that phs [of s] by (auto simp: phased_def idle_def split: option.splits)
  have inside: "wq_queued (w_queue w s) [] \<and> (\<exists>sv. w_server w' s = Some sv \<and> resting s sv) \<and> contents_at w' s =
      (case ms s of None \<Rightarrow> contents_at w0 s | Some m \<Rightarrow> snd (spec_serve app m (contents_at w0 s)))"
    if s: "s \<in> servers md" for s
  proof -
    obtain sv0 sv where sv: "w_server w0 s = Some sv0" "w_server w s = Some sv" "resting s sv0"
      "server_state me s sv0 (rp s) (ph s) (w_queue w s) sv"
      using phased_server [OF ph s] by blast
    show ?thesis
    proof (cases "ms s")
      case None
      moreover from sv(3) have "sv0\<lparr>sv_receive_msg := None\<rparr> = sv0" by (simp add: at_rest_def)
      ultimately show ?thesis using sv phs by (simp add: server_contents_def w')
    next
      case (Some m)
      with sv(4) phs [of s] have "wq_queued (w_queue w s) []" "resting s (sv\<lparr>sv_receive_msg := None\<rparr>)"
        "spec_serve app m (contents_of sv0) = (ans_of (rp s), contents_of sv)" by simp_all
      then show ?thesis using sv(1,2) Some by (simp add: server_contents_def w')
    qed
  qed
  have "contents_at w' s =
      (case ms s of None \<Rightarrow> contents_at w0 s | Some m \<Rightarrow> snd (spec_serve app m (contents_at w0 s)))" for s
    using inside [of s] out [of s] by (cases "s \<in> servers md") (simp_all add: server_contents_def w')
  moreover have "w_listening w s \<and> w_working w s" if "s \<in> servers md" for s using ph that by (simp add: phased_def)
  ultimately show ?thesis using w' out inside by (simp add: after_def idle_def)
qed

text \<open>The mailbox of the client's own server is empty unless that server answered it.\<close>

lemma no_mail:
  assumes ph: "phased me w0 ph rp w" and "\<And>m. ph me \<noteq> Replied m"
  shows "map_option (\<lambda>sv. sv\<lparr>sv_receive_msg := None\<rparr>) (w_server w s) = w_server w s"
proof (cases "s \<in> servers md")
  case True
  obtain sv0 sv where sv: "w_server w s = Some sv" "resting s sv0"
    "server_state me s sv0 (rp s) (ph s) (w_queue w s) sv"
    using phased_server [OF ph True] by blast
  have "sv_receive_msg sv = None" using sv(2,3) assms(2) by (cases "ph s"; cases "s = me") (auto simp: at_rest_def)
  with sv(1) show ?thesis by simp
qed (use ph in \<open>simp add: phased_def\<close>)

lemma remote_call:
  assumes q: "quiet w" and c: "client_ok mpi g md me c" and m: "good_at me w s m" "sendable m sz" and ne: "s \<noteq> me"
  shows "\<exists>r w'. client_request c s m w = Some (Some r, w') \<and> wf_response r \<and>
    ans_of r = fst (spec_serve app m (contents_at w s)) \<and> after [s \<mapsto> m] w w'"
proof -
  obtain as where as: "fair (servers md) as" "cl_run c = run_actions mpi g as" and mp: "cl_mpi c = mpi me"
    using c by (auto simp: client_ok_def)
  have s: "s \<in> servers md" using m(1) by (simp add: good_at_def)
  have "flying (w_net w) (reqs me (sent_to Map.empty)) (\<lambda>_. [])" using q by (simp add: idle_def reqs_sent_to_empty)
  from request_sent [OF this m(2), of me s] reqs_sent_to_upd [of Map.empty s me m] obtain n where
    n: "send_rangesrv_work (mpi me) s m (w_net w) = Some (MDHIM_SUCCESS, n)" "flying n (reqs me (sent_to [s \<mapsto> m])) (\<lambda>_. [])"
    by auto
  have "phased me w (sent_to [s \<mapsto> m]) undefined (w\<lparr>w_net := n\<rparr>)"
    using m(1) by (intro start [OF q _ n(2)]) (auto split: if_splits)
  from fair_run [OF this as(1)] obtain w1 rp where
    w1: "run_actions mpi g as (w\<lparr>w_net := n\<rparr>) = Some w1" "phased me w (settled \<circ> sent_to [s \<mapsto> m]) rp w1" by blast
  let ?ph = "settled \<circ> sent_to [s \<mapsto> m]"
  have net1: "flying (w_net w1) (\<lambda>_. []) (resps me ?ph rp)"
    using w1(2) by (simp add: phased_def reqs_settled)
  have "resps me ?ph rp (s, me) = [rp s]" using ne by (simp add: resps_def sent_to_def)
  from response_received [OF net1 this] obtain r' n' where r': "wf_response r'" "ans_of r' = ans_of (rp s)"
    "receive_client_response (mpi me) s (w_net w1) = Some (MDHIM_SUCCESS, Some r', n')"
    "flying n' (\<lambda>_. []) (take_responses (resps me ?ph rp) [s] me)" by blast
  have "take_responses (resps me ?ph rp) [s] me = (\<lambda>_. [])"
    by (auto simp: take_responses_def resps_def sent_to_def fun_eq_iff split: phase.splits if_splits)
  then have "flying n' (\<lambda>_. []) (\<lambda>_. [])" using r'(4) by simp
  then have "after [s \<mapsto> m] w (w1\<lparr>w_net := n'\<rparr>)"
    using ne settled_sent_to no_mail [OF w1(2)]
    by (intro finish [OF w1(2) q]) (auto simp: sent_to_def)
  moreover obtain sv0 sv where "w_server w s = Some sv0" "server_state me s sv0 (rp s) (?ph s) (w_queue w1 s) sv"
    using phased_server [OF w1(2) s] by blast
  then have "ans_of (rp s) = fst (spec_serve app m (contents_at w s))"
    by (simp add: sent_to_def server_contents_def)
  ultimately show ?thesis
    using n(1) w1(1) as(2) mp r' by (simp add: client_request_def MDHIM_SUCCESS_def)
qed

lemma local_call:
  assumes q: "quiet w" and c: "client_ok mpi g md me c" and m: "good_at me w me m"
  shows "\<exists>r w'. local_request c m w = Some (Some r, w') \<and> wf_response r \<and>
    ans_of r = fst (spec_serve app m (contents_at w me)) \<and> after [me \<mapsto> m] w w'"
proof -
  obtain as p where as: "fair (servers md) as" "cl_run c = run_actions mpi g as" and p: "fr_item (cl_new c) = Some p"
    and me: "cl_rank c = me"
    using c by (auto simp: client_ok_def)
  have s: "me \<in> servers md" using m by (simp add: good_at_def)
  obtain sv where sv: "w_server w me = Some sv" "resting me sv" using quiet_server [OF q s] by blast
  let ?w = "add_item c p m w" and ?ph = "(\<lambda>s. Idle)(me := Queued m)"
  have w0: "phased me w (\<lambda>s. Idle) undefined w"
  proof -
    have "flying (w_net w) (reqs me (sent_to Map.empty)) (\<lambda>_. [])" using q by (simp add: idle_def reqs_sent_to_empty)
    from start [OF q _ this, of undefined] have "phased me w (sent_to Map.empty) undefined w" by simp
    moreover have "sent_to Map.empty = (\<lambda>s. Idle)" by (simp add: sent_to_def fun_eq_iff)
    ultimately show ?thesis by simp
  qed
  have none: "reqs me ?ph = (\<lambda>_. [])" "resps me ?ph rp = (\<lambda>_. [])" for rp
    by (auto simp: reqs_def resps_def fun_eq_iff)
  have qu: "w_queue ?w = (w_queue w)(me := wq_add (w_queue w me) p (m, me))"
    by (simp add: add_item_def me wq_add_def)
  have "wq_queued (w_queue w me) []" using q s by (simp add: idle_def)
  from wq.add_queued [OF this, of p "(m, me)"] have added: "wq_queued (wq_add (w_queue w me) p (m, me)) [(p, m, me)]"
    by simp
  have "phased me w ?ph (undefined(me := undefined)) ?w"
  proof (rule phased_upd [OF w0 s sv])
    show "flying (w_net ?w) (reqs me ?ph) (resps me ?ph (undefined(me := undefined)))"
      using q unfolding none by (simp add: idle_def add_item_def)
    show "w_server ?w = (w_server w)(me \<mapsto> sv)" using sv(1) by (simp add: add_item_def fun_upd_idem)
    show "server_state me me sv undefined (Queued m) (wq_add (w_queue w me) p (m, me)) sv" using added by auto
    show "w_queue ?w = (w_queue w)(me := wq_add (w_queue w me) p (m, me))" by (rule qu)
    show "good_request me me sv m'" if "Queued m = Sent m' \<or> Queued m = Queued m'" for m'
      using that good_at_request [OF m sv(1)] by simp
  qed (simp_all add: add_item_def)
  from fair_run [OF this as(1)] obtain w1 rp where
    w1: "run_actions mpi g as ?w = Some w1" "phased me w (settled \<circ> ?ph) rp w1" by blast
  obtain sv1 where sv1: "w_server w1 me = Some sv1" "server_state me me sv (rp me) (Replied m) (w_queue w1 me) sv1"
    using phased_server [OF w1(2) s] sv(1) by auto
  then have r: "sv_receive_msg sv1 = Some (rp me)" "wf_response (rp me)"
    "ans_of (rp me) = fst (spec_serve app m (contents_at w me))"
    using sv(1) by (simp_all add: server_contents_def)
  let ?w' = "w1\<lparr>w_server := (w_server w1)(me \<mapsto> sv1\<lparr>sv_receive_msg := None\<rparr>)\<rparr>"
  have "local_request c m w = Some (Some (rp me), ?w')"
    using p sv(1) me as(2) w1(1) sv1(1) r(1) by (simp add: local_request_def get_msg_self_def)
  moreover have "after [me \<mapsto> m] w ?w'"
  proof (rule finish [OF w1(2) q])
    show "(settled \<circ> ?ph) s = (case [me \<mapsto> m] s of None \<Rightarrow> Idle | Some m \<Rightarrow> Replied m)" for s by simp
    have "reqs me (settled \<circ> ?ph) = (\<lambda>_. [])" "resps me (settled \<circ> ?ph) rp = (\<lambda>_. [])"
      by (auto simp: reqs_def resps_def fun_eq_iff)
    then show "flying (w_net ?w') (\<lambda>_. []) (\<lambda>_. [])" using w1(2) by (simp add: phased_def)
    show "w_server ?w' s = map_option (\<lambda>sv. sv\<lparr>sv_receive_msg := None\<rparr>) (w_server w1 s)" for s
    proof (cases "s = me")
      case True
      with sv1 show ?thesis by simp
    next
      case False
      show ?thesis
      proof (cases "s \<in> servers md")
        case True
        obtain sv0 sv' where "w_server w1 s = Some sv'" "resting s sv0"
          "server_state me s sv0 (rp s) ((settled \<circ> ?ph) s) (w_queue w1 s) sv'"
          using phased_server [OF w1(2) True] by blast
        with False show ?thesis by (simp add: at_rest_def)
      next
        case out: False
        with w1(2) False show ?thesis by (simp add: phased_def)
      qed
    qed
  qed simp_all
  ultimately show ?thesis using r by blast
qed

lemma bulk_call:
  assumes q: "quiet w" and c: "client_ok mpi g md me c"
    and ms: "\<And>m. m \<in> set (somes msgs) \<Longrightarrow> good_at me w (message_server_rank m) m \<and> bulk_type m \<and>
      message_server_rank m \<noteq> me \<and> (\<exists>sz. sendable m sz)"
    and dist: "distinct (map message_server_rank (somes msgs))"
  shows "\<exists>rs w'. client_bulk c msgs w = Some (Some (map Some rs), w') \<and> list_all2 (\<lambda>m r. wf_response r \<and>
      ans_of r = fst (spec_serve app m (contents_at w (message_server_rank m)))) (somes msgs) rs \<and>
    after (by_rank (somes msgs)) w w'"
proof -
  obtain as where as: "fair (servers md) as" "cl_run c = run_actions mpi g as" and mp: "cl_mpi c = mpi me"
    using c by (auto simp: client_ok_def)
  let ?ms = "by_rank (somes msgs)" and ?srvs = "map message_server_rank (somes msgs)"
  let ?ph = "settled \<circ> sent_to ?ms"
  have rank: "?ms s = Some m \<longleftrightarrow> m \<in> set (somes msgs) \<and> s = message_server_rank m" for s m
    using dist by (auto simp: by_rank_def map_of_eq_Some_iff comp_def)
  have somes: "m \<in> set (somes msgs) \<longleftrightarrow> Some m \<in> set msgs" for m
    by (induction msgs rule: somes.induct) auto
  have "flying (w_net w) (reqs me (sent_to Map.empty)) (\<lambda>_. [])" using q by (simp add: idle_def reqs_sent_to_empty)
  from requests_sent_all [OF this, of msgs me] obtain n where n:
    "send_all_rangesrv_work (mpi me) msgs (w_net w) = Some (MDHIM_SUCCESS, n)"
    "flying n (add_requests (reqs me (sent_to Map.empty)) me (somes msgs)) (\<lambda>_. [])"
    using ms somes by blast
  have "add_requests (reqs me (sent_to Map.empty)) me (somes msgs) = reqs me (sent_to ?ms)"
    by (subst add_requests_sent [OF dist]) simp_all
  then have n2: "flying n (reqs me (sent_to ?ms)) (\<lambda>_. [])" using n(2) by simp
  have "phased me w (sent_to ?ms) undefined (w\<lparr>w_net := n\<rparr>)"
  proof (rule start [OF q _ n2])
    show "good_at me w s m" if m: "?ms s = Some m" for s m
      using ms [of m] m unfolding rank by simp
  qed
  from fair_run [OF this as(1)] obtain w1 rp where
    w1: "run_actions mpi g as (w\<lparr>w_net := n\<rparr>) = Some w1" "phased me w ?ph rp w1" by blast
  have net1: "flying (w_net w1) (\<lambda>_. []) (resps me ?ph rp)"
    using w1(2) by (simp add: phased_def reqs_settled)
  have resp: "resps me ?ph rp (s, me) = [rp s]" if "s \<in> set ?srvs" for s
  proof -
    from that obtain m where m: "m \<in> set (somes msgs)" "s = message_server_rank m" by auto
    with rank have "?ms s = Some m" by blast
    moreover have "s \<noteq> me" using m ms by blast
    ultimately show ?thesis by (simp add: resps_def sent_to_def)
  qed
  then have "\<And>s. s \<in> set ?srvs \<Longrightarrow> resps me ?ph rp (s, me) \<noteq> []" by simp
  from responses_received_all [OF net1 dist this] obtain rs n' where r':
    "receive_all_client_responses (mpi me) ?srvs (w_net w1) = Some (MDHIM_SUCCESS, map Some rs, n')"
    "list_all2 (\<lambda>p r'. wf_response r' \<and> ans_of r' = ans_of (hd (resps me ?ph rp (p, me)))) ?srvs rs"
    "flying n' (\<lambda>_. []) (take_responses (resps me ?ph rp) ?srvs me)" by blast
  have "take_responses (resps me ?ph rp) ?srvs me (a, b) = []" for a b
  proof (cases "a \<in> set ?srvs \<and> b = me")
    case True
    then show ?thesis using resp by (simp add: take_responses_def)
  next
    case False
    have "?ms a = None" if "b = me"
    proof (rule ccontr)
      assume "?ms a \<noteq> None"
      then obtain m where "?ms a = Some m" by blast
      then have "a \<in> set ?srvs" using rank [of a m] by simp
      with False that show False by simp
    qed
    then have "resps me ?ph rp (a, b) = []" by (cases "b = me") (simp_all add: resps_def sent_to_def)
    with False show ?thesis unfolding take_responses_def prod.case by (subst if_not_P) blast+
  qed
  then have "take_responses (resps me ?ph rp) ?srvs me = (\<lambda>_. [])" by auto
  then have net2: "flying n' (\<lambda>_. []) (\<lambda>_. [])" using r'(3) by simp
  have none: "?ms me = None"
  proof (rule ccontr)
    assume "?ms me \<noteq> None"
    then obtain m where "?ms me = Some m" by blast
    then show False using rank [of me m] ms [of m] by simp
  qed
  then have "after ?ms w (w1\<lparr>w_net := n'\<rparr>)"
    using net2 settled_sent_to no_mail [OF w1(2)] none
    by (intro finish [OF w1(2) q]) (simp_all add: sent_to_def)
  moreover have "ans_of (hd (resps me ?ph rp (message_server_rank m, me))) =
      fst (spec_serve app m (contents_at w (message_server_rank m)))" if m: "m \<in> set (somes msgs)" for m
  proof -
    let ?s = "message_server_rank m"
    have "?s \<in> servers md" using ms [OF m] by (simp add: good_at_def)
    then obtain sv0 sv where "w_server w ?s = Some sv0" "server_state me ?s sv0 (rp ?s) (?ph ?s) (w_queue w1 ?s) sv"
      using phased_server [OF w1(2)] by blast
    moreover have "?ms ?s = Some m" using rank [of ?s m] m by simp
    then have "?ph ?s = Replied m" by (simp add: sent_to_def)
    ultimately show ?thesis using resp m by (simp add: server_contents_def)
  qed
  then have "list_all2 (\<lambda>m r. wf_response r \<and> ans_of r = fst (spec_serve app m (contents_at w (message_server_rank m))))
      (somes msgs) rs"
    using r'(2) unfolding list_all2_map1 by (auto simp: list_all2_conv_all_nth)
  moreover have "client_bulk c msgs w = Some (Some (map Some rs), w1\<lparr>w_net := n'\<rparr>)"
    using n(1) w1(1) as(2) mp r'(1) by (simp add: client_bulk_def)
  ultimately show ?thesis by blast
qed

end

end
