(* ===== verification/Bulk_Split.thy ===== *)
theory Bulk_Split
  imports Cluster_Calls
begin

text \<open>
  How the bulk operations split their records: one message for each range server that owns some of the
  keys, with exactly its records, in their order; the message for the own process is kept apart.
\<close>

section \<open>The loop over the records\<close>

text \<open>The message that the records \<open>js\<close> make, the first of which decides the server.\<close>

definition message_of :: "(rangesrv_info \<Rightarrow> 'm) \<Rightarrow> (nat \<Rightarrow> 'm \<Rightarrow> 'm) \<Rightarrow> (nat \<Rightarrow> rangesrv_info) \<Rightarrow> nat list \<Rightarrow> 'm option" where
  "message_of new add srv js = (case js of [] \<Rightarrow> None | j # _ \<Rightarrow> Some (fold add js (new (srv j))))"

lemma message_of_snoc: "message_of new add srv (js @ [i]) =
    Some (add i (case message_of new add srv js of None \<Rightarrow> new (srv i) | Some m \<Rightarrow> m))"
  by (cases js) (simp_all add: message_of_def)

lemma bulk_loop_append: "bulk_loop f (is @ js) s = Option.bind (bulk_loop f is s) (bulk_loop f js)"
  by (induction f "is" s rule: bulk_loop.induct) (simp_all split: Option.bind_split)

text \<open>The slot of a server in the array of messages.\<close>

definition slot_of :: "rangesrv_info \<Rightarrow> nat" where
  "slot_of ri = unat (rs_rangesrv_num ri - 1)"

lemma slot_bound:
  assumes "numbered md" and "ri \<in> set (md_rangesrvs md)"
  shows "slot_of ri < unat (md_num_rangesrvs md)" "Suc (slot_of ri) = unat (rs_rangesrv_num ri)"
proof -
  have "rs_rangesrv_num ri \<noteq> 0" "rs_rangesrv_num ri \<le> md_num_rangesrvs md" using assms by (simp_all add: numbered_def)
  then have "0 < unat (rs_rangesrv_num ri)" "unat (rs_rangesrv_num ri) \<le> unat (md_num_rangesrvs md)"
    by (simp_all add: word_le_nat_alt unat_gt_0)
  moreover have "unat (rs_rangesrv_num ri - 1) = unat (rs_rangesrv_num ri) - 1"
    using \<open>rs_rangesrv_num ri \<noteq> 0\<close> by (rule unat_minus_one)
  ultimately show "slot_of ri < unat (md_num_rangesrvs md)" "Suc (slot_of ri) = unat (rs_rangesrv_num ri)"
    by (simp_all add: slot_of_def)
qed

lemma server_unique:
  assumes "numbered md" and "a \<in> set (md_rangesrvs md)" "b \<in> set (md_rangesrvs md)"
  shows "rs_rank a = rs_rank b \<Longrightarrow> a = b" "slot_of a = slot_of b \<Longrightarrow> a = b"
proof -
  show "a = b" if "rs_rank a = rs_rank b"
    using assms that by (auto simp: numbered_def distinct_map inj_on_def)
  assume "slot_of a = slot_of b"
  then have "unat (rs_rangesrv_num a) = unat (rs_rangesrv_num b)"
    using slot_bound(2) [OF assms(1)] assms(2,3) by metis
  then have "rs_rangesrv_num a = rs_rangesrv_num b" by (simp add: word_unat_eq_iff)
  with assms show "a = b" by (auto simp: numbered_def distinct_map inj_on_def)
qed

lemma bulk_loop_run:
  assumes num: "numbered (cl_md c)" and srv: "\<And>i. i \<in> set is \<Longrightarrow> find_server c (keys ! i) (key_lens ! i) = Some (Some (srv i)) \<and>
      srv i \<in> set (md_rangesrvs (cl_md c))"
  shows "bulk_loop (bulk_body c new add keys key_lens) is (no_slots c) = Some
    (message_of new add srv (filter (\<lambda>i. rs_rank (srv i) = cl_rank c) is),
     map (\<lambda>k. message_of new add srv (filter (\<lambda>i. rs_rank (srv i) \<noteq> cl_rank c \<and> slot_of (srv i) = k) is))
       [0..<unat (md_num_rangesrvs (cl_md c))])"
  using srv
proof (induction "is" rule: rev_induct)
  case Nil
  then show ?case by (simp add: no_slots_def message_of_def map_replicate_const)
next
  case (snoc i "is")
  let ?N = "unat (md_num_rangesrvs (cl_md c))" and ?me = "cl_rank c"
  let ?local = "\<lambda>is. message_of new add srv (filter (\<lambda>i. rs_rank (srv i) = ?me) is)"
  let ?slot = "\<lambda>is k. message_of new add srv (filter (\<lambda>i. rs_rank (srv i) \<noteq> ?me \<and> slot_of (srv i) = k) is)"
  have i: "find_server c (keys ! i) (key_lens ! i) = Some (Some (srv i))" "srv i \<in> set (md_rangesrvs (cl_md c))"
    using snoc.prems [of i] by simp_all
  have run: "bulk_loop (bulk_body c new add keys key_lens) is (no_slots c) = Some (?local is, map (?slot is) [0..<?N])"
    using snoc by simp
  show ?case
  proof (cases "rs_rank (srv i) = ?me")
    case True
    then have "bulk_body c new add keys key_lens i (?local is, map (?slot is) [0..<?N]) =
        Some (?local (is @ [i]), map (?slot is) [0..<?N])"
      by (simp add: bulk_body_def i message_of_snoc)
    moreover have "?slot (is @ [i]) = ?slot is" using True by (simp add: fun_eq_iff)
    ultimately show ?thesis by (simp add: bulk_loop_append run)
  next
    case False
    have b: "slot_of (srv i) < ?N" using slot_bound(1) [OF num i(2)] .
    have "(map (?slot is) [0..<?N])[slot_of (srv i) := ?slot (is @ [i]) (slot_of (srv i))] = map (?slot (is @ [i])) [0..<?N]"
      using False by (intro nth_equalityI) (auto simp: nth_list_update)
    moreover have "bulk_body c new add keys key_lens i (?local is, map (?slot is) [0..<?N]) = Some (?local is,
        (map (?slot is) [0..<?N])[slot_of (srv i) := ?slot (is @ [i]) (slot_of (srv i))])"
      using False b by (simp add: bulk_body_def i message_of_snoc slot_of_def [symmetric] Let_def)
    moreover have "?local (is @ [i]) = ?local is" using False by simp
    ultimately show ?thesis by (simp add: bulk_loop_append run)
  qed
qed

text \<open>What the loop yields, by the rank of the servers.\<close>

lemma filter_ranks:
  assumes "numbered md" and "\<And>i. i \<in> set is \<Longrightarrow> srv i \<in> set (md_rangesrvs md)" and "ri \<in> set (md_rangesrvs md)"
    and "rs_rank ri \<noteq> me"
  shows "filter (\<lambda>i. rs_rank (srv i) \<noteq> me \<and> slot_of (srv i) = slot_of ri) is = filter (\<lambda>i. rs_rank (srv i) = rs_rank ri) is"
  using assms server_unique [OF assms(1)] by (intro filter_cong) metis+

lemma message_of_same:
  assumes "\<And>j. j \<in> set js \<Longrightarrow> srv j = ri"
  shows "message_of new add srv js = (if js = [] then None else Some (fold add js (new ri)))"
  using assms by (cases js) (simp_all add: message_of_def)

lemma set_somes: "m \<in> set (somes xs) \<longleftrightarrow> Some m \<in> set xs"
  by (induction xs rule: somes.induct) auto

lemma distinct_somes:
  "(\<And>i j a b. i < j \<Longrightarrow> j < length xs \<Longrightarrow> xs ! i = Some a \<Longrightarrow> xs ! j = Some b \<Longrightarrow> f a \<noteq> f b) \<Longrightarrow>
   distinct (map f (somes xs))"
proof (induction xs rule: somes.induct)
  case (2 xs)
  have "distinct (map f (somes xs))"
    using 2 by (intro "2.IH") (metis Suc_less_eq length_Cons nth_Cons_Suc)
  then show ?case by simp
next
  case (3 x xs)
  have "distinct (map f (somes xs))"
    using 3 by (intro "3.IH") (metis Suc_less_eq length_Cons nth_Cons_Suc)
  moreover have "f x \<noteq> f y" if "y \<in> set (somes xs)" for y
  proof -
    from that have "Some y \<in> set xs" by (simp only: set_somes)
    then obtain j where "j < length xs" "xs ! j = Some y" by (auto simp: in_set_conv_nth)
    then show ?thesis using "3.prems" [of 0 "Suc j" x y] by simp
  qed
  ultimately show ?case by auto
qed simp

text \<open>The records of a server, its message, and the two parts that the loop makes.\<close>

definition records_of :: "(nat \<Rightarrow> rangesrv_info) \<Rightarrow> nat list \<Rightarrow> i32 \<Rightarrow> nat list" where
  "records_of srv is s = filter (\<lambda>i. rs_rank (srv i) = s) is"

definition split_messages ::
  "(rangesrv_info \<Rightarrow> 'm) \<Rightarrow> (nat \<Rightarrow> 'm \<Rightarrow> 'm) \<Rightarrow> mdhim_t \<Rightarrow> (nat \<Rightarrow> rangesrv_info) \<Rightarrow> nat list \<Rightarrow> i32 \<Rightarrow>
   'm option \<Rightarrow> 'm option list \<Rightarrow> bool" where
  "split_messages new add md srv is me lm list \<longleftrightarrow>
     (\<forall>ri \<in> set (md_rangesrvs md). rs_rank ri = me \<longrightarrow>
        lm = (if records_of srv is me = [] then None else Some (fold add (records_of srv is me) (new ri)))) \<and>
     (me \<notin> servers md \<longrightarrow> lm = None) \<and>
     (\<forall>m. m \<in> set (somes list) \<longleftrightarrow> (\<exists>ri \<in> set (md_rangesrvs md). rs_rank ri \<noteq> me \<and> records_of srv is (rs_rank ri) \<noteq> [] \<and>
        m = fold add (records_of srv is (rs_rank ri)) (new ri)))"

lemma loop_splits:
  assumes num: "numbered (cl_md c)" and srv: "\<And>i. i \<in> set is \<Longrightarrow> find_server c (keys ! i) (key_lens ! i) = Some (Some (srv i)) \<and>
      srv i \<in> set (md_rangesrvs (cl_md c))"
    and rank: "\<And>js ri. f (fold add js (new ri)) = rs_rank ri"
  shows "\<exists>lm list. bulk_loop (bulk_body c new add keys key_lens) is (no_slots c) = Some (lm, list) \<and>
    split_messages new add (cl_md c) srv is (cl_rank c) lm list \<and> distinct (map f (somes list))"
proof -
  let ?N = "unat (md_num_rangesrvs (cl_md c))" and ?me = "cl_rank c" and ?rss = "set (md_rangesrvs (cl_md c))"
  define lm where "lm = message_of new add srv (filter (\<lambda>i. rs_rank (srv i) = ?me) is)"
  define slot where "slot k = message_of new add srv (filter (\<lambda>i. rs_rank (srv i) \<noteq> ?me \<and> slot_of (srv i) = k) is)" for k
  have run: "bulk_loop (bulk_body c new add keys key_lens) is (no_slots c) = Some (lm, map slot [0..<?N])"
    unfolding lm_def slot_def by (rule bulk_loop_run [OF num srv])
  have in_rss: "srv i \<in> ?rss" if "i \<in> set is" for i using srv that by blast
  have slot: "slot (slot_of ri) = (if records_of srv is (rs_rank ri) = [] then None
      else Some (fold add (records_of srv is (rs_rank ri)) (new ri)))" if ri: "ri \<in> ?rss" "rs_rank ri \<noteq> ?me" for ri
  proof -
    have "filter (\<lambda>i. rs_rank (srv i) \<noteq> ?me \<and> slot_of (srv i) = slot_of ri) is = records_of srv is (rs_rank ri)"
      unfolding records_of_def by (rule filter_ranks [OF num _ ri]) (rule in_rss)
    moreover have "srv j = ri" if "j \<in> set (records_of srv is (rs_rank ri))" for j
      using that in_rss server_unique(1) [OF num _ ri(1)] by (simp add: records_of_def)
    ultimately show ?thesis unfolding slot_def by (simp add: message_of_same)
  qed
  have none: "slot k = Some m \<Longrightarrow> \<exists>ri \<in> ?rss. rs_rank ri \<noteq> ?me \<and> slot_of ri = k" for k m
    unfolding slot_def using in_rss by (auto simp: message_of_def filter_eq_Cons_iff split: list.splits)
  have "split_messages new add (cl_md c) srv is ?me lm (map slot [0..<?N])"
    unfolding split_messages_def
  proof (intro conjI ballI impI allI)
    show "lm = (if records_of srv is ?me = [] then None else Some (fold add (records_of srv is ?me) (new ri)))"
      if ri: "ri \<in> ?rss" "rs_rank ri = ?me" for ri
      unfolding lm_def records_of_def using server_unique(1) [OF num _ ri(1)] in_rss ri(2)
      by (intro message_of_same) auto
    show "lm = None" if "?me \<notin> servers (cl_md c)"
    proof -
      have "rs_rank (srv i) \<noteq> ?me" if "i \<in> set is" for i
        using in_rss [OF that] \<open>?me \<notin> servers (cl_md c)\<close> unfolding servers_def by (metis imageI)
      then show ?thesis unfolding lm_def message_of_def by (simp add: filter_empty_conv)
    qed
    show "m \<in> set (somes (map slot [0..<?N])) \<longleftrightarrow> (\<exists>ri \<in> ?rss. rs_rank ri \<noteq> ?me \<and>
        records_of srv is (rs_rank ri) \<noteq> [] \<and> m = fold add (records_of srv is (rs_rank ri)) (new ri))" (is "?L \<longleftrightarrow> ?R") for m
    proof
      assume ?L
      then obtain k where k: "slot k = Some m" by (auto simp: set_somes)
      with none obtain ri where "ri \<in> ?rss" "rs_rank ri \<noteq> ?me" "slot_of ri = k" by blast
      with k slot [of ri] show ?R by (auto split: if_splits)
    next
      assume ?R
      then obtain ri where "ri \<in> ?rss" "slot (slot_of ri) = Some m" using slot by auto
      then show ?L using slot_bound(1) [OF num] by (force simp: set_somes image_iff)
    qed
  qed
  moreover have "distinct (map f (somes (map slot [0..<?N])))"
  proof (rule distinct_somes)
    fix i j a b assume "i < j" "j < length (map slot [0..<?N])" "map slot [0..<?N] ! i = Some a" "map slot [0..<?N] ! j = Some b"
    then have ij: "slot i = Some a" "slot j = Some b" "i \<noteq> j" by simp_all
    obtain x y where xy: "x \<in> ?rss" "rs_rank x \<noteq> ?me" "slot_of x = i" "y \<in> ?rss" "rs_rank y \<noteq> ?me" "slot_of y = j"
      using none ij(1,2) by metis
    then have "f a = rs_rank x" "f b = rs_rank y" using slot [of x] slot [of y] ij rank by (auto split: if_splits)
    moreover have "rs_rank x \<noteq> rs_rank y" using server_unique(1) [OF num xy(1,4)] xy ij(3) by auto
    ultimately show "f a \<noteq> f b" by simp
  qed
  ultimately show ?thesis using run by blast
qed

end
