(* ===== verification/Mdhim_Spec.thy ===== *)
theory Mdhim_Spec
  imports Bulk_Split "HOL-Library.Multiset"
begin

text \<open>
  MDHIM as a whole refines one finite map.  The contents of the store are, for every key, what the range
  server of the key's slice holds for it.  Every operation of the API, called from any process while
  no other call is open, does to that map what its name says, whatever the schedule of the listener
  and worker threads of the servers.
\<close>

section \<open>The specification\<close>

definition server_of :: "part_globals \<Rightarrow> mdhim_t \<Rightarrow> key \<Rightarrow> rangesrv_info option" where
  "server_of g md k = Option.bind (get_range_server g md (Some k) (int (length k))) (\<lambda>ri. ri)"

text \<open>The contents of the whole store.\<close>

definition stored ::
  "('d \<Rightarrow> (key \<times> val) list) \<Rightarrow> part_globals \<Rightarrow> mdhim_t \<Rightarrow> ('n, 'd) world \<Rightarrow> contents" where
  "stored view g md w k = (case server_of g md k of None \<Rightarrow> None | Some ri \<Rightarrow> server_contents view w (rs_rank ri) k)"

text \<open>A call of the API with its arguments; keys and values are blocks of memory, their lengths
  are passed along.\<close>

datatype call = Put blob blob | Get blob | Delete blob | Commit
  | BPut "(blob \<times> blob) list" | BGet "blob list" | BDelete "blob list"

datatype reply = Reply "answer option" | Replies "answer list" | Code int

definition lens_of :: "blob list \<Rightarrow> i32 list" where
  "lens_of bs = map (len32 \<circ> snd) bs"

definition brm_answer :: "mdhim_brm_t \<Rightarrow> answer" where
  "brm_answer m = Done (bm_error m)"

fun run_call :: "('n, 'd) client \<Rightarrow> call \<Rightarrow> ('n, 'd) world \<Rightarrow> (reply \<times> ('n, 'd) world) option" where
  "run_call c (Put k v) w = map_option (\<lambda>(rm, w). (Reply (map_option (ans_of \<circ> Rm) rm), w))
     (mdhimPut c k (len32 (snd k)) v (len32 (snd v)) w)"
| "run_call c (Get k) w = map_option (\<lambda>(grm, w). (Reply (map_option (ans_of \<circ> Getrm) grm), w))
     (mdhimGet c k (len32 (snd k)) MDHIM_GET_EQ w)"
| "run_call c (Delete k) w = map_option (\<lambda>(rm, w). (Reply (map_option (ans_of \<circ> Rm) rm), w))
     (mdhimDelete c k (len32 (snd k)) w)"
| "run_call c Commit w = map_option (\<lambda>(ret, w). (Code ret, w)) (mdhimCommit c w)"
| "run_call c (BPut kvs) w = map_option (\<lambda>(brms, w). (Replies (map brm_answer brms), w))
     (mdhimBPut c (map fst kvs) (lens_of (map fst kvs)) (map snd kvs) (lens_of (map snd kvs)) (of_nat (length kvs)) w)"
| "run_call c (BGet ks) w = map_option (\<lambda>(bgrms, w). (Replies (map (ans_of \<circ> Bgetrm) bgrms), w))
     (mdhimBGet c ks (lens_of ks) (of_nat (length ks)) w)"
| "run_call c (BDelete ks) w = map_option (\<lambda>(brms, w). (Replies (map brm_answer brms), w))
     (mdhimBDelete c ks (lens_of ks) (of_nat (length ks)) w)"

text \<open>What a call does to the map.\<close>

fun call_map :: "bool \<Rightarrow> call \<Rightarrow> contents \<Rightarrow> contents" where
  "call_map app (Put k v) m = m(snd k \<mapsto> put_new app m (snd k) (snd v))"
| "call_map app (Delete k) m = m(snd k := None)"
| "call_map app (BPut kvs) m = fold (\<lambda>(k, v) m'. m'(snd k \<mapsto> put_new app m (snd k) (snd v))) kvs m"
| "call_map app (BDelete ks) m = m |` (- snd ` set ks)"
| "call_map app _ m = m"

text \<open>What a call returns.  The records of a bulk get come in several answers, one for each range server that is
  asked; each carries an error when one of its keys is not there.\<close>

fun values_of :: "answer \<Rightarrow> (key \<times> val) list" where
  "values_of (Values e kvs) = kvs"
| "values_of _ = []"

definition values_error :: "contents \<Rightarrow> (key \<times> val) list \<Rightarrow> i32" where
  "values_error m kvs = (if \<exists>(k, v) \<in> set kvs. fst (read_val m k) \<noteq> 0 then of_int MDHIM_DB_ERROR else 0)"

fun call_returns :: "call \<Rightarrow> contents \<Rightarrow> reply \<Rightarrow> bool" where
  "call_returns (Put k v) m r \<longleftrightarrow> r = Reply (Some (Done 0))"
| "call_returns (Get k) m r \<longleftrightarrow> r = Reply (Some (Value (fst (read_val m (snd k))) (snd k) (snd (read_val m (snd k)))))"
| "call_returns (Delete k) m r \<longleftrightarrow> r = Reply (Some (Done 0))"
| "call_returns Commit m r \<longleftrightarrow> r = Code MDHIM_SUCCESS"
| "call_returns (BPut kvs) m r \<longleftrightarrow> (\<exists>as. r = Replies as \<and> (\<forall>a \<in> set as. a = Done 0) \<and> (as = [] \<longleftrightarrow> kvs = []))"
| "call_returns (BGet ks) m r \<longleftrightarrow> (\<exists>as. r = Replies as \<and>
     (\<forall>a \<in> set as. a = Values (values_error m (values_of a)) (values_of a)) \<and>
     mset (concat (map values_of as)) = mset (map (\<lambda>k. (snd k, snd (read_val m (snd k)))) ks))"
| "call_returns (BDelete ks) m r \<longleftrightarrow> (\<exists>as. r = Replies as \<and> (\<forall>a \<in> set as. a = Done 0) \<and> (as = [] \<longleftrightarrow> ks = []))"

text \<open>The calls the specification speaks of: valid keys that have a slice and a server, messages and answers of
  at most 2147483647 bytes, appended values likewise; no empty key in a get; at most MAX_BULK_OPS
  records; a bulk append to an existing key only at the server of the own process.\<close>

definition known_key :: "(key \<Rightarrow> bool) \<Rightarrow> part_globals \<Rightarrow> mdhim_t \<Rightarrow> blob \<Rightarrow> bool" where
  "known_key valid g md k \<longleftrightarrow> fst k \<noteq> 0 \<and> valid (snd k) \<and> key_known g md (snd k) \<and> server_of g md (snd k) \<noteq> None"

fun call_ok :: "(key \<Rightarrow> bool) \<Rightarrow> part_globals \<Rightarrow> mdhim_t \<Rightarrow> bool \<Rightarrow> i32 \<Rightarrow> call \<Rightarrow> contents \<Rightarrow> bool" where
  "call_ok valid g md app me (Put k v) m \<longleftrightarrow> known_key valid g md k \<and> fits app m (snd k) (snd v) \<and>
     48 + length (snd k) + length (snd v) \<le> 2147483647"
| "call_ok valid g md app me (Get k) m \<longleftrightarrow> known_key valid g md k \<and> snd k \<noteq> [] \<and>
     48 + length (snd k) + length (snd (read_val m (snd k))) \<le> 2147483647"
| "call_ok valid g md app me (Delete k) m \<longleftrightarrow> known_key valid g md k \<and> 32 + length (snd k) \<le> 2147483647"
| "call_ok valid g md app me Commit m \<longleftrightarrow> True"
| "call_ok valid g md app me (BPut kvs) m \<longleftrightarrow> int (length kvs) \<le> MAX_BULK_OPS \<and>
     56 + 8 * length kvs + blobs_size (map fst kvs) + blobs_size (map snd kvs) \<le> 2147483647 \<and>
     (\<forall>(k, v) \<in> set kvs. known_key valid g md k \<and> fits app m (snd k) (snd v) \<and>
        (app \<and> map_option rs_rank (server_of g md (snd k)) \<noteq> Some me \<longrightarrow> fst (read_val m (snd k)) \<noteq> 0))"
| "call_ok valid g md app me (BGet ks) m \<longleftrightarrow> int (length ks) \<le> MAX_BULK_OPS \<and>
     64 + 8 * length ks + blobs_size ks + sum_list (map (\<lambda>k. length (snd (read_val m (snd k)))) ks) \<le> 2147483647 \<and>
     (\<forall>k \<in> set ks. known_key valid g md k)"
| "call_ok valid g md app me (BDelete ks) m \<longleftrightarrow> int (length ks) \<le> MAX_BULK_OPS \<and>
     40 + 8 * length ks + blobs_size ks \<le> 2147483647 \<and> (\<forall>k \<in> set ks. known_key valid g md k)"

section \<open>Routing\<close>

lemma server_of_in:
  assumes "server_of g md k = Some ri"
  shows "ri \<in> set (md_rangesrvs md)" "get_range_server g md (Some k) (int (length k)) = Some (Some ri)"
proof -
  show r: "get_range_server g md (Some k) (int (length k)) = Some (Some ri)"
    using assms by (auto simp: server_of_def split: bind_splits)
  then obtain sl where "get_range_server_by_slice md sl = Some (Some ri)"
    by (auto simp: get_range_server_def split: option.splits if_splits)
  then show "ri \<in> set (md_rangesrvs md)"
    by (auto simp: get_range_server_by_slice_def Let_def find_Some_iff split: if_splits)
qed

lemma server_of_server: "server_of g md k = Some ri \<Longrightarrow> rs_rank ri \<in> servers md"
  using server_of_in(1) by (simp add: servers_def)

lemma known_found:
  assumes "client_ok mpi g md me c" and "known_key valid g md k" and "length (snd k) < 2147483648"
  obtains ri where "server_of g md (snd k) = Some ri" "find_server c k (len32 (snd k)) = Some (Some ri)"
proof -
  from assms(2) obtain ri where ri: "server_of g md (snd k) = Some ri" by (auto simp: known_key_def)
  have "key_arg k = Some (snd k)" using assms(2) by (simp add: known_key_def key_arg_def)
  moreover have "get_range_server g (cl_md c) = get_range_server g md" "cl_globals c = g"
    using assms(1) same_routing_server by (simp_all add: client_ok_def fun_eq_iff)
  ultimately have "find_server c k (len32 (snd k)) = Some (Some ri)"
    using assms(3) server_of_in(2) [OF ri] by (simp add: find_server_def len32_def)
  with ri show ?thesis using that by blast
qed

lemma blob_ok_len [simp]: "length (snd b) < 2147483648 \<Longrightarrow> blob_ok b (len32 (snd b))"
  by (simp add: blob_ok_def len32_def)

lemma as_ptr_Rm: "wf_response r \<Longrightarrow> ans_of r = Done e \<Longrightarrow> \<exists>m. as_ptr as_rm (Some r) = Some (Some m) \<and> ans_of (Rm m) = Done e"
  by (cases r) (simp_all add: as_ptr_def)

lemma as_ptr_Getrm: "ans_of r = Value e k v \<Longrightarrow> \<exists>m. as_ptr as_getrm (Some r) = Some (Some m) \<and> ans_of (Getrm m) = Value e k v"
  by (cases r) (simp_all add: as_ptr_def)

context mdhim_cluster
begin

abbreviation store_map :: "('n, 'd) world \<Rightarrow> contents" where
  "store_map \<equiv> stored view g md"

lemma stored_at: "server_of g md k = Some ri \<Longrightarrow> store_map w k = contents_at w (rs_rank ri) k"
  by (simp add: stored_def)

lemma read_val_at: "server_of g md k = Some ri \<Longrightarrow> read_val (store_map w) k = read_val (contents_at w (rs_rank ri)) k"
  by (simp add: read_val_def stored_at)

lemma fits_at: "server_of g md k = Some ri \<Longrightarrow> fits app (store_map w) k v = fits app (contents_at w (rs_rank ri)) k v"
  by (simp add: fits_def stored_at)

lemma put_new_at: "server_of g md k = Some ri \<Longrightarrow> put_new app (store_map w) k v = put_new app (contents_at w (rs_rank ri)) k v"
  by (simp add: put_new_def stored_at)

text \<open>One request, to the own server or to another one.\<close>

lemma server_here:
  assumes "quiet w" and "s \<in> servers md"
  shows "w_server w s \<noteq> None"
  using assms by (auto simp: idle_def)

lemma after_single:
  assumes "after [s \<mapsto> m] w w'" and "server_of g md k = Some ri" "rs_rank ri = s"
    and "\<And>c j. j \<noteq> k \<Longrightarrow> snd (spec_serve app m c) j = c j"
  shows "store_map w' = (store_map w)(k := snd (spec_serve app m (contents_at w s)) k)"
proof
  fix j
  have c: "contents_at w' t = (if t = s then snd (spec_serve app m (contents_at w s)) else contents_at w t)" for t
    using assms(1) by (simp add: after_def)
  show "store_map w' j = ((store_map w)(k := snd (spec_serve app m (contents_at w s)) k)) j"
    using assms(2-4) by (cases "server_of g md j") (auto simp: stored_def c)
qed

definition one_request ::
  "('n, 'd) client \<Rightarrow> i32 \<Rightarrow> rs_message \<Rightarrow> ('n, 'd) world \<Rightarrow> (response option \<times> ('n, 'd) world) option" where
  "one_request c s m w = (if s = cl_rank c then local_request c m w else client_request c s m w)"

lemma one_call:
  assumes q: "quiet w" and c: "client_ok mpi g md me c" and m: "good_at me w s m" and sz: "sendable m sz \<or> s = me"
  obtains r w' where "one_request c s m w = Some (Some r, w')" "wf_response r"
    "ans_of r = fst (spec_serve app m (contents_at w s))" "after [s \<mapsto> m] w w'" "quiet w'"
    "im_range_server c w \<and> cl_rank c = s \<longleftrightarrow> s = cl_rank c"
proof -
  have me: "cl_rank c = me" using c by (simp add: client_ok_def)
  have "im_range_server c w \<and> cl_rank c = s \<longleftrightarrow> s = cl_rank c"
    using m server_here [OF q, of s] by (auto simp: im_range_server_def good_at_def)
  moreover have "\<exists>r w'. one_request c s m w = Some (Some r, w') \<and> wf_response r \<and>
      ans_of r = fst (spec_serve app m (contents_at w s)) \<and> after [s \<mapsto> m] w w'"
  proof (cases "s = me")
    case True
    with local_call [OF q c] m show ?thesis by (simp add: one_request_def me)
  next
    case False
    with remote_call [OF q c m] sz show ?thesis by (simp add: one_request_def me)
  qed
  ultimately show ?thesis using that by (auto simp: after_def)
qed

text \<open>The call \<open>k\<close> returns the reply of the specification and changes the map accordingly.\<close>

definition refines :: "('n, 'd) client \<Rightarrow> call \<Rightarrow> ('n, 'd) world \<Rightarrow> bool" where
  "refines c k w \<longleftrightarrow> (\<exists>r w'. run_call c k w = Some (r, w') \<and> quiet w' \<and> call_returns k (store_map w) r \<and>
     store_map w' = call_map app k (store_map w))"

lemma refinesI: "run_call c k w = Some (r, w') \<Longrightarrow> quiet w' \<Longrightarrow> call_returns k (store_map w) r \<Longrightarrow>
    store_map w' = call_map app k (store_map w) \<Longrightarrow> refines c k w"
  unfolding refines_def by blast

lemma put_call:
  assumes q: "quiet w" and c: "client_ok mpi g md me c" and ok: "call_ok valid g md app me (Put k v) (store_map w)"
  shows "refines c (Put k v) w"
proof -
  from ok have len: "length (snd k) < 2147483648" "length (snd v) < 2147483648"
    and kk: "known_key valid g md k" by simp_all
  obtain ri where ri: "server_of g md (snd k) = Some ri" "find_server c k (len32 (snd k)) = Some (Some ri)"
    using known_found [OF c kk len(1)] .
  obtain pm0 where pm0: "fr_putm (cl_new c) = Some pm0" using c by (auto simp: client_ok_def)
  define pm where "pm = pm0\<lparr>pm_mtype := MDHIM_PUT, pm_key := k, pm_key_len := len32 (snd k), pm_value := v,
    pm_value_len := len32 (snd v), pm_server_rank := rs_rank ri\<rparr>"
  have good: "good_at me w (rs_rank ri) (PutM pm)"
    using server_of_server [OF ri(1)] ok len kk fits_at [OF ri(1), of w]
    by (simp add: good_at_def known_key_def reply_fits_def pm_def)
  have sent: "sendable (PutM pm) (48 + length (snd k) + length (snd v))" using ok len by (simp add: putm_ok_def pm_def)
  have serve: "spec_serve app (PutM pm) m = (Done 0, m(snd k \<mapsto> put_new app m (snd k) (snd v)))" for m by (simp add: pm_def)
  obtain r w' where r: "one_request c (rs_rank ri) (PutM pm) w = Some (Some r, w')" "wf_response r" "ans_of r = Done 0"
    "after [rs_rank ri \<mapsto> PutM pm] w w'" "quiet w'" "im_range_server c w \<and> cl_rank c = rs_rank ri \<longleftrightarrow> rs_rank ri = cl_rank c"
    using one_call [OF q c good] sent unfolding serve fst_conv by metis
  obtain m where "as_ptr as_rm (Some r) = Some (Some m)" "ans_of (Rm m) = Done 0" using as_ptr_Rm [OF r(2,3)] by blast
  moreover have "pm_server_rank pm = rs_rank ri" by (simp add: pm_def)
  ultimately have run: "run_call c (Put k v) w = Some (Reply (Some (Done 0)), w')"
    using r(1,6) ri(2) pm0
    by (simp add: mdhimPut_def client_put_def local_client_put_def one_request_def pm_def [symmetric] split: if_splits)
  have "store_map w' = call_map app (Put k v) (store_map w)"
    using after_single [OF r(4) ri(1) refl] unfolding serve by (simp add: put_new_at [OF ri(1)])
  then show ?thesis using r(5) by (intro refinesI [OF run]) simp_all
qed

lemma delete_call:
  assumes q: "quiet w" and c: "client_ok mpi g md me c" and ok: "call_ok valid g md app me (Delete k) (store_map w)"
  shows "refines c (Delete k) w"
proof -
  from ok have len: "length (snd k) < 2147483648" and kk: "known_key valid g md k" by simp_all
  obtain ri where ri: "server_of g md (snd k) = Some ri" "find_server c k (len32 (snd k)) = Some (Some ri)"
    using known_found [OF c kk len] .
  obtain dm0 where dm0: "fr_delm (cl_new c) = Some dm0" using c by (auto simp: client_ok_def)
  define dm where "dm = dm0\<lparr>dm_mtype := MDHIM_DEL, dm_key := k, dm_key_len := len32 (snd k), dm_server_rank := rs_rank ri\<rparr>"
  have good: "good_at me w (rs_rank ri) (DelM dm)"
    using server_of_server [OF ri(1)] len kk by (simp add: good_at_def known_key_def reply_fits_def dm_def)
  have sent: "sendable (DelM dm) (32 + length (snd k))" using ok len by (simp add: delm_ok_def dm_def)
  have serve: "spec_serve app (DelM dm) m = (Done 0, m(snd k := None))" for m by (simp add: dm_def)
  obtain r w' where r: "one_request c (rs_rank ri) (DelM dm) w = Some (Some r, w')" "wf_response r" "ans_of r = Done 0"
    "after [rs_rank ri \<mapsto> DelM dm] w w'" "quiet w'" "im_range_server c w \<and> cl_rank c = rs_rank ri \<longleftrightarrow> rs_rank ri = cl_rank c"
    using one_call [OF q c good] sent unfolding serve fst_conv by metis
  obtain m where "as_ptr as_rm (Some r) = Some (Some m)" "ans_of (Rm m) = Done 0" using as_ptr_Rm [OF r(2,3)] by blast
  moreover have "dm_server_rank dm = rs_rank ri" by (simp add: dm_def)
  ultimately have run: "run_call c (Delete k) w = Some (Reply (Some (Done 0)), w')"
    using r(1,6) ri(2) dm0
    by (simp add: mdhimDelete_def client_delete_def local_client_delete_def one_request_def dm_def [symmetric] split: if_splits)
  have "store_map w' = call_map app (Delete k) (store_map w)"
    using after_single [OF r(4) ri(1) refl] unfolding serve by simp
  then show ?thesis using r(5) by (intro refinesI [OF run]) simp_all
qed

lemma after_same:
  assumes "after ms w w'" and "\<forall>m \<in> ran ms. \<forall>c. snd (spec_serve app m c) = c"
  shows "store_map w' = store_map w"
proof -
  have "contents_at w' s = contents_at w s" for s
    using assms by (cases "ms s") (auto simp: after_def ran_def)
  then show ?thesis by (simp add: fun_eq_iff stored_def split: option.splits)
qed

lemma get_call:
  assumes q: "quiet w" and c: "client_ok mpi g md me c" and ok: "call_ok valid g md app me (Get k) (store_map w)"
  shows "refines c (Get k) w"
proof -
  from ok have len: "length (snd k) < 2147483648" and kk: "known_key valid g md k" by simp_all
  obtain ri where ri: "server_of g md (snd k) = Some ri" "find_server c k (len32 (snd k)) = Some (Some ri)"
    using known_found [OF c kk len] .
  obtain gm0 where gm0: "fr_getm (cl_new c) = Some gm0" using c by (auto simp: client_ok_def)
  define gm where "gm = gm0\<lparr>gm_mtype := MDHIM_GET, gm_op := of_int MDHIM_GET_EQ, gm_key := k, gm_key_len := len32 (snd k),
    gm_server_rank := rs_rank ri, gm_num_records := 1\<rparr>"
  let ?rv = "read_val (store_map w) (snd k)"
  have serve: "spec_serve app (GetM gm) m = (Value (fst (read_val m (snd k))) (snd k) (snd (read_val m (snd k))), m)" for m
    by (simp add: gm_def)
  have good: "good_at me w (rs_rank ri) (GetM gm)"
    unfolding good_at_def serve using server_of_server [OF ri(1)] len kk ok
    by (simp add: known_key_def reply_fits_def gm_def MDHIM_GET_EQ_def read_val_at [OF ri(1), symmetric])
  have sent: "sendable (GetM gm) (32 + length (snd k))" using ok len by (simp add: getm_ok_def gm_def)
  obtain r w' where r: "one_request c (rs_rank ri) (GetM gm) w = Some (Some r, w')"
    "ans_of r = Value (fst ?rv) (snd k) (snd ?rv)" "after [rs_rank ri \<mapsto> GetM gm] w w'" "quiet w'"
    "im_range_server c w \<and> cl_rank c = rs_rank ri \<longleftrightarrow> rs_rank ri = cl_rank c"
    using one_call [OF q c good] sent unfolding serve fst_conv read_val_at [OF ri(1)] by metis
  obtain m where "as_ptr as_getrm (Some r) = Some (Some m)" "ans_of (Getrm m) = Value (fst ?rv) (snd k) (snd ?rv)"
    using as_ptr_Getrm [OF r(2)] by blast
  moreover have "gm_server_rank gm = rs_rank ri" by (simp add: gm_def)
  ultimately have run: "run_call c (Get k) w = Some (Reply (Some (Value (fst ?rv) (snd k) (snd ?rv))), w')"
    using r(1,5) ri(2) gm0
    by (simp add: mdhimGet_def client_get_def local_client_get_def one_request_def gm_def [symmetric] split: if_splits)
  have "store_map w' = store_map w" by (rule after_same [OF r(3)]) (simp add: serve del: spec_serve.simps)
  then show ?thesis using r(4) by (intro refinesI [OF run]) simp_all
qed

lemma commit_call:
  assumes q: "quiet w" and c: "client_ok mpi g md me c"
  shows "refines c Commit w"
proof (cases "im_range_server c w")
  case False
  with q show ?thesis by (intro refinesI [of _ _ _ "Code MDHIM_SUCCESS" w]) (simp_all add: mdhimCommit_def)
next
  case True
  have me: "cl_rank c = me" using c by (simp add: client_ok_def)
  let ?cm = "BaseM ((fr_basem (cl_new c))\<lparr>bs_mtype := MDHIM_COMMIT\<rparr>)"
  have "me \<in> servers md" using True q me by (auto simp: im_range_server_def idle_def)
  then have "good_at me w me ?cm" by (simp add: good_at_def)
  from local_call [OF q c this] obtain r w' where r: "local_request c ?cm w = Some (Some r, w')" "wf_response r"
    "ans_of r = Done 0" "after [me \<mapsto> ?cm] w w'" by auto
  obtain m where m: "as_ptr as_rm (Some r) = Some (Some m)" "ans_of (Rm m) = Done 0" using as_ptr_Rm [OF r(2,3)] by blast
  have "store_map w' = store_map w" by (rule after_same [OF r(4)]) simp
  moreover have "quiet w'" using r(4) by (simp add: after_def)
  ultimately show ?thesis
    using True r(1) m by (intro refinesI [of _ _ _ "Code MDHIM_SUCCESS" w']) (simp_all add: mdhimCommit_def local_client_commit_def)
qed

end

end
