(* ===== verification/Mdhim_Bulk.thy ===== *)
theory Mdhim_Bulk
  imports Mdhim_Spec
begin

text \<open>
  The bulk operations of MDHIM refine the same map: the messages that their records are split into are
  served by the range servers they go to, and together do what the operation does to the map.
\<close>

section \<open>The servers that a bulk operation asks\<close>

definition asked :: "mdhim_t \<Rightarrow> (nat \<Rightarrow> rangesrv_info) \<Rightarrow> nat list \<Rightarrow> rangesrv_info set" where
  "asked md srv is = {ri \<in> set (md_rangesrvs md). records_of srv is (rs_rank ri) \<noteq> []}"

lemma asked_records:
  assumes "\<And>i. i \<in> set is \<Longrightarrow> srv i \<in> set (md_rangesrvs md)" and num: "numbered md"
  shows "asked md srv is = srv ` set is"
proof
  show "asked md srv is \<subseteq> srv ` set is"
  proof
    fix ri assume "ri \<in> asked md srv is"
    then obtain i where i: "ri \<in> set (md_rangesrvs md)" "i \<in> set is" "rs_rank (srv i) = rs_rank ri"
      by (auto simp: asked_def records_of_def filter_empty_conv)
    then have "srv i = ri" using server_unique(1) [OF num] assms(1) by blast
    with i show "ri \<in> srv ` set is" by blast
  qed
  show "srv ` set is \<subseteq> asked md srv is"
    using assms by (auto simp: asked_def records_of_def filter_empty_conv)
qed

lemma split_servers:
  assumes num: "numbered md" and split: "split_messages new add md srv is me lm list"
    and dist: "distinct (map f (somes list))" and rank: "\<And>js ri. f (fold add js (new ri)) = rs_rank ri"
  obtains ris where "somes list = map (\<lambda>ri. fold add (records_of srv is (rs_rank ri)) (new ri)) ris" "distinct ris"
    "set ris = {ri \<in> asked md srv is. rs_rank ri \<noteq> me}"
proof -
  let ?mk = "\<lambda>ri. fold add (records_of srv is (rs_rank ri)) (new ri)"
  let ?A = "{ri \<in> asked md srv is. rs_rank ri \<noteq> me}"
  have in_list: "m \<in> set (somes list) \<longleftrightarrow> (\<exists>ri \<in> ?A. m = ?mk ri)" for m
    using split unfolding split_messages_def asked_def by blast
  then have "\<forall>m \<in> set (somes list). \<exists>ri. ri \<in> ?A \<and> m = ?mk ri" by blast
  then obtain h where h: "\<forall>m \<in> set (somes list). h m \<in> ?A \<and> m = ?mk (h m)" by (rule bchoice [THEN exE])
  have somes: "somes list = map ?mk (map h (somes list))" using h by (intro nth_equalityI) simp_all
  have "map f (somes list) = map rs_rank (map h (somes list))"
    by (subst somes) (simp add: rank comp_def)
  with dist have "distinct (map rs_rank (map h (somes list)))" by simp
  then have "distinct (map h (somes list))" by (rule distinct_map [THEN iffD1, THEN conjunct1])
  moreover have "set (map h (somes list)) = ?A"
  proof
    show "set (map h (somes list)) \<subseteq> ?A" using h by auto
    show "?A \<subseteq> set (map h (somes list))"
    proof
      fix ri assume ri: "ri \<in> ?A"
      then have m: "?mk ri \<in> set (somes list)" using in_list by blast
      with h have "h (?mk ri) \<in> ?A" "?mk ri = ?mk (h (?mk ri))" by blast+
      then have "rs_rank (h (?mk ri)) = rs_rank ri" using rank by metis
      then have "h (?mk ri) = ri" using server_unique(1) [OF num] ri \<open>h (?mk ri) \<in> ?A\<close> by (simp add: asked_def)
      with m show "ri \<in> set (map h (somes list))" by force
    qed
  qed
  ultimately show ?thesis using that somes by blast
qed

lemma collect_all: "list_all2 (\<lambda>r m. as r = Some m) rs ms \<Longrightarrow> collect as (map Some rs) = Some ms"
  by (induction rs ms rule: list_all2_induct) simp_all

lemma somes_map: "somes (map (map_option M) xs) = map M (somes xs)"
  by (induction xs rule: somes.induct) simp_all

context mdhim_cluster
begin

text \<open>The servers of the list \<open>ris\<close> served one message each, the others none.\<close>

definition bulk_after :: "(rangesrv_info \<Rightarrow> rs_message) \<Rightarrow> rangesrv_info set \<Rightarrow> ('n, 'd) world \<Rightarrow> ('n, 'd) world \<Rightarrow> bool" where
  "bulk_after msg A w w' \<longleftrightarrow> quiet w' \<and> (\<forall>ri \<in> set (md_rangesrvs md). contents_at w' (rs_rank ri) =
     (if ri \<in> A then snd (spec_serve app (msg ri) (contents_at w (rs_rank ri))) else contents_at w (rs_rank ri)))"

definition answer_of :: "(rangesrv_info \<Rightarrow> rs_message) \<Rightarrow> ('n, 'd) world \<Rightarrow> rangesrv_info \<Rightarrow> answer" where
  "answer_of msg w ri = fst (spec_serve app (msg ri) (contents_at w (rs_rank ri)))"

lemma bulk_remote:
  assumes q: "quiet w" and c: "client_ok mpi g md me c" and somes: "somes list = map mk ris" and dist: "distinct ris"
    and ris: "set ris \<subseteq> {ri \<in> set (md_rangesrvs md). rs_rank ri \<noteq> me}"
    and M: "\<And>ri. message_server_rank (M (mk ri)) = rs_rank ri"
    and good: "\<And>ri. ri \<in> set ris \<Longrightarrow> good_at me w (rs_rank ri) (M (mk ri)) \<and> bulk_type (M (mk ri)) \<and> (\<exists>sz. sendable (M (mk ri)) sz)"
  shows "\<exists>rs w'. client_bulk c (map (map_option M) list) w = Some (Some (map Some rs), w') \<and>
    list_all2 (\<lambda>ri r. wf_response r \<and> ans_of r = answer_of (M \<circ> mk) w ri) ris rs \<and> bulk_after (M \<circ> mk) (set ris) w w'"
proof -
  let ?msgs = "map (map_option M) list"
  have s: "somes ?msgs = map (M \<circ> mk) ris" by (simp add: somes_map somes)
  have ranks: "map message_server_rank (somes ?msgs) = map rs_rank ris" by (simp add: s M comp_def)
  have in_rss: "ri \<in> set (md_rangesrvs md)" if "ri \<in> set ris" for ri using ris that by blast
  have uniq: "a = b" if "a \<in> set (md_rangesrvs md)" "b \<in> set (md_rangesrvs md)" "rs_rank a = rs_rank b" for a b
    using server_unique(1) [OF numbers] that by blast
  have d: "distinct (map message_server_rank (somes ?msgs))"
    unfolding ranks distinct_map using dist in_rss uniq by (auto simp: inj_on_def)
  have "good_at me w (message_server_rank m) m \<and> bulk_type m \<and> message_server_rank m \<noteq> me \<and> (\<exists>sz. sendable m sz)"
    if m: "m \<in> set (somes ?msgs)" for m
  proof -
    obtain ri where "ri \<in> set ris" "m = M (mk ri)" using m by (auto simp: s)
    with good ris M show ?thesis by auto
  qed
  from bulk_call [OF q c this d] obtain rs w' where r: "client_bulk c ?msgs w = Some (Some (map Some rs), w')"
    "list_all2 (\<lambda>m r. wf_response r \<and> ans_of r = fst (spec_serve app m (contents_at w (message_server_rank m)))) (somes ?msgs) rs"
    "after (by_rank (somes ?msgs)) w w'" by blast
  have "list_all2 (\<lambda>ri r. wf_response r \<and> ans_of r = answer_of (M \<circ> mk) w ri) ris rs"
    using r(2) unfolding s list_all2_map1 by (simp add: M answer_of_def)
  moreover have "by_rank (somes ?msgs) (rs_rank ri) = (if ri \<in> set ris then Some (M (mk ri)) else None)"
    if ri: "ri \<in> set (md_rangesrvs md)" for ri
  proof -
    have pairs: "map (\<lambda>m. (message_server_rank m, m)) (somes ?msgs) = map (\<lambda>ri. (rs_rank ri, M (mk ri))) ris"
      by (simp add: s M comp_def)
    have d': "distinct (map fst (map (\<lambda>ri. (rs_rank ri, M (mk ri))) ris))" using d ranks by (simp add: comp_def)
    show ?thesis
    proof (cases "ri \<in> set ris")
      case True
      then have "(rs_rank ri, M (mk ri)) \<in> set (map (\<lambda>ri. (rs_rank ri, M (mk ri))) ris)" by force
      with True show ?thesis unfolding by_rank_def pairs using map_of_is_SomeI [OF d'] by simp
    next
      case False
      then have "rs_rank ri \<notin> rs_rank ` set ris" using uniq ri in_rss by blast
      with False show ?thesis unfolding by_rank_def pairs by (auto simp: map_of_eq_None_iff)
    qed
  qed
  then have "bulk_after (M \<circ> mk) (set ris) w w'"
    using r(3) by (simp add: bulk_after_def after_def)
  ultimately show ?thesis using r(1) by blast
qed

lemma bulk_after_none: "quiet w \<Longrightarrow> bulk_after msg {} w w"
  by (simp add: bulk_after_def)

lemma bulk_local:
  assumes c: "client_ok mpi g md me c" and w1: "bulk_after msg A w w1" and ri: "ri \<in> set (md_rangesrvs md)" "rs_rank ri = me"
    and out: "ri \<notin> A" and good: "good_at me w me (msg ri)"
  shows "\<exists>r w2. local_request c (msg ri) w1 = Some (Some r, w2) \<and> wf_response r \<and> ans_of r = answer_of msg w ri \<and>
    bulk_after msg (insert ri A) w w2"
proof -
  have q: "quiet w1" and same: "contents_at w1 me = contents_at w me" using w1 ri out by (auto simp: bulk_after_def)
  have "good_at me w1 me (msg ri)" using good by (simp add: good_at_def same)
  from local_call [OF q c this] obtain r w2 where r: "local_request c (msg ri) w1 = Some (Some r, w2)" "wf_response r"
    "ans_of r = fst (spec_serve app (msg ri) (contents_at w1 me))" "after [me \<mapsto> msg ri] w1 w2" by blast
  have "contents_at w2 (rs_rank x) = (if x \<in> insert ri A then snd (spec_serve app (msg x) (contents_at w (rs_rank x)))
      else contents_at w (rs_rank x))" if x: "x \<in> set (md_rangesrvs md)" for x
  proof (cases "x = ri")
    case True
    with r(4) same ri show ?thesis by (simp add: after_def)
  next
    case False
    then have "rs_rank x \<noteq> me" using server_unique(1) [OF numbers x ri(1)] ri(2) by auto
    with False r(4) w1 x show ?thesis by (simp add: after_def bulk_after_def)
  qed
  moreover have "quiet w2" using r(4) by (simp add: after_def)
  ultimately have "bulk_after msg (insert ri A) w w2" by (simp add: bulk_after_def)
  with r same ri show ?thesis by (auto simp: answer_of_def)
qed

end

end

