(* ===== verification/Mdhim_Refines.thy ===== *)
theory Mdhim_Refines
  imports Mdhim_Bulk
begin

text \<open>
  The three bulk operations refine the map, and so does every sequence of calls from any processes.
\<close>

section \<open>The messages of a bulk operation\<close>

lemma fold_add_bputm:
  "snd (bp_keys (fold (add_bputm ks kl vs vl) js m)) = snd (bp_keys m) @ map ((!) ks) js"
  "snd (bp_key_lens (fold (add_bputm ks kl vs vl) js m)) = snd (bp_key_lens m) @ map ((!) kl) js"
  "snd (bp_values (fold (add_bputm ks kl vs vl) js m)) = snd (bp_values m) @ map ((!) vs) js"
  "snd (bp_value_lens (fold (add_bputm ks kl vs vl) js m)) = snd (bp_value_lens m) @ map ((!) vl) js"
  "bp_num_records (fold (add_bputm ks kl vs vl) js m) = bp_num_records m + of_nat (length js)"
  "bp_server_rank (fold (add_bputm ks kl vs vl) js m) = bp_server_rank m"
  "bp_mtype (fold (add_bputm ks kl vs vl) js m) = bp_mtype m"
  by (induction js arbitrary: m) (simp_all add: add_bputm_def)

lemma fold_add_bgetm:
  "snd (bg_keys (fold (add_bgetm ks kl) js m)) = snd (bg_keys m) @ map ((!) ks) js"
  "snd (bg_key_lens (fold (add_bgetm ks kl) js m)) = snd (bg_key_lens m) @ map ((!) kl) js"
  "bg_num_records (fold (add_bgetm ks kl) js m) = bg_num_records m + of_nat (length js)"
  "bg_server_rank (fold (add_bgetm ks kl) js m) = bg_server_rank m"
  "bg_mtype (fold (add_bgetm ks kl) js m) = bg_mtype m"
  by (induction js arbitrary: m) (simp_all add: add_bgetm_def)

lemma fold_add_bdelm:
  "snd (bd_keys (fold (add_bdelm ks kl) js m)) = snd (bd_keys m) @ map ((!) ks) js"
  "snd (bd_key_lens (fold (add_bdelm ks kl) js m)) = snd (bd_key_lens m) @ map ((!) kl) js"
  "bd_num_records (fold (add_bdelm ks kl) js m) = bd_num_records m + of_nat (length js)"
  "bd_server_rank (fold (add_bdelm ks kl) js m) = bd_server_rank m"
  "bd_mtype (fold (add_bdelm ks kl) js m) = bd_mtype m"
  by (induction js arbitrary: m) (simp_all add: add_bdelm_def)

lemma new_bulk [simp]:
  "snd (bp_keys (new_bputm c ri)) = []" "snd (bp_key_lens (new_bputm c ri)) = []"
  "snd (bp_values (new_bputm c ri)) = []" "snd (bp_value_lens (new_bputm c ri)) = []"
  "bp_num_records (new_bputm c ri) = 0" "bp_server_rank (new_bputm c ri) = rs_rank ri" "bp_mtype (new_bputm c ri) = MDHIM_BULK_PUT"
  "snd (bg_keys (new_bgetm c ri)) = []" "snd (bg_key_lens (new_bgetm c ri)) = []"
  "bg_num_records (new_bgetm c ri) = 0" "bg_server_rank (new_bgetm c ri) = rs_rank ri" "bg_mtype (new_bgetm c ri) = MDHIM_BULK_GET"
  "snd (bd_keys (new_bdelm c ri)) = []" "snd (bd_key_lens (new_bdelm c ri)) = []"
  "bd_num_records (new_bdelm c ri) = 0" "bd_server_rank (new_bdelm c ri) = rs_rank ri" "bd_mtype (new_bdelm c ri) = MDHIM_BULK_DEL"
  by (simp_all add: new_bputm_def new_bgetm_def new_bdelm_def Let_def)

section \<open>Some of the records\<close>

text \<open>The records of one server: their blocks are well-formed, and no larger together than all are.\<close>

lemma blobs_size_some:
  "blobs_size (map ((!) bs) (filter P [0..<length bs])) \<le> blobs_size bs"
proof -
  have "blobs_size (map ((!) bs) (filter P [0..<length bs])) = sum_list (map (\<lambda>i. length (snd (bs ! i))) (filter P [0..<length bs]))"
    by (simp add: blobs_size_def comp_def)
  also have "\<dots> \<le> sum_list (map (\<lambda>i. length (snd (bs ! i))) [0..<length bs])" by (rule sum_list_filter_le_nat)
  also have "\<dots> = blobs_size bs"
    unfolding blobs_size_def by (rule arg_cong [of _ _ sum_list], rule nth_equalityI) simp_all
  finally show ?thesis .
qed

lemma length_some: "length (filter P [0..<n]) \<le> n"
  by (metis length_filter_le length_upt minus_nat.diff_0)

lemma blob_bound: "b \<in> set bs \<Longrightarrow> length (snd b) \<le> blobs_size bs"
  unfolding blobs_size_def by (rule member_le_sum_list) simp_all

lemma blobs_ok_some:
  assumes "blobs_size bs < 2147483648" and "length bs < 2147483648" and "set js \<subseteq> {..<length bs}" and "length js \<le> length bs"
  shows "blobs_ok (map ((!) bs) js) (map ((!) (lens_of bs)) js) (of_nat (length js))"
proof -
  have "blob_ok (bs ! i) (lens_of bs ! i)" if "i \<in> set js" for i
  proof -
    have "i < length bs" using that assms(3) by auto
    then have "length (snd (bs ! i)) \<le> blobs_size bs" by (intro blob_bound) simp
    with assms(1) \<open>i < length bs\<close> show ?thesis by (simp add: lens_of_def)
  qed
  then have "list_all2 blob_ok (map ((!) bs) js) (map ((!) (lens_of bs)) js)"
    by (simp add: list_all2_map1 list_all2_map2 list.rel_refl_strong)
  with assms(2,4) show ?thesis by (simp add: blobs_ok_def)
qed

lemma records_all: "int n \<le> MAX_BULK_OPS \<Longrightarrow> records (of_nat n) = [0..<n] \<and> \<not> sint (of_nat n :: i32) > MAX_BULK_OPS"
  by (simp add: records_def MAX_BULK_OPS_def min_def)

lemma records_of_upt: "records_of srv [0..<n] s = filter (\<lambda>i. rs_rank (srv i) = s) [0..<n]"
  by (simp add: records_of_def)

text \<open>The effect of writing a list of records on one key: only the records of that key matter.\<close>

lemma fold_writes_at:
  assumes "\<And>i. i \<in> set is \<Longrightarrow> K i = x \<Longrightarrow> P i" and "\<And>v. f x v = f' x v" and "m x = m' x"
  shows "fold (\<lambda>i m. m(K i \<mapsto> f (K i) (V i))) (filter P is) m x = fold (\<lambda>i m. m(K i \<mapsto> f' (K i) (V i))) is m' x"
  using assms(1,3)
proof (induction "is" arbitrary: m m')
  case (Cons i "is")
  show ?case
  proof (cases "P i")
    case True
    have "(m(K i \<mapsto> f (K i) (V i))) x = (m'(K i \<mapsto> f' (K i) (V i))) x" using Cons.prems(2) assms(2) by (cases "K i = x") simp_all
    then have "fold (\<lambda>i m. m(K i \<mapsto> f (K i) (V i))) (filter P is) (m(K i \<mapsto> f (K i) (V i))) x =
        fold (\<lambda>i m. m(K i \<mapsto> f' (K i) (V i))) is (m'(K i \<mapsto> f' (K i) (V i))) x"
      using Cons.prems(1) by (intro Cons.IH) auto
    with True show ?thesis by (simp del: fun_upd_apply)
  next
    case False
    then have "K i \<noteq> x" using Cons.prems by auto
    then have "m x = (m'(K i \<mapsto> f' (K i) (V i))) x" using Cons.prems(2) by simp
    then have "fold (\<lambda>i m. m(K i \<mapsto> f (K i) (V i))) (filter P is) m x =
        fold (\<lambda>i m. m(K i \<mapsto> f' (K i) (V i))) is (m'(K i \<mapsto> f' (K i) (V i))) x"
      using Cons.prems(1) by (intro Cons.IH) auto
    with False show ?thesis by (simp del: fun_upd_apply)
  qed
qed simp

lemma list_all2_right: "list_all2 P xs ys \<Longrightarrow> y \<in> set ys \<Longrightarrow> \<exists>x \<in> set xs. P x y"
  by (induction xs ys rule: list_all2_induct) auto

text \<open>Records split by a function and put together again.\<close>

lemma mset_split:
  "distinct ys \<Longrightarrow> mset (concat (map (\<lambda>y. map F (filter (\<lambda>i. h i = y) is)) ys)) = mset (map F (filter (\<lambda>i. h i \<in> set ys) is))"
proof (induction ys)
  case (Cons y ys)
  have "mset (filter (\<lambda>i. h i = y) is) + mset (filter (\<lambda>i. h i \<in> set ys) is) = mset (filter (\<lambda>i. h i \<in> set (y # ys)) is)"
    using Cons.prems by (induction "is") auto
  then have "image_mset F (mset (filter (\<lambda>i. h i = y) is)) + image_mset F (mset (filter (\<lambda>i. h i \<in> set ys) is)) =
      image_mset F (mset (filter (\<lambda>i. h i \<in> set (y # ys)) is))"
    by (metis image_mset_union)
  then show ?case using Cons by simp
qed simp

section \<open>The records of one server\<close>

text \<open>The server of record \<open>i\<close>.\<close>

definition record_server :: "part_globals \<Rightarrow> mdhim_t \<Rightarrow> blob list \<Rightarrow> nat \<Rightarrow> rangesrv_info" where
  "record_server g md ks i = the (server_of g md (snd (ks ! i)))"

lemma record_found:
  assumes "client_ok mpi g md me c" and "\<And>k. k \<in> set ks \<Longrightarrow> known_key valid g md k" and "blobs_size ks < 2147483648"
    and "i \<in> set [0..<length ks]"
  shows "find_server c (ks ! i) (lens_of ks ! i) = Some (Some (record_server g md ks i))"
    "server_of g md (snd (ks ! i)) = Some (record_server g md ks i)" "record_server g md ks i \<in> set (md_rangesrvs md)"
proof -
  have i: "i < length ks" "ks ! i \<in> set ks" using assms(4) by simp_all
  have len: "length (snd (ks ! i)) < 2147483648" using blob_bound [OF i(2)] assms(3) by simp
  obtain ri where ri: "server_of g md (snd (ks ! i)) = Some ri" "find_server c (ks ! i) (len32 (snd (ks ! i))) = Some (Some ri)"
    using known_found [OF assms(1) assms(2) [OF i(2)] len] .
  moreover from ri(1) have "record_server g md ks i = ri" by (simp add: record_server_def)
  moreover have "lens_of ks ! i = len32 (snd (ks ! i))" using i by (simp add: lens_of_def)
  ultimately show "find_server c (ks ! i) (lens_of ks ! i) = Some (Some (record_server g md ks i))"
    "server_of g md (snd (ks ! i)) = Some (record_server g md ks i)" "record_server g md ks i \<in> set (md_rangesrvs md)"
    using server_of_in(1) by simp_all
qed

context mdhim_cluster
begin

lemma asked_server:
  assumes known: "\<And>k. k \<in> set ks \<Longrightarrow> known_key valid g md k" and ri: "ri \<in> set (md_rangesrvs md)"
    and i: "i \<in> set (records_of (record_server g md ks) [0..<length ks] (rs_rank ri))"
  shows "i < length ks" "ks ! i \<in> set ks" "server_of g md (snd (ks ! i)) = Some ri"
proof -
  show n: "i < length ks" "ks ! i \<in> set ks" using i by (simp_all add: records_of_def)
  obtain x where x: "server_of g md (snd (ks ! i)) = Some x" using known [OF n(2)] by (auto simp: known_key_def)
  then have "record_server g md ks i = x" by (simp add: record_server_def)
  then have "rs_rank x = rs_rank ri" using i by (simp add: records_of_def)
  then have "x = ri" using server_unique(1) [OF numbers _ ri] server_of_in(1) [OF x] by blast
  with x show "server_of g md (snd (ks ! i)) = Some ri" by simp
qed

text \<open>What the loop of a bulk operation makes of its records.\<close>

lemma split_records:
  assumes c: "client_ok mpi g md me c" and known: "\<And>k. k \<in> set ks \<Longrightarrow> known_key valid g md k"
    and size: "blobs_size ks < 2147483648" and rank: "\<And>js ri. f (fold add js (new ri)) = rs_rank ri"
  obtains lm list ris where "bulk_loop (bulk_body c new add ks (lens_of ks)) [0..<length ks] (no_slots c) = Some (lm, list)"
    "somes list = map (\<lambda>ri. fold add (records_of (record_server g md ks) [0..<length ks] (rs_rank ri)) (new ri)) ris"
    "distinct ris" "set ris = {ri \<in> asked md (record_server g md ks) [0..<length ks]. rs_rank ri \<noteq> me}"
    "\<And>ri. ri \<in> set (md_rangesrvs md) \<Longrightarrow> rs_rank ri = me \<Longrightarrow>
       lm = (if ri \<in> asked md (record_server g md ks) [0..<length ks]
             then Some (fold add (records_of (record_server g md ks) [0..<length ks] (rs_rank ri)) (new ri)) else None)"
    "me \<notin> servers md \<Longrightarrow> lm = None"
proof -
  let ?srv = "record_server g md ks" and ?is = "[0..<length ks]"
  have cl: "numbered (cl_md c) = numbered md" "md_rangesrvs (cl_md c) = md_rangesrvs md" "cl_rank c = me"
    "\<And>srv. split_messages new add (cl_md c) srv = split_messages new add md srv"
    using c by (auto simp: client_ok_def same_routing_def numbered_def split_messages_def servers_def fun_eq_iff)
  have "find_server c (ks ! i) (lens_of ks ! i) = Some (Some (?srv i)) \<and> ?srv i \<in> set (md_rangesrvs (cl_md c))"
    if "i \<in> set ?is" for i
    using record_found [OF c known size that] cl by simp
  from loop_splits [where f = f and add = add and new = new, OF _ this rank] numbers obtain lm list where
    l: "bulk_loop (bulk_body c new add ks (lens_of ks)) ?is (no_slots c) = Some (lm, list)"
    "split_messages new add md ?srv ?is me lm list" "distinct (map f (somes list))"
    unfolding cl by blast
  obtain ris where ris: "somes list = map (\<lambda>ri. fold add (records_of ?srv ?is (rs_rank ri)) (new ri)) ris" "distinct ris"
    "set ris = {ri \<in> asked md ?srv ?is. rs_rank ri \<noteq> me}"
    using split_servers [OF numbers l(2,3) rank] .
  show ?thesis
  proof (rule that [OF l(1) ris])
    show "lm = (if ri \<in> asked md ?srv ?is then Some (fold add (records_of ?srv ?is (rs_rank ri)) (new ri)) else None)"
      if "ri \<in> set (md_rangesrvs md)" "rs_rank ri = me" for ri
      using l(2) that unfolding split_messages_def asked_def by auto
    show "lm = None" if "me \<notin> servers md" using l(2) that by (simp add: split_messages_def)
  qed
qed

lemma asked_nonempty:
  assumes "\<And>k. k \<in> set ks \<Longrightarrow> known_key valid g md k"
  shows "asked md (record_server g md ks) [0..<length ks] = {} \<longleftrightarrow> ks = []"
proof -
  have "record_server g md ks i \<in> set (md_rangesrvs md)" if i: "i \<in> set [0..<length ks]" for i
  proof -
    have "ks ! i \<in> set ks" using i by simp
    from assms [OF this] obtain x where "server_of g md (snd (ks ! i)) = Some x" by (auto simp: known_key_def)
    then show ?thesis using server_of_in(1) by (auto simp: record_server_def)
  qed
  then have "asked md (record_server g md ks) [0..<length ks] = record_server g md ks ` set [0..<length ks]"
    by (rule asked_records [OF _ numbers])
  then show ?thesis by simp
qed

lemma split_asked:
  assumes "distinct ris" and "set ris = {ri \<in> asked md srv is. rs_rank ri \<noteq> me}"
  shows "(\<forall>ri \<in> set (md_rangesrvs md). rs_rank ri = me \<longrightarrow> ri \<notin> asked md srv is) \<and> set ris = asked md srv is \<or>
    (\<exists>ri \<in> set (md_rangesrvs md). rs_rank ri = me \<and> ri \<in> asked md srv is \<and> distinct (ri # ris) \<and>
       set (ri # ris) = asked md srv is)"
proof (cases "\<exists>ri \<in> asked md srv is. rs_rank ri = me")
  case False
  then have "{ri \<in> asked md srv is. rs_rank ri \<noteq> me} = asked md srv is" by blast
  then have "set ris = asked md srv is" using assms(2) by simp
  moreover have "\<forall>ri \<in> set (md_rangesrvs md). rs_rank ri = me \<longrightarrow> ri \<notin> asked md srv is" using False by blast
  ultimately show ?thesis by blast
next
  case True
  then obtain ri where ri: "ri \<in> asked md srv is" "rs_rank ri = me" by blast
  then have r: "ri \<in> set (md_rangesrvs md)" by (simp add: asked_def)
  have "\<forall>x \<in> asked md srv is. rs_rank x = me \<longrightarrow> x = ri"
    using server_unique(1) [OF numbers _ r] ri(2) by (simp add: asked_def)
  then have "insert ri {x \<in> asked md srv is. rs_rank x \<noteq> me} = asked md srv is" using ri(1) by blast
  then have "set (ri # ris) = asked md srv is" using assms(2) by simp
  moreover have "distinct (ri # ris)" using assms ri(2) by simp
  ultimately show ?thesis by (intro disjI2 bexI [OF _ r] conjI ri)
qed

lemma bput_size_check:
  assumes "length vs = length ks" and "56 + blobs_size ks + blobs_size vs < 2147483648" and "length ks < 2147483648"
    and m: "m = fold (add_bputm ks (lens_of ks) vs (lens_of vs)) (filter P [0..<length ks]) (new_bputm c ri)"
  shows "\<not> MDHIM_MAX_MSG_SIZE <s bput_m_size m"
proof -
  let ?js = "filter P [0..<length ks]"
  let ?g = "\<lambda>j. length (snd (ks ! (?js ! j))) + length (snd (vs ! (?js ! j)))"
  have b: "length (snd (ks ! i)) \<le> blobs_size ks \<and> length (snd (vs ! i)) \<le> blobs_size vs" if "i < length ks" for i
    using that assms(1) by (auto intro: blob_bound)
  have js: "?js ! j < length ks" if "j < length ?js" for j
    using nth_mem [OF that] by simp
  have "length ?js \<le> length ks" by (rule length_some)
  then have num: "nat (sint (bp_num_records m)) = length ?js" using assms(3) by (simp add: m fold_add_bputm)
  have f: "scast (snd (bp_key_lens m) ! j + snd (bp_value_lens m) ! j) = (of_nat (?g j) :: 64 word)"
    if "j \<in> set [0..<length ?js]" for j
  proof -
    from that have j: "j < length ?js" by simp
    have "snd (bp_key_lens m) ! j = of_nat (length (snd (ks ! (?js ! j))))"
      "snd (bp_value_lens m) ! j = of_nat (length (snd (vs ! (?js ! j))))"
      using j js [OF j] assms(1) by (simp_all add: m fold_add_bputm lens_of_def len32_def)
    moreover have "?g j < 2147483648" using b [OF js [OF j]] assms(2) by linarith
    ultimately show ?thesis by simp
  qed
  have sum: "sum_list (map ?g [0..<length ?js]) = blobs_size (map ((!) ks) ?js) + blobs_size (map ((!) vs) ?js)"
  proof -
    have "map (\<lambda>j. length (snd (ks ! (?js ! j)))) [0..<length ?js] = map (\<lambda>i. length (snd (ks ! i))) ?js"
      "map (\<lambda>j. length (snd (vs ! (?js ! j)))) [0..<length ?js] = map (\<lambda>i. length (snd (vs ! i))) ?js"
      by (intro nth_equalityI; simp)+
    then show ?thesis by (simp only: blobs_size_def sum_list_addf map_map comp_def)
  qed
  have "blobs_size (map ((!) vs) ?js) \<le> blobs_size vs" using blobs_size_some [of vs P] assms(1) by simp
  then have "56 + sum_list (map ?g [0..<length ?js]) < 2147483648"
    using assms(2) blobs_size_some [of ks P] unfolding sum by linarith
  moreover have "bput_m_size m = of_nat (56 + sum_list (map ?g [0..<length ?js]))"
    using fold_sizes [of "[0..<length ?js]" "\<lambda>j. scast (snd (bp_key_lens m) ! j + snd (bp_value_lens m) ! j)" ?g 56, OF f]
    unfolding bput_m_size_def num by simp
  ultimately show ?thesis by (simp only: too_large_of_nat)
qed

text \<open>The effect of a bulk operation on the whole map, from its effect on the servers that were asked.\<close>

lemma stored_after:
  assumes w: "bulk_after msg (asked md srv is) w w'" and k: "server_of g md k = Some ri"
    and serve: "\<And>c. snd (spec_serve app (msg ri) c) = eff (records_of srv is (rs_rank ri)) c" and none: "\<And>c. eff [] c = c"
  shows "store_map w' k = eff (records_of srv is (rs_rank ri)) (contents_at w (rs_rank ri)) k"
proof -
  have ri: "ri \<in> set (md_rangesrvs md)" using server_of_in(1) [OF k] .
  then have "contents_at w' (rs_rank ri) = (if ri \<in> asked md srv is then snd (spec_serve app (msg ri) (contents_at w (rs_rank ri)))
      else contents_at w (rs_rank ri))" using w by (simp add: bulk_after_def)
  moreover have "ri \<in> asked md srv is \<longleftrightarrow> records_of srv is (rs_rank ri) \<noteq> []" using ri by (simp add: asked_def)
  ultimately show ?thesis using serve none by (auto simp: stored_at [OF k])
qed

lemma bulk_after_cong: "A = B \<Longrightarrow> bulk_after msg A w w' \<Longrightarrow> bulk_after msg B w w'"
  by simp

lemma bput_message:
  fixes c :: "('n, 'd) client" and ri :: rangesrv_info
  assumes ok: "call_ok valid g md app me (BPut kvs) (store_map w)" and ri: "ri \<in> set (md_rangesrvs md)"
  defines "ks \<equiv> map fst kvs" and "vs \<equiv> map snd kvs"
  defines "js \<equiv> records_of (record_server g md ks) [0..<length ks] (rs_rank ri)"
  defines "m \<equiv> BputM (fold (add_bputm ks (lens_of ks) vs (lens_of vs)) js (new_bputm c ri))"
  shows "spec_serve app m cnt =
      (Done 0, fold (\<lambda>i m'. m'(snd (ks ! i) \<mapsto> put_new app cnt (snd (ks ! i)) (snd (vs ! i)))) js cnt)"
    and "good_at me w (rs_rank ri) m" and "bulk_type m" and "\<exists>sz. sendable m sz" and "message_server_rank m = rs_rank ri"
proof -
  have len: "length vs = length ks" "length kvs = length ks" by (simp_all add: ks_def vs_def)
  have size: "int (length ks) \<le> MAX_BULK_OPS" "56 + 8 * length ks + blobs_size ks + blobs_size vs \<le> 2147483647"
    using ok by (simp_all add: ks_def vs_def)
  have known: "known_key valid g md k" if "k \<in> set ks" for k using ok that by (auto simp: ks_def)
  have js: "js = filter (\<lambda>i. rs_rank (record_server g md ks i) = rs_rank ri) [0..<length ks]"
    by (simp add: js_def records_of_upt)
  have jlen: "length js \<le> length ks" "set js \<subseteq> {..<length ks}" unfolding js by (rule length_some) auto
  have fields: "bp_mtype (fold (add_bputm ks (lens_of ks) vs (lens_of vs)) js (new_bputm c ri)) = MDHIM_BULK_PUT"
    by (simp add: fold_add_bputm)
  note simps = fold_add_bputm m_def
  show "spec_serve app m cnt =
      (Done 0, fold (\<lambda>i m'. m'(snd (ks ! i) \<mapsto> put_new app cnt (snd (ks ! i)) (snd (vs ! i)))) js cnt)"
    by (simp add: simps comp_def zip_map_map zip_same_conv_map fold_map del: fun_upd_apply)
  show rank: "message_server_rank m = rs_rank ri" by (simp add: simps)
  show "bulk_type m" by (simp add: simps bulk_type_def)
  have bk: "blobs_ok (map ((!) ks) js) (map ((!) (lens_of ks)) js) (of_nat (length js))"
    using size jlen by (intro blobs_ok_some) simp_all
  have bv: "blobs_ok (map ((!) vs) js) (map ((!) (lens_of vs)) js) (of_nat (length js))"
    using size jlen len by (intro blobs_ok_some) simp_all
  have "blobs_size (map ((!) ks) js) \<le> blobs_size ks" "blobs_size (map ((!) vs) js) \<le> blobs_size vs"
    unfolding js using blobs_size_some [of ks] blobs_size_some [of vs] len by simp_all
  then have "bputm_ok (fold (add_bputm ks (lens_of ks) vs (lens_of vs)) js (new_bputm c ri))
      (56 + 8 * length js + blobs_size (map ((!) ks) js) + blobs_size (map ((!) vs) js))"
    using bk bv size jlen by (simp add: bputm_ok_def fold_add_bputm)
  then show "\<exists>sz. sendable m sz" using fields by (auto simp: m_def)
  have each: "valid (snd (ks ! i)) \<and> key_known g md (snd (ks ! i)) \<and> fits app (contents_at w (rs_rank ri)) (snd (ks ! i)) (snd (vs ! i)) \<and>
      (app \<and> me \<noteq> rs_rank ri \<longrightarrow> fst (read_val (contents_at w (rs_rank ri)) (snd (ks ! i))) \<noteq> 0)" if i: "i \<in> set js" for i
  proof -
    have s: "server_of g md (snd (ks ! i)) = Some ri" "i < length ks"
      using asked_server [where ks = ks and i = i, OF known ri] i unfolding js_def by blast+
    then have "kvs ! i \<in> set kvs" "kvs ! i = (ks ! i, vs ! i)" by (simp_all add: ks_def vs_def)
    with ok have "known_key valid g md (ks ! i)" "fits app (store_map w) (snd (ks ! i)) (snd (vs ! i))"
      "app \<and> map_option rs_rank (server_of g md (snd (ks ! i))) \<noteq> Some me \<longrightarrow> fst (read_val (store_map w) (snd (ks ! i))) \<noteq> 0"
      by auto
    then show ?thesis using s(1) by (auto simp: known_key_def fits_at [OF s(1)] read_val_at [OF s(1)])
  qed
  have "rs_rank ri \<in> servers md" using ri by (simp add: servers_def)
  moreover have "int (length js) \<le> MAX_BULK_OPS" using jlen(1) size(1) by linarith
  ultimately show "good_at me w (rs_rank ri) m"
    using bk bv each by (simp add: good_at_def simps reply_fits_def list_all2_map1 list_all2_map2 list_all2_same)
qed

lemma fold_writes_other: "x \<notin> K ` set is \<Longrightarrow> fold (\<lambda>i m. m(K i \<mapsto> F i)) is m x = m x"
  by (induction "is" arbitrary: m) simp_all

lemma bput_map:
  assumes ok: "call_ok valid g md app me (BPut kvs) (store_map w)"
  defines "ks \<equiv> map fst kvs" and "vs \<equiv> map snd kvs"
  assumes w: "bulk_after msg (asked md (record_server g md ks) [0..<length ks]) w w'"
    and serve: "\<And>ri cnt. ri \<in> set (md_rangesrvs md) \<Longrightarrow> snd (spec_serve app (msg ri) cnt) =
      fold (\<lambda>i m'. m'(snd (ks ! i) \<mapsto> put_new app cnt (snd (ks ! i)) (snd (vs ! i))))
        (records_of (record_server g md ks) [0..<length ks] (rs_rank ri)) cnt"
  shows "store_map w' = call_map app (BPut kvs) (store_map w)"
proof
  fix x
  let ?is = "[0..<length ks]" and ?m = "store_map w"
  have "kvs = map (\<lambda>i. (ks ! i, vs ! i)) ?is"
    by (intro nth_equalityI) (simp_all add: ks_def vs_def)
  then have spec: "call_map app (BPut kvs) ?m = fold (\<lambda>i m'. m'(snd (ks ! i) \<mapsto> put_new app ?m (snd (ks ! i)) (snd (vs ! i)))) ?is ?m"
    by (subst \<open>kvs = _\<close>) (simp only: call_map.simps fold_map comp_def prod.case)
  have known: "known_key valid g md k" if "k \<in> set ks" for k using ok that by (auto simp: ks_def)
  show "store_map w' x = call_map app (BPut kvs) ?m x"
  proof (cases "server_of g md x")
    case None
    have "server_of g md (snd (ks ! i)) \<noteq> None" if "i \<in> set ?is" for i
      using known [of "ks ! i"] that by (simp add: known_key_def)
    then have "x \<notin> (\<lambda>i. snd (ks ! i)) ` set ?is" using None by blast
    then show ?thesis unfolding spec using None by (subst fold_writes_other) (simp_all add: stored_def)
  next
    case (Some ri)
    let ?c = "contents_at w (rs_rank ri)"
    have "store_map w' x = fold (\<lambda>i m'. m'(snd (ks ! i) \<mapsto> put_new app ?c (snd (ks ! i)) (snd (vs ! i))))
        (records_of (record_server g md ks) ?is (rs_rank ri)) ?c x"
      using stored_after [OF w Some, of "\<lambda>js c. fold (\<lambda>i m'. m'(snd (ks ! i) \<mapsto> put_new app c (snd (ks ! i)) (snd (vs ! i)))) js c"]
        serve server_of_in(1) [OF Some] by (simp del: spec_serve.simps)
    also have "\<dots> = fold (\<lambda>i m'. m'(snd (ks ! i) \<mapsto> put_new app ?m (snd (ks ! i)) (snd (vs ! i)))) ?is ?m x"
      unfolding records_of_def
      by (rule fold_writes_at [where K = "\<lambda>i. snd (ks ! i)" and V = "\<lambda>i. snd (vs ! i)" and f = "put_new app ?c"
            and f' = "put_new app ?m"]) (simp_all add: record_server_def Some put_new_at [OF Some] stored_at [OF Some])
    finally show ?thesis unfolding spec .
  qed
qed

text \<open>What the three bulk operations do with the messages: those for other servers are sent and their
  answers collected, the one for the own server is put into its queue, and its answer comes first.\<close>

definition bulk_client ::
  "('n, 'd) client \<Rightarrow> (response \<Rightarrow> 'b option) \<Rightarrow> ('m \<Rightarrow> rs_message) \<Rightarrow> 'm option list \<Rightarrow> ('n, 'd) world \<Rightarrow> ('b list \<times> ('n, 'd) world) option" where
  "bulk_client c as M list w = do {
     (rm_list, w) \<leftarrow> client_bulk c (map (map_option M) list) w;
     case rm_list of None \<Rightarrow> Some ([], w)
     | Some rs \<Rightarrow> do { bs \<leftarrow> collect as rs; Some (bs, w) } }"

lemma bulk_others:
  assumes q: "quiet w" and c: "client_ok mpi g md me c" and somes: "somes list = map mk ris" and dist: "distinct ris"
    and ris: "set ris \<subseteq> {ri \<in> set (md_rangesrvs md). rs_rank ri \<noteq> me}"
    and M: "\<And>ri. message_server_rank (M (mk ri)) = rs_rank ri"
    and good: "\<And>ri. ri \<in> set ris \<Longrightarrow> good_at me w (rs_rank ri) (M (mk ri)) \<and> bulk_type (M (mk ri)) \<and> (\<exists>sz. sendable (M (mk ri)) sz)"
    and cb: "cb w = bulk_client c as M list w \<or> somes list = [] \<and> cb w = Some ([], w)"
    and conv: "\<And>ri r. ri \<in> set ris \<Longrightarrow> wf_response r \<Longrightarrow> ans_of r = answer_of (M \<circ> mk) w ri \<Longrightarrow> \<exists>b. as r = Some b \<and> Q ri b"
  shows "\<exists>bs w1. cb w = Some (bs, w1) \<and> list_all2 Q ris bs \<and> bulk_after (M \<circ> mk) (set ris) w w1"
  using cb
proof
  assume "somes list = [] \<and> cb w = Some ([], w)"
  with somes show ?thesis using bulk_after_none [OF q] by simp
next
  assume cb: "cb w = bulk_client c as M list w"
  obtain rs w1 where r: "client_bulk c (map (map_option M) list) w = Some (Some (map Some rs), w1)"
    "list_all2 (\<lambda>ri r. wf_response r \<and> ans_of r = answer_of (M \<circ> mk) w ri) ris rs" "bulk_after (M \<circ> mk) (set ris) w w1"
    using bulk_remote [OF q c somes dist ris M good] by blast
  have "\<exists>bs. list_all2 (\<lambda>r b. as r = Some b) rs bs \<and> list_all2 Q ris bs"
    using r(2) conv
  proof (induction ris rs rule: list_all2_induct)
    case (Cons ri ris r rs)
    obtain bs where bs: "list_all2 (\<lambda>r b. as r = Some b) rs bs" "list_all2 Q ris bs"
      using Cons.IH Cons.prems by auto
    have "\<exists>b. as r = Some b \<and> Q ri b" 
      by (intro Cons.prems conjunct1 [OF Cons.hyps(1)] conjunct2 [OF Cons.hyps(1)]) simp
    then obtain b where "as r = Some b" "Q ri b" by blast
    with bs show ?case by (intro exI [of _ "b # bs"]) simp
  qed simp
  then obtain bs where bs: "list_all2 (\<lambda>r b. as r = Some b) rs bs" "list_all2 Q ris bs" by blast
  have "cb w = Some (bs, w1)" unfolding cb bulk_client_def r(1) using collect_all [OF bs(1)] by simp
  with bs r(3) show ?thesis by blast
qed

lemma bulk_all:
  assumes q: "quiet w" and c: "client_ok mpi g md me c"
    and ris: "somes list = map mk ris" "distinct ris" "set ris = {ri \<in> asked md srv is. rs_rank ri \<noteq> me}"
    and lm: "\<And>ri. ri \<in> set (md_rangesrvs md) \<Longrightarrow> rs_rank ri = me \<Longrightarrow> lm = (if ri \<in> asked md srv is then Some (mk ri) else None)"
      "me \<notin> servers md \<Longrightarrow> lm = None"
    and M: "\<And>ri. message_server_rank (M (mk ri)) = rs_rank ri"
    and good: "\<And>ri. ri \<in> asked md srv is \<Longrightarrow>
      good_at me w (rs_rank ri) (M (mk ri)) \<and> bulk_type (M (mk ri)) \<and> (\<exists>sz. sendable (M (mk ri)) sz)"
    and cb: "cb w = bulk_client c as M list w \<or> somes list = [] \<and> cb w = Some ([], w)"
    and own: "\<And>ri w. ri \<in> asked md srv is \<Longrightarrow>
      lf (mk ri) w = do { (rm, w) \<leftarrow> local_request c (M (mk ri)) w; rm \<leftarrow> as_ptr as' rm; Some (rm, w) }"
    and conv: "\<And>ri r. ri \<in> asked md srv is \<Longrightarrow> wf_response r \<Longrightarrow> ans_of r = answer_of (M \<circ> mk) w ri \<Longrightarrow>
      (\<exists>b. as r = Some b \<and> Q ri b) \<and> (\<exists>l. as' r = Some l \<and> Q ri (fin l))"
    and front: "\<And>l h w. tl' (Some l) h w = Some (fin l # h, w)"
  shows "\<exists>bs w2 xs. do { (h, w) \<leftarrow> cb w; case lm of None \<Rightarrow> Some (h, w) | Some l \<Rightarrow> do { (rm, w) \<leftarrow> lf l w; tl' rm h w } } =
      Some (bs, w2) \<and> distinct xs \<and> set xs = asked md srv is \<and> list_all2 Q xs bs \<and>
      bulk_after (M \<circ> mk) (asked md srv is) w w2"
proof -
  let ?A = "asked md srv is"
  have A: "ri \<in> set (md_rangesrvs md)" if "ri \<in> ?A" for ri using that by (simp add: asked_def)
  have sub: "set ris \<subseteq> {ri \<in> set (md_rangesrvs md). rs_rank ri \<noteq> me}" using ris(3) A by blast
  have in_A: "ri \<in> ?A" if "ri \<in> set ris" for ri using that ris(3) by blast
  obtain h w1 where remote: "cb w = Some (h, w1)" "list_all2 Q ris h" "bulk_after (M \<circ> mk) (set ris) w w1"
    using bulk_others [where Q = Q and M = M and mk = mk and cb = cb and as = as, OF q c ris(1,2) sub M good [OF in_A] cb]
      conv in_A by meson
  from split_asked [OF ris(2,3)] show ?thesis
  proof (elim disjE conjE bexE)
    assume no: "\<forall>ri \<in> set (md_rangesrvs md). rs_rank ri = me \<longrightarrow> ri \<notin> ?A" and all: "set ris = ?A"
    have "lm = None" using lm no by (cases "me \<in> servers md") (auto simp: servers_def)
    then show ?thesis using remote all ris(2) by (intro exI [of _ h] exI [of _ w1] exI [of _ ris]) simp
  next
    fix ri assume ri: "ri \<in> set (md_rangesrvs md)" "rs_rank ri = me" "ri \<in> ?A" "distinct (ri # ris)" "set (ri # ris) = ?A"
    have l: "lm = Some (mk ri)" using lm(1) [OF ri(1,2)] ri(3) by simp
    have out: "ri \<notin> set ris" using ri(4) by simp
    have here: "good_at me w me ((M \<circ> mk) ri)" using good [OF ri(3)] ri(2) by simp
    obtain r w2 where r: "local_request c ((M \<circ> mk) ri) w1 = Some (Some r, w2)" "wf_response r"
      "ans_of r = answer_of (M \<circ> mk) w ri" "bulk_after (M \<circ> mk) (insert ri (set ris)) w w2"
      using bulk_local [OF c remote(3) ri(1,2) out here] by blast
    obtain b where b: "as' r = Some b" "Q ri (fin b)" using conv [OF ri(3) r(2,3)] by blast
    have "lf (mk ri) w1 = Some (Some b, w2)" using own [OF ri(3)] r(1) b(1) by (simp add: as_ptr_def)
    moreover have "bulk_after (M \<circ> mk) ?A w w2" using r(4) ri(5) by simp
    ultimately show ?thesis
      using remote l b front ri(4,5) by (intro exI [of _ "fin b # h"] exI [of _ w2] exI [of _ "ri # ris"]) simp
  qed
qed

lemma bput_call:
  assumes q: "quiet w" and c: "client_ok mpi g md me c" and ok: "call_ok valid g md app me (BPut kvs) (store_map w)"
  shows "refines c (BPut kvs) w"
proof -
  define ks vs where kv: "ks = map fst kvs" "vs = map snd kvs"
  let ?n = "length ks" and ?srv = "record_server g md ks"
  let ?is = "[0..<?n]"
  let ?A = "asked md ?srv ?is"
  define mk where "mk ri = fold (add_bputm ks (lens_of ks) vs (lens_of vs)) (records_of ?srv ?is (rs_rank ri)) (new_bputm c ri)" for ri
  let ?ans = "\<lambda>(ri :: rangesrv_info) b. brm_answer b = Done 0"
  have n: "length kvs = ?n" "length vs = ?n" by (simp_all add: kv)
  have size: "int ?n \<le> MAX_BULK_OPS" "56 + 8 * ?n + blobs_size ks + blobs_size vs \<le> 2147483647"
    using ok by (simp_all add: kv)
  have known: "known_key valid g md k" if "k \<in> set ks" for k using ok that by (auto simp: kv)
  have A: "ri \<in> set (md_rangesrvs md)" if "ri \<in> ?A" for ri using that by (simp add: asked_def)
  note m = bput_message [OF ok, folded kv, where c = c, folded mk_def]
  have recs: "records (of_nat ?n) = ?is" "\<not> sint (of_nat ?n :: i32) > MAX_BULK_OPS" using records_all [OF size(1)] by simp_all
  have sz: "blobs_size ks < 2147483648" using size by simp
  have rank: "bp_server_rank (fold (add_bputm ks (lens_of ks) vs (lens_of vs)) js (new_bputm c ri)) = rs_rank ri" for js ri
    by (simp add: fold_add_bputm)
  obtain lm list ris where loop: "bulk_loop (bulk_body c (new_bputm c) (add_bputm ks (lens_of ks) vs (lens_of vs)) ks (lens_of ks))
      ?is (no_slots c) = Some (lm, list)"
    and ris: "somes list = map mk ris" "distinct ris" "set ris = {ri \<in> ?A. rs_rank ri \<noteq> me}"
    and lm: "\<And>ri. ri \<in> set (md_rangesrvs md) \<Longrightarrow> rs_rank ri = me \<Longrightarrow> lm = (if ri \<in> ?A then Some (mk ri) else None)"
      "me \<notin> servers md \<Longrightarrow> lm = None"
    using split_records [where f = bp_server_rank, OF c known sz rank, folded mk_def] by blast
  have mrank: "message_server_rank (BputM (mk ri)) = rs_rank ri" for ri by (simp add: mk_def rank)
  have good: "good_at me w (rs_rank ri) (BputM (mk ri)) \<and> bulk_type (BputM (mk ri)) \<and> (\<exists>sz. sendable (BputM (mk ri)) sz)"
    if "ri \<in> ?A" for ri using m(2-4) [OF A [OF that]] by blast
  have cb: "client_bput c list w = bulk_client c (as_brm c) BputM list w \<or> somes list = [] \<and> client_bput c list w = Some ([], w)"
    by (simp add: client_bput_def bulk_client_def)
  have own: "local_client_bput c (mk ri) w = do { (rm, w) \<leftarrow> local_request c (BputM (mk ri)) w; rm \<leftarrow> as_ptr as_rm rm; Some (rm, w) }"
    if "ri \<in> ?A" for ri w
  proof -
    have "\<not> MDHIM_MAX_MSG_SIZE <s bput_m_size (mk ri)"
      using size n(2) by (intro bput_size_check [OF n(2) _ _ mk_def [unfolded records_of_upt]]) (simp_all add: MAX_BULK_OPS_def)
    then show ?thesis by (simp add: local_client_bput_def)
  qed
  have conv: "(\<exists>b. as_brm c r = Some b \<and> ?ans ri b) \<and> (\<exists>l. as_rm r = Some l \<and> ?ans ri (brm_of c l))"
    if ri: "ri \<in> ?A" and "wf_response r" and a: "ans_of r = answer_of (BputM \<circ> mk) w ri" for ri r
  proof -
    have "ans_of r = Done 0" using a m(1) [OF A [OF ri]] by (simp add: answer_of_def del: spec_serve.simps)
    then show ?thesis by (cases r) (simp_all add: as_brm_def brm_of_def brm_answer_def)
  qed
  have "\<exists>bs w2 xs. do { (h, w) \<leftarrow> client_bput c list w; case lm of None \<Rightarrow> Some (h, w)
      | Some l \<Rightarrow> do { (rm, w) \<leftarrow> local_client_bput c l w; Some (case rm of None \<Rightarrow> h | Some rm \<Rightarrow> brm_of c rm # h, w) } } =
      Some (bs, w2) \<and> distinct xs \<and> set xs = ?A \<and> list_all2 ?ans xs bs \<and> bulk_after (BputM \<circ> mk) ?A w w2"
    by (rule bulk_all [where M = BputM and mk = mk and cb = "client_bput c list" and lf = "local_client_bput c" and as = "as_brm c"
          and as' = as_rm and fin = "brm_of c" and tl' = "\<lambda>rm h w. Some (case rm of None \<Rightarrow> h | Some rm \<Rightarrow> brm_of c rm # h, w)",
        OF q c ris lm _ good cb]) (fact mrank own conv | simp)+
  then obtain brms w2 xs where b: "mdhimBPut c ks (lens_of ks) vs (lens_of vs) (of_nat ?n) w = Some (brms, w2)"
    "set xs = ?A" "list_all2 ?ans xs brms" "bulk_after (BputM \<circ> mk) ?A w w2"
    using loop recs by (auto simp: mdhimBPut_def)
  have "\<forall>a \<in> set (map brm_answer brms). a = Done 0" using list_all2_right [OF b(3)] by auto
  moreover have "brms = [] \<longleftrightarrow> kvs = []"
  proof -
    have "brms = [] \<longleftrightarrow> ?A = {}" using list_all2_lengthD [OF b(3)] b(2) by auto
    then show ?thesis using asked_nonempty [OF known] n by auto
  qed
  moreover have "store_map w2 = call_map app (BPut kvs) (store_map w)"
    by (rule bput_map [OF ok, folded kv, OF b(4)]) (simp add: m(1) del: spec_serve.simps)
  moreover have "quiet w2" using b(4) by (simp add: bulk_after_def)
  moreover have "run_call c (BPut kvs) w = Some (Replies (map brm_answer brms), w2)" using b(1) by (simp add: kv)
  ultimately show ?thesis by (intro refinesI [of _ _ _ "Replies (map brm_answer brms)" w2]) simp_all
qed

text \<open>Bulk deletes.\<close>

lemma bdel_message:
  fixes c :: "('n, 'd) client" and ri :: rangesrv_info
  assumes ok: "call_ok valid g md app me (BDelete ks) (store_map w)" and ri: "ri \<in> set (md_rangesrvs md)"
  defines "js \<equiv> records_of (record_server g md ks) [0..<length ks] (rs_rank ri)"
  defines "m \<equiv> BdelM (fold (add_bdelm ks (lens_of ks)) js (new_bdelm c ri))"
  shows "spec_serve app m cnt = (Done 0, cnt |` (- (\<lambda>i. snd (ks ! i)) ` set js))"
    and "good_at me w (rs_rank ri) m" and "bulk_type m" and "\<exists>sz. sendable m sz"
proof -
  have size: "int (length ks) \<le> MAX_BULK_OPS" "40 + 8 * length ks + blobs_size ks \<le> 2147483647" using ok by simp_all
  have known: "known_key valid g md k" if "k \<in> set ks" for k using ok that by auto
  have js: "js = filter (\<lambda>i. rs_rank (record_server g md ks i) = rs_rank ri) [0..<length ks]"
    by (simp add: js_def records_of_upt)
  have jlen: "length js \<le> length ks" "set js \<subseteq> {..<length ks}" unfolding js by (rule length_some) auto
  note simps = fold_add_bdelm m_def
  show "spec_serve app m cnt = (Done 0, cnt |` (- (\<lambda>i. snd (ks ! i)) ` set js))" by (simp add: simps image_image)
  show "bulk_type m" by (simp add: simps bulk_type_def)
  have bk: "blobs_ok (map ((!) ks) js) (map ((!) (lens_of ks)) js) (of_nat (length js))"
    using size jlen by (intro blobs_ok_some) simp_all
  have "blobs_size (map ((!) ks) js) \<le> blobs_size ks" unfolding js by (rule blobs_size_some)
  then have "bdelm_ok (fold (add_bdelm ks (lens_of ks)) js (new_bdelm c ri)) (40 + 4 * length js + blobs_size (map ((!) ks) js))"
    using bk size jlen by (simp add: bdelm_ok_def fold_add_bdelm)
  moreover have "bd_mtype (fold (add_bdelm ks (lens_of ks)) js (new_bdelm c ri)) = MDHIM_BULK_DEL" by (simp add: fold_add_bdelm)
  ultimately show "\<exists>sz. sendable m sz" by (auto simp: m_def)
  have "valid (snd (ks ! i))" if i: "i \<in> set js" for i
  proof -
    have "ks ! i \<in> set ks" using jlen(2) i by auto
    from known [OF this] show ?thesis by (simp add: known_key_def)
  qed
  moreover have "rs_rank ri \<in> servers md" using ri by (simp add: servers_def)
  moreover have "int (length js) \<le> MAX_BULK_OPS" using jlen(1) size(1) by linarith
  ultimately show "good_at me w (rs_rank ri) m" using bk by (simp add: good_at_def simps reply_fits_def)
qed

lemma bdel_map:
  assumes ok: "call_ok valid g md app me (BDelete ks) (store_map w)"
    and w: "bulk_after msg (asked md (record_server g md ks) [0..<length ks]) w w'"
    and serve: "\<And>ri cnt. ri \<in> set (md_rangesrvs md) \<Longrightarrow> snd (spec_serve app (msg ri) cnt) =
      cnt |` (- (\<lambda>i. snd (ks ! i)) ` set (records_of (record_server g md ks) [0..<length ks] (rs_rank ri)))"
  shows "store_map w' = call_map app (BDelete ks) (store_map w)"
proof
  fix x
  show "store_map w' x = call_map app (BDelete ks) (store_map w) x"
  proof (cases "server_of g md x")
    case None
    then show ?thesis by (simp add: stored_def restrict_map_def)
  next
    case (Some ri)
    let ?js = "records_of (record_server g md ks) [0..<length ks] (rs_rank ri)"
    have "x \<in> (\<lambda>i. snd (ks ! i)) ` set ?js \<longleftrightarrow> x \<in> snd ` set ks"
    proof
      assume "x \<in> (\<lambda>i. snd (ks ! i)) ` set ?js"
      then obtain i where "i < length ks" "x = snd (ks ! i)" by (auto simp: records_of_def)
      then show "x \<in> snd ` set ks" by simp
    next
      assume "x \<in> snd ` set ks"
      then obtain i where i: "i < length ks" "snd (ks ! i) = x" by (auto simp: in_set_conv_nth)
      then have "record_server g md ks i = ri" using Some by (simp add: record_server_def)
      then have "i \<in> set ?js" using i(1) by (simp add: records_of_def)
      with i(2) show "x \<in> (\<lambda>i. snd (ks ! i)) ` set ?js" by blast
    qed
    moreover have "store_map w' x = (contents_at w (rs_rank ri) |` (- (\<lambda>i. snd (ks ! i)) ` set ?js)) x"
      using stored_after [OF w Some, of "\<lambda>js c. c |` (- (\<lambda>i. snd (ks ! i)) ` set js)"] serve server_of_in(1) [OF Some]
      by (simp add: restrict_map_def del: spec_serve.simps)
    ultimately show ?thesis by (simp add: restrict_map_def stored_at [OF Some])
  qed
qed

lemma bdelete_call:
  assumes q: "quiet w" and c: "client_ok mpi g md me c" and ok: "call_ok valid g md app me (BDelete ks) (store_map w)"
  shows "refines c (BDelete ks) w"
proof -
  let ?n = "length ks" and ?srv = "record_server g md ks"
  let ?is = "[0..<?n]"
  let ?A = "asked md ?srv ?is"
  define mk where "mk ri = fold (add_bdelm ks (lens_of ks)) (records_of ?srv ?is (rs_rank ri)) (new_bdelm c ri)" for ri
  let ?ans = "\<lambda>(ri :: rangesrv_info) b. brm_answer b = Done 0"
  have size: "int ?n \<le> MAX_BULK_OPS" "blobs_size ks < 2147483648" using ok by simp_all
  have known: "known_key valid g md k" if "k \<in> set ks" for k using ok that by auto
  have A: "ri \<in> set (md_rangesrvs md)" if "ri \<in> ?A" for ri using that by (simp add: asked_def)
  note m = bdel_message [OF ok, where c = c, folded mk_def]
  have recs: "records (of_nat ?n) = ?is" "\<not> sint (of_nat ?n :: i32) > MAX_BULK_OPS" using records_all [OF size(1)] by simp_all
  have rank: "bd_server_rank (fold (add_bdelm ks (lens_of ks)) js (new_bdelm c ri)) = rs_rank ri" for js ri
    by (simp add: fold_add_bdelm)
  obtain lm list ris where loop: "bulk_loop (bulk_body c (new_bdelm c) (add_bdelm ks (lens_of ks)) ks (lens_of ks))
      ?is (no_slots c) = Some (lm, list)"
    and ris: "somes list = map mk ris" "distinct ris" "set ris = {ri \<in> ?A. rs_rank ri \<noteq> me}"
    and lm: "\<And>ri. ri \<in> set (md_rangesrvs md) \<Longrightarrow> rs_rank ri = me \<Longrightarrow> lm = (if ri \<in> ?A then Some (mk ri) else None)"
      "me \<notin> servers md \<Longrightarrow> lm = None"
    using split_records [where f = bd_server_rank, OF c known size(2) rank, folded mk_def] by blast
  have mrank: "message_server_rank (BdelM (mk ri)) = rs_rank ri" for ri by (simp add: mk_def rank)
  have good: "good_at me w (rs_rank ri) (BdelM (mk ri)) \<and> bulk_type (BdelM (mk ri)) \<and> (\<exists>sz. sendable (BdelM (mk ri)) sz)"
    if "ri \<in> ?A" for ri using m(2-4) [OF A [OF that]] by blast
  have cb: "client_bdelete c list w = bulk_client c (as_brm c) BdelM list w \<or> somes list = [] \<and> client_bdelete c list w = Some ([], w)"
    by (simp add: client_bdelete_def bulk_client_def)
  have own: "local_client_bdelete c (mk ri) w = do { (rm, w) \<leftarrow> local_request c (BdelM (mk ri)) w; rm \<leftarrow> as_ptr as_rm rm; Some (rm, w) }"
    if "ri \<in> ?A" for ri w by (simp add: local_client_bdelete_def)
  have conv: "(\<exists>b. as_brm c r = Some b \<and> ?ans ri b) \<and> (\<exists>l. as_rm r = Some l \<and> ?ans ri (brm_of c l))"
    if ri: "ri \<in> ?A" and "wf_response r" and a: "ans_of r = answer_of (BdelM \<circ> mk) w ri" for ri r
  proof -
    have "ans_of r = Done 0" using a m(1) [OF A [OF ri]] by (simp add: answer_of_def del: spec_serve.simps)
    then show ?thesis by (cases r) (simp_all add: as_brm_def brm_of_def brm_answer_def)
  qed
  have "\<exists>bs w2 xs. do { (h, w) \<leftarrow> client_bdelete c list w; case lm of None \<Rightarrow> Some (h, w)
      | Some l \<Rightarrow> do { (rm, w) \<leftarrow> local_client_bdelete c l w; rm \<leftarrow> rm; Some (brm_of c rm # h, w) } } =
      Some (bs, w2) \<and> distinct xs \<and> set xs = ?A \<and> list_all2 ?ans xs bs \<and> bulk_after (BdelM \<circ> mk) ?A w w2"
    by (rule bulk_all [where M = BdelM and mk = mk and cb = "client_bdelete c list" and lf = "local_client_bdelete c"
          and as = "as_brm c" and as' = as_rm and fin = "brm_of c" and tl' = "\<lambda>rm h w. do { rm \<leftarrow> rm; Some (brm_of c rm # h, w) }",
        OF q c ris lm _ good cb]) (fact mrank own conv | simp)+
  then obtain brms w2 xs where b: "mdhimBDelete c ks (lens_of ks) (of_nat ?n) w = Some (brms, w2)"
    "set xs = ?A" "list_all2 ?ans xs brms" "bulk_after (BdelM \<circ> mk) ?A w w2"
    using loop recs by (auto simp: mdhimBDelete_def)
  have "\<forall>a \<in> set (map brm_answer brms). a = Done 0" using list_all2_right [OF b(3)] by auto
  moreover have "brms = [] \<longleftrightarrow> ks = []"
  proof -
    have "brms = [] \<longleftrightarrow> ?A = {}" using list_all2_lengthD [OF b(3)] b(2) by auto
    then show ?thesis using asked_nonempty [OF known] by auto
  qed
  moreover have "store_map w2 = call_map app (BDelete ks) (store_map w)"
    by (rule bdel_map [OF ok b(4)]) (simp add: m(1) del: spec_serve.simps)
  moreover have "quiet w2" using b(4) by (simp add: bulk_after_def)
  moreover have "run_call c (BDelete ks) w = Some (Replies (map brm_answer brms), w2)" using b(1) by simp
  ultimately show ?thesis by (intro refinesI [of _ _ _ "Replies (map brm_answer brms)" w2]) simp_all
qed

text \<open>Bulk gets.\<close>

definition record_of :: "blob list \<Rightarrow> contents \<Rightarrow> nat \<Rightarrow> key \<times> val" where
  "record_of ks cnt i = (snd (ks ! i), snd (read_val cnt (snd (ks ! i))))"

lemma bget_message:
  fixes c :: "('n, 'd) client" and ri :: rangesrv_info
  assumes ok: "call_ok valid g md app me (BGet ks) (store_map w)" and ri: "ri \<in> set (md_rangesrvs md)"
  defines "js \<equiv> records_of (record_server g md ks) [0..<length ks] (rs_rank ri)"
  defines "m \<equiv> BgetM (fold (add_bgetm ks (lens_of ks)) js (new_bgetm c ri))"
    and "kvs \<equiv> map (record_of ks (store_map w)) js"
  shows "spec_serve app m (contents_at w (rs_rank ri)) = (Values (values_error (store_map w) kvs) kvs, contents_at w (rs_rank ri))"
    and "good_at me w (rs_rank ri) m" and "bulk_type m" and "\<exists>sz. sendable m sz" and "snd (spec_serve app m cnt) = cnt"
proof -
  have size: "int (length ks) \<le> MAX_BULK_OPS"
    "64 + 8 * length ks + blobs_size ks + sum_list (map (\<lambda>k. length (snd (read_val (store_map w) (snd k)))) ks) \<le> 2147483647"
    using ok by simp_all
  have known: "known_key valid g md k" if "k \<in> set ks" for k using ok that by auto
  have js: "js = filter (\<lambda>i. rs_rank (record_server g md ks i) = rs_rank ri) [0..<length ks]"
    by (simp add: js_def records_of_upt)
  have jlen: "length js \<le> length ks" "set js \<subseteq> {..<length ks}" unfolding js by (rule length_some) auto
  note simps = fold_add_bgetm m_def
  have read: "read_val (contents_at w (rs_rank ri)) (snd (ks ! i)) = read_val (store_map w) (snd (ks ! i))" if "i \<in> set js" for i
    using asked_server(3) [where ks = ks and i = i, OF known ri] that unfolding js_def by (intro read_val_at [symmetric]) blast
  then show serve: "spec_serve app m (contents_at w (rs_rank ri)) =
      (Values (values_error (store_map w) kvs) kvs, contents_at w (rs_rank ri))"
    by (simp add: simps kvs_def values_error_def record_of_def Let_def comp_def)
  show "snd (spec_serve app m cnt) = cnt" by (simp add: m_def Let_def)
  show "bulk_type m" by (simp add: simps bulk_type_def)
  have bk: "blobs_ok (map ((!) ks) js) (map ((!) (lens_of ks)) js) (of_nat (length js))"
    using size jlen by (intro blobs_ok_some) simp_all
  have some: "blobs_size (map ((!) ks) js) \<le> blobs_size ks" unfolding js by (rule blobs_size_some)
  then have "bgetm_ok (fold (add_bgetm ks (lens_of ks)) js (new_bgetm c ri)) (40 + 8 * length js + blobs_size (map ((!) ks) js))"
    using bk size jlen by (simp add: bgetm_ok_def fold_add_bgetm)
  moreover have "bg_mtype (fold (add_bgetm ks (lens_of ks)) js (new_bgetm c ri)) = MDHIM_BULK_GET" by (simp add: fold_add_bgetm)
  ultimately show "\<exists>sz. sendable m sz" by (auto simp: m_def)
  have valid: "valid (snd (ks ! i))" if i: "i \<in> set js" for i
  proof -
    have "ks ! i \<in> set ks" using jlen(2) i by auto
    from known [OF this] show ?thesis by (simp add: known_key_def)
  qed
  let ?vlen = "\<lambda>i. length (snd (read_val (store_map w) (snd (ks ! i))))"
  have "sum_list (map ?vlen js) \<le> sum_list (map ?vlen [0..<length ks])" unfolding js by (rule sum_list_filter_le_nat)
  also have "map ?vlen [0..<length ks] = map (\<lambda>k. length (snd (read_val (store_map w) (snd k)))) ks"
    by (intro nth_equalityI) simp_all
  finally have vals: "sum_list (map ?vlen js) \<le> sum_list (map (\<lambda>k. length (snd (read_val (store_map w) (snd k)))) ks)" .
  have "sum_list (map (\<lambda>(k, v). length k + length v) kvs) = blobs_size (map ((!) ks) js) + sum_list (map ?vlen js)"
    by (simp add: kvs_def record_of_def blobs_size_def comp_def sum_list_addf)
  then have "reply_fits (Values (values_error (store_map w) kvs) kvs)"
    using size(2) some vals jlen(1) by (simp add: reply_fits_def kvs_def)
  moreover have "rs_rank ri \<in> servers md" using ri by (simp add: servers_def)
  moreover have "int (length js) \<le> MAX_BULK_OPS" using jlen(1) size(1) by linarith
  ultimately show "good_at me w (rs_rank ri) m"
    unfolding good_at_def serve using bk valid by (simp add: simps)
qed

lemma bget_call:
  assumes q: "quiet w" and c: "client_ok mpi g md me c" and ok: "call_ok valid g md app me (BGet ks) (store_map w)"
  shows "refines c (BGet ks) w"
proof -
  let ?n = "length ks" and ?srv = "record_server g md ks" and ?m = "store_map w"
  let ?is = "[0..<?n]"
  let ?A = "asked md ?srv ?is"
  define mk where "mk ri = fold (add_bgetm ks (lens_of ks)) (records_of ?srv ?is (rs_rank ri)) (new_bgetm c ri)" for ri
  define kvs where "kvs ri = map (record_of ks ?m) (records_of ?srv ?is (rs_rank ri))" for ri :: rangesrv_info
  let ?ans = "\<lambda>(ri :: rangesrv_info) b. ans_of (Bgetrm b) = Values (values_error ?m (kvs ri)) (kvs ri)"
  have size: "int ?n \<le> MAX_BULK_OPS" "blobs_size ks < 2147483648" using ok by simp_all
  have known: "known_key valid g md k" if "k \<in> set ks" for k using ok that by auto
  have A: "ri \<in> set (md_rangesrvs md)" if "ri \<in> ?A" for ri using that by (simp add: asked_def)
  note m = bget_message [OF ok, where c = c, folded mk_def, folded kvs_def]
  have recs: "records (of_nat ?n) = ?is" "\<not> sint (of_nat ?n :: i32) > MAX_BULK_OPS" using records_all [OF size(1)] by simp_all
  have rank: "bg_server_rank (fold (add_bgetm ks (lens_of ks)) js (new_bgetm c ri)) = rs_rank ri" for js ri
    by (simp add: fold_add_bgetm)
  obtain lm list ris where loop: "bulk_loop (bulk_body c (new_bgetm c) (add_bgetm ks (lens_of ks)) ks (lens_of ks))
      ?is (no_slots c) = Some (lm, list)"
    and ris: "somes list = map mk ris" "distinct ris" "set ris = {ri \<in> ?A. rs_rank ri \<noteq> me}"
    and lm: "\<And>ri. ri \<in> set (md_rangesrvs md) \<Longrightarrow> rs_rank ri = me \<Longrightarrow> lm = (if ri \<in> ?A then Some (mk ri) else None)"
      "me \<notin> servers md \<Longrightarrow> lm = None"
    using split_records [where f = bg_server_rank, OF c known size(2) rank, folded mk_def] by blast
  have mrank: "message_server_rank (BgetM (mk ri)) = rs_rank ri" for ri by (simp add: mk_def rank)
  have good: "good_at me w (rs_rank ri) (BgetM (mk ri)) \<and> bulk_type (BgetM (mk ri)) \<and> (\<exists>sz. sendable (BgetM (mk ri)) sz)"
    if "ri \<in> ?A" for ri using m(2-4) [OF A [OF that]] by blast
  have cb: "client_bget c list w = bulk_client c as_bgetrm BgetM list w \<or> somes list = [] \<and> client_bget c list w = Some ([], w)"
    by (simp add: client_bget_def bulk_client_def)
  have own: "local_client_bget c (mk ri) w = do { (rm, w) \<leftarrow> local_request c (BgetM (mk ri)) w; rm \<leftarrow> as_ptr as_bgetrm rm; Some (rm, w) }"
    if "ri \<in> ?A" for ri w by (simp add: local_client_bget_def)
  have conv: "(\<exists>b. as_bgetrm r = Some b \<and> ?ans ri b) \<and> (\<exists>l. as_bgetrm r = Some l \<and> ?ans ri (id l))"
    if ri: "ri \<in> ?A" and "wf_response r" and a: "ans_of r = answer_of (BgetM \<circ> mk) w ri" for ri r
  proof -
    have "ans_of r = Values (values_error ?m (kvs ri)) (kvs ri)"
      using a m(1) [OF A [OF ri]] by (simp add: answer_of_def del: spec_serve.simps)
    then show ?thesis by (cases r) simp_all
  qed
  have "\<exists>bs w2 xs. do { (h, w) \<leftarrow> client_bget c list w; case lm of None \<Rightarrow> Some (h, w)
      | Some l \<Rightarrow> do { (rm, w) \<leftarrow> local_client_bget c l w; rm \<leftarrow> rm; Some (rm # h, w) } } =
      Some (bs, w2) \<and> distinct xs \<and> set xs = ?A \<and> list_all2 ?ans xs bs \<and> bulk_after (BgetM \<circ> mk) ?A w w2"
    by (rule bulk_all [where M = BgetM and mk = mk and cb = "client_bget c list" and lf = "local_client_bget c"
          and as = as_bgetrm and as' = as_bgetrm and fin = id and tl' = "\<lambda>rm h w. do { rm \<leftarrow> rm; Some (rm # h, w) }",
        OF q c ris lm _ good cb]) (fact mrank own conv | simp)+
  then obtain bgrms w2 xs where b: "mdhimBGet c ks (lens_of ks) (of_nat ?n) w = Some (bgrms, w2)"
    "distinct xs" "set xs = ?A" "list_all2 ?ans xs bgrms" "bulk_after (BgetM \<circ> mk) ?A w w2"
    using loop recs by (auto simp: mdhimBGet_def)
  let ?as = "map (ans_of \<circ> Bgetrm) bgrms"
  have "?as = map (\<lambda>ri. Values (values_error ?m (kvs ri)) (kvs ri)) xs"
    using b(4) by (induction xs bgrms rule: list_all2_induct) simp_all
  then have all: "\<forall>a \<in> set ?as. a = Values (values_error ?m (values_of a)) (values_of a)"
    and vals: "map values_of ?as = map kvs xs" by (auto simp: comp_def)
  have "store_map w2 x = store_map w x" for x
  proof (cases "server_of g md x")
    case (Some ri)
    then show ?thesis using b(5) server_of_in(1) [OF Some] m(5)
      by (simp add: stored_at bulk_after_def del: spec_serve.simps)
  qed (simp add: stored_def)
  moreover have "mset (concat (map values_of ?as)) = mset (map (\<lambda>k. (snd k, snd (read_val ?m (snd k)))) ks)"
  proof -
    have in_rss: "?srv i \<in> set (md_rangesrvs md)" if "i \<in> set ?is" for i
    proof -
      have "ks ! i \<in> set ks" using that by simp
      from known [OF this] obtain x where "server_of g md (snd (ks ! i)) = Some x" by (auto simp: known_key_def)
      then show ?thesis using server_of_in(1) by (auto simp: record_server_def)
    qed
    have asked: "?A = ?srv ` set ?is" by (rule asked_records [OF in_rss numbers])
    have "inj_on rs_rank (set xs)"
      using server_unique(1) [OF numbers] A unfolding b(3) by (intro inj_onI) blast
    with b(2) have dist: "distinct (map rs_rank xs)" by (simp add: distinct_map)
    have "map kvs xs = map (\<lambda>y. map (record_of ks ?m) (filter (\<lambda>i. rs_rank (?srv i) = y) ?is)) (map rs_rank xs)"
      by (simp add: kvs_def records_of_def)
    then have "mset (concat (map kvs xs)) = mset (map (record_of ks ?m) (filter (\<lambda>i. rs_rank (?srv i) \<in> set (map rs_rank xs)) ?is))"
      by (simp only: mset_split [OF dist])
    also have "filter (\<lambda>i. rs_rank (?srv i) \<in> set (map rs_rank xs)) ?is = ?is"
      using b(3) asked by (intro filter_True) auto
    also have "map (record_of ks ?m) ?is = map (\<lambda>k. (snd k, snd (read_val ?m (snd k)))) ks"
      by (intro nth_equalityI) (simp_all add: record_of_def)
    finally show ?thesis unfolding vals .
  qed
  moreover have "quiet w2" using b(5) by (simp add: bulk_after_def)
  moreover have "run_call c (BGet ks) w = Some (Replies ?as, w2)" using b(1) by simp
  ultimately show ?thesis using all
    by (intro refinesI [of _ _ _ "Replies ?as" w2]) (simp_all add: fun_eq_iff)
qed

end

end
