(* ===== verification/Mdhim_System.thy ===== *)
theory Mdhim_System
  imports Mdhim_Refines
begin

text \<open>
  A run of the whole system: calls from any processes, one after the other.  The replies and the final
  contents of the store are those of one finite map.
\<close>

section \<open>Sequences of calls\<close>

text \<open>\<open>cl i me\<close> is the process \<open>me\<close> at call number \<open>i\<close>: what malloc gives it and the schedule while it waits.\<close>

fun run_calls :: "(nat \<Rightarrow> i32 \<Rightarrow> ('n, 'd) client) \<Rightarrow> nat \<Rightarrow> (i32 \<times> call) list \<Rightarrow> ('n, 'd) world \<Rightarrow>
    (reply list \<times> ('n, 'd) world) option" where
  "run_calls cl i [] w = Some ([], w)"
| "run_calls cl i ((me, k) # ks) w = do {
     (r, w) \<leftarrow> run_call (cl i me) k w;
     (rs, w) \<leftarrow> run_calls cl (Suc i) ks w;
     Some (r # rs, w) }"

definition calls_map :: "bool \<Rightarrow> (i32 \<times> call) list \<Rightarrow> contents \<Rightarrow> contents" where
  "calls_map app ks = fold (call_map app) (map snd ks)"

fun calls_return :: "bool \<Rightarrow> (i32 \<times> call) list \<Rightarrow> contents \<Rightarrow> reply list \<Rightarrow> bool" where
  "calls_return app [] m rs \<longleftrightarrow> rs = []"
| "calls_return app ((me, k) # ks) m rs \<longleftrightarrow> (\<exists>r rs'. rs = r # rs' \<and> call_returns k m r \<and> calls_return app ks (call_map app k m) rs')"

fun calls_ok :: "(key \<Rightarrow> bool) \<Rightarrow> part_globals \<Rightarrow> mdhim_t \<Rightarrow> bool \<Rightarrow> (i32 \<times> call) list \<Rightarrow> contents \<Rightarrow> bool" where
  "calls_ok valid g md app [] m \<longleftrightarrow> True"
| "calls_ok valid g md app ((me, k) # ks) m \<longleftrightarrow>
     call_ok valid g md app me k m \<and> calls_ok valid g md app ks (call_map app k m)"

context mdhim_cluster
begin

lemma any_call:
  assumes "quiet w" and "client_ok mpi g md me c" and "call_ok valid g md app me k (store_map w)"
  shows "refines c k w"
proof (cases k)
  case (Put k v)
  then show ?thesis using assms put_call by blast
next
  case (Get k)
  then show ?thesis using assms get_call by blast
next
  case (Delete k)
  then show ?thesis using assms delete_call by blast
next
  case Commit
  then show ?thesis using assms commit_call by blast
next
  case (BPut kvs)
  then show ?thesis using assms bput_call by blast
next
  case (BGet ks)
  then show ?thesis using assms bget_call by blast
next
  case (BDelete ks)
  then show ?thesis using assms bdelete_call by blast
qed

lemma all_calls:
  assumes "quiet w" and "\<And>i me. client_ok mpi g md me (cl i me)" and "calls_ok valid g md app ks (store_map w)"
  shows "\<exists>rs w'. run_calls cl i ks w = Some (rs, w') \<and> quiet w' \<and> calls_return app ks (store_map w) rs \<and>
    store_map w' = calls_map app ks (store_map w)"
  using assms(1,3)
proof (induction ks arbitrary: i w)
  case Nil
  then show ?case by (simp add: calls_map_def)
next
  case (Cons x ks)
  obtain me k where x: "x = (me, k)" by (cases x)
  have "call_ok valid g md app me k (store_map w)" using Cons.prems(2) by (simp add: x del: call_ok.simps)
  from any_call [OF Cons.prems(1) assms(2) this] obtain r w1 where r: "run_call (cl i me) k w = Some (r, w1)" "quiet w1"
    "call_returns k (store_map w) r" "store_map w1 = call_map app k (store_map w)" unfolding refines_def by blast
  have "calls_ok valid g md app ks (store_map w1)" using Cons.prems(2) r(4) by (simp add: x del: call_ok.simps call_map.simps)
  from Cons.IH [OF r(2) this] obtain rs w2 where rs: "run_calls cl (Suc i) ks w1 = Some (rs, w2)" "quiet w2"
    "calls_return app ks (store_map w1) rs" "store_map w2 = calls_map app ks (store_map w1)" by blast
  have "run_calls cl i (x # ks) w = Some (r # rs, w2)" using r(1) rs(1) by (simp add: x del: run_call.simps)
  moreover have "calls_return app (x # ks) (store_map w) (r # rs)"
    using r(3,4) rs(3) by (simp add: x del: call_returns.simps call_map.simps)
  moreover have "store_map w2 = calls_map app (x # ks) (store_map w)"
    using r(4) rs(4) by (simp add: x calls_map_def del: call_map.simps)
  ultimately show ?case using rs(2) by blast
qed

end

section \<open>The refinement\<close>

text \<open>C1.  The whole system is one finite map.  Start with an idle cluster, any number of range servers over any ordered
  store, and let processes call the operations of the API one after the other, whatever fair schedule the
  listener and worker threads have while a caller waits.  Every call returns, with the reply
  of the map; in the end the cluster is idle again and the servers together hold the final map.\<close>

theorem mdhim_refines_map:
  assumes "mdhim_cluster mpi chan valid cmp st view I md" and "idle chan st view I g md app w"
    and "\<forall>i me. client_ok mpi g md me (cl i me)" and "calls_ok valid g md app ks (stored view g md w)"
  shows "\<exists>rs w'. run_calls cl 0 ks w = Some (rs, w') \<and> idle chan st view I g md app w' \<and>
    calls_return app ks (stored view g md w) rs \<and> stored view g md w' = calls_map app ks (stored view g md w)"
  using mdhim_cluster.all_calls [OF assms(1,2) _ assms(4)] assms(3) by blast

text \<open>An example: ranks 0 and 2 are range servers, with slices of 100 integer keys in turn.\<close>

definition two_md :: mdhim_t where
  "two_md = \<lparr>md_comm = None, md_key_type = MDHIM_INT_KEY, md_num_rangesrvs = 2,
     md_rangesrvs = [\<lparr>rs_rank = 0, rs_rangesrv_num = 1\<rparr>, \<lparr>rs_rank = 2, rs_rangesrv_num = 2\<rparr>], md_stats = None\<rparr>"

definition two_world :: "(ref_net, (key \<times> val) list) world" where
  "two_world = \<lparr>w_net = [], w_queue = \<lambda>_. empty_work_queue (\<lambda>_. \<lparr>wi_next = None, wi_prev = None, wi_message = PutM example_putm, wi_source = 0\<rparr>),
     w_server = (\<lambda>s. if s \<in> {0, 2} then Some ((example_server False [])\<lparr>sv_rank := s\<rparr>) else None),
     w_listening = \<lambda>_. True, w_working = \<lambda>_. True\<rparr>"

definition two_schedule :: "action list" where
  "two_schedule = [Listen 2 40, Listen 0 41, Work 0 example_blocks 1, Work 2 example_blocks 2]"

definition two_client :: "nat \<Rightarrow> i32 \<Rightarrow> (ref_net, (key \<times> val) list) client" where
  "two_client i me = \<lparr>cl_rank = me, cl_globals = example_globals, cl_md = two_md, cl_mpi = ref_mpi me,
     cl_run = run_actions ref_mpi example_globals two_schedule,
     cl_new = \<lparr>fr_putm = Some example_putm, fr_getm = Some example_getm, fr_delm = Some example_delm,
       fr_basem = \<lparr>bs_mtype = 0, bs_server_rank = 0, bs_size = 0\<rparr>, fr_bputm = \<lambda>_. example_bputm, fr_bgetm = \<lambda>_. example_bgetm,
       fr_bdelm = \<lambda>_. example_bdelm, fr_brm_size = 0, fr_item = Some 42\<rparr>\<rparr>"

lemma two_numbered: "numbered two_md"
  by (simp add: numbered_def two_md_def)

interpretation two: mdhim_cluster ref_mpi ref_chan int_key "call_cmp cmp_int_compare" int_leveldb "\<lambda>d. d"
  "ref_db_inv int_key int_order.key_less" example_globals two_md False
  by unfold_locales (simp_all add: int_leveldb_succeeds two_numbered)

lemma two_idle: "idle ref_chan int_leveldb (\<lambda>d. d) (ref_db_inv int_key int_order.key_less) example_globals two_md False two_world"
  using example_server_inv [of False]
  by (auto simp: idle_def ref_idle two_world_def servers_def two_md_def at_rest_def server_inv_def example_server_def example_md_def)

lemma two_client_ok: "client_ok ref_mpi example_globals two_md me (two_client i me)"
proof -
  have "\<exists>xs p ys bl e zs. two_schedule = xs @ Listen 0 p # ys @ Work 0 bl e # zs"
    by (intro exI [of _ "[Listen 2 40]"] exI [of _ 41] exI [of _ "[]"] exI [of _ example_blocks] exI [of _ 1]
        exI [of _ "[Work 2 example_blocks 2]"]) (simp add: two_schedule_def)
  moreover have "\<exists>xs p ys bl e zs. two_schedule = xs @ Listen 2 p # ys @ Work 2 bl e # zs"
    by (intro exI [of _ "[]"] exI [of _ 40] exI [of _ "[Listen 0 41, Work 0 example_blocks 1]"] exI [of _ example_blocks] exI [of _ 2])
      (simp add: two_schedule_def)
  ultimately have "fair (servers two_md) two_schedule" by (auto simp: fair_def servers_def two_md_def)
  then show ?thesis by (auto simp: client_ok_def two_client_def)
qed

lemma two_server:
  "unat k < 100 \<Longrightarrow> server_of example_globals two_md (enc32 k) = Some \<lparr>rs_rank = 0, rs_rangesrv_num = 1\<rparr>"
  "100 \<le> unat k \<Longrightarrow> unat k < 200 \<Longrightarrow> server_of example_globals two_md (enc32 k) = Some \<lparr>rs_rank = 2, rs_rangesrv_num = 2\<rparr>"
proof -
  have recs: "mdhim_max_recs_per_slice example_globals \<noteq> 0" "unat (mdhim_max_recs_per_slice example_globals) = 100"
    "md_key_type two_md = MDHIM_INT_KEY" by (simp_all add: example_globals_def two_md_def)
  have slice: "get_slice_num example_globals two_md (Some (enc32 k)) 4 = Some (int (unat k div 100))" if "unat k < 200"
  proof -
    have "unat k div 100 < 2147483647" using that by (intro le_less_trans [OF div_le_dividend]) simp
    then show ?thesis using integer_slice_val [OF recs(1), of two_md k 0] recs(2,3) by simp
  qed
  show "server_of example_globals two_md (enc32 k) = Some \<lparr>rs_rank = 0, rs_rangesrv_num = 1\<rparr>" if "unat k < 100"
    using slice that by (simp add: server_of_def get_range_server_def MDHIM_ERROR_def get_range_server_by_slice_def two_md_def)
  show "server_of example_globals two_md (enc32 k) = Some \<lparr>rs_rank = 2, rs_rangesrv_num = 2\<rparr>" if k: "100 \<le> unat k" "unat k < 200"
  proof -
    have "unat k div 100 = 1" using k by (intro div_nat_eqI) simp_all
    with slice k show ?thesis
      by (simp add: server_of_def get_range_server_def MDHIM_ERROR_def get_range_server_by_slice_def two_md_def)
  qed
qed

lemma two_known: "key_known example_globals two_md (enc32 w)"
  by (rule int_key_known) (simp_all add: two_md_def example_globals_def)

definition two_calls :: "(i32 \<times> call) list" where
  "two_calls = [(1, Put (100, enc32 5) (200, [1])), (0, BPut [((100, enc32 105), (200, [2, 3])), ((110, enc32 7), (210, [4]))]),
     (2, Get (100, enc32 5)), (1, BDelete [(100, enc32 105), (100, enc32 5)])]"

lemma two_empty: "stored (\<lambda>d. d) example_globals two_md two_world = Map.empty"
  by (auto simp: stored_def server_contents_def two_world_def example_server_def fun_eq_iff split: option.splits)

lemma two_calls_ok: "calls_ok int_key example_globals two_md False two_calls Map.empty"
  by (simp add: two_calls_def known_key_def two_known two_server int_key_def fits_def MAX_BULK_OPS_def blobs_size_def
      put_new_def read_val_def)
    (simp flip: length_0_conv)

theorem mdhim_refines_map_witness:
  "\<exists>a as bs w'. run_calls two_client 0 two_calls two_world =
      Some ([Reply (Some (Done 0)), Replies as, Reply (Some (Value 0 (enc32 5) [1])), Replies bs], w') \<and>
    stored (\<lambda>d. d) example_globals two_md w' = [enc32 7 \<mapsto> [4]]"
proof -
  have "\<forall>i me. client_ok ref_mpi example_globals two_md me (two_client i me)" using two_client_ok by blast
  from mdhim_refines_map [OF two.mdhim_cluster_axioms two_idle this, unfolded two_empty, OF two_calls_ok]
  obtain rs w' where run: "run_calls two_client 0 two_calls two_world = Some (rs, w')"
    "calls_return False two_calls Map.empty rs" "stored (\<lambda>d. d) example_globals two_md w' = calls_map False two_calls Map.empty"
    by blast
  have "calls_map False two_calls Map.empty = [enc32 7 \<mapsto> [4]]"
    by (auto simp: calls_map_def two_calls_def put_new_def restrict_map_def fun_eq_iff)
  moreover have "\<exists>as bs. rs = [Reply (Some (Done 0)), Replies as, Reply (Some (Value 0 (enc32 5) [1])), Replies bs]"
    using run(2) by (auto simp: two_calls_def put_new_def read_val_def)
  ultimately show ?thesis using run(1,3) by auto
qed

end
