(* ===== verification/Server_Stats.thy ===== *)
theory Server_Stats
  imports Server_Props
begin

text \<open>
  The statistics on disk: \<^verbatim>\<open>write_stats\<close>, which a range server calls when it stops, and
  \<^verbatim>\<open>load_stats\<close>, which it calls when it starts, with \<^verbatim>\<open>struct mdhim_db_stat\<close> as its 80 bytes.  The
  statistics database always uses the integer comparator.
\<close>

section \<open>Images of a long double and of a record\<close>

text \<open>The x87 format: 64 bits of significand, a biased exponent of 15 bits, the sign, and six bytes of
  padding.  \<open>None\<close> is an infinity or a NaN.\<close>

definition ld_enc :: "rat \<Rightarrow> byte list" where
  "ld_enc x = (if x = 0 then replicate 16 0
     else let e = ld_exp \<bar>x\<bar>; m = \<lfloor>\<bar>x\<bar> * 2 powi (63 - e)\<rfloor>
          in le_bytes 8 (nat m) @ le_bytes 2 (nat (e + 16383) + (if x < 0 then 32768 else 0)) @ replicate 6 0)"

definition ld_val :: "byte list \<Rightarrow> rat option" where
  "ld_val bs =
     (let m = le_val (take 8 bs); se = le_val (take 2 (drop 8 bs)); e = se mod 32768
      in if e = 32767 then None
         else Some ((if se div 32768 mod 2 = 1 then -1 else 1) * of_nat m * 2 powi (int (max e 1) - 16446)))"

text \<open>The numbers the format holds (normal numbers and zero).\<close>

definition ld_repr :: "rat \<Rightarrow> bool" where
  "ld_repr x \<longleftrightarrow> x = 0 \<or> (\<exists>m. \<bar>x\<bar> * 2 powi (63 - ld_exp \<bar>x\<bar>) = of_nat m) \<and> -16383 < ld_exp \<bar>x\<bar> \<and> ld_exp \<bar>x\<bar> < 16384"

lemma length_ld_enc [simp]: "length (ld_enc x) = 16"
  by (simp add: ld_enc_def Let_def)

lemma le_val_replicate_0 [simp]: "le_val (replicate n 0) = 0"
  by (induction n) simp_all

lemma ld_val_enc:
  assumes "ld_repr x"
  shows "ld_val (ld_enc x) = Some x"
proof (cases "x = 0")
  case True
  then show ?thesis by (simp add: ld_enc_def ld_val_def Let_def drop_replicate take_replicate)
next
  case False
  define e where "e = ld_exp \<bar>x\<bar>"
  from assms False obtain m where m: "\<bar>x\<bar> * 2 powi (63 - e) = of_nat m" and e: "-16383 < e" "e < 16384"
    by (auto simp: ld_repr_def e_def)
  have "\<bar>x\<bar> * 2 powi (63 - e) < 2 powi (e + 1) * 2 powi (63 - e)"
    using ld_exp_bounds(2) [of "\<bar>x\<bar>"] False unfolding e_def by (intro mult_strict_right_mono) simp_all
  also have "\<dots> = of_nat (2 ^ 64)" by (simp flip: power_int_add)
  finally have "m < 2 ^ 64" by (simp only: m of_nat_less_iff)
  then have lm: "le_val (le_bytes 8 m) = m" by (intro le_val_le_bytes) simp
  define se where "se = nat (e + 16383) + (if x < 0 then 32768 else 0)"
  have "se < 65536" using e by (simp add: se_def nat_less_iff)
  then have se: "le_val (le_bytes 2 se) = se" by (intro le_val_le_bytes) simp
  have "nat (e + 16383) < 32768" using e by (simp add: nat_less_iff)
  then have mod: "se mod 32768 = nat (e + 16383)" "se div 32768 mod 2 = (if x < 0 then 1 else 0)"
    by (simp_all add: se_def div_add_self2)
  have "of_nat m * 2 powi (e - 63) = \<bar>x\<bar> * (2 powi (63 - e) * 2 powi (e - 63))"
    by (simp only: m [symmetric] mult.assoc)
  also have "2 powi (63 - e) * 2 powi (e - 63) = (1 :: rat)" by (simp flip: power_int_add)
  finally have "of_nat m * 2 powi (e - 63) = \<bar>x\<bar>" by simp
  then have val: "(if x < 0 then -1 else 1) * of_nat m * 2 powi (int (max (nat (e + 16383)) 1) - 16446) = x"
    using e by (simp add: mult.assoc)
  have "ld_enc x = le_bytes 8 m @ le_bytes 2 se @ replicate 6 0"
    using False by (simp only: ld_enc_def m Let_def if_False e_def [symmetric] se_def) (simp add: se_def)
  then have parts: "take 8 (ld_enc x) = le_bytes 8 m" "take 2 (drop 8 (ld_enc x)) = le_bytes 2 se" by simp_all
  have sgn: "(if (if x < 0 then 1 else 0 :: nat) = 1 then - 1 else 1 :: rat) = (if x < 0 then - 1 else 1)" by simp
  have "nat (e + 16383) \<noteq> 32767" using e by simp
  then show ?thesis
    unfolding ld_val_def parts lm se mod Let_def sgn val by simp
qed

record mdhim_db_stat =
  ds_slice :: u32
  ds_imax :: u64
  ds_imin :: u64
  ds_dmax :: rat
  ds_dmin :: rat
  ds_num :: u64

text \<open>\<open>junk\<close> is what the block held before, which the padding keeps.\<close>

definition db_stat_image :: "byte list \<Rightarrow> mdhim_db_stat \<Rightarrow> byte list" where
  "db_stat_image junk s = enc32 (ds_slice s) @ take 4 (drop 4 junk) @ enc64 (ds_imax s) @ enc64 (ds_imin s) @
     take 8 (drop 24 junk) @ ld_enc (ds_dmax s) @ ld_enc (ds_dmin s) @ enc64 (ds_num s) @ take 8 (drop 72 junk)"

section \<open>Writing\<close>

text \<open>What write_stats puts into the record of a statistic; a bound of the other type is not read.\<close>

definition db_stat_of :: "bool \<Rightarrow> mdhim_stat \<Rightarrow> mdhim_db_stat option" where
  "db_stat_of float_type stat =
     (if float_type then (case (st_max stat, st_min stat) of
          (FStat a, FStat b) \<Rightarrow> Some \<lparr>ds_slice = of_int (st_key stat), ds_imax = 0, ds_imin = 0, ds_dmax = a,
              ds_dmin = b, ds_num = st_num stat\<rparr>
        | _ \<Rightarrow> None)
      else (case (st_max stat, st_min stat) of
          (IStat a, IStat b) \<Rightarrow> Some \<lparr>ds_slice = of_int (st_key stat), ds_imax = a, ds_imin = b, ds_dmax = 0,
              ds_dmin = 0, ds_num = st_num stat\<rparr>
        | _ \<Rightarrow> None))"

text \<open>One round of HASH_ITER; the return code of the put is not looked at.\<close>

definition write_stat :: "byte list \<Rightarrow> nat \<Rightarrow> 'd mdhim_rs_t \<Rightarrow> 'd mdhim_rs_t option" where
  "write_stat junk p st = do {
     let tbl = sv_store_stats st;
     dbstat \<leftarrow> db_stat_of (is_float_key (md_key_type (sv_md st))) (hh_get tbl p);
     let db = snd (s_put (sv_store st) (sv_db_stats st) (enc32 (ds_slice dbstat)) (db_stat_image junk dbstat));
     Some (st\<lparr>sv_db_stats := db, sv_store_stats := HASH_DEL tbl p\<rparr>) }"

fun write_loop :: "byte list \<Rightarrow> nat list \<Rightarrow> 'd mdhim_rs_t \<Rightarrow> 'd mdhim_rs_t option" where
  "write_loop junk [] st = Some st"
| "write_loop junk (p # ps) st = Option.bind (write_stat junk p st) (write_loop junk ps)"

definition write_stats :: "byte list \<Rightarrow> 'd mdhim_rs_t \<Rightarrow> 'd mdhim_rs_t option" where
  "write_stats junk st = write_loop junk (HASH_ITER (sv_store_stats st)) st"

section \<open>Loading\<close>

definition stat_of_image :: "bool \<Rightarrow> key \<Rightarrow> val \<Rightarrow> mdhim_stat option" where
  "stat_of_image float_type sl val =
     (if float_type then do {
          dmin \<leftarrow> ld_val (take 16 (drop 48 val));
          dmax \<leftarrow> ld_val (take 16 (drop 32 val));
          Some \<lparr>st_key = sint (dec32 sl), st_max = FStat dmax, st_min = FStat dmin, st_num = w64 val 64\<rparr> }
      else Some \<lparr>st_key = sint (dec32 sl), st_max = IStat (w64 val 8), st_min = IStat (w64 val 16),
        st_num = w64 val 64\<rparr>)"

text \<open>The loop, with at most \<open>fuel\<close> rounds: \<open>sl\<close> is the key of the record before, or nothing.
  Running out of fuel is \<open>None\<close>.\<close>

fun load_loop :: "nat \<Rightarrow> 'd mdhim_store_t \<Rightarrow> 'd \<Rightarrow> bool \<Rightarrow> key \<Rightarrow> mdhim_stat ut_head \<Rightarrow> mdhim_stat ut_head option" where
  "load_loop 0 store db float_type sl tbl = None"
| "load_loop (Suc fuel) store db float_type sl tbl =
     (case snd (s_get_next store db sl) of
        None \<Rightarrow> Some tbl
      | Some (k, v) \<Rightarrow>
          if v = [] then Some tbl
          else do {
            stat \<leftarrow> stat_of_image float_type k v;
            load_loop fuel store db float_type k (HASH_ADD_INT tbl (dec32 k) stat) })"

definition load_stats :: "nat \<Rightarrow> 'd mdhim_rs_t \<Rightarrow> 'd mdhim_rs_t option" where
  "load_stats fuel st =
     map_option (\<lambda>tbl. st\<lparr>sv_store_stats := tbl\<rparr>)
       (load_loop fuel (sv_store st) (sv_db_stats st) (is_float_key (md_key_type (sv_md st))) [] (sv_store_stats st))"

section \<open>A record and its image\<close>

definition stat_ok :: "bool \<Rightarrow> u32 \<Rightarrow> mdhim_stat \<Rightarrow> bool" where
  "stat_ok float_type k s \<longleftrightarrow> -2147483648 \<le> st_key s \<and> st_key s < 2147483648 \<and> k = of_int (st_key s) \<and>
     (if float_type then \<exists>a b. st_max s = FStat a \<and> st_min s = FStat b \<and> ld_repr a \<and> ld_repr b
      else \<exists>a b. st_max s = IStat a \<and> st_min s = IStat b)"

definition stat_record :: "byte list \<Rightarrow> bool \<Rightarrow> mdhim_stat \<Rightarrow> byte list" where
  "stat_record junk float_type s = db_stat_image junk (the (db_stat_of float_type s))"

lemma image_fields:
  assumes "length junk = 80"
  shows "w64 (db_stat_image junk s) 8 = ds_imax s" "w64 (db_stat_image junk s) 16 = ds_imin s"
    "take 16 (drop 32 (db_stat_image junk s)) = ld_enc (ds_dmax s)"
    "take 16 (drop 48 (db_stat_image junk s)) = ld_enc (ds_dmin s)"
    "w64 (db_stat_image junk s) 64 = ds_num s" "db_stat_image junk s \<noteq> []"
proof -
  have len: "length (take 4 (drop 4 junk)) = 4" "length (take 8 (drop 24 junk)) = 8" using assms by simp_all
  show "w64 (db_stat_image junk s) 8 = ds_imax s" "w64 (db_stat_image junk s) 16 = ds_imin s"
    "take 16 (drop 32 (db_stat_image junk s)) = ld_enc (ds_dmax s)"
    "take 16 (drop 48 (db_stat_image junk s)) = ld_enc (ds_dmin s)"
    "w64 (db_stat_image junk s) 64 = ds_num s" "db_stat_image junk s \<noteq> []"
    unfolding db_stat_image_def w64_def using len by (simp_all add: enc32_not_Nil)
qed

lemma stat_record_round_trip:
  assumes "stat_ok ft k s" and "length junk = 80"
  shows "stat_of_image ft (enc32 k) (stat_record junk ft s) = Some s" and "stat_record junk ft s \<noteq> []"
    and "db_stat_of ft s = Some (the (db_stat_of ft s))" and "ds_slice (the (db_stat_of ft s)) = k"
proof -
  have "sint (of_int (st_key s) :: i32) = st_key s"
    using assms(1) by (intro sint_word_of_int_32) (simp_all add: stat_ok_def)
  then show "stat_of_image ft (enc32 k) (stat_record junk ft s) = Some s"
    using assms by (auto simp: stat_ok_def stat_of_image_def stat_record_def db_stat_of_def image_fields ld_val_enc)
  show "stat_record junk ft s \<noteq> []" using image_fields(6) [OF assms(2)] by (simp add: stat_record_def)
  show "db_stat_of ft s = Some (the (db_stat_of ft s))" "ds_slice (the (db_stat_of ft s)) = k"
    using assms(1) by (auto simp: stat_ok_def db_stat_of_def)
qed

section \<open>Deleting while iterating\<close>

lemma HASH_ITER_first:
  assumes "head_inv h" and "HASH_ITER h = p # ps"
  shows "HASH_ITER (HASH_DEL h p) = ps" and "head_inv (HASH_DEL h p)"
    and "ut_alist h = (ut_key (the h) p, hh_get h p) # ut_alist (HASH_DEL h p)"
proof -
  obtain t where t: "h = Some t" "tb_order t = p # ps" using assms(2) by (cases h) (auto simp: HASH_ITER_def)
  then have d: "p \<notin> set ps" "distinct ps" using assms(1) by (auto simp: head_inv_def ut_inv_def)
  then show "HASH_ITER (HASH_DEL h p) = ps" by (auto simp: HASH_DEL_def HASH_ITER_def t Let_def)
  have "ut.get h (ut_key t p) \<noteq> None" using assms(1) t
    by (subst ut.get_iff_pair [THEN iffD2, of _ _ "hh_get h p"]) (auto simp: ut_alist_def ut_key_def hh_get_def)
  then obtain q where q: "HASH_FIND_INT h (ut_key t p) = Some q"
    by (cases "HASH_FIND_INT h (ut_key t p)") (simp_all add: ut.get_def)
  then have "q \<in> set (tb_order t)" "hh_key (elem t q) = ut_key t p"
    using HASH_FIND_INT_table_Some [of t "ut_key t p" q] assms(1) t by (auto simp: head_inv_def)
  then have "q = p" using inj_keys [of t q p] assms(1) t by (auto simp: ut_key_def)
  with HASH_DEL_laws(2) [OF assms(1) q] show "head_inv (HASH_DEL h p)" by simp
  show "ut_alist h = (ut_key (the h) p, hh_get h p) # ut_alist (HASH_DEL h p)"
    using d by (auto simp: HASH_DEL_def ut_alist_def hh_get_def ut_key_def t Let_def elem_def)
qed

section \<open>Writing all statistics\<close>

definition image_pairs :: "byte list \<Rightarrow> bool \<Rightarrow> (u32 \<times> mdhim_stat) list \<Rightarrow> (key \<times> val) list" where
  "image_pairs junk ft xs = map (\<lambda>(k, s). (enc32 k, stat_record junk ft s)) xs"

context ordered_store
begin

lemma write_loop_run:
  assumes "sv_store s = st" and "inv (sv_db_stats s)" and ok: "store_succeeds st" and junk: "length junk = 80"
    and valid: "\<And>k. valid (enc32 k)" and "head_inv (sv_store_stats s)"
    and "\<forall>(k, x) \<in> set (ut_alist (sv_store_stats s)). stat_ok (is_float_key (md_key_type (sv_md s))) k x"
    and "HASH_ITER (sv_store_stats s) = ps"
  shows "\<exists>d tbl. write_loop junk ps s = Some (s\<lparr>sv_db_stats := d, sv_store_stats := tbl\<rparr>) \<and>
    HASH_ITER tbl = [] \<and> inv d \<and> map_of (view d) = fold (\<lambda>(k, v) m. m(k \<mapsto> v))
      (image_pairs junk (is_float_key (md_key_type (sv_md s))) (ut_alist (sv_store_stats s)))
      (map_of (view (sv_db_stats s)))"
  using assms(1,2,6-8)
proof (induction ps arbitrary: s)
  case Nil
  then have "ut_alist (sv_store_stats s) = []"
    by (cases "sv_store_stats s") (simp_all add: HASH_ITER_def ut_alist_def)
  with Nil show ?case
    by (intro exI [of _ "sv_db_stats s"] exI [of _ "sv_store_stats s"]) (simp add: image_pairs_def)
next
  case (Cons p ps)
  let ?ft = "is_float_key (md_key_type (sv_md s))" and ?h = "sv_store_stats s"
  note first = HASH_ITER_first [OF Cons.prems(3) Cons.prems(5)]
  let ?k = "ut_key (the ?h) p" and ?x = "hh_get ?h p"
  have "stat_ok ?ft ?k ?x" using Cons.prems(4) first(3) by simp
  note rec = stat_record_round_trip [OF this junk]
  obtain d where put: "s_put st (sv_db_stats s) (enc32 ?k) (stat_record junk ?ft ?x) = (MDHIM_SUCCESS, d)"
    using store_succeedsD [OF ok] by blast
  let ?s = "s\<lparr>sv_db_stats := d, sv_store_stats := HASH_DEL ?h p\<rparr>"
  have step: "write_stat junk p s = Some ?s"
  proof -
    obtain ds where "db_stat_of ?ft ?x = Some ds" "ds_slice ds = ?k" using rec(3,4) by blast
    then show ?thesis using put Cons.prems(1) by (simp add: write_stat_def stat_record_def Let_def)
  qed
  have d: "inv d" "map_of (view d) = (map_of (view (sv_db_stats s)))(enc32 ?k \<mapsto> stat_record junk ?ft ?x)"
    using store_put [OF Cons.prems(2) valid put] by simp_all
  have "\<exists>d' tbl. write_loop junk ps ?s = Some (s\<lparr>sv_db_stats := d', sv_store_stats := tbl\<rparr>) \<and>
    HASH_ITER tbl = [] \<and> inv d' \<and> map_of (view d') = fold (\<lambda>(k, v) m. m(k \<mapsto> v))
      (image_pairs junk ?ft (ut_alist (HASH_DEL ?h p))) (map_of (view d))"
    using Cons.IH [of ?s] Cons.prems d(1) first by (simp del: fun_upd_apply)
  then obtain d' tbl where IH: "write_loop junk ps ?s = Some (s\<lparr>sv_db_stats := d', sv_store_stats := tbl\<rparr>)"
    "HASH_ITER tbl = []" "inv d'" "map_of (view d') = fold (\<lambda>(k, v) m. m(k \<mapsto> v))
      (image_pairs junk ?ft (ut_alist (HASH_DEL ?h p))) (map_of (view d))" by blast
  then show ?case
    unfolding first(3) using step d(2)
    by (intro exI [of _ d'] exI [of _ tbl]) (simp add: image_pairs_def del: fun_upd_apply)
qed

section \<open>Loading all statistics\<close>

lemma load_loop_run:
  assumes "inv d" and "\<not> valid []" and "\<forall>(k, v) \<in> set (view d). v \<noteq> [] \<and> stat_of_image ft k v = Some (f k)"
  shows "j \<le> length (view d) \<Longrightarrow> length (view d) - j < fuel \<Longrightarrow> s_get_next st d sl = entry_at (view d) j \<Longrightarrow>
    load_loop fuel st d ft sl tbl =
      Some (fold (\<lambda>(k, x) h. HASH_ADD_INT h k x) (map (\<lambda>(k, v). (dec32 k, f k)) (drop j (view d))) tbl)"
proof (induction fuel arbitrary: j sl tbl)
  case 0
  then show ?case by simp
next
  case (Suc fuel)
  show ?case
  proof (cases "j < length (view d)")
    case False
    then show ?thesis using Suc.prems by (simp add: entry_at_def)
  next
    case True
    obtain k v where e: "view d ! j = (k, v)" by force
    have kv: "(k, v) \<in> set (view d)" using nth_mem [OF True] e by simp
    with assms(3) have v: "v \<noteq> []" "stat_of_image ft k v = Some (f k)" by auto
    have "s_get_next st d k = entry_at (view d) (Suc j)"
      using next_stored [OF assms(1,2) True] e by simp
    from Suc.IH [OF _ _ this] True Suc.prems v e show ?thesis
      by (simp add: entry_at_def flip: Cons_nth_drop_Suc [OF True])
  qed
qed

end

lemma enc32_dec32: "length k = 4 \<Longrightarrow> enc32 (dec32 k) = k"
  using le_val_bound [of k] by (intro le_val_inject) (simp_all add: enc32_def dec32_def unat_of_nat_u32)

lemma map_of_enc32: "map_of (map (\<lambda>(k, s). (enc32 k, f s)) xs) (enc32 k) = map_option f (map_of xs k)"
  by (induction xs) auto

lemma fold_updates:
  "distinct (map fst xs) \<Longrightarrow> fold (\<lambda>(k, v) m. m(k \<mapsto> v)) xs m = m ++ map_of xs"
proof (induction xs arbitrary: m)
  case (Cons x xs)
  obtain k v where x: "x = (k, v)" by force
  from Cons.prems have "k \<notin> dom (map_of xs)" by (simp add: x dom_map_of_conv_image_fst)
  then have "m(k \<mapsto> v) ++ map_of xs = (m ++ map_of xs)(k \<mapsto> v)" by (rule map_add_upd_left)
  with Cons show ?case by (simp add: x del: fun_upd_apply)
qed simp

section \<open>The round trip\<close>

text \<open>C12.  Stopping and starting a range server keeps its statistics: write_stats empties the table and
  writes every statistic; load_stats, on a new server with the resulting statistics database and
  an empty table, builds a table with exactly the statistics there were, whatever the padding of
  the records holds.  The loop of load_stats ends after one round for each slice and a last one.\<close>

theorem statistics_survive_restart:
  assumes "ordered_store int_key (call_cmp cmp_int_compare) store view I" and "store_succeeds store"
    and "sv_store st = store" and "I (sv_db_stats st)" and "head_inv (sv_store_stats st)" and "length junk = 80"
    and "\<forall>k s. ut.get (sv_store_stats st) k = Some s \<longrightarrow> stat_ok (is_float_key (md_key_type (sv_md st))) k s"
    and "\<forall>k \<in> fst ` set (view (sv_db_stats st)). ut.get (sv_store_stats st) (dec32 k) \<noteq> None"
  shows "\<exists>st1 st2. write_stats junk st = Some st1 \<and> HASH_ITER (sv_store_stats st1) = [] \<and>
    load_stats (Suc (HASH_COUNT (sv_store_stats st))) (st1\<lparr>sv_store_stats := None\<rparr>) = Some st2 \<and>
    ut.get (sv_store_stats st2) = ut.get (sv_store_stats st)"
proof -
  let ?h = "sv_store_stats st" and ?ft = "is_float_key (md_key_type (sv_md st))"
  let ?al = "ut_alist ?h"
  let ?ims = "image_pairs junk ?ft ?al"
  have dist: "distinct (map fst ?al)" using assms(5) by (simp add: head_inv_def)
  have ok: "\<forall>(k, x) \<in> set ?al. stat_ok ?ft k x"
    using assms(7) ut.get_iff_pair [OF assms(5)] by blast
  obtain d tbl where w: "write_loop junk (HASH_ITER ?h) st = Some (st\<lparr>sv_db_stats := d, sv_store_stats := tbl\<rparr>)"
    "HASH_ITER tbl = []" "I d" "map_of (view d) = fold (\<lambda>(k, v) m. m(k \<mapsto> v)) ?ims (map_of (view (sv_db_stats st)))"
    using ordered_store.write_loop_run [OF assms(1,3,4,2,6) _ assms(5) ok refl] by (auto simp: int_key_def)
  have "map fst ?ims = map enc32 (map fst ?al)" by (simp add: image_pairs_def split_beta)
  then have "distinct (map fst ?ims)" using dist by (simp add: distinct_map inj_on_def)
  note view = w(4) [unfolded fold_updates [OF this]]
  have get: "map_of ?ims (enc32 k) = map_option (stat_record junk ?ft) (ut.get ?h k)" for k
    by (simp add: image_pairs_def map_of_enc32 ut.get_pairs [OF assms(5)])
  have entry: "\<exists>k x. key = enc32 k \<and> ut.get ?h k = Some x \<and> v = stat_record junk ?ft x" if "(key, v) \<in> set (view d)" for key v
  proof -
    have v: "map_of (view d) key = Some v"
      using that ordered_store.store_distinct [OF assms(1) w(3)] by simp
    then have "int_key key" using that ordered_store.store_valid [OF assms(1) w(3)] by force
    then have key: "key = enc32 (dec32 key)" by (simp add: int_key_def enc32_dec32)
    show ?thesis
    proof (cases "ut.get ?h (dec32 key)")
      case None
      then have "map_of ?ims key = None" using get [of "dec32 key"] key by simp
      then have "map_of (view (sv_db_stats st)) key = Some v" using v view by (simp add: map_add_def)
      then have "key \<in> fst ` set (view (sv_db_stats st))" by (metis domI dom_map_of_conv_image_fst)
      with assms(8) None show ?thesis by blast
    next
      case (Some x)
      then have "map_of ?ims key = Some (stat_record junk ?ft x)" using get [of "dec32 key"] key by simp
      then have "v = stat_record junk ?ft x" using v view by (simp add: map_add_def)
      with Some key show ?thesis by blast
    qed
  qed
  have dom: "ut.get ?h k = Some x \<Longrightarrow> map_of (view d) (enc32 k) = Some (stat_record junk ?ft x)" for k x
    using get [of k] view by (simp add: map_add_def)
  define f where "f key = the (ut.get ?h (dec32 key))" for key
  define xs where "xs = map (\<lambda>(k, v). (dec32 k, f k)) (view d)"
  have f: "\<forall>(key, v) \<in> set (view d). v \<noteq> [] \<and> stat_of_image ?ft key v = Some (f key)"
  proof clarify
    fix key v assume "(key, v) \<in> set (view d)"
    then obtain k x where kx: "key = enc32 k" "ut.get ?h k = Some x" "v = stat_record junk ?ft x" using entry by blast
    with assms(7) have "stat_ok ?ft k x" by blast
    from stat_record_round_trip [OF this assms(6)] kx
    show "v \<noteq> [] \<and> stat_of_image ?ft key v = Some (f key)" by (simp add: f_def)
  qed
  have keys: "fst ` set (view d) = enc32 ` fst ` set ?al"
  proof (intro equalityI subsetI)
    fix key assume "key \<in> fst ` set (view d)"
    then obtain v where "(key, v) \<in> set (view d)" by auto
    with entry obtain k x where "key = enc32 k" "ut.get ?h k = Some x" by blast
    then show "key \<in> enc32 ` fst ` set ?al" using ut.get_iff_pair [OF assms(5)] by force
  next
    fix key assume "key \<in> enc32 ` fst ` set ?al"
    then obtain k x where "key = enc32 k" "(k, x) \<in> set ?al" by auto
    then have "map_of (view d) key = Some (stat_record junk ?ft x)"
      using dom ut.get_iff_pair [OF assms(5)] by blast
    then show "key \<in> fst ` set (view d)" by (metis domI dom_map_of_conv_image_fst)
  qed
  have dv: "distinct (map fst (view d))" by (rule ordered_store.store_distinct [OF assms(1) w(3)])
  have inj: "inj_on dec32 (fst ` set (view d))" unfolding keys by (rule inj_onI) auto
  have "length (view d) = card (fst ` set (view d))" using distinct_card [OF dv] by simp
  also have "\<dots> = card (fst ` set ?al)" unfolding keys by (intro card_image) (auto simp: inj_on_def)
  also have "\<dots> = HASH_COUNT ?h" using distinct_card [OF dist] HASH_COUNT_alist [OF assms(5)] by simp
  finally have n: "length (view d) = HASH_COUNT ?h" .
  have "s_get_next store d [] = entry_at (view d) 0"
    using ordered_store.store_next [OF assms(1) w(3), of "[]"] by (simp add: next_entry_def)
  from ordered_store.load_loop_run [OF assms(1) w(3) _ f, of 0 "Suc (HASH_COUNT ?h)" "[]" None] n this
  have load: "load_loop (Suc (HASH_COUNT ?h)) store d ?ft [] None = Some (fold (\<lambda>(k, x) h. HASH_ADD_INT h k x) xs None)"
    by (simp add: int_key_def xs_def)
  have "map fst xs = map dec32 (map fst (view d))" by (simp add: xs_def split_beta)
  then have dx: "distinct (map fst xs)" using dv inj by (simp only: distinct_map [of dec32] set_map simp_thms)
  have new: "head_inv (fold (\<lambda>(k, x) h. HASH_ADD_INT h k x) xs None)"
    "ut_alist (fold (\<lambda>(k, x) h. HASH_ADD_INT h k x) xs None) = xs"
    using ut.add_all [of None xs] dx by (simp_all add: ut.null)
  have "ut.get (fold (\<lambda>(k, x) h. HASH_ADD_INT h k x) xs None) k = ut.get ?h k" for k
  proof (cases "ut.get ?h k")
    case (Some x)
    then have "(enc32 k, stat_record junk ?ft x) \<in> set (view d)" using dom by (blast dest: map_of_SomeD)
    then have "(k, x) \<in> set xs" using Some by (force simp: xs_def f_def)
    with Some dx show ?thesis by (simp add: ut.get_pairs [OF new(1)] new(2))
  next
    case None
    have "k \<notin> fst ` set xs"
    proof
      assume "k \<in> fst ` set xs"
      then obtain key v where "(key, v) \<in> set (view d)" "k = dec32 key" by (auto simp: xs_def)
      with entry None show False by fastforce
    qed
    then show ?thesis using None by (simp add: ut.get_pairs [OF new(1)] new(2) map_of_eq_None_iff)
  qed
  then show ?thesis
    using w(1,2) load assms(3) by (auto simp: write_stats_def load_stats_def fun_eq_iff simp del: load_loop.simps)
qed

definition stats_server :: "(key \<times> val) list mdhim_rs_t" where
  "stats_server = (example_server False [])\<lparr>sv_store_stats := HASH_ADD_INT (HASH_ADD_INT None 7
     \<lparr>st_key = 7, st_max = IStat 790, st_min = IStat 700, st_num = 3\<rparr>) 2
     \<lparr>st_key = 2, st_max = IStat 249, st_min = IStat 249, st_num = 1\<rparr>\<rparr>"

theorem statistics_survive_restart_witness:
  "\<exists>st1 st2. write_stats (replicate 80 170) stats_server = Some st1 \<and>
    load_stats 3 (st1\<lparr>sv_store_stats := None\<rparr>) = Some st2 \<and>
    ut.get (sv_store_stats st2) = [7 \<mapsto> \<lparr>st_key = 7, st_max = IStat 790, st_min = IStat 700, st_num = 3\<rparr>,
      2 \<mapsto> \<lparr>st_key = 2, st_max = IStat 249, st_min = IStat 249, st_num = 1\<rparr>]"
proof -
  let ?xs = "[(7, \<lparr>st_key = 7, st_max = IStat 790, st_min = IStat 700, st_num = 3\<rparr>),
    (2, \<lparr>st_key = 2, st_max = IStat 249, st_min = IStat 249, st_num = 1\<rparr>)] :: (u32 \<times> mdhim_stat) list"
  have tbl: "sv_store_stats stats_server = fold (\<lambda>(k, v) h. HASH_ADD_INT h k v) ?xs None"
    by (simp add: stats_server_def)
  have inv: "head_inv (sv_store_stats stats_server)" and al: "ut_alist (sv_store_stats stats_server) = ?xs"
    unfolding tbl using ut.add_all [of None ?xs] by (simp_all add: ut.null)
  have get: "ut.get (sv_store_stats stats_server) = map_of ?xs"
    by (rule ext) (simp add: ut.get_pairs [OF inv] al)
  have fields: "sv_md stats_server = example_md" "sv_store stats_server = int_leveldb" "sv_db_stats stats_server = []"
    by (simp_all add: stats_server_def example_server_def)
  have ft: "\<not> is_float_key (md_key_type example_md)" by (simp add: example_md_def is_float_key_def key_types)
  have "\<forall>k s. ut.get (sv_store_stats stats_server) k = Some s \<longrightarrow>
      stat_ok (is_float_key (md_key_type (sv_md stats_server))) k s"
    by (auto simp: get fields ft stat_ok_def split: if_splits)
  moreover have "Suc (HASH_COUNT (sv_store_stats stats_server)) = 3" by (simp add: HASH_COUNT_alist [OF inv] al)
  moreover have "ref_db_inv int_key int_order.key_less (sv_db_stats stats_server)" by (simp add: fields ref_db_inv_def)
  moreover have "ut.get (sv_store_stats stats_server) = [7 \<mapsto> \<lparr>st_key = 7, st_max = IStat 790, st_min = IStat 700, st_num = 3\<rparr>,
      2 \<mapsto> \<lparr>st_key = 2, st_max = IStat 249, st_min = IStat 249, st_num = 1\<rparr>]"
    unfolding get by (auto simp: fun_eq_iff)
  ultimately show ?thesis
    using statistics_survive_restart [OF int_leveldb_store int_leveldb_succeeds fields(2) _ inv, of "replicate 80 170"]
    by (auto simp: fields(3) simp del: fun_upd_apply)
qed

end
