(* ===== verification/Mdhim_Start.thy ===== *)
theory Mdhim_Start
  imports Mdhim_System Server_Stats
begin

text \<open>
  The start of MDHIM, a collective call of all processes: mdhimInit of \<^verbatim>\<open>mdhim.c\<close>, range_server_init and
  range_server_init_comm of \<^verbatim>\<open>range_server.c\<close>, get_rangesrvs of \<^verbatim>\<open>messages.c\<close>.  Afterwards every process
  has the same list of range servers, numbered from 1 on, every slice has its server, and the cluster is
  idle and empty: the state from which the calls of the API are shown to be correct.

  The exchange of the list of range servers is over a parameter for MPI_Allgather, with what MPI
  documents as the hypothesis \<open>allgather_ok\<close> of the theorem on the whole start (\<open>startup_ready\<close>).  The
  repository's own MPI_Allgather, called with single bytes in buffers from malloc as get_rangesrvs does,
  does not meet it (\<open>Mpi_Coll.staged_Allgather_unspecified\<close>).  What a process does before and after the
  exchange does not depend on it: \<open>process_start\<close> and \<open>server_communicator\<close>.
\<close>

section \<open>Each process on its own\<close>

text \<open>The fields of \<^verbatim>\<open>struct mdhim_options_t\<close> that are used; its declaration is not part of the repository.\<close>

record mdhim_options =
  op_key_type :: int
  op_rserver_factor :: int
  op_max_recs_per_slice :: u64
  op_value_append :: bool

text \<open>What the libraries give a process: memory and uninitialised structures for the communicators,
  the data store and its two open databases, memory for the work queue and the send buffer.  \<open>ie_fuel\<close>
  bounds the loop of load_stats.\<close>

record 'd init_env =
  ie_alloc1 :: alloc
  ie_alloc2 :: alloc
  ie_alloc3 :: alloc
  ie_alloc4 :: alloc
  ie_acc :: "nat \<Rightarrow> bool"
  ie_junkc :: MPID_Comm
  ie_junkg :: MPID_Group
  ie_junk_rank :: i32
  ie_store :: "'d mdhim_store_t option"
  ie_open :: "int \<times> 'd \<times> 'd"
  ie_fuel :: nat
  ie_heap :: "nat \<Rightarrow> rs_message work_item"
  ie_sendbuf :: "byte list"

text \<open>The number of the range server, 0 when this process is none, with its state.\<close>

definition range_server_init ::
  "'d init_env \<Rightarrow> mdhim_options \<Rightarrow> part_globals \<Rightarrow> mdhim_t \<Rightarrow> i32 \<Rightarrow> (int \<times> u32 \<times> 'd mdhim_rs_t option) option" where
  "range_server_init e opts g md rank = do {
     rangesrv_num \<leftarrow> is_range_server g md (sint rank);
     if rangesrv_num = of_int MDHIM_ERROR then Some (MDHIM_ERROR, 0, None)
     else if rangesrv_num = 0 then Some (MDHIM_SUCCESS, 0, None)
     else case ie_store e of None \<Rightarrow> Some (MDHIM_ERROR, 0, None)
     | Some mdhim_store \<Rightarrow>
         let (ret, db_handle, db_stats) = ie_open e in
         if ret \<noteq> MDHIM_SUCCESS then Some (MDHIM_ERROR, 0, None)
         else do {
           rs \<leftarrow> load_stats (ie_fuel e) \<lparr>sv_md = md, sv_rank = rank, sv_value_append = op_value_append opts,
             sv_store = mdhim_store, sv_db_handle = db_handle, sv_db_stats = db_stats, sv_store_stats = None,
             sv_put_time = 0, sv_get_time = 0, sv_num_put = 0, sv_num_get = 0, sv_receive_msg = None, sv_sent = []\<rparr>;
           Some (MDHIM_SUCCESS, rangesrv_num, Some rs) } }"

record 'd started =
  su_globals :: part_globals
  su_md :: mdhim_t
  su_rank :: i32
  su_comm_size :: i32
  su_rangesrv_num :: u32
  su_rs :: "'d mdhim_rs_t option"
  su_rangesrv_master :: u32
  su_rs_comm :: MPI_Comm

text \<open>mdhimInit up to the exchange of the range servers; the inner \<open>None\<close> is the return of NULL.\<close>

definition init_local ::
  "'d init_env \<Rightarrow> mdhim_options \<Rightarrow> part_globals \<Rightarrow> i32 \<Rightarrow> MPI_Comm \<Rightarrow> 'd started option option" where
  "init_local e opts g my_pe appComm =
     (if op_key_type opts < MDHIM_INT_KEY \<or> MDHIM_BYTE_KEY < op_key_type opts then Some None
      else
        let dup = (\<lambda>al. MPI_Comm_dup al (ie_acc e) (ie_junkc e) (ie_junkg e) my_pe appComm None);
            (ret1, mdhim_comm) = dup (ie_alloc1 e); (ret2, _) = dup (ie_alloc2 e);
            (ret3, rank) = MPI_Comm_rank mdhim_comm 0; (ret4, comm_size) = MPI_Comm_size mdhim_comm 0;
            md = \<lparr>md_comm = mdhim_comm, md_key_type = op_key_type opts, md_num_rangesrvs = 0, md_rangesrvs = [], md_stats = None\<rparr>
        in if ret1 \<noteq> MPI_SUCCESS \<or> ret2 \<noteq> MPI_SUCCESS \<or> ret3 \<noteq> MPI_SUCCESS \<or> ret4 \<noteq> MPI_SUCCESS then Some None
           else do {
             (g, md) \<leftarrow> partitioner_init (op_rserver_factor opts) (op_max_recs_per_slice opts) g md;
             (ret, rangesrv_num, rs) \<leftarrow> range_server_init e opts g md rank;
             if ret \<noteq> MDHIM_SUCCESS then Some None
             else Some (Some \<lparr>su_globals = g, su_md = md, su_rank = rank, su_comm_size = comm_size,
               su_rangesrv_num = rangesrv_num, su_rs = rs, su_rangesrv_master = 0, su_rs_comm = None\<rparr>) })"

section \<open>The exchange of the range servers\<close>

text \<open>What get_rangesrvs packs: \<^verbatim>\<open>struct mdhim_rsi_t\<close> is one \<^verbatim>\<open>uint32_t\<close>.\<close>

definition rsi_pack :: "byte list pack_op \<Rightarrow> byte list \<Rightarrow> u32 \<Rightarrow> i32 \<times> byte list" where
  "rsi_pack pk sendbuf rangesrv_num = (let (ret, buf, _) = pk 4 MPI_CHAR (enc32 rangesrv_num) sendbuf 0 in (ret, buf))"

text \<open>The loop over the receive buffer; \<open>rsi\<close> is the structure it unpacks into.  \<open>None\<close> is the return of
  NULL after an error.\<close>

fun rsi_loop :: "unpack_op \<Rightarrow> byte list \<Rightarrow> i32 \<Rightarrow> nat list \<Rightarrow> i32 \<Rightarrow> byte list \<Rightarrow> rangesrv_info list \<times> u32 \<Rightarrow>
    (rangesrv_info list \<times> u32) option" where
  "rsi_loop up recvbuf recvsize [] recvidx rsi (rss, master) = Some (rss, master)"
| "rsi_loop up recvbuf recvsize (i # is) recvidx rsi (rss, master) =
     (let (ret, rsi, recvidx) = up recvbuf recvsize recvidx 4 MPI_CHAR rsi; rangesrv_num = dec32 rsi in
      if ret \<noteq> MPI_SUCCESS then None
      else if rangesrv_num = 0 then rsi_loop up recvbuf recvsize is recvidx rsi (rss, master)
      else rsi_loop up recvbuf recvsize is recvidx rsi
        (rss @ [\<lparr>rs_rank = of_nat i, rs_rangesrv_num = rangesrv_num\<rparr>], if of_nat i > master then of_nat i else master))"

definition rsi_unpack :: "unpack_op \<Rightarrow> i32 \<Rightarrow> byte list \<Rightarrow> u32 \<Rightarrow> byte list \<Rightarrow> (rangesrv_info list \<times> u32) option" where
  "rsi_unpack up comm_size rsi master recvbuf =
     rsi_loop up recvbuf (4 * comm_size) [0..<nat (sint comm_size)] 0 rsi ([], master)"

text \<open>All processes: \<open>ag\<close> is MPI_Allgather.  When packing fails on one of them, the others wait for ever.\<close>

definition get_rangesrvs ::
  "byte list pack_op \<Rightarrow> unpack_op \<Rightarrow> (nat \<Rightarrow> (nat \<Rightarrow> byte list) \<Rightarrow> nat \<Rightarrow> i32 \<times> byte list) \<Rightarrow> nat \<Rightarrow> (nat \<Rightarrow> byte list) \<Rightarrow>
   (nat \<Rightarrow> 'd started) \<Rightarrow> (nat \<Rightarrow> (rangesrv_info list \<times> u32) option) option" where
  "get_rangesrvs pk up ag n sendbuf su =
     (let packed = (\<lambda>p. rsi_pack pk (sendbuf p) (su_rangesrv_num (su p))) in
      if list_ex (\<lambda>p. fst (packed p) \<noteq> MPI_SUCCESS) [0..<n] then None
      else let received = ag n (\<lambda>p. snd (packed p)) in
        Some (\<lambda>p. if fst (received p) \<noteq> MPI_SUCCESS then None
          else rsi_unpack up (su_comm_size (su p)) (enc32 (su_rangesrv_num (su p))) (su_rangesrv_master (su p)) (snd (received p))))"

section \<open>The communicator of the range servers\<close>

text \<open>The ranks in it: the range servers for a range server, all other processes for the others.\<close>

definition init_comm_ranks :: "'d started \<Rightarrow> i32 list" where
  "init_comm_ranks su =
     (if su_rs su \<noteq> None then map rs_rank (md_rangesrvs (su_md su))
      else map of_nat (filter (\<lambda>i. \<not> list_ex (\<lambda>rp. of_nat i = rs_rank rp) (md_rangesrvs (su_md su)))
        [0..<nat (sint (su_comm_size su))]))"

definition range_server_init_comm :: "'d init_env \<Rightarrow> nat \<Rightarrow> i32 \<Rightarrow> 'd started \<Rightarrow> int \<times> 'd started" where
  "range_server_init_comm e npes my_pe su =
     (let ranks = init_comm_ranks su; comm = md_comm (su_md su);
          (ret1, orig) = MPI_Comm_group comm (ie_junkg e);
          (ret2, new_group) = MPI_Group_incl (ie_alloc3 e) (ie_junk_rank e) my_pe orig (of_nat (length ranks)) ranks (ie_junkg e);
          (ret3, new_comm) = MPI_Comm_create (ie_alloc4 e) (ie_acc e) (ie_junkc e) (ie_junkg e) npes my_pe comm new_group None
      in if ret1 \<noteq> MPI_SUCCESS \<or> ret2 \<noteq> MPI_SUCCESS \<or> ret3 \<noteq> MPI_SUCCESS then (MDHIM_ERROR, su)
         else (MDHIM_SUCCESS, if su_rs su \<noteq> None then su\<lparr>su_rs_comm := new_comm\<rparr> else su))"

section \<open>All processes\<close>

text \<open>mdhimInit on \<open>n\<close> processes.  \<open>None\<close> is undefined behaviour, or that some return and the others wait for
  them for ever.\<close>

definition mdhimInit ::
  "byte list pack_op \<Rightarrow> unpack_op \<Rightarrow> (nat \<Rightarrow> (nat \<Rightarrow> byte list) \<Rightarrow> nat \<Rightarrow> i32 \<times> byte list) \<Rightarrow> nat \<Rightarrow> (nat \<Rightarrow> 'd init_env) \<Rightarrow>
   mdhim_options \<Rightarrow> part_globals \<Rightarrow> (nat \<Rightarrow> MPI_Comm) \<Rightarrow> (nat \<Rightarrow> 'd started option) option" where
  "mdhimInit pk up ag n e opts g appComm =
     (let pre = (\<lambda>p. init_local (e p) opts g (of_nat p) (appComm p)) in
      if list_ex (\<lambda>p. pre p = None) [0..<n] then None
      else if list_all (\<lambda>p. pre p = Some None) [0..<n] then Some (\<lambda>_. None)
      else if list_ex (\<lambda>p. pre p = Some None) [0..<n] then None
      else do {
        let su = (\<lambda>p. the (the (pre p)));
        lists \<leftarrow> get_rangesrvs pk up ag n (\<lambda>p. ie_sendbuf (e p)) su;
        let failed = (\<lambda>p. case lists p of None \<Rightarrow> True | Some (rss, _) \<Rightarrow> rss = []);
        if list_all failed [0..<n] then Some (\<lambda>_. None)
        else if list_ex failed [0..<n] then None
        else do {
          let su' = (\<lambda>p. let (rss, master) = the (lists p) in
            range_server_init_comm (e p) n (of_nat p)
              ((su p)\<lparr>su_md := (su_md (su p))\<lparr>md_rangesrvs := rss\<rparr>, su_rangesrv_master := master\<rparr>));
          if list_all (\<lambda>p. fst (su' p) \<noteq> MDHIM_SUCCESS) [0..<n] then Some (\<lambda>_. None)
          else if list_ex (\<lambda>p. fst (su' p) \<noteq> MDHIM_SUCCESS) [0..<n] then None
          else Some (\<lambda>p. if p < n then Some (snd (su' p)) else None) } })"

text \<open>The cluster then: the server threads run, on the tables of their process.\<close>

definition start_world :: "'n \<Rightarrow> (nat \<Rightarrow> 'd init_env) \<Rightarrow> (nat \<Rightarrow> 'd started option) \<Rightarrow> ('n, 'd) world" where
  "start_world net e st =
     \<lparr>w_net = net, w_queue = \<lambda>s. empty_work_queue (ie_heap (e (unat s))),
      w_server = \<lambda>s. Option.bind (st (unat s)) (\<lambda>su. map_option (\<lambda>rs. rs\<lparr>sv_md := su_md su\<rparr>) (su_rs su)),
      w_listening = \<lambda>s. \<exists>su. st (unat s) = Some su \<and> su_rs su \<noteq> None,
      w_working = \<lambda>s. \<exists>su. st (unat s) = Some su \<and> su_rs su \<noteq> None\<rparr>"

section \<open>What MPI promises\<close>

text \<open>MPI_Allgather gives every process the blocks of all, in the order of their ranks.\<close>

definition allgather_ok :: "(nat \<Rightarrow> (nat \<Rightarrow> byte list) \<Rightarrow> nat \<Rightarrow> i32 \<times> byte list) \<Rightarrow> bool" where
  "allgather_ok ag \<longleftrightarrow> (\<forall>n b k p. (\<forall>q < n. length (b q) = k) \<and> p < n \<longrightarrow> ag n b p = (MPI_SUCCESS, concat (map b [0..<n])))"

definition ref_allgather :: "nat \<Rightarrow> (nat \<Rightarrow> byte list) \<Rightarrow> nat \<Rightarrow> i32 \<times> byte list" where
  "ref_allgather n b p = (MPI_SUCCESS, concat (map b [0..<n]))"

lemma ref_allgather_ok: "allgather_ok ref_allgather"
  by (simp add: allgather_ok_def ref_allgather_def)

section \<open>The list of range servers\<close>

definition rss_of :: "(nat \<Rightarrow> u32) \<Rightarrow> nat list \<Rightarrow> rangesrv_info list" where
  "rss_of num is = map (\<lambda>i. \<lparr>rs_rank = of_nat i, rs_rangesrv_num = num i\<rparr>) (filter (\<lambda>i. num i \<noteq> 0) is)"

definition master_of :: "(nat \<Rightarrow> u32) \<Rightarrow> nat list \<Rightarrow> u32 \<Rightarrow> u32" where
  "master_of num is m = fold (\<lambda>i m. if of_nat i > m then of_nat i else m) (filter (\<lambda>i. num i \<noteq> 0) is) m"

lemma concat_enc32_nth:
  "i < n \<Longrightarrow> take 4 (drop (4 * i) (concat (map (\<lambda>p. enc32 (num p)) [0..<n]))) = enc32 (num i)"
proof (induction n)
  case (Suc n)
  have len: "length (concat (map (\<lambda>p. enc32 (num p)) [0..<n])) = 4 * n"
    by (simp add: length_concat comp_def sum_list_triv)
  show ?case
  proof (cases "i = n")
    case True
    with len show ?thesis by simp
  next
    case False
    with Suc.prems have "i < n" by simp
    with Suc.IH len show ?thesis by (simp add: diff_mult_distrib2 [symmetric])
  qed
qed simp

context packer
begin

lemma rsi_loop_run:
  assumes "i + length is = n" "is = [i..<n]" "4 * n < 2147483648" "length rsi = 4"
  shows "rsi_loop up (concat (map (\<lambda>p. enc32 (num p)) [0..<n])) (of_nat (4 * n)) is (of_nat (4 * i)) rsi (rss, master) =
    Some (rss @ rss_of num is, master_of num is master)"
  using assms
proof (induction "is" arbitrary: i rsi rss master)
  case Nil
  then show ?case by (simp add: rss_of_def master_of_def)
next
  case (Cons j js)
  let ?buf = "concat (map (\<lambda>p. enc32 (num p)) [0..<n])"
  have "i < n" using Cons.prems(1) by simp
  with Cons.prems(2) have i: "i < n" "j = i" "js = [Suc i..<n]" by (simp_all add: upt_conv_Cons)
  have len: "length ?buf = 4 * n" by (simp add: length_concat comp_def sum_list_triv)
  have "up ?buf (of_nat (4 * n)) (of_nat (4 * i)) (of_nat 4) MPI_CHAR rsi =
      (MPI_SUCCESS, take (4 * elem_size MPI_CHAR) (drop (4 * i) ?buf), of_nat (4 * i + 4 * elem_size MPI_CHAR))"
    using i(1) Cons.prems(3,4) len by (intro up_fits) simp_all
  then have up: "up ?buf (of_nat (4 * n)) (of_nat (4 * i)) 4 MPI_CHAR rsi = (MPI_SUCCESS, enc32 (num i), of_nat (4 * Suc i))"
    using concat_enc32_nth [OF i(1), of num] by simp
  note IH = Cons.IH [of "Suc i" "enc32 (num i)", OF _ i(3) Cons.prems(3)]
  show ?case
  proof (cases "num i = 0")
    case True
    then show ?thesis using IH [unfolded True] i
      by (simp add: up rss_of_def master_of_def del: of_nat_mult of_nat_Suc mult_Suc_right)
  next
    case False
    then show ?thesis using IH i by (simp add: up rss_of_def master_of_def del: of_nat_mult of_nat_Suc mult_Suc_right)
  qed
qed

lemma rsi_pack_run: "length buf = 4 \<Longrightarrow> rsi_pack pk buf num = (MPI_SUCCESS, enc32 num)"
  using pk_fits [of "enc32 num" 4 MPI_CHAR 0 buf] by (simp add: rsi_pack_def splice_def)

lemma get_rangesrvs_run:
  assumes ag: "allgather_ok ag" and n: "4 * n < 2147483648"
    and su: "\<And>p. p < n \<Longrightarrow> su_comm_size (su p) = of_nat n \<and> su_rangesrv_master (su p) = 0"
    and buf: "\<And>p. p < n \<Longrightarrow> length (buf p) = 4"
  defines "num \<equiv> (\<lambda>p. su_rangesrv_num (su p))"
  shows "\<exists>lists. get_rangesrvs pk up ag n buf su = Some lists \<and>
    (\<forall>p < n. lists p = Some (rss_of num [0..<n], master_of num [0..<n] 0))"
proof -
  have pack: "rsi_pack pk (buf p) (su_rangesrv_num (su p)) = (MPI_SUCCESS, enc32 (num p))" if "p < n" for p
    using rsi_pack_run [OF buf [OF that]] by (simp add: num_def)
  let ?b = "\<lambda>p. snd (rsi_pack pk (buf p) (su_rangesrv_num (su p)))"
  have blocks: "map ?b [0..<n] = map (\<lambda>p. enc32 (num p)) [0..<n]" using pack by simp
  have got: "ag n ?b p = (MPI_SUCCESS, concat (map (\<lambda>p. enc32 (num p)) [0..<n]))" if "p < n" for p
  proof -
    have "length (?b q) = 4" if "q < n" for q by (simp only: pack [OF that] snd_conv length_enc32)
    then have "ag n ?b p = (MPI_SUCCESS, concat (map ?b [0..<n]))"
      using ag [unfolded allgather_ok_def, rule_format, of n ?b 4 p] \<open>p < n\<close> by blast
    then show ?thesis unfolding blocks .
  qed
  have "\<not> list_ex (\<lambda>p. fst (rsi_pack pk (buf p) (su_rangesrv_num (su p))) \<noteq> MPI_SUCCESS) [0..<n]"
    using pack by (simp add: list_ex_iff)
  then have "get_rangesrvs pk up ag n buf su = Some (\<lambda>p. if fst (ag n ?b p) \<noteq> MPI_SUCCESS then None
      else rsi_unpack up (su_comm_size (su p)) (enc32 (num p)) (su_rangesrv_master (su p)) (snd (ag n ?b p)))"
    unfolding num_def by (simp add: get_rangesrvs_def Let_def)
  moreover
  have size: "nat (sint (of_nat n :: i32)) = n" "4 * (of_nat n :: i32) = of_nat (4 * n)" using n by simp_all
  have unpack: "rsi_unpack up (su_comm_size (su p)) (enc32 (num p)) (su_rangesrv_master (su p))
      (concat (map (\<lambda>p. enc32 (num p)) [0..<n])) = Some (rss_of num [0..<n], master_of num [0..<n] 0)" if "p < n" for p
  proof -
    have run: "rsi_loop up (concat (map (\<lambda>p. enc32 (num p)) [0..<n])) (of_nat (4 * n)) [0..<n] 0 (enc32 (num p)) ([], 0) =
        Some (rss_of num [0..<n], master_of num [0..<n] 0)"
      using rsi_loop_run [of 0 "[0..<n]" n "enc32 (num p)" num "[]" 0] n by (simp del: of_nat_mult)
    show ?thesis using su [OF that] unfolding rsi_unpack_def by (simp only: size run)
  qed
  ultimately show ?thesis using unpack got by simp
qed

end

section \<open>One process\<close>

definition options_ok :: "mdhim_options \<Rightarrow> bool" where
  "options_ok opts \<longleftrightarrow> MDHIM_INT_KEY \<le> op_key_type opts \<and> op_key_type opts \<le> MDHIM_BYTE_KEY \<and> 0 < op_rserver_factor opts"

text \<open>There is memory, and the databases open, both empty.\<close>

definition env_ok :: "'d mdhim_store_t \<Rightarrow> ('d \<Rightarrow> (key \<times> val) list) \<Rightarrow> ('d \<Rightarrow> bool) \<Rightarrow> 'd init_env \<Rightarrow> bool" where
  "env_ok store view I e \<longleftrightarrow> (\<forall>k sz. ie_alloc1 e k sz \<noteq> None \<and> ie_alloc2 e k sz \<noteq> None \<and>
     ie_alloc3 e k sz \<noteq> None \<and> ie_alloc4 e k sz \<noteq> None) \<and> (\<forall>a. ie_acc e a) \<and>
     ie_store e = Some store \<and> (\<exists>db stats. ie_open e = (MDHIM_SUCCESS, db, stats) \<and> I db \<and> view db = [] \<and>
       snd (s_get_next store stats []) = None) \<and> 0 < ie_fuel e \<and> length (ie_sendbuf e) = 4"

definition member_of :: "nat \<Rightarrow> nat \<Rightarrow> MPI_Comm \<Rightarrow> bool" where
  "member_of n p comm \<longleftrightarrow> (\<exists>c g. comm = Some c \<and> c_groupPtr c = Some g \<and> g_size g = of_nat n \<and> g_rank g = of_nat p \<and>
     of_nat p \<in> set (take (nat (sint (g_size g))) (g_pesInGroup g)))"

definition init_globals :: "mdhim_options \<Rightarrow> part_globals \<Rightarrow> part_globals" where
  "init_globals opts g = g\<lparr>range_server_factor := op_rserver_factor opts, mdhim_max_recs_per_slice := op_max_recs_per_slice opts,
     mdhim_alphabet := build_alphabet (mdhim_alphabet g)\<rparr>"

definition num_servers :: "int \<Rightarrow> nat \<Rightarrow> nat" where
  "num_servers f n = (if int n - 1 < f then 1 else nat ((int n - 1) div f) + 1)"

lemma dup_member:
  assumes "member_of n p comm" and "\<And>k sz. al k sz \<noteq> None" "\<And>a. acc a"
  obtains c where "MPI_Comm_dup al acc junkc junkg me comm nc = (MPI_SUCCESS, Some c)"
    "MPI_Comm_rank (Some c) r = (MPI_SUCCESS, of_nat p)" "MPI_Comm_size (Some c) s = (MPI_SUCCESS, of_nat n)"
    "member_of n p (Some c)"
proof -
  obtain c g where "comm = Some c" "c_groupPtr c = Some g" "g_size g = of_nat n" "g_rank g = of_nat p"
    "of_nat p \<in> set (take (nat (sint (g_size g))) (g_pesInGroup g))"
    using assms(1) by (auto simp: member_of_def)
  moreover obtain b where "al 0 (nat MAX_BUFFER_SIZE) = Some b" using assms(2) [of 0 "nat MAX_BUFFER_SIZE"] by auto
  ultimately show ?thesis using assms(3) that
    by (simp add: assms(2) MPI_Comm_dup_def new_comm_def MPI_Comm_rank_def MPI_Comm_size_def member_of_def Let_def)
qed

lemma server_number_le: "0 < f \<Longrightarrow> 0 \<le> r \<Longrightarrow> r < int n \<Longrightarrow> server_number f n r \<le> n"
proof -
  assume f: "0 < f" and r: "0 \<le> r" "r < int n"
  then have "r div f \<le> r" using zdiv_mono2 [of r 1 f] by simp
  then have "nat (r div f) + 1 \<le> n" using r by linarith
  then show ?thesis using r by (auto simp: server_number_def)
qed

text \<open>What a process has after its own part.\<close>

definition started_ok :: "'d mdhim_store_t \<Rightarrow> ('d \<Rightarrow> (key \<times> val) list) \<Rightarrow> ('d \<Rightarrow> bool) \<Rightarrow> mdhim_options \<Rightarrow> part_globals \<Rightarrow>
    nat \<Rightarrow> nat \<Rightarrow> 'd started \<Rightarrow> bool" where
  "started_ok store view I opts g n p su \<longleftrightarrow> su_globals su = init_globals opts g \<and> su_rank su = of_nat p \<and>
     su_comm_size su = of_nat n \<and> su_rangesrv_num su = of_nat (server_number (op_rserver_factor opts) n (int p)) \<and>
     member_of n p (md_comm (su_md su)) \<and> su_rs_comm su = None \<and>
     md_key_type (su_md su) = op_key_type opts \<and> md_num_rangesrvs (su_md su) = of_nat (num_servers (op_rserver_factor opts) n) \<and>
     (if server_number (op_rserver_factor opts) n (int p) = 0 then su_rs su = None
      else \<exists>rs. su_rs su = Some rs \<and> sv_rank rs = of_nat p \<and> sv_value_append rs = op_value_append opts \<and> sv_store rs = store \<and>
        I (sv_db_handle rs) \<and> view (sv_db_handle rs) = [] \<and> sv_store_stats rs = None \<and> sv_sent rs = [] \<and> sv_receive_msg rs = None)"

lemma init_local_run:
  assumes opts: "options_ok opts" and env: "env_ok store view I e" and comm: "member_of n p comm"
    and p: "p < n" "n < 2147483648"
  shows "\<exists>su. init_local e opts g (of_nat p) comm = Some (Some su) \<and> started_ok store view I opts g n p su \<and> su_rangesrv_master su = 0"
proof -
  let ?f = "op_rserver_factor opts" and ?g = "init_globals opts g"
  have f: "0 < ?f" using opts by (simp add: options_ok_def)
  have al: "\<And>k sz. ie_alloc1 e k sz \<noteq> None" "\<And>k sz. ie_alloc2 e k sz \<noteq> None" "\<And>a. ie_acc e a"
    using env by (auto simp: env_ok_def)
  obtain c where dup1: "MPI_Comm_dup (ie_alloc1 e) (ie_acc e) (ie_junkc e) (ie_junkg e) (of_nat p) comm None = (MPI_SUCCESS, Some c)"
    "MPI_Comm_rank (Some c) 0 = (MPI_SUCCESS, of_nat p)" "MPI_Comm_size (Some c) 0 = (MPI_SUCCESS, of_nat n)"
    "member_of n p (Some c)"
    using dup_member [OF comm al(1,3)] .
  obtain c2 where dup2: "MPI_Comm_dup (ie_alloc2 e) (ie_acc e) (ie_junkc e) (ie_junkg e) (of_nat p) comm None = (MPI_SUCCESS, Some c2)"
    using dup_member [OF comm al(2,3)] .
  define md where "md = \<lparr>md_comm = Some c, md_key_type = op_key_type opts, md_num_rangesrvs = 0, md_rangesrvs = [], md_stats = None\<rparr>"
  define md' where "md' = md\<lparr>md_num_rangesrvs := of_nat (num_servers ?f n)\<rparr>"
  have size: "comm_size_is md' n" "comm_size_is md n" using p dup1(3) by (simp_all add: comm_size_is_def md_def md'_def)
  have num: "get_num_range_servers ?g md' = Some (of_nat (num_servers ?f n))"
    "get_num_range_servers (g\<lparr>range_server_factor := ?f, mdhim_max_recs_per_slice := op_max_recs_per_slice opts\<rparr>) md =
      Some (of_nat (num_servers ?f n))"
    using get_num_range_servers_val [OF size(1), of ?g] f
      get_num_range_servers_val [OF size(2), of "g\<lparr>range_server_factor := ?f, mdhim_max_recs_per_slice := op_max_recs_per_slice opts\<rparr>"]
    by (simp_all add: init_globals_def num_servers_def)
  have part: "partitioner_init ?f (op_max_recs_per_slice opts) g md = Some (?g, md')"
    using num(2) by (simp add: partitioner_init_def Let_def init_globals_def md'_def)
  let ?k = "server_number ?f n (int p)"
  have is_rs: "is_range_server ?g md' (int p) = Some (of_nat ?k)"
    using is_range_server_val [OF size(1), of ?g "int p"] f p num(1)
    by (simp add: init_globals_def md'_def server_number_def)
  have "?k \<le> n" using f p by (intro server_number_le) simp_all
  then have small: "unat (of_nat ?k :: u32) = ?k" "unat (of_nat (Suc ?k) :: u32) = Suc ?k"
    using p by (intro unat_of_nat_u32; simp)+
  then have "(of_nat ?k :: u32) + 1 \<noteq> 0" by (metis Suc_not_Zero of_nat_Suc add.commute unat_0)
  then have k: "(of_nat ?k :: u32) \<noteq> of_int MDHIM_ERROR" "(of_nat ?k :: u32) = 0 \<longleftrightarrow> ?k = 0"
    using small(1) by (auto simp: MDHIM_ERROR_def)
  have rank: "sint (of_nat p :: i32) = int p" using p by simp
  obtain db stats where db: "ie_store e = Some store" "ie_open e = (MDHIM_SUCCESS, db, stats)" "I db" "view db = []"
    "snd (s_get_next store stats []) = None" "0 < ie_fuel e" using env by (auto simp: env_ok_def)
  obtain fuel where fuel: "ie_fuel e = Suc fuel" using db(6) by (cases "ie_fuel e") auto
  define rs where "rs = \<lparr>sv_md = md', sv_rank = of_nat p, sv_value_append = op_value_append opts,
             sv_store = store, sv_db_handle = db, sv_db_stats = stats, sv_store_stats = None,
             sv_put_time = 0, sv_get_time = 0, sv_num_put = 0, sv_num_get = 0, sv_receive_msg = None, sv_sent = []\<rparr>"
  have "load_stats (ie_fuel e) rs = Some rs" using db(5) by (simp add: load_stats_def fuel rs_def)
  then have init: "range_server_init e opts ?g md' (of_nat p) =
      Some (MDHIM_SUCCESS, of_nat ?k, if ?k = 0 then None else Some rs)"
    using is_rs k db by (simp add: range_server_init_def rank rs_def)
  define su where "su = \<lparr>su_globals = ?g, su_md = md', su_rank = of_nat p, su_comm_size = of_nat n, su_rangesrv_num = of_nat ?k,
     su_rs = (if ?k = 0 then None else Some rs), su_rangesrv_master = 0, su_rs_comm = None\<rparr>"
  have "\<not> (op_key_type opts < MDHIM_INT_KEY \<or> MDHIM_BYTE_KEY < op_key_type opts)" using opts by (auto simp: options_ok_def)
  then have "init_local e opts g (of_nat p) comm = Some (Some su)"
    using dup1 dup2 part init by (simp add: init_local_def Let_def md_def su_def)
  moreover have "started_ok store view I opts g n p su"
    using db dup1(4) by (simp add: started_ok_def su_def md'_def md_def rs_def)
  ultimately show ?thesis by (intro exI [of _ su]) (simp add: su_def)
qed

section \<open>The list of range servers is numbered\<close>

definition start_num :: "int \<Rightarrow> nat \<Rightarrow> nat \<Rightarrow> u32" where
  "start_num f n p = of_nat (server_number f n (int p))"

lemma start_num_val:
  assumes "0 < f" and "n < 2147483648" and "p < n"
  shows "unat (start_num f n p) = server_number f n (int p)" "start_num f n p = 0 \<longleftrightarrow> server_number f n (int p) = 0"
proof -
  have "server_number f n (int p) \<le> n" using assms by (intro server_number_le) simp_all
  then show u: "unat (start_num f n p) = server_number f n (int p)"
    using assms(2) unfolding start_num_def by (intro unat_of_nat_u32) simp
  show "start_num f n p = 0 \<longleftrightarrow> server_number f n (int p) = 0"
    using u by (metis unat_0 unat_eq_zero)
qed

lemma num_servers_u32:
  assumes "0 < f" and "0 < n" "n < 2147483648"
  shows "unat (of_nat (num_servers f n) :: u32) = num_servers f n"
proof -
  have "(int n - 1) div f \<le> int n - 1" using assms zdiv_mono2 [of "int n - 1" 1 f] by simp
  then have "nat ((int n - 1) div f) + 1 \<le> n" using assms(2) by linarith
  then have "num_servers f n \<le> n" using assms(2) by (simp add: num_servers_def)
  then show ?thesis using assms(3) by (intro unat_of_nat_u32) simp
qed

lemma start_list:
  assumes f: "0 < f" and n: "0 < n" "n < 2147483648"
  defines "rss \<equiv> rss_of (start_num f n) [0..<n]"
  shows "distinct (map rs_rank rss)" and "distinct (map rs_rangesrv_num rss)"
    and "ri \<in> set rss \<Longrightarrow> rs_rangesrv_num ri \<noteq> 0 \<and> rs_rangesrv_num ri \<le> of_nat (num_servers f n)"
    and "\<forall>j \<in> {1..num_servers f n}. \<exists>ri \<in> set rss. unat (rs_rangesrv_num ri) = j"
    and "p < n \<Longrightarrow> of_nat p \<in> rs_rank ` set rss \<longleftrightarrow> server_number f n (int p) \<noteq> 0"
    and "s \<in> rs_rank ` set rss \<Longrightarrow> unat s < n"
proof -
  let ?is = "filter (\<lambda>i. start_num f n i \<noteq> 0) [0..<n]"
  have bij: "bij_betw (server_number f n) {r. 0 \<le> r \<and> r < int n \<and> server_number f n r \<noteq> 0} {1..num_servers f n}"
    using server_number_bij [OF f n(1)] by (simp add: num_servers_def)
  note val = start_num_val [OF f n(2)]
  have "set ?is \<subseteq> {..<n}" by auto
  have rank: "unat (of_nat i :: u32) = i" if "i < n" for i using that n by (intro unat_of_nat_u32) simp
  have "inj_on (\<lambda>i. of_nat i :: u32) (set ?is)"
    using rank by (intro inj_onI) (metis atLeastLessThan_iff filter_is_subset set_upt subsetD)
  then show "distinct (map rs_rank rss)" by (simp add: rss_def rss_of_def distinct_map comp_def)
  have "inj_on (start_num f n) (set ?is)"
  proof (rule inj_onI)
    fix i j assume "i \<in> set ?is" "j \<in> set ?is" and eq: "start_num f n i = start_num f n j"
    then have i: "i < n" "j < n" "start_num f n i \<noteq> 0" "start_num f n j \<noteq> 0" by auto
    have "server_number f n (int i) = server_number f n (int j)" using eq val(1) i(1,2) by metis
    moreover have "server_number f n (int i) \<noteq> 0" "server_number f n (int j) \<noteq> 0" using val(2) i by auto
    ultimately have "int i = int j" using i(1,2) by (intro inj_onD [OF bij_betw_imp_inj_on [OF bij]]) simp_all
    then show "i = j" by simp
  qed
  then show "distinct (map rs_rangesrv_num rss)" by (simp add: rss_def rss_of_def distinct_map comp_def)
  have in_rss: "ri \<in> set rss \<longleftrightarrow> (\<exists>i < n. server_number f n (int i) \<noteq> 0 \<and>
      ri = \<lparr>rs_rank = of_nat i, rs_rangesrv_num = start_num f n i\<rparr>)" for ri
    using val(2) by (auto simp: rss_def rss_of_def)
  show "rs_rangesrv_num ri \<noteq> 0 \<and> rs_rangesrv_num ri \<le> of_nat (num_servers f n)" if ri: "ri \<in> set rss"
  proof -
    from ri obtain i where i: "i < n" "server_number f n (int i) \<noteq> 0" "rs_rangesrv_num ri = start_num f n i"
      unfolding in_rss by auto
    have "server_number f n (int i) \<in> {1..num_servers f n}" using bij i(1,2) unfolding bij_betw_def by auto
    then show ?thesis using i val num_servers_u32 [OF f n] by (auto simp: word_le_nat_alt)
  qed
  show "\<forall>j \<in> {1..num_servers f n}. \<exists>ri \<in> set rss. unat (rs_rangesrv_num ri) = j"
  proof
    fix j assume "j \<in> {1..num_servers f n}"
    then have "j \<in> server_number f n ` {r. 0 \<le> r \<and> r < int n \<and> server_number f n r \<noteq> 0}"
      unfolding bij_betw_imp_surj_on [OF bij] .
    then obtain r where r: "0 \<le> r" "r < int n" "server_number f n r \<noteq> 0" "server_number f n r = j" by blast
    then have "\<lparr>rs_rank = of_nat (nat r), rs_rangesrv_num = start_num f n (nat r)\<rparr> \<in> set rss"
      unfolding in_rss by (intro exI [of _ "nat r"]) simp
    then show "\<exists>ri \<in> set rss. unat (rs_rangesrv_num ri) = j" using r val(1) [of "nat r"] by (intro bexI) simp_all
  qed
  show "of_nat p \<in> rs_rank ` set rss \<longleftrightarrow> server_number f n (int p) \<noteq> 0" if p: "p < n"
  proof
    assume "of_nat p \<in> rs_rank ` set rss"
    then obtain ri where "ri \<in> set rss" "of_nat p = rs_rank ri" by blast
    then obtain i where i: "i < n" "server_number f n (int i) \<noteq> 0" "(of_nat p :: u32) = of_nat i"
      using in_rss by auto
    then have "p = i" using rank p by metis
    with i show "server_number f n (int p) \<noteq> 0" by simp
  next
    assume "server_number f n (int p) \<noteq> 0"
    with p have "\<lparr>rs_rank = of_nat p, rs_rangesrv_num = start_num f n p\<rparr> \<in> set rss" using in_rss by blast
    then show "of_nat p \<in> rs_rank ` set rss" by force
  qed
  show "unat s < n" if s: "s \<in> rs_rank ` set rss"
  proof -
    from s obtain ri where "ri \<in> set rss" "s = rs_rank ri" by blast
    then obtain i where "i < n" "s = of_nat i" using in_rss by auto
    with rank show ?thesis by simp
  qed
qed

lemma master_of_run:
  assumes "n < 2147483648" and "filter (\<lambda>i. num i \<noteq> 0) [0..<n] \<noteq> []"
  shows "master_of num [0..<n] 0 = rs_rank (last (rss_of num [0..<n]))"
proof -
  let ?servers = "\<lambda>n. filter (\<lambda>i. num i \<noteq> 0) [0..<n]"
  have "master_of num [0..<n] 0 = (if ?servers n = [] then 0 else of_nat (last (?servers n)))"
    using assms(1)
  proof (induction n)
    case (Suc n)
    then have IH: "master_of num [0..<n] 0 = (if ?servers n = [] then 0 else of_nat (last (?servers n)))" by simp
    have "(of_nat (last (?servers n)) :: u32) < of_nat n" if "?servers n \<noteq> []"
    proof -
      have "last (?servers n) < n" using last_in_set [OF that] by simp
      with Suc.prems show ?thesis by (simp add: word_less_nat_alt unat_of_nat_u32)
    qed
    moreover have "0 < (of_nat n :: u32) \<or> n = 0"
      using Suc.prems unat_of_nat_u32 [of n] by (auto simp: word_less_nat_alt)
    ultimately show ?case using IH by (auto simp: master_of_def)
  qed (simp add: master_of_def)
  with assms(2) show ?thesis by (simp add: rss_of_def last_map)
qed

section \<open>The communicator of the range servers\<close>

definition comm_of_servers :: "rangesrv_info list \<Rightarrow> nat \<Rightarrow> MPI_Comm \<Rightarrow> bool" where
  "comm_of_servers rss p comm \<longleftrightarrow> (\<exists>c g j. comm = Some c \<and> c_groupPtr c = Some g \<and> g_size g = of_nat (length rss) \<and>
     g_rank g = of_nat j \<and> j < length rss \<and> rs_rank (rss ! j) = of_nat p \<and> g_pesInGroup g = map rs_rank rss)"

lemma init_comm_run:
  assumes env: "env_ok store view I e" and comm: "member_of n p (md_comm (su_md su))" "su_comm_size su = of_nat n"
    and n: "n < 2147483648" "length (md_rangesrvs (su_md su)) < 2147483648"
    and dist: "distinct (map rs_rank (md_rangesrvs (su_md su)))"
    and me: "su_rs su \<noteq> None \<Longrightarrow> of_nat p \<in> rs_rank ` set (md_rangesrvs (su_md su))"
  shows "\<exists>c. range_server_init_comm e npes (of_nat p) su = (MDHIM_SUCCESS, su\<lparr>su_rs_comm := c\<rparr>) \<and>
    (su_rs su \<noteq> None \<longrightarrow> comm_of_servers (md_rangesrvs (su_md su)) p c)"
proof -
  let ?rss = "md_rangesrvs (su_md su)" and ?ranks = "init_comm_ranks su"
  have al: "\<And>k sz. ie_alloc3 e k sz \<noteq> None" "\<And>k sz. ie_alloc4 e k sz \<noteq> None" "\<And>a. ie_acc e a"
    using env by (auto simp: env_ok_def)
  have "length (filter P [0..<nat (sint (su_comm_size su))]) \<le> n" for P
    using comm(2) n(1) length_filter_le [of P "[0..<nat (sint (su_comm_size su))]"] by simp
  then have len: "length ?ranks < 2147483648" using n by (auto simp: init_comm_ranks_def intro: le_less_trans)
  obtain c cg where c: "md_comm (su_md su) = Some c" "c_groupPtr c = Some cg"
    "of_nat p \<in> set (take (nat (sint (g_size cg))) (g_pesInGroup cg))"
    using comm(1) by (auto simp: member_of_def)
  obtain g d where made: "MPI_Group_incl (ie_alloc3 e) (ie_junk_rank e) (of_nat p) (ie_junkg e) (of_nat (length ?ranks)) ?ranks
      (ie_junkg e) = (MPI_SUCCESS, g)"
    "MPI_Comm_create (ie_alloc4 e) (ie_acc e) (ie_junkc e) (ie_junkg e) npes (of_nat p) (Some c) g None = (MPI_SUCCESS, Some d)"
    "c_groupPtr d = Some ((ie_junkg e)\<lparr>g_rank := snd (group_incl_loop (of_nat p) 0 ?ranks (ie_junk_rank e)),
       g_size := of_nat (length ?ranks), g_pesInGroup := ?ranks\<rparr>)"
    by (rule incl_create [OF al len c(2,3)])
  have run: "range_server_init_comm e npes (of_nat p) su =
      (MDHIM_SUCCESS, su\<lparr>su_rs_comm := if su_rs su \<noteq> None then Some d else su_rs_comm su\<rparr>)"
    using c made(1,2) by (simp add: range_server_init_comm_def MPI_Comm_group_def Let_def)
  moreover have "comm_of_servers ?rss p (Some d)" if server: "su_rs su \<noteq> None"
  proof -
    have ranks: "?ranks = map rs_rank ?rss" using server by (simp add: init_comm_ranks_def)
    have "of_nat p \<in> set ?ranks" using me [OF server] by (simp add: ranks)
    then obtain j where j: "j < length ?ranks" "?ranks ! j = of_nat p" by (auto simp: in_set_conv_nth)
    have "snd (group_incl_loop (of_nat p) 0 ?ranks (ie_junk_rank e)) = of_nat (0 + j)"
      using j dist by (intro group_incl_loop_present) (simp_all only: ranks)
    then show ?thesis using made(3) j by (auto simp: comm_of_servers_def ranks)
  qed
  ultimately show ?thesis by (intro exI [of _ "if su_rs su \<noteq> None then Some d else su_rs_comm su"]) simp
qed

section \<open>The cluster after the start\<close>

text \<open>A process at the end of mdhimInit: the list of range servers, the last of them as master, and its communicator.\<close>

definition joined :: "rangesrv_info list \<Rightarrow> MPI_Comm \<Rightarrow> 'd started \<Rightarrow> 'd started" where
  "joined rss c su = su\<lparr>su_md := (su_md su)\<lparr>md_rangesrvs := rss\<rparr>, su_rangesrv_master := rs_rank (last rss), su_rs_comm := c\<rparr>"

lemma all_processes:
  assumes "packer pk up" and "allgather_ok ag" and "options_ok opts" and n: "0 < n" "n < 536870912"
    and env: "\<And>p. p < n \<Longrightarrow> env_ok store view I (e p) \<and> member_of n p (comm p)"
  defines "rss \<equiv> rss_of (start_num (op_rserver_factor opts) n) [0..<n]"
  shows "\<exists>st. mdhimInit pk up ag n e opts g comm = Some st \<and> (\<forall>p. n \<le> p \<longrightarrow> st p = None) \<and>
    (\<forall>p < n. \<exists>su c. st p = Some (joined rss c su) \<and> started_ok store view I opts g n p su \<and>
       (su_rs su \<noteq> None \<longrightarrow> comm_of_servers rss p c))"
proof -
  let ?f = "op_rserver_factor opts" and ?pre = "\<lambda>p. init_local (e p) opts g (of_nat p) (comm p)"
  have f: "0 < ?f" using assms(3) by (simp add: options_ok_def)
  have "\<exists>su. ?pre p = Some (Some su) \<and> started_ok store view I opts g n p su \<and> su_rangesrv_master su = 0" if "p < n" for p
    using init_local_run [OF assms(3), of store view I "e p" n p "comm p"] env [OF that] that n by simp
  then obtain su where su: "?pre p = Some (Some (su p))" "started_ok store view I opts g n p (su p)" "su_rangesrv_master (su p) = 0"
    if "p < n" for p by metis
  let ?su = "\<lambda>p. the (the (?pre p))"
  have same: "?su p = su p" if "p < n" for p using su(1) [OF that] by simp
  have num: "su_rangesrv_num (?su p) = start_num ?f n p" if "p < n" for p
    using su(2) [OF that] same [OF that] by (simp add: started_ok_def start_num_def)
  define master where "master = master_of (\<lambda>p. su_rangesrv_num (?su p)) [0..<n] 0"
  have "\<exists>lists. get_rangesrvs pk up ag n (\<lambda>p. ie_sendbuf (e p)) ?su = Some lists \<and>
      (\<forall>p < n. lists p = Some (rss_of (\<lambda>p. su_rangesrv_num (?su p)) [0..<n], master))"
    using su(2,3) same env n unfolding master_def
    by (intro packer.get_rangesrvs_run [OF assms(1,2)]) (simp_all add: started_ok_def env_ok_def)
  moreover have rss: "rss_of (\<lambda>p. su_rangesrv_num (?su p)) [0..<n] = rss"
    unfolding rss_def rss_of_def using num by (auto intro!: map_cong filter_cong)
  ultimately obtain lists where lists: "get_rangesrvs pk up ag n (\<lambda>p. ie_sendbuf (e p)) ?su = Some lists"
    "\<And>p. p < n \<Longrightarrow> lists p = Some (rss, master)" by auto
  have "\<exists>j. j \<in> {1..num_servers ?f n}" by (intro exI [of _ 1]) (simp add: num_servers_def)
  then have ne: "rss \<noteq> []" using start_list(4) [OF f n(1)] n(2) unfolding rss_def by fastforce
  let ?failed = "\<lambda>p. case lists p of None \<Rightarrow> True | Some (rss, _) \<Rightarrow> rss = []"
  have "\<not> ?failed p" if "p < n" for p using lists(2) [OF that] ne by simp
  then have ok: "\<not> list_all ?failed [0..<n]" "\<not> list_ex ?failed [0..<n]" using n(1) by (auto simp: list_all_iff list_ex_iff)
  have pre: "\<not> list_ex (\<lambda>p. ?pre p = None) [0..<n]" "\<not> list_all (\<lambda>p. ?pre p = Some None) [0..<n]"
    "\<not> list_ex (\<lambda>p. ?pre p = Some None) [0..<n]" using su(1) n(1) by (auto simp: list_all_iff list_ex_iff)
  have srv: "filter (\<lambda>i. su_rangesrv_num (?su i) \<noteq> 0) [0..<n] \<noteq> []" using ne rss by (auto simp: rss_of_def)
  have master: "master = rs_rank (last rss)" using master_of_run [OF _ srv] n(2) unfolding master_def rss by simp
  let ?sv = "\<lambda>p. (?su p)\<lparr>su_md := (su_md (?su p))\<lparr>md_rangesrvs := rss\<rparr>, su_rangesrv_master := master\<rparr>"
  have len: "length rss < 2147483648"
    using n(2) le_less_trans [OF length_filter_le [of _ "[0..<n]"]] by (simp add: rss_def rss_of_def)
  have "\<exists>c. range_server_init_comm (e p) n (of_nat p) (?sv p) = (MDHIM_SUCCESS, (?sv p)\<lparr>su_rs_comm := c\<rparr>) \<and>
      (su_rs (su p) \<noteq> None \<longrightarrow> comm_of_servers rss p c)" if p: "p < n" for p
  proof -
    have "of_nat p \<in> rs_rank ` set rss" if "su_rs (su p) \<noteq> None"
      using su(2) [OF p] that start_list(5) [OF f n(1) _ p] n(2) by (auto simp: started_ok_def rss_def split: if_splits)
    moreover have "distinct (map rs_rank rss)" using start_list(1) [OF f n(1)] n(2) by (simp add: rss_def)
    moreover have "env_ok store view I (e p)" "member_of n p (md_comm (su_md (?sv p)))" "su_comm_size (?sv p) = of_nat n"
      "md_rangesrvs (su_md (?sv p)) = rss" "su_rs (?sv p) = su_rs (su p)"
      using env [OF p] su(2) [OF p] same [OF p] by (simp_all add: started_ok_def)
    ultimately show ?thesis
      using init_comm_run [of store view I "e p" n p "?sv p" n] n(2) len by (simp only:) simp
  qed
  then obtain c where comm: "range_server_init_comm (e p) n (of_nat p) (?sv p) = (MDHIM_SUCCESS, (?sv p)\<lparr>su_rs_comm := c p\<rparr>)"
    "su_rs (su p) \<noteq> None \<Longrightarrow> comm_of_servers rss p (c p)" if "p < n" for p by metis
  let ?st = "\<lambda>p. case the (lists p) of (rss, master) \<Rightarrow> range_server_init_comm (e p) n (of_nat p)
    ((?su p)\<lparr>su_md := (su_md (?su p))\<lparr>md_rangesrvs := rss\<rparr>, su_rangesrv_master := master\<rparr>)"
  have st: "?st p = (MDHIM_SUCCESS, joined rss (c p) (su p))" if "p < n" for p
    using lists(2) [OF that] comm(1) [OF that] same [OF that] by (simp add: joined_def master)
  then have ok': "\<not> list_all (\<lambda>p. fst (?st p) \<noteq> MDHIM_SUCCESS) [0..<n]" "\<not> list_ex (\<lambda>p. fst (?st p) \<noteq> MDHIM_SUCCESS) [0..<n]"
    using n(1) by (auto simp: list_all_iff list_ex_iff)
  define res where "res = (\<lambda>p. if p < n then Some (snd (?st p)) else None)"
  have "mdhimInit pk up ag n e opts g comm = Some res"
    unfolding res_def by (simp only: mdhimInit_def Let_def pre lists(1) ok ok' if_False Option.bind.simps)
  moreover have "res p = Some (joined rss (c p) (su p))" if "p < n" for p using st [OF that] that by (simp add: res_def)
  moreover have "res p = None" if "n \<le> p" for p using that by (simp add: res_def)
  ultimately show ?thesis using su(2) comm(2) by blast
qed

text \<open>The tables all processes share.\<close>

definition start_md :: "mdhim_options \<Rightarrow> nat \<Rightarrow> mdhim_t" where
  "start_md opts n = \<lparr>md_comm = None, md_key_type = op_key_type opts, md_num_rangesrvs = of_nat (num_servers (op_rserver_factor opts) n),
     md_rangesrvs = rss_of (start_num (op_rserver_factor opts) n) [0..<n], md_stats = None\<rparr>"

lemma start_numbered:
  assumes "options_ok opts" and "0 < n" "n < 2147483648"
  shows "numbered (start_md opts n)"
  using start_list(1-3) [of "op_rserver_factor opts" n] assms by (simp add: numbered_def start_md_def options_ok_def)

lemma start_served:
  assumes "options_ok opts" and "0 < n" "n < 2147483648"
    and "get_slice_num g (start_md opts n) (Some k) (int (length k)) = Some sl" "sl \<noteq> MDHIM_ERROR"
  shows "server_of g (start_md opts n) k \<noteq> None"
proof -
  let ?md = "start_md opts n" and ?f = "op_rserver_factor opts"
  have f: "0 < ?f" using assms(1) by (simp add: options_ok_def)
  have N: "unat (md_num_rangesrvs ?md) = num_servers ?f n" using num_servers_u32 [OF f assms(2,3)] by (simp add: start_md_def)
  then have "0 < md_num_rangesrvs ?md" by (simp add: num_servers_def word_less_nat_alt)
  moreover have "\<forall>j \<in> {1..unat (md_num_rangesrvs ?md)}. \<exists>rp \<in> set (md_rangesrvs ?md). unat (rs_rangesrv_num rp) = j"
    using start_list(4) [OF f assms(2,3)] unfolding N by (simp add: start_md_def)
  ultimately obtain rp where "get_range_server_by_slice ?md sl = Some (Some rp)"
    using slice_served by blast
  then show ?thesis using assms(4,5) by (simp add: server_of_def get_range_server_def)
qed

lemma start_servers:
  assumes "options_ok opts" and "0 < n" "n < 2147483648"
  shows "p < n \<Longrightarrow> of_nat p \<in> servers (start_md opts n) \<longleftrightarrow> server_number (op_rserver_factor opts) n (int p) \<noteq> 0"
    and "s \<in> servers (start_md opts n) \<Longrightarrow> unat s < n"
  using start_list(5,6) [of "op_rserver_factor opts" n] assms by (simp_all add: servers_def start_md_def options_ok_def)

lemma start_idle:
  assumes opts: "options_ok opts" and n: "0 < n" "n < 2147483648" and net: "in_flight (chan net) (\<lambda>_. []) (\<lambda>_. [])"
    and out: "\<And>p. n \<le> p \<Longrightarrow> st p = None"
    and st: "\<And>p. p < n \<Longrightarrow> \<exists>su c. st p = Some (joined (md_rangesrvs (start_md opts n)) c su) \<and> started_ok store view I opts g n p su"
  shows "idle chan store view I (init_globals opts g) (start_md opts n) (op_value_append opts) (start_world net e st)"
    and "stored view (init_globals opts g) (start_md opts n) (start_world net e st) = Map.empty"
proof -
  let ?md = "start_md opts n" and ?f = "op_rserver_factor opts" and ?w = "start_world net e st" and ?g = "init_globals opts g"
  have none: "w_server ?w s = None" if s: "s \<notin> servers ?md" for s
  proof (cases "unat s < n")
    case True
    then have "server_number ?f n (int (unat s)) = 0" using start_servers(1) [OF opts n True] s by simp
    with st [OF True] show ?thesis by (auto simp: start_world_def started_ok_def joined_def)
  next
    case False
    then show ?thesis using out [of "unat s"] by (simp add: start_world_def)
  qed
  have serves: "w_listening ?w s \<and> w_working ?w s \<and> (\<exists>sv. w_server ?w s = Some sv \<and>
      at_rest store view I ?g ?md (op_value_append opts) s sv \<and> view (sv_db_handle sv) = [])"
    if s: "s \<in> servers ?md" for s
  proof -
    have p: "unat s < n" using start_servers(2) [OF opts n s] .
    have "server_number ?f n (int (unat s)) \<noteq> 0" using start_servers(1) [OF opts n p] s by simp
    with st [OF p] obtain su c rs where su: "st (unat s) = Some (joined (md_rangesrvs ?md) c su)" "md_key_type (su_md su) = op_key_type opts" "su_rs su = Some rs" "sv_rank rs = s"
      "sv_value_append rs = op_value_append opts" "sv_store rs = store" "I (sv_db_handle rs)" "view (sv_db_handle rs) = []"
      "sv_store_stats rs = None" "sv_sent rs = []" "sv_receive_msg rs = None" by (auto simp: started_ok_def)
    then show ?thesis
      by (simp add: joined_def start_world_def at_rest_def server_inv_def stats_typed_def ut.null ut.get_null start_md_def)
  qed
  show "idle chan store view I ?g ?md (op_value_append opts) ?w"
    unfolding idle_def using none serves net by (auto simp: start_world_def)
  show "stored view ?g ?md ?w = Map.empty"
  proof
    fix k
    have "server_contents view ?w s = Map.empty" for s
      using none [of s] serves [of s] by (cases "s \<in> servers ?md") (auto simp: server_contents_def)
    then show "stored view ?g ?md ?w k = None" by (simp add: stored_def split: option.split)
  qed
qed

text \<open>Over an MPI_Allgather that delivers what MPI documents (\<open>allgather_ok\<close>), mdhimInit, called by
  \<open>n\<close> processes with the same options and empty databases, returns on all of them; all have the
  same tables, in which every range server has a rank and a number of its own and every slice a
  server; the range servers have a communicator of their own, in the order of the list, and the last
  is the master; the cluster is idle and its map empty.  These are the hypotheses under which the
  calls of the API are correct.  The repository's own MPI_Allgather does not deliver this
  (\<open>Mpi_Coll.staged_Allgather_unspecified\<close>).\<close>

theorem startup_ready:
  assumes "packer pk up" and "allgather_ok ag" and opts: "options_ok opts" and n: "0 < n" "n < 536870912"
    and env: "\<forall>p < n. env_ok store view I (e p) \<and> member_of n p (comm p)"
    and net: "in_flight (chan net) (\<lambda>_. []) (\<lambda>_. [])"
  shows "\<exists>st. mdhimInit pk up ag n e opts g comm = Some st \<and>
    (\<forall>p < n. \<exists>su. st p = Some su \<and> su_globals su = init_globals opts g \<and> su_rank su = of_nat p \<and>
       same_routing (start_md opts n) (su_md su) \<and>
       su_rangesrv_master su = rs_rank (last (md_rangesrvs (su_md su))) \<and>
       (su_rs su \<noteq> None \<longrightarrow> comm_of_servers (md_rangesrvs (su_md su)) p (su_rs_comm su))) \<and>
    numbered (start_md opts n) \<and>
    (\<forall>k sl. get_slice_num (init_globals opts g) (start_md opts n) (Some k) (int (length k)) = Some sl \<and> sl \<noteq> MDHIM_ERROR \<longrightarrow>
       server_of (init_globals opts g) (start_md opts n) k \<noteq> None) \<and>
    idle chan store view I (init_globals opts g) (start_md opts n) (op_value_append opts) (start_world net e st) \<and>
    stored view (init_globals opts g) (start_md opts n) (start_world net e st) = Map.empty"
proof -
  have n': "n < 2147483648" using n(2) by simp
  obtain st where st: "mdhimInit pk up ag n e opts g comm = Some st" "\<And>p. n \<le> p \<Longrightarrow> st p = None"
    "\<And>p. p < n \<Longrightarrow> \<exists>su c. st p = Some (joined (md_rangesrvs (start_md opts n)) c su) \<and> started_ok store view I opts g n p su \<and>
      (su_rs su \<noteq> None \<longrightarrow> comm_of_servers (md_rangesrvs (start_md opts n)) p c)"
    using all_processes [OF assms(1-5), of store view I e comm g] env by (auto simp: start_md_def)
  have "\<exists>su. st p = Some su \<and> su_globals su = init_globals opts g \<and> su_rank su = of_nat p \<and> same_routing (start_md opts n) (su_md su) \<and>
      su_rangesrv_master su = rs_rank (last (md_rangesrvs (su_md su))) \<and>
      (su_rs su \<noteq> None \<longrightarrow> comm_of_servers (md_rangesrvs (su_md su)) p (su_rs_comm su))"
    if "p < n" for p
    using st(3) [OF that] by (auto simp: started_ok_def same_routing_def start_md_def joined_def)
  moreover have "idle chan store view I (init_globals opts g) (start_md opts n) (op_value_append opts) (start_world net e st)"
    "stored view (init_globals opts g) (start_md opts n) (start_world net e st) = Map.empty"
    using start_idle [where chan = chan and st = st and e = e and g = g and store = store and view = view and I = I,
        OF opts n(1) n' net st(2)] st(3) by blast+
  moreover have "server_of (init_globals opts g) (start_md opts n) k \<noteq> None"
    if "get_slice_num (init_globals opts g) (start_md opts n) (Some k) (int (length k)) = Some sl" "sl \<noteq> MDHIM_ERROR" for k sl
    using start_served [OF opts n(1) n' that] .
  ultimately show ?thesis using st(1) start_numbered [OF opts n(1) n'] by blast
qed

text \<open>Three processes and a factor of 2.\<close>

definition three_opts :: mdhim_options where
  "three_opts = \<lparr>op_key_type = MDHIM_INT_KEY, op_rserver_factor = 2, op_max_recs_per_slice = 100, op_value_append = False\<rparr>"

definition three_env :: "(key \<times> val) list init_env" where
  "three_env = \<lparr>ie_alloc1 = \<lambda>k _. Some (1000 * Suc k), ie_alloc2 = \<lambda>k _. Some (9000 * Suc k),
     ie_alloc3 = \<lambda>k _. Some (20000 * Suc k), ie_alloc4 = \<lambda>k _. Some (30000 * Suc k), ie_acc = \<lambda>_. True,
     ie_junkc = world_comm 0 0 0 0 0 0 0, ie_junkg = null_group, ie_junk_rank = 77, ie_store = Some int_leveldb, ie_open = (MDHIM_SUCCESS, [], []),
     ie_fuel = 5, ie_heap = \<lambda>_. \<lparr>wi_next = None, wi_prev = None, wi_message = PutM example_putm, wi_source = 0\<rparr>,
     ie_sendbuf = [0, 0, 0, 0]\<rparr>"

theorem startup_ready_witness:
  "\<exists>st su. mdhimInit (sym_pack (ref_shmem 0 4000) 0 0 one_comm) (sym_unpack (ref_shmem 0 4000) 0 0 one_comm) ref_allgather 3
      (\<lambda>_. three_env) three_opts example_globals (\<lambda>p. Some (world_comm 3 p 0 0 0 0 0)) = Some st \<and> st 1 = Some su \<and>
    md_rangesrvs (su_md su) = [\<lparr>rs_rank = 0, rs_rangesrv_num = 1\<rparr>, \<lparr>rs_rank = 2, rs_rangesrv_num = 2\<rparr>]"
proof -
  have pk: "packer (sym_pack (ref_shmem 0 4000) 0 0 one_comm) (sym_unpack (ref_shmem 0 4000) 0 0 one_comm)"
    by (rule sym_packer) simp_all
  have "snd (s_get_next int_leveldb [] []) = None"
    by (simp add: ref_leveldb_def mdhim_leveldb_get_next_def iter_result_def)
  then have env: "\<forall>p < 3. env_ok int_leveldb (\<lambda>d. d) (ref_db_inv int_key int_order.key_less) three_env \<and>
      member_of 3 p (Some (world_comm 3 p 0 0 0 0 0))"
    by (simp add: env_ok_def three_env_def member_of_def world_comm_def ref_db_inv_def)
  have opts: "options_ok three_opts" by (simp add: options_ok_def three_opts_def key_types)
  have n: "0 < (3 :: nat)" "(3 :: nat) < 536870912" by simp_all
  from startup_ready [where chan = ref_chan and net = "[]", OF pk ref_allgather_ok opts n env ref_idle, of example_globals]
  obtain st where st: "mdhimInit (sym_pack (ref_shmem 0 4000) 0 0 one_comm) (sym_unpack (ref_shmem 0 4000) 0 0 one_comm)
      ref_allgather 3 (\<lambda>_. three_env) three_opts example_globals (\<lambda>p. Some (world_comm 3 p 0 0 0 0 0)) = Some st"
    "\<forall>p < 3. \<exists>su. st p = Some su \<and> su_globals su = init_globals three_opts example_globals \<and> su_rank su = of_nat p \<and>
       same_routing (start_md three_opts 3) (su_md su) \<and>
       su_rangesrv_master su = rs_rank (last (md_rangesrvs (su_md su))) \<and>
       (su_rs su \<noteq> None \<longrightarrow> comm_of_servers (md_rangesrvs (su_md su)) p (su_rs_comm su))" by (elim exE conjE) simp
  obtain su where su: "st 1 = Some su" "same_routing (start_md three_opts 3) (su_md su)"
    using st(2) [rule_format, of 1] by auto
  have "md_rangesrvs (start_md three_opts 3) = [\<lparr>rs_rank = 0, rs_rangesrv_num = 1\<rparr>, \<lparr>rs_rank = 2, rs_rangesrv_num = 2\<rparr>]"
    by (simp add: start_md_def rss_of_def start_num_def server_number_def three_opts_def upt_rec)
  with st(1) su show ?thesis by (auto simp: same_routing_def)
qed

section \<open>Properties\<close>


lemma two_of_three: "(2 :: i32) \<in> of_nat ` {0..<3 :: nat}"
  by (rule image_eqI [of _ _ 2]) simp_all


text \<open>The communicator of the range servers, on the repository's own MPI_Comm_group, MPI_Group_incl and
  MPI_Comm_create: on a process whose list of range servers has distinct ranks, and has its own when it
  is one, range_server_init_comm succeeds; a range server gets a communicator whose members are the
  ranks of the list, in its order, and in which its rank is its place in the list, and nothing else
  changes; on another process nothing changes.\<close>

theorem server_communicator:
  assumes "env_ok store view I e" and "member_of n p (md_comm (su_md su))" and "su_comm_size su = of_nat n"
    and "n < 2147483648" and "length (md_rangesrvs (su_md su)) < 2147483648"
    and "distinct (map rs_rank (md_rangesrvs (su_md su)))"
    and "su_rs su \<noteq> None \<Longrightarrow> of_nat p \<in> rs_rank ` set (md_rangesrvs (su_md su))"
  shows "\<exists>su'. range_server_init_comm e npes (of_nat p) su = (MDHIM_SUCCESS, su') \<and>
    (if su_rs su = None then su' = su
     else \<exists>c g j. su' = su\<lparr>su_rs_comm := Some c\<rparr> \<and> c_groupPtr c = Some g \<and>
       g_size g = of_nat (length (md_rangesrvs (su_md su))) \<and> g_pesInGroup g = map rs_rank (md_rangesrvs (su_md su)) \<and>
       g_rank g = of_nat j \<and> j < length (md_rangesrvs (su_md su)) \<and> rs_rank (md_rangesrvs (su_md su) ! j) = of_nat p)"
proof -
  obtain c where c: "range_server_init_comm e npes (of_nat p) su = (MDHIM_SUCCESS, su\<lparr>su_rs_comm := c\<rparr>)"
    "su_rs su \<noteq> None \<Longrightarrow> comm_of_servers (md_rangesrvs (su_md su)) p c"
    using init_comm_run [OF assms, of npes] by blast
  have "snd (range_server_init_comm e npes (of_nat p) su) = su" if "su_rs su = None"
    using that by (simp add: range_server_init_comm_def Let_def split_beta)
  with c show ?thesis by (auto simp: comm_of_servers_def)
qed

theorem server_communicator_witness:
  "\<forall>rs :: (key \<times> val) list mdhim_rs_t. \<exists>su' c g. range_server_init_comm three_env 3 2
      \<lparr>su_globals = example_globals, su_md = \<lparr>md_comm = Some (world_comm 3 2 0 0 0 0 0), md_key_type = MDHIM_INT_KEY,
         md_num_rangesrvs = 2, md_rangesrvs = [\<lparr>rs_rank = 0, rs_rangesrv_num = 1\<rparr>, \<lparr>rs_rank = 2, rs_rangesrv_num = 2\<rparr>],
         md_stats = None\<rparr>, su_rank = 2, su_comm_size = 3, su_rangesrv_num = 2, su_rs = Some rs,
       su_rangesrv_master = 2, su_rs_comm = None\<rparr> = (MDHIM_SUCCESS, su') \<and>
    su_rs_comm su' = Some c \<and> c_groupPtr c = Some g \<and> g_pesInGroup g = [0, 2]"
proof
  fix rs :: "(key \<times> val) list mdhim_rs_t"
  let ?su = "\<lparr>su_globals = example_globals, su_md = \<lparr>md_comm = Some (world_comm 3 2 0 0 0 0 0), md_key_type = MDHIM_INT_KEY,
         md_num_rangesrvs = 2, md_rangesrvs = [\<lparr>rs_rank = 0, rs_rangesrv_num = 1\<rparr>, \<lparr>rs_rank = 2, rs_rangesrv_num = 2\<rparr>],
         md_stats = None\<rparr>, su_rank = 2, su_comm_size = 3, su_rangesrv_num = 2, su_rs = Some rs,
       su_rangesrv_master = 2, su_rs_comm = None\<rparr>"
  have "snd (s_get_next int_leveldb [] []) = None"
    by (simp add: ref_leveldb_def mdhim_leveldb_get_next_def iter_result_def)
  then have "env_ok int_leveldb (\<lambda>d. d) (ref_db_inv int_key int_order.key_less) three_env"
    by (simp add: env_ok_def three_env_def ref_db_inv_def)
  moreover have "member_of 3 2 (md_comm (su_md ?su))" by (simp add: member_of_def world_comm_def two_of_three)
  ultimately show "\<exists>su' c g. range_server_init_comm three_env 3 2 ?su = (MDHIM_SUCCESS, su') \<and>
      su_rs_comm su' = Some c \<and> c_groupPtr c = Some g \<and> g_pesInGroup g = [0, 2]"
    using server_communicator [of int_leveldb "\<lambda>d. d" "ref_db_inv int_key int_order.key_less" three_env 3 2 ?su 3]
    by auto
qed

end
