(* ===== verification/Server_Threads.thy ===== *)
theory Server_Threads
  imports Server_Props Work_Queue
begin

text \<open>
  The two threads of a range server as a step relation: the listener puts the messages it receives
  into the work queue, the worker takes them out and handles them.  The worker keeps the mutex of
  the queue from the moment it finds work until the queue is empty, so the listener only adds
  while the worker waits; all interleavings of the steps are covered.  Messages that a local client
  adds to the queue are among the incoming ones.
\<close>

section \<open>The step relation\<close>

text \<open>\<open>th_incoming\<close> is what will still be received before MDHIM_CLOSE ends the listener, in order;
  \<open>th_item\<close> the item the worker is handling; \<open>th_done\<close> records what it has handled.\<close>

record 'd threads =
  th_incoming :: "(rs_message \<times> i32) list"
  th_queue :: "rs_message work_queue"
  th_item :: "(nat \<times> rs_message \<times> i32) option"
  th_server :: "'d mdhim_rs_t"
  th_done :: "(rs_message \<times> i32) list"

inductive th_step :: "part_globals \<Rightarrow> (nat \<Rightarrow> blocks \<times> rat) \<Rightarrow> 'd threads \<Rightarrow> 'd threads \<Rightarrow> bool"
  for g env where
  listen: "th_incoming t = (m, s) # rest \<Longrightarrow> th_item t = None \<Longrightarrow>
    (\<And>ps. wq_cells (th_queue t) ps \<Longrightarrow> p \<notin> set ps) \<Longrightarrow>
    th_step g env t (t\<lparr>th_incoming := rest, th_queue := wq_add (th_queue t) p (m, s)\<rparr>)"
| wake: "th_item t = None \<Longrightarrow> wq_take (th_queue t) = (Some e, q) \<Longrightarrow>
    th_step g env t (t\<lparr>th_item := Some e, th_queue := q\<rparr>)"
| serve: "th_item t = Some (p, m, s) \<Longrightarrow>
    handle_work g (fst (env (length (th_done t)))) (snd (env (length (th_done t)))) m s (th_server t) = Some st \<Longrightarrow>
    wq_take (th_queue t) = (e, q) \<Longrightarrow>
    th_step g env t (t\<lparr>th_server := st, th_done := th_done t @ [(m, s)], th_item := e, th_queue := q\<rparr>)"

definition th_init :: "(rs_message \<times> i32) list \<Rightarrow> (nat \<Rightarrow> rs_message work_item) \<Rightarrow> 'd mdhim_rs_t \<Rightarrow> 'd threads" where
  "th_init msgs h st = \<lparr>th_incoming = msgs, th_queue = empty_work_queue h, th_item = None, th_server = st, th_done = []\<rparr>"

section \<open>The sequential run\<close>

fun handle_all :: "part_globals \<Rightarrow> (nat \<Rightarrow> blocks \<times> rat) \<Rightarrow> nat \<Rightarrow> (rs_message \<times> i32) list \<Rightarrow> 'd mdhim_rs_t
    \<Rightarrow> 'd mdhim_rs_t option" where
  "handle_all g env i [] st = Some st"
| "handle_all g env i ((m, s) # ms) st =
     Option.bind (handle_work g (fst (env i)) (snd (env i)) m s st) (handle_all g env (Suc i) ms)"

lemma handle_all_append:
  "handle_all g env i (ms @ ns) st = Option.bind (handle_all g env i ms st) (handle_all g env (i + length ms) ns)"
  by (induction g env i ms st rule: handle_all.induct) (auto split: Option.bind_split)

lemma serve_run_handle_all: "serve_run g env i ms st = Some (as, st') \<Longrightarrow> handle_all g env i ms st = Some st'"
  by (induction g env i ms st arbitrary: as rule: serve_run.induct) (auto split: bind_splits)

section \<open>Invariant and measure\<close>

lemma links_unique: "links h b (p # ps) \<Longrightarrow> links h b' (p # ps') \<Longrightarrow> ps = ps'"
proof (induction ps arbitrary: b b' p ps')
  case Nil
  then show ?case by (cases ps') auto
next
  case (Cons x xs)
  then show ?case by (cases ps') auto
qed

lemma wq_cells_unique: "wq_cells q ps \<Longrightarrow> wq_cells q ps' \<Longrightarrow> ps = ps'"
proof -
  assume q: "wq_cells q ps" "wq_cells q ps'"
  show ?thesis
  proof (cases ps)
    case Nil
    with q show ?thesis by (auto simp: wq_cells_def split: if_splits)
  next
    case (Cons p l)
    then obtain l' where "ps' = p # l'" using q by (cases ps') (auto simp: wq_cells_def)
    moreover have "links (wq_heap q) None ps" "links (wq_heap q) None ps'" using q unfolding wq_cells_def by blast+
    ultimately show ?thesis using links_unique Cons by blast
  qed
qed

definition th_inv ::
  "part_globals \<Rightarrow> (nat \<Rightarrow> blocks \<times> rat) \<Rightarrow> (rs_message \<times> i32) list \<Rightarrow> 'd mdhim_rs_t \<Rightarrow> 'd threads \<Rightarrow>
   (nat \<times> rs_message \<times> i32) list \<Rightarrow> bool" where
  "th_inv g env msgs st t xs \<longleftrightarrow> wq_queued (th_queue t) xs \<and>
     msgs = th_done t @ (case th_item t of None \<Rightarrow> [] | Some e \<Rightarrow> [snd e]) @ map snd xs @ th_incoming t \<and>
     handle_all g env 0 (th_done t) st = Some (th_server t)"

definition th_measure :: "'d threads \<Rightarrow> nat \<Rightarrow> nat" where
  "th_measure t n = 3 * length (th_incoming t) + 2 * n + (case th_item t of None \<Rightarrow> 0 | Some _ \<Rightarrow> 1)"

lemma th_step_inv:
  assumes "th_step g env t t'" and "th_inv g env msgs st t xs"
  shows "\<exists>ys. th_inv g env msgs st t' ys \<and> th_measure t' (length ys) < th_measure t (length xs)"
  using assms(1)
proof (cases rule: th_step.cases)
  case (listen m s rest p)
  have "wq_cells (th_queue t) (rev (map fst xs))" using assms(2) by (simp add: th_inv_def wq_queued_def)
  from listen(4) [OF this] have "p \<notin> fst ` set xs" by simp
  then have "wq_queued (wq_add (th_queue t) p (m, s)) (xs @ [(p, m, s)])"
    using assms(2) by (intro wq.add_queued) (simp_all add: th_inv_def)
  then show ?thesis
    using assms(2) listen by (intro exI [of _ "xs @ [(p, m, s)]"]) (simp add: th_inv_def th_measure_def)
next
  case (wake e q)
  obtain ys where xs: "xs = e # ys" "wq_queued q ys"
    using assms(2) wake wq.take_empty [of "th_queue t"] wq.take_queued [of "th_queue t"]
    by (cases xs) (auto simp: th_inv_def)
  then show ?thesis
    using assms(2) wake by (intro exI [of _ ys]) (simp add: th_inv_def th_measure_def)
next
  case (serve p m s st' e q)
  have h: "handle_all g env 0 (th_done t @ [(m, s)]) st = Some st'"
    using assms(2) serve(3) by (simp add: handle_all_append th_inv_def)
  show ?thesis
  proof (cases xs)
    case Nil
    then have "e = None" "wq_queued q []"
      using assms(2) serve(4) wq.take_empty [of "th_queue t"] by (simp_all add: th_inv_def)
    with Nil assms(2) serve h show ?thesis
      by (intro exI [of _ "[]"]) (simp add: th_inv_def th_measure_def)
  next
    case (Cons x ys)
    then have "e = Some x" "wq_queued q ys"
      using assms(2) serve(4) wq.take_queued [of "th_queue t" x ys] by (simp_all add: th_inv_def)
    with Cons assms(2) serve h show ?thesis
      by (intro exI [of _ ys]) (simp add: th_inv_def th_measure_def)
  qed
qed

lemma th_run_inv:
  assumes "(th_step g env ^^ n) (th_init msgs h st) t"
  shows "\<exists>xs. th_inv g env msgs st t xs \<and> n + th_measure t (length xs) \<le> 3 * length msgs"
  using assms
proof (induction n arbitrary: t)
  case 0
  then show ?case by (intro exI [of _ "[]"]) (auto simp: th_init_def th_inv_def th_measure_def)
next
  case (Suc n)
  then obtain u where u: "(th_step g env ^^ n) (th_init msgs h st) u" "th_step g env u t" by auto
  from Suc.IH [OF u(1)] obtain xs where xs: "th_inv g env msgs st u xs"
    "n + th_measure u (length xs) \<le> 3 * length msgs" by blast
  from th_step_inv [OF u(2) xs(1)] xs(2) show ?case by fastforce
qed

lemma th_stuck:
  assumes inv: "th_inv g env msgs st t xs" and all: "handle_all g env 0 msgs st = Some st'"
    and stuck: "\<And>t'. \<not> th_step g env t t'"
  shows "th_done t = msgs \<and> th_server t = st'"
proof (cases "th_item t")
  case (Some e)
  obtain p m s where e: "e = (p, m, s)" by (cases e)
  have msgs: "msgs = (th_done t @ [(m, s)]) @ map snd xs @ th_incoming t" using inv Some by (simp add: th_inv_def e)
  have "handle_work g (fst (env (length (th_done t)))) (snd (env (length (th_done t)))) m s (th_server t) \<noteq> None"
  proof
    assume "handle_work g (fst (env (length (th_done t)))) (snd (env (length (th_done t)))) m s (th_server t) = None"
    then have "handle_all g env 0 (th_done t @ [(m, s)]) st = None"
      using inv by (simp add: handle_all_append th_inv_def)
    with all show False unfolding msgs handle_all_append [of _ _ _ "th_done t @ [(m, s)]"] by simp
  qed
  then show ?thesis using stuck th_step.serve [of t p m s g env] Some e by (metis not_None_eq prod.collapse)
next
  case None
  have cells: "wq_cells (th_queue t) (rev (map fst xs))" using inv by (simp add: th_inv_def wq_queued_def)
  have "xs = []"
  proof (rule ccontr)
    assume "xs \<noteq> []"
    then obtain e ys where "xs = e # ys" by (cases xs) auto
    then have "fst (wq_take (th_queue t)) = Some e"
      using inv wq.take_queued [of "th_queue t" e ys] by (simp add: th_inv_def)
    then show False using stuck th_step.wake [OF None, of e] by (metis prod.collapse)
  qed
  moreover have "th_incoming t = []"
  proof (rule ccontr)
    assume "th_incoming t \<noteq> []"
    then obtain m s rest where inc: "th_incoming t = (m, s) # rest" by (cases "th_incoming t") auto
    have "p \<notin> set ps" if "wq_cells (th_queue t) ps" for p ps
      using wq_cells_unique [OF that cells] \<open>xs = []\<close> by simp
    then show False using stuck th_step.listen [OF inc None] by blast
  qed
  ultimately show ?thesis using inv None all by (simp add: th_inv_def)
qed

section \<open>Property\<close>

text \<open>C6.  The threads serve every message, in the order of arrival.  Every interleaving of the listener
  and the worker, started with an empty queue, ends after at most three steps for each message;
  and where it ends (no step is possible) all messages have been handled, the state of the
  server is that of handling them one after the other, and its contents are those of the map.\<close>

theorem messages_served_in_order:
  assumes "ordered_store valid cmp store view I" and "store_succeeds store" and "server_inv store view I g st"
    and "requests_ok valid g (sv_md st) (sv_rank st) (sv_value_append st) (map_of (view (sv_db_handle st))) msgs"
    and "(th_step g env ^^ n) (th_init msgs h st) t"
  shows "n \<le> 3 * length msgs \<and>
    ((\<forall>t'. \<not> th_step g env t t') \<longrightarrow> th_done t = msgs \<and>
       (\<exists>answers. serve_run g env 0 msgs st = Some (answers, th_server t)) \<and>
       map_of (view (sv_db_handle (th_server t))) =
         snd (spec_run (sv_value_append st) msgs (map_of (view (sv_db_handle st)))))"
proof -
  obtain xs where xs: "th_inv g env msgs st t xs" "n + th_measure t (length xs) \<le> 3 * length msgs"
    using th_run_inv [OF assms(5)] by blast
  from ordered_store.serve_all [OF assms(1,3,2,4), of env 0] obtain answers st' where
    run: "serve_run g env 0 msgs st = Some (answers, st')"
    "map_of (view (sv_db_handle st')) = snd (spec_run (sv_value_append st) msgs (map_of (view (sv_db_handle st))))"
    by blast
  have "th_done t = msgs \<and> th_server t = st'" if "\<forall>t'. \<not> th_step g env t t'"
    using th_stuck [OF xs(1) serve_run_handle_all [OF run(1)]] that by blast
  then show ?thesis using xs(2) run by auto
qed

lemma maximal_run:
  assumes "\<And>n t. (R ^^ n) s t \<Longrightarrow> n \<le> b"
  shows "\<exists>n t. (R ^^ n) s t \<and> (\<forall>t'. \<not> R t t')"
proof -
  define P where "P n \<longleftrightarrow> (\<exists>t. (R ^^ n) s t)" for n
  have b: "\<forall>n. P n \<longrightarrow> n \<le> b" using assms by (auto simp: P_def)
  have "P 0" by (auto simp: P_def intro: exI [of _ s])
  then have "P (Greatest P)" using b by (intro GreatestI_nat [of P 0 b]) auto
  then obtain t where t: "(R ^^ Greatest P) s t" by (auto simp: P_def)
  have "\<not> R t t'" for t'
  proof
    assume "R t t'"
    with t have "P (Suc (Greatest P))" by (auto simp: P_def)
    then have "Suc (Greatest P) \<le> Greatest P" using b by (intro Greatest_le_nat [of P _ b]) auto
    then show False by simp
  qed
  with t show ?thesis by blast
qed

definition example_messages :: "(rs_message \<times> i32) list" where
  "example_messages = [(PutM (example_put 5 [1, 2]), 3), (DelM \<lparr>dm_mtype = MDHIM_DEL, dm_server_rank = 0, dm_size = 0,
     dm_pad0 = 0, dm_key = (100, enc32 5), dm_key_len = 4, dm_pad1 = 0\<rparr>, 2), (PutM (example_put 6 [3]), 0)]"

definition example_heap :: "nat \<Rightarrow> rs_message work_item" where
  "example_heap p = \<lparr>wi_next = None, wi_prev = None, wi_message = PutM (example_put 0 []), wi_source = 0\<rparr>"

theorem messages_served_in_order_witness:
  "\<exists>n t. (th_step example_globals (\<lambda>_. (example_blocks, 0)) ^^ n)
      (th_init example_messages example_heap (example_server False [])) t \<and> n \<le> 9 \<and>
    th_done t = example_messages \<and> map_of (sv_db_handle (th_server t)) = [enc32 6 \<mapsto> [3]]"
proof -
  let ?run = "\<lambda>n. (th_step example_globals (\<lambda>_. (example_blocks, 0)) ^^ n)
    (th_init example_messages example_heap (example_server False []))"
  have ok: "requests_ok int_key example_globals (sv_md (example_server False [])) (sv_rank (example_server False []))
      (sv_value_append (example_server False [])) (map_of (sv_db_handle (example_server False []))) example_messages"
    by (simp add: example_messages_def example_put_def blob_ok_def int_key_def example_known fits_def)
  have spec: "snd (spec_run False example_messages Map.empty) = [enc32 6 \<mapsto> [3]]"
    by (auto simp: example_messages_def example_put_def put_new_def split_beta fun_eq_iff)
  note served = messages_served_in_order [OF int_leveldb_store int_leveldb_succeeds example_server_inv ok,
      where env = "\<lambda>_. (example_blocks, 0)" and h = example_heap]
  have bound: "n \<le> 9" if "?run n t" for n t
    using served [OF that] by (simp add: example_messages_def)
  then obtain n t where t: "?run n t" "\<forall>t'. \<not> th_step example_globals (\<lambda>_. (example_blocks, 0)) t t'"
    using maximal_run [of "th_step example_globals (\<lambda>_. (example_blocks, 0))"] by blast
  with served [OF t(1)] bound [OF t(1)] spec show ?thesis by auto
qed

end
