(* ===== verification/Pwt_Item.thy ===== *)
theory Pwt_Item
  imports Long_Double "HOL-Library.Monad_Syntax"
begin

text \<open>
  The structures that the processes of \<^verbatim>\<open>pftool\<close> exchange: \<^verbatim>\<open>workitem.c\<close>, \<^verbatim>\<open>workreq.c\<close> and
  \<^verbatim>\<open>perfstat.c\<close> of the library \<^verbatim>\<open>pwt\<close>, \<^verbatim>\<open>pathinfo.c\<close> and \<^verbatim>\<open>fileinfo.c\<close> of its applications.  The work data of an
  item, a \<^verbatim>\<open>void *\<close> in the code, is a value of the datatype \<open>work_data\<close>; every structure keeps the
  number in its first field by which the code tells them apart.  A function pointer is a value of
  \<open>work_fn\<close>; \<^verbatim>\<open>workdata_size\<close> is the size of the structure.  No caller passes a NULL item or structure; the branches for it do nothing.
\<close>

section \<open>Work requests\<close>

definition WORKREQ_TYPE :: int where "WORKREQ_TYPE = 19651122"
definition WORKREQ_DEADLOCK_LIMIT :: int where "WORKREQ_DEADLOCK_LIMIT = 16"

record WorkRequest =
  wr_type :: int
  wr_sleep_seconds :: int

definition workreq_clear :: WorkRequest where
  "workreq_clear = \<lparr>wr_type = WORKREQ_TYPE, wr_sleep_seconds = 0\<rparr>"

definition workreq_accept :: "WorkRequest \<Rightarrow> WorkRequest" where
  "workreq_accept rq = rq\<lparr>wr_sleep_seconds := 0\<rparr>"

definition workreq_deny :: "WorkRequest \<Rightarrow> WorkRequest" where
  "workreq_deny rq =
     (if wr_sleep_seconds rq = 0 then rq\<lparr>wr_sleep_seconds := 2\<rparr>
      else if wr_sleep_seconds rq < WORKREQ_DEADLOCK_LIMIT then rq\<lparr>wr_sleep_seconds := 2 * wr_sleep_seconds rq\<rparr>
      else rq)"

definition workreq_isDeadlocked :: "WorkRequest \<Rightarrow> bool" where
  "workreq_isDeadlocked rq \<longleftrightarrow> wr_sleep_seconds rq \<ge> WORKREQ_DEADLOCK_LIMIT"

definition workreq_notAccepted :: "WorkRequest \<Rightarrow> int" where
  "workreq_notAccepted rq = wr_sleep_seconds rq"

section \<open>Performance statistics\<close>

text \<open>A \<^verbatim>\<open>double\<close> is the rational number it stands for; each operation rounds to 53 significant bits, half to
  even.  A time is in seconds and microseconds.\<close>

definition dbl_round :: "rat \<Rightarrow> rat" where
  "dbl_round x = (if x = 0 then 0
     else let s = 2 powi (52 - ld_exp \<bar>x\<bar>) in (if x < 0 then -1 else 1) * of_int (round_even (\<bar>x\<bar> * s)) / s)"

definition PERFSTAT_TYPE :: int where "PERFSTAT_TYPE = 20130214"
definition PERF_DIRS_READ :: nat where "PERF_DIRS_READ = 0"
definition PERF_FILES_COPIED :: nat where "PERF_FILES_COPIED = 1"
definition PERF_FILES_MATCHED :: nat where "PERF_FILES_MATCHED = 2"
definition PERF_STAT_CALLS :: nat where "PERF_STAT_CALLS = 3"
definition PERF_CMP_CALLS :: nat where "PERF_CMP_CALLS = 4"
definition PERF_MAX_COUNTERS :: nat where "PERF_MAX_COUNTERS = 5"
definition PERF_MAX_SIZES :: nat where "PERF_MAX_SIZES = 1"
definition PERF_START_TIME :: nat where "PERF_START_TIME = 0"
definition PERF_END_TIME :: nat where "PERF_END_TIME = 1"
definition PERF_MAX_TIMES :: nat where "PERF_MAX_TIMES = 2"

lemmas perf_idx = PERF_DIRS_READ_def PERF_FILES_COPIED_def PERF_FILES_MATCHED_def PERF_STAT_CALLS_def PERF_CMP_CALLS_def
  PERF_MAX_COUNTERS_def PERF_MAX_SIZES_def PERF_START_TIME_def PERF_END_TIME_def PERF_MAX_TIMES_def

type_synonym timeval = "int \<times> int"

record PerfStat =
  ps_type :: int
  ps_times :: "timeval list"
  ps_sizes :: "u64 list"
  ps_elapsizes :: "rat list"
  ps_counters :: "u64 list"
  ps_elapcounters :: "rat list"

definition perfstat_new :: PerfStat where
  "perfstat_new = \<lparr>ps_type = PERFSTAT_TYPE, ps_times = replicate PERF_MAX_TIMES (0, 0), ps_sizes = replicate PERF_MAX_SIZES 0,
     ps_elapsizes = replicate PERF_MAX_SIZES 0, ps_counters = replicate PERF_MAX_COUNTERS 0,
     ps_elapcounters = replicate PERF_MAX_COUNTERS 0\<rparr>"

definition perfstat_inc_bytes :: "PerfStat \<Rightarrow> nat \<Rightarrow> u64 \<Rightarrow> PerfStat" where
  "perfstat_inc_bytes ps idx bcount =
     (if idx < PERF_MAX_SIZES then ps\<lparr>ps_sizes := (ps_sizes ps)[idx := ps_sizes ps ! idx + bcount]\<rparr> else ps)"

definition perfstat_inc_counter :: "PerfStat \<Rightarrow> nat \<Rightarrow> PerfStat" where
  "perfstat_inc_counter ps idx =
     (if idx < PERF_MAX_COUNTERS then ps\<lparr>ps_counters := (ps_counters ps)[idx := ps_counters ps ! idx + 1]\<rparr> else ps)"

definition perfstat_set_time :: "PerfStat \<Rightarrow> nat \<Rightarrow> timeval \<Rightarrow> PerfStat" where
  "perfstat_set_time ps idx now = (if idx < PERF_MAX_TIMES then ps\<lparr>ps_times := (ps_times ps)[idx := now]\<rparr> else ps)"

definition seconds :: "timeval \<Rightarrow> rat" where
  "seconds t = dbl_round (dbl_round (dbl_round (dbl_round (of_int (fst t)) * 1000000) + of_int (snd t)) / 1000000)"

definition perfstat_compute_elapsetime :: "PerfStat \<Rightarrow> timeval \<Rightarrow> rat \<times> PerfStat" where
  "perfstat_compute_elapsetime ps now =
     (if ps_times ps ! PERF_START_TIME = (0, 0) then (-1, ps)
      else let ps = (if ps_times ps ! PERF_END_TIME = (0, 0) then perfstat_set_time ps PERF_END_TIME now else ps)
        in (dbl_round (seconds (ps_times ps ! PERF_END_TIME) - seconds (ps_times ps ! PERF_START_TIME)), ps))"

definition perfstat_set_elapcounter :: "PerfStat \<Rightarrow> nat \<Rightarrow> timeval \<Rightarrow> PerfStat" where
  "perfstat_set_elapcounter ps idx now =
     (if idx < PERF_MAX_COUNTERS then let (t, ps) = perfstat_compute_elapsetime ps now
        in ps\<lparr>ps_elapcounters := (ps_elapcounters ps)[idx := t]\<rparr>
      else ps)"

definition perfstat_set_elapbytes :: "PerfStat \<Rightarrow> nat \<Rightarrow> timeval \<Rightarrow> PerfStat" where
  "perfstat_set_elapbytes ps idx now =
     (if idx < PERF_MAX_SIZES then let (t, ps) = perfstat_compute_elapsetime ps now
        in ps\<lparr>ps_elapsizes := (ps_elapsizes ps)[idx := t]\<rparr>
      else ps)"

definition perfstat_add :: "PerfStat \<Rightarrow> PerfStat \<Rightarrow> PerfStat" where
  "perfstat_add s i =
     s\<lparr>ps_counters := map (\<lambda>c. ps_counters s ! c + ps_counters i ! c) [0..<PERF_MAX_COUNTERS],
       ps_elapcounters := map (\<lambda>c. dbl_round (ps_elapcounters s ! c + ps_elapcounters i ! c)) [0..<PERF_MAX_COUNTERS],
       ps_sizes := map (\<lambda>k. ps_sizes s ! k + ps_sizes i ! k) [0..<PERF_MAX_SIZES],
       ps_elapsizes := map (\<lambda>k. dbl_round (ps_elapsizes s ! k + ps_elapsizes i ! k)) [0..<PERF_MAX_SIZES]\<rparr>"

section \<open>Paths\<close>

definition PATHSIZE_PLUS :: nat where "PATHSIZE_PLUS = 4126"
definition PATHINFO_TYPE :: int where "PATHINFO_TYPE = 19631111"
definition PATHWORK_TYPE :: int where "PATHWORK_TYPE = 19631125"
definition PATH_BUFFER_MAX :: nat where "PATH_BUFFER_MAX = 50"

type_synonym path = string

text \<open>A path as it is put into an array of \<^verbatim>\<open>PATHSIZE_PLUS\<close> characters; \<open>None\<close> when no room is left for the NUL.\<close>

definition copy_path :: "path \<Rightarrow> path option" where
  "copy_path p = (if length p < PATHSIZE_PLUS then Some p else None)"

record PathInfo =
  pi_type :: int
  pi_path :: path

record PathWork =
  pw_type :: int
  pw_size :: nat
  pw_buf :: "PathInfo list"

definition pathwork_clear :: PathWork where
  "pathwork_clear = \<lparr>pw_type = PATHWORK_TYPE, pw_size = 0,
     pw_buf = replicate PATH_BUFFER_MAX \<lparr>pi_type = PATHINFO_TYPE, pi_path = []\<rparr>\<rparr>"

text \<open>\<open>None\<close> is a write behind the buffer.\<close>

definition pathwork_add_path :: "PathWork \<Rightarrow> path \<Rightarrow> PathWork option" where
  "pathwork_add_path pw newpath = do {
     p \<leftarrow> copy_path newpath;
     if pw_size pw < length (pw_buf pw)
     then Some (pw\<lparr>pw_buf := (pw_buf pw)[pw_size pw := (pw_buf pw ! pw_size pw)\<lparr>pi_path := p\<rparr>], pw_size := Suc (pw_size pw)\<rparr>)
     else None }"

definition pathwork_isFull :: "PathWork \<Rightarrow> bool" where
  "pathwork_isFull pw \<longleftrightarrow> PATH_BUFFER_MAX \<le> pw_size pw"

definition pathwork_isEmpty :: "PathWork \<Rightarrow> bool" where
  "pathwork_isEmpty pw \<longleftrightarrow> pw_size pw = 0"

section \<open>Files\<close>

definition FILEINFO_TYPE :: int where "FILEINFO_TYPE = 19641111"
definition FILEPAIR_TYPE :: int where "FILEPAIR_TYPE = 19640704"
definition FILEWORKSTAT_TYPE :: int where "FILEWORKSTAT_TYPE = 19641019"

text \<open>The fields of \<^verbatim>\<open>struct stat\<close> the program reads; \<open>st_isdir\<close> is \<^verbatim>\<open>S_ISDIR(st_mode)\<close>.\<close>

record stat_buf =
  st_isdir :: bool
  st_size :: int
  st_mtime :: int
  st_ctime :: int

definition zero_stat :: stat_buf where
  "zero_stat = \<lparr>st_isdir = False, st_size = 0, st_mtime = 0, st_ctime = 0\<rparr>"

record FileInfo =
  fi_type :: int
  fi_exists :: int
  fi_path :: path
  fi_st :: stat_buf
  fi_offset :: int
  fi_length :: u64

record FilePair =
  fp_type :: int
  fp_chunknum :: int
  fp_matched :: bool
  fp_src :: FileInfo
  fp_dest :: FileInfo

record FileWorkStat =
  fw_type :: int
  fw_files :: FilePair
  fw_perf :: PerfStat

definition fileinfo_init :: "path \<Rightarrow> stat_buf option \<Rightarrow> FileInfo" where
  "fileinfo_init pname statinfo =
     (case statinfo of
        Some st \<Rightarrow> \<lparr>fi_type = FILEINFO_TYPE, fi_exists = of_bool (st_ctime st > 0), fi_path = pname, fi_st = st, fi_offset = 0, fi_length = 0\<rparr>
      | None \<Rightarrow> \<lparr>fi_type = FILEINFO_TYPE, fi_exists = -1, fi_path = pname, fi_st = zero_stat, fi_offset = 0, fi_length = 0\<rparr>)"

definition filepair_new :: "FileInfo \<Rightarrow> FileInfo \<Rightarrow> FilePair" where
  "filepair_new src dest = \<lparr>fp_type = FILEPAIR_TYPE, fp_chunknum = -1, fp_matched = False, fp_src = src, fp_dest = dest\<rparr>"

definition fileworkstat_init :: "FilePair \<Rightarrow> PerfStat \<Rightarrow> FileWorkStat" where
  "fileworkstat_init fpair perf = \<lparr>fw_type = FILEWORKSTAT_TYPE, fw_files = fpair, fw_perf = perf\<rparr>"

section \<open>Work items\<close>

datatype work_data = Work_Request WorkRequest | Work_Perf PerfStat | Work_Paths PathWork | Work_Pair FilePair
  | Work_Stat FileWorkStat

datatype work_fn = manager_workdone | worker_exit | treewalk_readdir | treewalk_statpath | cmp_workdone | cmp_addchunkfile
  | cmp_compare

record WorkItem =
  do_work :: "work_fn option"
  originator :: int
  manager_run :: bool
  qidx :: int
  it_path :: path
  workdata :: "work_data option"

text \<open>An item after \<^verbatim>\<open>bzero\<close>.\<close>

definition zero_item :: WorkItem where
  "zero_item = \<lparr>do_work = None, originator = 0, manager_run = False, qidx = 0, it_path = [], workdata = None\<rparr>"

definition workitem_new :: "int \<Rightarrow> WorkItem" where
  "workitem_new orig_rank = zero_item\<lparr>originator := orig_rank\<rparr>"

definition workitem_update_dowork :: "WorkItem \<Rightarrow> work_fn \<Rightarrow> WorkItem" where
  "workitem_update_dowork item f = item\<lparr>do_work := Some f\<rparr>"

definition workitem_update_originator :: "WorkItem \<Rightarrow> int \<Rightarrow> WorkItem" where
  "workitem_update_originator item orig_rank = item\<lparr>originator := orig_rank\<rparr>"

definition workitem_update_path :: "WorkItem \<Rightarrow> path \<Rightarrow> WorkItem option" where
  "workitem_update_path item newpath = map_option (\<lambda>p. item\<lparr>it_path := p\<rparr>) (copy_path newpath)"

definition workitem_update_queue :: "WorkItem \<Rightarrow> int \<Rightarrow> WorkItem" where
  "workitem_update_queue item q = item\<lparr>qidx := q\<rparr>"

definition workitem_set_managerrun :: "WorkItem \<Rightarrow> bool \<Rightarrow> WorkItem" where
  "workitem_set_managerrun item flagval = item\<lparr>manager_run := flagval\<rparr>"

definition workitem_update_work :: "WorkItem \<Rightarrow> work_data \<Rightarrow> WorkItem" where
  "workitem_update_work item buf = item\<lparr>workdata := Some buf\<rparr>"

text \<open>The first field of the structure behind \<open>workdata\<close>.\<close>

fun work_type :: "work_data \<Rightarrow> int" where
  "work_type (Work_Request r) = wr_type r"
| "work_type (Work_Perf ps) = ps_type ps"
| "work_type (Work_Paths pw) = pw_type pw"
| "work_type (Work_Pair fp) = fp_type fp"
| "work_type (Work_Stat fw) = fw_type fw"

definition has_work :: "int \<Rightarrow> WorkItem \<Rightarrow> bool" where
  "has_work ty item = (case workdata item of None \<Rightarrow> False | Some d \<Rightarrow> work_type d = ty)"

definition workitem_hasWorkRequest :: "WorkItem \<Rightarrow> bool" where
  "workitem_hasWorkRequest = has_work WORKREQ_TYPE"
definition workitem_hasPerfStat :: "WorkItem \<Rightarrow> bool" where
  "workitem_hasPerfStat = has_work PERFSTAT_TYPE"
definition workitem_hasPathbuffer :: "WorkItem \<Rightarrow> bool" where
  "workitem_hasPathbuffer = has_work PATHWORK_TYPE"
definition workitem_hasFilepair :: "WorkItem \<Rightarrow> bool" where
  "workitem_hasFilepair = has_work FILEPAIR_TYPE"
definition workitem_hasFileworkstat :: "WorkItem \<Rightarrow> bool" where
  "workitem_hasFileworkstat = has_work FILEWORKSTAT_TYPE"

text \<open>A pointer to the work data used as a pointer to one of the structures; \<open>None\<close> when it is another, or NULL.\<close>

definition workitem_get_workreq :: "WorkItem \<Rightarrow> WorkRequest option" where
  "workitem_get_workreq item = (case workdata item of Some (Work_Request r) \<Rightarrow> Some r | _ \<Rightarrow> None)"
definition workitem_get_perfstat :: "WorkItem \<Rightarrow> PerfStat option" where
  "workitem_get_perfstat item = (case workdata item of Some (Work_Perf ps) \<Rightarrow> Some ps | _ \<Rightarrow> None)"
definition workitem_get_pathbuffer :: "WorkItem \<Rightarrow> PathWork option" where
  "workitem_get_pathbuffer item = (case workdata item of Some (Work_Paths pw) \<Rightarrow> Some pw | _ \<Rightarrow> None)"
definition workitem_get_filepair :: "WorkItem \<Rightarrow> FilePair option" where
  "workitem_get_filepair item = (case workdata item of Some (Work_Pair fp) \<Rightarrow> Some fp | _ \<Rightarrow> None)"
definition workitem_get_fileworkstat :: "WorkItem \<Rightarrow> FileWorkStat option" where
  "workitem_get_fileworkstat item = (case workdata item of Some (Work_Stat fw) \<Rightarrow> Some fw | _ \<Rightarrow> None)"

definition workreq_attach :: "WorkRequest \<Rightarrow> WorkItem \<Rightarrow> WorkItem" where
  "workreq_attach rq item = workitem_update_work item (Work_Request rq)"
definition perfstat_attach :: "PerfStat \<Rightarrow> WorkItem \<Rightarrow> WorkItem" where
  "perfstat_attach ps item = workitem_update_work item (Work_Perf ps)"
definition pathwork_attach :: "PathWork \<Rightarrow> WorkItem \<Rightarrow> WorkItem" where
  "pathwork_attach pw item = workitem_update_work item (Work_Paths pw)"
definition filepair_attach :: "FilePair \<Rightarrow> WorkItem \<Rightarrow> WorkItem" where
  "filepair_attach fp item = workitem_update_work item (Work_Pair fp)"
definition fileworkstat_attach :: "FileWorkStat \<Rightarrow> WorkItem \<Rightarrow> WorkItem" where
  "fileworkstat_attach fw item = workitem_update_work item (Work_Stat fw)"

named_theorems item_simps

lemmas [item_simps] = zero_item_def workitem_new_def workitem_update_dowork_def workitem_update_originator_def
  workitem_update_queue_def workitem_set_managerrun_def workitem_update_work_def has_work_def workitem_hasWorkRequest_def
  workitem_hasPerfStat_def workitem_hasPathbuffer_def workitem_hasFilepair_def workitem_hasFileworkstat_def
  workitem_get_workreq_def workitem_get_perfstat_def workitem_get_pathbuffer_def workitem_get_filepair_def
  workitem_get_fileworkstat_def workreq_attach_def perfstat_attach_def pathwork_attach_def filepair_attach_def
  fileworkstat_attach_def

lemmas type_marks = WORKREQ_TYPE_def PERFSTAT_TYPE_def PATHWORK_TYPE_def FILEPAIR_TYPE_def FILEWORKSTAT_TYPE_def

section \<open>Filling a path buffer\<close>

text \<open>The paths in a buffer, and what is well formed.\<close>

definition pw_paths :: "PathWork \<Rightarrow> path list" where
  "pw_paths pw = map pi_path (take (pw_size pw) (pw_buf pw))"

definition pathwork_ok :: "PathWork \<Rightarrow> bool" where
  "pathwork_ok pw \<longleftrightarrow> pw_type pw = PATHWORK_TYPE \<and> length (pw_buf pw) = PATH_BUFFER_MAX \<and> pw_size pw \<le> PATH_BUFFER_MAX"

lemma pathwork_clear_ok [simp]: "pathwork_ok pathwork_clear" "pw_paths pathwork_clear = []" "pw_size pathwork_clear = 0"
  by (simp_all add: pathwork_ok_def pathwork_clear_def pw_paths_def PATH_BUFFER_MAX_def)

lemma length_pw_paths: "pathwork_ok pw \<Longrightarrow> length (pw_paths pw) = pw_size pw"
  by (simp add: pathwork_ok_def pw_paths_def)

lemma pathwork_add_path_run:
  assumes "pathwork_ok pw" and "\<not> pathwork_isFull pw" and "length p < PATHSIZE_PLUS"
  obtains pw' where "pathwork_add_path pw p = Some pw'" "pathwork_ok pw'" "pw_paths pw' = pw_paths pw @ [p]"
proof -
  have n: "pw_size pw < length (pw_buf pw)" using assms(1,2) by (simp add: pathwork_ok_def pathwork_isFull_def)
  with assms that show thesis
    by (simp add: pathwork_add_path_def copy_path_def pathwork_ok_def pw_paths_def take_Suc_conv_app_nth)
qed

lemma workreq_deny_bounds:
  assumes "0 \<le> wr_sleep_seconds r" and "wr_sleep_seconds r \<le> 30"
  shows "0 < wr_sleep_seconds (workreq_deny r)" and "wr_sleep_seconds (workreq_deny r) \<le> 30"
  using assms by (auto simp: workreq_deny_def WORKREQ_DEADLOCK_LIMIT_def)

lemma perfstat_add_counter:
  "c < PERF_MAX_COUNTERS \<Longrightarrow> ps_counters (perfstat_add s i) ! c = ps_counters s ! c + ps_counters i ! c"
  by (simp add: perfstat_add_def)

end
