(* ===== verification/Pwt_Workq.thy ===== *)
theory Pwt_Workq
  imports Pwt_Item Work_Queue
begin

text \<open>
  \<^verbatim>\<open>workq.c\<close>: the work queues of the manager of \<^verbatim>\<open>pftool\<close>, linked lists in a heap with a count and a limit.
  They are another model of the interface \<open>fifo\<close> of \<open>Work_Queue\<close>.
\<close>

record 'i WorkQEntry =
  en_item :: 'i
  en_next :: "nat option"

record 'i WorkQ =
  q_heap :: "nat \<Rightarrow> 'i WorkQEntry"
  q_count :: int
  q_max :: int
  q_head :: "nat option"
  q_tail :: "nat option"

definition workq_new :: "(nat \<Rightarrow> 'i WorkQEntry) \<Rightarrow> 'i WorkQ" where
  "workq_new h = \<lparr>q_heap = h, q_count = 0, q_max = -1, q_head = None, q_tail = None\<rparr>"

text \<open>\<open>p\<close> is the memory of the new entry.\<close>

definition workq_add :: "'i WorkQ \<Rightarrow> nat \<Rightarrow> 'i \<Rightarrow> 'i WorkQ" where
  "workq_add q p item =
     (let h = (q_heap q)(p := \<lparr>en_item = item, en_next = None\<rparr>);
          h = (case q_tail q of Some t \<Rightarrow> h(t := (h t)\<lparr>en_next := Some p\<rparr>) | None \<Rightarrow> h)
      in q\<lparr>q_heap := h, q_tail := Some p, q_head := if q_count q = 0 then Some p else q_head q, q_count := q_count q + 1\<rparr>)"

definition workq_remove :: "'i WorkQ \<Rightarrow> 'i option \<times> 'i WorkQ" where
  "workq_remove q =
     (case q_head q of None \<Rightarrow> (None, q)
      | Some entry \<Rightarrow>
          let q' = q\<lparr>q_head := en_next (q_heap q entry), q_count := q_count q - 1\<rparr>;
              q' = (if q_count q' \<le> 0 then q'\<lparr>q_tail := q_head q', q_count := 0\<rparr> else q')
          in (Some (en_item (q_heap q entry)), q'))"

definition workq_empty :: "'i WorkQ \<Rightarrow> bool" where
  "workq_empty q \<longleftrightarrow> q_count q = 0 \<and> q_head q = None"

definition workq_full :: "'i WorkQ \<Rightarrow> bool" where
  "workq_full q \<longleftrightarrow> q_max q \<ge> 0 \<and> q_max q \<le> q_count q"

definition workq_set_max :: "'i WorkQ \<Rightarrow> int \<Rightarrow> 'i WorkQ" where
  "workq_set_max q l = q\<lparr>q_max := l\<rparr>"

section \<open>The entries of a queue\<close>

fun chained :: "(nat \<Rightarrow> 'i WorkQEntry) \<Rightarrow> nat option \<Rightarrow> (nat \<times> 'i) list \<Rightarrow> bool" where
  "chained h start [] = (start = None)"
| "chained h start ((p, x) # xs) = (start = Some p \<and> en_item (h p) = x \<and> chained h (en_next (h p)) xs)"

definition queue_holds :: "'i WorkQ \<Rightarrow> (nat \<times> 'i) list \<Rightarrow> bool" where
  "queue_holds q xs \<longleftrightarrow> distinct (map fst xs) \<and> chained (q_heap q) (q_head q) xs \<and> q_count q = int (length xs) \<and>
     q_tail q = (if xs = [] then None else Some (fst (last xs)))"

lemma queue_holds_new [simp]: "queue_holds (workq_new h) []"
  by (simp add: queue_holds_def workq_new_def)

lemma chained_cong:
  "(\<And>p. p \<in> fst ` set xs \<Longrightarrow> h p = h' p) \<Longrightarrow> chained h s xs = chained h' s xs"
  by (induction h s xs rule: chained.induct) auto

lemma chained_snoc:
  assumes "chained h s (xs @ [(t, y)])" and "distinct (map fst (xs @ [(t, y)]))" and "p \<notin> fst ` set (xs @ [(t, y)])"
  shows "chained (h(p := \<lparr>en_item = x, en_next = None\<rparr>, t := (h t)\<lparr>en_next := Some p\<rparr>)) s (xs @ [(t, y), (p, x)])"
  using assms
proof (induction xs arbitrary: s)
  case (Cons e xs)
  then show ?case by (cases e) auto
qed auto

lemma queue_holds_add:
  assumes "queue_holds q xs" and "p \<notin> fst ` set xs"
  shows "queue_holds (workq_add q p x) (xs @ [(p, x)])"
proof (cases xs rule: rev_cases)
  case Nil
  with assms show ?thesis by (simp add: queue_holds_def workq_add_def)
next
  case (snoc ys e)
  obtain t y where e: "e = (t, y)" by (cases e)
  have ne: "t \<noteq> p" using assms(2) snoc e by auto
  have "chained ((q_heap q)(p := \<lparr>en_item = x, en_next = None\<rparr>, t := (q_heap q t)\<lparr>en_next := Some p\<rparr>)) (q_head q)
      (ys @ [(t, y), (p, x)])"
    using assms snoc e by (intro chained_snoc) (auto simp: queue_holds_def)
  then show ?thesis using assms snoc e ne by (auto simp: queue_holds_def workq_add_def Let_def)
qed

lemma queue_holds_remove:
  shows "queue_holds q [] \<Longrightarrow> workq_remove q = (None, q)"
    and "queue_holds q ((p, x) # xs) \<Longrightarrow>
      fst (workq_remove q) = Some x \<and> queue_holds (snd (workq_remove q)) xs \<and> q_max (snd (workq_remove q)) = q_max q"
proof -
  show "queue_holds q [] \<Longrightarrow> workq_remove q = (None, q)" by (simp add: queue_holds_def workq_remove_def)
  show "fst (workq_remove q) = Some x \<and> queue_holds (snd (workq_remove q)) xs \<and> q_max (snd (workq_remove q)) = q_max q"
    if "queue_holds q ((p, x) # xs)"
    using that by (cases xs) (auto simp: queue_holds_def workq_remove_def Let_def)
qed

lemma queue_holds_empty: "queue_holds q xs \<Longrightarrow> workq_empty q \<longleftrightarrow> xs = []"
  by (cases xs) (auto simp: queue_holds_def workq_empty_def)

lemma queue_holds_full: "queue_holds q xs \<Longrightarrow> workq_full q \<longleftrightarrow> 0 \<le> q_max q \<and> q_max q \<le> int (length xs)"
  by (simp add: queue_holds_def workq_full_def)

lemma workq_frame [simp]:
  "q_max (workq_add q p x) = q_max q" "q_max (workq_new h) = -1"
  by (simp_all add: workq_add_def workq_new_def Let_def)

text \<open>The interface of a first-in first-out queue, with the address of the entry that is taken.\<close>

definition workq_take :: "'i WorkQ \<Rightarrow> (nat \<times> 'i) option \<times> 'i WorkQ" where
  "workq_take q = (let (item, q') = workq_remove q in (case item of None \<Rightarrow> None | Some x \<Rightarrow> Some (the (q_head q), x), q'))"

interpretation pwt: fifo workq_add workq_take queue_holds
proof
  fix q :: "'i WorkQ" and xs p x
  show "queue_holds (workq_add q p x) (xs @ [(p, x)])" if "queue_holds q xs" "p \<notin> fst ` set xs"
    using queue_holds_add [OF that] .
  show "fst (workq_take q) = None \<and> queue_holds (snd (workq_take q)) []" if "queue_holds q []"
    using that queue_holds_remove(1) [OF that] by (simp add: workq_take_def)
  fix e
  show "fst (workq_take q) = Some e \<and> queue_holds (snd (workq_take q)) xs" if "queue_holds q (e # xs)"
  proof -
    obtain p x where e: "e = (p, x)" by (cases e)
    have "q_head q = Some p" using that e by (simp add: queue_holds_def)
    then show ?thesis using queue_holds_remove(2) [OF that [unfolded e]] e
      by (cases "workq_remove q") (simp add: workq_take_def)
  qed
qed

text \<open>The work queues of the manager are first in, first out: for every sequence of additions and
  removals on a new queue, in which no entry is put at the address of one still queued, the items come out
  as from a plain list, and the count stays the number of queued items.\<close>

theorem workq_is_fifo:
  assumes "cells_fresh cs []"
  shows "fst (queue_run workq_add workq_take cs (workq_new h)) = fst (fifo_run cs []) \<and>
    q_count (snd (queue_run workq_add workq_take cs (workq_new h))) = int (length (snd (fifo_run cs [])))"
  using pwt.run_refines [OF queue_holds_new assms] by (auto simp: queue_holds_def)

theorem workq_is_fifo_witness:
  "fst (queue_run workq_add workq_take [Add 8 CHR ''a'', Add 9 CHR ''b'', Take, Add 8 CHR ''c'', Take, Take, Take]
     (workq_new (\<lambda>_. \<lparr>en_item = CHR ''z'', en_next = None\<rparr>))) =
   [Some (8, CHR ''a''), Some (9, CHR ''b''), Some (8, CHR ''c''), None]"
  by (subst workq_is_fifo [THEN conjunct1]) simp_all

end
