(* ===== verification/Pwt_Sched.thy ===== *)
theory Pwt_Sched
  imports Pwt_Workq
begin

text \<open>
  \<^verbatim>\<open>scheduler.c\<close>: the table of processes and the work queues of the manager.  The application never sets the
  function pointers \<^verbatim>\<open>schedule_work\<close> and \<^verbatim>\<open>assign_work\<close>, so they are scheduler_addwork and scheduler_getwork.
\<close>

record 'a options =
  o_rank :: int
  o_nproc :: int
  o_nqueues :: int
  o_app_ops :: 'a

record Scheduler =
  sc_stop_proc :: "work_fn option"
  sc_process_count :: int
  sc_processes :: "int list"
  sc_workq_count :: int
  sc_workq :: "WorkItem WorkQ list"

section \<open>The table of processes\<close>

definition processing_initialize :: "int \<Rightarrow> int list" where
  "processing_initialize nproc = replicate (nat nproc) 0"

definition processing_get_idle :: "int list \<Rightarrow> nat \<Rightarrow> nat \<Rightarrow> int" where
  "processing_get_idle proc_status sidx nidx =
     (case find (\<lambda>i. proc_status ! i = 0) [sidx..<sidx + nidx] of Some i \<Rightarrow> int i | None \<Rightarrow> -1)"

text \<open>\<open>None\<close>: the number of the process is outside of the table.\<close>

definition processing_set :: "int \<Rightarrow> int list \<Rightarrow> int \<Rightarrow> int list option" where
  "processing_set v proc_status proc_num =
     (if 0 \<le> proc_num \<and> nat proc_num < length proc_status then Some (proc_status[nat proc_num := v]) else None)"

definition processing_set_active :: "int list \<Rightarrow> int \<Rightarrow> int list option" where
  "processing_set_active = processing_set 1"

definition processing_set_idle :: "int list \<Rightarrow> int \<Rightarrow> int list option" where
  "processing_set_idle = processing_set 0"

definition processing_complete :: "int list \<Rightarrow> nat \<Rightarrow> bool" where
  "processing_complete proc_status nproc \<longleftrightarrow> length (filter (\<lambda>i. proc_status ! i = 1) [0..<nproc]) \<le> 1"

section \<open>The scheduler\<close>

definition scheduler_new :: "(nat \<Rightarrow> WorkItem WorkQEntry) \<Rightarrow> 'a options \<Rightarrow> Scheduler option" where
  "scheduler_new h opt = do {
     processes \<leftarrow> processing_set_active (processing_initialize (o_nproc opt)) (o_rank opt);
     let workq_count = (if o_nqueues opt = 0 then 1 else o_nqueues opt);
     Some \<lparr>sc_stop_proc = None, sc_process_count = o_nproc opt, sc_processes = processes,
       sc_workq_count = workq_count, sc_workq = replicate (nat workq_count) (workq_new h)\<rparr> }"

definition scheduler_update_stopproc :: "Scheduler \<Rightarrow> work_fn \<Rightarrow> Scheduler" where
  "scheduler_update_stopproc sched f = sched\<lparr>sc_stop_proc := Some f\<rparr>"

definition scheduler_set_processidle :: "Scheduler \<Rightarrow> int \<Rightarrow> Scheduler option" where
  "scheduler_set_processidle sched proc_num =
     map_option (\<lambda>ps. sched\<lparr>sc_processes := ps\<rparr>) (processing_set_idle (sc_processes sched) proc_num)"

text \<open>The items scheduler_stop_processes sends, with their targets; send_workitem sets the originator.\<close>

definition scheduler_stop_processes :: "Scheduler \<Rightarrow> int \<Rightarrow> (int \<times> WorkItem) list" where
  "scheduler_stop_processes sched src_rank =
     map (\<lambda>i. (int i, zero_item\<lparr>originator := src_rank, do_work := sc_stop_proc sched\<rparr>))
       (filter (\<lambda>i. int i \<noteq> src_rank) [0..<nat (sc_process_count sched)])"

definition has_queued :: "Scheduler \<Rightarrow> bool" where
  "has_queued sched \<longleftrightarrow> list_ex (\<lambda>i. \<not> workq_empty (sc_workq sched ! i)) [0..<nat (sc_workq_count sched)]"

definition scheduler_canAssignWork :: "Scheduler \<Rightarrow> bool" where
  "scheduler_canAssignWork sched \<longleftrightarrow> has_queued sched \<and>
     processing_get_idle (sc_processes sched) 0 (nat (sc_process_count sched)) \<ge> 0"

definition scheduler_workDone :: "Scheduler \<Rightarrow> bool" where
  "scheduler_workDone sched \<longleftrightarrow> \<not> has_queued sched \<and> processing_complete (sc_processes sched) (nat (sc_process_count sched))"

text \<open>The queue of an item; \<open>None\<close> is an index below 0.\<close>

definition queue_index :: "Scheduler \<Rightarrow> WorkItem \<Rightarrow> nat option" where
  "queue_index sched item =
     (let idx = (if qidx item \<ge> sc_workq_count sched then sc_workq_count sched - 1 else qidx item)
      in if idx < 0 then None else Some (nat idx))"

definition enqueue :: "Scheduler \<Rightarrow> nat \<Rightarrow> nat \<Rightarrow> WorkItem \<Rightarrow> Scheduler" where
  "enqueue sched idx p item = sched\<lparr>sc_workq := (sc_workq sched)[idx := workq_add (sc_workq sched ! idx) p item]\<rparr>"

text \<open>scheduler_ackwork, up to the point where it sends the answer: whether the queue is full, the answer and
  the queue into which the work goes that it receives next when the queue is not full.\<close>

definition scheduler_ackwork :: "Scheduler \<Rightarrow> WorkItem \<Rightarrow> (bool \<times> WorkItem \<times> nat) option" where
  "scheduler_ackwork sched item = do {
     idx \<leftarrow> queue_index sched item;
     request \<leftarrow> workitem_get_workreq item;
     let isFull = workq_full (sc_workq sched ! idx);
     Some (isFull, item\<lparr>workdata := Some (Work_Request (if isFull then workreq_deny request else workreq_accept request))\<rparr>, idx) }"

datatype addwork = Queued Scheduler | Answer bool WorkItem nat

definition scheduler_addwork :: "Scheduler \<Rightarrow> nat \<Rightarrow> WorkItem \<Rightarrow> addwork option" where
  "scheduler_addwork sched p item = do {
     idx \<leftarrow> queue_index sched item;
     if workitem_hasWorkRequest item
     then map_option (\<lambda>(isFull, answer, idx). Answer isFull answer idx) (scheduler_ackwork sched item)
     else Some (Queued (enqueue sched idx p item)) }"

fun getwork_loop :: "Scheduler \<Rightarrow> nat list \<Rightarrow> WorkItem option \<times> Scheduler" where
  "getwork_loop sched [] = (None, sched)"
| "getwork_loop sched (i # is) =
     (if workq_empty (sc_workq sched ! i) then getwork_loop sched is
      else let (item, q) = workq_remove (sc_workq sched ! i); sched = sched\<lparr>sc_workq := (sc_workq sched)[i := q]\<rparr>
        in if item \<noteq> None then (item, sched) else getwork_loop sched is)"

text \<open>The item and the process it is for; rank -1 when there is none.  \<open>None\<close> cannot happen, the process comes
  from the table.\<close>

definition scheduler_getwork :: "Scheduler \<Rightarrow> (WorkItem option \<times> int \<times> Scheduler) option" where
  "scheduler_getwork sched =
     (let idle_proc = processing_get_idle (sc_processes sched) 0 (nat (sc_process_count sched))
      in if idle_proc < 0 then Some (None, -1, sched)
         else let (item, sched) = getwork_loop sched (rev [0..<nat (sc_workq_count sched)])
           in if item = None then Some (None, -1, sched)
              else map_option (\<lambda>ps. (item, idle_proc, sched\<lparr>sc_processes := ps\<rparr>))
                (processing_set_active (sc_processes sched) idle_proc))"

section \<open>What a scheduler holds\<close>

type_synonym queues = "(nat \<times> WorkItem) list list"

definition sched_holds :: "Scheduler \<Rightarrow> queues \<Rightarrow> bool" where
  "sched_holds sched xss \<longleftrightarrow> length (sc_workq sched) = length xss \<and> 0 < length xss \<and>
     (\<forall>i < length xss. queue_holds (sc_workq sched ! i) (xss ! i) \<and> q_max (sc_workq sched ! i) < 0) \<and>
     sc_workq_count sched = int (length xss) \<and> sc_process_count sched = int (length (sc_processes sched))"

lemma sched_holds_new:
  assumes "scheduler_new h opt = Some sched" and "0 \<le> o_nproc opt" and "0 \<le> o_nqueues opt"
  shows "sched_holds sched (replicate (nat (sc_workq_count sched)) [])"
    and "sc_processes sched = (replicate (nat (o_nproc opt)) 0)[nat (o_rank opt) := 1]"
    and "sc_workq_count sched = (if o_nqueues opt = 0 then 1 else o_nqueues opt)"
proof -
  have s: "sched = \<lparr>sc_stop_proc = None, sc_process_count = o_nproc opt,
      sc_processes = (replicate (nat (o_nproc opt)) 0)[nat (o_rank opt) := 1],
      sc_workq_count = (if o_nqueues opt = 0 then 1 else o_nqueues opt),
      sc_workq = replicate (nat (if o_nqueues opt = 0 then 1 else o_nqueues opt)) (workq_new h)\<rparr>"
    using assms(1) by (simp add: scheduler_new_def processing_set_active_def processing_set_def processing_initialize_def
        Let_def split: if_split_asm)
  show "sched_holds sched (replicate (nat (sc_workq_count sched)) [])"
    using assms(2,3) unfolding sched_holds_def by (simp add: s)
  show "sc_processes sched = (replicate (nat (o_nproc opt)) 0)[nat (o_rank opt) := 1]"
    "sc_workq_count sched = (if o_nqueues opt = 0 then 1 else o_nqueues opt)" by (simp_all add: s)
qed

lemma has_queued_iff:
  assumes "sched_holds sched xss"
  shows "has_queued sched \<longleftrightarrow> (\<exists>xs \<in> set xss. xs \<noteq> [])"
proof -
  have "workq_empty (sc_workq sched ! i) \<longleftrightarrow> xss ! i = []" if "i < length xss" for i
    using assms that by (intro queue_holds_empty) (simp add: sched_holds_def)
  moreover have "nat (sc_workq_count sched) = length xss" using assms by (simp add: sched_holds_def)
  ultimately have "has_queued sched \<longleftrightarrow> (\<exists>i < length xss. xss ! i \<noteq> [])" by (auto simp: has_queued_def list_ex_iff)
  then show ?thesis by (metis in_set_conv_nth)
qed

lemma processing_get_idle_val:
  "processing_get_idle ps 0 n = (case find (\<lambda>i. ps ! i = 0) [0..<n] of Some i \<Rightarrow> int i | None \<Rightarrow> -1)"
  by (simp add: processing_get_idle_def)

lemma get_idle_cases:
  obtains (none) "processing_get_idle ps 0 (length ps) = -1" "0 \<notin> set ps"
  | (idle) w where "processing_get_idle ps 0 (length ps) = int w" "w < length ps" "ps ! w = 0" "\<forall>j < w. ps ! j \<noteq> 0"
proof (cases "find (\<lambda>i. ps ! i = 0) [0..<length ps]")
  case None
  then have "\<forall>i < length ps. ps ! i \<noteq> 0" by (auto simp: find_None_iff)
  then have "0 \<notin> set ps" by (auto simp: in_set_conv_nth)
  then show thesis using none None by (simp add: processing_get_idle_val)
next
  case (Some w)
  then obtain k where "k < length ps" "w = [0..<length ps] ! k" "ps ! w = 0" "\<forall>j < k. ps ! ([0..<length ps] ! j) \<noteq> 0"
    by (auto simp: find_Some_iff)
  then show thesis using Some idle by (simp add: processing_get_idle_val)
qed

lemma canAssignWork_iff:
  assumes "sched_holds sched xss"
  shows "scheduler_canAssignWork sched \<longleftrightarrow> (\<exists>xs \<in> set xss. xs \<noteq> []) \<and> 0 \<in> set (sc_processes sched)"
proof -
  have n: "nat (sc_process_count sched) = length (sc_processes sched)" using assms by (simp add: sched_holds_def)
  have "0 \<le> processing_get_idle (sc_processes sched) 0 (length (sc_processes sched)) \<longleftrightarrow> 0 \<in> set (sc_processes sched)"
    by (cases rule: get_idle_cases [of "sc_processes sched"]) (simp_all, metis nth_mem)
  then show ?thesis by (simp add: scheduler_canAssignWork_def n has_queued_iff [OF assms])
qed

lemma processing_complete_iff:
  "processing_complete ps (length ps) \<longleftrightarrow> length (filter (\<lambda>s. s = 1) ps) \<le> 1"
proof -
  have "filter (\<lambda>s. s = 1) (map ((!) ps) [0..<length ps]) = map ((!) ps) (filter (\<lambda>i. ps ! i = 1) [0..<length ps])"
    by (simp add: filter_map comp_def)
  then have "length (filter (\<lambda>s. s = 1) ps) = length (filter (\<lambda>i. ps ! i = 1) [0..<length ps])" by (simp add: map_nth)
  then show ?thesis by (simp add: processing_complete_def)
qed

lemma workDone_iff:
  assumes "sched_holds sched xss"
  shows "scheduler_workDone sched \<longleftrightarrow> (\<forall>xs \<in> set xss. xs = []) \<and> length (filter (\<lambda>s. s = 1) (sc_processes sched)) \<le> 1"
proof -
  have n: "nat (sc_process_count sched) = length (sc_processes sched)" using assms by (simp add: sched_holds_def)
  show ?thesis by (auto simp: scheduler_workDone_def n has_queued_iff [OF assms] processing_complete_iff)
qed

lemma queue_index_val:
  assumes "sched_holds sched xss" and "0 \<le> qidx item"
  shows "queue_index sched item = Some (nat (min (qidx item) (int (length xss) - 1)))"
    and "nat (min (qidx item) (int (length xss) - 1)) < length xss"
proof -
  have n: "sc_workq_count sched = int (length xss)" "0 < length xss" using assms(1) by (simp_all add: sched_holds_def)
  then have "queue_index sched item = (if min (qidx item) (int (length xss) - 1) < 0 then None
      else Some (nat (min (qidx item) (int (length xss) - 1))))"
    by (simp add: queue_index_def min_def)
  then show "queue_index sched item = Some (nat (min (qidx item) (int (length xss) - 1)))" using assms(2) n(2) by (auto simp: min_less_iff_disj)
  show "nat (min (qidx item) (int (length xss) - 1)) < length xss" using n(2) by linarith
qed

lemma enqueue_holds:
  assumes "sched_holds sched xss" and "i < length xss" and "p \<notin> fst ` set (xss ! i)"
  shows "sched_holds (enqueue sched i p item) (xss[i := xss ! i @ [(p, item)]])"
    and "sc_processes (enqueue sched i p item) = sc_processes sched"
proof -
  have "queue_holds (sc_workq sched ! i) (xss ! i)" using assms(1,2) by (simp add: sched_holds_def)
  then have "queue_holds (workq_add (sc_workq sched ! i) p item) (xss ! i @ [(p, item)])" by (rule queue_holds_add [OF _ assms(3)])
  then show "sched_holds (enqueue sched i p item) (xss[i := xss ! i @ [(p, item)]])"
    using assms(1,2) by (simp add: sched_holds_def enqueue_def nth_list_update)
qed (simp add: enqueue_def)

lemma getwork_loop_run:
  assumes "sched_holds sched xss" and "n \<le> length xss"
  shows "(\<forall>j < n. xss ! j = []) \<and> getwork_loop sched (rev [0..<n]) = (None, sched) \<or>
    (\<exists>i p x xs. i < n \<and> xss ! i = (p, x) # xs \<and> (\<forall>j. i < j \<and> j < n \<longrightarrow> xss ! j = []) \<and>
       getwork_loop sched (rev [0..<n]) =
         (Some x, sched\<lparr>sc_workq := (sc_workq sched)[i := snd (workq_remove (sc_workq sched ! i))]\<rparr>) \<and>
       sched_holds (sched\<lparr>sc_workq := (sc_workq sched)[i := snd (workq_remove (sc_workq sched ! i))]\<rparr>) (xss[i := xs]))"
  using assms(2)
proof (induction n)
  case (Suc n)
  have q: "queue_holds (sc_workq sched ! n) (xss ! n)"
    using assms(1) Suc.prems by (simp add: sched_holds_def)
  show ?case
  proof (cases "xss ! n")
    case Nil
    then have "workq_empty (sc_workq sched ! n)" using queue_holds_empty [OF q] by simp
    then have "getwork_loop sched (rev [0..<Suc n]) = getwork_loop sched (rev [0..<n])" by simp
    moreover have "(\<forall>j < Suc n. P j) \<longleftrightarrow> (\<forall>j < n. P j) \<and> P n" for P by (auto simp: less_Suc_eq)
    ultimately show ?thesis using Suc.IH Suc.prems Nil by (fastforce simp: less_Suc_eq)
  next
    case (Cons e xs)
    obtain p x where e: "e = (p, x)" by (cases e)
    have rem: "fst (workq_remove (sc_workq sched ! n)) = Some x" "queue_holds (snd (workq_remove (sc_workq sched ! n))) xs"
      "q_max (snd (workq_remove (sc_workq sched ! n))) = q_max (sc_workq sched ! n)"
      using queue_holds_remove(2) [OF q [unfolded Cons e]] by simp_all
    have "sched_holds (sched\<lparr>sc_workq := (sc_workq sched)[n := snd (workq_remove (sc_workq sched ! n))]\<rparr>) (xss[n := xs])"
      using assms(1) Suc.prems rem by (simp add: sched_holds_def nth_list_update)
    moreover have "getwork_loop sched (rev [0..<Suc n]) =
        (Some x, sched\<lparr>sc_workq := (sc_workq sched)[n := snd (workq_remove (sc_workq sched ! n))]\<rparr>)"
      using Cons queue_holds_empty [OF q] rem(1) by (simp add: split_beta Let_def)
    moreover have "\<forall>j. n < j \<and> j < Suc n \<longrightarrow> xss ! j = []" by auto
    ultimately show ?thesis using Cons [unfolded e] lessI [of n] by blast
  qed
qed simp

lemma getwork_run:
  assumes "sched_holds sched xss" and "\<exists>xs \<in> set xss. xs \<noteq> []" and "0 \<in> set (sc_processes sched)"
  obtains i p x xs w sched' where "scheduler_getwork sched = Some (Some x, int w, sched')"
    "i < length xss" "xss ! i = (p, x) # xs" "\<forall>j. i < j \<and> j < length xss \<longrightarrow> xss ! j = []"
    "w < length (sc_processes sched)" "sc_processes sched ! w = 0" "\<forall>j < w. sc_processes sched ! j \<noteq> 0"
    "sched_holds sched' (xss[i := xs])" "sc_processes sched' = (sc_processes sched)[w := 1]"
proof -
  let ?n = "nat (sc_process_count sched)"
  have n: "?n = length (sc_processes sched)" "nat (sc_workq_count sched) = length xss" using assms(1) by (simp_all add: sched_holds_def)
  obtain w where w: "processing_get_idle (sc_processes sched) 0 ?n = int w" "w < length (sc_processes sched)"
    "sc_processes sched ! w = 0" "\<forall>j < w. sc_processes sched ! j \<noteq> 0"
    using assms(3) unfolding n by (cases rule: get_idle_cases [of "sc_processes sched"]) auto
  have "\<not> (\<forall>j < length xss. xss ! j = [])" using assms(2) by (auto simp: in_set_conv_nth)
  then obtain i p x xs where i: "i < length xss" "xss ! i = (p, x) # xs" "\<forall>j. i < j \<and> j < length xss \<longrightarrow> xss ! j = []"
    and run: "getwork_loop sched (rev [0..<length xss]) =
         (Some x, sched\<lparr>sc_workq := (sc_workq sched)[i := snd (workq_remove (sc_workq sched ! i))]\<rparr>)"
      "sched_holds (sched\<lparr>sc_workq := (sc_workq sched)[i := snd (workq_remove (sc_workq sched ! i))]\<rparr>) (xss[i := xs])"
    using getwork_loop_run [OF assms(1) order.refl] by blast
  let ?sched' = "sched\<lparr>sc_workq := (sc_workq sched)[i := snd (workq_remove (sc_workq sched ! i))],
      sc_processes := (sc_processes sched)[w := 1]\<rparr>"
  have "scheduler_getwork sched = Some (Some x, int w, ?sched')"
    using w(1,2) run(1) n by (simp add: scheduler_getwork_def processing_set_active_def processing_set_def)
  moreover have "sched_holds ?sched' (xss[i := xs])" using run(2) by (simp add: sched_holds_def)
  ultimately show thesis using i w that by simp
qed

section \<open>Properties\<close>

text \<open>C20.  When there is queued work and an idle process, scheduler_getwork takes the oldest item of the highest
  non-empty queue, gives it to the idle process of the lowest rank, marks that one active and leaves the other
  queues as they are.\<close>

theorem scheduler_priorities:
  assumes "sched_holds sched xss" and "scheduler_canAssignWork sched"
  shows "\<exists>i p x xs w sched'. scheduler_getwork sched = Some (Some x, int w, sched') \<and>
    i < length xss \<and> xss ! i = (p, x) # xs \<and> (\<forall>j. i < j \<and> j < length xss \<longrightarrow> xss ! j = []) \<and>
    sc_processes sched ! w = 0 \<and> (\<forall>j < w. sc_processes sched ! j \<noteq> 0) \<and>
    sched_holds sched' (xss[i := xs]) \<and> sc_processes sched' = (sc_processes sched)[w := 1]"
proof -
  have "\<exists>xs \<in> set xss. xs \<noteq> []" "0 \<in> set (sc_processes sched)"
    using assms(2) canAssignWork_iff [OF assms(1)] by simp_all
  then show ?thesis by (rule getwork_run [OF assms(1)]) blast
qed

theorem scheduler_priorities_witness:
  "\<exists>sched sched'. scheduler_getwork sched = Some (Some (workitem_new 7), 1, sched') \<and> sc_processes sched = [1, 0, 0] \<and>
     sc_processes sched' = [1, 1, 0]"
proof -
  let ?h = "\<lambda>_. \<lparr>en_item = zero_item, en_next = None\<rparr>"
  obtain s0 where s0: "scheduler_new ?h \<lparr>o_rank = 0, o_nproc = 3, o_nqueues = 2, o_app_ops = ()\<rparr> = Some s0"
    by (simp add: scheduler_new_def processing_set_active_def processing_set_def processing_initialize_def)
  have h0: "sched_holds s0 [[], []]" and p0: "sc_processes s0 = [1, 0, 0]"
    using sched_holds_new [OF s0] by (simp_all add: numeral_2_eq_2 numeral_3_eq_3)
  let ?xss = "[[(5 :: nat, workitem_new 6)], [(6, workitem_new 7)]]"
  let ?s = "enqueue (enqueue s0 0 5 (workitem_new 6)) 1 6 (workitem_new 7)"
  have h: "sched_holds ?s [[(5, workitem_new 6)], [(6, workitem_new 7)]]" "sc_processes ?s = [1, 0, 0]"
    using enqueue_holds [OF enqueue_holds(1) [OF h0, of 0 5 "workitem_new 6"], of 1 6 "workitem_new 7"] p0
    by (simp_all add: enqueue_def)
  have "scheduler_canAssignWork ?s" using canAssignWork_iff [OF h(1)] h(2) by simp
  from scheduler_priorities [OF h(1) this] obtain i p x xs w sched' where
    r: "scheduler_getwork ?s = Some (Some x, int w, sched')" "i < length ?xss" "?xss ! i = (p, x) # xs"
      "\<forall>j. i < j \<and> j < length ?xss \<longrightarrow> ?xss ! j = []"
      "sc_processes ?s ! w = 0" "\<forall>j < w. sc_processes ?s ! j \<noteq> 0" "sc_processes sched' = (sc_processes ?s)[w := 1]"
    by blast
  have "i = 1" using r(2) r(4) [rule_format, of 1] by (cases i) auto
  moreover have "w = 1"
  proof (rule ccontr)
    assume "w \<noteq> 1"
    then show False using r(5) r(6) [rule_format, of 1] h(2) by (cases "w = 0") auto
  qed
  ultimately show ?thesis using r(1,3,7) h(2) by (intro exI [of _ ?s] exI [of _ sched']) simp
qed

end
