(* ===== verification/Treewalk.thy ===== *)
theory Treewalk
  imports Pwt_Sched "HOL-Library.Multiset"
begin

text \<open>
  \<^verbatim>\<open>treewalk.c\<close>: the application of \<^verbatim>\<open>pftool\<close> that walks trees of files, and the functions of \<^verbatim>\<open>worker.c\<close> its
  work functions end with.  A work function yields the list of the calls it makes, in order: requests
  and messages to the manager, and lines on standard output.  The file system is a parameter.

  The specification is a tree of files; a work function turns its paths into work on the
  entries below them: what it prints and counts together with what the items it sends stand for
  is what its own item stands for.
\<close>

section \<open>Options, file system, calls\<close>

record app_options =
  a_start_path :: path
  a_dest_path :: path
  a_quiet :: bool
  a_recursive :: bool
  a_meta_only :: bool
  a_verbose :: bool
  a_buffersize :: nat
  a_start_chunking :: int
  a_args :: "path list"

text \<open>What \<^verbatim>\<open>lstat\<close>, \<^verbatim>\<open>opendir\<close> with \<^verbatim>\<open>readdir\<close>, and \<^verbatim>\<open>closedir\<close> say of a path.\<close>

record file_system =
  fs_lstat :: "path \<Rightarrow> stat_buf option"
  fs_readdir :: "path \<Rightarrow> string list option"
  fs_closedir :: "path \<Rightarrow> bool"

text \<open>\<open>Request t q\<close> is \<^verbatim>\<open>worker_sendrequest(t, q, o)\<close>, which returns when the manager accepts; \<open>Send_item t it\<close> is
  \<^verbatim>\<open>send_workitem(it, o.rank, t)\<close>.\<close>

datatype call = Request int int | Send_item int WorkItem | Print_line string

type_synonym process_fn = "FileInfo \<Rightarrow> PerfStat \<Rightarrow> (call list \<times> PerfStat) option"

definition strIsBlank :: "string \<Rightarrow> bool" where
  "strIsBlank s \<longleftrightarrow> \<not> list_ex (\<lambda>c. 33 \<le> (of_char c :: nat) \<and> (of_char c :: nat) \<le> 126) s"

text \<open>\<open>None\<close>: no room for the path.  The boolean is the return code.\<close>

definition treewalk_process_args :: "app_options \<Rightarrow> (bool \<times> app_options) option" where
  "treewalk_process_args app =
     (if strIsBlank (a_start_path app) \<and> a_args app = [] then Some (False, app)
      else if strIsBlank (a_start_path app)
      then map_option (\<lambda>p. (True, app\<lparr>a_start_path := p, a_args := tl (a_args app)\<rparr>)) (copy_path (hd (a_args app)))
      else Some (True, app))"

section \<open>Buffers of items\<close>

text \<open>The work data of the item is the buffer on the stack, so adding to the buffer changes the item.\<close>

definition item_add_path :: "WorkItem \<Rightarrow> path \<Rightarrow> WorkItem option" where
  "item_add_path it p = do {
     pw \<leftarrow> workitem_get_pathbuffer it;
     pw \<leftarrow> pathwork_add_path pw p;
     Some (it\<lparr>workdata := Some (Work_Paths pw)\<rparr>) }"

definition item_full :: "WorkItem \<Rightarrow> bool" where
  "item_full it = (case workitem_get_pathbuffer it of Some pw \<Rightarrow> pathwork_isFull pw | None \<Rightarrow> False)"

definition item_empty :: "WorkItem \<Rightarrow> bool" where
  "item_empty it = (case workitem_get_pathbuffer it of Some pw \<Rightarrow> pathwork_isEmpty pw | None \<Rightarrow> True)"

definition tw_send :: "work_fn \<Rightarrow> WorkItem \<Rightarrow> call list \<times> WorkItem" where
  "tw_send f itembuf =
     (let it = workitem_update_dowork (workitem_set_managerrun itembuf False) f
      in ([Request (originator itembuf) 0, Send_item (originator itembuf) it],
          if workitem_hasPathbuffer it then it\<lparr>workdata := Some (Work_Paths pathwork_clear)\<rparr> else it))"

definition tw_senddirs :: "WorkItem \<Rightarrow> call list \<times> WorkItem" where "tw_senddirs = tw_send treewalk_readdir"
definition tw_sendpaths :: "WorkItem \<Rightarrow> call list \<times> WorkItem" where "tw_sendpaths = tw_send treewalk_statpath"

definition worker_senddone :: "WorkItem \<Rightarrow> PerfStat \<Rightarrow> call list" where
  "worker_senddone itembuf perf =
     [Send_item (originator itembuf)
        (perfstat_attach perf (workitem_update_dowork (workitem_set_managerrun itembuf True) manager_workdone))]"

definition tw_senddone :: "WorkItem \<Rightarrow> PerfStat \<Rightarrow> call list" where
  "tw_senddone itembuf perf =
     worker_senddone (if workitem_hasPathbuffer itembuf then itembuf\<lparr>workdata := None\<rparr> else itembuf) perf"

text \<open>The paths of an item; \<open>None\<close> is a buffer that says it is longer than it is.\<close>

definition item_paths :: "WorkItem \<Rightarrow> path list option" where
  "item_paths data =
     (if workitem_hasPathbuffer data
      then do { pw \<leftarrow> workitem_get_pathbuffer data; if pw_size pw \<le> length (pw_buf pw) then Some (pw_paths pw) else None }
      else Some [it_path data])"

definition item_buffer :: "int \<Rightarrow> WorkItem" where
  "item_buffer orig_rank = workitem_update_originator (pathwork_attach pathwork_clear zero_item) orig_rank"

section \<open>Reading directories\<close>

fun tw_entries :: "path \<Rightarrow> string list \<Rightarrow> WorkItem \<Rightarrow> call list \<Rightarrow> (WorkItem \<times> call list) option" where
  "tw_entries dir [] it cs = Some (it, cs)"
| "tw_entries dir (d_name # ns) it cs =
     (if d_name = ''.'' \<or> d_name = ''..'' then tw_entries dir ns it cs
      else do {
        it \<leftarrow> item_add_path it (dir @ ''/'' @ d_name);
        if item_full it then let (c, it) = tw_sendpaths it in tw_entries dir ns it (cs @ c)
        else tw_entries dir ns it cs })"

text \<open>The first component: a directory could not be opened, and the function returns early.\<close>

fun tw_dirs :: "file_system \<Rightarrow> path list \<Rightarrow> WorkItem \<Rightarrow> PerfStat \<Rightarrow> call list \<Rightarrow>
    (bool \<times> WorkItem \<times> PerfStat \<times> call list) option" where
  "tw_dirs fs [] it perf cs = Some (False, it, perf, cs)"
| "tw_dirs fs (dir # ds) it perf cs =
     (case fs_readdir fs dir of None \<Rightarrow> Some (True, it, perf, cs)
      | Some names \<Rightarrow> do {
          (it, cs) \<leftarrow> tw_entries dir names it cs;
          if fs_closedir fs dir then tw_dirs fs ds it (perfstat_inc_counter perf PERF_DIRS_READ) cs
          else None })"

text \<open>\<open>t0\<close> and \<open>t1\<close> are what the clock says.  \<open>None\<close> is MPI_Abort or a write outside of a buffer.\<close>

definition treewalk_readdir_calls :: "file_system \<Rightarrow> timeval \<Rightarrow> timeval \<Rightarrow> WorkItem \<Rightarrow> call list option" where
  "treewalk_readdir_calls fs t0 t1 data = do {
     dirs \<leftarrow> item_paths data;
     let perf = perfstat_set_time perfstat_new PERF_START_TIME t0;
     (early, it, perf, cs) \<leftarrow> tw_dirs fs dirs (item_buffer (originator data)) perf [];
     if early then Some (cs @ tw_senddone it (perfstat_set_elapcounter perf PERF_DIRS_READ t1))
     else
       let perf = perfstat_set_time perf PERF_END_TIME t1;
           (c, it) = (if item_empty it then ([], it) else tw_sendpaths it)
       in Some (cs @ c @ tw_senddone it (perfstat_set_elapcounter perf PERF_DIRS_READ t1)) }"

section \<open>Paths to stat\<close>

definition treewalk_process_file :: "app_options \<Rightarrow> (FileInfo \<Rightarrow> string) \<Rightarrow> process_fn" where
  "treewalk_process_file app ls_line infile perf =
     Some (if a_quiet app then ([], perf)
       else if strIsBlank (fi_path infile) then ([], perf)
       else if \<not> a_verbose app then ([Print_line (fi_path infile)], perf)
       else if fi_exists infile < 0 then ([Print_line (''[  no stat information! ] '' @ fi_path infile)], perf)
       else ([Print_line (ls_line infile)], perf))"

fun tw_paths :: "file_system \<Rightarrow> process_fn \<Rightarrow> path list \<Rightarrow> WorkItem \<Rightarrow> PerfStat \<Rightarrow> call list \<Rightarrow>
    (WorkItem \<times> PerfStat \<times> call list) option" where
  "tw_paths fs processfile [] it perf cs = Some (it, perf, cs)"
| "tw_paths fs processfile (p # ps) it perf cs = do {
     st \<leftarrow> fs_lstat fs p;
     let perf = perfstat_inc_counter perf PERF_STAT_CALLS;
     (it, perf, cs) \<leftarrow>
       (if st_isdir st then map_option (\<lambda>it. (it, perf, cs)) (item_add_path it p)
        else map_option (\<lambda>(c, perf). (it, perf, cs @ c)) (processfile (fileinfo_init p (Some st)) perf));
     if item_full it then let (c, it) = tw_senddirs it in tw_paths fs processfile ps it perf (cs @ c)
     else tw_paths fs processfile ps it perf cs }"

definition treewalk_statpath_calls ::
  "file_system \<Rightarrow> process_fn \<Rightarrow> timeval \<Rightarrow> timeval \<Rightarrow> WorkItem \<Rightarrow> call list option" where
  "treewalk_statpath_calls fs processfile t0 t1 data = do {
     paths \<leftarrow> item_paths data;
     let perf = perfstat_set_time perfstat_new PERF_START_TIME t0;
     (it, perf, cs) \<leftarrow> tw_paths fs processfile paths (item_buffer (originator data)) perf [];
     let perf = perfstat_set_time perf PERF_END_TIME t1;
     let (c, it) = (if item_empty it then ([], it) else tw_senddirs it);
     Some (cs @ c @ tw_senddone it (perfstat_set_elapcounter perf PERF_STAT_CALLS t1)) }"

section \<open>Starting\<close>

text \<open>A work item for a path to stat, on the queue of the manager; \<open>p\<close> is the address of its entry.\<close>

definition add_path_work :: "int \<Rightarrow> nat \<Rightarrow> path \<Rightarrow> Scheduler \<Rightarrow> Scheduler option" where
  "add_path_work rank p pth sched = do {
     work \<leftarrow> workitem_update_path (workitem_update_dowork (workitem_new rank) treewalk_statpath) pth;
     r \<leftarrow> scheduler_addwork sched p work;
     (case r of Queued sched \<Rightarrow> Some sched | Answer _ _ _ \<Rightarrow> None) }"

fun add_paths_work :: "int \<Rightarrow> nat list \<Rightarrow> path list \<Rightarrow> Scheduler \<Rightarrow> Scheduler option" where
  "add_paths_work rank (a # as) (p # ps) sched = Option.bind (add_path_work rank a p sched) (add_paths_work rank as ps)"
| "add_paths_work rank as [] sched = Some sched"
| "add_paths_work rank [] (p # ps) sched = None"

text \<open>The item and the process it is sent to; none is the return code \<^verbatim>\<open>PWT_FAILURE\<close>.\<close>

definition treewalk_startwork ::
  "int \<Rightarrow> app_options \<Rightarrow> nat list \<Rightarrow> Scheduler \<Rightarrow> ((WorkItem \<times> int) option \<times> Scheduler) option" where
  "treewalk_startwork rank app as sched = do {
     sched \<leftarrow> add_paths_work rank as (a_start_path app # a_args app) sched;
     (work, r, sched) \<leftarrow> scheduler_getwork sched;
     Some (map_option (\<lambda>w. (w, r)) work, sched) }"

end
