(* ===== verification/Pwt_Job.thy ===== *)
theory Pwt_Job
  imports Treewalk
begin

text \<open>
  The processes of \<^verbatim>\<open>pftool\<close>: \<^verbatim>\<open>manager.c\<close>, \<^verbatim>\<open>worker.c\<close>, \<^verbatim>\<open>converse.c\<close> and the set-up of \<^verbatim>\<open>pwt.c\<close>.  Process 0 is the
  manager, the others are workers.  A message is an item on its way between two processes; MPI keeps the
  order of the messages between two processes.  A step is one round of the manager's or of a worker's
  loop, or the next call of a work function, up to the point where the process waits for a message.
  A schedule is a list of such steps, in any order: \<^verbatim>\<open>MPI_Iprobe\<close> may say that there is no message when
  there is one on its way, and \<^verbatim>\<open>MPI_ANY_SOURCE\<close> may choose any source.
\<close>

section \<open>State\<close>

text \<open>\<open>Acking w i\<close>: in scheduler_ackwork, waiting for the item of worker \<open>w\<close> for queue \<open>i\<close>.\<close>

datatype mstate = Looping | Acking int nat | Finished

text \<open>\<open>Requesting b t cs\<close>: in worker_sendrequest to process \<open>t\<close>, waiting for the answer, which is received from \<open>t\<close> the
  first time and from any process later; \<open>cs\<close> are the calls after it.  \<open>Left\<close>: worker_run has returned.\<close>

datatype wstate = Serving | Running "call list" | Requesting bool int "call list" | Left

record worker =
  wk_probes :: nat
  wk_state :: wstate

record 'm job =
  jb_sched :: Scheduler
  jb_stats :: PerfStat
  jb_manager :: mstate
  jb_chan :: "int \<Rightarrow> int \<Rightarrow> WorkItem list"
  jb_worker :: "int \<Rightarrow> worker"
  jb_out :: "string list"
  jb_app :: 'm

section \<open>Messages\<close>

text \<open>send_workitem: the item arrives with the sender as its originator.\<close>

definition send_workitem :: "WorkItem \<Rightarrow> int \<Rightarrow> int \<Rightarrow> 'm job \<Rightarrow> 'm job" where
  "send_workitem item source_rank target_rank jb =
     jb\<lparr>jb_chan := (jb_chan jb)(source_rank := (jb_chan jb source_rank)(target_rank :=
        jb_chan jb source_rank target_rank @ [workitem_update_originator item source_rank]))\<rparr>"

text \<open>\<open>None\<close>: there is no message, and the call waits.\<close>

definition get_workitem :: "int \<Rightarrow> int \<Rightarrow> 'm job \<Rightarrow> (WorkItem \<times> 'm job) option" where
  "get_workitem local_rank remote_rank jb =
     (case jb_chan jb remote_rank local_rank of [] \<Rightarrow> None
      | it # its \<Rightarrow> Some (it, jb\<lparr>jb_chan := (jb_chan jb)(remote_rank := (jb_chan jb remote_rank)(local_rank := its))\<rparr>))"

section \<open>The manager\<close>

text \<open>manager_fini, after the loop.\<close>

definition manager_fini :: "int \<Rightarrow> 'm job \<Rightarrow> 'm job" where
  "manager_fini rank jb =
     fold (\<lambda>(t, it). send_workitem it rank t) (scheduler_stop_processes (jb_sched jb) rank) (jb\<lparr>jb_manager := Finished\<rparr>)"

text \<open>A round of the inner loop, without a message.  \<open>None\<close>: a NULL item is sent, which does not happen.\<close>

definition manager_idle :: "int \<Rightarrow> 'm job \<Rightarrow> 'm job option" where
  "manager_idle rank jb =
     (if jb_manager jb \<noteq> Looping then None
      else do {
        jb \<leftarrow> (if scheduler_canAssignWork (jb_sched jb) then do {
            (work, worker_rank, sched) \<leftarrow> scheduler_getwork (jb_sched jb);
            work \<leftarrow> work;
            Some (send_workitem work rank worker_rank (jb\<lparr>jb_sched := sched\<rparr>)) }
          else Some jb);
        Some (if scheduler_workDone (jb_sched jb) then manager_fini rank jb else jb) })"

text \<open>The addresses of the entries of a queue: malloc returns none of them.\<close>

fun q_cells :: "(nat \<Rightarrow> 'i WorkQEntry) \<Rightarrow> nat \<Rightarrow> nat option \<Rightarrow> nat list" where
  "q_cells h (Suc n) (Some p) = p # q_cells h n (en_next (h p))"
| "q_cells h n e = []"

definition fresh_entry :: "Scheduler \<Rightarrow> nat \<Rightarrow> bool" where
  "fresh_entry sched p \<longleftrightarrow> list_all (\<lambda>q. p \<notin> set (q_cells (q_heap q) (nat (q_count q)) (q_head q))) (sc_workq sched)"

text \<open>What a manager function of an application does: its own state, lines, the statistics it adds, and whether it
  marks the worker idle.\<close>

type_synonym 'm manager_fn = "work_fn \<Rightarrow> WorkItem \<Rightarrow> 'm \<Rightarrow> ('m \<times> string list \<times> PerfStat option \<times> bool) option"

definition manager_do_work :: "'m manager_fn \<Rightarrow> WorkItem \<Rightarrow> 'm job \<Rightarrow> 'm job option" where
  "manager_do_work app_fn work jb =
     (case do_work work of None \<Rightarrow> None
      | Some f \<Rightarrow> do {
          (app, out, perf, idle) \<leftarrow> (if f = manager_workdone
            then if workitem_hasPerfStat work then map_option (\<lambda>ps. (jb_app jb, [], Some ps, True)) (workitem_get_perfstat work)
              else Some (jb_app jb, [], None, True)
            else app_fn f work (jb_app jb));
          sched \<leftarrow> (if idle then scheduler_set_processidle (jb_sched jb) (originator work) else Some (jb_sched jb));
          Some (jb\<lparr>jb_sched := sched, jb_stats := (case perf of Some ps \<Rightarrow> perfstat_add (jb_stats jb) ps | None \<Rightarrow> jb_stats jb),
            jb_out := jb_out jb @ out, jb_app := app\<rparr>) })"

text \<open>The rest of the outer loop: a message from \<open>src\<close>; \<open>p\<close> is what malloc returns for the entry.\<close>

definition manager_receive :: "'m manager_fn \<Rightarrow> int \<Rightarrow> int \<Rightarrow> nat \<Rightarrow> 'm job \<Rightarrow> 'm job option" where
  "manager_receive app_fn rank src p jb =
     (if jb_manager jb \<noteq> Looping \<or> \<not> fresh_entry (jb_sched jb) p then None
      else do {
        (work, jb) \<leftarrow> get_workitem rank src jb;
        if manager_run work then manager_do_work app_fn work jb
        else do {
          r \<leftarrow> scheduler_addwork (jb_sched jb) p work;
          Some (case r of
              Queued sched \<Rightarrow> jb\<lparr>jb_sched := sched\<rparr>
            | Answer isFull answer idx \<Rightarrow>
                send_workitem answer rank (originator work)
                  (jb\<lparr>jb_manager := if isFull then Looping else Acking (originator work) idx\<rparr>)) } })"

text \<open>The end of scheduler_ackwork.\<close>

definition manager_ack :: "int \<Rightarrow> nat \<Rightarrow> 'm job \<Rightarrow> 'm job option" where
  "manager_ack rank p jb =
     (case jb_manager jb of
        Acking w idx \<Rightarrow>
          if \<not> fresh_entry (jb_sched jb) p then None
          else do {
            (newwork, jb) \<leftarrow> get_workitem rank w jb;
            Some (jb\<lparr>jb_sched := enqueue (jb_sched jb) idx p newwork, jb_manager := Looping\<rparr>) }
      | _ \<Rightarrow> None)"

section \<open>A worker\<close>

definition MANAGER_PROC :: int where "MANAGER_PROC = 0"

definition set_wstate :: "int \<Rightarrow> wstate \<Rightarrow> 'm job \<Rightarrow> 'm job" where
  "set_wstate w s jb = jb\<lparr>jb_worker := (jb_worker jb)(w := (jb_worker jb w)\<lparr>wk_state := s\<rparr>)\<rparr>"

definition running :: "call list \<Rightarrow> wstate" where
  "running cs = (if cs = [] then Serving else Running cs)"

text \<open>No message: the count of probes is never reset, and the worker leaves after 100.\<close>

definition worker_idle :: "int \<Rightarrow> 'm job \<Rightarrow> 'm job option" where
  "worker_idle w jb =
     (if wk_state (jb_worker jb w) \<noteq> Serving then None
      else let n = Suc (wk_probes (jb_worker jb w))
        in Some (jb\<lparr>jb_worker := (jb_worker jb)(w := \<lparr>wk_probes = n, wk_state = if n \<ge> 100 then Left else Serving\<rparr>)\<rparr>))"

text \<open>A message: \<open>work\<close> gives the calls of the work functions of the application.\<close>

definition worker_receive :: "(WorkItem \<Rightarrow> call list option) \<Rightarrow> int \<Rightarrow> int \<Rightarrow> 'm job \<Rightarrow> 'm job option" where
  "worker_receive work w src jb =
     (if wk_state (jb_worker jb w) \<noteq> Serving then None
      else do {
        (item, jb) \<leftarrow> get_workitem w src jb;
        if do_work item = Some worker_exit
        then Some (if originator item = MANAGER_PROC then set_wstate w Left jb else jb)
        else map_option (\<lambda>cs. set_wstate w (running cs) jb) (work item) })"

definition request_item :: "int \<Rightarrow> int \<Rightarrow> WorkItem" where
  "request_item rank rque = workreq_attach workreq_clear (workitem_update_originator (workitem_update_queue zero_item rque) rank)"

definition worker_call :: "int \<Rightarrow> 'm job \<Rightarrow> 'm job option" where
  "worker_call w jb =
     (case wk_state (jb_worker jb w) of
        Running (Print_line s # cs) \<Rightarrow> Some (set_wstate w (running cs) (jb\<lparr>jb_out := jb_out jb @ [s]\<rparr>))
      | Running (Send_item t it # cs) \<Rightarrow> Some (set_wstate w (running cs) (send_workitem it w t jb))
      | Running (Request t q # cs) \<Rightarrow> Some (set_wstate w (Requesting True t cs) (send_workitem (request_item w q) w t jb))
      | _ \<Rightarrow> None)"

text \<open>The answer to a request: when it was denied, it is sent again after a while.\<close>

definition worker_answer :: "int \<Rightarrow> int \<Rightarrow> 'm job \<Rightarrow> 'm job option" where
  "worker_answer w src jb =
     (case wk_state (jb_worker jb w) of
        Requesting first t cs \<Rightarrow>
          if first \<and> src \<noteq> t then None
          else do {
            (respbuf, jb) \<leftarrow> get_workitem w src jb;
            if workitem_hasWorkRequest respbuf
            then do {
              respwr \<leftarrow> workitem_get_workreq respbuf;
              Some (if workreq_notAccepted respwr \<noteq> 0
                then set_wstate w (Requesting False t cs) (send_workitem respbuf w t jb)
                else set_wstate w (running cs) jb) }
            else Some (set_wstate w (running cs) jb) }
      | _ \<Rightarrow> None)"

section \<open>Schedules\<close>

datatype step = Manager_idle | Manager_receive int nat | Manager_ack nat
  | Worker_idle int | Worker_receive int int timeval timeval | Worker_call int | Worker_answer int int

fun job_step :: "(timeval \<Rightarrow> timeval \<Rightarrow> WorkItem \<Rightarrow> call list option) \<Rightarrow> 'm manager_fn \<Rightarrow> step \<Rightarrow> 'm job \<Rightarrow> 'm job option" where
  "job_step work app_fn Manager_idle jb = manager_idle MANAGER_PROC jb"
| "job_step work app_fn (Manager_receive src p) jb = manager_receive app_fn MANAGER_PROC src p jb"
| "job_step work app_fn (Manager_ack p) jb = manager_ack MANAGER_PROC p jb"
| "job_step work app_fn (Worker_idle w) jb = worker_idle w jb"
| "job_step work app_fn (Worker_receive w src t0 t1) jb = worker_receive (work t0 t1) w src jb"
| "job_step work app_fn (Worker_call w) jb = worker_call w jb"
| "job_step work app_fn (Worker_answer w src) jb = worker_answer w src jb"

text \<open>The steps of worker processes are those of processes 1 to \<open>n - 1\<close>.\<close>

fun step_in :: "int \<Rightarrow> step \<Rightarrow> bool" where
  "step_in n (Worker_idle w) \<longleftrightarrow> 1 \<le> w \<and> w < n"
| "step_in n (Worker_receive w src t0 t1) \<longleftrightarrow> 1 \<le> w \<and> w < n"
| "step_in n (Worker_call w) \<longleftrightarrow> 1 \<le> w \<and> w < n"
| "step_in n (Worker_answer w src) \<longleftrightarrow> 1 \<le> w \<and> w < n"
| "step_in n _ \<longleftrightarrow> True"

fun job_run :: "(timeval \<Rightarrow> timeval \<Rightarrow> WorkItem \<Rightarrow> call list option) \<Rightarrow> 'm manager_fn \<Rightarrow> int \<Rightarrow> step list \<Rightarrow> 'm job \<Rightarrow> 'm job option" where
  "job_run work app_fn n [] jb = Some jb"
| "job_run work app_fn n (s # ss) jb =
     (if step_in n s then Option.bind (job_step work app_fn s jb) (job_run work app_fn n ss) else None)"

section \<open>Start\<close>

text \<open>manager_init, and the start of manager_run with treewalk_startwork: \<open>as\<close> are the addresses malloc returns, \<open>now\<close>
  the clock.  \<open>None\<close> also stands for a failure to start.\<close>

definition manager_init :: "(nat \<Rightarrow> WorkItem WorkQEntry) \<Rightarrow> timeval \<Rightarrow> 'a options \<Rightarrow> (Scheduler \<times> PerfStat) option" where
  "manager_init h now opt = do {
     dispatch \<leftarrow> scheduler_new h opt;
     Some (scheduler_update_stopproc dispatch worker_exit, perfstat_set_time perfstat_new PERF_START_TIME now) }"

definition job_start :: "(nat \<Rightarrow> WorkItem WorkQEntry) \<Rightarrow> timeval \<Rightarrow> app_options options \<Rightarrow> nat list \<Rightarrow> 'm \<Rightarrow> 'm job option" where
  "job_start h now opt as app = do {
     (sched, stats) \<leftarrow> manager_init h now opt;
     (started, sched) \<leftarrow> treewalk_startwork (o_rank opt) (o_app_ops opt) as sched;
     (work, r) \<leftarrow> started;
     Some (send_workitem work (o_rank opt) r
       \<lparr>jb_sched = sched, jb_stats = stats, jb_manager = Looping, jb_chan = \<lambda>_ _. [],
        jb_worker = \<lambda>_. \<lparr>wk_probes = 0, wk_state = Serving\<rparr>, jb_out = [], jb_app = app\<rparr>) }"

end
