(* ===== verification/Treewalk_Spec.thy ===== *)
theory Treewalk_Spec
  imports Treewalk
begin

text \<open>
  What the work functions of the tree walk do: trees of files as the specification, the shape of the calls
  of a work function, and the laws by which an item turns into lines, counts and further items.
\<close>

section \<open>Trees of files\<close>

datatype ftree = File | Dir "(string \<times> ftree) list"

definition visible :: "string \<Rightarrow> bool" where
  "visible n \<longleftrightarrow> n \<noteq> ''.'' \<and> n \<noteq> ''..''"

fun looks_like :: "file_system \<Rightarrow> path \<Rightarrow> ftree \<Rightarrow> bool" where
  "looks_like fs p File \<longleftrightarrow> length p < PATHSIZE_PLUS \<and> (case fs_lstat fs p of Some st \<Rightarrow> \<not> st_isdir st | None \<Rightarrow> False)"
| "looks_like fs p (Dir es) \<longleftrightarrow> length p < PATHSIZE_PLUS \<and> (case fs_lstat fs p of Some st \<Rightarrow> st_isdir st | None \<Rightarrow> False) \<and>
     fs_closedir fs p \<and> (case fs_readdir fs p of Some ns \<Rightarrow> filter visible ns = map fst es | None \<Rightarrow> False) \<and>
     (\<forall>e \<in> set es. looks_like fs (p @ ''/'' @ fst e) (snd e))"

fun files_under :: "path \<Rightarrow> ftree \<Rightarrow> path multiset" where
  "files_under p File = {#p#}"
| "files_under p (Dir es) = (\<Sum>e\<leftarrow>es. files_under (p @ ''/'' @ fst e) (snd e))"

fun count_paths :: "ftree \<Rightarrow> nat" where
  "count_paths File = 1"
| "count_paths (Dir es) = Suc (\<Sum>e\<leftarrow>es. count_paths (snd e))"

fun count_dirs :: "ftree \<Rightarrow> nat" where
  "count_dirs File = 0"
| "count_dirs (Dir es) = Suc (\<Sum>e\<leftarrow>es. count_dirs (snd e))"

lemma looks_like_unique: "looks_like fs p t \<Longrightarrow> looks_like fs p t' \<Longrightarrow> t = t'"
proof (induction fs p t arbitrary: t' rule: looks_like.induct)
  case (1 fs p)
  then show ?case by (cases t') (auto split: option.splits)
next
  case (2 fs p es)
  then obtain es' where t': "t' = Dir es'" by (cases t') (auto split: option.splits)
  with "2.prems" have names: "map fst es = map fst es'" by (auto split: option.splits)
  have same: "snd e = snd e'" if e: "(e, e') \<in> set (zip es es')" for e e'
  proof -
    have "fst e = fst e'" using e names
      by (metis (no_types, lifting) in_set_zip length_map nth_map fst_conv snd_conv)
    moreover have "e \<in> set es" "e' \<in> set es'" using e by (auto dest: set_zip_leftD set_zip_rightD)
    moreover have "looks_like fs (p @ ''/'' @ fst e') (snd e')" using "2.prems"(2) t' \<open>e' \<in> set es'\<close> by simp
    moreover have "looks_like fs (p @ ''/'' @ fst e) (snd e)" using "2.prems"(1) \<open>e \<in> set es\<close> by simp
    ultimately show ?thesis using "2.IH" [of e "snd e'"] by simp
  qed
  have len: "length es = length es'" using names by (rule map_eq_imp_length_eq)
  have "es ! i = es' ! i" if "i < length es" for i
  proof (rule prod_eqI)
    show "fst (es ! i) = fst (es' ! i)" using names that len by (metis nth_map)
    show "snd (es ! i) = snd (es' ! i)" using that len by (intro same) (auto simp: in_set_zip)
  qed
  then have "es = es'" using len by (intro nth_equalityI) simp_all
  with t' show ?case by simp
qed

section \<open>The calls of a work function\<close>

definition work_call :: "call \<Rightarrow> WorkItem list" where
  "work_call c = (case c of Send_item t it \<Rightarrow> if manager_run it then [] else [it] | _ \<Rightarrow> [])"

definition submits :: "call list \<Rightarrow> WorkItem list" where
  "submits cs = concat (map work_call cs)"

definition printed :: "call list \<Rightarrow> string list" where
  "printed cs = concat (map (\<lambda>c. case c of Print_line s \<Rightarrow> [s] | _ \<Rightarrow> []) cs)"

lemma calls_append [simp]:
  "submits (cs @ ds) = submits cs @ submits ds" "printed (cs @ ds) = printed cs @ printed ds"
  "submits [] = []" "printed [] = []"
  by (simp_all add: submits_def printed_def)

text \<open>Lines, and items the manager has been asked to take.\<close>

fun chunk :: "int \<Rightarrow> call list \<Rightarrow> bool" where
  "chunk tgt (Print_line s # cs) = chunk tgt cs"
| "chunk tgt (Request t q # Send_item t' it # cs) \<longleftrightarrow> t = tgt \<and> t' = tgt \<and> 0 \<le> q \<and> \<not> manager_run it \<and> chunk tgt cs"
| "chunk tgt [] = True"
| "chunk tgt _ = False"

lemma chunk_append [simp]: "chunk tgt cs \<Longrightarrow> chunk tgt (cs @ ds) = chunk tgt ds"
  by (induction tgt cs rule: chunk.induct) auto

definition perf_ok :: "PerfStat \<Rightarrow> bool" where
  "perf_ok perf \<longleftrightarrow> ps_type perf = PERFSTAT_TYPE \<and> length (ps_counters perf) = PERF_MAX_COUNTERS"

definition is_done :: "PerfStat \<Rightarrow> WorkItem \<Rightarrow> bool" where
  "is_done perf it \<longleftrightarrow> manager_run it \<and> do_work it = Some manager_workdone \<and> workdata it = Some (Work_Perf perf) \<and> perf_ok perf"

definition program :: "int \<Rightarrow> call list \<Rightarrow> PerfStat \<Rightarrow> bool" where
  "program tgt cs perf \<longleftrightarrow> (\<exists>pre it. cs = pre @ [Send_item tgt it] \<and> chunk tgt pre \<and> is_done perf it)"

section \<open>The buffer being filled\<close>

definition buffer_item :: "int \<Rightarrow> WorkItem \<Rightarrow> bool" where
  "buffer_item tgt it \<longleftrightarrow> originator it = tgt \<and> qidx it = 0 \<and>
     (\<exists>pw. workdata it = Some (Work_Paths pw) \<and> pathwork_ok pw \<and> \<not> pathwork_isFull pw)"

definition bpaths :: "WorkItem \<Rightarrow> path list" where
  "bpaths it = (case workitem_get_pathbuffer it of Some pw \<Rightarrow> pw_paths pw | None \<Rightarrow> [])"

definition sent_item :: "work_fn \<Rightarrow> WorkItem \<Rightarrow> bool" where
  "sent_item f it \<longleftrightarrow> do_work it = Some f \<and> \<not> manager_run it \<and> qidx it = 0 \<and>
     (\<exists>pw. workdata it = Some (Work_Paths pw) \<and> pathwork_ok pw \<and> pw_paths pw \<noteq> [])"

lemma buffer_item_new: "buffer_item tgt (item_buffer tgt)" "bpaths (item_buffer tgt) = []"
  by (simp_all add: buffer_item_def bpaths_def item_buffer_def item_simps pathwork_isFull_def PATH_BUFFER_MAX_def)

lemma tw_send_run:
  assumes "originator it = tgt" and "qidx it = 0" and "workdata it = Some (Work_Paths pw)" and "pathwork_ok pw"
    and "pw_paths pw \<noteq> []"
  obtains c it' where "tw_send f it = (c, it')" "chunk tgt c" "buffer_item tgt it'" "bpaths it' = []" "printed c = []"
    "list_all (sent_item f) (submits c)" "concat (map bpaths (submits c)) = pw_paths pw"
proof -
  have ty: "pw_type pw = PATHWORK_TYPE" using assms(4) by (simp add: pathwork_ok_def)
  let ?it = "workitem_update_dowork (workitem_set_managerrun it False) f"
  let ?it' = "?it\<lparr>workdata := Some (Work_Paths pathwork_clear)\<rparr>"
  have "tw_send f it = ([Request tgt 0, Send_item tgt ?it], ?it')"
    using assms ty by (simp add: tw_send_def item_simps Let_def)
  moreover have "buffer_item tgt ?it'" "bpaths ?it' = []"
    using assms by (simp_all add: buffer_item_def bpaths_def item_simps pathwork_isFull_def PATH_BUFFER_MAX_def)
  ultimately show thesis
    using that assms by (simp add: submits_def printed_def work_call_def sent_item_def bpaths_def item_simps)
qed

lemma add_and_send:
  assumes it: "buffer_item tgt it" and p: "length p < PATHSIZE_PLUS"
  obtains it1 c it2 where "item_add_path it p = Some it1"
    "(if item_full it1 then let (c, it) = tw_send f it1 in k it (cs @ c) else k it1 cs) = k it2 (cs @ c)"
    "chunk tgt c" "buffer_item tgt it2" "printed c = []" "list_all (sent_item f) (submits c)"
    "concat (map bpaths (submits c)) @ bpaths it2 = bpaths it @ [p]"
proof -
  obtain pw where pw: "originator it = tgt" "qidx it = 0" "workdata it = Some (Work_Paths pw)" "pathwork_ok pw" "\<not> pathwork_isFull pw"
    using it by (auto simp: buffer_item_def)
  obtain pw' where pw': "pathwork_add_path pw p = Some pw'" "pathwork_ok pw'" "pw_paths pw' = pw_paths pw @ [p]"
    using pathwork_add_path_run [OF pw(4,5) p] .
  let ?it1 = "it\<lparr>workdata := Some (Work_Paths pw')\<rparr>"
  have add: "item_add_path it p = Some ?it1" using pw pw' by (simp add: item_add_path_def item_simps)
  have full: "item_full ?it1 = pathwork_isFull pw'" by (simp add: item_full_def item_simps)
  have old: "bpaths it = pw_paths pw" using pw by (simp add: bpaths_def item_simps)
  show thesis
  proof (cases "pathwork_isFull pw'")
    case True
    obtain c it2 where c: "tw_send f ?it1 = (c, it2)" "chunk tgt c" "buffer_item tgt it2" "bpaths it2 = []" "printed c = []"
      "list_all (sent_item f) (submits c)" "concat (map bpaths (submits c)) = pw_paths pw'"
      by (rule tw_send_run [of ?it1 tgt pw' f]) (use pw pw' in simp_all)
    have paths: "concat (map bpaths (submits c)) @ bpaths it2 = bpaths it @ [p]" unfolding c(4,7) old pw'(3) by simp
    have "(if item_full ?it1 then let (c, it) = tw_send f ?it1 in k it (cs @ c) else k ?it1 cs) = k it2 (cs @ c)"
      using c(1) True full by simp
    from that [OF add this c(2,3,5,6) paths] show thesis .
  next
    case False
    show thesis
      by (rule that [OF add, of ?it1 "[]"])
        (use False full pw pw' old in \<open>simp_all add: buffer_item_def bpaths_def item_simps\<close>)
  qed
qed

lemma send_rest:
  assumes it: "buffer_item tgt it"
  obtains c it' where "(if item_empty it then ([], it) else tw_send f it) = (c, it')" "chunk tgt c" "buffer_item tgt it'"
    "printed c = []" "list_all (sent_item f) (submits c)" "concat (map bpaths (submits c)) = bpaths it"
proof -
  obtain pw where pw: "originator it = tgt" "qidx it = 0" "workdata it = Some (Work_Paths pw)" "pathwork_ok pw"
    using it by (auto simp: buffer_item_def)
  have e: "item_empty it \<longleftrightarrow> bpaths it = []" "bpaths it = pw_paths pw"
    using pw length_pw_paths [OF pw(4)] by (auto simp: item_empty_def bpaths_def item_simps pathwork_isEmpty_def)
  show thesis
  proof (cases "item_empty it")
    case True
    then show thesis using that [of "[]" it] it e by simp
  next
    case False
    then show thesis using tw_send_run [OF pw, of f thesis] that e by simp
  qed
qed

lemma senddone_run:
  assumes "buffer_item tgt it" and "perf_ok perf"
  obtains d where "tw_senddone it perf = [Send_item tgt d]" "is_done perf d"
  using assms that
  by (auto simp: buffer_item_def tw_senddone_def worker_senddone_def is_done_def item_simps pathwork_ok_def)

section \<open>Statistics\<close>

definition perf_counts :: "PerfStat \<Rightarrow> nat \<Rightarrow> u64" where
  "perf_counts perf c = ps_counters perf ! c"

lemma perf_new [simp]: "perf_ok perfstat_new" "c < PERF_MAX_COUNTERS \<Longrightarrow> perf_counts perfstat_new c = 0"
  by (simp_all add: perf_ok_def perfstat_new_def perf_counts_def)

lemma perf_time [simp]:
  "perf_ok (perfstat_set_time perf i t) = perf_ok perf" "perf_counts (perfstat_set_time perf i t) = perf_counts perf"
  by (simp_all add: perf_ok_def perfstat_set_time_def perf_counts_def fun_eq_iff)

lemma perf_elapsed [simp]:
  "perf_ok (perfstat_set_elapcounter perf i t) = perf_ok perf" "perf_counts (perfstat_set_elapcounter perf i t) = perf_counts perf"
  by (simp_all add: perf_ok_def perfstat_set_elapcounter_def perfstat_compute_elapsetime_def perfstat_set_time_def
      perf_counts_def fun_eq_iff Let_def)

lemma perf_inc [simp]:
  "perf_ok (perfstat_inc_counter perf i) = perf_ok perf"
  "perf_ok perf \<Longrightarrow> c < PERF_MAX_COUNTERS \<Longrightarrow> perf_counts (perfstat_inc_counter perf i) c = perf_counts perf c + of_bool (c = i)"
  by (auto simp: perf_ok_def perfstat_inc_counter_def perf_counts_def nth_list_update)

section \<open>Reading directories\<close>

lemma join_paths:
  "concat (map bpaths (submits c)) @ b1 = b @ xs \<Longrightarrow> concat (map bpaths (submits d)) @ b2 = b1 @ ys \<Longrightarrow>
   concat (map bpaths (submits (c @ d))) @ b2 = b @ xs @ ys"
  by simp

definition entries :: "file_system \<Rightarrow> path \<Rightarrow> path list" where
  "entries fs p = (case fs_readdir fs p of Some ns \<Rightarrow> map (\<lambda>n. p @ ''/'' @ n) (filter visible ns) | None \<Rightarrow> [])"

lemma tw_entries_run:
  assumes "buffer_item tgt it" and "\<forall>n \<in> set ns. visible n \<longrightarrow> length (dir @ ''/'' @ n) < PATHSIZE_PLUS"
  shows "\<exists>it' c. tw_entries dir ns it cs = Some (it', cs @ c) \<and> chunk tgt c \<and> buffer_item tgt it' \<and> printed c = [] \<and>
    list_all (sent_item treewalk_statpath) (submits c) \<and>
    concat (map bpaths (submits c)) @ bpaths it' = bpaths it @ map (\<lambda>n. dir @ ''/'' @ n) (filter visible ns)"
  using assms
proof (induction ns arbitrary: it cs)
  case (Cons n ns)
  show ?case
  proof (cases "visible n")
    case False
    then show ?thesis using Cons by (auto simp: visible_def)
  next
    case True
    let ?k = "\<lambda>it cs. tw_entries dir ns it cs"
    from True Cons.prems(2) have p: "length (dir @ ''/'' @ n) < PATHSIZE_PLUS" by simp
    obtain it1 c it2 where s: "item_add_path it (dir @ ''/'' @ n) = Some it1"
      "(if item_full it1 then let (c, it) = tw_send treewalk_statpath it1 in ?k it (cs @ c) else ?k it1 cs) = ?k it2 (cs @ c)"
      "chunk tgt c" "buffer_item tgt it2" "printed c = []" "list_all (sent_item treewalk_statpath) (submits c)"
      "concat (map bpaths (submits c)) @ bpaths it2 = bpaths it @ [dir @ ''/'' @ n]"
      using add_and_send [OF Cons.prems(1) p, where f = treewalk_statpath and k = ?k and cs = cs] .
    have "tw_entries dir (n # ns) it cs =
        (if item_full it1 then let (c, it) = tw_send treewalk_statpath it1 in ?k it (cs @ c) else ?k it1 cs)"
      using True s(1) by (simp add: visible_def tw_sendpaths_def)
    then have run: "tw_entries dir (n # ns) it cs = tw_entries dir ns it2 (cs @ c)" using s(2) by (rule trans)
    have len: "\<forall>n \<in> set ns. visible n \<longrightarrow> length (dir @ ''/'' @ n) < PATHSIZE_PLUS" using Cons.prems(2) by simp
    obtain it' c' where IH: "tw_entries dir ns it2 (cs @ c) = Some (it', (cs @ c) @ c')" "chunk tgt c'" "buffer_item tgt it'"
      "printed c' = []" "list_all (sent_item treewalk_statpath) (submits c')"
      "concat (map bpaths (submits c')) @ bpaths it' = bpaths it2 @ map (\<lambda>n. dir @ ''/'' @ n) (filter visible ns)"
      using Cons.IH [OF s(4) len, of "cs @ c"] by blast
    have "concat (map bpaths (submits (c @ c'))) @ bpaths it' = bpaths it @ map (\<lambda>n. dir @ ''/'' @ n) (filter visible (n # ns))"
      using join_paths [OF s(7) IH(6)] True by simp
    then show ?thesis using run IH(1-5) s(3,5,6)
      by (intro exI [of _ it'] exI [of _ "c @ c'"]) (simp only: append.assoc calls_append list_all_append chunk_append append_Nil simp_thms)
  qed
qed simp

lemma tw_dirs_run:
  assumes "buffer_item tgt it" and "perf_ok perf"
    and "\<forall>d \<in> set ds. fs_closedir fs d \<and> fs_readdir fs d \<noteq> None \<and> (\<forall>p \<in> set (entries fs d). length p < PATHSIZE_PLUS)"
  shows "\<exists>it' perf' c. tw_dirs fs ds it perf cs = Some (False, it', perf', cs @ c) \<and> chunk tgt c \<and> buffer_item tgt it' \<and>
    printed c = [] \<and> list_all (sent_item treewalk_statpath) (submits c) \<and> perf_ok perf' \<and>
    (\<forall>k < PERF_MAX_COUNTERS. perf_counts perf' k = perf_counts perf k + (if k = PERF_DIRS_READ then of_nat (length ds) else 0)) \<and>
    concat (map bpaths (submits c)) @ bpaths it' = bpaths it @ concat (map (entries fs) ds)"
  using assms
proof (induction ds arbitrary: it perf cs)
  case (Cons d ds)
  obtain ns where ns: "fs_readdir fs d = Some ns" "fs_closedir fs d" using Cons.prems(3) by auto
  have len: "\<forall>n \<in> set ns. visible n \<longrightarrow> length (d @ ''/'' @ n) < PATHSIZE_PLUS"
    using Cons.prems(3) ns(1) by (auto simp: entries_def)
  obtain it1 c where s: "tw_entries d ns it cs = Some (it1, cs @ c)" "chunk tgt c" "buffer_item tgt it1" "printed c = []"
    "list_all (sent_item treewalk_statpath) (submits c)"
    "concat (map bpaths (submits c)) @ bpaths it1 = bpaths it @ map (\<lambda>n. d @ ''/'' @ n) (filter visible ns)"
    using tw_entries_run [OF Cons.prems(1) len, of cs] by blast
  have run: "tw_dirs fs (d # ds) it perf cs = tw_dirs fs ds it1 (perfstat_inc_counter perf PERF_DIRS_READ) (cs @ c)"
    using ns s(1) by simp
  obtain it' perf' c' where IH: "tw_dirs fs ds it1 (perfstat_inc_counter perf PERF_DIRS_READ) (cs @ c) = Some (False, it', perf', (cs @ c) @ c')"
    "chunk tgt c'" "buffer_item tgt it'" "printed c' = []" "list_all (sent_item treewalk_statpath) (submits c')" "perf_ok perf'"
    "\<forall>k < PERF_MAX_COUNTERS. perf_counts perf' k = perf_counts (perfstat_inc_counter perf PERF_DIRS_READ) k +
       (if k = PERF_DIRS_READ then of_nat (length ds) else 0)"
    "concat (map bpaths (submits c')) @ bpaths it' = bpaths it1 @ concat (map (entries fs) ds)"
    using Cons.IH [OF s(3), of "perfstat_inc_counter perf PERF_DIRS_READ" "cs @ c"] Cons.prems(2,3) by auto
  have "concat (map bpaths (submits (c @ c'))) @ bpaths it' = bpaths it @ concat (map (entries fs) (d # ds))"
    using join_paths [OF s(6) IH(8)] ns(1) by (simp add: entries_def)
  moreover have "\<forall>k < PERF_MAX_COUNTERS. perf_counts perf' k = perf_counts perf k +
      (if k = PERF_DIRS_READ then of_nat (length (d # ds)) else 0)"
    using IH(7) Cons.prems(2) by simp
  ultimately show ?case using run IH(1-6) s(2,4,5)
    by (intro exI [of _ it'] exI [of _ perf'] exI [of _ "c @ c'"])
      (simp only: append.assoc calls_append list_all_append chunk_append append_Nil simp_thms)
qed simp

section \<open>Paths to stat\<close>

definition is_dir :: "file_system \<Rightarrow> path \<Rightarrow> bool" where
  "is_dir fs p = (case fs_lstat fs p of Some st \<Rightarrow> st_isdir st | None \<Rightarrow> False)"

text \<open>What is printed for a file.\<close>

definition file_line :: "file_system \<Rightarrow> app_options \<Rightarrow> (FileInfo \<Rightarrow> string) \<Rightarrow> path \<Rightarrow> string list" where
  "file_line fs app ls_line p =
     (if a_quiet app \<or> strIsBlank p then [] else [if a_verbose app then ls_line (fileinfo_init p (fs_lstat fs p)) else p])"

lemma process_file_run:
  assumes "fs_lstat fs p = Some st"
  obtains c where "treewalk_process_file app ls_line (fileinfo_init p (Some st)) perf = Some (c, perf)" "chunk tgt c"
    "submits c = []" "printed c = file_line fs app ls_line p"
proof -
  have i: "fi_path (fileinfo_init p (Some st)) = p" "\<not> fi_exists (fileinfo_init p (Some st)) < 0"
    by (simp_all add: fileinfo_init_def)
  show thesis
    by (rule that [of "if a_quiet app \<or> strIsBlank p then [] else
        [Print_line (if a_verbose app then ls_line (fileinfo_init p (fs_lstat fs p)) else p)]"])
      (use i assms in \<open>simp_all add: treewalk_process_file_def file_line_def submits_def printed_def work_call_def\<close>)
qed

lemma tw_paths_run:
  assumes "buffer_item tgt it" and "perf_ok perf" and "\<forall>p \<in> set ps. fs_lstat fs p \<noteq> None \<and> length p < PATHSIZE_PLUS"
  shows "\<exists>it' perf' c. tw_paths fs (treewalk_process_file app ls_line) ps it perf cs = Some (it', perf', cs @ c) \<and>
    chunk tgt c \<and> buffer_item tgt it' \<and> list_all (sent_item treewalk_readdir) (submits c) \<and> perf_ok perf' \<and>
    (\<forall>k < PERF_MAX_COUNTERS. perf_counts perf' k = perf_counts perf k + (if k = PERF_STAT_CALLS then of_nat (length ps) else 0)) \<and>
    printed c = concat (map (file_line fs app ls_line) (filter (\<lambda>p. \<not> is_dir fs p) ps)) \<and>
    concat (map bpaths (submits c)) @ bpaths it' = bpaths it @ filter (is_dir fs) ps"
  using assms
proof (induction ps arbitrary: it perf cs)
  case (Cons p ps)
  let ?pf = "treewalk_process_file app ls_line" and ?perf = "perfstat_inc_counter perf PERF_STAT_CALLS"
  let ?k = "\<lambda>it cs. tw_paths fs ?pf ps it ?perf cs"
  obtain st where st: "fs_lstat fs p = Some st" and len: "length p < PATHSIZE_PLUS" using Cons.prems(3) by auto
  have "\<exists>it1 c. tw_paths fs ?pf (p # ps) it perf cs = ?k it1 (cs @ c) \<and> chunk tgt c \<and> buffer_item tgt it1 \<and>
      list_all (sent_item treewalk_readdir) (submits c) \<and> printed c = (if is_dir fs p then [] else file_line fs app ls_line p) \<and>
      concat (map bpaths (submits c)) @ bpaths it1 = bpaths it @ (if is_dir fs p then [p] else [])"
  proof (cases "st_isdir st")
    case True
    obtain it1 c it2 where s: "item_add_path it p = Some it1"
      "(if item_full it1 then let (c, it) = tw_send treewalk_readdir it1 in ?k it (cs @ c) else ?k it1 cs) = ?k it2 (cs @ c)"
      "chunk tgt c" "buffer_item tgt it2" "printed c = []" "list_all (sent_item treewalk_readdir) (submits c)"
      "concat (map bpaths (submits c)) @ bpaths it2 = bpaths it @ [p]"
      using add_and_send [OF Cons.prems(1) len, where f = treewalk_readdir and k = ?k and cs = cs] .
    have "tw_paths fs ?pf (p # ps) it perf cs =
        (if item_full it1 then let (c, it) = tw_send treewalk_readdir it1 in ?k it (cs @ c) else ?k it1 cs)"
      using st True s(1) by (simp add: tw_senddirs_def Let_def)
    then have "tw_paths fs ?pf (p # ps) it perf cs = ?k it2 (cs @ c)" using s(2) by (rule trans)
    moreover have "is_dir fs p" using st True by (simp add: is_dir_def)
    ultimately show ?thesis using s(3-7) by (intro exI [of _ it2] exI [of _ c]) simp
  next
    case False
    obtain c where c: "?pf (fileinfo_init p (Some st)) ?perf = Some (c, ?perf)" "chunk tgt c" "submits c = []"
      "printed c = file_line fs app ls_line p" using process_file_run [OF st] .
    have "\<not> item_full it" using Cons.prems(1) by (auto simp: buffer_item_def item_full_def item_simps)
    then show ?thesis using st False c Cons.prems(1)
      by (intro exI [of _ it] exI [of _ c]) (simp add: is_dir_def)
  qed
  then obtain it1 c where s: "tw_paths fs ?pf (p # ps) it perf cs = ?k it1 (cs @ c)" "chunk tgt c" "buffer_item tgt it1"
      "list_all (sent_item treewalk_readdir) (submits c)" "printed c = (if is_dir fs p then [] else file_line fs app ls_line p)"
      "concat (map bpaths (submits c)) @ bpaths it1 = bpaths it @ (if is_dir fs p then [p] else [])" by blast
  obtain it' perf' c' where IH: "?k it1 (cs @ c) = Some (it', perf', (cs @ c) @ c')" "chunk tgt c'" "buffer_item tgt it'"
    "list_all (sent_item treewalk_readdir) (submits c')" "perf_ok perf'"
    "\<forall>k < PERF_MAX_COUNTERS. perf_counts perf' k = perf_counts ?perf k + (if k = PERF_STAT_CALLS then of_nat (length ps) else 0)"
    "printed c' = concat (map (file_line fs app ls_line) (filter (\<lambda>p. \<not> is_dir fs p) ps))"
    "concat (map bpaths (submits c')) @ bpaths it' = bpaths it1 @ filter (is_dir fs) ps"
    using Cons.IH [OF s(3), of ?perf "cs @ c"] Cons.prems(2,3) by auto
  have "concat (map bpaths (submits (c @ c'))) @ bpaths it' = bpaths it @ filter (is_dir fs) (p # ps)"
    using join_paths [OF s(6) IH(8)] by simp
  moreover have "\<forall>k < PERF_MAX_COUNTERS. perf_counts perf' k = perf_counts perf k +
      (if k = PERF_STAT_CALLS then of_nat (length (p # ps)) else 0)"
    using IH(6) Cons.prems(2) by simp
  moreover have "printed (c @ c') = concat (map (file_line fs app ls_line) (filter (\<lambda>p. \<not> is_dir fs p) (p # ps)))"
    using IH(7) s(5) by simp
  ultimately show ?case using s(1,2,4) IH(1-5)
    by (intro exI [of _ it'] exI [of _ perf'] exI [of _ "c @ c'"])
      (simp only: append.assoc calls_append list_all_append chunk_append simp_thms)
qed simp

end
