(* ===== verification/Treewalk_Law.thy ===== *)
theory Treewalk_Law
  imports Treewalk_Spec
begin

text \<open>
  What an item of the tree walk stands for: the lines that will be printed and the numbers that will be
  counted for the trees at its paths.  A work function passes this on without loss: what it prints and
  counts itself, and what its items stand for, is what its own item stands for.
\<close>

section \<open>What stands at a path\<close>

definition present :: "file_system \<Rightarrow> path \<Rightarrow> bool" where
  "present fs p \<longleftrightarrow> (\<exists>t. looks_like fs p t)"

definition tree_at :: "file_system \<Rightarrow> path \<Rightarrow> ftree" where
  "tree_at fs p = (SOME t. looks_like fs p t)"

definition lines_of :: "file_system \<Rightarrow> (path \<Rightarrow> string list) \<Rightarrow> path \<Rightarrow> string multiset" where
  "lines_of fs line p = (\<Sum>f \<in># files_under p (tree_at fs p). mset (line f))"

definition stats_of :: "file_system \<Rightarrow> path \<Rightarrow> nat" where
  "stats_of fs p = count_paths (tree_at fs p)"

definition dirs_of :: "file_system \<Rightarrow> path \<Rightarrow> nat" where
  "dirs_of fs p = count_dirs (tree_at fs p)"

lemma tree_at_eq: "looks_like fs p t \<Longrightarrow> tree_at fs p = t"
  unfolding tree_at_def by (rule some_equality) (auto dest: looks_like_unique)

lemma present_length: "present fs p \<Longrightarrow> length p < PATHSIZE_PLUS \<and> fs_lstat fs p \<noteq> None"
proof -
  assume "present fs p"
  then obtain t where "looks_like fs p t" by (auto simp: present_def)
  then show ?thesis by (cases t) (auto split: option.splits)
qed

lemma at_file:
  assumes "present fs p" and "\<not> is_dir fs p"
  shows "lines_of fs line p = mset (line p)" and "stats_of fs p = 1" and "dirs_of fs p = 0"
proof -
  obtain t where t: "looks_like fs p t" using assms(1) by (auto simp: present_def)
  with assms(2) have "t = File" by (cases t) (auto simp: is_dir_def split: option.splits)
  with tree_at_eq [OF t] show "lines_of fs line p = mset (line p)" "stats_of fs p = 1" "dirs_of fs p = 0"
    by (simp_all add: lines_of_def stats_of_def dirs_of_def)
qed

lemma sum_mset_sum_list: "(\<Sum>x \<in># sum_list Ms. f x) = (\<Sum>M\<leftarrow>Ms. \<Sum>x \<in># M. f x)"
  by (induction Ms) simp_all

lemma at_dir:
  assumes "present fs p" and "is_dir fs p"
  shows "lines_of fs line p = (\<Sum>q\<leftarrow>entries fs p. lines_of fs line q)"
    and "stats_of fs p = Suc (\<Sum>q\<leftarrow>entries fs p. stats_of fs q)" and "dirs_of fs p = Suc (\<Sum>q\<leftarrow>entries fs p. dirs_of fs q)"
    and "\<forall>q \<in> set (entries fs p). present fs q" and "fs_closedir fs p" and "fs_readdir fs p \<noteq> None"
proof -
  obtain t where t: "looks_like fs p t" using assms(1) by (auto simp: present_def)
  with assms(2) obtain es where es: "t = Dir es" by (cases t) (auto simp: is_dir_def split: option.splits)
  have ents: "entries fs p = map (\<lambda>e. p @ ''/'' @ fst e) es"
  proof -
    obtain ns where ns: "fs_readdir fs p = Some ns" "filter visible ns = map fst es" using t es by (auto split: option.splits)
    then have "entries fs p = map (\<lambda>n. p @ ''/'' @ n) (map fst es)" by (simp add: entries_def)
    then show ?thesis by simp
  qed
  have sub: "tree_at fs (p @ ''/'' @ fst e) = snd e" "present fs (p @ ''/'' @ fst e)" if "e \<in> set es" for e
    using t es that tree_at_eq unfolding present_def by auto
  have "lines_of fs line (p @ ''/'' @ fst e) = (\<Sum>f \<in># files_under (p @ ''/'' @ fst e) (snd e). mset (line f))"
    "stats_of fs (p @ ''/'' @ fst e) = count_paths (snd e)" "dirs_of fs (p @ ''/'' @ fst e) = count_dirs (snd e)" if "e \<in> set es" for e
    using sub(1) [OF that] by (simp_all add: lines_of_def stats_of_def dirs_of_def)
  then have sums: "map (lines_of fs line) (entries fs p) = map (\<lambda>e. \<Sum>f \<in># files_under (p @ ''/'' @ fst e) (snd e). mset (line f)) es"
    "map (stats_of fs) (entries fs p) = map (\<lambda>e. count_paths (snd e)) es"
    "map (dirs_of fs) (entries fs p) = map (\<lambda>e. count_dirs (snd e)) es"
    unfolding ents map_map comp_def by (auto intro!: map_cong)
  have at: "tree_at fs p = Dir es" using tree_at_eq [OF t] es by simp
  show "lines_of fs line p = (\<Sum>q\<leftarrow>entries fs p. lines_of fs line q)"
    unfolding sums by (simp add: lines_of_def at sum_mset_sum_list comp_def)
  show "stats_of fs p = Suc (\<Sum>q\<leftarrow>entries fs p. stats_of fs q)" "dirs_of fs p = Suc (\<Sum>q\<leftarrow>entries fs p. dirs_of fs q)"
    unfolding sums by (simp_all add: stats_of_def dirs_of_def at)
  show "\<forall>q \<in> set (entries fs p). present fs q" unfolding ents using sub(2) by auto
  show "fs_closedir fs p" "fs_readdir fs p \<noteq> None" using t es by (auto split: option.splits)
qed

section \<open>What an item stands for\<close>

definition paths_in :: "WorkItem \<Rightarrow> path list" where
  "paths_in it = (case item_paths it of Some ps \<Rightarrow> ps | None \<Rightarrow> [])"

definition tw_item :: "file_system \<Rightarrow> WorkItem \<Rightarrow> bool" where
  "tw_item fs it \<longleftrightarrow> \<not> manager_run it \<and> 0 \<le> qidx it \<and> \<not> workitem_hasWorkRequest it \<and> item_paths it \<noteq> None \<and>
     paths_in it \<noteq> [] \<and> (\<forall>p \<in> set (paths_in it). present fs p) \<and>
     (do_work it = Some treewalk_statpath \<or> do_work it = Some treewalk_readdir \<and> (\<forall>p \<in> set (paths_in it). is_dir fs p))"

definition item_lines :: "file_system \<Rightarrow> (path \<Rightarrow> string list) \<Rightarrow> WorkItem \<Rightarrow> string multiset" where
  "item_lines fs line it = (\<Sum>p\<leftarrow>paths_in it. lines_of fs line p)"

definition item_counts :: "file_system \<Rightarrow> nat \<Rightarrow> WorkItem \<Rightarrow> u64" where
  "item_counts fs k it =
     (if k = PERF_STAT_CALLS then of_nat (\<Sum>p\<leftarrow>paths_in it. stats_of fs p - (if do_work it = Some treewalk_readdir then 1 else 0))
      else if k = PERF_DIRS_READ then of_nat (\<Sum>p\<leftarrow>paths_in it. dirs_of fs p) else 0)"

text \<open>Work on an item is followed by work on items of a smaller rank.\<close>

definition tw_rank :: "file_system \<Rightarrow> WorkItem \<Rightarrow> nat" where
  "tw_rank fs it = 2 * (\<Sum>p\<leftarrow>paths_in it. stats_of fs p) + (if do_work it = Some treewalk_statpath then 1 else 0)"

lemma sent_item_paths:
  assumes "sent_item f it"
  shows "item_paths it = Some (bpaths it)" "paths_in it = bpaths it" "\<not> workitem_hasWorkRequest it" "\<not> manager_run it"
    "qidx it = 0" "do_work it = Some f" "paths_in it \<noteq> []"
proof -
  obtain pw where pw: "workdata it = Some (Work_Paths pw)" "pathwork_ok pw" "do_work it = Some f" "\<not> manager_run it" "qidx it = 0"
    "pw_paths pw \<noteq> []"
    using assms by (auto simp: sent_item_def)
  then have "pw_type pw = PATHWORK_TYPE" "pw_size pw \<le> length (pw_buf pw)" by (simp_all add: pathwork_ok_def)
  with pw show "item_paths it = Some (bpaths it)" "paths_in it = bpaths it" "\<not> workitem_hasWorkRequest it" "\<not> manager_run it"
    "qidx it = 0" "do_work it = Some f" "paths_in it \<noteq> []"
    by (simp_all add: paths_in_def item_paths_def bpaths_def item_simps type_marks)
qed

lemma sent_items_sum:
  assumes "list_all (sent_item f) its"
  shows "(\<Sum>it\<leftarrow>its. \<Sum>p\<leftarrow>paths_in it. g p) = (\<Sum>p\<leftarrow>concat (map bpaths its). g p)"
  using assms by (induction its) (auto dest!: sent_item_paths(2))

lemma sent_items:
  assumes "list_all (sent_item f) its" and ps: "concat (map bpaths its) = ps"
    and f: "f = treewalk_statpath \<or> f = treewalk_readdir \<and> (\<forall>p \<in> set ps. is_dir fs p)" and "\<forall>p \<in> set ps. present fs p"
  shows "\<forall>it \<in> set its. tw_item fs it"
    and "(\<Sum>it\<leftarrow>its. item_lines fs line it) = (\<Sum>p\<leftarrow>ps. lines_of fs line p)"
    and "(\<Sum>it\<leftarrow>its. item_counts fs k it) =
      (if k = PERF_STAT_CALLS then of_nat (\<Sum>p\<leftarrow>ps. stats_of fs p - (if f = treewalk_readdir then 1 else 0))
       else if k = PERF_DIRS_READ then of_nat (\<Sum>p\<leftarrow>ps. dirs_of fs p) else 0)"
    and "\<forall>it \<in> set its. tw_rank fs it \<le> 2 * (\<Sum>p\<leftarrow>ps. stats_of fs p) + (if f = treewalk_statpath then 1 else 0)"
proof -
  show "\<forall>it \<in> set its. tw_item fs it"
  proof
    fix it assume it: "it \<in> set its"
    then have s: "sent_item f it" using assms(1) by (simp add: list_all_iff)
    have "set (bpaths it) \<subseteq> set ps" using it ps by auto
    then show "tw_item fs it" using f assms(4) sent_item_paths [OF s] by (auto simp: tw_item_def)
  qed
  show "(\<Sum>it\<leftarrow>its. item_lines fs line it) = (\<Sum>p\<leftarrow>ps. lines_of fs line p)"
    unfolding item_lines_def sent_items_sum [OF assms(1)] ps ..
  show "\<forall>it \<in> set its. tw_rank fs it \<le> 2 * (\<Sum>p\<leftarrow>ps. stats_of fs p) + (if f = treewalk_statpath then 1 else 0)"
  proof
    fix it assume it: "it \<in> set its"
    then have s: "sent_item f it" using assms(1) by (simp add: list_all_iff)
    have "(\<Sum>p\<leftarrow>paths_in it. stats_of fs p) \<le> (\<Sum>it\<leftarrow>its. \<Sum>p\<leftarrow>paths_in it. stats_of fs p)"
      using it by (intro member_le_sum_list) auto
    then show "tw_rank fs it \<le> 2 * (\<Sum>p\<leftarrow>ps. stats_of fs p) + (if f = treewalk_statpath then 1 else 0)"
      unfolding sent_items_sum [OF assms(1)] ps using sent_item_paths(6) [OF s] by (simp add: tw_rank_def)
  qed
  have fs: "do_work it = Some f" if "it \<in> set its" for it
    using assms(1) that sent_item_paths(6) by (auto simp: list_all_iff)
  have "(\<Sum>it\<leftarrow>its. item_counts fs k it) = (if k = PERF_STAT_CALLS
       then of_nat (\<Sum>it\<leftarrow>its. \<Sum>p\<leftarrow>paths_in it. stats_of fs p - (if f = treewalk_readdir then 1 else 0))
       else if k = PERF_DIRS_READ then of_nat (\<Sum>it\<leftarrow>its. \<Sum>p\<leftarrow>paths_in it. dirs_of fs p) else 0)"
    using fs by (induction its) (simp_all add: item_counts_def)
  then show "(\<Sum>it\<leftarrow>its. item_counts fs k it) =
      (if k = PERF_STAT_CALLS then of_nat (\<Sum>p\<leftarrow>ps. stats_of fs p - (if f = treewalk_readdir then 1 else 0))
       else if k = PERF_DIRS_READ then of_nat (\<Sum>p\<leftarrow>ps. dirs_of fs p) else 0)"
    unfolding sent_items_sum [OF assms(1)] ps .
qed

section \<open>The laws\<close>

text \<open>The work functions by their pointers, for a walk with treewalk_process_file.\<close>

definition tw_work :: "file_system \<Rightarrow> app_options \<Rightarrow> (FileInfo \<Rightarrow> string) \<Rightarrow> timeval \<Rightarrow> timeval \<Rightarrow> WorkItem \<Rightarrow> call list option" where
  "tw_work fs app ls_line t0 t1 it =
     (case do_work it of
        Some treewalk_readdir \<Rightarrow> treewalk_readdir_calls fs t0 t1 it
      | Some treewalk_statpath \<Rightarrow> treewalk_statpath_calls fs (treewalk_process_file app ls_line) t0 t1 it
      | _ \<Rightarrow> None)"

lemma program_end:
  assumes "chunk tgt cs" and "is_done perf d"
  shows "program tgt (cs @ [Send_item tgt d]) perf" "submits (cs @ [Send_item tgt d]) = submits cs"
    "printed (cs @ [Send_item tgt d]) = printed cs"
  using assms by (auto simp: program_def submits_def printed_def work_call_def is_done_def)

lemma sum_split_dirs:
  fixes g :: "path \<Rightarrow> 'b :: comm_monoid_add"
  shows "(\<Sum>p\<leftarrow>ps. g p) = (\<Sum>p\<leftarrow>filter (\<lambda>p. \<not> is_dir fs p) ps. g p) + (\<Sum>p\<leftarrow>filter (is_dir fs) ps. g p)"
  by (induction ps) (simp_all add: ac_simps)

lemma stats_split:
  "\<forall>p \<in> set ps. present fs p \<Longrightarrow>
   (\<Sum>p\<leftarrow>ps. stats_of fs p) = length ps + (\<Sum>p\<leftarrow>filter (is_dir fs) ps. stats_of fs p - 1)"
proof (induction ps)
  case (Cons p ps)
  then show ?case by (cases "is_dir fs p") (use at_file(2) [of fs p] at_dir(2) [of fs p] in simp_all)
qed simp

lemma statpath_law:
  assumes it: "tw_item fs it" and fn: "do_work it = Some treewalk_statpath"
  obtains cs perf where "tw_work fs app ls_line t0 t1 it = Some cs" "program (originator it) cs perf" "\<forall>j \<in> set (submits cs). tw_item fs j \<and> tw_rank fs j < tw_rank fs it"
    "item_lines fs (file_line fs app ls_line) it = mset (printed cs) + (\<Sum>j\<leftarrow>submits cs. item_lines fs (file_line fs app ls_line) j)"
    "\<forall>k < PERF_MAX_COUNTERS. item_counts fs k it = perf_counts perf k + (\<Sum>j\<leftarrow>submits cs. item_counts fs k j)"
proof -
  let ?tgt = "originator it" and ?line = "file_line fs app ls_line"
  define ps where "ps = paths_in it"
  have ps: "item_paths it = Some ps" "\<forall>p \<in> set ps. present fs p" using it by (auto simp: tw_item_def ps_def paths_in_def)
  then have ok: "\<forall>p \<in> set ps. fs_lstat fs p \<noteq> None \<and> length p < PATHSIZE_PLUS" using present_length by blast
  let ?perf0 = "perfstat_set_time perfstat_new PERF_START_TIME t0"
  have "perf_ok ?perf0" by simp
  from tw_paths_run [OF buffer_item_new(1) [of ?tgt] this ok, of app ls_line "[]"]
  obtain it1 perf c where run: "tw_paths fs (treewalk_process_file app ls_line) ps (item_buffer ?tgt) ?perf0 [] = Some (it1, perf, c)"
    "chunk ?tgt c" "buffer_item ?tgt it1" "list_all (sent_item treewalk_readdir) (submits c)" "perf_ok perf"
    "\<forall>k < PERF_MAX_COUNTERS. perf_counts perf k = perf_counts ?perf0 k + (if k = PERF_STAT_CALLS then of_nat (length ps) else 0)"
    "printed c = concat (map ?line (filter (\<lambda>p. \<not> is_dir fs p) ps))"
    "concat (map bpaths (submits c)) @ bpaths it1 = filter (is_dir fs) ps"
    by (auto simp: buffer_item_new)
  obtain c2 it2 where rest: "(if item_empty it1 then ([], it1) else tw_send treewalk_readdir it1) = (c2, it2)" "chunk ?tgt c2"
    "buffer_item ?tgt it2" "printed c2 = []" "list_all (sent_item treewalk_readdir) (submits c2)"
    "concat (map bpaths (submits c2)) = bpaths it1"
    using send_rest [OF run(3), of treewalk_readdir] .
  let ?perf = "perfstat_set_elapcounter (perfstat_set_time perf PERF_END_TIME t1) PERF_STAT_CALLS t1"
  have "perf_ok ?perf" using run(5) by simp
  then obtain d where d: "tw_senddone it2 ?perf = [Send_item ?tgt d]" "is_done ?perf d" by (rule senddone_run [OF rest(3)])
  let ?cs = "(c @ c2) @ [Send_item ?tgt d]"
  have work: "tw_work fs app ls_line t0 t1 it = Some ?cs"
    using ps(1) run(1) rest(1) d(1) fn
    by (cases "item_empty it1") (simp_all add: tw_work_def treewalk_statpath_calls_def tw_senddirs_def)
  have ch: "chunk ?tgt (c @ c2)" using run(2) rest(2) by simp
  have subs: "submits ?cs = submits (c @ c2)" "printed ?cs = printed c" using program_end(2,3) [OF ch d(2)] rest(4) by simp_all
  have all: "list_all (sent_item treewalk_readdir) (submits (c @ c2))"
    "concat (map bpaths (submits (c @ c2))) = filter (is_dir fs) ps" using run(4,8) rest(5,6) by simp_all
  have dirs: "\<forall>p \<in> set (filter (is_dir fs) ps). present fs p" "\<forall>p \<in> set (filter (is_dir fs) ps). is_dir fs p" using ps(2) by auto
  note sent = sent_items [OF all disjI2 [OF conjI [OF refl dirs(2)]] dirs(1)]
  have "(\<Sum>p\<leftarrow>filter (\<lambda>p. \<not> is_dir fs p) ps. lines_of fs ?line p) = mset (printed c)"
    unfolding run(7) using ps(2) by (induction ps) (auto simp: at_file(1))
  then have lines: "item_lines fs ?line it = mset (printed ?cs) + (\<Sum>j\<leftarrow>submits ?cs. item_lines fs ?line j)"
    unfolding subs sent(2) item_lines_def [of fs ?line it] ps_def [symmetric] by (subst sum_split_dirs [of _ _ fs]) simp
  have files: "(\<Sum>p\<leftarrow>filter (\<lambda>p. \<not> is_dir fs p) ps. dirs_of fs p) = 0" using ps(2) by (induction ps) (auto simp: at_file(3))
  have counts: "item_counts fs k it = perf_counts ?perf k + (\<Sum>j\<leftarrow>submits ?cs. item_counts fs k j)" if "k < PERF_MAX_COUNTERS" for k
  proof -
    have p: "perf_counts ?perf k = (if k = PERF_STAT_CALLS then of_nat (length ps) else 0)"
      using run(6) that by (simp add: PERF_MAX_COUNTERS_def)
    have "(\<Sum>p\<leftarrow>ps. dirs_of fs p) = (\<Sum>p\<leftarrow>filter (is_dir fs) ps. dirs_of fs p)"
      using files sum_split_dirs [of "dirs_of fs" ps fs] by simp
    then show ?thesis unfolding p subs sent(3) item_counts_def [of fs k it] ps_def [symmetric]
      using fn stats_split [OF ps(2)] by (simp add: perf_idx)
  qed
  have "tw_rank fs j < tw_rank fs it" if "j \<in> set (submits ?cs)" for j
  proof -
    have "tw_rank fs j \<le> 2 * (\<Sum>p\<leftarrow>filter (is_dir fs) ps. stats_of fs p)" using sent(4) that subs(1) by auto
    also have "\<dots> \<le> 2 * (\<Sum>p\<leftarrow>ps. stats_of fs p)" using sum_split_dirs [of "stats_of fs" ps fs] by simp
    finally show ?thesis using fn by (simp add: tw_rank_def ps_def)
  qed
  with sent(1) subs(1) have "\<forall>j \<in> set (submits ?cs). tw_item fs j \<and> tw_rank fs j < tw_rank fs it" by simp
  then show thesis using that [OF work program_end(1) [OF ch d(2)]] lines counts by simp
qed

lemma readdir_law:
  assumes it: "tw_item fs it" and fn: "do_work it = Some treewalk_readdir"
  obtains cs perf where "tw_work fs app ls_line t0 t1 it = Some cs" "program (originator it) cs perf" "\<forall>j \<in> set (submits cs). tw_item fs j \<and> tw_rank fs j < tw_rank fs it"
    "item_lines fs (file_line fs app ls_line) it = mset (printed cs) + (\<Sum>j\<leftarrow>submits cs. item_lines fs (file_line fs app ls_line) j)"
    "\<forall>k < PERF_MAX_COUNTERS. item_counts fs k it = perf_counts perf k + (\<Sum>j\<leftarrow>submits cs. item_counts fs k j)"
proof -
  let ?tgt = "originator it" and ?line = "file_line fs app ls_line"
  define ps where "ps = paths_in it"
  have ps: "item_paths it = Some ps" "\<forall>p \<in> set ps. present fs p" "\<forall>p \<in> set ps. is_dir fs p"
    using it fn by (auto simp: tw_item_def ps_def paths_in_def)
  then have dir: "lines_of fs ?line p = (\<Sum>q\<leftarrow>entries fs p. lines_of fs ?line q)"
      "stats_of fs p - 1 = (\<Sum>q\<leftarrow>entries fs p. stats_of fs q)" "dirs_of fs p = Suc (\<Sum>q\<leftarrow>entries fs p. dirs_of fs q)"
      "\<forall>q \<in> set (entries fs p). present fs q" "fs_closedir fs p" "fs_readdir fs p \<noteq> None" if "p \<in> set ps" for p
    using at_dir [of fs p] that by auto
  then have ok: "\<forall>d \<in> set ps. fs_closedir fs d \<and> fs_readdir fs d \<noteq> None \<and> (\<forall>p \<in> set (entries fs d). length p < PATHSIZE_PLUS)"
    using present_length by blast
  let ?perf0 = "perfstat_set_time perfstat_new PERF_START_TIME t0"
  have "perf_ok ?perf0" by simp
  from tw_dirs_run [OF buffer_item_new(1) [of ?tgt] this ok, of "[]"]
  obtain it1 perf c where run: "tw_dirs fs ps (item_buffer ?tgt) ?perf0 [] = Some (False, it1, perf, c)"
    "chunk ?tgt c" "buffer_item ?tgt it1" "printed c = []" "list_all (sent_item treewalk_statpath) (submits c)" "perf_ok perf"
    "\<forall>k < PERF_MAX_COUNTERS. perf_counts perf k = perf_counts ?perf0 k + (if k = PERF_DIRS_READ then of_nat (length ps) else 0)"
    "concat (map bpaths (submits c)) @ bpaths it1 = concat (map (entries fs) ps)"
    by (auto simp: buffer_item_new)
  obtain c2 it2 where rest: "(if item_empty it1 then ([], it1) else tw_send treewalk_statpath it1) = (c2, it2)" "chunk ?tgt c2"
    "buffer_item ?tgt it2" "printed c2 = []" "list_all (sent_item treewalk_statpath) (submits c2)"
    "concat (map bpaths (submits c2)) = bpaths it1"
    using send_rest [OF run(3), of treewalk_statpath] .
  let ?perf = "perfstat_set_elapcounter (perfstat_set_time perf PERF_END_TIME t1) PERF_DIRS_READ t1"
  have "perf_ok ?perf" using run(6) by simp
  then obtain d where d: "tw_senddone it2 ?perf = [Send_item ?tgt d]" "is_done ?perf d" by (rule senddone_run [OF rest(3)])
  let ?cs = "(c @ c2) @ [Send_item ?tgt d]"
  have work: "tw_work fs app ls_line t0 t1 it = Some ?cs"
    using ps(1) run(1) rest(1) d(1) fn
    by (cases "item_empty it1") (simp_all add: tw_work_def treewalk_readdir_calls_def tw_sendpaths_def)
  have ch: "chunk ?tgt (c @ c2)" using run(2) rest(2) by simp
  have subs: "submits ?cs = submits (c @ c2)" "printed ?cs = []" using program_end(2,3) [OF ch d(2)] run(4) rest(4) by simp_all
  let ?qs = "concat (map (entries fs) ps)"
  have all: "list_all (sent_item treewalk_statpath) (submits (c @ c2))" "concat (map bpaths (submits (c @ c2))) = ?qs"
    using run(5,8) rest(5,6) by simp_all
  have pres: "\<forall>q \<in> set ?qs. present fs q" using dir(4) by auto
  note sent = sent_items [OF all disjI1 [OF refl] pres]
  have "(\<Sum>p\<leftarrow>ps. lines_of fs ?line p) = (\<Sum>q\<leftarrow>?qs. lines_of fs ?line q)" using dir(1) by (induction ps) simp_all
  then have lines: "item_lines fs ?line it = mset (printed ?cs) + (\<Sum>j\<leftarrow>submits ?cs. item_lines fs ?line j)"
    unfolding subs sent(2) item_lines_def [of fs ?line it] ps_def [symmetric] by simp
  have stats: "(\<Sum>p\<leftarrow>ps. stats_of fs p - 1) = (\<Sum>q\<leftarrow>?qs. stats_of fs q)" using dir(2) by (induction ps) simp_all
  have dirs: "(\<Sum>p\<leftarrow>ps. dirs_of fs p) = length ps + (\<Sum>q\<leftarrow>?qs. dirs_of fs q)" using dir(3) by (induction ps) simp_all
  have counts: "item_counts fs k it = perf_counts ?perf k + (\<Sum>j\<leftarrow>submits ?cs. item_counts fs k j)" if "k < PERF_MAX_COUNTERS" for k
  proof -
    have p: "perf_counts ?perf k = (if k = PERF_DIRS_READ then of_nat (length ps) else 0)"
      using run(7) that by (simp add: PERF_MAX_COUNTERS_def)
    show ?thesis unfolding p subs sent(3) item_counts_def [of fs k it] ps_def [symmetric]
      using fn stats dirs by (simp add: perf_idx)
  qed
  have "tw_rank fs j < tw_rank fs it" if "j \<in> set (submits ?cs)" for j
  proof -
    have "ps \<noteq> []" using it by (simp add: tw_item_def ps_def)
    have "(\<Sum>p\<leftarrow>ps. stats_of fs p) = length ps + (\<Sum>q\<leftarrow>?qs. stats_of fs q)"
      using stats_split [OF ps(2)] ps(3) stats by simp
    with \<open>ps \<noteq> []\<close> have "(\<Sum>q\<leftarrow>?qs. stats_of fs q) < (\<Sum>p\<leftarrow>ps. stats_of fs p)" by simp
    moreover have "tw_rank fs j \<le> 2 * (\<Sum>q\<leftarrow>?qs. stats_of fs q) + 1" using sent(4) that subs(1) by auto
    ultimately show ?thesis using fn by (simp add: tw_rank_def ps_def)
  qed
  with sent(1) subs(1) have "\<forall>j \<in> set (submits ?cs). tw_item fs j \<and> tw_rank fs j < tw_rank fs it" by simp
  then show thesis using that [OF work program_end(1) [OF ch d(2)]] lines counts by simp
qed

end
