(* ===== verification/Pwt_Correct.thy ===== *)
theory Pwt_Correct
  imports Pwt_Job Treewalk_Law
begin

text \<open>
  No work is lost and none is done twice: the invariant of the processes of \<^verbatim>\<open>pftool\<close>.  The locale \<open>pwt_app\<close>
  is what the manager and the workers rely on in an application; it carries a weight of items, lines
  and statistics in any commutative monoid, which every step preserves.
\<close>

section \<open>What the queues hold\<close>

definition q_contents :: "'i WorkQ \<Rightarrow> (nat \<times> 'i) list" where
  "q_contents q = map (\<lambda>p. (p, en_item (q_heap q p))) (q_cells (q_heap q) (nat (q_count q)) (q_head q))"

definition queues_of :: "Scheduler \<Rightarrow> queues" where
  "queues_of sched = map q_contents (sc_workq sched)"

lemma q_cells_chained:
  "chained h e xs \<Longrightarrow> q_cells h (length xs) e = map fst xs \<and> map (\<lambda>p. (p, en_item (h p))) (map fst xs) = xs"
proof (induction xs arbitrary: e)
  case (Cons x xs)
  then show ?case by (cases x) auto
qed simp

lemma q_contents_eq: "queue_holds q xs \<Longrightarrow> q_contents q = xs"
  using q_cells_chained [of "q_heap q" "q_head q" xs] by (simp add: q_contents_def queue_holds_def)

lemma queues_of_eq: "sched_holds sched xss \<Longrightarrow> queues_of sched = xss"
  by (intro nth_equalityI) (auto simp: queues_of_def sched_holds_def q_contents_eq)

lemma fresh_entry_iff:
  assumes "sched_holds sched xss"
  shows "fresh_entry sched p \<longleftrightarrow> (\<forall>xs \<in> set xss. p \<notin> fst ` set xs)"
proof -
  have "set (q_cells (q_heap q) (nat (q_count q)) (q_head q)) = fst ` set (q_contents q)" for q :: "WorkItem WorkQ"
    by (simp add: q_contents_def image_comp comp_def)
  then show ?thesis
    unfolding queues_of_eq [OF assms, symmetric] by (auto simp: fresh_entry_def list_all_iff queues_of_def)
qed

section \<open>The invariant\<close>

definition acking :: "'m job \<Rightarrow> int \<Rightarrow> bool" where
  "acking jb w \<longleftrightarrow> (case jb_manager jb of Acking v i \<Rightarrow> v = w | _ \<Rightarrow> False)"

definition is_request :: "int \<Rightarrow> WorkItem \<Rightarrow> bool" where
  "is_request w it \<longleftrightarrow> workdata it = Some (Work_Request workreq_clear) \<and> originator it = w \<and> 0 \<le> qidx it \<and> \<not> manager_run it"

definition is_accept :: "WorkItem \<Rightarrow> bool" where
  "is_accept it \<longleftrightarrow> workdata it = Some (Work_Request workreq_clear)"

definition prog_ok :: "(WorkItem \<Rightarrow> bool) \<Rightarrow> call list \<Rightarrow> bool" where
  "prog_ok ok cs \<longleftrightarrow> (\<exists>perf. program 0 cs perf) \<and> (\<forall>j \<in> set (submits cs). ok j)"

text \<open>An item the manager waits for.\<close>

definition awaited :: "(WorkItem \<Rightarrow> bool) \<Rightarrow> bool \<Rightarrow> WorkItem list \<Rightarrow> bool" where
  "awaited ok ack pre \<longleftrightarrow> (if ack then \<exists>it. pre = [it] \<and> ok it else pre = [])"

text \<open>\<open>f\<close>: what the table of the manager says of the worker; \<open>ack\<close>: the manager waits for an item of it; \<open>up\<close> and \<open>down\<close>:
  the messages to and from the manager.\<close>

fun worker_inv :: "(WorkItem \<Rightarrow> bool) \<Rightarrow> int \<Rightarrow> int \<Rightarrow> bool \<Rightarrow> WorkItem list \<Rightarrow> WorkItem list \<Rightarrow> wstate \<Rightarrow> bool" where
  "worker_inv ok w f ack up down (Running cs) \<longleftrightarrow> f = 1 \<and> down = [] \<and>
     (prog_ok ok cs \<and> awaited ok ack up \<or>
      (\<exists>it cs'. cs = Send_item 0 it # cs' \<and> ok it \<and> prog_ok ok cs' \<and> ack \<and> up = []))"
| "worker_inv ok w f ack up down (Requesting b t cs) \<longleftrightarrow> f = 1 \<and> t = 0 \<and>
     (\<exists>it cs'. cs = Send_item 0 it # cs' \<and> ok it \<and> prog_ok ok cs') \<and>
     (down = [] \<and> (\<exists>pre r. up = pre @ [r] \<and> is_request w r \<and> awaited ok ack pre) \<or>
      up = [] \<and> ack \<and> (\<exists>a. down = [a] \<and> is_accept a))"
| "worker_inv ok w f ack up down _ \<longleftrightarrow>
     f = 0 \<and> up = [] \<and> down = [] \<and> \<not> ack \<or>
     f = 1 \<and> up = [] \<and> \<not> ack \<and> (\<exists>it. down = [it] \<and> ok it \<and> originator it = 0) \<or>
     f = 1 \<and> down = [] \<and> (\<exists>pre d perf. up = pre @ [d] \<and> is_done perf d \<and> originator d = w \<and> awaited ok ack pre)"

definition worker_at :: "(WorkItem \<Rightarrow> bool) \<Rightarrow> 'm job \<Rightarrow> int \<Rightarrow> bool" where
  "worker_at ok jb w \<longleftrightarrow> worker_inv ok w (sc_processes (jb_sched jb) ! nat w) (acking jb w) (jb_chan jb w 0) (jb_chan jb 0 w)
     (wk_state (jb_worker jb w))"

definition sched_inv :: "(WorkItem \<Rightarrow> bool) \<Rightarrow> int \<Rightarrow> Scheduler \<Rightarrow> bool" where
  "sched_inv ok n sched \<longleftrightarrow> sched_holds sched (queues_of sched) \<and> (\<forall>xs \<in> set (queues_of sched). \<forall>e \<in> set xs. ok (snd e)) \<and>
     1 \<le> n \<and> length (sc_processes sched) = nat n \<and> sc_processes sched ! 0 = 1 \<and> sc_stop_proc sched = Some worker_exit"

definition links_inv :: "int \<Rightarrow> 'm job \<Rightarrow> bool" where
  "links_inv n jb \<longleftrightarrow> (\<forall>s t. s = 0 \<and> 1 \<le> t \<and> t < n \<or> t = 0 \<and> 1 \<le> s \<and> s < n \<or> jb_chan jb s t = [])"

definition manager_inv :: "int \<Rightarrow> 'm job \<Rightarrow> bool" where
  "manager_inv n jb \<longleftrightarrow> (case jb_manager jb of Acking w i \<Rightarrow> 1 \<le> w \<and> w < n \<and> i < length (sc_workq (jb_sched jb)) | _ \<Rightarrow> True)"

definition fin_at :: "'m job \<Rightarrow> int \<Rightarrow> bool" where
  "fin_at jb w \<longleftrightarrow> wk_state (jb_worker jb w) \<in> {Serving, Left} \<and> jb_chan jb w 0 = [] \<and>
     (jb_chan jb 0 w = [] \<or> (\<exists>e. jb_chan jb 0 w = [e] \<and> do_work e = Some worker_exit))"

definition job_inv :: "(WorkItem \<Rightarrow> bool) \<Rightarrow> int \<Rightarrow> 'm job \<Rightarrow> bool" where
  "job_inv ok n jb \<longleftrightarrow> sched_inv ok n (jb_sched jb) \<and> links_inv n jb \<and> manager_inv n jb \<and>
     (if jb_manager jb = Finished
      then (\<forall>w. 1 \<le> w \<and> w < n \<longrightarrow> fin_at jb w) \<and> (\<forall>xs \<in> set (queues_of (jb_sched jb)). xs = [])
      else \<forall>w. 1 \<le> w \<and> w < n \<longrightarrow> worker_at ok jb w)"

lemma job_inv_split:
  assumes "job_inv ok n jb" and "jb_manager jb \<noteq> Finished"
  shows "sched_inv ok n (jb_sched jb)" "links_inv n jb" "manager_inv n jb" "\<And>w. 1 \<le> w \<Longrightarrow> w < n \<Longrightarrow> worker_at ok jb w"
  using assms by (simp_all add: job_inv_def)

text \<open>Only the part of worker \<open>w\<close> changes.\<close>

definition same_but :: "int \<Rightarrow> 'm job \<Rightarrow> 'm job \<Rightarrow> bool" where
  "same_but w jb jb' \<longleftrightarrow> (\<forall>s t. \<not> (s = 0 \<and> t = w) \<longrightarrow> \<not> (s = w \<and> t = 0) \<longrightarrow> jb_chan jb' s t = jb_chan jb s t) \<and>
     (\<forall>v. v \<noteq> w \<longrightarrow> jb_worker jb' v = jb_worker jb v) \<and>
     (\<forall>i. i \<noteq> nat w \<longrightarrow> sc_processes (jb_sched jb') ! i = sc_processes (jb_sched jb) ! i) \<and>
     (\<forall>v. v \<noteq> w \<longrightarrow> acking jb' v = acking jb v)"

lemma same_but_chan: "same_but w jb jb' \<Longrightarrow> \<not> (s = 0 \<and> t = w) \<Longrightarrow> \<not> (s = w \<and> t = 0) \<Longrightarrow> jb_chan jb' s t = jb_chan jb s t"
  by (simp add: same_but_def)

lemma job_invI:
  assumes inv: "job_inv ok n jb" "jb_manager jb \<noteq> Finished" "jb_manager jb' \<noteq> Finished" and w: "1 \<le> w" "w < n"
    and same: "same_but w jb jb'" and sched: "sched_inv ok n (jb_sched jb')" and mgr: "manager_inv n jb'"
    and at: "worker_at ok jb' w"
  shows "job_inv ok n jb'"
proof -
  have "worker_at ok jb' v" if "1 \<le> v" "v < n" for v
  proof (cases "v = w")
    case False
    then have "nat v \<noteq> nat w" using that w by simp
    moreover have "jb_chan jb' v 0 = jb_chan jb v 0" "jb_chan jb' 0 v = jb_chan jb 0 v" "jb_worker jb' v = jb_worker jb v"
      "acking jb' v = acking jb v" "\<forall>i. i \<noteq> nat w \<longrightarrow> sc_processes (jb_sched jb') ! i = sc_processes (jb_sched jb) ! i"
      using same False that w unfolding same_but_def by auto
    ultimately show ?thesis using job_inv_split(4) [OF inv(1,2) that] unfolding worker_at_def by simp
  qed (simp add: at)
  moreover have "links_inv n jb'"
    unfolding links_inv_def
  proof (intro allI)
    fix s t
    show "s = 0 \<and> 1 \<le> t \<and> t < n \<or> t = 0 \<and> 1 \<le> s \<and> s < n \<or> jb_chan jb' s t = []"
    proof (cases "s = 0 \<and> t = w \<or> s = w \<and> t = 0")
      case True
      then show ?thesis using w by blast
    next
      case False
      then have "jb_chan jb' s t = jb_chan jb s t" by (intro same_but_chan [OF same]) blast+
      with job_inv_split(2) [OF inv(1,2), unfolded links_inv_def, THEN spec, THEN spec, of s t] show ?thesis by (simp only:)
    qed
  qed
  ultimately show ?thesis using inv(3) sched mgr by (simp add: job_inv_def)
qed

section \<open>Weights\<close>

definition call_weight :: "(WorkItem \<Rightarrow> 'w) \<Rightarrow> (string \<Rightarrow> 'w) \<Rightarrow> call \<Rightarrow> 'w :: comm_monoid_add" where
  "call_weight wi wp c = (case c of Print_line s \<Rightarrow> wp s | Send_item t it \<Rightarrow> wi it | Request t q \<Rightarrow> 0)"

definition calls_weight :: "(WorkItem \<Rightarrow> 'w) \<Rightarrow> (string \<Rightarrow> 'w) \<Rightarrow> call list \<Rightarrow> 'w :: comm_monoid_add" where
  "calls_weight wi wp cs = (\<Sum>c\<leftarrow>cs. call_weight wi wp c)"

fun state_weight :: "(WorkItem \<Rightarrow> 'w) \<Rightarrow> (string \<Rightarrow> 'w) \<Rightarrow> wstate \<Rightarrow> 'w :: comm_monoid_add" where
  "state_weight wi wp (Running cs) = calls_weight wi wp cs"
| "state_weight wi wp (Requesting b t cs) = calls_weight wi wp cs"
| "state_weight wi wp _ = 0"

definition share :: "(WorkItem \<Rightarrow> 'w) \<Rightarrow> (string \<Rightarrow> 'w) \<Rightarrow> 'm job \<Rightarrow> int \<Rightarrow> 'w :: comm_monoid_add" where
  "share wi wp jb w = (\<Sum>it\<leftarrow>jb_chan jb 0 w. wi it) + (\<Sum>it\<leftarrow>jb_chan jb w 0. wi it) + state_weight wi wp (wk_state (jb_worker jb w))"

definition queued_weight :: "(WorkItem \<Rightarrow> 'w) \<Rightarrow> Scheduler \<Rightarrow> 'w :: comm_monoid_add" where
  "queued_weight wi sched = (\<Sum>xs\<leftarrow>queues_of sched. \<Sum>e\<leftarrow>xs. wi (snd e))"

definition own :: "(WorkItem \<Rightarrow> 'w) \<Rightarrow> (string \<Rightarrow> 'w) \<Rightarrow> (PerfStat \<Rightarrow> 'w) \<Rightarrow> 'm job \<Rightarrow> 'w :: comm_monoid_add" where
  "own wi wp ws jb = (\<Sum>s\<leftarrow>jb_out jb. wp s) + ws (jb_stats jb) + queued_weight wi (jb_sched jb)"

definition total :: "(WorkItem \<Rightarrow> 'w) \<Rightarrow> (string \<Rightarrow> 'w) \<Rightarrow> (PerfStat \<Rightarrow> 'w) \<Rightarrow> int \<Rightarrow> 'm job \<Rightarrow> 'w :: comm_monoid_add" where
  "total wi wp ws n jb = own wi wp ws jb + (\<Sum>w \<in> {1..<n}. share wi wp jb w)"

lemma total_eqI:
  fixes jb jb' :: "'m job"
  assumes "1 \<le> w" "w < n" and "same_but w jb jb'"
    and "own wi wp ws jb' + share wi wp jb' w = own wi wp ws jb + share wi wp jb w"
  shows "total wi wp ws n jb' = total wi wp ws n jb"
proof -
  have "share wi wp jb' v = share wi wp jb v" if "v \<in> {1..<n} - {w}" for v
    using that assms(1,3) by (auto simp: share_def same_but_def)
  then have rest: "(\<Sum>v \<in> {1..<n} - {w}. share wi wp jb' v) = (\<Sum>v \<in> {1..<n} - {w}. share wi wp jb v)" by (rule sum.cong [OF refl])
  have split: "own wi wp ws j + (\<Sum>v \<in> {1..<n}. share wi wp j v) =
      (own wi wp ws j + share wi wp j w) + (\<Sum>v \<in> {1..<n} - {w}. share wi wp j v)" for j :: "'m job"
    using assms(1,2) by (subst sum.remove [of _ w]) (simp_all add: add.assoc)
  show ?thesis unfolding total_def split rest assms(4) ..
qed

lemma calls_weight_simps [simp]:
  "calls_weight wi wp [] = 0" "calls_weight wi wp (c # cs) = call_weight wi wp c + calls_weight wi wp cs"
  "calls_weight wi wp (cs @ ds) = calls_weight wi wp cs + calls_weight wi wp ds"
  "state_weight wi wp (running cs) = calls_weight wi wp cs"
  by (simp_all add: calls_weight_def running_def)

lemma call_weight_simps [simp]:
  "call_weight wi wp (Print_line s) = wp s" "call_weight wi wp (Send_item t it) = wi it" "call_weight wi wp (Request t q) = 0"
  by (simp_all add: call_weight_def)

section \<open>What a step changes\<close>

lemma send_simps [simp]:
  "jb_chan (send_workitem it s t jb) u v =
     (if u = s \<and> v = t then jb_chan jb s t @ [it\<lparr>originator := s\<rparr>] else jb_chan jb u v)"
  "jb_sched (send_workitem it s t jb) = jb_sched jb" "jb_stats (send_workitem it s t jb) = jb_stats jb"
  "jb_manager (send_workitem it s t jb) = jb_manager jb" "jb_worker (send_workitem it s t jb) = jb_worker jb"
  "jb_out (send_workitem it s t jb) = jb_out jb" "jb_app (send_workitem it s t jb) = jb_app jb"
  by (simp_all add: send_workitem_def workitem_update_originator_def)

lemma wstate_simps [simp]:
  "jb_chan (set_wstate w s jb) = jb_chan jb" "jb_sched (set_wstate w s jb) = jb_sched jb"
  "jb_stats (set_wstate w s jb) = jb_stats jb" "jb_manager (set_wstate w s jb) = jb_manager jb"
  "jb_out (set_wstate w s jb) = jb_out jb" "jb_app (set_wstate w s jb) = jb_app jb"
  "wk_state (jb_worker (set_wstate w s jb) w) = s" "v \<noteq> w \<Longrightarrow> jb_worker (set_wstate w s jb) v = jb_worker jb v"
  by (simp_all add: set_wstate_def)

definition taken :: "int \<Rightarrow> int \<Rightarrow> WorkItem list \<Rightarrow> 'm job \<Rightarrow> 'm job" where
  "taken s t its jb = jb\<lparr>jb_chan := (jb_chan jb)(s := (jb_chan jb s)(t := its))\<rparr>"

lemma taken_simps [simp]:
  "jb_chan (taken s t its jb) u v = (if u = s \<and> v = t then its else jb_chan jb u v)"
  "jb_sched (taken s t its jb) = jb_sched jb" "jb_stats (taken s t its jb) = jb_stats jb"
  "jb_manager (taken s t its jb) = jb_manager jb" "jb_worker (taken s t its jb) = jb_worker jb"
  "jb_out (taken s t its jb) = jb_out jb" "jb_app (taken s t its jb) = jb_app jb"
  by (simp_all add: taken_def)

lemma get_workitem_cases:
  assumes "Option.bind (get_workitem t s jb) f = Some r"
  obtains it its where "jb_chan jb s t = it # its" "f (it, taken s t its jb) = Some r"
  using assms by (cases "jb_chan jb s t") (auto simp: get_workitem_def taken_def)

lemma no_links:
  "links_inv n jb \<Longrightarrow> \<not> (s = 0 \<and> 1 \<le> t \<and> t < n) \<Longrightarrow> \<not> (t = 0 \<and> 1 \<le> s \<and> s < n) \<Longrightarrow> jb_chan jb s t = []"
  by (auto simp: links_inv_def)

lemma acking_eq: "jb_manager jb' = jb_manager jb \<Longrightarrow> acking jb' = acking jb"
  by (simp add: acking_def fun_eq_iff)

text \<open>A step of worker \<open>w\<close>.\<close>

lemma worker_step:
  fixes jb jb' :: "'m job"
  assumes inv: "job_inv ok n jb" "jb_manager jb \<noteq> Finished" and w: "1 \<le> w" "w < n"
    and eqs: "jb_sched jb' = jb_sched jb" "jb_manager jb' = jb_manager jb" "jb_stats jb' = jb_stats jb"
    and chans: "\<And>s t. \<not> (s = 0 \<and> t = w) \<Longrightarrow> \<not> (s = w \<and> t = 0) \<Longrightarrow> jb_chan jb' s t = jb_chan jb s t"
    and others: "\<And>v. v \<noteq> w \<Longrightarrow> jb_worker jb' v = jb_worker jb v"
    and at: "worker_inv ok w (sc_processes (jb_sched jb) ! nat w) (acking jb w) (jb_chan jb' w 0) (jb_chan jb' 0 w)
      (wk_state (jb_worker jb' w))"
    and weight: "(\<Sum>s\<leftarrow>jb_out jb'. wp s) + share wi wp jb' w = (\<Sum>s\<leftarrow>jb_out jb. wp s) + share wi wp jb w"
  shows "job_inv ok n jb' \<and> total wi wp ws n jb' = total wi wp ws n jb"
proof
  have same: "same_but w jb jb'"
    unfolding same_but_def eqs acking_eq [OF eqs(2)] by (intro conjI allI impI chans others refl; assumption)
  show "job_inv ok n jb'"
  proof (rule job_invI [OF inv _ w same])
    show "jb_manager jb' \<noteq> Finished" "sched_inv ok n (jb_sched jb')" "manager_inv n jb'"
      using inv job_inv_split(1,3) [OF inv] unfolding manager_inv_def eqs by simp_all
    show "worker_at ok jb' w" using at by (simp add: worker_at_def eqs acking_eq [OF eqs(2)])
  qed
  have "own wi wp ws jb' + share wi wp jb' w = ((\<Sum>s\<leftarrow>jb_out jb'. wp s) + share wi wp jb' w) + (ws (jb_stats jb) + queued_weight wi (jb_sched jb))"
    by (simp add: own_def eqs ac_simps)
  also have "\<dots> = own wi wp ws jb + share wi wp jb w" unfolding weight by (simp add: own_def ac_simps)
  finally show "total wi wp ws n jb' = total wi wp ws n jb" by (rule total_eqI [OF w same])
qed

text \<open>A step of the manager for worker \<open>w\<close>.\<close>

lemma manager_step:
  fixes jb jb' :: "'m job"
  assumes inv: "job_inv ok n jb" "jb_manager jb \<noteq> Finished" "jb_manager jb' \<noteq> Finished" and w: "1 \<le> w" "w < n"
    and sched: "sched_inv ok n (jb_sched jb')" and mgr: "manager_inv n jb'"
    and chans: "\<And>s t. \<not> (s = 0 \<and> t = w) \<Longrightarrow> \<not> (s = w \<and> t = 0) \<Longrightarrow> jb_chan jb' s t = jb_chan jb s t"
    and others: "jb_worker jb' = jb_worker jb"
    and procs: "\<And>i. i \<noteq> nat w \<Longrightarrow> sc_processes (jb_sched jb') ! i = sc_processes (jb_sched jb) ! i"
    and ack: "\<And>v. v \<noteq> w \<Longrightarrow> acking jb' v = acking jb v"
    and at: "worker_inv ok w (sc_processes (jb_sched jb') ! nat w) (acking jb' w) (jb_chan jb' w 0) (jb_chan jb' 0 w)
      (wk_state (jb_worker jb w))"
    and weight: "own wi wp ws jb' + share wi wp jb' w = own wi wp ws jb + share wi wp jb w"
  shows "job_inv ok n jb' \<and> total wi wp ws n jb' = total wi wp ws n jb"
proof
  have same: "same_but w jb jb'"
    unfolding same_but_def others by (intro conjI allI impI chans procs ack refl; assumption)
  show "job_inv ok n jb'"
    by (rule job_invI [OF inv w same sched mgr]) (use at in \<open>simp add: worker_at_def others\<close>)
  show "total wi wp ws n jb' = total wi wp ws n jb" by (rule total_eqI [OF w same weight])
qed

text \<open>The end of the manager, and what the steps after it do.\<close>

lemma only_first:
  assumes "length (filter (\<lambda>s. s = 1) ps) \<le> 1" and "ps ! 0 = (1 :: int)" and "0 < i" and "i < length ps"
  shows "ps ! i \<noteq> 1"
proof (cases ps)
  case (Cons x xs)
  with assms have "filter (\<lambda>s. s = 1) xs = []" "xs ! (i - 1) \<in> set xs" by (simp_all add: nth_Cons')
  then show ?thesis using Cons assms(3) by (auto simp: filter_empty_conv nth_Cons')
qed (use assms in simp)

lemma fold_send:
  fixes jb :: "'m job" and s :: int
  defines "r \<equiv> \<lambda>l (jb :: 'm job). fold (\<lambda>(t, it). send_workitem it s t) l jb"
  shows "jb_chan (r l jb) u v = (if u = s then jb_chan jb s v @ map (\<lambda>(t, it). it\<lparr>originator := s\<rparr>) (filter (\<lambda>e. fst e = v) l) else jb_chan jb u v)"
    and "jb_sched (r l jb) = jb_sched jb" "jb_worker (r l jb) = jb_worker jb" "jb_out (r l jb) = jb_out jb" "jb_stats (r l jb) = jb_stats jb"
    "jb_manager (r l jb) = jb_manager jb"
  unfolding r_def by (induction l arbitrary: jb) (auto simp: split_beta)

lemma filter_stop_targets:
  "filter (\<lambda>i. int i \<noteq> 0 \<and> int i = v) [0..<N] = (if 1 \<le> v \<and> v < int N then [nat v] else [])"
  by (induction N) auto

lemma fini_fields:
  assumes stop: "sc_stop_proc (jb_sched jb) = Some worker_exit" and N: "nat (sc_process_count (jb_sched jb)) = nat n"
  obtains e where "do_work e = Some worker_exit"
    "\<forall>u v. jb_chan (manager_fini 0 jb) u v = (if u = 0 \<and> 1 \<le> v \<and> v < n then jb_chan jb 0 v @ [e] else jb_chan jb u v)"
    "jb_sched (manager_fini 0 jb) = jb_sched jb" "jb_worker (manager_fini 0 jb) = jb_worker jb"
    "jb_out (manager_fini 0 jb) = jb_out jb" "jb_stats (manager_fini 0 jb) = jb_stats jb" "jb_manager (manager_fini 0 jb) = Finished"
proof -
  let ?e = "zero_item\<lparr>originator := 0, do_work := Some worker_exit\<rparr>"
  have "filter (\<lambda>e. fst e = v) (scheduler_stop_processes (jb_sched jb) 0) =
      map (\<lambda>i. (int i, ?e)) (filter (\<lambda>i. int i \<noteq> 0 \<and> int i = v) [0..<nat n])" for v
    unfolding scheduler_stop_processes_def stop N by (simp add: filter_map comp_def)
  then have f: "filter (\<lambda>e. fst e = v) (scheduler_stop_processes (jb_sched jb) 0) = (if 1 \<le> v \<and> v < n then [(v, ?e)] else [])" for v
    unfolding filter_stop_targets by simp
  show thesis
    by (rule that [of ?e]) (simp_all add: manager_fini_def fold_send f)
qed

lemma prog_ok_first:
  assumes "prog_ok ok (c # cs)"
  obtains (print) s where "c = Print_line s" "prog_ok ok cs"
  | (request) q it cs' where "c = Request 0 q" "cs = Send_item 0 it # cs'" "0 \<le> q" "ok it" "prog_ok ok cs'"
  | (finish) it perf where "c = Send_item 0 it" "cs = []" "is_done perf it"
proof -
  obtain perf pre d where p: "c # cs = pre @ [Send_item 0 d]" "chunk 0 pre" "is_done perf d"
    and ok: "\<forall>j \<in> set (submits (c # cs)). ok j"
    using assms by (auto simp: prog_ok_def program_def)
  show thesis
  proof (cases pre)
    case Nil
    with p finish show thesis by simp
  next
    case (Cons c' pre')
    then have c: "c' = c" "cs = pre' @ [Send_item 0 d]" using p(1) by simp_all
    show thesis
    proof (cases c)
      case (Print_line s)
      have "prog_ok ok cs" unfolding prog_ok_def program_def
        using ok p Cons c Print_line by (auto simp: submits_def work_call_def)
      with print Print_line show thesis .
    next
      case (Request t q)
      then obtain it pre2 where q: "t = 0" "pre' = Send_item 0 it # pre2" "0 \<le> q" "\<not> manager_run it" "chunk 0 pre2"
        using p(2) Cons c by (cases pre'; cases "hd pre'") auto
      have cs: "cs = Send_item 0 it # (pre2 @ [Send_item 0 d])" using c q by simp
      have "ok it" "prog_ok ok (pre2 @ [Send_item 0 d])"
        unfolding prog_ok_def program_def using ok p q cs by (auto simp: submits_def work_call_def)
      from request [OF _ cs q(3) this] Request q(1) show thesis by simp
    next
      case (Send_item t it)
      then show thesis using p(2) Cons c by simp
    qed
  qed
qed

section \<open>The queues of the manager\<close>

lemma sum_list_snoc_at:
  fixes f :: "'e \<Rightarrow> 'w :: comm_monoid_add"
  assumes "i < length xss"
  shows "(\<Sum>xs\<leftarrow>xss[i := xss ! i @ [e]]. \<Sum>e\<leftarrow>xs. f e) = (\<Sum>xs\<leftarrow>xss. \<Sum>e\<leftarrow>xs. f e) + f e"
  using assms
proof (induction xss arbitrary: i)
  case (Cons x xs)
  show ?case
  proof (cases i)
    case (Suc j)
    then show ?thesis using Cons.IH [of j] Cons.prems by (simp add: add.assoc)
  qed (simp add: ac_simps)
qed simp

lemma sum_list_hd_at:
  fixes f :: "'e \<Rightarrow> 'w :: comm_monoid_add"
  assumes "i < length xss" and "xss ! i = e # es"
  shows "(\<Sum>xs\<leftarrow>xss. \<Sum>e\<leftarrow>xs. f e) = (\<Sum>xs\<leftarrow>xss[i := es]. \<Sum>e\<leftarrow>xs. f e) + f e"
  using assms
proof (induction xss arbitrary: i)
  case (Cons x xs)
  show ?case
  proof (cases i)
    case (Suc j)
    then show ?thesis using Cons.IH [of j] Cons.prems by (simp add: add.assoc)
  qed (use Cons.prems in \<open>simp add: ac_simps\<close>)
qed simp

lemma all_update: "\<forall>xs \<in> set xss. Q xs \<Longrightarrow> Q ys \<Longrightarrow> \<forall>xs \<in> set (xss[i := ys]). Q xs"
  using set_update_subset_insert [of xss i ys] by auto

lemma sched_inv_split:
  assumes "sched_inv ok n sched"
  shows "sched_holds sched (queues_of sched)" "\<And>xs e. xs \<in> set (queues_of sched) \<Longrightarrow> e \<in> set xs \<Longrightarrow> ok (snd e)"
    "1 \<le> n" "length (sc_processes sched) = nat n" "sc_processes sched ! 0 = 1" "sc_stop_proc sched = Some worker_exit"
    "length (queues_of sched) = length (sc_workq sched)"
  using assms by (auto simp: sched_inv_def queues_of_def)

lemma enqueue_inv:
  assumes inv: "sched_inv ok n sched" and i: "i < length (sc_workq sched)" and p: "fresh_entry sched p" and it: "ok it"
  shows "sched_inv ok n (enqueue sched i p it)" and "queued_weight wi (enqueue sched i p it) = queued_weight wi sched + wi it"
    and "sc_processes (enqueue sched i p it) = sc_processes sched"
proof -
  let ?xss = "queues_of sched" and ?s = "enqueue sched i p it"
  note s = sched_inv_split [OF inv]
  have i': "i < length ?xss" using i s(7) by simp
  then have new: "p \<notin> fst ` set (?xss ! i)" using p unfolding fresh_entry_iff [OF s(1)] by simp
  have h: "sched_holds ?s (?xss[i := ?xss ! i @ [(p, it)]])" "sc_processes ?s = sc_processes sched"
    using enqueue_holds [OF s(1) i' new, of it] by simp_all
  note q = queues_of_eq [OF h(1)]
  have "\<forall>e \<in> set (?xss ! i @ [(p, it)]). ok (snd e)" using s(2) [OF nth_mem [OF i']] it by auto
  then have "\<forall>xs \<in> set (queues_of ?s). \<forall>e \<in> set xs. ok (snd e)"
    unfolding q using s(2) by (intro all_update) blast+
  moreover have "sc_stop_proc ?s = sc_stop_proc sched" by (simp add: enqueue_def)
  ultimately show "sched_inv ok n ?s" using s(3-6) h q by (simp add: sched_inv_def)
  show "queued_weight wi ?s = queued_weight wi sched + wi it"
    unfolding queued_weight_def q by (subst sum_list_snoc_at [OF i']) simp
  show "sc_processes ?s = sc_processes sched" by (rule h(2))
qed

lemma getwork_loop_stop: "sc_stop_proc (snd (getwork_loop sched is)) = sc_stop_proc sched"
proof (induction "is" arbitrary: sched)
  case (Cons i "is")
  then show ?case by (cases "workq_remove (sc_workq sched ! i)") (simp add: Let_def)
qed simp

lemma getwork_stop: "scheduler_getwork sched = Some (x, r, sched') \<Longrightarrow> sc_stop_proc sched' = sc_stop_proc sched"
  using getwork_loop_stop [of sched "rev [0..<nat (sc_workq_count sched)]"]
  by (auto simp: scheduler_getwork_def Let_def split_beta split: if_split_asm)

lemma getwork_inv:
  assumes inv: "sched_inv ok n sched" and can: "scheduler_canAssignWork sched"
  obtains x w sched' where "scheduler_getwork sched = Some (Some x, w, sched')" "ok x" "1 \<le> w" "w < n"
    "sc_processes sched ! nat w = 0" "sched_inv ok n sched'" "sc_processes sched' = (sc_processes sched)[nat w := 1]"
    "queued_weight wi sched = queued_weight wi sched' + wi x"
proof -
  let ?xss = "queues_of sched"
  note s = sched_inv_split [OF inv]
  have "\<exists>xs \<in> set ?xss. xs \<noteq> []" "0 \<in> set (sc_processes sched)" using can canAssignWork_iff [OF s(1)] by simp_all
  then obtain i p x xs w sched' where r: "scheduler_getwork sched = Some (Some x, int w, sched')"
    "i < length ?xss" "?xss ! i = (p, x) # xs" "w < length (sc_processes sched)" "sc_processes sched ! w = 0"
    "sched_holds sched' (?xss[i := xs])" "sc_processes sched' = (sc_processes sched)[w := 1]"
    by (rule getwork_run [OF s(1)])
  note q = queues_of_eq [OF r(6)]
  have w: "1 \<le> w" "w < nat n" using r(4,5) s(4,5) by (cases w; simp)+
  have mem: "(p, x) # xs \<in> set ?xss" using r(2,3) nth_mem by metis
  have "ok x" and "\<forall>e \<in> set xs. ok (snd e)" using s(2) [OF mem, of "(p, x)"] s(2) [OF mem] by simp_all
  then have "\<forall>ys \<in> set (queues_of sched'). \<forall>e \<in> set ys. ok (snd e)"
    unfolding q using s(2) by (intro all_update) blast+
  moreover have "sc_stop_proc sched' = sc_stop_proc sched" using r(1) by (rule getwork_stop)
  ultimately have inv': "sched_inv ok n sched'" using s(3-6) r(6,7) q w by (simp add: sched_inv_def)
  have "(\<Sum>xs\<leftarrow>?xss. \<Sum>e\<leftarrow>xs. wi (snd e)) = (\<Sum>xs\<leftarrow>?xss[i := xs]. \<Sum>e\<leftarrow>xs. wi (snd e)) + wi x"
    by (subst sum_list_hd_at [OF r(2,3)]) simp
  then have "queued_weight wi sched = queued_weight wi sched' + wi x" unfolding queued_weight_def q .
  with r(1,5,7) \<open>ok x\<close> w inv' show thesis by (intro that [of x "int w" sched']) simp_all
qed

section \<open>What an application promises\<close>

locale pwt_app =
  fixes work :: "timeval \<Rightarrow> timeval \<Rightarrow> WorkItem \<Rightarrow> call list option" and ok :: "WorkItem \<Rightarrow> bool"
    and wi :: "WorkItem \<Rightarrow> 'w :: comm_monoid_add" and wp :: "string \<Rightarrow> 'w" and ws :: "PerfStat \<Rightarrow> 'w"
  assumes work_runs: "ok it \<Longrightarrow> originator it = 0 \<Longrightarrow>
      \<exists>cs. work t0 t1 it = Some cs \<and> prog_ok ok cs \<and> wi it = calls_weight wi wp cs"
    and ok_shape: "ok it \<Longrightarrow> \<not> manager_run it \<and> 0 \<le> qidx it \<and> \<not> workitem_hasWorkRequest it \<and> do_work it \<noteq> Some worker_exit"
    and ok_move [simp]: "ok (it\<lparr>originator := r\<rparr>) = ok it"
    and wi_move [simp]: "wi (it\<lparr>originator := r\<rparr>) = wi it"
    and wi_request: "workitem_hasWorkRequest it \<Longrightarrow> wi it = 0"
    and wi_exit: "do_work it = Some worker_exit \<Longrightarrow> wi it = 0"
    and ws_done: "is_done perf it \<Longrightarrow> ws (perfstat_add stats perf) = ws stats + wi it"
begin

abbreviation "jinv \<equiv> job_inv ok"
abbreviation "tot \<equiv> total wi wp ws"

lemma worker_idle_ok:
  assumes inv: "jinv n jb" "jb_manager jb \<noteq> Finished" and w: "1 \<le> w" "w < n" and step: "worker_idle w jb = Some jb'"
  shows "jinv n jb' \<and> tot n jb' = tot n jb"
proof -
  obtain st k where s: "wk_state (jb_worker jb w) = Serving" "st \<in> {Serving, Left}"
    and jb': "jb' = jb\<lparr>jb_worker := (jb_worker jb)(w := \<lparr>wk_probes = k, wk_state = st\<rparr>)\<rparr>"
    using step by (auto simp: worker_idle_def Let_def split: if_split_asm)
  show ?thesis
  proof (rule worker_step [OF inv w])
    show "worker_inv ok w (sc_processes (jb_sched jb) ! nat w) (acking jb w) (jb_chan jb' w 0) (jb_chan jb' 0 w) (wk_state (jb_worker jb' w))"
      using job_inv_split(4) [OF inv w] s by (auto simp: worker_at_def jb')
    show "(\<Sum>s\<leftarrow>jb_out jb'. wp s) + share wi wp jb' w = (\<Sum>s\<leftarrow>jb_out jb. wp s) + share wi wp jb w"
      using s by (auto simp: share_def jb')
  qed (simp_all add: jb')
qed

lemma running_prog: "prog_ok ok cs \<Longrightarrow> running cs = Running cs"
  by (auto simp: running_def prog_ok_def program_def)

lemma worker_receive_ok:
  assumes inv: "jinv n jb" "jb_manager jb \<noteq> Finished" and w: "1 \<le> w" "w < n"
    and step: "worker_receive (work t0 t1) w src jb = Some jb'"
  shows "jinv n jb' \<and> tot n jb' = tot n jb"
proof -
  have s: "wk_state (jb_worker jb w) = Serving" using step by (simp add: worker_receive_def split: if_split_asm)
  obtain it its where it: "jb_chan jb src w = it # its"
    and r: "(if do_work it = Some worker_exit then Some (if originator it = MANAGER_PROC then set_wstate w Left (taken src w its jb) else taken src w its jb)
        else map_option (\<lambda>cs. set_wstate w (running cs) (taken src w its jb)) (work t0 t1 it)) = Some jb'"
    using step s by (auto simp: worker_receive_def elim: get_workitem_cases)
  have src: "src = 0" using no_links [OF job_inv_split(2) [OF inv], of src w] it w by auto
  have "its = []" "ok it" "originator it = 0" "jb_chan jb w 0 = []" "\<not> acking jb w" "sc_processes (jb_sched jb) ! nat w = 1"
    using job_inv_split(4) [OF inv w] s it src by (auto simp: worker_at_def)
  note here = this
  obtain cs where cs: "work t0 t1 it = Some cs" "prog_ok ok cs" "wi it = calls_weight wi wp cs" using work_runs [OF here(2,3)] by blast
  have jb': "jb' = set_wstate w (Running cs) (taken 0 w [] jb)"
    using r ok_shape [OF here(2)] here cs src by (simp add: running_prog)
  show ?thesis
    by (rule worker_step [OF inv w]) (use here cs w it src s in \<open>auto simp: jb' awaited_def share_def\<close>)
qed

lemma worker_call_ok:
  assumes inv: "jinv n jb" "jb_manager jb \<noteq> Finished" and w: "1 \<le> w" "w < n" and step: "worker_call w jb = Some jb'"
  shows "jinv n jb' \<and> tot n jb' = tot n jb"
proof -
  obtain c cs where s: "wk_state (jb_worker jb w) = Running (c # cs)"
    using step by (cases "wk_state (jb_worker jb w)"; cases "case wk_state (jb_worker jb w) of Running cs \<Rightarrow> cs | _ \<Rightarrow> []")
      (auto simp: worker_call_def)
  have at: "sc_processes (jb_sched jb) ! nat w = 1" "jb_chan jb 0 w = []"
      "prog_ok ok (c # cs) \<and> awaited ok (acking jb w) (jb_chan jb w 0) \<or>
      (\<exists>it. c = Send_item 0 it \<and> ok it \<and> prog_ok ok cs \<and> acking jb w \<and> jb_chan jb w 0 = [])"
    using job_inv_split(4) [OF inv w] s by (auto simp: worker_at_def)
  from at(3) show ?thesis
  proof (elim disjE conjE exE)
    fix it assume c: "c = Send_item 0 it" "ok it" "prog_ok ok cs" "acking jb w" "jb_chan jb w 0 = []"
    then have jb': "jb' = set_wstate w (Running cs) (send_workitem it w 0 jb)"
      using step s by (simp add: worker_call_def running_prog)
    show ?thesis
      by (rule worker_step [OF inv w]) (use at c w s in \<open>auto simp: jb' awaited_def share_def\<close>)
  next
    assume p: "prog_ok ok (c # cs)" and aw: "awaited ok (acking jb w) (jb_chan jb w 0)"
    from p show ?thesis
    proof (cases rule: prog_ok_first)
      case (print l)
      then have jb': "jb' = set_wstate w (Running cs) (jb\<lparr>jb_out := jb_out jb @ [l]\<rparr>)"
        using step s by (simp add: worker_call_def running_prog)
      show ?thesis
        by (rule worker_step [OF inv w]) (use at aw print w s in \<open>auto simp: jb' share_def ac_simps\<close>)
    next
      case (request q it cs')
      then have jb': "jb' = set_wstate w (Requesting True 0 cs) (send_workitem (request_item w q) w 0 jb)"
        using step s by (simp add: worker_call_def)
      have r: "is_request w ((request_item w q)\<lparr>originator := w\<rparr>)" "wi ((request_item w q)\<lparr>originator := w\<rparr>) = 0"
        using request(3) by (auto simp: is_request_def request_item_def item_simps workreq_clear_def intro!: wi_request)
      let ?r = "(request_item w q)\<lparr>originator := w\<rparr>"
      have "worker_inv ok w 1 (acking jb w) (jb_chan jb w 0 @ [?r]) [] (Requesting True 0 cs)"
        using aw request(2,4,5) r(1) by simp
      then have "worker_inv ok w (sc_processes (jb_sched jb) ! nat w) (acking jb w) (jb_chan jb' w 0) (jb_chan jb' 0 w) (wk_state (jb_worker jb' w))"
        using at w by (simp add: jb' del: worker_inv.simps)
      moreover have "(\<Sum>s\<leftarrow>jb_out jb'. wp s) + share wi wp jb' w = (\<Sum>s\<leftarrow>jb_out jb. wp s) + share wi wp jb w"
        using w s r(2) request(1) by (simp add: jb' share_def)
      ultimately show ?thesis by (intro worker_step [OF inv w]) (simp_all add: jb' del: worker_inv.simps)
    next
      case (finish d perf)
      then have jb': "jb' = set_wstate w Serving (send_workitem d w 0 jb)"
        using step s by (simp add: worker_call_def running_def)
      have d: "is_done perf (d\<lparr>originator := w\<rparr>)" using finish(3) by (simp add: is_done_def)
      have "worker_inv ok w 1 (acking jb w) (jb_chan jb w 0 @ [d\<lparr>originator := w\<rparr>]) [] Serving" using aw d by auto
      then have "worker_inv ok w (sc_processes (jb_sched jb) ! nat w) (acking jb w) (jb_chan jb' w 0) (jb_chan jb' 0 w) (wk_state (jb_worker jb' w))"
        using at w by (simp add: jb' del: worker_inv.simps)
      moreover have "(\<Sum>s\<leftarrow>jb_out jb'. wp s) + share wi wp jb' w = (\<Sum>s\<leftarrow>jb_out jb. wp s) + share wi wp jb w"
        using w s finish(1,2) by (simp add: jb' share_def add.assoc)
      ultimately show ?thesis by (intro worker_step [OF inv w]) (simp_all add: jb' del: worker_inv.simps)
    qed
  qed
qed

lemma worker_answer_ok:
  assumes inv: "jinv n jb" "jb_manager jb \<noteq> Finished" and w: "1 \<le> w" "w < n" and step: "worker_answer w src jb = Some jb'"
  shows "jinv n jb' \<and> tot n jb' = tot n jb"
proof -
  obtain b t cs where s: "wk_state (jb_worker jb w) = Requesting b t cs"
    using step by (cases "wk_state (jb_worker jb w)") (auto simp: worker_answer_def)
  obtain a its where a: "jb_chan jb src w = a # its"
    and r: "(if workitem_hasWorkRequest a then do {
              respwr \<leftarrow> workitem_get_workreq a;
              Some (if workreq_notAccepted respwr \<noteq> 0
                then set_wstate w (Requesting False t cs) (send_workitem a w t (taken src w its jb))
                else set_wstate w (running cs) (taken src w its jb)) }
            else Some (set_wstate w (running cs) (taken src w its jb))) = Some jb'"
    using step s by (auto simp: worker_answer_def split: if_split_asm elim!: get_workitem_cases)
  have src: "src = 0" using no_links [OF job_inv_split(2) [OF inv], of src w] a w by auto
  obtain it cs' where at: "sc_processes (jb_sched jb) ! nat w = 1" "cs = Send_item 0 it # cs'" "ok it" "prog_ok ok cs'" "jb_chan jb w 0 = []"
      "acking jb w" "its = []" "is_accept a"
    using job_inv_split(4) [OF inv w] s a src by (auto simp: worker_at_def)
  have jb': "jb' = set_wstate w (Running cs) (taken 0 w [] jb)"
    using r at src by (simp add: is_accept_def item_simps workreq_clear_def workreq_notAccepted_def running_def)
  have "wi a = 0" using at(8) by (intro wi_request) (simp add: is_accept_def item_simps workreq_clear_def)
  then show ?thesis
    by (intro worker_step [OF inv w]) (use at w a src s in \<open>auto simp: jb' share_def\<close>)
qed

lemma manager_ack_ok:
  assumes inv: "jinv n jb" and step: "manager_ack 0 p jb = Some jb'"
  shows "jinv n jb' \<and> tot n jb' = tot n jb"
proof -
  obtain w i where m: "jb_manager jb = Acking w i" using step by (cases "jb_manager jb") (auto simp: manager_ack_def)
  then have nf: "jb_manager jb \<noteq> Finished" by simp
  note inv = inv nf
  have w: "1 \<le> w" "w < n" "i < length (sc_workq (jb_sched jb))" using job_inv_split(3) [OF inv] m by (simp_all add: manager_inv_def)
  have p: "fresh_entry (jb_sched jb) p" using step m by (auto simp: manager_ack_def split: if_split_asm)
  obtain it its where it: "jb_chan jb w 0 = it # its"
    and jb': "jb' = (taken w 0 its jb)\<lparr>jb_sched := enqueue (jb_sched jb) i p it, jb_manager := Looping\<rparr>"
    using step m p by (auto simp: manager_ack_def elim!: get_workitem_cases)
  have ack: "acking jb w" "acking jb' v = False" "v \<noteq> w \<Longrightarrow> acking jb v = False" for v by (auto simp: acking_def m jb')
  have at: "worker_inv ok w (sc_processes (jb_sched jb) ! nat w) True (it # its) (jb_chan jb 0 w) (wk_state (jb_worker jb w))"
    using job_inv_split(4) [OF inv w(1,2)] ack(1) it by (simp add: worker_at_def)
  have new: "ok it \<and> worker_inv ok w (sc_processes (jb_sched jb) ! nat w) False its (jb_chan jb 0 w) (wk_state (jb_worker jb w))"
    using at by (cases "wk_state (jb_worker jb w)") (auto simp: awaited_def)
  then have "ok it" by simp
  note e = enqueue_inv [OF job_inv_split(1) [OF inv] w(3) p this]
  show ?thesis
  proof (rule manager_step [OF inv _ w(1,2)])
    show "sched_inv ok n (jb_sched jb')" using e(1) by (simp add: jb')
    show "worker_inv ok w (sc_processes (jb_sched jb') ! nat w) (acking jb' w) (jb_chan jb' w 0) (jb_chan jb' 0 w)
      (wk_state (jb_worker jb w))"
      using new w e(3) unfolding ack(2) by (simp add: jb' del: worker_inv.simps)
    show "own wi wp ws jb' + share wi wp jb' w = own wi wp ws jb + share wi wp jb w"
      using w by (simp add: own_def share_def jb' it e(2) ac_simps)
    show "acking jb' v = acking jb v" if "v \<noteq> w" for v using ack(2,3) [of v] that by simp
  qed (auto simp: jb' manager_inv_def e(3))
qed

lemma manager_receive_ok:
  assumes inv: "jinv n jb" and step: "manager_receive app_fn 0 w p jb = Some jb'"
  shows "jinv n jb' \<and> tot n jb' = tot n jb"
proof -
  have m: "jb_manager jb = Looping" and p: "fresh_entry (jb_sched jb) p"
    using step by (auto simp: manager_receive_def split: if_split_asm)
  then have nf: "jb_manager jb \<noteq> Finished" by simp
  note inv = inv nf
  obtain it its where it: "jb_chan jb w 0 = it # its"
    and r: "(if manager_run it then manager_do_work app_fn it (taken w 0 its jb)
        else do {
          r \<leftarrow> scheduler_addwork (jb_sched (taken w 0 its jb)) p it;
          Some (case r of
              Queued sched \<Rightarrow> (taken w 0 its jb)\<lparr>jb_sched := sched\<rparr>
            | Answer isFull answer idx \<Rightarrow>
                send_workitem answer 0 (originator it)
                  ((taken w 0 its jb)\<lparr>jb_manager := if isFull then Looping else Acking (originator it) idx\<rparr>)) }) = Some jb'"
    using step m p by (auto simp: manager_receive_def elim!: get_workitem_cases)
  have w: "1 \<le> w" "w < n" using no_links [OF job_inv_split(2) [OF inv], of w 0] it by force+
  have ack: "\<not> acking jb v" for v by (simp add: acking_def m)
  have at: "worker_inv ok w (sc_processes (jb_sched jb) ! nat w) False (it # its) (jb_chan jb 0 w) (wk_state (jb_worker jb w))"
    using job_inv_split(4) [OF inv w] ack it by (simp add: worker_at_def)
  note sched = job_inv_split(1) [OF inv]
  note s = sched_inv_split [OF sched]
  consider (request) b t cs where "wk_state (jb_worker jb w) = Requesting b t cs" "is_request w it"
    | (finished) perf where "wk_state (jb_worker jb w) = Serving \<or> wk_state (jb_worker jb w) = Left" "is_done perf it" "originator it = w"
    using at by (cases "wk_state (jb_worker jb w)") (auto simp: awaited_def)
  then show ?thesis
  proof cases
    case request
    then have rest: "its = []" "jb_chan jb 0 w = []" and run: "\<not> manager_run it" "workdata it = Some (Work_Request workreq_clear)"
      "originator it = w" "0 \<le> qidx it"
      using at by (auto simp: awaited_def is_request_def)
    obtain i where i: "queue_index (jb_sched jb) it = Some i" "i < length (sc_workq (jb_sched jb))"
      using queue_index_val [OF s(1) run(4)] s(7) by simp
    have "\<not> workq_full (sc_workq (jb_sched jb) ! i)"
      using s(1) i(2) s(7) by (auto simp: sched_holds_def workq_full_def)
    then have "jb' = send_workitem (it\<lparr>workdata := Some (Work_Request workreq_clear)\<rparr>) 0 w ((taken w 0 [] jb)\<lparr>jb_manager := Acking w i\<rparr>)"
      using r run i(1) rest(1) by (auto simp: scheduler_addwork_def scheduler_ackwork_def item_simps workreq_clear_def workreq_accept_def)
    moreover have "it\<lparr>workdata := Some (Work_Request workreq_clear)\<rparr> = it" using run(2) by (cases it) simp
    ultimately have jb': "jb' = send_workitem it 0 w ((taken w 0 [] jb)\<lparr>jb_manager := Acking w i\<rparr>)" by (simp only:)
    have a: "is_accept (it\<lparr>originator := 0\<rparr>)" "wi it = 0"
      using run(2) by (auto simp: is_accept_def item_simps workreq_clear_def intro!: wi_request)
    show ?thesis
    proof (rule manager_step [OF inv _ w])
      have "worker_inv ok w (sc_processes (jb_sched jb) ! nat w) True [] [it\<lparr>originator := 0\<rparr>] (wk_state (jb_worker jb w))"
        using at request(1) a(1) by simp
      then show "worker_inv ok w (sc_processes (jb_sched jb') ! nat w) (acking jb' w) (jb_chan jb' w 0) (jb_chan jb' 0 w)
          (wk_state (jb_worker jb w))"
        using w rest by (simp add: jb' acking_def del: worker_inv.simps)
      show "own wi wp ws jb' + share wi wp jb' w = own wi wp ws jb + share wi wp jb w"
        using w rest it a(2) by (simp add: own_def share_def jb')
    qed (use w i sched ack in \<open>auto simp: jb' manager_inv_def acking_def\<close>)
  next
    case finished
    then have rest: "its = []" "jb_chan jb 0 w = []" and run: "manager_run it" "do_work it = Some manager_workdone"
      "workdata it = Some (Work_Perf perf)" "ps_type perf = PERFSTAT_TYPE"
      using at by (auto simp: awaited_def is_done_def perf_ok_def)
    have n: "nat w < length (sc_processes (jb_sched jb))" using w s(4) by simp
    then have jb': "jb' = (taken w 0 [] jb)\<lparr>jb_sched := (jb_sched jb)\<lparr>sc_processes := (sc_processes (jb_sched jb))[nat w := 0]\<rparr>,
        jb_stats := perfstat_add (jb_stats jb) perf, jb_out := jb_out jb, jb_app := jb_app jb\<rparr>"
      using r run rest(1) w finished(3)
      by (simp add: manager_do_work_def item_simps scheduler_set_processidle_def processing_set_idle_def processing_set_def)
    have q: "queues_of (jb_sched jb') = queues_of (jb_sched jb)" by (simp add: jb' queues_of_def)
    have "sched_holds (jb_sched jb') (queues_of (jb_sched jb'))" using s(1) unfolding q by (simp add: jb' sched_holds_def)
    then have sched': "sched_inv ok n (jb_sched jb')"
      using sched w unfolding sched_inv_def q by (simp add: jb')
    show ?thesis
    proof (rule manager_step [OF inv _ w sched'])
      have "worker_inv ok w 0 False [] [] (wk_state (jb_worker jb w))" using finished(1) by auto
      then show "worker_inv ok w (sc_processes (jb_sched jb') ! nat w) (acking jb' w) (jb_chan jb' w 0) (jb_chan jb' 0 w)
          (wk_state (jb_worker jb w))"
        using w rest n m by (simp add: jb' acking_def del: worker_inv.simps)
      have "queued_weight wi (jb_sched jb') = queued_weight wi (jb_sched jb)" by (simp add: queued_weight_def q)
      then show "own wi wp ws jb' + share wi wp jb' w = own wi wp ws jb + share wi wp jb w"
        using w rest it ws_done [OF finished(2), of "jb_stats jb"] by (simp add: own_def share_def jb' ac_simps)
    qed (use w m ack in \<open>auto simp: jb' manager_inv_def acking_def\<close>)
  qed
qed

lemma manager_assign_ok:
  assumes inv: "jinv n jb" and m: "jb_manager jb = Looping" and can: "scheduler_canAssignWork (jb_sched jb)"
    and get: "scheduler_getwork (jb_sched jb) = Some (Some x, w, sched')"
  shows "jinv n (send_workitem x 0 w (jb\<lparr>jb_sched := sched'\<rparr>)) \<and> tot n (send_workitem x 0 w (jb\<lparr>jb_sched := sched'\<rparr>)) = tot n jb"
proof -
  have nf: "jb_manager jb \<noteq> Finished" using m by simp
  note inv = inv nf
  note sched = job_inv_split(1) [OF inv]
  have x: "ok x" "1 \<le> w" "w < n" "sc_processes (jb_sched jb) ! nat w = 0" "sched_inv ok n sched'"
    "sc_processes sched' = (sc_processes (jb_sched jb))[nat w := 1]" "queued_weight wi (jb_sched jb) = queued_weight wi sched' + wi x"
    by (rule getwork_inv [OF sched can, of wi]; use get in simp)+
  have ack: "\<not> acking jb v" for v by (simp add: acking_def m)
  have "worker_inv ok w 0 False (jb_chan jb w 0) (jb_chan jb 0 w) (wk_state (jb_worker jb w))"
    using job_inv_split(4) [OF inv x(2,3)] ack x(4) by (simp add: worker_at_def)
  then have here: "wk_state (jb_worker jb w) = Serving \<or> wk_state (jb_worker jb w) = Left" "jb_chan jb w 0 = []" "jb_chan jb 0 w = []"
    by (cases "wk_state (jb_worker jb w)"; simp)+
  have n: "nat w < length (sc_processes (jb_sched jb))" using sched_inv_split(4) [OF sched] x(2,3) by simp
  let ?jb = "send_workitem x 0 w (jb\<lparr>jb_sched := sched'\<rparr>)"
  show ?thesis
  proof (rule manager_step [OF inv _ x(2,3)])
    have "worker_inv ok w 1 False [] [x\<lparr>originator := 0\<rparr>] (wk_state (jb_worker jb w))" using here(1) x(1) by auto
    then show "worker_inv ok w (sc_processes (jb_sched ?jb) ! nat w) (acking ?jb w) (jb_chan ?jb w 0) (jb_chan ?jb 0 w)
        (wk_state (jb_worker jb w))"
      using x(2) here n m x(6) by (simp add: acking_def del: worker_inv.simps)
    show "own wi wp ws ?jb + share wi wp ?jb w = own wi wp ws jb + share wi wp jb w"
      using x(2) here by (simp add: own_def share_def x(7) ac_simps)
  qed (use x m ack in \<open>auto simp: manager_inv_def acking_def\<close>)
qed

lemma manager_fini_ok:
  assumes inv: "jinv n jb" and m: "jb_manager jb = Looping" and fin: "scheduler_workDone (jb_sched jb)"
  shows "jinv n (manager_fini 0 jb) \<and> tot n (manager_fini 0 jb) = tot n jb"
proof -
  have nf: "jb_manager jb \<noteq> Finished" using m by simp
  note inv = inv nf
  note sched = job_inv_split(1) [OF inv]
  note s = sched_inv_split [OF sched]
  let ?jb = "manager_fini 0 jb"
  have empty: "\<forall>xs \<in> set (queues_of (jb_sched jb)). xs = []" and one: "length (filter (\<lambda>s. s = 1) (sc_processes (jb_sched jb))) \<le> 1"
    using fin workDone_iff [OF s(1)] by simp_all
  have f: "sc_processes (jb_sched jb) ! nat w \<noteq> 1" if "1 \<le> w" "w < n" for w
    using only_first [OF one s(5), of "nat w"] that s(4) by simp
  have here: "wk_state (jb_worker jb w) \<in> {Serving, Left}" "jb_chan jb w 0 = []" "jb_chan jb 0 w = []" if "1 \<le> w" "w < n" for w
    using job_inv_split(4) [OF inv that] f [OF that] unfolding worker_at_def by (cases "wk_state (jb_worker jb w)"; auto)+
  have N: "nat (sc_process_count (jb_sched jb)) = nat n" using s(1,4) by (simp add: sched_holds_def)
  obtain e where e: "do_work e = Some worker_exit"
    and chan': "\<forall>u v. jb_chan ?jb u v = (if u = 0 \<and> 1 \<le> v \<and> v < n then jb_chan jb 0 v @ [e] else jb_chan jb u v)"
    and rest: "jb_sched ?jb = jb_sched jb" "jb_worker ?jb = jb_worker jb" "jb_out ?jb = jb_out jb" "jb_stats ?jb = jb_stats jb"
      "jb_manager ?jb = Finished"
    by (rule fini_fields [OF s(6) N])
  note chan = chan' [rule_format]
  have "fin_at ?jb w" if "1 \<le> w" "w < n" for w
    using here [OF that] that e by (simp add: fin_at_def chan rest)
  moreover have "links_inv n ?jb" using job_inv_split(2) [OF inv] by (auto simp: links_inv_def chan)
  ultimately have "jinv n ?jb" using sched empty by (simp add: job_inv_def rest manager_inv_def)
  moreover have "share wi wp ?jb w = share wi wp jb w" if "w \<in> {1..<n}" for w
    using that wi_exit [OF e] by (simp add: share_def chan rest)
  then have "tot n ?jb = tot n jb" by (simp add: total_def own_def rest)
  ultimately show ?thesis by simp
qed

lemma manager_idle_ok:
  assumes inv: "jinv n jb" and step: "manager_idle 0 jb = Some jb'"
  shows "jinv n jb' \<and> tot n jb' = tot n jb"
proof -
  have m: "jb_manager jb = Looping" using step by (simp add: manager_idle_def split: if_split_asm)
  obtain jb1 where jb1: "jinv n jb1" "tot n jb1 = tot n jb" "jb_manager jb1 = Looping"
    and r: "jb' = (if scheduler_workDone (jb_sched jb1) then manager_fini 0 jb1 else jb1)"
  proof (cases "scheduler_canAssignWork (jb_sched jb)")
    case True
    obtain x w sched' where g: "scheduler_getwork (jb_sched jb) = Some (Some x, w, sched')"
      using getwork_inv [OF job_inv_split(1) [OF inv] True] m by force
    let ?jb = "send_workitem x 0 w (jb\<lparr>jb_sched := sched'\<rparr>)"
    have "jinv n ?jb" "tot n ?jb = tot n jb" using manager_assign_ok [OF inv m True g] by simp_all
    then show thesis by (rule that) (use step m True g in \<open>simp_all add: manager_idle_def\<close>)
  next
    case False
    show thesis by (rule that [OF inv refl m]) (use step m False in \<open>simp add: manager_idle_def\<close>)
  qed
  show ?thesis using r jb1 manager_fini_ok [OF jb1(1,3)] by (simp split: if_splits)
qed

lemma finished_step:
  assumes m: "jb_manager jb = Finished" and links: "links_inv n jb" and fin: "\<And>w. 1 \<le> w \<Longrightarrow> w < n \<Longrightarrow> fin_at jb w"
    and "step_in n st" and step: "job_step work app_fn st jb = Some jb'"
  obtains w where "1 \<le> w" "w < n" "jb_sched jb' = jb_sched jb" "jb_stats jb' = jb_stats jb" "jb_out jb' = jb_out jb"
    "jb_manager jb' = Finished" "\<forall>v. v \<noteq> w \<longrightarrow> jb_worker jb' v = jb_worker jb v"
    "\<forall>s t. \<not> (s = 0 \<and> t = w) \<longrightarrow> jb_chan jb' s t = jb_chan jb s t"
    "fin_at jb' w" "share wi wp jb' w = share wi wp jb w"
proof (cases st)
  case (Worker_idle w)
  then have w: "1 \<le> w" "w < n" using assms(4) by simp_all
  obtain x where jb': "jb' = jb\<lparr>jb_worker := (jb_worker jb)(w := x)\<rparr>" "wk_state x \<in> {Serving, Left}" "wk_state (jb_worker jb w) = Serving"
    using step Worker_idle by (auto simp: worker_idle_def Let_def split: if_split_asm)
  show thesis by (rule that [OF w]) (use jb' m fin [OF w] in \<open>auto simp: fin_at_def share_def\<close>)
next
  case (Worker_receive w src t0 t1)
  then have w: "1 \<le> w" "w < n" using assms(4) by simp_all
  have s: "wk_state (jb_worker jb w) = Serving" using step Worker_receive by (simp add: worker_receive_def split: if_split_asm)
  obtain it its where it: "jb_chan jb src w = it # its"
    and r: "(if do_work it = Some worker_exit then Some (if originator it = MANAGER_PROC then set_wstate w Left (taken src w its jb) else taken src w its jb)
        else map_option (\<lambda>cs. set_wstate w (running cs) (taken src w its jb)) (work t0 t1 it)) = Some jb'"
    using step s Worker_receive by (auto simp: worker_receive_def elim: get_workitem_cases)
  have src: "src = 0" using no_links [OF links, of src w] it w by auto
  then have e: "its = []" "do_work it = Some worker_exit" "jb_chan jb w 0 = []" using fin [OF w] it by (auto simp: fin_at_def)
  then have jb': "jb' = (if originator it = MANAGER_PROC then set_wstate w Left (taken 0 w [] jb) else taken 0 w [] jb)" using r src by (auto split: if_splits)
  show thesis by (rule that [OF w]) (use jb' m s it src e w wi_exit [OF e(2)] in \<open>auto simp: fin_at_def share_def\<close>)
next
  case (Worker_call w)
  then show thesis using step assms(4) fin [of w] by (auto simp: worker_call_def fin_at_def)
next
  case (Worker_answer w src)
  then show thesis using step assms(4) fin [of w] by (auto simp: worker_answer_def fin_at_def)
qed (use step m in \<open>simp_all add: manager_idle_def manager_receive_def manager_ack_def\<close>)

text \<open>When the manager has finished, a worker can only receive the order to leave, or find nothing.\<close>

lemma finished_ok:
  assumes inv: "jinv n jb" and m: "jb_manager jb = Finished" and "step_in n st" and step: "job_step work app_fn st jb = Some jb'"
  shows "jinv n jb' \<and> tot n jb' = tot n jb \<and> jb_manager jb' = Finished"
proof -
  have fin: "sched_inv ok n (jb_sched jb)" "links_inv n jb" "\<And>w. 1 \<le> w \<Longrightarrow> w < n \<Longrightarrow> fin_at jb w"
    "\<forall>xs \<in> set (queues_of (jb_sched jb)). xs = []"
    using inv m by (simp_all add: job_inv_def)
  obtain w where w: "1 \<le> w" "w < n" and eqs: "jb_sched jb' = jb_sched jb" "jb_stats jb' = jb_stats jb" "jb_out jb' = jb_out jb"
      "jb_manager jb' = Finished" and same: "\<forall>v. v \<noteq> w \<longrightarrow> jb_worker jb' v = jb_worker jb v"
      "\<forall>s t. \<not> (s = 0 \<and> t = w) \<longrightarrow> jb_chan jb' s t = jb_chan jb s t"
    and at: "fin_at jb' w" "share wi wp jb' w = share wi wp jb w"
    using finished_step [OF m fin(2,3) assms(3) step] .
  note eqs = eqs same [rule_format]
  have "fin_at jb' v" if "1 \<le> v" "v < n" for v
    using fin(3) [OF that] at(1) eqs(5) [of v] eqs(6) [of v 0] eqs(6) [of 0 v] that by (cases "v = w") (simp_all add: fin_at_def)
  moreover have "links_inv n jb'"
    using fin(2) w eqs(6) unfolding links_inv_def by metis
  ultimately have "jinv n jb'" using fin(1,4) by (simp add: job_inv_def eqs(1,4) manager_inv_def)
  moreover have "share wi wp jb' v = share wi wp jb v" if "v \<in> {1..<n}" for v
    using at(2) eqs(5) [of v] eqs(6) [of v 0] eqs(6) [of 0 v] that by (cases "v = w") (simp_all add: share_def)
  then have "tot n jb' = tot n jb" by (simp add: total_def own_def eqs)
  ultimately show ?thesis using eqs(4) by simp
qed

section \<open>Schedules\<close>

lemma step_ok:
  assumes inv: "jinv n jb" and "step_in n st" and step: "job_step work app_fn st jb = Some jb'"
  shows "jinv n jb' \<and> tot n jb' = tot n jb"
proof (cases "jb_manager jb = Finished")
  case True
  then show ?thesis using finished_ok [OF inv True assms(2) step] by simp
next
  case False
  show ?thesis
  proof (cases st)
    case Manager_idle
    then show ?thesis using step by (intro manager_idle_ok [OF inv]) (simp add: MANAGER_PROC_def)
  next
    case (Manager_receive src p)
    then show ?thesis using step by (intro manager_receive_ok [OF inv]) (simp add: MANAGER_PROC_def)
  next
    case (Manager_ack p)
    then show ?thesis using step by (intro manager_ack_ok [OF inv]) (simp add: MANAGER_PROC_def)
  next
    case (Worker_idle w)
    then show ?thesis using step assms(2) by (intro worker_idle_ok [OF inv False]) simp_all
  next
    case (Worker_receive w src t0 t1)
    then show ?thesis using step assms(2) by (intro worker_receive_ok [OF inv False]) simp_all
  next
    case (Worker_call w)
    then show ?thesis using step assms(2) by (intro worker_call_ok [OF inv False]) simp_all
  next
    case (Worker_answer w src)
    then show ?thesis using step assms(2) by (intro worker_answer_ok [OF inv False]) simp_all
  qed
qed

lemma run_ok:
  "jinv n jb \<Longrightarrow> job_run work app_fn n sts jb = Some jb' \<Longrightarrow> jinv n jb' \<and> tot n jb' = tot n jb"
proof (induction sts arbitrary: jb)
  case (Cons st sts)
  then obtain jb1 where "step_in n st" "job_step work app_fn st jb = Some jb1" "job_run work app_fn n sts jb1 = Some jb'"
    by (auto split: if_split_asm bind_splits)
  then show ?case using step_ok [OF Cons.prems(1)] Cons.IH [of jb1] by simp
qed simp

text \<open>In the end the weight is what is printed and in the statistics.\<close>

lemma finished_total:
  assumes inv: "jinv n jb" and m: "jb_manager jb = Finished"
  shows "tot n jb = (\<Sum>s\<leftarrow>jb_out jb. wp s) + ws (jb_stats jb)"
proof -
  have fin: "\<And>w. 1 \<le> w \<Longrightarrow> w < n \<Longrightarrow> fin_at jb w" "\<forall>xs \<in> set (queues_of (jb_sched jb)). xs = []"
    using inv m by (simp_all add: job_inv_def)
  have "share wi wp jb w = 0" if "1 \<le> w" "w < n" for w
    using fin(1) [OF that] wi_exit by (auto simp: fin_at_def share_def)
  then have "(\<Sum>w \<in> {1..<n}. share wi wp jb w) = 0" by (intro sum.neutral) simp
  moreover have "(\<Sum>xs\<leftarrow>xss. \<Sum>e\<leftarrow>xs. wi (snd e)) = 0" if "\<forall>xs \<in> set xss. xs = []" for xss :: queues
    using that by (induction xss) simp_all
  then have "queued_weight wi (jb_sched jb) = 0" unfolding queued_weight_def using fin(2) by blast
  ultimately show ?thesis by (simp add: total_def own_def)
qed

end

end
