(* ===== verification/Pwt_Progress.thy ===== *)
theory Pwt_Progress
  imports Pwt_Correct "HOL-Library.Multiset_Order"
begin

text \<open>
  The manager can always end.  As long as no worker has left and the manager has not ended, a step is
  possible that brings the end nearer: the items on their way, each coded by its rank and by how far it
  has come, decrease in the order of multisets.  The locale \<open>pwt_live\<close> extends \<open>pwt_app\<close> by what this
  needs of an application: work on an item leads to items of a smaller rank.
\<close>

section \<open>What is left to do\<close>

definition item_code :: "(WorkItem \<Rightarrow> nat) \<Rightarrow> nat \<Rightarrow> WorkItem \<Rightarrow> nat" where
  "item_code rank k it = 10 * Suc (rank it) + k"

definition call_code :: "(WorkItem \<Rightarrow> nat) \<Rightarrow> call \<Rightarrow> nat" where
  "call_code rank c = (case c of Print_line s \<Rightarrow> 0 | Request t q \<Rightarrow> 9 | Send_item t it \<Rightarrow> if manager_run it then 3 else item_code rank 9 it)"

definition up_code :: "(WorkItem \<Rightarrow> nat) \<Rightarrow> WorkItem \<Rightarrow> nat" where
  "up_code rank it = (if manager_run it then 2 else if workitem_hasWorkRequest it then 8 else item_code rank 8 it)"

definition down_code :: "(WorkItem \<Rightarrow> nat) \<Rightarrow> WorkItem \<Rightarrow> nat" where
  "down_code rank it = (if workitem_hasWorkRequest it then 7 else item_code rank 6 it)"

fun state_todo :: "(WorkItem \<Rightarrow> nat) \<Rightarrow> wstate \<Rightarrow> nat multiset" where
  "state_todo rank (Running cs) = mset (map (call_code rank) cs)"
| "state_todo rank (Requesting b t cs) = mset (map (call_code rank) cs)"
| "state_todo rank _ = {#}"

definition part_todo :: "(WorkItem \<Rightarrow> nat) \<Rightarrow> WorkItem list \<Rightarrow> WorkItem list \<Rightarrow> wstate \<Rightarrow> nat multiset" where
  "part_todo rank up down st = mset (map (up_code rank) up) + mset (map (down_code rank) down) + state_todo rank st"

definition queue_todo :: "(WorkItem \<Rightarrow> nat) \<Rightarrow> Scheduler \<Rightarrow> nat multiset" where
  "queue_todo rank sched = queued_weight (\<lambda>it. {#item_code rank 7 it#}) sched"

definition todo :: "(WorkItem \<Rightarrow> nat) \<Rightarrow> int \<Rightarrow> 'm job \<Rightarrow> nat multiset" where
  "todo rank n jb = queue_todo rank (jb_sched jb) +
     (\<Sum>w \<in> {1..<n}. part_todo rank (jb_chan jb w 0) (jb_chan jb 0 w) (wk_state (jb_worker jb w)))"

lemma todo_less:
  fixes jb jb' :: "'m job"
  assumes w: "1 \<le> w" "w < n"
    and same: "\<forall>v. 1 \<le> v \<longrightarrow> v \<noteq> w \<longrightarrow> jb_chan jb' v 0 = jb_chan jb v 0 \<and> jb_chan jb' 0 v = jb_chan jb 0 v \<and> jb_worker jb' v = jb_worker jb v"
    and less: "queue_todo rank (jb_sched jb') + part_todo rank (jb_chan jb' w 0) (jb_chan jb' 0 w) (wk_state (jb_worker jb' w)) <
      queue_todo rank (jb_sched jb) + part_todo rank (jb_chan jb w 0) (jb_chan jb 0 w) (wk_state (jb_worker jb w))"
  shows "todo rank n jb' < todo rank n jb"
proof -
  let ?p = "\<lambda>j v. part_todo rank (jb_chan j v 0) (jb_chan j 0 v) (wk_state (jb_worker j v))"
  have rest: "(\<Sum>v \<in> {1..<n} - {w}. ?p jb' v) = (\<Sum>v \<in> {1..<n} - {w}. ?p jb v)" using same by (intro sum.cong) auto
  have split: "todo rank n j = (queue_todo rank (jb_sched j) + ?p j w) + (\<Sum>v \<in> {1..<n} - {w}. ?p j v)" for j :: "'m job"
    unfolding todo_def using w by (subst sum.remove [of _ w]) (simp_all add: add.assoc)
  show ?thesis unfolding split rest using less by (rule add_strict_right_mono)
qed

lemma below_single: "\<forall>k \<in># K. k < x \<Longrightarrow> K < {#x :: nat#}"
  by (rule ex_gt_imp_less_multiset) auto

lemma codes [simp]:
  "call_code rank (Print_line s) = 0" "call_code rank (Request t q) = 9"
  "call_code rank (Send_item t it) = (if manager_run it then 3 else item_code rank 9 it)"
  by (simp_all add: call_code_def)

lemma fresh_entry_exists:
  assumes "sched_holds sched xss"
  obtains p where "fresh_entry sched p"
proof -
  have "finite (\<Union>xs \<in> set xss. fst ` set xs)" by simp
  then obtain p where "p \<notin> (\<Union>xs \<in> set xss. fst ` set xs)" using ex_new_if_finite infinite_UNIV_nat by blast
  then show thesis using that fresh_entry_iff [OF assms, of p] by auto
qed

lemma at_most_first:
  assumes "\<And>i. 0 < i \<Longrightarrow> i < length ps \<Longrightarrow> \<not> P (ps ! i)"
  shows "length (filter P ps) \<le> 1"
proof (cases ps)
  case (Cons x xs)
  have "\<not> P y" if "y \<in> set xs" for y
    using that
  proof -
    assume "y \<in> set xs"
    then obtain i where "i < length xs" "xs ! i = y" unfolding in_set_conv_nth by blast
    then show ?thesis using assms [of "Suc i"] Cons by auto
  qed
  then have "filter P xs = []" by (simp add: filter_empty_conv)
  then show ?thesis using Cons by simp
qed simp

section \<open>A step nearer to the end\<close>

definition nearer :: "(WorkItem \<Rightarrow> nat) \<Rightarrow> int \<Rightarrow> 'm job \<Rightarrow> 'm job \<Rightarrow> bool" where
  "nearer rank n jb jb' \<longleftrightarrow> (\<forall>w. wk_state (jb_worker jb' w) = Left \<longrightarrow> wk_state (jb_worker jb w) = Left) \<and>
     (jb_manager jb' = Finished \<or> todo rank n jb' < todo rank n jb)"

text \<open>A worker that has left stays so, and takes no message.\<close>

lemma get_workitem_SomeD: "get_workitem t s jb = Some (it, jb') \<Longrightarrow> \<exists>its. jb_chan jb s t = it # its \<and> jb' = taken s t its jb"
  by (cases "jb_chan jb s t") (simp_all add: get_workitem_def taken_def)

lemma left_stays:
  assumes "job_step work app_fn st jb = Some jb'" and "wk_state (jb_worker jb w) = Left" and "1 \<le> w"
  shows "wk_state (jb_worker jb' w) = Left \<and> (\<exists>xs. jb_chan jb' 0 w = jb_chan jb 0 w @ xs)"
proof (cases st)
  case Manager_idle
  then show ?thesis using assms
    by (auto simp: manager_idle_def manager_fini_def fold_send MANAGER_PROC_def split: if_split_asm bind_splits)
next
  case (Manager_receive src p)
  have do: "jb_worker j' = jb_worker j \<and> jb_chan j' = jb_chan j" if "manager_do_work app_fn it j = Some j'" for it j j'
    using that by (auto simp: manager_do_work_def split: option.splits bind_splits)
  show ?thesis using assms Manager_receive
    by (auto simp: manager_receive_def MANAGER_PROC_def dest!: do get_workitem_SomeD split: if_split_asm bind_splits addwork.splits)
next
  case (Manager_ack p)
  then show ?thesis using assms
    by (auto simp: manager_ack_def MANAGER_PROC_def dest!: get_workitem_SomeD split: mstate.splits if_split_asm bind_splits)
next
  case (Worker_idle v)
  then show ?thesis using assms by (auto simp: worker_idle_def Let_def split: if_split_asm bind_splits)
next
  case (Worker_receive v src t0 t1)
  then have "v \<noteq> w" using assms by (auto simp: worker_receive_def split: if_split_asm bind_splits)
  then show ?thesis using assms Worker_receive
    by (auto simp: worker_receive_def dest!: get_workitem_SomeD split: if_split_asm bind_splits)
next
  case (Worker_call v)
  then have "v \<noteq> w" using assms by (auto simp: worker_call_def)
  then show ?thesis using assms Worker_call by (auto simp: worker_call_def split: wstate.splits list.splits call.splits)
next
  case (Worker_answer v src)
  then have "v \<noteq> w" using assms by (auto simp: worker_answer_def)
  then show ?thesis using assms Worker_answer
    by (auto simp: worker_answer_def dest!: get_workitem_SomeD split: wstate.splits if_split_asm bind_splits)
qed

context pwt_app
begin

lemma left_blocks:
  assumes "jinv n jb" and w: "1 \<le> w" "w < n" and "wk_state (jb_worker jb w) = Left" and "jb_chan jb 0 w = it # its"
    and it: "do_work it \<noteq> Some worker_exit" and "job_run work app_fn n sts jb = Some jb'"
  shows "jb_manager jb' \<noteq> Finished"
  using assms(1,4,5,7)
proof (induction sts arbitrary: jb its)
  case Nil
  then have "jb' = jb" by simp
  show ?case
  proof
    assume "jb_manager jb' = Finished"
    then have "fin_at jb w" using Nil.prems(1) w \<open>jb' = jb\<close> by (simp add: job_inv_def)
    then show False using Nil.prems(3) it by (auto simp: fin_at_def)
  qed
next
  case (Cons st sts)
  then obtain jb1 where st: "step_in n st" "job_step work app_fn st jb = Some jb1" "job_run work app_fn n sts jb1 = Some jb'"
    by (auto split: if_split_asm bind_splits)
  obtain xs where "wk_state (jb_worker jb1 w) = Left" "jb_chan jb1 0 w = it # (its @ xs)"
    using left_stays [OF st(2) Cons.prems(2) w(1)] Cons.prems(3) by auto
  then show ?case using Cons.IH [of jb1] step_ok [OF Cons.prems(1) st(1,2)] st(3) by blast
qed

end

locale pwt_live = pwt_app work ok wi wp ws
  for work :: "timeval \<Rightarrow> timeval \<Rightarrow> WorkItem \<Rightarrow> call list option" and ok and wi :: "WorkItem \<Rightarrow> 'w :: comm_monoid_add" and wp and ws +
  fixes rank :: "WorkItem \<Rightarrow> nat"
  assumes rank_less: "ok it \<Longrightarrow> originator it = 0 \<Longrightarrow> work t0 t1 it = Some cs \<Longrightarrow> j \<in> set (submits cs) \<Longrightarrow> rank j < rank it"
    and rank_move [simp]: "rank (it\<lparr>originator := r\<rparr>) = rank it"
begin

lemma call_nearer:
  assumes inv: "jinv n jb" "jb_manager jb \<noteq> Finished" and w: "1 \<le> w" "w < n" and s: "wk_state (jb_worker jb w) = Running cs"
  shows "\<exists>jb'. worker_call w jb = Some jb' \<and> nearer rank n jb jb'"
proof -
  have at: "prog_ok ok cs \<or> (\<exists>it cs'. cs = Send_item 0 it # cs' \<and> ok it \<and> prog_ok ok cs')"
    using job_inv_split(4) [OF inv w] s by (auto simp: worker_at_def)
  obtain c cs' where cs: "cs = c # cs'" and c: "\<forall>t it. c = Send_item t it \<longrightarrow> t = 0 \<and> (manager_run it \<or> ok it)" "\<forall>t q. c = Request t q \<longrightarrow> t = 0 \<and> 0 \<le> q"
  proof (cases cs)
    case Nil
    then show thesis using at by (auto simp: prog_ok_def program_def)
  next
    case (Cons c cs')
    show thesis
    proof (rule that [OF Cons])
      show "\<forall>t it. c = Send_item t it \<longrightarrow> t = 0 \<and> (manager_run it \<or> ok it)" "\<forall>t q. c = Request t q \<longrightarrow> t = 0 \<and> 0 \<le> q"
        using at unfolding Cons by (auto elim: prog_ok_first simp: is_done_def)
    qed
  qed
  have st: "state_todo rank (running cs') = mset (map (call_code rank) cs')" by (simp add: running_def)
  show ?thesis
  proof (cases c)
    case (Print_line l)
    let ?jb = "set_wstate w (running cs') (jb\<lparr>jb_out := jb_out jb @ [l]\<rparr>)"
    have "todo rank n ?jb < todo rank n jb"
      by (rule todo_less [OF w]) (simp_all add: part_todo_def st s cs)
    then show ?thesis using s cs Print_line
      by (intro exI [of _ ?jb]) (auto simp: worker_call_def nearer_def running_def set_wstate_def)
  next
    case (Send_item t it)
    let ?jb = "set_wstate w (running cs') (send_workitem it w 0 jb)"
    have "up_code rank (it\<lparr>originator := w\<rparr>) < call_code rank c"
      using c(1) Send_item ok_shape [of it] by (auto simp: up_code_def item_code_def item_simps)
    then have "{#up_code rank (it\<lparr>originator := w\<rparr>)#} < {#call_code rank c#}" by (intro below_single) simp
    then have "todo rank n ?jb < todo rank n jb"
      using w by (intro todo_less [OF w]) (simp_all add: part_todo_def st s cs)
    then show ?thesis using s cs Send_item c(1)
      by (intro exI [of _ ?jb]) (auto simp: worker_call_def nearer_def running_def set_wstate_def)
  next
    case (Request t q)
    let ?jb = "set_wstate w (Requesting True 0 cs') (send_workitem (request_item w q) w 0 jb)"
    have "up_code rank ((request_item w q)\<lparr>originator := w\<rparr>) < call_code rank c"
      using Request by (auto simp: up_code_def request_item_def item_simps workreq_clear_def)
    then have "{#up_code rank ((request_item w q)\<lparr>originator := w\<rparr>)#} < {#call_code rank c#}" by (intro below_single) simp
    then have "todo rank n ?jb < todo rank n jb"
      using w by (intro todo_less [OF w]) (simp_all add: part_todo_def st s cs)
    then show ?thesis using s cs Request c(2)
      by (intro exI [of _ ?jb]) (auto simp: worker_call_def nearer_def set_wstate_def)
  qed
qed

lemma receive_nearer:
  assumes inv: "jinv n jb" "jb_manager jb \<noteq> Finished" and w: "1 \<le> w" "w < n" and s: "wk_state (jb_worker jb w) = Serving"
    and it: "jb_chan jb 0 w = it # its"
  shows "\<exists>jb'. worker_receive (work t0 t1) w 0 jb = Some jb' \<and> nearer rank n jb jb'"
proof -
  have here: "its = []" "ok it" "originator it = 0"
    using job_inv_split(4) [OF inv w] s it by (auto simp: worker_at_def)
  obtain cs where cs: "work t0 t1 it = Some cs" "prog_ok ok cs" using work_runs [OF here(2,3)] by blast
  let ?jb = "set_wstate w (running cs) (taken 0 w [] jb)"
  have "call_code rank c < down_code rank it" if "c \<in> set cs" for c
  proof (cases c)
    case (Send_item t j)
    show ?thesis
    proof (cases "manager_run j")
      case True
      then show ?thesis using Send_item ok_shape [OF here(2)] by (simp add: down_code_def item_code_def)
    next
      case False
      then have "j \<in> set (submits cs)" using Send_item that by (force simp: submits_def work_call_def)
      then have "rank j < rank it" by (rule rank_less [OF here(2,3) cs(1)])
      then show ?thesis using Send_item ok_shape [OF here(2)] False by (simp add: down_code_def item_code_def)
    qed
  qed (use ok_shape [OF here(2)] in \<open>simp_all add: down_code_def item_code_def\<close>)
  then have "mset (map (call_code rank) cs) < {#down_code rank it#}" by (intro below_single) auto
  then have "todo rank n ?jb < todo rank n jb"
    using w by (intro todo_less [OF w]) (simp_all add: part_todo_def running_prog [OF cs(2)] s it here(1))
  moreover have "worker_receive (work t0 t1) w 0 jb = Some ?jb"
    using s it here(1) cs(1) ok_shape [OF here(2)] by (simp add: worker_receive_def get_workitem_def taken_def)
  ultimately show ?thesis by (intro exI [of _ ?jb]) (auto simp: nearer_def running_def set_wstate_def)
qed

lemma answer_nearer:
  assumes inv: "jinv n jb" "jb_manager jb \<noteq> Finished" and w: "1 \<le> w" "w < n" and s: "wk_state (jb_worker jb w) = Requesting b t cs"
    and it: "jb_chan jb 0 w = a # its"
  shows "\<exists>jb'. worker_answer w 0 jb = Some jb' \<and> nearer rank n jb jb'"
proof -
  have at: "its = []" "is_accept a" "t = 0" "cs \<noteq> []"
    using job_inv_split(4) [OF inv w] s it by (auto simp: worker_at_def)
  let ?jb = "set_wstate w (running cs) (taken 0 w [] jb)"
  have st: "state_todo rank (running cs) = mset (map (call_code rank) cs)" by (simp add: running_def)
  have "todo rank n ?jb < todo rank n jb"
    using w by (intro todo_less [OF w]) (simp_all add: part_todo_def st s it at(1))
  moreover have "worker_answer w 0 jb = Some ?jb"
    using s it at by (simp add: worker_answer_def get_workitem_def taken_def is_accept_def item_simps workreq_clear_def workreq_notAccepted_def)
  ultimately show ?thesis by (intro exI [of _ ?jb]) (auto simp: nearer_def running_def set_wstate_def)
qed

lemma ack_nearer:
  assumes inv: "jinv n jb" and m: "jb_manager jb = Acking w i" and it: "jb_chan jb w 0 = it # its"
  shows "\<exists>p jb'. manager_ack 0 p jb = Some jb' \<and> nearer rank n jb jb'"
proof -
  have nf: "jb_manager jb \<noteq> Finished" using m by simp
  note inv = inv nf
  have w: "1 \<le> w" "w < n" "i < length (sc_workq (jb_sched jb))" using job_inv_split(3) [OF inv] m by (simp_all add: manager_inv_def)
  note sched = job_inv_split(1) [OF inv]
  obtain p where p: "fresh_entry (jb_sched jb) p" by (rule fresh_entry_exists [OF sched_inv_split(1) [OF sched]])
  have "acking jb w" by (simp add: acking_def m)
  then have ok: "ok it"
    using job_inv_split(4) [OF inv w(1,2)] it by (cases "wk_state (jb_worker jb w)") (auto simp: worker_at_def awaited_def)
  let ?jb = "(taken w 0 its jb)\<lparr>jb_sched := enqueue (jb_sched jb) i p it, jb_manager := Looping\<rparr>"
  have q: "queue_todo rank (enqueue (jb_sched jb) i p it) = queue_todo rank (jb_sched jb) + {#item_code rank 7 it#}"
    unfolding queue_todo_def by (rule enqueue_inv(2) [OF sched w(3) p ok])
  have "{#item_code rank 7 it#} < {#up_code rank it#}"
    using ok_shape [OF ok] by (intro below_single) (simp add: up_code_def item_code_def)
  then have "todo rank n ?jb < todo rank n jb"
    using w by (intro todo_less [OF w(1,2)]) (simp_all add: part_todo_def it q)
  moreover have "manager_ack 0 p jb = Some ?jb" using m p it by (simp add: manager_ack_def get_workitem_def taken_def)
  ultimately show ?thesis by (intro exI [of _ p] exI [of _ ?jb]) (simp add: nearer_def)
qed

lemma manager_receive_nearer:
  assumes inv: "jinv n jb" and m: "jb_manager jb = Looping" and w: "1 \<le> w" "w < n" and it: "jb_chan jb w 0 = it # its"
  shows "\<exists>p jb'. manager_receive app_fn 0 w p jb = Some jb' \<and> nearer rank n jb jb'"
proof -
  have nf: "jb_manager jb \<noteq> Finished" using m by simp
  note inv = inv nf
  note sched = job_inv_split(1) [OF inv]
  note s = sched_inv_split [OF sched]
  obtain p where p: "fresh_entry (jb_sched jb) p" by (rule fresh_entry_exists [OF s(1)])
  have ack: "\<not> acking jb w" by (simp add: acking_def m)
  consider (request) b t cs where "wk_state (jb_worker jb w) = Requesting b t cs" "is_request w it" "its = []" "jb_chan jb 0 w = []"
    | (finished) perf where "wk_state (jb_worker jb w) = Serving \<or> wk_state (jb_worker jb w) = Left" "is_done perf it"
      "originator it = w" "its = []" "jb_chan jb 0 w = []"
    using job_inv_split(4) [OF inv w] ack it unfolding worker_at_def by (cases "wk_state (jb_worker jb w)") (auto simp: awaited_def)
  then show ?thesis
  proof cases
    case request
    then have run: "\<not> manager_run it" "workdata it = Some (Work_Request workreq_clear)" "originator it = w" "0 \<le> qidx it"
      by (simp_all add: is_request_def)
    obtain i where i: "queue_index (jb_sched jb) it = Some i" "i < length (sc_workq (jb_sched jb))"
      using queue_index_val [OF s(1) run(4)] s(7) by simp
    have full: "\<not> workq_full (sc_workq (jb_sched jb) ! i)"
      using s(1) i(2) s(7) by (auto simp: sched_holds_def workq_full_def)
    let ?it = "it\<lparr>workdata := Some (Work_Request workreq_clear)\<rparr>"
    let ?jb = "send_workitem ?it 0 w ((taken w 0 [] jb)\<lparr>jb_manager := Acking w i\<rparr>)"
    have "manager_receive app_fn 0 w p jb = Some ?jb"
      using m p it request(3) run i(1) full
      by (simp add: manager_receive_def get_workitem_def taken_def scheduler_addwork_def scheduler_ackwork_def item_simps
          workreq_clear_def workreq_accept_def)
    moreover have "todo rank n ?jb < todo rank n jb"
      using w request it run by (intro todo_less [OF w])
        (simp_all add: part_todo_def up_code_def down_code_def item_simps workreq_clear_def below_single)
    ultimately show ?thesis by (intro exI [of _ p] exI [of _ ?jb]) (simp add: nearer_def)
  next
    case finished
    then have run: "manager_run it" "do_work it = Some manager_workdone" "workdata it = Some (Work_Perf perf)" "ps_type perf = PERFSTAT_TYPE"
      by (simp_all add: is_done_def perf_ok_def)
    let ?jb = "(taken w 0 [] jb)\<lparr>jb_sched := (jb_sched jb)\<lparr>sc_processes := (sc_processes (jb_sched jb))[nat w := 0]\<rparr>,
        jb_stats := perfstat_add (jb_stats jb) perf, jb_out := jb_out jb, jb_app := jb_app jb\<rparr>"
    have n: "nat w < length (sc_processes (jb_sched jb))" using w s(4) by simp
    then have "manager_receive app_fn 0 w p jb = Some ?jb"
      using m p it finished(3,4) run w
      by (simp add: manager_receive_def get_workitem_def taken_def manager_do_work_def item_simps scheduler_set_processidle_def
          processing_set_idle_def processing_set_def)
    moreover have "queue_todo rank (jb_sched ?jb) = queue_todo rank (jb_sched jb)"
      by (simp add: queue_todo_def queued_weight_def queues_of_def)
    then have "todo rank n ?jb < todo rank n jb"
      using w finished it by (intro todo_less [OF w]) (simp_all add: part_todo_def)
    ultimately show ?thesis by (intro exI [of _ p] exI [of _ ?jb]) (simp add: nearer_def)
  qed
qed

lemma idle_nearer:
  assumes inv: "jinv n jb" and n: "2 \<le> n" and m: "jb_manager jb = Looping"
    and free: "\<And>w. 1 \<le> w \<Longrightarrow> w < n \<Longrightarrow> sc_processes (jb_sched jb) ! nat w = 0"
  shows "\<exists>jb'. manager_idle 0 jb = Some jb' \<and> nearer rank n jb jb'"
proof -
  have nf: "jb_manager jb \<noteq> Finished" using m by simp
  note sched = job_inv_split(1) [OF inv nf]
  note s = sched_inv_split [OF sched]
  have fini: "jb_worker (manager_fini 0 j) = jb_worker j" "jb_manager (manager_fini 0 j) = Finished" for j :: "'x job"
    by (simp_all add: manager_fini_def fold_send)
  show ?thesis
  proof (cases "scheduler_canAssignWork (jb_sched jb)")
    case True
    obtain x w sched' where g: "scheduler_getwork (jb_sched jb) = Some (Some x, w, sched')" "ok x" "1 \<le> w" "w < n"
      "queued_weight (\<lambda>it. {#item_code rank 7 it#}) (jb_sched jb) = queued_weight (\<lambda>it. {#item_code rank 7 it#}) sched' + {#item_code rank 7 x#}"
      by (rule getwork_inv [OF sched True, of "\<lambda>it. {#item_code rank 7 it#}"])
    let ?jb = "send_workitem x 0 w (jb\<lparr>jb_sched := sched'\<rparr>)"
    have "down_code rank (x\<lparr>originator := 0\<rparr>) < item_code rank 7 x"
      using ok_shape [OF g(2)] by (simp add: down_code_def item_code_def item_simps)
    then have "{#down_code rank (x\<lparr>originator := 0\<rparr>)#} < {#item_code rank 7 x#}" by (intro below_single) simp
    then have "todo rank n ?jb < todo rank n jb"
      using g(3,4) by (intro todo_less [OF g(3,4)]) (simp_all add: part_todo_def queue_todo_def g(5))
    moreover have "manager_idle 0 jb = Some (if scheduler_workDone (jb_sched ?jb) then manager_fini 0 ?jb else ?jb)"
      using m True g(1) by (simp add: manager_idle_def)
    ultimately show ?thesis
      by (intro exI [of _ "if scheduler_workDone (jb_sched ?jb) then manager_fini 0 ?jb else ?jb"]) (simp add: nearer_def fini)
  next
    case False
    have "sc_processes (jb_sched jb) ! 1 = 0" using free [of 1] n by simp
    then have "0 \<in> set (sc_processes (jb_sched jb))" using n s(4) nth_mem [of 1 "sc_processes (jb_sched jb)"] by simp
    then have "\<forall>xs \<in> set (queues_of (jb_sched jb)). xs = []" using False canAssignWork_iff [OF s(1)] by simp
    moreover have "sc_processes (jb_sched jb) ! i \<noteq> 1" if "0 < i" "i < length (sc_processes (jb_sched jb))" for i
      using free [of "int i"] that s(4) n by simp
    then have "length (filter (\<lambda>s. s = 1) (sc_processes (jb_sched jb))) \<le> 1" by (rule at_most_first)
    ultimately have "scheduler_workDone (jb_sched jb)" using workDone_iff [OF s(1)] by simp
    then have "manager_idle 0 jb = Some (manager_fini 0 jb)" using m False by (simp add: manager_idle_def)
    then show ?thesis by (intro exI [of _ "manager_fini 0 jb"]) (simp add: nearer_def fini)
  qed
qed

lemma progress:
  assumes inv: "jinv n jb" and n: "2 \<le> n" and nf: "jb_manager jb \<noteq> Finished"
    and here: "\<And>w. 1 \<le> w \<Longrightarrow> w < n \<Longrightarrow> wk_state (jb_worker jb w) \<noteq> Left"
  shows "\<exists>st jb'. step_in n st \<and> job_step work app_fn st jb = Some jb' \<and> nearer rank n jb jb'"
proof (cases "jb_manager jb")
  case (Acking w i)
  have w: "1 \<le> w" "w < n" using job_inv_split(3) [OF inv nf] Acking by (simp_all add: manager_inv_def)
  have ack: "acking jb w" by (simp add: acking_def Acking)
  note at = job_inv_split(4) [OF inv nf w, unfolded worker_at_def]
  show ?thesis
  proof (cases "jb_chan jb w 0")
    case (Cons it its)
    obtain p jb' where "manager_ack 0 p jb = Some jb'" "nearer rank n jb jb'" using ack_nearer [OF inv Acking Cons] by blast
    then show ?thesis by (intro exI [of _ "Manager_ack p"] exI [of _ jb']) (simp add: MANAGER_PROC_def)
  next
    case Nil
    show ?thesis
    proof (cases "wk_state (jb_worker jb w)")
      case (Running cs)
      obtain jb' where "worker_call w jb = Some jb'" "nearer rank n jb jb'" using call_nearer [OF inv nf w Running] by blast
      then show ?thesis using w by (intro exI [of _ "Worker_call w"] exI [of _ jb']) simp
    next
      case (Requesting b t cs)
      obtain a its where a: "jb_chan jb 0 w = a # its" using at Nil Requesting by auto
      obtain jb' where "worker_answer w 0 jb = Some jb'" "nearer rank n jb jb'" using answer_nearer [OF inv nf w Requesting a] by blast
      then show ?thesis using w by (intro exI [of _ "Worker_answer w 0"] exI [of _ jb']) simp
    qed (use at ack Nil in auto)
  qed
next
  case Looping
  have ack: "\<not> acking jb w" for w by (simp add: acking_def Looping)
  show ?thesis
  proof (cases "\<forall>w. 1 \<le> w \<and> w < n \<longrightarrow> sc_processes (jb_sched jb) ! nat w = 0")
    case True
    obtain jb' where "manager_idle 0 jb = Some jb'" "nearer rank n jb jb'" using idle_nearer [OF inv n Looping] True by blast
    then show ?thesis by (intro exI [of _ Manager_idle] exI [of _ jb']) (simp add: MANAGER_PROC_def)
  next
    case False
    then obtain w where w: "1 \<le> w" "w < n" and f: "sc_processes (jb_sched jb) ! nat w \<noteq> 0" by blast
    note at = job_inv_split(4) [OF inv nf w, unfolded worker_at_def]
    show ?thesis
    proof (cases "jb_chan jb w 0")
      case (Cons it its)
      obtain p jb' where "manager_receive app_fn 0 w p jb = Some jb'" "nearer rank n jb jb'"
        using manager_receive_nearer [OF inv Looping w Cons] by blast
      then show ?thesis by (intro exI [of _ "Manager_receive w p"] exI [of _ jb']) (simp add: MANAGER_PROC_def)
    next
      case Nil
      show ?thesis
      proof (cases "wk_state (jb_worker jb w)")
        case (Running cs)
        obtain jb' where "worker_call w jb = Some jb'" "nearer rank n jb jb'" using call_nearer [OF inv nf w Running] by blast
        then show ?thesis using w by (intro exI [of _ "Worker_call w"] exI [of _ jb']) simp
      next
        case Serving
        obtain it its where it: "jb_chan jb 0 w = it # its" using at Nil Serving f ack by auto
        obtain jb' where "worker_receive (work (0, 0) (0, 0)) w 0 jb = Some jb'" "nearer rank n jb jb'"
          using receive_nearer [OF inv nf w Serving it] by blast
        then show ?thesis using w by (intro exI [of _ "Worker_receive w 0 (0, 0) (0, 0)"] exI [of _ jb']) simp
      qed (use at ack Nil f here [OF w] in auto)
    qed
  qed
qed (use nf in simp)

lemma can_finish:
  assumes "jinv n jb" and "2 \<le> n" and "\<And>w. 1 \<le> w \<Longrightarrow> w < n \<Longrightarrow> wk_state (jb_worker jb w) \<noteq> Left"
  shows "\<exists>sts jb'. job_run work app_fn n sts jb = Some jb' \<and> jb_manager jb' = Finished"
  using assms
proof (induction "todo rank n jb" arbitrary: jb rule: less_induct)
  case less
  show ?case
  proof (cases "jb_manager jb = Finished")
    case True
    then show ?thesis by (intro exI [of _ "[]"] exI [of _ jb]) simp
  next
    case False
    obtain st jb1 where st: "step_in n st" "job_step work app_fn st jb = Some jb1" "nearer rank n jb jb1"
      using progress [OF less.prems(1,2) False less.prems(3)] by blast
    show ?thesis
    proof (cases "jb_manager jb1 = Finished")
      case True
      then show ?thesis using st by (intro exI [of _ "[st]"] exI [of _ jb1]) simp
    next
      case False
      have "jinv n jb1" using step_ok [OF less.prems(1) st(1,2)] by simp
      moreover have "todo rank n jb1 < todo rank n jb" "\<And>w. 1 \<le> w \<Longrightarrow> w < n \<Longrightarrow> wk_state (jb_worker jb1 w) \<noteq> Left"
        using st(3) False less.prems(3) by (auto simp: nearer_def)
      ultimately obtain sts jb' where "job_run work app_fn n sts jb1 = Some jb'" "jb_manager jb' = Finished"
        using less.hyps [of jb1] less.prems(2) by blast
      then show ?thesis using st by (intro exI [of _ "st # sts"] exI [of _ jb']) simp
    qed
  qed
qed

end

end
