(* ===== verification/Treewalk_Run.thy ===== *)
theory Treewalk_Run
  imports Pwt_Progress
begin

text \<open>
  The tree walk from its start to the end of the manager: the work functions of \<open>Treewalk\<close> keep what
  \<open>pwt_app\<close> promises, for the lines and for the counters, and a walk that has ended has printed every file and
  counted every path.
\<close>

section \<open>The weight of a work function\<close>

lemma program_weight:
  assumes "program tgt cs perf" and done_weight: "\<And>it. is_done perf it \<Longrightarrow> wi it = (wd :: 'w :: comm_monoid_add)"
  shows "calls_weight wi wp cs = (\<Sum>s\<leftarrow>printed cs. wp s) + (\<Sum>j\<leftarrow>submits cs. wi j) + wd"
proof -
  obtain pre it where cs: "cs = pre @ [Send_item tgt it]" and pre: "chunk tgt pre" and it: "is_done perf it"
    using assms(1) by (auto simp: program_def)
  have "calls_weight wi wp pre = (\<Sum>s\<leftarrow>printed pre. wp s) + (\<Sum>j\<leftarrow>submits pre. wi j)"
    using pre by (induction tgt pre rule: chunk.induct) (auto simp: printed_def submits_def work_call_def ac_simps)
  moreover have "printed cs = printed pre" "submits cs = submits pre" using program_end(2,3) [OF pre it] cs by simp_all
  ultimately show ?thesis using done_weight [OF it] cs by simp
qed

section \<open>The tree walk keeps the promises\<close>

definition walk_lines :: "file_system \<Rightarrow> (path \<Rightarrow> string list) \<Rightarrow> WorkItem \<Rightarrow> string multiset" where
  "walk_lines fs line it = (if manager_run it \<or> workitem_hasWorkRequest it \<or> do_work it = Some worker_exit then {#} else item_lines fs line it)"

definition walk_counts :: "file_system \<Rightarrow> nat \<Rightarrow> WorkItem \<Rightarrow> u64" where
  "walk_counts fs k it =
     (if workitem_hasWorkRequest it \<or> do_work it = Some worker_exit then 0
      else if manager_run it then (case workitem_get_perfstat it of Some perf \<Rightarrow> perf_counts perf k | None \<Rightarrow> 0)
      else item_counts fs k it)"

lemma tw_move [simp]:
  "tw_item fs (it\<lparr>originator := r\<rparr>) = tw_item fs it" "walk_lines fs line (it\<lparr>originator := r\<rparr>) = walk_lines fs line it"
  "walk_counts fs k (it\<lparr>originator := r\<rparr>) = walk_counts fs k it" "tw_rank fs (it\<lparr>originator := r\<rparr>) = tw_rank fs it"
  by (simp_all add: tw_item_def walk_lines_def walk_counts_def item_lines_def item_counts_def tw_rank_def paths_in_def item_paths_def
      item_simps)

lemma tw_item_shape:
  "tw_item fs it \<Longrightarrow> \<not> manager_run it \<and> 0 \<le> qidx it \<and> \<not> workitem_hasWorkRequest it \<and> do_work it \<noteq> Some worker_exit"
  by (auto simp: tw_item_def)

lemma tw_item_weights:
  assumes "tw_item fs it"
  shows "walk_lines fs line it = item_lines fs line it" and "walk_counts fs k it = item_counts fs k it"
  using tw_item_shape [OF assms] by (simp_all add: walk_lines_def walk_counts_def)

lemma done_weights:
  assumes "is_done perf it"
  shows "walk_lines fs line it = {#}" and "walk_counts fs k it = perf_counts perf k"
  using assms by (auto simp: walk_lines_def walk_counts_def is_done_def item_simps perf_ok_def type_marks)

lemma tw_law:
  assumes "tw_item fs it" and "originator it = 0"
  obtains cs perf where "tw_work fs app ls_line t0 t1 it = Some cs" "program 0 cs perf"
    "\<forall>j \<in> set (submits cs). tw_item fs j \<and> tw_rank fs j < tw_rank fs it"
    "item_lines fs (file_line fs app ls_line) it = mset (printed cs) + (\<Sum>j\<leftarrow>submits cs. item_lines fs (file_line fs app ls_line) j)"
    "\<forall>k < PERF_MAX_COUNTERS. item_counts fs k it = perf_counts perf k + (\<Sum>j\<leftarrow>submits cs. item_counts fs k j)"
proof -
  consider "do_work it = Some treewalk_statpath" | "do_work it = Some treewalk_readdir" using assms(1) by (auto simp: tw_item_def)
  then show thesis
  proof cases
    case 1
    show thesis by (rule statpath_law [OF assms(1) 1, of app ls_line t0 t1, unfolded assms(2)]) (rule that)
  next
    case 2
    show thesis by (rule readdir_law [OF assms(1) 2, of app ls_line t0 t1, unfolded assms(2)]) (rule that)
  qed
qed

interpretation walk: pwt_app "tw_work fs app ls_line" "tw_item fs" "walk_lines fs (file_line fs app ls_line)" "\<lambda>s. {#s#}" "\<lambda>_. {#}"
  for fs app ls_line
proof
  fix it t0 t1 assume it: "tw_item fs it" "originator it = 0"
  let ?line = "file_line fs app ls_line"
  obtain cs perf where r: "tw_work fs app ls_line t0 t1 it = Some cs" "program 0 cs perf"
    "\<forall>j \<in> set (submits cs). tw_item fs j \<and> tw_rank fs j < tw_rank fs it"
    "item_lines fs ?line it = mset (printed cs) + (\<Sum>j\<leftarrow>submits cs. item_lines fs ?line j)"
    by (rule tw_law [OF it])
  have "(\<Sum>s\<leftarrow>ss. {#s#}) = mset ss" for ss :: "string list" by (induction ss) simp_all
  moreover have "(\<Sum>j\<leftarrow>submits cs. walk_lines fs ?line j) = (\<Sum>j\<leftarrow>submits cs. item_lines fs ?line j)"
    using r(3) by (intro arg_cong [of _ _ sum_list] map_cong refl tw_item_weights(1)) simp
  ultimately have "walk_lines fs ?line it = calls_weight (walk_lines fs ?line) (\<lambda>s. {#s#}) cs"
    using program_weight [OF r(2), of "walk_lines fs ?line" "{#}" "\<lambda>s. {#s#}"] tw_item_weights(1) [OF it(1)] r(4)
    by (simp add: done_weights)
  then show "\<exists>cs. tw_work fs app ls_line t0 t1 it = Some cs \<and> prog_ok (tw_item fs) cs \<and>
      walk_lines fs ?line it = calls_weight (walk_lines fs ?line) (\<lambda>s. {#s#}) cs"
    using r(1-3) by (auto simp: prog_ok_def)
next
  show "workitem_hasWorkRequest it \<Longrightarrow> walk_lines fs (file_line fs app ls_line) it = 0"
    "do_work it = Some worker_exit \<Longrightarrow> walk_lines fs (file_line fs app ls_line) it = 0" for it
    by (simp_all add: walk_lines_def)
qed (simp_all only: tw_item_shape tw_move done_weights add_0_right add_0_left simp_thms)

lemma walk_app_counts:
  assumes "k < PERF_MAX_COUNTERS"
  shows "pwt_app (tw_work fs app ls_line) (tw_item fs) (walk_counts fs k) (\<lambda>_. 0) (\<lambda>ps. perf_counts ps k)"
proof
  fix it t0 t1 assume it: "tw_item fs it" "originator it = 0"
  obtain cs perf where r: "tw_work fs app ls_line t0 t1 it = Some cs" "program 0 cs perf"
    "\<forall>j \<in> set (submits cs). tw_item fs j \<and> tw_rank fs j < tw_rank fs it"
    "\<forall>k < PERF_MAX_COUNTERS. item_counts fs k it = perf_counts perf k + (\<Sum>j\<leftarrow>submits cs. item_counts fs k j)"
    by (rule tw_law [OF it])
  have "(\<Sum>j\<leftarrow>submits cs. walk_counts fs k j) = (\<Sum>j\<leftarrow>submits cs. item_counts fs k j)"
    using r(3) by (intro arg_cong [of _ _ sum_list] map_cong refl tw_item_weights(2)) simp
  moreover have "(\<Sum>s\<leftarrow>ss. 0) = (0 :: u64)" for ss :: "string list" by (induction ss) simp_all
  ultimately have "walk_counts fs k it = calls_weight (walk_counts fs k) (\<lambda>_. 0) cs"
    using program_weight [OF r(2), of "walk_counts fs k" "perf_counts perf k" "\<lambda>_. 0"] tw_item_weights(2) [OF it(1)] r(4) assms
    by (simp add: done_weights)
  then show "\<exists>cs. tw_work fs app ls_line t0 t1 it = Some cs \<and> prog_ok (tw_item fs) cs \<and>
      walk_counts fs k it = calls_weight (walk_counts fs k) (\<lambda>_. 0) cs"
    using r(1-3) by (auto simp: prog_ok_def)
next
  show "workitem_hasWorkRequest it \<Longrightarrow> walk_counts fs k it = 0"
    "do_work it = Some worker_exit \<Longrightarrow> walk_counts fs k it = 0" for it by (simp_all add: walk_counts_def)
  show "is_done perf it \<Longrightarrow> perf_counts (perfstat_add stats perf) k = perf_counts stats k + walk_counts fs k it" for perf it stats
    using done_weights(2) [of perf it fs k] perfstat_add_counter [OF assms, of stats perf] by (simp only: perf_counts_def)
qed (simp_all only: tw_item_shape tw_move simp_thms)

interpretation walk_stats: pwt_app "tw_work fs app ls_line" "tw_item fs" "walk_counts fs PERF_STAT_CALLS" "\<lambda>_. 0"
    "\<lambda>ps. perf_counts ps PERF_STAT_CALLS"
  for fs app ls_line by (rule walk_app_counts) (simp add: perf_idx)

interpretation walk_dirs: pwt_app "tw_work fs app ls_line" "tw_item fs" "walk_counts fs PERF_DIRS_READ" "\<lambda>_. 0"
    "\<lambda>ps. perf_counts ps PERF_DIRS_READ"
  for fs app ls_line by (rule walk_app_counts) (simp add: perf_idx)

interpretation walk_live: pwt_live "tw_work fs app ls_line" "tw_item fs" "walk_lines fs (file_line fs app ls_line)" "\<lambda>s. {#s#}"
    "\<lambda>_. {#}" "tw_rank fs"
  for fs app ls_line
proof
  fix it t0 t1 cs j
  assume it: "tw_item fs it" "originator it = 0" and cs: "tw_work fs app ls_line t0 t1 it = Some cs" "j \<in> set (submits cs)"
  obtain cs' where "tw_work fs app ls_line t0 t1 it = Some cs'" "\<forall>j \<in> set (submits cs'). tw_item fs j \<and> tw_rank fs j < tw_rank fs it"
    by (rule tw_law [OF it])
  then show "tw_rank fs j < tw_rank fs it" using cs by simp
qed (rule tw_move)

section \<open>The start\<close>

definition start_item :: "path \<Rightarrow> WorkItem" where
  "start_item p = zero_item\<lparr>do_work := Some treewalk_statpath, it_path := p\<rparr>"

definition start_paths :: "app_options options \<Rightarrow> path list" where
  "start_paths opt = a_start_path (o_app_ops opt) # a_args (o_app_ops opt)"

lemma add_path_run:
  assumes inv: "sched_inv ok n sched" and p: "length p < PATHSIZE_PLUS" "ok (start_item p)" and a: "fresh_entry sched a"
  obtains sched' where "add_path_work 0 a p sched = Some sched'" "sched_inv ok n sched'"
    "queued_weight wi sched' = queued_weight wi sched + wi (start_item p)" "sc_processes sched' = sc_processes sched"
    "\<forall>b. b \<noteq> a \<longrightarrow> fresh_entry sched b \<longrightarrow> fresh_entry sched' b"
proof -
  note s = sched_inv_split [OF inv]
  let ?it = "start_item p" and ?xss = "queues_of sched"
  let ?sched = "enqueue sched 0 a ?it"
  have len: "0 < length ?xss" using s(1) by (simp add: sched_holds_def)
  then have "queue_index sched ?it = Some 0"
    using queue_index_val(1) [OF s(1), of ?it] by (simp add: start_item_def item_simps min_def)
  then have run: "add_path_work 0 a p sched = Some ?sched"
    using p(1) by (simp add: add_path_work_def workitem_update_path_def copy_path_def scheduler_addwork_def start_item_def item_simps)
  have "0 < length (sc_workq sched)" using len s(7) by simp
  note e = enqueue_inv [OF inv this a p(2)]
  have "fresh_entry ?sched b" if "b \<noteq> a" "fresh_entry sched b" for b
  proof -
    have h: "sched_holds ?sched (?xss[0 := ?xss ! 0 @ [(a, ?it)]])"
      using a len unfolding fresh_entry_iff [OF s(1)] by (intro enqueue_holds(1) [OF s(1)]) auto
    have "\<forall>xs \<in> set (?xss[0 := ?xss ! 0 @ [(a, ?it)]]). b \<notin> fst ` set xs"
    proof (rule all_update)
      show "\<forall>xs \<in> set ?xss. b \<notin> fst ` set xs" using that(2) unfolding fresh_entry_iff [OF s(1)] .
      then show "b \<notin> fst ` set (?xss ! 0 @ [(a, ?it)])" using that(1) len by auto
    qed
    then show ?thesis unfolding fresh_entry_iff [OF h] .
  qed
  then have "\<forall>b. b \<noteq> a \<longrightarrow> fresh_entry sched b \<longrightarrow> fresh_entry ?sched b" by simp
  from that [OF run e this] show thesis .
qed

lemma add_paths_run:
  assumes "sched_inv ok n sched" and "\<forall>p \<in> set ps. length p < PATHSIZE_PLUS \<and> ok (start_item p)"
    and "distinct as" and "length ps \<le> length as" and "\<forall>a \<in> set as. fresh_entry sched a"
  shows "\<exists>sched'. add_paths_work 0 as ps sched = Some sched' \<and> sched_inv ok n sched' \<and>
    queued_weight wi sched' = queued_weight wi sched + (\<Sum>p\<leftarrow>ps. wi (start_item p)) \<and> sc_processes sched' = sc_processes sched"
  using assms
proof (induction ps arbitrary: "as" sched)
  case (Cons p ps)
  then obtain a as' where as: "as = a # as'" by (cases "as") simp_all
  have p: "length p < PATHSIZE_PLUS" "ok (start_item p)" "fresh_entry sched a" using Cons.prems(2,5) as by simp_all
  obtain sched1 where one: "add_path_work 0 a p sched = Some sched1" "sched_inv ok n sched1"
    "queued_weight wi sched1 = queued_weight wi sched + wi (start_item p)" "sc_processes sched1 = sc_processes sched"
    "\<forall>b. b \<noteq> a \<longrightarrow> fresh_entry sched b \<longrightarrow> fresh_entry sched1 b"
    using add_path_run [OF Cons.prems(1) p, of wi] .
  have "\<forall>b \<in> set as'. fresh_entry sched1 b" using one(5) Cons.prems(3,5) as by auto
  then obtain sched' where "add_paths_work 0 as' ps sched1 = Some sched'" "sched_inv ok n sched'"
    "queued_weight wi sched' = queued_weight wi sched1 + (\<Sum>p\<leftarrow>ps. wi (start_item p))" "sc_processes sched' = sc_processes sched1"
    using Cons.IH [OF one(2), of as'] Cons.prems(2-4) as by auto
  then show ?case using one as by (simp add: add.assoc)
qed (cases "as"; simp)

lemma sum_list_replicate_zero: "sum_list (replicate k 0) = (0 :: 'w :: comm_monoid_add)"
  by (induction k) simp_all

lemma manager_init_run:
  assumes "o_rank opt = 0" and "2 \<le> o_nproc opt" and "0 \<le> o_nqueues opt"
  obtains sched where "manager_init h now opt = Some (sched, perfstat_set_time perfstat_new PERF_START_TIME now)"
    "sched_inv ok (o_nproc opt) sched" "sc_processes sched = (replicate (nat (o_nproc opt)) 0)[0 := 1]"
    "\<forall>a. fresh_entry sched a" "queued_weight wi sched = 0"
proof -
  have "scheduler_new h opt \<noteq> None"
    using assms by (simp add: scheduler_new_def processing_set_active_def processing_set_def processing_initialize_def Let_def)
  then obtain s0 where s0: "scheduler_new h opt = Some s0" by blast
  have n: "0 \<le> o_nproc opt" using assms(2) by simp
  note h = sched_holds_new [OF s0 n assms(3)]
  let ?s = "scheduler_update_stopproc s0 worker_exit" and ?xss = "replicate (nat (sc_workq_count s0)) ([] :: (nat \<times> WorkItem) list)"
  have hold: "sched_holds ?s ?xss" using h(1) by (simp add: sched_holds_def scheduler_update_stopproc_def)
  have procs: "sc_processes ?s = (replicate (nat (o_nproc opt)) 0)[0 := 1]" "sc_stop_proc ?s = Some worker_exit"
    using h(2) assms(1) by (simp_all add: scheduler_update_stopproc_def)
  have "sched_inv ok (o_nproc opt) ?s"
    using hold procs assms(2) by (simp add: sched_inv_def queues_of_eq [OF hold] nth_list_update)
  moreover have "\<forall>a. fresh_entry ?s a" by (simp add: fresh_entry_iff [OF hold])
  moreover have "queued_weight wi ?s = 0" by (simp add: queued_weight_def queues_of_eq [OF hold] sum_list_replicate_zero)
  ultimately show thesis using that [of ?s] procs(1) s0 by (simp add: manager_init_def)
qed

context pwt_app
begin

lemma start_ok:
  assumes opt: "o_rank opt = 0" "2 \<le> o_nproc opt" "0 \<le> o_nqueues opt"
    and ps: "\<forall>p \<in> set (start_paths opt). length p < PATHSIZE_PLUS \<and> ok (start_item p)"
    and as: "distinct as" "length (start_paths opt) \<le> length as"
  shows "\<exists>jb. job_start h now opt as app = Some jb \<and> job_inv ok (o_nproc opt) jb \<and>
    total wi wp ws (o_nproc opt) jb = ws (perfstat_set_time perfstat_new PERF_START_TIME now) + (\<Sum>p\<leftarrow>start_paths opt. wi (start_item p)) \<and>
    jb_manager jb = Looping \<and> (\<forall>w. wk_state (jb_worker jb w) = Serving)"
proof -
  let ?n = "o_nproc opt" and ?stats = "perfstat_set_time perfstat_new PERF_START_TIME now"
  obtain s0 where s0: "manager_init h now opt = Some (s0, ?stats)" "sched_inv ok ?n s0"
    "sc_processes s0 = (replicate (nat ?n) 0)[0 := 1]" "\<forall>a. fresh_entry s0 a"
    and "queued_weight wi s0 = 0" by (rule manager_init_run [OF opt])
  note zero = this(5)
  have "\<forall>a \<in> set as. fresh_entry s0 a" using s0(4) by simp
  note add = add_paths_run [OF s0(2) ps as this]
  obtain s1 where s1: "add_paths_work 0 as (start_paths opt) s0 = Some s1" "sched_inv ok ?n s1"
    "queued_weight wi s1 = (\<Sum>p\<leftarrow>start_paths opt. wi (start_item p))" "sc_processes s1 = (replicate (nat ?n) 0)[0 := 1]"
    using add [of wi] zero s0(3) by auto
  have procs: "sc_processes s1 ! nat w = 0" if "1 \<le> w" "w < ?n" for w using that s1(4) by simp
  have "queued_weight (\<lambda>_. 1 :: nat) s1 \<noteq> 0"
    using add [of "\<lambda>_. 1 :: nat"] s1(1) by (auto simp: start_paths_def)
  then have "\<exists>xs \<in> set (queues_of s1). xs \<noteq> []" by (rule contrapos_np) (auto simp: queued_weight_def)
  moreover have "0 \<in> set (sc_processes s1)" using procs [of 1] opt(2) sched_inv_split(4) [OF s1(2)] nth_mem [of 1 "sc_processes s1"] by simp
  ultimately have can: "scheduler_canAssignWork s1" using canAssignWork_iff [OF sched_inv_split(1) [OF s1(2)]] by simp
  obtain x w s2 where get: "scheduler_getwork s1 = Some (Some x, w, s2)"
    by (rule getwork_inv [OF s1(2) can]) (rule that)
  let ?before = "\<lparr>jb_sched = s1, jb_stats = ?stats, jb_manager = Looping, jb_chan = \<lambda>_ _. [],
        jb_worker = \<lambda>_. \<lparr>wk_probes = 0, wk_state = Serving\<rparr>, jb_out = [], jb_app = app\<rparr>"
  have inv: "job_inv ok ?n ?before"
    using s1(2) procs by (simp add: job_inv_def links_inv_def manager_inv_def worker_at_def acking_def)
  have tot: "total wi wp ws ?n ?before = ws ?stats + (\<Sum>p\<leftarrow>start_paths opt. wi (start_item p))"
    by (simp add: total_def own_def share_def s1(3))
  let ?jb = "send_workitem x 0 w (?before\<lparr>jb_sched := s2\<rparr>)"
  have "job_inv ok ?n ?jb \<and> total wi wp ws ?n ?jb = total wi wp ws ?n ?before"
    by (rule manager_assign_ok [OF inv]) (simp_all add: can get)
  moreover have "job_start h now opt as app = Some ?jb"
    using s0(1) s1(1) get opt(1) by (simp add: job_start_def treewalk_startwork_def start_paths_def)
  ultimately show ?thesis using tot by simp
qed

end

lemma start_item_ok: "present fs p \<Longrightarrow> tw_item fs (start_item p)"
  by (simp add: tw_item_def start_item_def item_paths_def paths_in_def item_simps)

section \<open>Properties\<close>

text \<open>C2.  A walk of trees of files, started on any number of processes, begins; and however the messages of the
  manager and of the workers interleave, once the manager has ended, every file below the start paths has been
  printed, exactly once for each time it occurs, nothing else has been printed, and the counters of
  stat calls and of directories count the paths and the directories of the trees.\<close>

theorem treewalk_complete:
  assumes "o_rank opt = 0" and "2 \<le> o_nproc opt" and "0 \<le> o_nqueues opt"
    and "list_all2 (looks_like fs) (start_paths opt) ts"
    and "distinct as" and "length (start_paths opt) \<le> length as"
  shows "\<exists>jb. job_start h now opt as x = Some jb \<and>
    (\<forall>sched jb'. job_run (tw_work fs app ls_line) app_fn (o_nproc opt) sched jb = Some jb' \<longrightarrow> jb_manager jb' = Finished \<longrightarrow>
       mset (jb_out jb') = (\<Sum>(p, t)\<leftarrow>zip (start_paths opt) ts. \<Sum>f \<in># files_under p t. mset (file_line fs app ls_line f)) \<and>
       perf_counts (jb_stats jb') PERF_STAT_CALLS = of_nat (\<Sum>t\<leftarrow>ts. count_paths t) \<and>
       perf_counts (jb_stats jb') PERF_DIRS_READ = of_nat (\<Sum>t\<leftarrow>ts. count_dirs t))"
proof -
  let ?n = "o_nproc opt" and ?line = "file_line fs app ls_line" and ?ps = "start_paths opt"
  have at: "looks_like fs (?ps ! i) (ts ! i)" if "i < length ?ps" for i using assms(4) that by (simp add: list_all2_conv_all_nth)
  then have pres: "\<forall>p \<in> set ?ps. present fs p" unfolding present_def by (metis in_set_conv_nth)
  have "length ts = length ?ps" using list_all2_lengthD [OF assms(4)] by simp
  then have ts: "ts = map (tree_at fs) ?ps" using tree_at_eq [OF at] by (intro nth_equalityI) simp_all
  from pres have ok: "\<forall>p \<in> set ?ps. length p < PATHSIZE_PLUS \<and> tw_item fs (start_item p)"
    using present_length start_item_ok by blast
  note start = walk.start_ok [OF assms(1-3) ok assms(5,6), of h now x app ls_line]
    walk_stats.start_ok [OF assms(1-3) ok assms(5,6), of h now x] walk_dirs.start_ok [OF assms(1-3) ok assms(5,6), of h now x]
  obtain jb where jb: "job_start h now opt as x = Some jb" "job_inv (tw_item fs) ?n jb"
    using start(1) by blast
  have w: "paths_in (start_item p) = [p]" "do_work (start_item p) = Some treewalk_statpath" for p
    by (simp_all add: start_item_def paths_in_def item_paths_def item_simps)
  have weights: "walk_lines fs ?line (start_item p) = (\<Sum>f \<in># files_under p (tree_at fs p). mset (?line f))"
    "walk_counts fs PERF_STAT_CALLS (start_item p) = of_nat (count_paths (tree_at fs p))"
    "walk_counts fs PERF_DIRS_READ (start_item p) = of_nat (count_dirs (tree_at fs p))" if "p \<in> set ?ps" for p
    using ok that by (simp_all add: tw_item_weights item_lines_def item_counts_def w lines_of_def stats_of_def dirs_of_def perf_idx)
  have nats: "(\<Sum>p\<leftarrow>ps. of_nat (g p)) = (of_nat (\<Sum>p\<leftarrow>ps. g p) :: u64)" for g and ps :: "path list" by (induction ps) simp_all
  have zero: "(\<Sum>s\<leftarrow>ss. 0) = (0 :: u64)" "(\<Sum>s\<leftarrow>ss. {#s#}) = mset ss" for ss :: "string list" by (induction ss) simp_all
  show ?thesis
  proof (intro exI [of _ jb] conjI allI impI)
    show "job_start h now opt as x = Some jb" by (rule jb(1))
    fix sched jb' assume run: "job_run (tw_work fs app ls_line) app_fn ?n sched jb = Some jb'" "jb_manager jb' = Finished"
    have inv: "job_inv (tw_item fs) ?n jb'" using walk.run_ok [OF jb(2) run(1)] by simp
    have init: "perf_counts (perfstat_set_time perfstat_new PERF_START_TIME now) k = 0" if "k < PERF_MAX_COUNTERS" for k using that by simp
    have "mset (jb_out jb') = (\<Sum>p\<leftarrow>?ps. walk_lines fs ?line (start_item p))"
      using walk.finished_total [OF inv run(2), of app ls_line] walk.run_ok [OF jb(2) run(1)] start(1) jb(1) by (simp add: zero)
    also have "\<dots> = (\<Sum>p\<leftarrow>?ps. \<Sum>f \<in># files_under p (tree_at fs p). mset (?line f))"
      using weights(1) by (intro arg_cong [of _ _ sum_list] map_cong refl)
    finally show "mset (jb_out jb') = (\<Sum>(p, t)\<leftarrow>zip ?ps ts. \<Sum>f \<in># files_under p t. mset (?line f))"
      unfolding ts by (simp add: zip_map2 zip_same_conv_map comp_def)
    have "perf_counts (jb_stats jb') PERF_STAT_CALLS = (\<Sum>p\<leftarrow>?ps. walk_counts fs PERF_STAT_CALLS (start_item p))"
      using walk_stats.finished_total [OF inv run(2)] walk_stats.run_ok [OF jb(2) run(1)] start(2) jb(1)
        init [of PERF_STAT_CALLS] by (simp add: zero perf_idx)
    also have "\<dots> = (\<Sum>p\<leftarrow>?ps. of_nat (count_paths (tree_at fs p)))"
      using weights(2) by (intro arg_cong [of _ _ sum_list] map_cong refl)
    finally show "perf_counts (jb_stats jb') PERF_STAT_CALLS = of_nat (\<Sum>t\<leftarrow>ts. count_paths t)"
      unfolding ts nats by (simp add: comp_def)
    have "perf_counts (jb_stats jb') PERF_DIRS_READ = (\<Sum>p\<leftarrow>?ps. walk_counts fs PERF_DIRS_READ (start_item p))"
      using walk_dirs.finished_total [OF inv run(2)] walk_dirs.run_ok [OF jb(2) run(1)] start(3) jb(1)
        init [of PERF_DIRS_READ] by (simp add: zero perf_idx)
    also have "\<dots> = (\<Sum>p\<leftarrow>?ps. of_nat (count_dirs (tree_at fs p)))"
      using weights(3) by (intro arg_cong [of _ _ sum_list] map_cong refl)
    finally show "perf_counts (jb_stats jb') PERF_DIRS_READ = of_nat (\<Sum>t\<leftarrow>ts. count_dirs t)"
      unfolding ts nats by (simp add: comp_def)
  qed
qed

text \<open>A file below a directory, walked by a manager and one worker.\<close>

definition sample_fs :: file_system where
  "sample_fs = \<lparr>fs_lstat = (\<lambda>p. if p = ''d'' then Some (zero_stat\<lparr>st_isdir := True\<rparr>) else if p = ''d/a'' then Some zero_stat else None),
     fs_readdir = (\<lambda>p. if p = ''d'' then Some [''.'', ''..'', ''a''] else None), fs_closedir = (\<lambda>_. True)\<rparr>"

definition sample_options :: "app_options options" where
  "sample_options = \<lparr>o_rank = 0, o_nproc = 2, o_nqueues = 1, o_app_ops = \<lparr>a_start_path = ''d'', a_dest_path = [], a_quiet = False,
     a_recursive = True, a_meta_only = False, a_verbose = False, a_buffersize = 0, a_start_chunking = 0, a_args = []\<rparr>\<rparr>"

lemma sample:
  "o_rank sample_options = 0" "o_nproc sample_options = 2" "0 \<le> o_nqueues sample_options" "start_paths sample_options = [''d'']"
  "list_all2 (looks_like sample_fs) (start_paths sample_options) [Dir [(''a'', File)]]"
  by (simp_all add: sample_options_def sample_fs_def start_paths_def visible_def zero_stat_def PATHSIZE_PLUS_def)

lemma sample_present: "present sample_fs ''d''"
proof -
  have "looks_like sample_fs ''d'' (Dir [(''a'', File)])" using sample(5) unfolding sample(4) by (simp only: list.rel_inject)
  then show ?thesis unfolding present_def by (rule exI)
qed

lemma sample_line: "file_line sample_fs (o_app_ops sample_options) ls_line ''d/a'' = [''d/a'']"
  by (simp add: file_line_def sample_options_def strIsBlank_def)

lemma sample_start:
  obtains jb where "job_start h now sample_options [0] () = Some jb" "job_inv (tw_item sample_fs) 2 jb" "jb_manager jb = Looping"
    "\<forall>w. wk_state (jb_worker jb w) = Serving"
proof -
  have "\<forall>p \<in> set (start_paths sample_options). length p < PATHSIZE_PLUS \<and> tw_item sample_fs (start_item p)"
    using start_item_ok [OF sample_present] by (simp add: sample(4) PATHSIZE_PLUS_def)
  then show thesis using walk.start_ok [of sample_options sample_fs "[0]" h now "()"] that by (auto simp: sample)
qed

theorem treewalk_complete_witness:
  "\<exists>sched jb jb'. job_start (\<lambda>_. \<lparr>en_item = zero_item, en_next = None\<rparr>) (5, 0) sample_options [0] () = Some jb \<and>
     job_run (tw_work sample_fs (o_app_ops sample_options) fi_path) (\<lambda>_ _ _. None) 2 sched jb = Some jb' \<and> jb_manager jb' = Finished \<and>
     mset (jb_out jb') = {#''d/a''#} \<and> perf_counts (jb_stats jb') PERF_STAT_CALLS = 2 \<and> perf_counts (jb_stats jb') PERF_DIRS_READ = 1"
proof -
  let ?h = "\<lambda>_. \<lparr>en_item = zero_item, en_next = None\<rparr>" and ?work = "tw_work sample_fs (o_app_ops sample_options) fi_path"
  obtain jb where jb: "job_start ?h (5, 0) sample_options [0] () = Some jb" "job_inv (tw_item sample_fs) 2 jb"
      "\<forall>w. wk_state (jb_worker jb w) = Serving" by (rule sample_start)
  obtain sched jb' where run: "job_run ?work (\<lambda>_ _ _. None) 2 sched jb = Some jb'" "jb_manager jb' = Finished"
    using walk_live.can_finish [OF jb(2), of "o_app_ops sample_options" fi_path "\<lambda>_ _ _. None"] jb(3) by auto
  have "2 \<le> o_nproc sample_options" "distinct [0 :: nat]" "length (start_paths sample_options) \<le> length [0 :: nat]"
    by (simp_all add: sample)
  from treewalk_complete [OF sample(1) this(1) sample(3,5) this(2,3), of ?h "(5, 0)" "()" "o_app_ops sample_options" fi_path "\<lambda>_ _ _. None"]
  have "mset (jb_out jb') = {#''d/a''#}" "perf_counts (jb_stats jb') PERF_STAT_CALLS = 2" "perf_counts (jb_stats jb') PERF_DIRS_READ = 1"
    using jb(1) run by (auto simp: sample(2,4) sample_line)
  with jb(1) run show ?thesis by blast
qed

lemma idle_run:
  assumes "jb_worker jb w = \<lparr>wk_probes = k, wk_state = Serving\<rparr>" and "k + Suc m = 100" and "1 \<le> w" and "w < n"
  shows "\<exists>jb1. job_run work app_fn n (replicate (Suc m) (Worker_idle w)) jb = Some jb1 \<and> jb_chan jb1 = jb_chan jb \<and>
    wk_state (jb_worker jb1 w) = Left"
  using assms(1,2)
proof (induction m arbitrary: jb k)
  case 0
  then show ?case using assms(3,4) by (simp add: worker_idle_def)
next
  case (Suc m)
  let ?jb = "jb\<lparr>jb_worker := (jb_worker jb)(w := \<lparr>wk_probes = Suc k, wk_state = Serving\<rparr>)\<rparr>"
  have "worker_idle w jb = Some ?jb" using Suc.prems by (simp add: worker_idle_def)
  moreover obtain jb1 where "job_run work app_fn n (replicate (Suc m) (Worker_idle w)) ?jb = Some jb1" "jb_chan jb1 = jb_chan ?jb"
    "wk_state (jb_worker jb1 w) = Left"
    using Suc.IH [of ?jb "Suc k"] Suc.prems(2) by auto
  ultimately show ?case using assms(3,4) by (intro exI [of _ jb1]) simp
qed

lemma job_start_workers: "job_start h now opt as x = Some jb \<Longrightarrow> jb_worker jb w = \<lparr>wk_probes = 0, wk_state = Serving\<rparr>"
  by (auto simp: job_start_def split: bind_splits)

text \<open>C9.  At any moment of a walk, as long as no worker has left, the processes can go on so that the manager ends: there
  is no deadlock and no endless work.\<close>

theorem treewalk_can_end:
  assumes "o_rank opt = 0" and "2 \<le> o_nproc opt" and "0 \<le> o_nqueues opt" and "\<forall>p \<in> set (start_paths opt). present fs p"
    and "distinct as" and "length (start_paths opt) \<le> length as" and "job_start h now opt as x = Some jb"
    and "job_run (tw_work fs app ls_line) app_fn (o_nproc opt) sched jb = Some jb1"
    and "\<forall>w. 1 \<le> w \<and> w < o_nproc opt \<longrightarrow> wk_state (jb_worker jb1 w) \<noteq> Left"
  shows "\<exists>rest jb2. job_run (tw_work fs app ls_line) app_fn (o_nproc opt) rest jb1 = Some jb2 \<and> jb_manager jb2 = Finished"
proof -
  have ok: "\<forall>p \<in> set (start_paths opt). length p < PATHSIZE_PLUS \<and> tw_item fs (start_item p)"
    using assms(4) present_length start_item_ok by blast
  have "job_inv (tw_item fs) (o_nproc opt) jb" using walk.start_ok [OF assms(1-3) ok assms(5,6), of h now x] assms(7) by auto
  then have "job_inv (tw_item fs) (o_nproc opt) jb1" using walk.run_ok assms(8) by blast
  then show ?thesis using walk_live.can_finish [OF _ assms(2)] assms(9) by blast
qed

theorem treewalk_can_end_witness:
  "\<exists>rest jb jb2. job_start (\<lambda>_. \<lparr>en_item = zero_item, en_next = None\<rparr>) (5, 0) sample_options [0] () = Some jb \<and>
     job_run (tw_work sample_fs (o_app_ops sample_options) fi_path) (\<lambda>_ _ _. None) 2 rest jb = Some jb2 \<and> jb_manager jb2 = Finished"
proof -
  let ?h = "\<lambda>_. \<lparr>en_item = zero_item, en_next = None\<rparr>"
  obtain jb where jb: "job_start ?h (5, 0) sample_options [0] () = Some jb" "\<forall>w. wk_state (jb_worker jb w) = Serving" by (rule sample_start)
  have "2 \<le> o_nproc sample_options" "\<forall>p \<in> set (start_paths sample_options). present sample_fs p" "distinct [0 :: nat]"
    "length (start_paths sample_options) \<le> length [0 :: nat]"
    by (simp_all add: sample(2,4) sample_present)
  from treewalk_can_end [OF sample(1) this(1) sample(3) this(2-4) jb(1), of "o_app_ops sample_options" fi_path "\<lambda>_ _ _. None" "[]" jb]
  show ?thesis using jb by (simp add: sample(2))
qed

text \<open>C37.  The probes of a worker are never reset: a worker that has found no message a hundred times returns from its
  loop.  When the manager has already sent it an item, the manager waits for it for ever.\<close>

theorem treewalk_left_blocks:
  assumes "o_rank opt = 0" and "2 \<le> o_nproc opt" and "0 \<le> o_nqueues opt" and "\<forall>p \<in> set (start_paths opt). present fs p"
    and "distinct as" and "length (start_paths opt) \<le> length as" and "job_start h now opt as x = Some jb"
    and "1 \<le> w" and "w < o_nproc opt" and "jb_chan jb 0 w \<noteq> []"
  shows "\<exists>jb1. job_run (tw_work fs app ls_line) app_fn (o_nproc opt) (replicate 100 (Worker_idle w)) jb = Some jb1 \<and>
    (\<forall>sched jb2. job_run (tw_work fs app ls_line) app_fn (o_nproc opt) sched jb1 = Some jb2 \<longrightarrow> jb_manager jb2 \<noteq> Finished)"
proof -
  let ?n = "o_nproc opt" and ?work = "tw_work fs app ls_line"
  have ok: "\<forall>p \<in> set (start_paths opt). length p < PATHSIZE_PLUS \<and> tw_item fs (start_item p)"
    using assms(4) present_length start_item_ok by blast
  have start: "job_inv (tw_item fs) ?n jb" "jb_manager jb \<noteq> Finished"
    using walk.start_ok [OF assms(1-3) ok assms(5,6), of h now x] assms(7) by auto
  obtain it its where it: "jb_chan jb 0 w = it # its" using assms(10) by (cases "jb_chan jb 0 w") simp_all
  have "wk_state (jb_worker jb w) = Serving" using job_start_workers [OF assms(7), of w] by simp
  then have "tw_item fs it" using job_inv_split(4) [OF start assms(8,9)] it by (auto simp: worker_at_def)
  then have item: "do_work it \<noteq> Some worker_exit" using tw_item_shape by blast
  have "0 + Suc 99 = (100 :: nat)" by simp
  from idle_run [OF job_start_workers [OF assms(7)] this assms(8,9), of ?work app_fn]
  obtain jb1 where jb1: "job_run ?work app_fn ?n (replicate 100 (Worker_idle w)) jb = Some jb1" "jb_chan jb1 = jb_chan jb"
    "wk_state (jb_worker jb1 w) = Left" by auto
  have inv: "job_inv (tw_item fs) ?n jb1" using walk.run_ok [OF start(1) jb1(1)] by simp
  have chan: "jb_chan jb1 0 w = it # its" using jb1(2) it by simp
  have "jb_manager jb2 \<noteq> Finished" if "job_run ?work app_fn ?n sched jb1 = Some jb2" for sched jb2
    by (rule walk.left_blocks [OF inv assms(8,9) jb1(3) chan item that])
  then show ?thesis using jb1(1) by blast
qed

theorem treewalk_left_blocks_witness:
  "\<exists>jb jb1. job_start (\<lambda>_. \<lparr>en_item = zero_item, en_next = None\<rparr>) (5, 0) sample_options [0] () = Some jb \<and>
     job_run (tw_work sample_fs (o_app_ops sample_options) fi_path) (\<lambda>_ _ _. None) 2 (replicate 100 (Worker_idle 1)) jb = Some jb1 \<and>
     (\<forall>sched jb2. job_run (tw_work sample_fs (o_app_ops sample_options) fi_path) (\<lambda>_ _ _. None) 2 sched jb1 = Some jb2 \<longrightarrow>
        jb_manager jb2 \<noteq> Finished)"
proof -
  let ?h = "\<lambda>_. \<lparr>en_item = zero_item, en_next = None\<rparr>"
  obtain jb where jb: "job_start ?h (5, 0) sample_options [0] () = Some jb" by (rule sample_start)
  have "jb_chan jb 0 1 \<noteq> []"
    using jb by (auto simp: sample_options_def job_start_def manager_init_def scheduler_new_def processing_set_active_def
        processing_set_def processing_initialize_def scheduler_update_stopproc_def treewalk_startwork_def add_path_work_def
        workitem_update_path_def copy_path_def PATHSIZE_PLUS_def scheduler_addwork_def queue_index_def item_simps enqueue_def
        scheduler_getwork_def processing_get_idle_def workq_new_def workq_add_def workq_empty_def workq_remove_def Let_def
        upt_rec numeral_2_eq_2 split: bind_splits)
  moreover have "2 \<le> o_nproc sample_options" "\<forall>p \<in> set (start_paths sample_options). present sample_fs p" "distinct [0 :: nat]"
    "length (start_paths sample_options) \<le> length [0 :: nat]" "1 < o_nproc sample_options"
    by (simp_all add: sample(2,4) sample_present)
  ultimately show ?thesis
    using treewalk_left_blocks [OF sample(1) _ sample(3) _ _ _ jb, of sample_fs 1 "o_app_ops sample_options" fi_path "\<lambda>_ _ _. None"] jb
    by (simp add: sample(2))
qed

end
