(* ===== verification/Fchunktbl.thy ===== *)
theory Fchunktbl
  imports Pwt_Item
begin

text \<open>
  \<^verbatim>\<open>fchunktbl.c\<close>: the table of \<^verbatim>\<open>pfcmp\<close> from paths to the numbers of chunks that are still to be compared, with
  chains of entries; a chain is a list.  The boolean arguments say whether malloc succeeds.
\<close>

record FchunkTblEntry =
  ce_key :: string
  ce_data :: int

record FchunkTbl =
  ct_size :: u64
  ct_nodes :: "FchunkTblEntry list list"
  ct_hashfunc :: "string \<Rightarrow> u64"

definition def_hashfunc :: "string \<Rightarrow> u64" where
  "def_hashfunc key = fold (\<lambda>c hash. hash + of_nat (of_char c)) key 0"

definition fchunktbl_create :: "bool \<Rightarrow> u64 \<Rightarrow> (string \<Rightarrow> u64) option \<Rightarrow> FchunkTbl option" where
  "fchunktbl_create al sz hashfunc =
     (if al then Some \<lparr>ct_size = sz, ct_nodes = replicate (unat sz) [],
        ct_hashfunc = (case hashfunc of Some f \<Rightarrow> f | None \<Rightarrow> def_hashfunc)\<rparr>
      else None)"

text \<open>The chain of a key; the tables of the program have a size that is not 0.\<close>

definition ct_hash :: "FchunkTbl \<Rightarrow> string \<Rightarrow> nat" where
  "ct_hash t key = unat (ct_hashfunc t key mod ct_size t)"

definition ct_chain :: "FchunkTbl \<Rightarrow> string \<Rightarrow> FchunkTblEntry list" where
  "ct_chain t key = ct_nodes t ! ct_hash t key"

definition set_chain :: "FchunkTbl \<Rightarrow> string \<Rightarrow> FchunkTblEntry list \<Rightarrow> FchunkTbl" where
  "set_chain t key es = t\<lparr>ct_nodes := (ct_nodes t)[ct_hash t key := es]\<rparr>"

text \<open>The walk along a chain: the first entry with the key gets the data, \<open>None\<close> when there is none.\<close>

fun chain_set :: "FchunkTblEntry list \<Rightarrow> string \<Rightarrow> int \<Rightarrow> FchunkTblEntry list option" where
  "chain_set [] key data = None"
| "chain_set (e # es) key data =
     (if ce_key e = key then Some (e\<lparr>ce_data := data\<rparr> # es) else map_option (\<lambda>es. e # es) (chain_set es key data))"

fun chain_get :: "FchunkTblEntry list \<Rightarrow> string \<Rightarrow> int option" where
  "chain_get [] key = None"
| "chain_get (e # es) key = (if ce_key e = key then Some (ce_data e) else chain_get es key)"

fun chain_del :: "FchunkTblEntry list \<Rightarrow> string \<Rightarrow> FchunkTblEntry list option" where
  "chain_del [] key = None"
| "chain_del (e # es) key = (if ce_key e = key then Some es else map_option (\<lambda>es. e # es) (chain_del es key))"

definition fchunktbl_insert :: "bool \<Rightarrow> FchunkTbl \<Rightarrow> string \<Rightarrow> int \<Rightarrow> int \<times> FchunkTbl" where
  "fchunktbl_insert al t key data =
     (case chain_set (ct_chain t key) key data of
        Some es \<Rightarrow> (0, set_chain t key es)
      | None \<Rightarrow> if al then (0, set_chain t key (\<lparr>ce_key = key, ce_data = data\<rparr> # ct_chain t key)) else (-1, t))"

definition fchunktbl_remove :: "FchunkTbl \<Rightarrow> string \<Rightarrow> int \<times> FchunkTbl" where
  "fchunktbl_remove t key =
     (case chain_del (ct_chain t key) key of Some es \<Rightarrow> (0, set_chain t key es) | None \<Rightarrow> (-1, t))"

definition fchunktbl_get :: "FchunkTbl \<Rightarrow> string \<Rightarrow> int" where
  "fchunktbl_get t key = (case chain_get (ct_chain t key) key of Some d \<Rightarrow> d | None \<Rightarrow> -1)"

definition fchunktbl_update :: "FchunkTbl \<Rightarrow> string \<Rightarrow> int \<Rightarrow> int \<times> FchunkTbl" where
  "fchunktbl_update t key data =
     (case chain_set (ct_chain t key) key data of Some es \<Rightarrow> (0, set_chain t key es) | None \<Rightarrow> (-1, t))"

text \<open>The entries go over one by one, in the order of the old chains; \<open>al\<close>: everything can be allocated, or not the array.\<close>

definition fchunktbl_resize :: "bool \<Rightarrow> FchunkTbl \<Rightarrow> u64 \<Rightarrow> int \<times> FchunkTbl" where
  "fchunktbl_resize al t sz =
     (if al then
        let newtbl = fold (\<lambda>e t. snd (fchunktbl_insert True t (ce_key e) (ce_data e))) (concat (ct_nodes t))
          \<lparr>ct_size = sz, ct_nodes = replicate (unat sz) [], ct_hashfunc = ct_hashfunc t\<rparr>
        in (0, t\<lparr>ct_size := sz, ct_nodes := ct_nodes newtbl\<rparr>)
      else (-1, t))"

section \<open>The map of a table\<close>

definition tbl_map :: "FchunkTbl \<Rightarrow> string \<Rightarrow> int option" where
  "tbl_map t key = chain_get (ct_chain t key) key"

definition tbl_ok :: "FchunkTbl \<Rightarrow> bool" where
  "tbl_ok t \<longleftrightarrow> ct_size t \<noteq> 0 \<and> length (ct_nodes t) = unat (ct_size t) \<and>
     (\<forall>i < length (ct_nodes t). distinct (map ce_key (ct_nodes t ! i)) \<and> (\<forall>e \<in> set (ct_nodes t ! i). ct_hash t (ce_key e) = i))"

lemma ct_hash_less: "tbl_ok t \<Longrightarrow> ct_hash t key < length (ct_nodes t)"
  by (simp add: tbl_ok_def ct_hash_def unat_mod unat_gt_0)

lemma chain_get_None: "chain_get es key = None \<longleftrightarrow> key \<notin> ce_key ` set es"
  by (induction es) auto

lemma chain_set_spec:
  "chain_set es key d = None \<longleftrightarrow> key \<notin> ce_key ` set es"
  "chain_set es key d = Some es' \<Longrightarrow> map ce_key es' = map ce_key es \<and> chain_get es' k = (if k = key then Some d else chain_get es k)"
  by (induction es arbitrary: es') (auto split: if_split_asm)

lemma chain_del_spec:
  "chain_del es key = None \<longleftrightarrow> key \<notin> ce_key ` set es"
  "chain_del es key = Some es' \<Longrightarrow> distinct (map ce_key es) \<Longrightarrow>
     set (map ce_key es') = set (map ce_key es) - {key} \<and> distinct (map ce_key es') \<and>
     chain_get es' k = (if k = key then None else chain_get es k)"
proof -
  show "chain_del es key = None \<longleftrightarrow> key \<notin> ce_key ` set es" by (induction es) auto
  show "set (map ce_key es') = set (map ce_key es) - {key} \<and> distinct (map ce_key es') \<and>
     chain_get es' k = (if k = key then None else chain_get es k)"
    if "chain_del es key = Some es'" "distinct (map ce_key es)"
    using that
  proof (induction es arbitrary: es')
    case (Cons e es)
    show ?case
    proof (cases "ce_key e = key")
      case True
      then show ?thesis using Cons.prems by (auto simp: chain_get_None)
    next
      case False
      then obtain es1 where es1: "chain_del es key = Some es1" "es' = e # es1" using Cons.prems(1) by auto
      then show ?thesis using Cons.IH [OF es1(1)] Cons.prems(2) False by auto
    qed
  qed simp
qed

lemma set_chain_ok:
  assumes ok: "tbl_ok t" and "distinct (map ce_key es)" and "ce_key ` set es \<subseteq> insert key (ce_key ` set (ct_chain t key))"
    and get: "\<And>k. ct_hash t k = ct_hash t key \<Longrightarrow> chain_get es k = m k"
  shows "tbl_ok (set_chain t key es)"
    and "tbl_map (set_chain t key es) = (\<lambda>k. if ct_hash t k = ct_hash t key then m k else tbl_map t k)"
proof -
  have h: "ct_hash (set_chain t key es) = ct_hash t" by (simp add: set_chain_def ct_hash_def fun_eq_iff)
  note len = ct_hash_less [OF ok, of key]
  have "ct_hash t (ce_key e) = ct_hash t key" if "e \<in> set es" for e
  proof (cases "ce_key e = key")
    case False
    then have "ce_key e \<in> ce_key ` set (ct_chain t key)" using assms(3) that by blast
    then obtain e' where e': "e' \<in> set (ct_nodes t ! ct_hash t key)" "ce_key e = ce_key e'" unfolding ct_chain_def by blast
    have "\<forall>e \<in> set (ct_nodes t ! ct_hash t key). ct_hash t (ce_key e) = ct_hash t key" using ok len by (simp add: tbl_ok_def)
    then show ?thesis using e' by simp
  qed simp
  then show "tbl_ok (set_chain t key es)"
    using ok assms(2) len unfolding tbl_ok_def h by (simp add: set_chain_def nth_list_update)
  show "tbl_map (set_chain t key es) = (\<lambda>k. if ct_hash t k = ct_hash t key then m k else tbl_map t k)"
    using len get unfolding tbl_map_def ct_chain_def h by (auto simp: set_chain_def nth_list_update fun_eq_iff)
qed

lemma tbl_map_chain: "ct_hash t k = ct_hash t key \<Longrightarrow> chain_get (ct_chain t key) k = tbl_map t k"
  by (simp add: tbl_map_def ct_chain_def)

lemma chain_distinct: "tbl_ok t \<Longrightarrow> distinct (map ce_key (ct_chain t key))"
  using ct_hash_less [of t key] by (simp add: tbl_ok_def ct_chain_def)

lemma tbl_get: "fchunktbl_get t key = (case tbl_map t key of Some d \<Rightarrow> d | None \<Rightarrow> -1)"
  by (simp add: fchunktbl_get_def tbl_map_def)

lemma tbl_update:
  assumes ok: "tbl_ok t"
  shows "fst (fchunktbl_update t key d) = (if tbl_map t key = None then -1 else 0)"
    and "tbl_ok (snd (fchunktbl_update t key d))"
    and "tbl_map (snd (fchunktbl_update t key d)) = (if tbl_map t key = None then tbl_map t else (tbl_map t)(key \<mapsto> d))"
proof -
  have none: "tbl_map t key = None \<longleftrightarrow> chain_set (ct_chain t key) key d = None"
    unfolding tbl_map_def chain_get_None chain_set_spec(1) ..
  have ok_map: "tbl_ok (set_chain t key es) \<and> tbl_map (set_chain t key es) = (tbl_map t)(key \<mapsto> d)"
    if s: "chain_set (ct_chain t key) key d = Some es" for es
  proof -
    note spec = chain_set_spec(2) [OF s]
    have "distinct (map ce_key es)" "ce_key ` set es \<subseteq> insert key (ce_key ` set (ct_chain t key))"
      using spec chain_distinct [OF ok, of key] by (auto simp flip: set_map)
    note r = set_chain_ok [OF ok this, of "\<lambda>k. if k = key then Some d else tbl_map t k"]
    show ?thesis using r spec tbl_map_chain [of t _ key] by (auto simp: fun_eq_iff)
  qed
  show "fst (fchunktbl_update t key d) = (if tbl_map t key = None then -1 else 0)"
    "tbl_ok (snd (fchunktbl_update t key d))"
    "tbl_map (snd (fchunktbl_update t key d)) = (if tbl_map t key = None then tbl_map t else (tbl_map t)(key \<mapsto> d))"
    using ok ok_map none by (auto simp: fchunktbl_update_def split: option.splits)
qed

lemma tbl_insert:
  assumes ok: "tbl_ok t"
  shows "tbl_ok (snd (fchunktbl_insert al t key d))"
    and "al \<or> tbl_map t key \<noteq> None \<Longrightarrow> fst (fchunktbl_insert al t key d) = 0 \<and> tbl_map (snd (fchunktbl_insert al t key d)) = (tbl_map t)(key \<mapsto> d)"
    and "\<not> al \<Longrightarrow> tbl_map t key = None \<Longrightarrow> fchunktbl_insert al t key d = (-1, t)"
proof -
  let ?new = "\<lparr>ce_key = key, ce_data = d\<rparr> # ct_chain t key"
  have none: "tbl_map t key = None \<longleftrightarrow> chain_set (ct_chain t key) key d = None"
    unfolding tbl_map_def chain_get_None chain_set_spec(1) ..
  have new: "tbl_ok (set_chain t key ?new) \<and> tbl_map (set_chain t key ?new) = (tbl_map t)(key \<mapsto> d)" if "tbl_map t key = None"
  proof -
    have "distinct (map ce_key ?new)" "ce_key ` set ?new \<subseteq> insert key (ce_key ` set (ct_chain t key))"
      using that chain_distinct [OF ok, of key] by (auto simp: tbl_map_def chain_get_None)
    note r = set_chain_ok [OF ok this, of "\<lambda>k. if k = key then Some d else tbl_map t k"]
    show ?thesis using r tbl_map_chain [of t _ key] by (auto simp: fun_eq_iff)
  qed
  have upd: "fchunktbl_insert al t key d = (0, snd (fchunktbl_update t key d))" if "tbl_map t key \<noteq> None"
    using that none by (auto simp: fchunktbl_insert_def fchunktbl_update_def)
  have ins: "fchunktbl_insert al t key d = (if al then (0, set_chain t key ?new) else (-1, t))" if "tbl_map t key = None"
    using that none by (simp add: fchunktbl_insert_def)
  have "tbl_ok (snd (fchunktbl_insert al t key d)) \<and>
    (al \<or> tbl_map t key \<noteq> None \<longrightarrow> fst (fchunktbl_insert al t key d) = 0 \<and> tbl_map (snd (fchunktbl_insert al t key d)) = (tbl_map t)(key \<mapsto> d)) \<and>
    (\<not> al \<longrightarrow> tbl_map t key = None \<longrightarrow> fchunktbl_insert al t key d = (-1, t))"
  proof (cases "tbl_map t key = None")
    case True
    show ?thesis unfolding ins [OF True] using new [OF True] ok True by simp
  next
    case False
    show ?thesis unfolding upd [OF False] using tbl_update(2,3) [OF ok, of key d] False by simp
  qed
  then show "tbl_ok (snd (fchunktbl_insert al t key d))"
    "al \<or> tbl_map t key \<noteq> None \<Longrightarrow> fst (fchunktbl_insert al t key d) = 0 \<and> tbl_map (snd (fchunktbl_insert al t key d)) = (tbl_map t)(key \<mapsto> d)"
    "\<not> al \<Longrightarrow> tbl_map t key = None \<Longrightarrow> fchunktbl_insert al t key d = (-1, t)" by blast+
qed

lemma tbl_remove:
  assumes ok: "tbl_ok t"
  shows "fst (fchunktbl_remove t key) = (if tbl_map t key = None then -1 else 0)" and "tbl_ok (snd (fchunktbl_remove t key))"
    and "tbl_map (snd (fchunktbl_remove t key)) = (tbl_map t)(key := None)"
proof -
  have none: "tbl_map t key = None \<longleftrightarrow> chain_del (ct_chain t key) key = None"
    unfolding tbl_map_def chain_get_None chain_del_spec(1) ..
  have del: "tbl_ok (set_chain t key es) \<and> tbl_map (set_chain t key es) = (tbl_map t)(key := None)"
    if s: "chain_del (ct_chain t key) key = Some es" for es
  proof -
    note spec = chain_del_spec(2) [OF s chain_distinct [OF ok]]
    have "distinct (map ce_key es)" "ce_key ` set es \<subseteq> insert key (ce_key ` set (ct_chain t key))"
      using spec unfolding set_map by blast+
    note r = set_chain_ok [OF ok this, of "\<lambda>k. if k = key then None else tbl_map t k"]
    show ?thesis using r spec tbl_map_chain [of t _ key] by (auto simp: fun_eq_iff)
  qed
  have "fst (fchunktbl_remove t key) = (if tbl_map t key = None then -1 else 0) \<and> tbl_ok (snd (fchunktbl_remove t key)) \<and>
      tbl_map (snd (fchunktbl_remove t key)) = (tbl_map t)(key := None)"
  proof (cases "chain_del (ct_chain t key) key")
    case None
    then have "fchunktbl_remove t key = (-1, t)" "tbl_map t key = None" using none by (simp_all add: fchunktbl_remove_def)
    then show ?thesis using ok fun_upd_idem [of "tbl_map t" key None] by simp
  next
    case (Some es)
    then have "fchunktbl_remove t key = (0, set_chain t key es)" "tbl_map t key \<noteq> None" using none by (simp_all add: fchunktbl_remove_def)
    then show ?thesis using del [OF Some] by simp
  qed
  then show "fst (fchunktbl_remove t key) = (if tbl_map t key = None then -1 else 0)" "tbl_ok (snd (fchunktbl_remove t key))"
    "tbl_map (snd (fchunktbl_remove t key)) = (tbl_map t)(key := None)" by blast+
qed

lemma tbl_create:
  assumes "fchunktbl_create al sz f = Some t" and "sz \<noteq> 0"
  shows "tbl_ok t" and "tbl_map t = Map.empty"
proof -
  have t: "ct_size t = sz" "ct_nodes t = replicate (unat sz) []" using assms(1) by (auto simp: fchunktbl_create_def split: if_split_asm)
  then show ok: "tbl_ok t" using assms(2) by (simp add: tbl_ok_def)
  have "ct_chain t key = []" for key using ct_hash_less [OF ok, of key] by (simp add: ct_chain_def t)
  then show "tbl_map t = Map.empty" by (simp add: tbl_map_def fun_eq_iff)
qed

section \<open>Resizing\<close>

lemma chain_get_mem:
  "distinct (map ce_key es) \<Longrightarrow> chain_get es k = Some d \<longleftrightarrow> (\<exists>e \<in> set es. ce_key e = k \<and> ce_data e = d)"
proof (induction es)
  case (Cons a es)
  show ?case
  proof (cases "ce_key a = k")
    case True
    then have "k \<notin> ce_key ` set es" using Cons.prems by simp
    then have "\<forall>e \<in> set es. ce_key e \<noteq> k" by (metis imageI)
    then show ?thesis using True by auto
  next
    case False
    then show ?thesis using Cons by simp
  qed
qed simp

lemma tbl_map_mem:
  assumes ok: "tbl_ok t"
  shows "tbl_map t k = Some d \<longleftrightarrow> (\<exists>e \<in> set (concat (ct_nodes t)). ce_key e = k \<and> ce_data e = d)"
proof -
  have "tbl_map t k = Some d \<longleftrightarrow> (\<exists>e \<in> set (ct_chain t k). ce_key e = k \<and> ce_data e = d)"
    unfolding tbl_map_def by (rule chain_get_mem [OF chain_distinct [OF ok]])
  also have "\<dots> \<longleftrightarrow> (\<exists>e \<in> set (concat (ct_nodes t)). ce_key e = k \<and> ce_data e = d)"
  proof
    assume "\<exists>e \<in> set (ct_chain t k). ce_key e = k \<and> ce_data e = d"
    then show "\<exists>e \<in> set (concat (ct_nodes t)). ce_key e = k \<and> ce_data e = d"
      using ct_hash_less [OF ok, of k] nth_mem [of "ct_hash t k" "ct_nodes t"] unfolding ct_chain_def by auto
  next
    assume "\<exists>e \<in> set (concat (ct_nodes t)). ce_key e = k \<and> ce_data e = d"
    then obtain e i where e: "i < length (ct_nodes t)" "e \<in> set (ct_nodes t ! i)" "ce_key e = k" "ce_data e = d"
      by (auto simp: in_set_conv_nth [of _ "ct_nodes t"])
    then have "ct_hash t k = i" using ok by (auto simp: tbl_ok_def)
    then show "\<exists>e \<in> set (ct_chain t k). ce_key e = k \<and> ce_data e = d" using e by (auto simp: ct_chain_def)
  qed
  finally show ?thesis .
qed

lemma fold_chunk_updates:
  assumes "\<forall>e \<in> set es. \<forall>e' \<in> set es. ce_key e = ce_key e' \<longrightarrow> ce_data e = ce_data e'"
  shows "fold (\<lambda>e m. m(ce_key e \<mapsto> ce_data e)) es Map.empty k = Some d \<longleftrightarrow> (\<exists>e \<in> set es. ce_key e = k \<and> ce_data e = d)"
  using assms
proof (induction es rule: rev_induct)
  case (snoc e es)
  show ?case
  proof (cases "ce_key e = k")
    case True
    have same: "ce_data e' = ce_data e" if "e' \<in> set (es @ [e])" "ce_key e' = k" for e'
      using snoc.prems [rule_format, of e' e] that True by simp
    have "fold (\<lambda>e m. m(ce_key e \<mapsto> ce_data e)) (es @ [e]) Map.empty k = Some (ce_data e)" (is "?l = _") using True by simp
    then have "?l = Some d \<longleftrightarrow> ce_data e = d" by (simp only: option.inject)
    also have "ce_data e = d \<longleftrightarrow> (\<exists>e \<in> set (es @ [e]). ce_key e = k \<and> ce_data e = d)"
    proof
      assume "ce_data e = d"
      then show "\<exists>e \<in> set (es @ [e]). ce_key e = k \<and> ce_data e = d" using True by (intro bexI [of _ e]) simp_all
    next
      assume "\<exists>e \<in> set (es @ [e]). ce_key e = k \<and> ce_data e = d"
      then obtain e' where "e' \<in> set (es @ [e])" "ce_key e' = k" "ce_data e' = d" by blast
      then show "ce_data e = d" using same [of e'] by simp
    qed
    finally show ?thesis .
  next
    case False
    have "\<forall>e \<in> set es. \<forall>e' \<in> set es. ce_key e = ce_key e' \<longrightarrow> ce_data e = ce_data e'"
      using snoc.prems unfolding set_append by blast
    note IH = snoc.IH [OF this]
    have "fold (\<lambda>e m. m(ce_key e \<mapsto> ce_data e)) (es @ [e]) Map.empty k = fold (\<lambda>e m. m(ce_key e \<mapsto> ce_data e)) es Map.empty k"
      using False by simp
    moreover have "(\<exists>e \<in> set (es @ [e]). ce_key e = k \<and> ce_data e = d) \<longleftrightarrow> (\<exists>e \<in> set es. ce_key e = k \<and> ce_data e = d)"
      using False by simp
    ultimately show ?thesis using IH by (simp only:)
  qed
qed simp

lemma fold_insert:
  "tbl_ok t \<Longrightarrow> tbl_ok (fold (\<lambda>e t. snd (fchunktbl_insert True t (ce_key e) (ce_data e))) es t) \<and>
     tbl_map (fold (\<lambda>e t. snd (fchunktbl_insert True t (ce_key e) (ce_data e))) es t) = fold (\<lambda>e m. m(ce_key e \<mapsto> ce_data e)) es (tbl_map t)"
proof (induction es arbitrary: t)
  case (Cons e es)
  show ?case using Cons.IH [OF tbl_insert(1) [OF Cons.prems]] tbl_insert(2) [OF Cons.prems, of True] by simp
qed simp

lemma insert_keeps: "ct_size (snd (fchunktbl_insert al t k d)) = ct_size t" "ct_hashfunc (snd (fchunktbl_insert al t k d)) = ct_hashfunc t"
  by (auto simp: fchunktbl_insert_def set_chain_def split: option.splits)

lemma fold_insert_keeps:
  "ct_size (fold (\<lambda>e t. snd (fchunktbl_insert True t (ce_key e) (ce_data e))) es t) = ct_size t"
  "ct_hashfunc (fold (\<lambda>e t. snd (fchunktbl_insert True t (ce_key e) (ce_data e))) es t) = ct_hashfunc t"
  by (induction es arbitrary: t) (simp_all add: insert_keeps)

lemma option_eqI: "(\<And>d. x = Some d \<longleftrightarrow> y = Some d) \<Longrightarrow> x = y"
  by (cases x; cases y) auto

lemma tbl_resize:
  assumes ok: "tbl_ok t" and "sz \<noteq> 0"
  shows "fst (fchunktbl_resize True t sz) = 0" and "tbl_ok (snd (fchunktbl_resize True t sz))"
    and "tbl_map (snd (fchunktbl_resize True t sz)) = tbl_map t"
proof -
  let ?es = "concat (ct_nodes t)" and ?t0 = "\<lparr>ct_size = sz, ct_nodes = replicate (unat sz) [], ct_hashfunc = ct_hashfunc t\<rparr>"
  let ?new = "fold (\<lambda>e t. snd (fchunktbl_insert True t (ce_key e) (ce_data e))) ?es ?t0"
  have "fchunktbl_create True sz (Some (ct_hashfunc t)) = Some ?t0" by (simp add: fchunktbl_create_def)
  note t0 = tbl_create [OF this assms(2)]
  have r: "fchunktbl_resize True t sz = (0, ?new)"
    using fold_insert_keeps [of ?es ?t0] by (simp add: fchunktbl_resize_def Let_def)
  have ins: "tbl_ok ?new" "tbl_map ?new = fold (\<lambda>e m. m(ce_key e \<mapsto> ce_data e)) ?es Map.empty"
    using fold_insert [OF t0(1), of ?es] unfolding t0(2) by (rule conjunct1, rule conjunct2)
  show "fst (fchunktbl_resize True t sz) = 0" "tbl_ok (snd (fchunktbl_resize True t sz))"
    unfolding r using ins(1) by (simp_all only: fst_conv snd_conv)
  have same: "\<forall>e \<in> set ?es. \<forall>e' \<in> set ?es. ce_key e = ce_key e' \<longrightarrow> ce_data e = ce_data e'"
  proof (intro ballI impI)
    fix e e' assume e: "e \<in> set ?es" "e' \<in> set ?es" "ce_key e = ce_key e'"
    have "tbl_map t (ce_key e) = Some (ce_data e)" using tbl_map_mem [OF ok, of "ce_key e" "ce_data e"] e(1) by blast
    moreover have "tbl_map t (ce_key e) = Some (ce_data e')" using tbl_map_mem [OF ok, of "ce_key e" "ce_data e'"] e(2,3) by metis
    ultimately show "ce_data e = ce_data e'" by simp
  qed
  have "tbl_map ?new k = Some d \<longleftrightarrow> tbl_map t k = Some d" for k d
    unfolding ins(2) fold_chunk_updates [OF same] tbl_map_mem [OF ok] ..
  then have "tbl_map ?new = tbl_map t" by (intro ext option_eqI)
  then show "tbl_map (snd (fchunktbl_resize True t sz)) = tbl_map t" unfolding r by (simp only: snd_conv)
qed

section \<open>Properties\<close>

datatype chunk_op = Insert_op string int | Update_op string int | Remove_op string | Get_op string | Resize_op u64

fun chunk_step :: "chunk_op \<Rightarrow> FchunkTbl \<Rightarrow> int \<times> FchunkTbl" where
  "chunk_step (Insert_op k d) t = fchunktbl_insert True t k d"
| "chunk_step (Update_op k d) t = fchunktbl_update t k d"
| "chunk_step (Remove_op k) t = fchunktbl_remove t k"
| "chunk_step (Get_op k) t = (fchunktbl_get t k, t)"
| "chunk_step (Resize_op n) t = fchunktbl_resize True t n"

fun chunk_spec :: "chunk_op \<Rightarrow> (string \<rightharpoonup> int) \<Rightarrow> int \<times> (string \<rightharpoonup> int)" where
  "chunk_spec (Insert_op k d) m = (0, m(k \<mapsto> d))"
| "chunk_spec (Update_op k d) m = (if m k = None then (-1, m) else (0, m(k \<mapsto> d)))"
| "chunk_spec (Remove_op k) m = (if m k = None then -1 else 0, m(k := None))"
| "chunk_spec (Get_op k) m = (case m k of Some d \<Rightarrow> d | None \<Rightarrow> -1, m)"
| "chunk_spec (Resize_op n) m = (0, m)"

fun run_ops :: "('o \<Rightarrow> 's \<Rightarrow> 'r \<times> 's) \<Rightarrow> 'o list \<Rightarrow> 's \<Rightarrow> 'r list \<times> 's" where
  "run_ops f [] s = ([], s)"
| "run_ops f (op # ops) s = (let (r, s) = f op s; (rs, s) = run_ops f ops s in (r # rs, s))"

lemma chunk_step_refines:
  assumes "tbl_ok t" and "op \<noteq> Resize_op 0"
  shows "tbl_ok (snd (chunk_step op t)) \<and> fst (chunk_step op t) = fst (chunk_spec op (tbl_map t)) \<and>
    tbl_map (snd (chunk_step op t)) = snd (chunk_spec op (tbl_map t))"
proof (cases op)
  case (Insert_op k d)
  then show ?thesis using tbl_insert [OF assms(1), of True k d] by simp
next
  case (Update_op k d)
  then show ?thesis using tbl_update [OF assms(1), of k d] by simp
next
  case (Remove_op k)
  then show ?thesis using tbl_remove [OF assms(1), of k] by simp
next
  case (Get_op k)
  then show ?thesis using assms(1) by (simp add: tbl_get)
next
  case (Resize_op n)
  then show ?thesis using tbl_resize [OF assms(1), of n] assms(2) by simp
qed

text \<open>C19.  Whatever the hash function and the size, every sequence of insertions, updates, removals, lookups and
  changes of the size of a chunk table answers as a finite map does.\<close>

theorem chunk_table_refines_map:
  assumes "fchunktbl_create True sz f = Some t" and "sz \<noteq> 0" and "Resize_op 0 \<notin> set ops"
  shows "fst (run_ops chunk_step ops t) = fst (run_ops chunk_spec ops Map.empty) \<and>
    tbl_map (snd (run_ops chunk_step ops t)) = snd (run_ops chunk_spec ops Map.empty)"
proof -
  have "fst (run_ops chunk_step ops t) = fst (run_ops chunk_spec ops (tbl_map t)) \<and>
      tbl_map (snd (run_ops chunk_step ops t)) = snd (run_ops chunk_spec ops (tbl_map t))" if "tbl_ok t" for t
    using that assms(3)
  proof (induction ops arbitrary: t)
    case (Cons op ops)
    then have "tbl_ok (snd (chunk_step op t))" "fst (chunk_step op t) = fst (chunk_spec op (tbl_map t))"
      "tbl_map (snd (chunk_step op t)) = snd (chunk_spec op (tbl_map t))" using chunk_step_refines [of t op] by auto
    then show ?case using Cons.IH [of "snd (chunk_step op t)"] Cons.prems(2) by (simp add: split_beta Let_def)
  qed simp
  then show ?thesis using tbl_create [OF assms(1,2)] by metis
qed

theorem chunk_table_refines_map_witness:
  "fst (run_ops chunk_step [Insert_op ''ab'' 3, Insert_op ''ba'' 4, Update_op ''ab'' 2, Resize_op 5, Get_op ''ab'', Remove_op ''ab'',
      Get_op ''ab'', Get_op ''ba''] (the (fchunktbl_create True 17 None))) = [0, 0, 0, 0, 2, 0, -1, 4]"
proof -
  have "fchunktbl_create True 17 None = Some (the (fchunktbl_create True 17 None))" by (simp add: fchunktbl_create_def)
  from chunk_table_refines_map [OF this, of "[Insert_op ''ab'' 3, Insert_op ''ba'' 4, Update_op ''ab'' 2, Resize_op 5, Get_op ''ab'',
      Remove_op ''ab'', Get_op ''ab'', Get_op ''ba'']"]
  show ?thesis by simp
qed

end
