(* ===== verification/Cmp.thy ===== *)
theory Cmp
  imports Pwt_Job Fchunktbl "HOL-Library.Signed_Division"
begin

text \<open>
  \<^verbatim>\<open>cmp.c\<close>: the application of \<^verbatim>\<open>pftool\<close> that compares files.  It shares the tree walk; a file becomes a pair with
  its destination, a large file one item for each of as many chunks as there are processes.  Workers compare
  pairs, the manager keeps the number of open chunks of every large file in a chunk table and prints a line
  for each file.  The system calls are parameters.
\<close>

section \<open>Files\<close>

text \<open>The errno of a failing \<^verbatim>\<open>lstat\<close>, \<^verbatim>\<open>open\<close>, and the bytes \<^verbatim>\<open>pread\<close> reads from an offset, at most the number given.\<close>

record file_contents =
  fc_errno :: "path \<Rightarrow> int"
  fc_open :: "path \<Rightarrow> int"
  fc_pread :: "path \<Rightarrow> nat \<Rightarrow> nat \<Rightarrow> byte list option"

definition ENOENT :: int where "ENOENT = 2"

definition fileinfo_lstat :: "file_system \<Rightarrow> file_contents \<Rightarrow> FileInfo \<Rightarrow> int \<times> FileInfo" where
  "fileinfo_lstat fs fc finfo =
     (if fi_type finfo \<noteq> FILEINFO_TYPE then (-1, finfo)
      else case fs_lstat fs (fi_path finfo) of
          Some st \<Rightarrow> (0, finfo\<lparr>fi_st := st, fi_exists := 1\<rparr>)
        | None \<Rightarrow> if fc_errno fc (fi_path finfo) \<noteq> ENOENT then (fc_errno fc (fi_path finfo), finfo) else (0, finfo\<lparr>fi_exists := 0\<rparr>))"

text \<open>Sizes are not negative, so the comparison as \<^verbatim>\<open>size_t\<close> is that of the numbers.\<close>

definition fileinfo_isChunkable :: "FileInfo \<Rightarrow> app_options \<Rightarrow> bool" where
  "fileinfo_isChunkable finfo app \<longleftrightarrow> st_size (fi_st finfo) \<ge> a_start_chunking app"

section \<open>Arguments and start\<close>

text \<open>\<open>None\<close>: no room for a path, or the first of no arguments is read.\<close>

definition cmp_take_arg :: "(app_options \<Rightarrow> path) \<Rightarrow> (path \<Rightarrow> app_options \<Rightarrow> app_options) \<Rightarrow> app_options \<Rightarrow> app_options option" where
  "cmp_take_arg field put app =
     (if strIsBlank (field app)
      then (case a_args app of [] \<Rightarrow> None | p # ps \<Rightarrow> map_option (\<lambda>p. put p app\<lparr>a_args := ps\<rparr>) (copy_path p))
      else Some app)"

definition cmp_process_args :: "app_options \<Rightarrow> (bool \<times> app_options) option" where
  "cmp_process_args app0 =
     (let app = app0\<lparr>a_buffersize := 1048576, a_start_chunking := 104857600\<rparr>
      in if strIsBlank (a_start_path app) \<and> strIsBlank (a_dest_path app) \<and> length (a_args app) < 2 then Some (False, app)
         else if (\<not> strIsBlank (a_start_path app) \<or> \<not> strIsBlank (a_dest_path app)) \<and> length (a_args app) > 1 then Some (False, app)
         else do {
           app \<leftarrow> cmp_take_arg a_start_path (\<lambda>p app. app\<lparr>a_start_path := p\<rparr>) app;
           app \<leftarrow> cmp_take_arg a_dest_path (\<lambda>p app. app\<lparr>a_dest_path := p\<rparr>) app;
           Some (True, app) })"

definition cmp_startwork ::
  "int \<Rightarrow> app_options \<Rightarrow> nat \<Rightarrow> Scheduler \<Rightarrow> ((WorkItem \<times> int) option \<times> Scheduler \<times> FchunkTbl) option" where
  "cmp_startwork rank app a sched = do {
     cmp_chunktab \<leftarrow> fchunktbl_create True 17 (Some def_hashfunc);
     sched \<leftarrow> add_path_work rank a (a_start_path app) sched;
     (work, r, sched) \<leftarrow> scheduler_getwork sched;
     Some (map_option (\<lambda>w. (w, r)) work, sched, cmp_chunktab) }"

section \<open>The manager\<close>

text \<open>The verdict on a pair: what is printed, and the table.\<close>

definition cmp_verdict :: "app_options \<Rightarrow> FilePair \<Rightarrow> FchunkTbl \<Rightarrow> FchunkTbl \<times> string list" where
  "cmp_verdict app fpair t =
     (let src = fi_path (fp_src fpair); dest = fi_path (fp_dest fpair); isChunked = fp_chunknum fpair \<ge> 0;
          (t, out) =
            (if \<not> fp_matched fpair then
               let (r, t) = (if isChunked then fchunktbl_update t src 0 else (0, t))
               in (t, if r < 0 then [] else [if a_verbose app then src @ '' DOES NOT MATCH '' @ dest else src @ '' '' @ dest @ '' differs''])
             else
               let chunks_left = (if isChunked then fchunktbl_get t src else 0);
                   (chunks_left, t) = (if chunks_left > 0 then (chunks_left - 1, snd (fchunktbl_update t src (chunks_left - 1))) else (chunks_left, t))
               in (t, if a_verbose app \<and> chunks_left = 0 then [src @ '' MATCHES '' @ dest] else []))
      in (if isChunked \<and> fchunktbl_get t src = 0 then snd (fchunktbl_remove t src) else t, out))"

text \<open>cmp_workdone and cmp_addchunkfile, as functions the manager runs.  \<open>None\<close>: a function that is none of the manager's.\<close>

definition cmp_manager :: "app_options \<Rightarrow> FchunkTbl manager_fn" where
  "cmp_manager app f data t =
     (if f = cmp_workdone then
        (if workitem_hasFileworkstat data
         then map_option (\<lambda>fw. let (t, out) = cmp_verdict app (fw_files fw) t in (t, out, Some (fw_perf fw), True)) (workitem_get_fileworkstat data)
         else Some (t, [], None, True))
      else if f = cmp_addchunkfile then
        (if workitem_hasFilepair data
         then map_option (\<lambda>fp. (snd (fchunktbl_insert True t (fi_path (fp_src fp)) (fp_chunknum fp)), [], None, False)) (workitem_get_filepair data)
         else Some (t, [], None, False))
      else None)"

section \<open>Preparing pairs\<close>

definition set_chunknum :: "WorkItem \<Rightarrow> int \<Rightarrow> WorkItem" where
  "set_chunknum it i = (case workitem_get_filepair it of Some fp \<Rightarrow> it\<lparr>workdata := Some (Work_Pair (fp\<lparr>fp_chunknum := i\<rparr>))\<rparr> | None \<Rightarrow> it)"

definition cmp_sendchunkfileadd :: "int \<Rightarrow> WorkItem \<Rightarrow> call list \<times> WorkItem" where
  "cmp_sendchunkfileadd nproc itembuf =
     (if workitem_hasFilepair itembuf
      then let it = workitem_update_dowork (workitem_set_managerrun (set_chunknum itembuf nproc) True) cmp_addchunkfile
        in ([Send_item (originator itembuf) it], it)
      else ([], itembuf))"

definition cmp_senddone :: "WorkItem \<Rightarrow> FileWorkStat \<Rightarrow> call list" where
  "cmp_senddone itembuf fstat =
     (let it = (if workitem_hasFilepair itembuf then itembuf\<lparr>workdata := None\<rparr> else itembuf)
      in [Send_item (originator itembuf) (fileworkstat_attach fstat (workitem_update_dowork (workitem_set_managerrun it True) cmp_workdone))])"

definition cmp_sendpaths :: "WorkItem \<Rightarrow> call list \<times> WorkItem" where
  "cmp_sendpaths itembuf =
     (let it = workitem_update_queue (workitem_update_dowork (workitem_set_managerrun itembuf False) cmp_compare) 1
      in ([Request (originator itembuf) 1, Send_item (originator itembuf) it], it))"

definition strstr :: "string \<Rightarrow> string \<Rightarrow> nat option" where
  "strstr s sub = find (\<lambda>k. take (length sub) (drop k s) = sub) [0..<Suc (length s)]"

text \<open>The array of the path is filled up with zeros; \<open>None\<close> is a read behind it.\<close>

definition basepath :: "path \<Rightarrow> path \<Rightarrow> path option" where
  "basepath p pre =
     (case strstr p pre of None \<Rightarrow> Some p
      | Some k \<Rightarrow> if k + length pre + 1 < PATHSIZE_PLUS then Some (drop (k + length pre + 1) p) else None)"

fun cmp_send_chunks :: "nat list \<Rightarrow> WorkItem \<Rightarrow> call list" where
  "cmp_send_chunks [] it = []"
| "cmp_send_chunks (i # is) it = (let (c, it) = cmp_sendpaths (set_chunknum it (int i)) in c @ cmp_send_chunks is it)"

definition cmp_process_file :: "file_system \<Rightarrow> file_contents \<Rightarrow> int \<Rightarrow> app_options \<Rightarrow> process_fn" where
  "cmp_process_file fs fc nproc app infile perf =
     (if strIsBlank (fi_path infile) then Some ([], perf)
      else do {
        dpath \<leftarrow> (if a_recursive app then do { base \<leftarrow> basepath (fi_path infile) (a_start_path app); copy_path (a_dest_path app @ ''/'' @ base) }
          else copy_path (a_dest_path app));
        let (staterr, destfile) = fileinfo_lstat fs fc (fileinfo_init dpath None);
        Some (if staterr \<noteq> 0 then ([], perf)
          else let perf = perfstat_inc_counter perf PERF_STAT_CALLS;
                   it = filepair_attach (filepair_new infile destfile) (workitem_update_originator zero_item MANAGER_PROC)
            in if fileinfo_isChunkable infile app \<and> \<not> a_meta_only app
               then let (c, it) = cmp_sendchunkfileadd nproc it in (c @ cmp_send_chunks [0..<nat nproc] it, perf)
               else (fst (cmp_sendpaths it), perf)) })"

section \<open>Comparing\<close>

definition compute_transfer_length :: "int \<Rightarrow> FilePair \<Rightarrow> u64" where
  "compute_transfer_length nproc fpair =
     (let sz = st_size (fi_st (fp_src fpair))
      in if fp_chunknum fpair \<ge> 0
         then word_of_int (sz sdiv nproc) + (if fp_chunknum fpair + 1 = nproc then word_of_int (sz smod nproc) else 0)
         else word_of_int sz)"

definition compute_transfer_offset :: "int \<Rightarrow> FilePair \<Rightarrow> int" where
  "compute_transfer_offset nproc fpair =
     (if fp_chunknum fpair \<ge> 0
      then sint ((word_of_int (st_size (fi_st (fp_src fpair)) sdiv nproc) :: u64) * word_of_int (fp_chunknum fpair)) else 0)"

text \<open>The loop over the buffers from \<open>completed\<close> on, for paths \<open>s\<close> and \<open>d\<close>: whether they do not match.  A read error ends it
  with no mismatch.  \<open>None\<close>: with a buffer of size 0 it never ends.\<close>

function cmp_loop :: "file_contents \<Rightarrow> path \<Rightarrow> path \<Rightarrow> nat \<Rightarrow> nat \<Rightarrow> nat \<Rightarrow> nat \<Rightarrow> bool option" where
  "cmp_loop fc s d offset len bufsize completed =
     (if completed < len then
        if bufsize = 0 then None
        else let bufsize = (if len - completed < bufsize then len - completed else bufsize)
          in (case fc_pread fc s bufsize (completed + offset) of None \<Rightarrow> Some False
              | Some sbuf \<Rightarrow> if length sbuf \<noteq> bufsize then Some False
                else (case fc_pread fc d bufsize (completed + offset) of None \<Rightarrow> Some False
                  | Some dbuf \<Rightarrow> if length dbuf \<noteq> bufsize then Some False
                    else if sbuf \<noteq> dbuf then Some True
                    else cmp_loop fc s d offset len bufsize (completed + bufsize)))
      else Some False)"
  by pat_completeness auto
termination by (relation "measure (\<lambda>(fc, s, d, offset, len, bufsize, completed). len - completed)") (auto split: if_splits)

declare cmp_loop.simps [simp del]

text \<open>The flag \<open>matched\<close> of a pair after the comparison.\<close>

definition cmp_matched :: "file_contents \<Rightarrow> int \<Rightarrow> app_options \<Rightarrow> FilePair \<Rightarrow> bool option" where
  "cmp_matched fc nproc app fp =
     (let s = fp_src fp; d = fp_dest fp; match_size = (st_size (fi_st s) = st_size (fi_st d));
          match_meta = (match_size \<and> st_mtime (fi_st s) = st_mtime (fi_st d))
      in if match_size \<and> \<not> a_meta_only app
         then if fc_open fc (fi_path s) > 0 \<and> fc_open fc (fi_path d) > 0
           then if fi_exists d < 0 then Some True
             else map_option Not (cmp_loop fc (fi_path s) (fi_path d) (nat (compute_transfer_offset nproc fp))
               (unat (compute_transfer_length nproc fp)) (a_buffersize app) 0)
           else Some (fp_matched fp)
         else Some match_meta)"

definition cmp_compare_calls :: "file_contents \<Rightarrow> int \<Rightarrow> app_options \<Rightarrow> timeval \<Rightarrow> timeval \<Rightarrow> WorkItem \<Rightarrow> call list option" where
  "cmp_compare_calls fc nproc app t0 t1 data = do {
     fp \<leftarrow> workitem_get_filepair data;
     let it = workitem_update_originator zero_item (originator data);
     let perf = perfstat_inc_counter (perfstat_set_time perfstat_new PERF_START_TIME t0) PERF_CMP_CALLS;
     (fp, perf) \<leftarrow> (if fi_exists (fp_dest fp) \<noteq> 0
       then map_option (\<lambda>m. (fp\<lparr>fp_matched := m\<rparr>, if m then perfstat_inc_counter perf PERF_FILES_MATCHED else perf)) (cmp_matched fc nproc app fp)
       else Some (fp, perf));
     let perf = perfstat_set_elapcounter (perfstat_set_time perf PERF_END_TIME t1) PERF_CMP_CALLS t1;
     Some (cmp_senddone it (fileworkstat_init fp perf)) }"

text \<open>The work functions by their pointers.\<close>

definition cmp_work :: "file_system \<Rightarrow> file_contents \<Rightarrow> int \<Rightarrow> app_options \<Rightarrow> timeval \<Rightarrow> timeval \<Rightarrow> WorkItem \<Rightarrow> call list option" where
  "cmp_work fs fc nproc app t0 t1 it =
     (case do_work it of
        Some treewalk_readdir \<Rightarrow> treewalk_readdir_calls fs t0 t1 it
      | Some treewalk_statpath \<Rightarrow> treewalk_statpath_calls fs (cmp_process_file fs fc nproc app) t0 t1 it
      | Some cmp_compare \<Rightarrow> cmp_compare_calls fc nproc app t0 t1 it
      | _ \<Rightarrow> None)"

end
