(* ===== verification/Cmp_Spec.thy ===== *)
theory Cmp_Spec
  imports Cmp Treewalk_Spec
begin

text \<open>
  What \<^verbatim>\<open>cmp.c\<close> promises: the chunks of a file cover it exactly; the comparisons of the chunks together decide
  whether two files are equal; and each file gets exactly one verdict, in whatever order the results of its
  chunks arrive.
\<close>

section \<open>Chunks\<close>

lemma u64_of_int: "0 \<le> x \<Longrightarrow> x < 2 ^ 63 \<Longrightarrow> unat (word_of_int x :: u64) = nat x \<and> sint (word_of_int x :: u64) = x"
  by (simp add: unsigned_of_int signed_of_int take_bit_int_eq_self signed_take_bit_int_eq_self)

lemma chunk_arith:
  fixes sz n i :: int
  assumes "0 \<le> sz" and "0 \<le> i" and "i < n"
  shows "(sz div n) * i + (sz div n) + (if i + 1 = n then sz mod n else 0) \<le> sz" and "0 \<le> sz div n" and "0 \<le> sz mod n"
proof -
  have le: "(sz div n) * (i + 1) \<le> (sz div n) * n" using assms by (intro mult_left_mono) (simp_all add: pos_imp_zdiv_nonneg_iff)
  have eq: "(sz div n) * n + sz mod n = sz" by simp
  show m: "0 \<le> sz mod n" "0 \<le> sz div n" using assms by (simp_all add: pos_imp_zdiv_nonneg_iff)
  have e: "(sz div n) * i + (sz div n) = (sz div n) * (i + 1)" by (simp add: distrib_left)
  show "(sz div n) * i + (sz div n) + (if i + 1 = n then sz mod n else 0) \<le> sz"
    unfolding e
  proof (cases "i + 1 = n")
    case True
    then show "(sz div n) * (i + 1) + (if i + 1 = n then sz mod n else 0) \<le> sz" using eq by (simp only: simp_thms if_True order_refl)
  next
    case False
    then show "(sz div n) * (i + 1) + (if i + 1 = n then sz mod n else 0) \<le> sz" using eq le m by (simp only: if_False)
  qed
qed

lemma signed_nonneg:
  fixes sz n :: int
  shows "0 \<le> sz \<Longrightarrow> 0 < n \<Longrightarrow> sz sdiv n = sz div n \<and> sz smod n = sz mod n"
  by (cases "sz = 0") (simp_all add: signed_divide_int_def signed_modulo_int_def)

lemma chunk_values:
  assumes sz: "st_size (fi_st (fp_src fp)) = sz" "0 \<le> sz" "sz < 2 ^ 63" and i: "fp_chunknum fp = i" "0 \<le> i" "i < n" "n < 2 ^ 31"
  shows "compute_transfer_offset n fp = sz div n * i"
    and "unat (compute_transfer_length n fp) = nat (sz div n + (if i + 1 = n then sz mod n else 0))"
proof -
  note ar = chunk_arith [OF sz(2) i(2,3)]
  have n: "0 < n" using i by simp
  have sd: "sz sdiv n = sz div n" "sz smod n = sz mod n" using signed_nonneg [OF sz(2) n] by simp_all
  have "sz div n * i \<le> sz" using ar by (cases "i + 1 = n") simp_all
  then have off: "0 \<le> sz div n * i" "sz div n * i < 2 ^ 63" using ar i sz by simp_all
  have "(word_of_int (sz div n) :: u64) * word_of_int i = word_of_int (sz div n * i)" by simp
  then show "compute_transfer_offset n fp = sz div n * i"
    using u64_of_int [OF off] i by (simp add: compute_transfer_offset_def sz(1) sd Let_def)
  let ?l = "sz div n + (if i + 1 = n then sz mod n else 0)"
  have l: "0 \<le> ?l" "?l < 2 ^ 63" using ar off sz by auto
  have "compute_transfer_length n fp = word_of_int ?l"
    using i by (simp add: compute_transfer_length_def sz(1) sd Let_def)
  then show "unat (compute_transfer_length n fp) = nat ?l" using u64_of_int [OF l] by simp
qed


text \<open>The bytes that the comparison of chunk \<open>i\<close> of a file with \<open>n\<close> chunks covers.\<close>

definition chunk_bytes :: "int \<Rightarrow> FilePair \<Rightarrow> nat \<Rightarrow> nat list" where
  "chunk_bytes n fp i =
     (let off = nat (compute_transfer_offset n (fp\<lparr>fp_chunknum := int i\<rparr>))
      in [off ..< off + unat (compute_transfer_length n (fp\<lparr>fp_chunknum := int i\<rparr>))])"

lemma chunk_bytes_eq:
  assumes sz: "st_size (fi_st (fp_src fp)) = int sz" "sz < 2 ^ 63" and n: "i < n" "n < 2 ^ 31"
  shows "chunk_bytes (int n) fp i = [sz div n * i ..< sz div n * i + (sz div n + (if Suc i = n then sz mod n else 0))]"
proof -
  have "int i + 1 = int n \<longleftrightarrow> Suc i = n" by auto
  moreover have "nat (int sz div int n + int sz mod int n) = sz div n + sz mod n" "nat (int sz div int n) = sz div n"
    by (simp_all only: zdiv_int [symmetric] zmod_int [symmetric] of_nat_add [symmetric] nat_int)
  moreover have "nat (int sz div int n * int i) = sz div n * i"
    by (simp only: zdiv_int [symmetric] of_nat_mult [symmetric] nat_int)
  ultimately show ?thesis
    using chunk_values [of "fp\<lparr>fp_chunknum := int i\<rparr>" "int sz" "int i" "int n"] assms by (simp add: chunk_bytes_def Let_def)
qed

lemma upt_join: "a \<le> b \<Longrightarrow> [0..<a] @ [a..<b] = [0..<b :: nat]"
  by (metis le_add_diff_inverse upt_add_eq_append zero_le)

lemma chunks_before:
  assumes sz: "st_size (fi_st (fp_src fp)) = int sz" "sz < 2 ^ 63" and n: "k < n" "n < 2 ^ 31"
  shows "concat (map (chunk_bytes (int n) fp) [0..<k]) = [0..<sz div n * k]"
  using n(1)
proof (induction k)
  case (Suc k)
  then show ?case using chunk_bytes_eq [OF sz, of k n] n
    by (simp add: upt_join add.commute [of "sz div n"])
qed simp

lemma chunks_tile:
  assumes "st_size (fi_st (fp_src fp)) = int sz" and "sz < 2 ^ 63" and "0 < n" and "n < 2 ^ 31"
  shows "concat (map (chunk_bytes (int n) fp) [0..<n]) = [0..<sz]"
proof -
  obtain k where k: "n = Suc k" using assms(3) by (cases n) auto
  have "sz div n * k + (sz div n + sz mod n) = sz div n * n + sz mod n" by (simp add: k)
  then have "sz div n * k + (sz div n + sz mod n) = sz" by simp
  then show ?thesis
    using chunks_before [OF assms(1,2), of k n] chunk_bytes_eq [OF assms(1,2), of k n] assms(4)
      upt_join [of "sz div n * k" sz] le_add1 [of "sz div n * k" "sz div n + sz mod n"]
    by (simp add: k)
qed


text \<open>Two files of three bytes.\<close>

definition sample_pair :: FilePair where
  "sample_pair = filepair_new ((fileinfo_init ''s/f'' None)\<lparr>fi_st := zero_stat\<lparr>st_size := 3\<rparr>, fi_exists := 1\<rparr>)
     ((fileinfo_init ''d/f'' None)\<lparr>fi_st := zero_stat\<lparr>st_size := 3\<rparr>, fi_exists := 1\<rparr>)"

definition sample_contents :: "byte list \<Rightarrow> byte list \<Rightarrow> file_contents" where
  "sample_contents sdata ddata = \<lparr>fc_errno = \<lambda>_. ENOENT, fc_open = \<lambda>_. 3,
     fc_pread = \<lambda>p k off. Some (take k (drop off (if p = ''s/f'' then sdata else ddata)))\<rparr>"

definition sample_app :: app_options where
  "sample_app = \<lparr>a_start_path = ''s'', a_dest_path = ''d'', a_quiet = False, a_recursive = True, a_meta_only = False, a_verbose = False,
     a_buffersize = 2, a_start_chunking = 3, a_args = []\<rparr>"

lemma sample_pair_simps:
  "fi_path (fp_src sample_pair) = ''s/f''" "fi_path (fp_dest sample_pair) = ''d/f''" "fi_exists (fp_dest sample_pair) = 1"
  "st_size (fi_st (fp_src sample_pair)) = 3" "st_size (fi_st (fp_dest sample_pair)) = 3"
  by (simp_all add: sample_pair_def filepair_new_def fileinfo_init_def)

lemma sample_app_simps: "\<not> a_meta_only sample_app" "0 < a_buffersize sample_app" "\<not> a_verbose sample_app" "a_recursive sample_app"
  "a_start_path sample_app = ''s''" "a_dest_path sample_app = ''d''" "a_start_chunking sample_app = 3"
  by (simp_all add: sample_app_def)

text \<open>C22.  The chunks of a file are disjoint and cover it: read in the order of their numbers, the bytes they compare are the
  bytes of the file from the first to the last, each once, for every number of processes and every size of a file.\<close>

theorem chunks_tile_file:
  assumes "st_size (fi_st (fp_src fp)) = int sz" and "sz < 2 ^ 63" and "0 < n" and "n < 2 ^ 31"
  shows "concat (map (chunk_bytes (int n) fp) [0..<n]) = [0..<sz]"
  using assms by (rule chunks_tile)

theorem chunks_tile_file_witness: "concat (map (chunk_bytes 2 sample_pair) [0..<2]) = [0..<3]"
  using chunks_tile_file [of sample_pair 3 2] by (simp add: sample_pair_simps)

section \<open>Comparing chunks\<close>

text \<open>A file with these bytes: \<^verbatim>\<open>pread\<close> reads as many as asked for, or up to the end.\<close>

definition holds_bytes :: "file_contents \<Rightarrow> path \<Rightarrow> byte list \<Rightarrow> bool" where
  "holds_bytes fc p bs \<longleftrightarrow> fc_open fc p > 0 \<and> (\<forall>k off. fc_pread fc p k off = Some (take k (drop off bs)))"

lemma slice_eq_iff:
  assumes "a + l \<le> length xs" and "a + l \<le> length ys"
  shows "take l (drop a xs) = take l (drop a ys) \<longleftrightarrow> (\<forall>j \<in> set [a..<a + l]. xs ! j = ys ! j)"
proof -
  have "take l (drop a xs) = map ((!) xs) [a..<a + l]" "take l (drop a ys) = map ((!) ys) [a..<a + l]"
    using assms by (auto intro!: nth_equalityI)
  then show ?thesis by (simp add: map_eq_conv)
qed

lemma same_bytes: "length ys = length xs \<Longrightarrow> (\<forall>j \<in> set [0..<length xs]. xs ! j = ys ! j) \<longleftrightarrow> xs = ys"
  by (metis atLeastLessThan_iff nth_equalityI set_upt zero_le)

lemma cmp_loop_run:
  assumes "holds_bytes fc s sdata" and "holds_bytes fc d ddata" and "0 < b"
    and "off + len \<le> length sdata" and "off + len \<le> length ddata" and "c \<le> len"
  shows "cmp_loop fc s d off len b c =
    Some (\<not> (\<forall>j \<in> set [off + c..<off + len]. sdata ! j = ddata ! j))"
  using assms(3,6)
proof (induction "len - c" arbitrary: b c rule: less_induct)
  case less
  show ?case
  proof (cases "c < len")
    case False
    then show ?thesis by (subst cmp_loop.simps) simp
  next
    case True
    define m where "m = (if len - c < b then len - c else b)"
    have m: "0 < m" "c + m \<le> len" using True less.prems by (auto simp: m_def)
    note reads = assms(1,2) [unfolded holds_bytes_def, THEN conjunct2, rule_format]
    have len: "length (take m (drop (c + off) sdata)) = m" "length (take m (drop (c + off) ddata)) = m"
      using assms(4,5) m by auto
    have run: "cmp_loop fc s d off len b c =
      (if take m (drop (c + off) sdata) \<noteq> take m (drop (c + off) ddata) then Some True
       else cmp_loop fc s d off len m (c + m))"
      by (subst cmp_loop.simps) (use True less.prems len in \<open>simp add: m_def [symmetric] reads Let_def\<close>)
    have split: "set [off + c..<off + len] = set [c + off..<c + off + m] \<union> set [off + (c + m)..<off + len]"
      using m by auto
    have first: "take m (drop (c + off) sdata) = take m (drop (c + off) ddata) \<longleftrightarrow> (\<forall>j \<in> set [c + off..<c + off + m]. sdata ! j = ddata ! j)"
      by (rule slice_eq_iff) (use m assms(4,5) in auto)
    show ?thesis
      unfolding run first split ball_Un
      using less.hyps [of "c + m" m] m True by simp
  qed
qed


text \<open>What the comparison of one chunk of two files of the same size finds out.\<close>

lemma chunk_matched:
  assumes "holds_bytes fc (fi_path (fp_src fp)) sdata" and "holds_bytes fc (fi_path (fp_dest fp)) ddata"
    and "st_size (fi_st (fp_src fp)) = int (length sdata)" and "st_size (fi_st (fp_dest fp)) = int (length ddata)"
    and "length ddata = length sdata" and "length sdata < 2 ^ 63" and "fi_exists (fp_dest fp) = 1"
    and "\<not> a_meta_only app" and "0 < a_buffersize app" and "i < n" and "n < 2 ^ 31"
  shows "cmp_matched fc (int n) app (fp\<lparr>fp_chunknum := int i\<rparr>) =
    Some (\<forall>j \<in> set (chunk_bytes (int n) fp i). sdata ! j = ddata ! j)"
proof -
  let ?fp = "fp\<lparr>fp_chunknum := int i\<rparr>"
  let ?off = "nat (compute_transfer_offset (int n) ?fp)" and ?len = "unat (compute_transfer_length (int n) ?fp)"
  have pos: "fc_open fc (fi_path (fp_src fp)) > 0" "fc_open fc (fi_path (fp_dest fp)) > 0"
    using assms(1,2) by (simp_all add: holds_bytes_def)
  have bytes: "chunk_bytes (int n) fp i = [?off..<?off + ?len]" by (simp add: chunk_bytes_def Let_def)
  have tile: "concat (map (chunk_bytes (int n) fp) [0..<n]) = [0..<length sdata]"
    using assms(3,6,10,11) by (intro chunks_tile) simp_all
  have "j < length sdata" if "j \<in> set (chunk_bytes (int n) fp i)" for j
  proof -
    have "j \<in> set (concat (map (chunk_bytes (int n) fp) [0..<n]))" using that assms(10) by auto
    then show ?thesis unfolding tile by simp
  qed
  then have "0 < ?len \<Longrightarrow> ?off + ?len - 1 < length sdata" unfolding bytes by simp
  then have "?len = 0 \<or> ?off + ?len \<le> length sdata" by linarith
  then have "cmp_loop fc (fi_path (fp_src fp)) (fi_path (fp_dest fp)) ?off ?len (a_buffersize app) 0 =
      Some (\<not> (\<forall>j \<in> set [?off..<?off + ?len]. sdata ! j = ddata ! j))"
  proof
    assume "?len = 0"
    then show ?thesis by (simp add: cmp_loop.simps)
  next
    assume "?off + ?len \<le> length sdata"
    then show ?thesis
      using cmp_loop_run [OF assms(1,2,9), of ?off ?len 0] assms(5) by simp
  qed
  then show ?thesis
    using assms(3-5,7,8) pos by (simp add: cmp_matched_def bytes Let_def)
qed

text \<open>The comparisons of all chunks return, and all find a match if and only if the files hold the same bytes, files
  of different sizes included.\<close>

lemma chunks_decide:
  assumes "holds_bytes fc (fi_path (fp_src fp)) sdata" and "holds_bytes fc (fi_path (fp_dest fp)) ddata"
    and "st_size (fi_st (fp_src fp)) = int (length sdata)" and "st_size (fi_st (fp_dest fp)) = int (length ddata)"
    and "length sdata < 2 ^ 63" and "fi_exists (fp_dest fp) = 1"
    and "\<not> a_meta_only app" and "0 < a_buffersize app" and "0 < n" and "n < 2 ^ 31"
  shows "(\<forall>i < n. cmp_matched fc (int n) app (fp\<lparr>fp_chunknum := int i\<rparr>) \<noteq> None) \<and>
    ((\<forall>i < n. cmp_matched fc (int n) app (fp\<lparr>fp_chunknum := int i\<rparr>) = Some True) \<longleftrightarrow> sdata = ddata)"
proof (cases "length ddata = length sdata")
  case False
  then have "sdata \<noteq> ddata" by auto
  then show ?thesis using assms(3,4,9) False by (auto simp: cmp_matched_def Let_def)
next
  case True
  note run = chunk_matched [OF assms(1-4) True assms(5-8) _ assms(10)]
  have tile: "concat (map (chunk_bytes (int n) fp) [0..<n]) = [0..<length sdata]"
    using assms(3,5,9,10) by (intro chunks_tile) simp_all
  have "(\<forall>i < n. \<forall>j \<in> set (chunk_bytes (int n) fp i). sdata ! j = ddata ! j) \<longleftrightarrow>
      (\<forall>j \<in> set (concat (map (chunk_bytes (int n) fp) [0..<n])). sdata ! j = ddata ! j)"
    by auto
  also have "\<dots> \<longleftrightarrow> sdata = ddata" unfolding tile by (rule same_bytes [OF True])
  finally have eq: "(\<forall>i < n. \<forall>j \<in> set (chunk_bytes (int n) fp i). sdata ! j = ddata ! j) \<longleftrightarrow> sdata = ddata" .
  have "cmp_matched fc (int n) app (fp\<lparr>fp_chunknum := int i\<rparr>) = Some True \<longleftrightarrow>
      (\<forall>j \<in> set (chunk_bytes (int n) fp i). sdata ! j = ddata ! j)" if "i < n" for i
    unfolding run [OF that] by simp
  then have "(\<forall>i < n. cmp_matched fc (int n) app (fp\<lparr>fp_chunknum := int i\<rparr>) = Some True) \<longleftrightarrow> sdata = ddata"
    unfolding eq [symmetric] by (intro all_cong)
  moreover have "cmp_matched fc (int n) app (fp\<lparr>fp_chunknum := int i\<rparr>) \<noteq> None" if "i < n" for i
    unfolding run [OF that] by simp
  ultimately show ?thesis by blast
qed


section \<open>Verdicts\<close>

definition matches_lines :: "app_options \<Rightarrow> path \<Rightarrow> path \<Rightarrow> string list" where
  "matches_lines app p d = (if a_verbose app then [p @ '' MATCHES '' @ d] else [])"

definition differs_line :: "app_options \<Rightarrow> path \<Rightarrow> path \<Rightarrow> string" where
  "differs_line app p d = (if a_verbose app then p @ '' DOES NOT MATCH '' @ d else p @ '' '' @ d @ '' differs'')"

text \<open>The results of comparisons in the order they reach the manager: the table, and what is printed on each.\<close>

fun cmp_results :: "app_options \<Rightarrow> FilePair list \<Rightarrow> FchunkTbl \<Rightarrow> FchunkTbl \<times> (path \<times> string list) list" where
  "cmp_results app [] t = (t, [])"
| "cmp_results app (fp # fps) t =
     (let (t, out) = cmp_verdict app fp t; (t, outs) = cmp_results app fps t in (t, (fi_path (fp_src fp), out) # outs))"

definition verdict_lines :: "path \<Rightarrow> (path \<times> string list) list \<Rightarrow> string list" where
  "verdict_lines p outs = concat (map snd (filter (\<lambda>(q, _). q = p) outs))"

lemma verdict_keeps:
  assumes ok: "tbl_ok t"
  shows "tbl_ok (fst (cmp_verdict app fp t))"
    and "q \<noteq> fi_path (fp_src fp) \<Longrightarrow> tbl_map (fst (cmp_verdict app fp t)) q = tbl_map t q"
  using tbl_update(2) tbl_remove(2) ok tbl_update(3) tbl_remove(3)
  by (simp_all add: cmp_verdict_def Let_def case_prod_beta)

text \<open>The result of a chunk of a file with \<open>k\<close> chunks left, or none.\<close>

lemma verdict_chunk:
  assumes ok: "tbl_ok t" and fp: "fi_path (fp_src fp) = p" "fi_path (fp_dest fp) = d" "0 \<le> fp_chunknum fp"
  shows "tbl_map t p = None \<Longrightarrow> snd (cmp_verdict app fp t) = [] \<and> tbl_map (fst (cmp_verdict app fp t)) p = None"
    and "tbl_map t p = Some k \<Longrightarrow> \<not> fp_matched fp \<Longrightarrow>
      snd (cmp_verdict app fp t) = [differs_line app p d] \<and> tbl_map (fst (cmp_verdict app fp t)) p = None"
    and "tbl_map t p = Some k \<Longrightarrow> fp_matched fp \<Longrightarrow> 0 < k \<Longrightarrow>
      snd (cmp_verdict app fp t) = (if k = 1 then matches_lines app p d else []) \<and>
      tbl_map (fst (cmp_verdict app fp t)) p = (if k = 1 then None else Some (k - 1))"
  using tbl_update [OF ok] tbl_remove(3) fp ok
  by (simp_all add: cmp_verdict_def Let_def case_prod_beta tbl_get differs_line_def matches_lines_def)


lemma verdict_lines_Cons: "verdict_lines p ((q, out) # outs) = (if q = p then out @ verdict_lines p outs else verdict_lines p outs)"
  by (simp add: verdict_lines_def)

lemma no_entry_no_line:
  assumes "tbl_ok t" and "tbl_map t p = None" and "\<forall>fp \<in> set fps. fi_path (fp_src fp) = p \<longrightarrow> 0 \<le> fp_chunknum fp"
  shows "verdict_lines p (snd (cmp_results app fps t)) = [] \<and> tbl_map (fst (cmp_results app fps t)) p = None \<and> tbl_ok (fst (cmp_results app fps t))"
  using assms
proof (induction fps arbitrary: t)
  case Nil
  then show ?case by (simp add: verdict_lines_def)
next
  case (Cons fp fps)
  define t1 where "t1 = fst (cmp_verdict app fp t)"
  have none: "tbl_map t1 p = None"
    using verdict_keeps(2) [OF Cons.prems(1), of p fp app] verdict_chunk(1) [OF Cons.prems(1), of fp p _ app] Cons.prems(2,3)
    unfolding t1_def by (cases "p = fi_path (fp_src fp)") auto
  have ok: "tbl_ok t1" unfolding t1_def by (rule verdict_keeps(1) [OF Cons.prems(1)])
  have out: "fi_path (fp_src fp) = p \<Longrightarrow> snd (cmp_verdict app fp t) = []"
    using verdict_chunk(1) [OF Cons.prems(1), of fp p _ app] Cons.prems(2,3) by auto
  show ?case
    using Cons.IH [OF ok none] Cons.prems(3) out
    by (simp add: t1_def [symmetric] case_prod_beta Let_def verdict_lines_Cons)
qed

lemma verdicts_run:
  assumes "tbl_ok t" and "tbl_map t p = Some (int (length (filter (\<lambda>fp. fi_path (fp_src fp) = p) fps)))"
    and "filter (\<lambda>fp. fi_path (fp_src fp) = p) fps \<noteq> []"
    and "\<forall>fp \<in> set fps. fi_path (fp_src fp) = p \<longrightarrow> 0 \<le> fp_chunknum fp \<and> fi_path (fp_dest fp) = d"
  shows "verdict_lines p (snd (cmp_results app fps t)) =
      (if \<forall>fp \<in> set fps. fi_path (fp_src fp) = p \<longrightarrow> fp_matched fp then matches_lines app p d else [differs_line app p d]) \<and>
    tbl_map (fst (cmp_results app fps t)) p = None \<and> tbl_ok (fst (cmp_results app fps t))"
  using assms
proof (induction fps arbitrary: t)
  case Nil
  then show ?case by simp
next
  case (Cons fp fps)
  define t1 where "t1 = fst (cmp_verdict app fp t)"
  have ok: "tbl_ok t1" unfolding t1_def by (rule verdict_keeps(1) [OF Cons.prems(1)])
  have run: "cmp_results app (fp # fps) t = (fst (cmp_results app fps t1), (fi_path (fp_src fp), snd (cmp_verdict app fp t)) # snd (cmp_results app fps t1))"
    by (simp add: t1_def case_prod_beta Let_def)
  have chunks: "\<forall>fp \<in> set fps. fi_path (fp_src fp) = p \<longrightarrow> 0 \<le> fp_chunknum fp" using Cons.prems(4) by simp
  show ?case
  proof (cases "fi_path (fp_src fp) = p")
    case False
    then have "tbl_map t1 p = tbl_map t p" unfolding t1_def by (intro verdict_keeps(2) [OF Cons.prems(1)]) simp
    then show ?thesis using Cons.IH [OF ok] Cons.prems(2-4) False unfolding run by (simp add: verdict_lines_Cons)
  next
    case True
    note chunk = verdict_chunk [OF Cons.prems(1) True, where app = app, folded t1_def]
    have d: "fi_path (fp_dest fp) = d" "0 \<le> fp_chunknum fp" using Cons.prems(4) True by simp_all
    let ?rest = "filter (\<lambda>fp. fi_path (fp_src fp) = p) fps"
    have k: "tbl_map t p = Some (int (Suc (length ?rest)))" using Cons.prems(2) True by simp
    show ?thesis
    proof (cases "fp_matched fp")
      case False
      then show ?thesis
        using chunk(2) [OF d k] no_entry_no_line [OF ok _ chunks] True unfolding run by (auto simp: verdict_lines_Cons)
    next
      case matched: True
      note c = chunk(3) [OF d k matched]
      show ?thesis
      proof (cases "?rest = []")
        case True
        then have "tbl_map t1 p = None" "snd (cmp_verdict app fp t) = matches_lines app p d" using c by simp_all
        moreover have "\<forall>fp \<in> set fps. fi_path (fp_src fp) \<noteq> p" using True by (simp add: filter_empty_conv)
        ultimately show ?thesis
          using no_entry_no_line [OF ok _ chunks] matched \<open>fi_path (fp_src fp) = p\<close> unfolding run by (auto simp: verdict_lines_Cons)
      next
        case False
        then have "tbl_map t1 p = Some (int (length ?rest))" "snd (cmp_verdict app fp t) = []" using c by simp_all
        then show ?thesis
          using Cons.IH [OF ok _ False] Cons.prems(4) matched True unfolding run by (simp add: verdict_lines_Cons)
      qed
    qed
  qed
qed

lemma verdicts_of:
  assumes "tbl_ok t0" and "t = snd (fchunktbl_insert True t0 p (int n))" and "0 < n"
    and "length (filter (\<lambda>fp. fi_path (fp_src fp) = p) fps) = n"
    and "\<forall>fp \<in> set fps. fi_path (fp_src fp) = p \<longrightarrow> 0 \<le> fp_chunknum fp \<and> fi_path (fp_dest fp) = d"
  shows "verdict_lines p (snd (cmp_results app fps t)) =
      (if \<forall>fp \<in> set fps. fi_path (fp_src fp) = p \<longrightarrow> fp_matched fp then matches_lines app p d else [differs_line app p d]) \<and>
    tbl_map (fst (cmp_results app fps t)) p = None"
proof -
  have "tbl_ok t" "tbl_map t p = Some (int n)" using tbl_insert(1,2) [OF assms(1), of True] assms(2) by simp_all
  moreover have "filter (\<lambda>fp. fi_path (fp_src fp) = p) fps \<noteq> []" using assms(3,4) by auto
  ultimately show ?thesis using verdicts_run [of t p fps d app] assms(4,5) by blast
qed

text \<open>The pair of chunk \<open>i\<close> as the worker sends it back.\<close>

definition chunk_result :: "file_contents \<Rightarrow> nat \<Rightarrow> app_options \<Rightarrow> FilePair \<Rightarrow> nat \<Rightarrow> FilePair" where
  "chunk_result fc n app fp i =
     (let fp = fp\<lparr>fp_chunknum := int i\<rparr> in fp\<lparr>fp_matched := (cmp_matched fc (int n) app fp = Some True)\<rparr>)"

text \<open>C8.  The verdict on a large file is right and is given once: a file is compared in chunks by any number of processes,
  its entry is put in the chunk table, and the results of its chunks reach the manager in any order and between
  the results of any other files.  Then, with regular files that can be read, one line is printed on it, that the
  files differ, if their bytes or their sizes differ; if they are equal, none, or one that they match
  when the output is verbose; and its entry is gone.\<close>

theorem compare_verdict:
  assumes "holds_bytes fc (fi_path (fp_src fp)) sdata" and "holds_bytes fc (fi_path (fp_dest fp)) ddata"
    and "st_size (fi_st (fp_src fp)) = int (length sdata)" and "st_size (fi_st (fp_dest fp)) = int (length ddata)"
    and "length sdata < 2 ^ 63" and "fi_exists (fp_dest fp) = 1"
    and "\<not> a_meta_only app" and "0 < a_buffersize app" and "0 < n" and "n < 2 ^ 31"
    and "tbl_ok t0" and "t = snd (fchunktbl_insert True t0 (fi_path (fp_src fp)) (int n))"
    and "mset (filter (\<lambda>r. fi_path (fp_src r) = fi_path (fp_src fp)) rs) = mset (map (chunk_result fc n app fp) [0..<n])"
  shows "verdict_lines (fi_path (fp_src fp)) (snd (cmp_results app rs t)) =
      (if sdata = ddata then matches_lines app (fi_path (fp_src fp)) (fi_path (fp_dest fp))
       else [differs_line app (fi_path (fp_src fp)) (fi_path (fp_dest fp))]) \<and>
    tbl_map (fst (cmp_results app rs t)) (fi_path (fp_src fp)) = None"
proof -
  let ?p = "fi_path (fp_src fp)"
  let ?rs = "filter (\<lambda>r. fi_path (fp_src r) = ?p) rs"
  have len: "length ?rs = n" using mset_eq_length [OF assms(13)] by simp
  have set: "set ?rs = chunk_result fc n app fp ` {0..<n}" using mset_eq_setD [OF assms(13)] by simp
  have "\<forall>r \<in> set ?rs. 0 \<le> fp_chunknum r \<and> fi_path (fp_dest r) = fi_path (fp_dest fp)"
    unfolding set by (simp add: chunk_result_def Let_def)
  then have "\<forall>r \<in> set rs. fi_path (fp_src r) = ?p \<longrightarrow> 0 \<le> fp_chunknum r \<and> fi_path (fp_dest r) = fi_path (fp_dest fp)" by simp
  note v = verdicts_of [OF assms(11,12,9) len this]
  have "(\<forall>r \<in> set rs. fi_path (fp_src r) = ?p \<longrightarrow> fp_matched r) \<longleftrightarrow> (\<forall>r \<in> set ?rs. fp_matched r)" by auto
  also have "\<dots> \<longleftrightarrow> (\<forall>i < n. cmp_matched fc (int n) app (fp\<lparr>fp_chunknum := int i\<rparr>) = Some True)"
    unfolding set by (auto simp: chunk_result_def Let_def)
  also have "\<dots> \<longleftrightarrow> sdata = ddata" using chunks_decide [OF assms(1-10)] by blast
  finally show ?thesis using v by simp
qed

theorem compare_verdict_witness:
  "\<exists>t0. fchunktbl_create True 17 (Some def_hashfunc) = Some t0 \<and>
     (let t = snd (fchunktbl_insert True t0 ''s/f'' (int 2)); fc = sample_contents [1, 2, 3] [1, 2, 4];
          rs = [chunk_result fc 2 sample_app sample_pair 1, chunk_result fc 2 sample_app sample_pair 0]
      in verdict_lines ''s/f'' (snd (cmp_results sample_app rs t)) = [''s/f d/f differs''])"
proof -
  obtain t0 where t0: "fchunktbl_create True 17 (Some def_hashfunc) = Some t0" by (simp add: fchunktbl_create_def)
  let ?fc = "sample_contents [1, 2, 3] [1, 2, 4]"
  let ?rs = "[chunk_result ?fc 2 sample_app sample_pair 1, chunk_result ?fc 2 sample_app sample_pair 0]"
  have "holds_bytes ?fc ''s/f'' [1, 2, 3]" "holds_bytes ?fc ''d/f'' [1, 2, 4]"
    by (simp_all add: holds_bytes_def sample_contents_def)
  moreover have "fi_path (fp_src (chunk_result ?fc 2 sample_app sample_pair i)) = ''s/f''" for i
    by (simp add: chunk_result_def sample_pair_simps Let_def)
  moreover have two: "[0..<2] = [0, 1 :: nat]" by (simp add: upt_rec)
  ultimately show ?thesis
    using compare_verdict [of ?fc sample_pair "[1, 2, 3]" "[1, 2, 4]" sample_app 2, OF _ _ _ _ _ _ _ _ _ _ tbl_create(1) [OF t0] refl, of ?rs, THEN conjunct1] t0
      two by (simp add: sample_pair_simps sample_app_simps differs_line_def Let_def add_mset_commute del: cmp_results.simps)
qed


section \<open>Work items\<close>

definition compare_item :: "FilePair \<Rightarrow> WorkItem" where
  "compare_item fp = zero_item\<lparr>originator := MANAGER_PROC, do_work := Some cmp_compare, qidx := 1, workdata := Some (Work_Pair fp)\<rparr>"

definition chunks_item :: "FilePair \<Rightarrow> WorkItem" where
  "chunks_item fp = zero_item\<lparr>originator := MANAGER_PROC, do_work := Some cmp_addchunkfile, manager_run := True, workdata := Some (Work_Pair fp)\<rparr>"

lemma sendpaths_pair:
  assumes "it = compare_item fp \<or> it = chunks_item fp"
  shows "cmp_sendpaths (set_chunknum it i) =
    ([Request MANAGER_PROC 1, Send_item MANAGER_PROC (compare_item (fp\<lparr>fp_chunknum := i\<rparr>))], compare_item (fp\<lparr>fp_chunknum := i\<rparr>))"
  using assms by (auto simp: cmp_sendpaths_def set_chunknum_def compare_item_def chunks_item_def item_simps Let_def)

lemma send_chunks_run:
  assumes "it = compare_item fp \<or> it = chunks_item fp"
  shows "cmp_send_chunks is it =
    concat (map (\<lambda>i. [Request MANAGER_PROC 1, Send_item MANAGER_PROC (compare_item (fp\<lparr>fp_chunknum := int i\<rparr>))]) is)"
  using assms
proof (induction "is" arbitrary: it fp)
  case (Cons i "is")
  have "fp\<lparr>fp_chunknum := int i, fp_chunknum := int j\<rparr> = fp\<lparr>fp_chunknum := int j\<rparr>" for j by simp
  then show ?case
    using Cons.IH [of "compare_item (fp\<lparr>fp_chunknum := int i\<rparr>)" "fp\<lparr>fp_chunknum := int i\<rparr>"] sendpaths_pair [OF Cons.prems, of "int i"]
    by (simp add: Let_def)
qed simp

lemma basepath_below: "length (pre @ c # rel) < PATHSIZE_PLUS \<Longrightarrow> basepath (pre @ c # rel) pre = Some rel"
  by (simp add: basepath_def strstr_def upt_rec [of 0])


lemma not_blank: "strIsBlank (xs @ CHR ''/'' # ys) = False"
  by (simp add: strIsBlank_def)

text \<open>C21.  A large file below the start path is compared in as many chunks as there are processes: the worker first has the
  manager put that number in the chunk table, then asks for room and sends one comparison for each chunk
  number, each once and in order; the destination is the same path below the destination path.\<close>

theorem process_file_chunks:
  assumes "a_recursive app" and "\<not> a_meta_only app" and "fi_path infile = a_start_path app @ ''/'' @ rel"
    and "length (fi_path infile) < PATHSIZE_PLUS" and "dest = a_dest_path app @ ''/'' @ rel" and "length dest < PATHSIZE_PLUS"
    and "fs_lstat fs dest = Some st" and "fileinfo_isChunkable infile app"
    and "pair = filepair_new infile ((fileinfo_init dest None)\<lparr>fi_st := st, fi_exists := 1\<rparr>)"
  shows "cmp_process_file fs fc nproc app infile perf =
    Some (Send_item MANAGER_PROC (chunks_item (pair\<lparr>fp_chunknum := nproc\<rparr>)) #
        concat (map (\<lambda>i. [Request MANAGER_PROC 1, Send_item MANAGER_PROC (compare_item (pair\<lparr>fp_chunknum := int i\<rparr>))]) [0..<nat nproc]),
      perfstat_inc_counter perf PERF_STAT_CALLS)"
proof -
  have base: "basepath (fi_path infile) (a_start_path app) = Some rel" "strIsBlank (fi_path infile) = False"
    using basepath_below [of "a_start_path app" "CHR ''/''" rel] assms(3,4) not_blank by simp_all
  have copy: "copy_path (a_dest_path app @ CHR ''/'' # rel) = Some dest" using assms(5,6) by (simp add: copy_path_def)
  have stat: "fileinfo_lstat fs fc (fileinfo_init dest None) = (0, (fileinfo_init dest None)\<lparr>fi_st := st, fi_exists := 1\<rparr>)"
    using assms(7) by (simp add: fileinfo_lstat_def fileinfo_init_def)
  have it: "filepair_attach pair (workitem_update_originator zero_item MANAGER_PROC) =
      zero_item\<lparr>originator := MANAGER_PROC, workdata := Some (Work_Pair pair)\<rparr>"
    by (simp add: filepair_attach_def item_simps)
  have add: "cmp_sendchunkfileadd nproc (zero_item\<lparr>originator := MANAGER_PROC, workdata := Some (Work_Pair pair)\<rparr>) =
      ([Send_item MANAGER_PROC (chunks_item (pair\<lparr>fp_chunknum := nproc\<rparr>))], chunks_item (pair\<lparr>fp_chunknum := nproc\<rparr>))"
    unfolding assms(9) by (simp add: cmp_sendchunkfileadd_def chunks_item_def set_chunknum_def filepair_new_def item_simps Let_def)
  show ?thesis
    using send_chunks_run [of "chunks_item (pair\<lparr>fp_chunknum := nproc\<rparr>)" "pair\<lparr>fp_chunknum := nproc\<rparr>" "[0..<nat nproc]"]
      assms(1,2,8) base copy stat it add
    by (simp add: cmp_process_file_def Let_def flip: assms(9))
qed

theorem process_file_chunks_witness:
  "\<exists>cs perf. cmp_process_file \<lparr>fs_lstat = \<lambda>_. Some zero_stat, fs_readdir = \<lambda>_. None, fs_closedir = \<lambda>_. True\<rparr> (sample_contents [] []) 2 sample_app
     (fp_src sample_pair) perfstat_new = Some (cs, perf) \<and> length cs = 5"
  using process_file_chunks [of sample_app "fp_src sample_pair" "''f''" _
    "\<lparr>fs_lstat = \<lambda>_. Some zero_stat, fs_readdir = \<lambda>_. None, fs_closedir = \<lambda>_. True\<rparr>", OF _ _ _ _ refl _ _ _ refl, of zero_stat
    "sample_contents [] []" 2 perfstat_new]
  by (simp add: sample_pair_simps sample_app_simps fileinfo_isChunkable_def PATHSIZE_PLUS_def upt_rec numeral_2_eq_2)

text \<open>C23.  A comparison is reported to the manager with its verdict: the item of a chunk makes the worker send one item back, a
  function of the manager, with the pair marked by what was found; the manager prints the verdict on it, counts one
  comparison and takes the worker for idle.\<close>

theorem compare_is_reported:
  assumes "cmp_matched fc (int n) app (fp\<lparr>fp_chunknum := int i\<rparr>) \<noteq> None" and "0 < fi_exists (fp_dest fp)"
  shows "\<exists>res perf. cmp_compare_calls fc (int n) app t0 t1 (compare_item (fp\<lparr>fp_chunknum := int i\<rparr>)) = Some [Send_item MANAGER_PROC res] \<and>
    do_work res = Some cmp_workdone \<and> manager_run res \<and>
    cmp_manager app cmp_workdone res t =
      Some (fst (cmp_verdict app (chunk_result fc n app fp i) t), snd (cmp_verdict app (chunk_result fc n app fp i) t), Some perf, True) \<and>
    perf_counts perf PERF_CMP_CALLS = 1 \<and> perf_counts perf PERF_FILES_MATCHED = of_bool (fp_matched (chunk_result fc n app fp i))"
proof -
  obtain m where m: "cmp_matched fc (int n) app (fp\<lparr>fp_chunknum := int i\<rparr>) = Some m" using assms(1) by blast
  let ?fp = "chunk_result fc n app fp i"
  have fp: "?fp = fp\<lparr>fp_chunknum := int i, fp_matched := m\<rparr>" by (simp add: chunk_result_def m Let_def)
  let ?p0 = "perfstat_inc_counter (perfstat_set_time perfstat_new PERF_START_TIME t0) PERF_CMP_CALLS"
  let ?p = "if m then perfstat_inc_counter ?p0 PERF_FILES_MATCHED else ?p0"
  let ?perf = "perfstat_set_elapcounter (perfstat_set_time ?p PERF_END_TIME t1) PERF_CMP_CALLS t1"
  let ?res = "zero_item\<lparr>originator := MANAGER_PROC, do_work := Some cmp_workdone, manager_run := True,
    workdata := Some (Work_Stat (fileworkstat_init ?fp ?perf))\<rparr>"
  have calls: "cmp_compare_calls fc (int n) app t0 t1 (compare_item (fp\<lparr>fp_chunknum := int i\<rparr>)) = Some [Send_item MANAGER_PROC ?res]"
    using assms(2) m
    by (simp add: cmp_compare_calls_def compare_item_def cmp_senddone_def fileworkstat_attach_def item_simps fp Let_def)
  have manager: "cmp_manager app cmp_workdone ?res t = Some (fst (cmp_verdict app ?fp t), snd (cmp_verdict app ?fp t), Some ?perf, True)"
    by (simp add: cmp_manager_def fileworkstat_init_def item_simps case_prod_beta Let_def)
  have "perf_counts ?perf PERF_CMP_CALLS = 1 \<and> perf_counts ?perf PERF_FILES_MATCHED = of_bool (fp_matched ?fp)"
    by (simp add: fp perf_idx)
  then show ?thesis using calls manager by (intro exI [of _ ?res] exI [of _ ?perf]) simp
qed

theorem compare_is_reported_witness:
  "\<exists>res. cmp_compare_calls (sample_contents [1, 2, 3] [1, 2, 4]) (int 2) sample_app (5, 0) (6, 0) (compare_item (sample_pair\<lparr>fp_chunknum := int 0\<rparr>)) =
     Some [Send_item MANAGER_PROC res] \<and> do_work res = Some cmp_workdone"
proof -
  have "holds_bytes (sample_contents [1, 2, 3] [1, 2, 4]) ''s/f'' [1, 2, 3]" "holds_bytes (sample_contents [1, 2, 3] [1, 2, 4]) ''d/f'' [1, 2, 4]"
    by (simp_all add: holds_bytes_def sample_contents_def)
  then have "\<forall>i < 2. cmp_matched (sample_contents [1, 2, 3] [1, 2, 4]) (int 2) sample_app (sample_pair\<lparr>fp_chunknum := int i\<rparr>) \<noteq> None"
    by (intro chunks_decide [of _ _ "[1, 2, 3]" "[1, 2, 4]", THEN conjunct1]) (simp_all add: sample_pair_simps sample_app_simps)
  then have "cmp_matched (sample_contents [1, 2, 3] [1, 2, 4]) (int 2) sample_app (sample_pair\<lparr>fp_chunknum := int 0\<rparr>) \<noteq> None"
    by (rule allE [of _ 0]) simp
  from compare_is_reported [OF this, of "(5, 0)" "(6, 0)"] show ?thesis by (auto simp: sample_pair_simps)
qed

text \<open>C38.  A file that cannot be read is taken for equal: when every read of the source fails, the comparison of two
  files of the same size, or of any of their chunks, ends with a match.\<close>

theorem unreadable_files_match:
  assumes "fc_open fc (fi_path (fp_src fp)) > 0" and "fc_open fc (fi_path (fp_dest fp)) > 0"
    and "st_size (fi_st (fp_src fp)) = st_size (fi_st (fp_dest fp))" and "\<forall>k off. fc_pread fc (fi_path (fp_src fp)) k off = None"
    and "\<not> a_meta_only app" and "0 < a_buffersize app"
  shows "cmp_matched fc nproc app fp = Some True"
proof -
  have "cmp_loop fc (fi_path (fp_src fp)) d off len (a_buffersize app) 0 = Some False" for d off len
    using assms(4,6) by (subst cmp_loop.simps) (simp add: Let_def)
  then show ?thesis using assms(1-3,5) by (simp add: cmp_matched_def Let_def)
qed

theorem unreadable_files_match_witness:
  "cmp_matched ((sample_contents [1] [2])\<lparr>fc_pread := \<lambda>_ _ _. None\<rparr>) 2 sample_app sample_pair = Some True"
  by (rule unreadable_files_match) (simp_all add: sample_contents_def sample_pair_simps sample_app_simps)

end
