(* ===== verification/Spec2Isabelle.thy ===== *)
theory Spec2Isabelle
  imports Messages_Private Mpi_Coll Mpi_P2P Mdhim_Start Server_Threads Treewalk_Run Cmp_Spec
begin

text \<open>
  A verification of the MPI-on-OpenSHMEM library, of the distributed key/value store MDHIM and of the parallel
  file tool pftool.

  \<^bold>\<open>The program.\<close>  The repository has three parts of its own.  \<^verbatim>\<open>src/src/mpi_to_openshmem.c\<close> implements a part of
  MPI on top of OpenSHMEM: communicators and groups, packing, collectives over symmetric buffers,
  point-to-point messages by remote writes that the other side polls.  \<^verbatim>\<open>src/mdhimMods/src\<close> is the
  key/value store MDHIM, adapted to that library: every process is a client, some are range servers.
  A client computes the slice of a key (\<^verbatim>\<open>partitioner.c\<close>), packs a request (\<^verbatim>\<open>messages.c\<close>) and sends it to
  the range server of the slice; its listener thread puts the request into a work queue, its worker
  thread takes it out, calls the data store (\<^verbatim>\<open>ds_leveldb.c\<close>), keeps statistics per slice in a uthash
  table and sends the response back (\<^verbatim>\<open>range_server.c\<close>).  Stopping the server writes the statistics to a
  database of their own, starting it reads them.  \<^verbatim>\<open>src/pftool-new-test/src\<close> is \<^verbatim>\<open>pftool\<close>: a framework of a manager
  and workers that exchange work items (\<^verbatim>\<open>pwt\<close>: queues, scheduler, requests for room in a queue), and two
  applications on it (\<^verbatim>\<open>apps\<close>): a tree walk, and the comparison of trees, whose large files are compared in
  chunks that the manager counts in a table.

  \<^bold>\<open>The theories.\<close>
  \<^item> \<^verbatim>\<open>Prelude\<close>: C integers as words, byte images of integers, byte memory, lists.
  \<^item> \<^verbatim>\<open>Openshmem\<close>: the OpenSHMEM calls as a parameter (\<open>shmem_lib\<close>), what their documentation promises as a
    locale, a reference library for witnesses; CopyMyData and GetBufferOffset.
  \<^item> \<^verbatim>\<open>Mpi_Comm\<close>: MPI_Init, MPI_Init_thread, ranks, groups, MPI_Comm_create, MPI_Comm_dup, GetNumBytes.
  \<^item> \<^verbatim>\<open>Mpi_Pack\<close>: MPI_Pack and MPI_Unpack on the memories of all processing elements; the locale \<open>packer\<close> is what
    the message code relies on, interpreted by these two functions on a symmetric buffer; \<open>private_pack\<close> and
    \<open>private_unpack\<close> are the same functions on a buffer from malloc, which go through the staging area of the
    communicator.
  \<^item> \<^verbatim>\<open>Mpi_Coll\<close>: MPI_Bcast, MPI_Gather, MPI_Allgather as phases between barriers, for every order in which
    the processing elements run within a phase.
  \<^item> \<^verbatim>\<open>Mpi_P2P\<close>: MPI_Send, MPI_Recv, MPI_Isend, MPI_Irecv, MPI_Test.
  \<^item> \<^verbatim>\<open>Uthash\<close>: the macros of \<^verbatim>\<open>uthash.h\<close> the program uses, with integer keys: Jenkins hash, buckets and their
    chains, expansion, application order.  The locale \<open>int_table\<close> is the map contract its users rely on.
  \<^item> \<^verbatim>\<open>Long_Double\<close>: rounding to the 64-bit significand of the x87 format and the values of float and double keys.
  \<^item> \<^verbatim>\<open>Mdhim_Base\<close>, \<^verbatim>\<open>Partitioner\<close>: constants; all of \<^verbatim>\<open>partitioner.c\<close>.
  \<^item> \<^verbatim>\<open>Messages\<close>: the structures of \<^verbatim>\<open>messages.h\<close> with their byte images, and all packing and unpacking functions.
    \<^verbatim>\<open>Messages_Private\<close>: what the repository's own MPI_Pack leaves in their send buffers, which come from malloc.
  \<^item> \<^verbatim>\<open>Key_Compare\<close>: the comparators of \<^verbatim>\<open>ds_leveldb.c\<close>; the locale \<open>key_order\<close> (a total order) and its instances.
  \<^item> \<^verbatim>\<open>Data_Store\<close>: the operations of \<^verbatim>\<open>ds_leveldb.c\<close> over a parameter for LevelDB; the locales \<open>leveldb_db\<close> (what
    LevelDB promises) and \<open>ordered_store\<close> (what the range server relies on), the second a sublocale of the first.
  \<^item> \<^verbatim>\<open>Work_Queue\<close>: the linked work queue in a heap; the locale \<open>fifo\<close>.
  \<^item> \<^verbatim>\<open>Transport\<close>: the functions of \<^verbatim>\<open>messages.c\<close> that send and receive requests and responses; the locale
    \<open>mpi_channels\<close> is what MPI promises them.  \<^verbatim>\<open>Network\<close>: the same functions on requests and responses in
    transit, and a reference network.
  \<^item> \<^verbatim>\<open>Range_Server\<close>: state, handlers, statistics and dispatch of \<^verbatim>\<open>range_server.c\<close>.  \<^verbatim>\<open>Server_Spec\<close>: the abstract
    specification (a finite map) and the simulation.  \<^verbatim>\<open>Server_Props\<close>: its properties.  \<^verbatim>\<open>Server_Stats\<close>: the
    statistics on disk.  \<^verbatim>\<open>Server_Threads\<close>: the listener and worker threads as a step relation.
  \<^item> \<^verbatim>\<open>Mdhim_Client\<close>: \<^verbatim>\<open>client.c\<close>, \<^verbatim>\<open>local_client.c\<close> and the operations of \<^verbatim>\<open>mdhim.c\<close>, on the state of the whole
    cluster (\<open>world\<close>: network, work queue and server of every process).  \<^verbatim>\<open>Cluster\<close>: one round of the
    listener and of the worker thread on that state, and schedules of such rounds.  \<^verbatim>\<open>Cluster_Run\<close>: the
    locale \<open>mdhim_cluster\<close> and the progress of requests through any fair schedule.  \<^verbatim>\<open>Cluster_Calls\<close>: one call
    of a client.  \<^verbatim>\<open>Bulk_Split\<close>: how the bulk operations split their records among servers.
  \<^item> \<^verbatim>\<open>Mdhim_Spec\<close>: the specification of the API as one finite map, and the operations on one record.
    \<^verbatim>\<open>Mdhim_Bulk\<close>, \<^verbatim>\<open>Mdhim_Refines\<close>: the bulk operations.  \<^verbatim>\<open>Mdhim_System\<close>: sequences of calls, the
    refinement, and a cluster of two servers as an interpretation of the locale.
  \<^item> \<^verbatim>\<open>Mdhim_Start\<close>: mdhimInit of all processes: what every process does on its own, the exchange of the list of
    range servers (over a parameter for MPI_Allgather), the communicator of the range servers.
  \<^item> \<^verbatim>\<open>Pwt_Item\<close>: the structures of \<^verbatim>\<open>pftool\<close> (work items, path buffers, work requests, statistics, pairs of files)
    and their operations.  \<^verbatim>\<open>Pwt_Workq\<close>: its work queues in a heap.  \<^verbatim>\<open>Pwt_Sched\<close>: \<^verbatim>\<open>scheduler.c\<close>.
  \<^item> \<^verbatim>\<open>Treewalk\<close>: the work functions of \<^verbatim>\<open>treewalk.c\<close>, over any file system, as the list of their calls that other
    processes see.  \<^verbatim>\<open>Treewalk_Spec\<close>: trees of files, and what the functions send and print.  \<^verbatim>\<open>Treewalk_Law\<close>: what an
    item stands for, and that the work functions keep it.
  \<^item> \<^verbatim>\<open>Pwt_Job\<close>: \<^verbatim>\<open>manager.c\<close>, \<^verbatim>\<open>worker.c\<close> and \<^verbatim>\<open>converse.c\<close> as steps of the processes, and schedules of such steps.
    \<^verbatim>\<open>Pwt_Correct\<close>: the invariant of a job, and the locale \<open>pwt_app\<close>: what the framework relies on in an application
    (its functions end with a report, and pass on what their item stands for), and that nothing is lost or doubled.
    \<^verbatim>\<open>Pwt_Progress\<close>: the locale \<open>pwt_live\<close> extends it by a rank that gets smaller with every item, for progress.
    \<^verbatim>\<open>Treewalk_Run\<close>: both for the tree walk, and its properties.
  \<^item> \<^verbatim>\<open>Fchunktbl\<close>: the chunk table as a map.  \<^verbatim>\<open>Cmp\<close>: \<^verbatim>\<open>cmp.c\<close>.  \<^verbatim>\<open>Cmp_Spec\<close>: chunks, comparisons and verdicts.

  \<^bold>\<open>How code becomes definitions.\<close>  A C structure is a record, an \<^verbatim>\<open>int\<close> a word of 32 bits where its width can
  be seen and an integer where it is only compared; a pointer to a block that is read and written is
  an address with the bytes behind it (\<open>blob\<close>); shared memory is a function from processing elements
  and addresses to bytes; shared linked structures are heaps.  A function yields its return code and
  the new state.  \<open>None\<close> is undefined behaviour, or a call that never returns where the text says so.
  What malloc returns, uninitialised values and the clock are parameters.

  \<^bold>\<open>What the theorems show.\<close>  The MPI part: sub-communicators have the right ranks, packing
  and the collectives deliver for the element types they support, a message at a time arrives; and where they
  do not (private buffers, small types, sub-communicators whose ranks are not processing
  elements, values that do not fit in an int) what happens instead.  MDHIM: every slice has a server, string
  keys keep their order; the store obeys put-get-delete and walks in key
  order; the server refines a finite map for every sequence of requests, under every interleaving of
  its threads, its statistics cover all keys and survive a restart; and the whole system, from the
  calls of the API through packing, network, queues, threads and stores and back, refines one finite
  map for sequences of put, get, delete, commit and the bulk operations.  pftool: the manager's scheduler takes the oldest item of the highest queue; a tree walk prints every
  file once and counts right under every interleaving of manager and workers, and can always end unless a worker
  has left too early; the chunks of a file cover it, and the results of their comparisons, in any order, lead to
  one verdict, the right one.  Properties that
  state a defect are marked as safety properties and listed as findings.

  \<^bold>\<open>MDHIM and the MPI below it.\<close>  The theorems on requests in transit (\<open>Network\<close>), on the whole system
  (\<open>Mdhim_System\<close>) and on the exchange of the range servers (\<open>Mdhim_Start.startup_ready\<close>) take packing,
  messages and MPI_Allgather as MPI documents them; these are the hypotheses \<open>packer\<close>, \<open>mpi_channels\<close> and
  \<open>allgather_ok\<close>.  The repository's own functions keep them only in part, and the theorems on these functions
  say where.  MPI_Pack and MPI_Unpack are a packer on symmetric buffers (\<open>Mpi_Pack\<close>); \<^verbatim>\<open>messages.c\<close> packs into
  buffers from malloc, where a message of one block arrives and of a longer one only the beginning is in the
  send buffer (\<open>Messages_Private\<close>).  MPI_Send and MPI_Recv deliver one message at a time; a second send before the
  receive overwrites the first (\<open>Mpi_P2P\<close>).  MPI_Allgather delivers 8-byte elements; for the MPI_PACKED bytes
  that get_rangesrvs exchanges in buffers from malloc it passes overlapping areas to OpenSHMEM, and what
  arrives is unspecified (\<open>Mpi_Coll\<close>).  What mdhimInit does before and after that exchange rests on the
  repository's own communicator functions.

  \<^bold>\<open>Bounds and fuel.\<close>  Loops are structural recursions; the loop of load_stats runs on fuel, and one round
  more than there are slices is shown to be enough.  MPI_Send's polling loop is a single wait whose end is
  \<open>None\<close> when the expected value cannot come.

  \<^bold>\<open>Not modelled.\<close>  LevelDB, OpenSHMEM and the POSIX calls are parameters.  Mlog is logging.  \<^verbatim>\<open>hashUtils.c\<close> does not
  compile (the types it uses are declared nowhere).  Opening and closing of the databases, release of memory,
  thread creation and locking are not modelled; of the release of memory, the bulk put has the list of the
  blocks it frees, because it frees one twice.  The staging area of a communicator is as large as a theorem
  says; the code gives it 200000 bytes and checks no size against that.  Two clients that call at the same time are not: a call
  starts when the one before it has returned.  mdhimClose, mdhimStatFlush, MPI_Gatherv and MPI_Iprobe are not modelled.
  pftool is modelled over MPI as its standard documents it (messages between two processes keep their order, a
  probe may miss a message), because it cannot run on this library, whose probe always answers yes; its main program,
  the ls format of a line, the final reports and the debugging output are left out.
\<close>

end
